(* ===== verification/Prelude.thy ===== *)
theory Prelude
  imports Main "HOL-Library.Word" "HOL-Library.Monad_Syntax"
begin

unbundle bit_operations_syntax

text \<open>
  The vocabulary every component shares: the machine word, the constants of
  \<^verbatim>\<open>src/headers/const.h\<close> (with the interrupt line numbers its comment takes from the
  uMPS3 headers), the theorem collections, and the few lemmas on lists, options and maps that
  several component proofs use.

  Everything the kernel stores is 32 bits wide: \<^typ>\<open>32 word\<close> is the C
  \<^verbatim>\<open>unsigned int\<close>, a pointer is its address, and \<^verbatim>\<open>NULL\<close> is 0. C's
  \<^verbatim>\<open>int\<close> fields are kept as the same 32 bits, since the code only compares them for
  equality or adds to them.
\<close>

section \<open>Machine words and pointers\<close>

type_synonym u32 = "32 word"
type_synonym ptr = "32 word"

abbreviation (input) NULL :: ptr where "NULL \<equiv> 0"

section \<open>Constants of const.h\<close>

abbreviation (input) MAXPROC :: nat where "MAXPROC \<equiv> 50"
abbreviation (input) MAXMESSAGES :: nat where "MAXMESSAGES \<equiv> 50"

abbreviation (input) ANYMESSAGE :: u32 where "ANYMESSAGE \<equiv> 0"
abbreviation (input) MSGNOGOOD :: u32 where "MSGNOGOOD \<equiv> - 1"
abbreviation (input) DEST_NOT_EXIST :: u32 where "DEST_NOT_EXIST \<equiv> - 2"
abbreviation (input) SENDMESSAGE :: u32 where "SENDMESSAGE \<equiv> - 1"
abbreviation (input) RECEIVEMESSAGE :: u32 where "RECEIVEMESSAGE \<equiv> - 2"
abbreviation (input) NOPROC :: u32 where "NOPROC \<equiv> - 1"
abbreviation (input) OFF :: u32 where "OFF \<equiv> 0"

abbreviation (input) CREATEPROCESS :: u32 where "CREATEPROCESS \<equiv> 1"
abbreviation (input) TERMPROCESS :: u32 where "TERMPROCESS \<equiv> 2"
abbreviation (input) DOIO :: u32 where "DOIO \<equiv> 3"
abbreviation (input) GETTIME :: u32 where "GETTIME \<equiv> 4"
abbreviation (input) CLOCKWAIT :: u32 where "CLOCKWAIT \<equiv> 5"
abbreviation (input) GETSUPPORTPTR :: u32 where "GETSUPPORTPTR \<equiv> 6"
abbreviation (input) GETPROCESSID :: u32 where "GETPROCESSID \<equiv> 7"

abbreviation (input) ALLOFF :: u32 where "ALLOFF \<equiv> 0x00000000"
abbreviation (input) USERPON :: u32 where "USERPON \<equiv> 0x00000008"
abbreviation (input) IEPON :: u32 where "IEPON \<equiv> 0x00000004"
abbreviation (input) IECON :: u32 where "IECON \<equiv> 0x00000001"
abbreviation (input) IMON :: u32 where "IMON \<equiv> 0x0000FF00"
abbreviation (input) TEBITON :: u32 where "TEBITON \<equiv> 0x08000000"

abbreviation (input) GETEXECCODE :: u32 where "GETEXECCODE \<equiv> 0x0000007C"
abbreviation (input) CLEAREXECCODE :: u32 where "CLEAREXECCODE \<equiv> 0xFFFFFF00"
abbreviation (input) LOCALTIMERINT :: u32 where "LOCALTIMERINT \<equiv> 0x00000200"
abbreviation (input) TIMERINTERRUPT :: u32 where "TIMERINTERRUPT \<equiv> 0x00000400"
abbreviation (input) DISKINTERRUPT :: u32 where "DISKINTERRUPT \<equiv> 0x00000800"
abbreviation (input) FLASHINTERRUPT :: u32 where "FLASHINTERRUPT \<equiv> 0x00001000"
abbreviation (input) NETWORKINTERRUPT :: u32 where "NETWORKINTERRUPT \<equiv> 0x00002000"
abbreviation (input) PRINTINTERRUPT :: u32 where "PRINTINTERRUPT \<equiv> 0x00004000"
abbreviation (input) TERMINTERRUPT :: u32 where "TERMINTERRUPT \<equiv> 0x00008000"
abbreviation (input) IOINTERRUPTS :: u32 where "IOINTERRUPTS \<equiv> 0"
abbreviation (input) TLBINVLDS :: u32 where "TLBINVLDS \<equiv> 3"
abbreviation (input) STARTPROGTRAPEXC :: u32 where "STARTPROGTRAPEXC \<equiv> 4"
abbreviation (input) STOPPROGTRAPEXC :: u32 where "STOPPROGTRAPEXC \<equiv> 7"
abbreviation (input) SYSEXCEPTION :: u32 where "SYSEXCEPTION \<equiv> 8"
abbreviation (input) BREAKEXCEPTION :: u32 where "BREAKEXCEPTION \<equiv> 9"
abbreviation (input) ENDPROGTRAPEXC :: u32 where "ENDPROGTRAPEXC \<equiv> 12"
abbreviation (input) PRIVINSTR :: u32 where "PRIVINSTR \<equiv> 10"
abbreviation (input) CAUSESHIFT :: nat where "CAUSESHIFT \<equiv> 2"

abbreviation (input) PGFAULTEXCEPT :: nat where "PGFAULTEXCEPT \<equiv> 0"
abbreviation (input) GENERALEXCEPT :: nat where "GENERALEXCEPT \<equiv> 1"

abbreviation (input) DEV0ON :: u32 where "DEV0ON \<equiv> 0x00000001"
abbreviation (input) DEV1ON :: u32 where "DEV1ON \<equiv> 0x00000002"
abbreviation (input) DEV2ON :: u32 where "DEV2ON \<equiv> 0x00000004"
abbreviation (input) DEV3ON :: u32 where "DEV3ON \<equiv> 0x00000008"
abbreviation (input) DEV4ON :: u32 where "DEV4ON \<equiv> 0x00000010"
abbreviation (input) DEV5ON :: u32 where "DEV5ON \<equiv> 0x00000020"
abbreviation (input) DEV6ON :: u32 where "DEV6ON \<equiv> 0x00000040"
abbreviation (input) DEV7ON :: u32 where "DEV7ON \<equiv> 0x00000080"

abbreviation (input) OKCHARTRANS :: u32 where "OKCHARTRANS \<equiv> 5"
abbreviation (input) CHARRECV :: u32 where "CHARRECV \<equiv> 5"

abbreviation (input) PAGESIZE :: u32 where "PAGESIZE \<equiv> 4096"
abbreviation (input) WORDLEN :: u32 where "WORDLEN \<equiv> 4"
abbreviation (input) RAMBASEADDR :: u32 where "RAMBASEADDR \<equiv> 0x10000000"
abbreviation (input) RAMBASESIZE :: u32 where "RAMBASESIZE \<equiv> 0x10000004"
abbreviation (input) TIMESCALEADDR :: u32 where "TIMESCALEADDR \<equiv> 0x10000024"
abbreviation (input) KERNELSTACK :: u32 where "KERNELSTACK \<equiv> 0x20001000"
abbreviation (input) PSECOND :: u32 where "PSECOND \<equiv> 100000"
abbreviation (input) TIMESLICE :: u32 where "TIMESLICE \<equiv> 5000"
abbreviation (input) START_DEVREG :: u32 where "START_DEVREG \<equiv> 0x10000054"
abbreviation (input) MAXPAGES :: nat where "MAXPAGES \<equiv> 32"
abbreviation (input) PASSUPVECTOR :: u32 where "PASSUPVECTOR \<equiv> 0x0FFFF900"
abbreviation (input) CAUSE_IP_MASK :: u32 where "CAUSE_IP_MASK \<equiv> 0x0000FF00"
abbreviation (input) GETPAGENO :: u32 where "GETPAGENO \<equiv> 0x3FFFF000"
abbreviation (input) VPNSHIFT :: nat where "VPNSHIFT \<equiv> 12"

section \<open>Interrupt lines and device registers\<close>

text \<open>
  Interrupt line numbers and the layout of the device registers are those of the uMPS3 manual
  the repository ships (\<^verbatim>\<open>src/docs\<close>): line 1 is the processor local timer, line 2 the
  interval timer, lines 3 to 7 the disk, flash, network, printer and terminal devices, eight
  devices to a line, sixteen bytes of registers to a device.  The interrupt masks of
  \<^verbatim>\<open>const.h\<close> agree with them (bit 8 + line), and so do its two device addresses
  \<^verbatim>\<open>TERM0ADDR\<close> and \<^verbatim>\<open>PRINT0ADDR\<close>.
\<close>

abbreviation (input) IL_DISK :: u32 where "IL_DISK \<equiv> 3"
abbreviation (input) IL_FLASH :: u32 where "IL_FLASH \<equiv> 4"
abbreviation (input) IL_ETHERNET :: u32 where "IL_ETHERNET \<equiv> 5"
abbreviation (input) IL_PRINTER :: u32 where "IL_PRINTER \<equiv> 6"
abbreviation (input) IL_TERMINAL :: u32 where "IL_TERMINAL \<equiv> 7"
abbreviation (input) ACK :: u32 where "ACK \<equiv> 1"

abbreviation (input) PRINT0ADDR :: u32 where "PRINT0ADDR \<equiv> 0x100001d4"
abbreviation (input) TERM0ADDR :: u32 where "TERM0ADDR \<equiv> 0x10000254"

definition DEV_REG_ADDR :: "u32 \<Rightarrow> u32 \<Rightarrow> u32" where
  "DEV_REG_ADDR line dev = START_DEVREG + (line - 3) * 0x80 + dev * 0x10"

text \<open>Offsets of the register fields: the same four words, named once for disks, flash devices,
  network cards and printers and once for terminals.\<close>

abbreviation (input) dtp_status :: u32 where "dtp_status \<equiv> 0"
abbreviation (input) dtp_command :: u32 where "dtp_command \<equiv> 4"
abbreviation (input) dtp_data0 :: u32 where "dtp_data0 \<equiv> 8"
abbreviation (input) recv_status :: u32 where "recv_status \<equiv> 0"
abbreviation (input) recv_command :: u32 where "recv_command \<equiv> 4"
abbreviation (input) transm_status :: u32 where "transm_status \<equiv> 8"
abbreviation (input) transm_command :: u32 where "transm_command \<equiv> 12"

lemma DEV_REG_ADDR_printer0: "DEV_REG_ADDR IL_PRINTER 0 = PRINT0ADDR"
  by (simp add: DEV_REG_ADDR_def)

lemma DEV_REG_ADDR_terminal0: "DEV_REG_ADDR IL_TERMINAL 0 = TERM0ADDR"
  by (simp add: DEV_REG_ADDR_def)

section \<open>Theorem collections\<close>

named_theorems list_frame \<open>what a list operation leaves alone\<close>
named_theorems queue_step \<open>effect of each operation on the abstract queues\<close>
named_theorems kernel_frame \<open>state fields an operation does not write\<close>

section \<open>Lists and maps\<close>

lemma find_Some_split:
  "find P xs = Some x \<Longrightarrow> P x \<and> x \<in> set xs"
  by (auto simp: find_Some_iff)

lemma remove1_middle:
  "x \<notin> set ys \<Longrightarrow> remove1 x (ys @ x # zs) = ys @ zs"
  by (induction ys) auto

lemma distinct_split_unique:
  assumes "distinct (ys @ x # zs)"
  shows "x \<notin> set ys" "x \<notin> set zs"
  using assms by auto

lemma dom_update_same [simp]: "m k = Some x \<Longrightarrow> dom (m(k \<mapsto> y)) = dom m"
  by auto

lemma bind_Some_iff:
  "(m \<bind> f) = Some y \<longleftrightarrow> (\<exists>x. m = Some x \<and> f x = Some y)"
  by (cases m) auto

lemma distinct_concat_map:
  assumes "distinct xs" "\<And>x. x \<in> set xs \<Longrightarrow> distinct (g x)"
    and "\<And>x y. x \<in> set xs \<Longrightarrow> y \<in> set xs \<Longrightarrow> x \<noteq> y \<Longrightarrow> set (g x) \<inter> set (g y) = {}"
  shows "distinct (concat (map g xs))"
  using assms
proof (induction xs)
  case (Cons x xs)
  have "set (g x) \<inter> set (g y) = {}" if "y \<in> set xs" for y
    using Cons.prems(1) that by (intro Cons.prems(3)) auto
  moreover have "distinct (concat (map g xs))"
    using Cons.prems by (intro Cons.IH) auto
  ultimately show ?case using Cons.prems(2) by auto
qed simp

lemma map_injection_remove1:
  "inj f \<Longrightarrow> map f (remove1 x xs) = remove1 (f x) (map f xs)"
  by (induction xs) (auto simp: inj_def)

end
