(* ===== verification/Listx.thy ===== *)
theory Listx
  imports Prelude
begin

text \<open>
  The intrusive doubly linked lists of \<^verbatim>\<open>src/headers/listx.h\<close>.  A
  \<^verbatim>\<open>struct list_head\<close> is named by the object that contains it: the four list heads a PCB
  embeds, the one a message embeds, and the global heads of the kernel.  The memory of all list
  heads is a pair of functions, \<open>next\<close> and \<open>prev\<close>; every operation is the sequence of stores the C
  code makes, so aliasing (a node linked into two lists, a stale \<open>next\<close> after a deletion) is what it
  is in the source.

  \<open>dlist h q xs\<close> says that in memory \<open>h\<close> the head \<open>q\<close> owns exactly the nodes \<open>xs\<close>; each operation is
  then shown to be an operation on \<open>xs\<close>, and to leave lists with other nodes alone.
\<close>

section \<open>List heads and their memory\<close>

text \<open>The addresses of the list heads.  \<open>LH_NULL\<close> is the null pointer, \<open>LOCAL_HEAD\<close> a head in a local
  variable, which only \<^verbatim>\<open>p1test.c\<close> has.\<close>

datatype lh =
    LH_NULL
  | P_LIST ptr
  | P_CHILD ptr
  | P_SIB ptr
  | MSG_INBOX ptr
  | M_LIST ptr
  | pcbFree_h
  | msgFree_h
  | readyQueue
  | blockedDiskQueue
  | blockedFlashQueue
  | blockedEthernetQueue
  | blockedPrinterQueue
  | blockedTerminalTransmQueue
  | blockedTerminalRecvQueue
  | pseudoClockQueue
  | LOCAL_HEAD nat

record list_head =
  nxt :: "lh \<Rightarrow> lh"
  prv :: "lh \<Rightarrow> lh"

definition set_next :: "lh \<Rightarrow> lh \<Rightarrow> list_head \<Rightarrow> list_head" where
  "set_next n v h = h\<lparr>nxt := (nxt h)(n := v)\<rparr>"

definition set_prev :: "lh \<Rightarrow> lh \<Rightarrow> list_head \<Rightarrow> list_head" where
  "set_prev n v h = h\<lparr>prv := (prv h)(n := v)\<rparr>"

lemma set_next_simps [simp]:
  "nxt (set_next n v h) = (nxt h)(n := v)" "prv (set_next n v h) = prv h"
  by (simp_all add: set_next_def)

lemma set_prev_simps [simp]:
  "prv (set_prev n v h) = (prv h)(n := v)" "nxt (set_prev n v h) = nxt h"
  by (simp_all add: set_prev_def)

section \<open>The operations\<close>

text \<open>\<open>container_of\<close> on the three embedded heads the code applies it to.  On any other address the
  macro computes a pointer to no object of that type; that is \<^const>\<open>None\<close>.\<close>

fun container_of_p_list :: "lh \<Rightarrow> ptr option" where
  "container_of_p_list (P_LIST p) = Some p"
| "container_of_p_list _ = None"

fun container_of_p_sib :: "lh \<Rightarrow> ptr option" where
  "container_of_p_sib (P_SIB p) = Some p"
| "container_of_p_sib _ = None"

fun container_of_m_list :: "lh \<Rightarrow> ptr option" where
  "container_of_m_list (M_LIST m) = Some m"
| "container_of_m_list _ = None"

definition INIT_LIST_HEAD :: "lh \<Rightarrow> list_head \<Rightarrow> list_head" where
  "INIT_LIST_HEAD l h = set_prev l l (set_next l l h)"

text \<open>\<^verbatim>\<open>__list_add(new, prev, next)\<close>: four stores, in the code's order.\<close>

definition list_add_between :: "lh \<Rightarrow> lh \<Rightarrow> lh \<Rightarrow> list_head \<Rightarrow> list_head" where
  "list_add_between n p x h =
     set_next p n (set_prev n p (set_next n x (set_prev x n h)))"

definition list_add :: "lh \<Rightarrow> lh \<Rightarrow> list_head \<Rightarrow> list_head" where
  "list_add n head h = list_add_between n head (nxt h head) h"

definition list_add_tail :: "lh \<Rightarrow> lh \<Rightarrow> list_head \<Rightarrow> list_head" where
  "list_add_tail n head h = list_add_between n (prv h head) head h"

text \<open>\<^verbatim>\<open>__list_del(prev, next)\<close>.\<close>

definition list_del_between :: "lh \<Rightarrow> lh \<Rightarrow> list_head \<Rightarrow> list_head" where
  "list_del_between p x h = set_next p x (set_prev x p h)"

definition list_del :: "lh \<Rightarrow> list_head \<Rightarrow> list_head" where
  "list_del e h = list_del_between (prv h e) (nxt h e) h"

definition list_is_last :: "lh \<Rightarrow> lh \<Rightarrow> list_head \<Rightarrow> bool" where
  "list_is_last l head h \<longleftrightarrow> nxt h l = head"

definition list_empty :: "lh \<Rightarrow> list_head \<Rightarrow> bool" where
  "list_empty head h \<longleftrightarrow> nxt h head = head"

definition list_next :: "lh \<Rightarrow> list_head \<Rightarrow> lh" where
  "list_next c h = (if list_empty c h then LH_NULL else nxt h c)"

definition list_prev :: "lh \<Rightarrow> list_head \<Rightarrow> lh" where
  "list_prev c h = (if list_empty c h then LH_NULL else prv h c)"

text \<open>
  \<^verbatim>\<open>list_for_each(pos, head) { if (test(pos)) return pos; }\<close>: the walk with an early
  exit that \<open>outProcQ\<close>, \<open>popMessage\<close> and \<open>unlockPcbDevNo\<close> make.  The result is the position the walk
  stopped at, or \<open>None\<close> inside \<open>Some\<close> if it came back to the head.  The outer \<open>None\<close> is a walk
  that never comes back to the head, or a test that dereferences a pointer to no object.
\<close>

partial_function (option) list_for_each_until ::
  "(lh \<Rightarrow> bool option) \<Rightarrow> lh \<Rightarrow> lh \<Rightarrow> list_head \<Rightarrow> lh option option" where
  "list_for_each_until test pos head h =
     (if pos = head then Some None
      else do {
        b \<leftarrow> test pos;
        if b then Some (Some pos) else list_for_each_until test (nxt h pos) head h
      })"

section \<open>Well-formed lists\<close>

text \<open>\<open>links h a xs b\<close>: going forward from \<open>a\<close> one passes through \<open>xs\<close> and arrives at \<open>b\<close>, and every
  step back undoes the step forward.\<close>

fun links :: "list_head \<Rightarrow> lh \<Rightarrow> lh list \<Rightarrow> lh \<Rightarrow> bool" where
  "links h a [] b \<longleftrightarrow> nxt h a = b \<and> prv h b = a"
| "links h a (x # xs) b \<longleftrightarrow> nxt h a = x \<and> prv h x = a \<and> links h x xs b"

definition dlist :: "list_head \<Rightarrow> lh \<Rightarrow> lh list \<Rightarrow> bool" where
  "dlist h q xs \<longleftrightarrow> distinct (q # xs) \<and> links h q xs q"

lemma links_append:
  "links h a (xs @ y # ys) b \<longleftrightarrow> links h a xs y \<and> links h y ys b"
  by (induction xs arbitrary: a) auto

lemma links_cong:
  assumes "\<And>z. z = a \<or> z \<in> set xs \<Longrightarrow> nxt h' z = nxt h z"
    and "\<And>z. z = b \<or> z \<in> set xs \<Longrightarrow> prv h' z = prv h z"
  shows "links h' a xs b \<longleftrightarrow> links h a xs b"
  using assms by (induction xs arbitrary: a) auto

lemma links_unique:
  "links h a xs b \<Longrightarrow> links h a ys b \<Longrightarrow> b \<notin> set xs \<Longrightarrow> b \<notin> set ys \<Longrightarrow> xs = ys"
proof (induction xs arbitrary: a ys)
  case Nil
  then show ?case by (cases ys) auto
next
  case (Cons x xs)
  then show ?case by (cases ys) auto
qed

text \<open>The contents of a head are determined by the memory.\<close>

lemma dlist_unique: "dlist h q xs \<Longrightarrow> dlist h q ys \<Longrightarrow> xs = ys"
  by (auto simp: dlist_def intro: links_unique)

lemma dlist_distinct: "dlist h q xs \<Longrightarrow> distinct xs"
  by (simp add: dlist_def)

lemma dlist_head_notin: "dlist h q xs \<Longrightarrow> q \<notin> set xs"
  by (simp add: dlist_def)

lemma dlist_frame:
  assumes "\<And>z. z = q \<or> z \<in> set xs \<Longrightarrow> nxt h' z = nxt h z \<and> prv h' z = prv h z"
  shows "dlist h' q xs \<longleftrightarrow> dlist h q xs"
  unfolding dlist_def using links_cong [of q xs h' h q] assms by auto

lemma dlist_next:
  "dlist h q xs \<Longrightarrow> nxt h q = (case xs of [] \<Rightarrow> q | x # _ \<Rightarrow> x)"
  by (cases xs) (auto simp: dlist_def)

lemma dlist_prev:
  assumes "dlist h q xs"
  shows "prv h q = (if xs = [] then q else last xs)"
proof (cases xs rule: rev_cases)
  case Nil
  with assms show ?thesis by (simp add: dlist_def)
next
  case (snoc ys y)
  with assms show ?thesis by (auto simp: dlist_def links_append)
qed

lemma dlist_empty_iff: "dlist h q xs \<Longrightarrow> list_empty q h \<longleftrightarrow> xs = []"
  by (cases xs) (auto simp: dlist_def list_empty_def)

section \<open>What the operations do to a list\<close>

lemma INIT_LIST_HEAD_dlist: "dlist (INIT_LIST_HEAD q h) q []"
  by (simp add: dlist_def INIT_LIST_HEAD_def)

lemma INIT_LIST_HEAD_frame [list_frame]:
  "z \<noteq> l \<Longrightarrow> nxt (INIT_LIST_HEAD l h) z = nxt h z \<and> prv (INIT_LIST_HEAD l h) z = prv h z"
  by (simp add: INIT_LIST_HEAD_def)

lemma list_add_between_links:
  assumes "links h a xs p" and "links h x ys b" and "nxt h p = x" and "prv h x = p"
    and "distinct (a # xs @ [p])" and "distinct (ys @ [b])"
    and "n \<notin> insert a (set xs)" "n \<noteq> p" "n \<noteq> x" "n \<notin> insert b (set ys)"
  shows "nxt (list_add_between n p x h) p = n \<and> prv (list_add_between n p x h) n = p
    \<and> nxt (list_add_between n p x h) n = x \<and> prv (list_add_between n p x h) x = n"
  using assms by (auto simp: list_add_between_def)

lemma list_add_tail_dlist:
  assumes d: "dlist h q xs" and n: "n \<notin> insert q (set xs)"
  shows "dlist (list_add_tail n q h) q (xs @ [n])"
proof (cases xs rule: rev_cases)
  case Nil
  with assms show ?thesis
    by (auto simp: dlist_def list_add_tail_def list_add_between_def)
next
  case (snoc ys y)
  let ?h = "list_add_tail n q h"
  from d snoc have l: "links h q ys y" and qy: "prv h q = y" "nxt h y = q"
    and dis: "distinct (q # ys @ [y])"
    by (auto simp: dlist_def links_append)
  have "links ?h q ys y \<longleftrightarrow> links h q ys y"
    by (rule links_cong)
      (use dis n snoc qy in \<open>auto simp: list_add_tail_def list_add_between_def\<close>)
  moreover have "links ?h y [n] q"
    using dis n snoc qy by (auto simp: list_add_tail_def list_add_between_def)
  ultimately have "links ?h q (ys @ y # [n]) q"
    using l by (simp only: links_append)
  then show ?thesis using d n snoc by (auto simp: dlist_def)
qed

lemma list_add_dlist:
  assumes d: "dlist h q xs" and n: "n \<notin> insert q (set xs)"
  shows "dlist (list_add n q h) q (n # xs)"
proof (cases xs)
  case Nil
  with assms show ?thesis
    by (auto simp: dlist_def list_add_def list_add_between_def)
next
  case (Cons y ys)
  let ?h = "list_add n q h"
  from d Cons have l: "links h y ys q" and qy: "nxt h q = y" "prv h y = q"
    and dis: "distinct (q # y # ys)"
    by (auto simp: dlist_def)
  have "links ?h y ys q \<longleftrightarrow> links h y ys q"
    by (rule links_cong)
      (use dis n Cons qy in \<open>auto simp: list_add_def list_add_between_def\<close>)
  moreover have "nxt ?h q = n" "prv ?h n = q" "nxt ?h n = y" "prv ?h y = n"
    using dis n Cons qy by (auto simp: list_add_def list_add_between_def)
  ultimately show ?thesis using d n Cons l by (auto simp: dlist_def)
qed

lemma list_del_dlist:
  assumes d: "dlist h q xs" and x: "x \<in> set xs"
  shows "dlist (list_del x h) q (remove1 x xs)"
proof -
  let ?h = "list_del x h"
  from x obtain ys zs where xs: "xs = ys @ x # zs" by (meson split_list)
  from d xs have dis: "distinct (q # ys @ x # zs)" by (simp add: dlist_def)
  from d xs have l: "links h q ys x" "links h x zs q" by (simp_all add: dlist_def links_append)
  have "links ?h q (ys @ zs) q"
  proof (cases zs)
    case Nil
    have "nxt h x = q" using l(2) Nil by simp
    show ?thesis
    proof (cases ys rule: rev_cases)
      case Nil
      with l \<open>nxt h x = q\<close> \<open>zs = []\<close> dis show ?thesis
        by (auto simp: list_del_def list_del_between_def)
    next
      case (snoc as a)
      with l have "links h q as a" "prv h x = a" by (auto simp: links_append)
      moreover have "links ?h q as a \<longleftrightarrow> links h q as a"
        by (rule links_cong)
          (use dis snoc \<open>nxt h x = q\<close> \<open>prv h x = a\<close> in
            \<open>auto simp: list_del_def list_del_between_def\<close>)
      ultimately show ?thesis using snoc \<open>nxt h x = q\<close> \<open>zs = []\<close> dis
        by (auto simp: links_append list_del_def list_del_between_def)
    qed
  next
    case (Cons b bs)
    with l have b: "nxt h x = b" "links h b bs q" by auto
    show ?thesis
    proof (cases ys rule: rev_cases)
      case Nil
      with l have "prv h x = q" by simp
      have "links ?h b bs q \<longleftrightarrow> links h b bs q"
        by (rule links_cong)
          (use dis Cons b \<open>prv h x = q\<close> in \<open>auto simp: list_del_def list_del_between_def\<close>)
      then show ?thesis using Nil Cons b \<open>prv h x = q\<close> dis
        by (auto simp: list_del_def list_del_between_def)
    next
      case (snoc as a)
      with l have a: "links h q as a" "prv h x = a" by (auto simp: links_append)
      have "links ?h q as a \<longleftrightarrow> links h q as a"
        by (rule links_cong)
          (use dis snoc Cons a b in \<open>auto simp: list_del_def list_del_between_def\<close>)
      moreover have "links ?h b bs q \<longleftrightarrow> links h b bs q"
        by (rule links_cong)
          (use dis snoc Cons a b in \<open>auto simp: list_del_def list_del_between_def\<close>)
      ultimately show ?thesis using snoc Cons a b dis
        by (auto simp: links_append list_del_def list_del_between_def)
    qed
  qed
  then show ?thesis using d xs dis by (auto simp: dlist_def remove1_middle)
qed

text \<open>
  Deleting a node twice in a row is harmless: \<open>list_del\<close> does not reset the node's own pointers, and
  its two neighbours are linked to each other already.  (\<open>terminateProcess\<close> relies on this:
  \<open>removeChild\<close> and then \<open>outChild\<close> unlink the same \<open>p_sib\<close>.)
\<close>

lemma list_del_twice:
  assumes "prv h e \<noteq> e" "nxt h e \<noteq> e"
  shows "list_del e (list_del e h) = list_del e h"
  using assms by (auto simp: list_del_def list_del_between_def set_next_def set_prev_def)

lemma list_del_noop:
  assumes "nxt h (prv h e) = nxt h e" "prv h (nxt h e) = prv h e"
  shows "list_del e h = h"
  using assms
  by (cases h) (auto simp: list_del_def list_del_between_def set_next_def set_prev_def fun_eq_iff)

text \<open>After a deletion the node's own pointers still name the two neighbours it had, and those are
  linked to each other.\<close>

lemma list_del_dangling:
  assumes d: "dlist h q xs" and x: "x \<in> set xs"
  shows "nxt (list_del x h) (prv (list_del x h) x) = nxt (list_del x h) x
    \<and> prv (list_del x h) (nxt (list_del x h) x) = prv (list_del x h) x"
proof -
  from x obtain ys zs where xs: "xs = ys @ x # zs" by (meson split_list)
  from d xs have l: "links h q ys x" "links h x zs q" and dis: "distinct (q # ys @ x # zs)"
    by (simp_all add: dlist_def links_append)
  have "prv h x \<noteq> x"
    using l(1) dis by (cases ys rule: rev_cases) (auto simp: links_append)
  moreover have "nxt h x \<noteq> x" using l(2) dis by (cases zs) auto
  ultimately show ?thesis by (auto simp: list_del_def list_del_between_def)
qed

section \<open>What the operations leave alone\<close>

lemma list_add_tail_frame [list_frame]:
  "dlist h q xs \<Longrightarrow> z \<notin> insert n (insert q (set xs)) \<Longrightarrow>
   nxt (list_add_tail n q h) z = nxt h z \<and> prv (list_add_tail n q h) z = prv h z"
  using dlist_prev [of h q xs]
  by (auto simp: list_add_tail_def list_add_between_def split: if_splits)

lemma list_add_frame [list_frame]:
  "dlist h q xs \<Longrightarrow> z \<notin> insert n (insert q (set xs)) \<Longrightarrow>
   nxt (list_add n q h) z = nxt h z \<and> prv (list_add n q h) z = prv h z"
  using dlist_next [of h q xs]
  by (cases xs) (auto simp: list_add_def list_add_between_def)

lemma links_next_mem:
  "links h a xs b \<Longrightarrow> x \<in> set xs \<Longrightarrow> nxt h x \<in> insert b (set xs)"
proof (induction xs arbitrary: a)
  case Nil
  then show ?case by simp
next
  case (Cons y ys)
  then show ?case by (cases ys) auto
qed

lemma links_prev_mem:
  "links h a xs b \<Longrightarrow> x \<in> set xs \<Longrightarrow> prv h x \<in> insert a (set xs)"
  by (induction xs arbitrary: a) auto

lemma list_del_frame [list_frame]:
  assumes "dlist h q xs" "x \<in> set xs" "z \<notin> insert q (set xs)"
  shows "nxt (list_del x h) z = nxt h z \<and> prv (list_del x h) z = prv h z"
proof -
  have "nxt h x \<in> insert q (set xs)" "prv h x \<in> insert q (set xs)"
    using assms links_next_mem [of h q xs q x] links_prev_mem [of h q xs q x]
    by (auto simp: dlist_def)
  with assms(3) show ?thesis by (auto simp: list_del_def list_del_between_def)
qed

section \<open>The walk\<close>

text \<open>On a well-formed list the walk ends, and finds the first node that passes the test.\<close>

lemma list_for_each_until_links:
  assumes "links h a xs q" and "q \<notin> set xs" and "\<And>x. x \<in> set xs \<Longrightarrow> test x = Some (P x)"
  shows "list_for_each_until test (nxt h a) q h = Some (find P xs)"
  using assms
proof (induction xs arbitrary: a)
  case Nil
  then show ?case by (simp add: list_for_each_until.simps)
next
  case (Cons x xs)
  then have "list_for_each_until test (nxt h x) q h = Some (find P xs)"
    by auto
  with Cons.prems show ?case
    by (auto simp: list_for_each_until.simps [of test x])
qed

lemma list_for_each_until_dlist:
  assumes "dlist h q xs" and "\<And>x. x \<in> set xs \<Longrightarrow> test x = Some (P x)"
  shows "list_for_each_until test (nxt h q) q h = Some (find P xs)"
  using assms by (auto simp: dlist_def intro: list_for_each_until_links)

lemma find_eq: "find (\<lambda>y. y = x) xs = (if x \<in> set xs then Some x else None)"
  by (induction xs) auto

end
