(* ===== verification/Queues.thy ===== *)
theory Queues
  imports Listx
begin

text \<open>
  The abstract state of the list memory: a finite or infinite family of heads, each with the nodes
  it owns, no node under two heads.  \<open>queues_ok h A\<close> says that memory \<open>h\<close> represents the family
  \<open>A\<close>; every list operation then is an update of \<open>A\<close>.  This is the contract the kernel's queues are
  built on, and what the operations that relink a node without unlinking it first break.

  The last section states the queue interface the kernel modules rely on as a locale, with the
  FIFO order proved once from its laws.
\<close>

section \<open>Families of disjoint lists\<close>

type_synonym queues = "lh \<Rightarrow> lh list option"

definition nodes :: "queues \<Rightarrow> lh set" where
  "nodes A = {z. \<exists>q xs. A q = Some xs \<and> (z = q \<or> z \<in> set xs)}"

definition queues_ok :: "list_head \<Rightarrow> queues \<Rightarrow> bool" where
  "queues_ok h A \<longleftrightarrow>
     (\<forall>q xs. A q = Some xs \<longrightarrow> dlist h q xs) \<and>
     (\<forall>q q' xs xs'. A q = Some xs \<longrightarrow> A q' = Some xs' \<longrightarrow> q \<noteq> q' \<longrightarrow>
        insert q (set xs) \<inter> insert q' (set xs') = {})"

lemma queues_okD: "queues_ok h A \<Longrightarrow> A q = Some xs \<Longrightarrow> dlist h q xs"
  by (simp add: queues_ok_def)

lemma queues_ok_disjoint:
  "queues_ok h A \<Longrightarrow> A q = Some xs \<Longrightarrow> A q' = Some xs' \<Longrightarrow> q \<noteq> q' \<Longrightarrow>
   insert q (set xs) \<inter> insert q' (set xs') = {}"
  by (simp add: queues_ok_def)

lemma queues_ok_owner:
  "queues_ok h A \<Longrightarrow> A q = Some xs \<Longrightarrow> A q' = Some xs' \<Longrightarrow> x \<in> set xs \<Longrightarrow> x \<in> set xs' \<Longrightarrow> q = q'"
  using queues_ok_disjoint [of h A q xs q' xs'] by auto

lemma queues_ok_not_head:
  "queues_ok h A \<Longrightarrow> A q = Some xs \<Longrightarrow> A x = Some ys \<Longrightarrow> x \<notin> set xs"
  using queues_ok_disjoint [of h A q xs x ys] dlist_head_notin [of h q xs] queues_okD [of h A q xs]
  by auto

lemma nodesI1: "A q = Some xs \<Longrightarrow> q \<in> nodes A"
  by (auto simp: nodes_def)

lemma nodesI2: "A q = Some xs \<Longrightarrow> x \<in> set xs \<Longrightarrow> x \<in> nodes A"
  by (auto simp: nodes_def)

lemma not_nodesD: "x \<notin> nodes A \<Longrightarrow> A q = Some xs \<Longrightarrow> x \<noteq> q \<and> x \<notin> set xs"
  by (auto simp: nodes_def)

lemma nodes_update_mono:
  assumes "A q = Some xs" "set ys \<subseteq> set xs \<union> F"
  shows "nodes (A(q \<mapsto> ys)) \<subseteq> nodes A \<union> F"
  using assms by (auto simp: nodes_def split: if_splits)

text \<open>The one proof behind every operation: new contents for one head, built from the nodes it
  owned and from nodes nobody owned, in a memory that agrees with the old one elsewhere.\<close>

lemma queues_ok_update:
  assumes ok: "queues_ok h A" and q: "A q = Some xs" and d: "dlist h' q ys"
    and sub: "set ys \<subseteq> set xs \<union> F" and F: "F \<inter> nodes A = {}"
    and frame: "\<And>z. z \<notin> insert q (set xs \<union> F) \<Longrightarrow> nxt h' z = nxt h z \<and> prv h' z = prv h z"
  shows "queues_ok h' (A(q \<mapsto> ys))"
proof -
  have other: "dlist h' p zs" "insert q (set xs \<union> F) \<inter> insert p (set zs) = {}"
    if p: "A p = Some zs" "p \<noteq> q" for p zs
  proof -
    show dis: "insert q (set xs \<union> F) \<inter> insert p (set zs) = {}"
      using queues_ok_disjoint [OF ok q p(1)] p F by (auto dest: nodesI1 nodesI2)
    have "dlist h' p zs \<longleftrightarrow> dlist h p zs"
      by (rule dlist_frame, rule frame) (use dis in auto)
    then show "dlist h' p zs" using queues_okD [OF ok p(1)] by simp
  qed
  show ?thesis
    unfolding queues_ok_def
  proof (intro conjI allI impI)
    fix p zs assume "(A(q \<mapsto> ys)) p = Some zs"
    then show "dlist h' p zs" using d other(1) by (auto split: if_splits)
  next
    fix p p' zs zs'
    assume a: "(A(q \<mapsto> ys)) p = Some zs" "(A(q \<mapsto> ys)) p' = Some zs'" "p \<noteq> p'"
    show "insert p (set zs) \<inter> insert p' (set zs') = {}"
    proof (cases "p = q \<or> p' = q")
      case True
      then show ?thesis using a other(2) [of p zs] other(2) [of p' zs'] sub
        by (auto split: if_splits)
    next
      case False
      then show ?thesis using a queues_ok_disjoint [OF ok, of p zs p' zs'] by auto
    qed
  qed
qed

lemma queues_ok_add_tail [queue_step]:
  assumes "queues_ok h A" "A q = Some xs" "n \<notin> nodes A"
  shows "queues_ok (list_add_tail n q h) (A(q \<mapsto> xs @ [n]))"
proof (rule queues_ok_update [where F = "{n}", OF assms(1,2)])
  have d: "dlist h q xs" by (rule queues_okD [OF assms(1,2)])
  show "dlist (list_add_tail n q h) q (xs @ [n])"
    using list_add_tail_dlist [OF d] not_nodesD [OF assms(3,2)] by simp
  show "nxt (list_add_tail n q h) z = nxt h z \<and> prv (list_add_tail n q h) z = prv h z"
    if "z \<notin> insert q (set xs \<union> {n})" for z
    using list_add_tail_frame [OF d] that by simp
qed (use assms in auto)

lemma queues_ok_add [queue_step]:
  assumes "queues_ok h A" "A q = Some xs" "n \<notin> nodes A"
  shows "queues_ok (list_add n q h) (A(q \<mapsto> n # xs))"
proof (rule queues_ok_update [where F = "{n}", OF assms(1,2)])
  have d: "dlist h q xs" by (rule queues_okD [OF assms(1,2)])
  show "dlist (list_add n q h) q (n # xs)"
    using list_add_dlist [OF d] not_nodesD [OF assms(3,2)] by simp
  show "nxt (list_add n q h) z = nxt h z \<and> prv (list_add n q h) z = prv h z"
    if "z \<notin> insert q (set xs \<union> {n})" for z
    using list_add_frame [OF d] that by simp
qed (use assms in auto)

lemma queues_ok_del [queue_step]:
  assumes "queues_ok h A" "A q = Some xs" "x \<in> set xs"
  shows "queues_ok (list_del x h) (A(q \<mapsto> remove1 x xs))"
proof (rule queues_ok_update [where F = "{}", OF assms(1,2)])
  have d: "dlist h q xs" by (rule queues_okD [OF assms(1,2)])
  show "dlist (list_del x h) q (remove1 x xs)" by (rule list_del_dlist [OF d assms(3)])
  show "nxt (list_del x h) z = nxt h z \<and> prv (list_del x h) z = prv h z"
    if "z \<notin> insert q (set xs \<union> {})" for z
    using list_del_frame [OF d assms(3)] that by simp
qed (auto dest: notin_set_remove1 set_remove1_subset [THEN subsetD])

text \<open>Initialising a head that is in nobody's list makes it an empty head; whatever it held before is
  owned by nobody afterwards.\<close>

lemma queues_ok_init [queue_step]:
  assumes ok: "queues_ok h A" and new: "\<And>q xs. A q = Some xs \<Longrightarrow> l \<notin> set xs"
  shows "queues_ok (INIT_LIST_HEAD l h) (A(l \<mapsto> []))"
proof -
  have other: "dlist (INIT_LIST_HEAD l h) p zs" "l \<notin> insert p (set zs)"
    if p: "A p = Some zs" "p \<noteq> l" for p zs
  proof -
    show l: "l \<notin> insert p (set zs)" using new [OF p(1)] p by auto
    have "dlist (INIT_LIST_HEAD l h) p zs \<longleftrightarrow> dlist h p zs"
      by (rule dlist_frame, rule INIT_LIST_HEAD_frame) (use l in auto)
    then show "dlist (INIT_LIST_HEAD l h) p zs" using queues_okD [OF ok p(1)] by simp
  qed
  show ?thesis
    unfolding queues_ok_def
    using other INIT_LIST_HEAD_dlist queues_ok_disjoint [OF ok]
    by (auto split: if_splits)
qed

text \<open>A node that is not a head and is owned by nobody may be re-initialised freely.\<close>

lemma queues_ok_init_node [queue_step]:
  assumes ok: "queues_ok h A" and new: "l \<notin> nodes A"
  shows "queues_ok (INIT_LIST_HEAD l h) A"
proof -
  have "dlist (INIT_LIST_HEAD l h) p zs" if p: "A p = Some zs" for p zs
  proof -
    have "l \<notin> insert p (set zs)" using not_nodesD [OF new p] by auto
    then have "dlist (INIT_LIST_HEAD l h) p zs \<longleftrightarrow> dlist h p zs"
      by (intro dlist_frame INIT_LIST_HEAD_frame) auto
    then show ?thesis using queues_okD [OF ok p] by simp
  qed
  then show ?thesis using ok by (auto simp: queues_ok_def)
qed

text \<open>The nodes in use after an insertion and after a removal.\<close>

lemma nodes_but_one:
  "nodes (A(q \<mapsto> ys)) = insert q (set ys) \<union> {z. \<exists>p xs. p \<noteq> q \<and> A p = Some xs \<and> (z = p \<or> z \<in> set xs)}"
  unfolding nodes_def by (auto split: if_splits)

lemma not_nodes_upd:
  "x \<notin> nodes A \<Longrightarrow> x \<noteq> q \<Longrightarrow> x \<notin> set ys \<Longrightarrow> x \<notin> nodes (A(q \<mapsto> ys))"
  by (auto simp: nodes_but_one dest: nodesI1 nodesI2)

lemma nodes_insert:
  assumes "A q = Some xs" "set ys = insert n (set xs)"
  shows "nodes (A(q \<mapsto> ys)) = insert n (nodes A)"
  using nodes_but_one [of A q ys] nodes_but_one [of A q xs] assms
  by (simp add: fun_upd_idem insert_commute)

lemma nodes_remove1:
  assumes ok: "queues_ok h A" and q: "A q = Some xs" and x: "x \<in> set xs"
  shows "nodes (A(q \<mapsto> remove1 x xs)) = nodes A - {x}"
proof -
  have d: "distinct xs" "q \<notin> set xs"
    using queues_okD [OF ok q] by (simp_all add: dlist_def)
  have "x \<notin> {z. \<exists>p zs. p \<noteq> q \<and> A p = Some zs \<and> (z = p \<or> z \<in> set zs)}"
    using queues_ok_disjoint [OF ok q] x by blast
  then show ?thesis
    using nodes_but_one [of A q "remove1 x xs"] nodes_but_one [of A q xs] q d x
    by (auto simp: fun_upd_idem)
qed

text \<open>Forgetting heads keeps the rest.\<close>

lemma queues_ok_restrict: "queues_ok h A \<Longrightarrow> queues_ok h (A |` D)"
  by (auto simp: queues_ok_def restrict_map_def split: if_splits)

section \<open>The queue interface\<close>

text \<open>
  What the kernel's modules use of a queue: a representation relation, an insertion at the tail
  that needs an element the queue does not hold, a removal at the front.  \<open>ok\<close> is what an
  element must satisfy to be stored at all (an object of the right table); both operations keep
  it.
\<close>

locale fifo =
  fixes rep :: "'s \<Rightarrow> 'q \<Rightarrow> 'e list \<Rightarrow> bool"
    and ok :: "'s \<Rightarrow> 'e \<Rightarrow> bool"
    and enq :: "'q \<Rightarrow> 'e \<Rightarrow> 's \<Rightarrow> 's option"
    and deq :: "'q \<Rightarrow> 's \<Rightarrow> ('e option \<times> 's) option"
  assumes enq_rep: "rep s q xs \<Longrightarrow> ok s e \<Longrightarrow> e \<notin> set xs \<Longrightarrow>
      \<exists>s'. enq q e s = Some s' \<and> rep s' q (xs @ [e]) \<and> (\<forall>x. ok s' x = ok s x)"
    and deq_nil: "rep s q [] \<Longrightarrow> deq q s = Some (None, s)"
    and deq_cons: "rep s q (x # xs) \<Longrightarrow>
      \<exists>s'. deq q s = Some (Some x, s') \<and> rep s' q xs \<and> (\<forall>y. ok s' y = ok s y)"

fun enq_all :: "('q \<Rightarrow> 'e \<Rightarrow> 's \<Rightarrow> 's option) \<Rightarrow> 'q \<Rightarrow> 'e list \<Rightarrow> 's \<Rightarrow> 's option" where
  "enq_all enq q [] s = Some s"
| "enq_all enq q (e # es) s = do { s' \<leftarrow> enq q e s; enq_all enq q es s' }"

text \<open>Take at most \<open>n\<close> elements from the front, stopping when the queue says it is empty.\<close>

fun deq_upto :: "('q \<Rightarrow> 's \<Rightarrow> ('e option \<times> 's) option) \<Rightarrow> 'q \<Rightarrow> nat \<Rightarrow> 's \<Rightarrow> ('e list \<times> 's) option" where
  "deq_upto deq q 0 s = Some ([], s)"
| "deq_upto deq q (Suc n) s = do {
     (r, s') \<leftarrow> deq q s;
     case r of None \<Rightarrow> Some ([], s')
     | Some x \<Rightarrow> do { (xs, s'') \<leftarrow> deq_upto deq q n s'; Some (x # xs, s'') }
   }"

context fifo
begin

lemma enq_all_rep:
  assumes "rep s q xs" "\<forall>e \<in> set es. ok s e" "distinct (xs @ es)"
  shows "\<exists>s'. enq_all enq q es s = Some s' \<and> rep s' q (xs @ es)"
  using assms
proof (induction es arbitrary: s xs)
  case Nil
  then show ?case by simp
next
  case (Cons e es)
  then obtain s' where s': "enq q e s = Some s'" "rep s' q (xs @ [e])" "\<forall>x. ok s' x = ok s x"
    using enq_rep [of s q xs e] by auto
  with Cons.prems Cons.IH [of s' "xs @ [e]"] show ?case by auto
qed

lemma deq_upto_rep:
  assumes "rep s q xs" "length xs < n"
  shows "\<exists>s'. deq_upto deq q n s = Some (xs, s') \<and> rep s' q []"
  using assms
proof (induction n arbitrary: s xs)
  case 0
  then show ?case by simp
next
  case (Suc n)
  show ?case
  proof (cases xs)
    case Nil
    with Suc.prems deq_nil [of s q] show ?thesis by auto
  next
    case (Cons x ys)
    with Suc.prems obtain s' where s': "deq q s = Some (Some x, s')" "rep s' q ys"
      using deq_cons [of s q x ys] by auto
    with Cons Suc.prems Suc.IH [of s' ys] show ?thesis by auto
  qed
qed

text \<open>First in, first out: elements inserted behind \<open>xs\<close> come out behind \<open>xs\<close>, in their order.\<close>

lemma fifo_order:
  assumes "rep s q xs" "\<forall>e \<in> set es. ok s e" "distinct (xs @ es)"
  shows "\<exists>s' s''. enq_all enq q es s = Some s' \<and>
    deq_upto deq q (Suc (length (xs @ es))) s' = Some (xs @ es, s'')"
proof -
  from enq_all_rep [OF assms] obtain s' where
    s': "enq_all enq q es s = Some s'" "rep s' q (xs @ es)" by blast
  from deq_upto_rep [OF s'(2), of "Suc (length (xs @ es))"] s'(1) show ?thesis by blast
qed

end

end
