(* ===== verification/Kernel_State.thy ===== *)
theory Kernel_State
  imports Queues
begin

text \<open>
  The data of \<^verbatim>\<open>src/headers/types.h\<close> and the state the nucleus keeps: the globals of
  \<^verbatim>\<open>initial.c\<close>, \<^verbatim>\<open>pcb.c\<close> and \<^verbatim>\<open>msg.c\<close>, the
  processor registers and the memory the handlers read and write.

  Objects reached through pointers live in one partial map per C type (\<open>pcbs\<close>, \<open>msgs\<close>, \<open>states\<close>,
  \<open>supports\<close> and the request structures): a pointer to no object of the type is not in the map, and
  dereferencing it (a null pointer, or a wild value out of a register) has the result \<^const>\<open>None\<close>.
  The list heads of PCBs and messages are in the list memory \<open>lh_mem\<close>, everything else of them in
  the two maps.
\<close>

section \<open>types.h\<close>

text \<open>The general purpose registers by name; the code names these and treats the rest as the
  remaining entries of the array \<^verbatim>\<open>gpr\<close>.\<close>

datatype gpr_reg =
  reg_v0 | reg_a0 | reg_a1 | reg_a2 | reg_a3 | reg_sp | reg_t9 | reg_other nat

record state_t =
  entry_hi :: u32
  cause :: u32
  status :: u32
  pc_epc :: u32
  gpr :: "gpr_reg \<Rightarrow> u32"
  hi :: u32
  lo :: u32

record context_t =
  stackPtr :: u32
  c_status :: u32
  c_pc :: u32

record pteEntry_t =
  pte_entryHI :: u32
  pte_entryLO :: u32

record support_t =
  sup_asid :: u32
  sup_exceptState :: "nat \<Rightarrow> state_t"
  sup_exceptContext :: "nat \<Rightarrow> context_t"
  sup_privatePgTbl :: "nat \<Rightarrow> pteEntry_t"

record pcb_t =
  p_parent :: ptr
  p_s :: state_t
  p_time :: u32
  p_supportStruct :: ptr
  p_pid :: u32
  blockedOnDevice :: u32
  deviceType :: u32

record msg_t =
  m_sender :: ptr
  m_payload :: u32

record ssi_payload_t =
  service_code :: u32
  arg :: u32

record ssi_create_process_t =
  scp_state :: ptr
  scp_support :: ptr

record ssi_do_io_t =
  commandAddr :: u32
  commandValue :: u32

section \<open>The kernel state\<close>

text \<open>
  \<open>pcbTable\<close> and \<open>msgTable\<close> are the addresses the linker gives the elements of the two static arrays,
  in order.  \<open>clock\<close> is what the successive reads of the time-of-day clock return: the code relies
  on nothing about it.  \<open>mem\<close> is word memory, the device registers included; \<open>interrupt_dev\<close> the
  interrupting devices bit map of the bus registers; \<open>tlb_random\<close> the slot \<^verbatim>\<open>TLBWR\<close>
  replaces.
\<close>

record sys =
  lh_mem :: list_head
  pcbs :: "ptr \<Rightarrow> pcb_t option"
  msgs :: "ptr \<Rightarrow> msg_t option"
  pcbTable :: "ptr list"
  msgTable :: "ptr list"
  next_pid :: u32
  processCount :: u32
  softBlockCount :: u32
  current_process :: ptr
  ssi_pcb :: ptr
  new_pcb :: ptr
  startTOD :: u32
  exception_state :: state_t
  cp0_status :: u32
  cp0_cause :: u32
  cp0_timer :: u32
  cp0_entryhi :: u32
  cp0_entrylo :: u32
  tlb_random :: nat
  tlb :: "nat \<Rightarrow> u32 \<times> u32"
  interval_timer :: u32
  clock :: "nat \<Rightarrow> u32"
  clock_reads :: nat
  mem :: "u32 \<Rightarrow> u32"
  interrupt_dev :: "u32 \<Rightarrow> u32"
  states :: "ptr \<Rightarrow> state_t option"
  supports :: "ptr \<Rightarrow> support_t option"
  ssi_payloads :: "ptr \<Rightarrow> ssi_payload_t option"
  ssi_create_processes :: "ptr \<Rightarrow> ssi_create_process_t option"
  ssi_do_ios :: "ptr \<Rightarrow> ssi_do_io_t option"

text \<open>Where control goes when a handler gives it up.  \<open>RETURN\<close> is a function that comes back to its
  caller, which most of the kernel's entry points are not meant to do.\<close>

datatype control =
    LDST state_t
  | LDCXT u32 u32 u32
  | HALT
  | PANIC
  | WAIT
  | RETURN

section \<open>Access\<close>

definition on_lists :: "(list_head \<Rightarrow> list_head) \<Rightarrow> sys \<Rightarrow> sys" where
  "on_lists f s = s\<lparr>lh_mem := f (lh_mem s)\<rparr>"

text \<open>\<^verbatim>\<open>p->field = ...\<close> on a PCB and on a message.\<close>

definition upd_pcb :: "ptr \<Rightarrow> (pcb_t \<Rightarrow> pcb_t) \<Rightarrow> sys \<Rightarrow> sys option" where
  "upd_pcb p f s = do { x \<leftarrow> pcbs s p; Some (s\<lparr>pcbs := (pcbs s)(p \<mapsto> f x)\<rparr>) }"

definition upd_msg :: "ptr \<Rightarrow> (msg_t \<Rightarrow> msg_t) \<Rightarrow> sys \<Rightarrow> sys option" where
  "upd_msg m f s = do { x \<leftarrow> msgs s m; Some (s\<lparr>msgs := (msgs s)(m \<mapsto> f x)\<rparr>) }"

text \<open>A list head that lies in an object: what a store through \<^verbatim>\<open>&p->p_list\<close> needs.\<close>

fun lh_valid :: "sys \<Rightarrow> lh \<Rightarrow> bool" where
  "lh_valid s LH_NULL \<longleftrightarrow> False"
| "lh_valid s (P_LIST p) \<longleftrightarrow> pcbs s p \<noteq> None"
| "lh_valid s (P_CHILD p) \<longleftrightarrow> pcbs s p \<noteq> None"
| "lh_valid s (P_SIB p) \<longleftrightarrow> pcbs s p \<noteq> None"
| "lh_valid s (MSG_INBOX p) \<longleftrightarrow> pcbs s p \<noteq> None"
| "lh_valid s (M_LIST m) \<longleftrightarrow> msgs s m \<noteq> None"
| "lh_valid s _ \<longleftrightarrow> True"

lemma upd_pcb_Some:
  "pcbs s p = Some x \<Longrightarrow> upd_pcb p f s = Some (s\<lparr>pcbs := (pcbs s)(p \<mapsto> f x)\<rparr>)"
  by (simp add: upd_pcb_def)

lemma upd_msg_Some:
  "msgs s m = Some x \<Longrightarrow> upd_msg m f s = Some (s\<lparr>msgs := (msgs s)(m \<mapsto> f x)\<rparr>)"
  by (simp add: upd_msg_def)

lemma lists_on_lists [simp]: "lh_mem (on_lists f s) = f (lh_mem s)"
  by (simp add: on_lists_def)

section \<open>What the state represents\<close>

text \<open>The queues that hold PCBs, and which nodes belong under which head.\<close>

definition blocked_heads :: "lh list" where
  "blocked_heads = [blockedDiskQueue, blockedFlashQueue, blockedEthernetQueue,
     blockedPrinterQueue, blockedTerminalTransmQueue, blockedTerminalRecvQueue, pseudoClockQueue]"

definition proc_heads :: "lh list" where
  "proc_heads = pcbFree_h # readyQueue # blocked_heads"

fun is_child_head :: "lh \<Rightarrow> bool" where
  "is_child_head (P_CHILD _) \<longleftrightarrow> True"
| "is_child_head _ \<longleftrightarrow> False"

fun is_msg_head :: "lh \<Rightarrow> bool" where
  "is_msg_head (MSG_INBOX _) \<longleftrightarrow> True"
| "is_msg_head msgFree_h \<longleftrightarrow> True"
| "is_msg_head _ \<longleftrightarrow> False"

fun node_of :: "lh \<Rightarrow> lh \<Rightarrow> bool" where
  "node_of q (P_LIST _) \<longleftrightarrow> q \<in> set proc_heads"
| "node_of q (P_SIB _) \<longleftrightarrow> is_child_head q"
| "node_of q (M_LIST _) \<longleftrightarrow> is_msg_head q"
| "node_of q _ \<longleftrightarrow> False"

text \<open>
  \<open>represents s A\<close>: the list memory of \<open>s\<close> is the family \<open>A\<close>, the kernel's global heads are in it,
  each head holds nodes of its own kind, embedded in objects, and each list head in the family
  lies in an object.
\<close>

definition represents :: "sys \<Rightarrow> queues \<Rightarrow> bool" where
  "represents s A \<longleftrightarrow>
     queues_ok (lh_mem s) A \<and>
     set (msgFree_h # proc_heads) \<subseteq> dom A \<and>
     (\<forall>q xs. A q = Some xs \<longrightarrow> lh_valid s q \<and> (\<forall>x \<in> set xs. node_of q x \<and> lh_valid s x))"

lemma represents_queues_ok: "represents s A \<Longrightarrow> queues_ok (lh_mem s) A"
  by (simp add: represents_def)

lemma represents_dlist: "represents s A \<Longrightarrow> A q = Some xs \<Longrightarrow> dlist (lh_mem s) q xs"
  by (auto simp: represents_def dest: queues_okD)

lemma represents_node:
  "represents s A \<Longrightarrow> A q = Some xs \<Longrightarrow> x \<in> set xs \<Longrightarrow> node_of q x \<and> lh_valid s x"
  by (auto simp: represents_def)

lemma represents_global: "represents s A \<Longrightarrow> q \<in> set (msgFree_h # proc_heads) \<Longrightarrow> \<exists>xs. A q = Some xs"
  by (auto simp: represents_def)

text \<open>A process queue, an inbox and a child list as lists of pointers.\<close>

lemma node_of_proc:
  "q \<in> set proc_heads \<Longrightarrow> node_of q x \<Longrightarrow> \<exists>p. x = P_LIST p"
  by (cases x; cases q) (auto simp: proc_heads_def blocked_heads_def)

lemma node_of_msg: "is_msg_head q \<Longrightarrow> node_of q x \<Longrightarrow> \<exists>m. x = M_LIST m"
  by (cases x; cases q) (auto simp: proc_heads_def blocked_heads_def)

lemma node_of_child: "node_of (P_CHILD p) x \<Longrightarrow> \<exists>c. x = P_SIB c"
  by (cases x) (auto simp: proc_heads_def blocked_heads_def)

lemma node_of_P_LIST_iff [simp]: "q \<in> set proc_heads \<Longrightarrow> node_of q (P_LIST p)"
  by simp

lemma represents_proc_queue:
  assumes "represents s A" "q \<in> set proc_heads"
  obtains ps where "A q = Some (map P_LIST ps)"
proof -
  from represents_global [OF assms(1), of q] assms(2) obtain xs where xs: "A q = Some xs" by auto
  then have "\<forall>x \<in> set xs. \<exists>p. x = P_LIST p"
    using assms node_of_proc by (metis represents_node)
  then have "\<exists>ps. xs = map P_LIST ps"
    by (simp add: ex_map_conv)
  with xs that show ?thesis by auto
qed

lemma represents_msgs:
  assumes "represents s A" "is_msg_head q" "A q = Some xs"
  obtains ms where "A q = Some (map M_LIST ms)"
proof -
  from assms have "\<forall>x \<in> set xs. \<exists>m. x = M_LIST m"
    using node_of_msg represents_node by metis
  then have "\<exists>ms. xs = map M_LIST ms" by (simp add: ex_map_conv)
  with assms(3) that show ?thesis by auto
qed

lemma represents_children:
  assumes "represents s A" "A (P_CHILD p) = Some xs"
  obtains cs where "A (P_CHILD p) = Some (map P_SIB cs)"
proof -
  from assms have "\<forall>x \<in> set xs. \<exists>m. x = P_SIB m"
    using node_of_child represents_node by metis
  then have "\<exists>cs. xs = map P_SIB cs" by (simp add: ex_map_conv)
  with assms(2) that show ?thesis by auto
qed

text \<open>Heads are never nodes of a list, and different sorts of nodes never share a list.\<close>

lemma represents_not_listed:
  assumes "represents s A" "\<And>q. \<not> node_of q l" "A q = Some xs"
  shows "l \<notin> set xs"
  using assms represents_node by blast

lemma represents_update:
  assumes r: "represents s A" and h: "queues_ok h (A(q \<mapsto> ys))"
    and k: "\<And>x. x \<in> set ys \<Longrightarrow> node_of q x \<and> lh_valid s x" and q: "lh_valid s q"
  shows "represents (s\<lparr>lh_mem := h\<rparr>) (A(q \<mapsto> ys))"
proof -
  have "lh_valid (s\<lparr>lh_mem := h\<rparr>) x = lh_valid s x" for x by (cases x) simp_all
  then show ?thesis using r h k q by (auto simp: represents_def)
qed

lemma represents_intro:
  assumes r: "represents s A" and h: "queues_ok h A'"
    and q: "\<And>q. A' q = A q \<or> (\<exists>ys. A' q = Some ys \<and> lh_valid s q \<and>
        (\<forall>x \<in> set ys. node_of q x \<and> lh_valid s x))"
  shows "represents (s\<lparr>lh_mem := h\<rparr>) A'"
proof -
  have v: "lh_valid (s\<lparr>lh_mem := h\<rparr>) x = lh_valid s x" for x by (cases x) simp_all
  have "set (msgFree_h # proc_heads) \<subseteq> dom A'"
  proof
    fix z assume "z \<in> set (msgFree_h # proc_heads)"
    then show "z \<in> dom A'" using represents_global [OF r, of z] q [of z] by auto
  qed
  moreover have "lh_valid s p \<and> (\<forall>x \<in> set xs. node_of p x \<and> lh_valid s x)" if "A' p = Some xs" for p xs
    using q [of p] that r unfolding represents_def by (metis option.inject)
  ultimately show ?thesis using h unfolding represents_def v by simp
qed

text \<open>The representation depends on the list memory and on which objects exist, nothing else.\<close>

lemma lh_valid_cong:
  assumes "dom (pcbs s') = dom (pcbs s)" "dom (msgs s') = dom (msgs s)"
  shows "lh_valid s' x = lh_valid s x"
proof -
  have "(pcbs s' p \<noteq> None) = (pcbs s p \<noteq> None)" "(msgs s' p \<noteq> None) = (msgs s p \<noteq> None)" for p
    using assms by (simp_all add: dom_def set_eq_iff)
  then show ?thesis by (cases x) simp_all
qed

lemma represents_cong:
  assumes "lh_mem s' = lh_mem s" "dom (pcbs s') = dom (pcbs s)" "dom (msgs s') = dom (msgs s)"
  shows "represents s' A = represents s A"
  using assms lh_valid_cong [OF assms(2,3)] by (simp add: represents_def)

end
