(* ===== verification/Pcb.thy ===== *)
theory Pcb
  imports Kernel_State
begin

text \<open>
  \<^verbatim>\<open>src/phase1/pcb.c\<close>: allocation of process control blocks from the static table,
  process queues, the process tree, and the two searches the nucleus adds.  Each function is
  translated call by call; the lemmas say what it does to the abstract queues, and the last
  sections show that the queue functions and the free list provide the \<open>fifo\<close> interface.
\<close>

section \<open>Allocation\<close>

text \<open>\<open>for (i = MAXPROC - 1; i >= 0; i--) list_add(&pcbTable[i].p_list, &pcbFree_h)\<close>, for the indices
  below \<open>i\<close>.\<close>

primrec initPcbs_loop :: "nat \<Rightarrow> sys \<Rightarrow> sys" where
  "initPcbs_loop 0 s = s"
| "initPcbs_loop (Suc i) s =
     initPcbs_loop i (on_lists (list_add (P_LIST (pcbTable s ! i)) pcbFree_h) s)"

definition initPcbs :: "sys \<Rightarrow> sys" where
  "initPcbs s = initPcbs_loop MAXPROC s"

definition initPcbValues :: "ptr \<Rightarrow> sys \<Rightarrow> sys option" where
  "initPcbValues p s = do {
     x \<leftarrow> pcbs s p;
     let s1 = on_lists (INIT_LIST_HEAD (P_LIST p)) s;
     let s2 = on_lists (INIT_LIST_HEAD (P_CHILD p)) s1;
     let s3 = on_lists (INIT_LIST_HEAD (P_SIB p)) s2;
     let s4 = on_lists (INIT_LIST_HEAD (MSG_INBOX p)) s3;
     let ps = (p_s x)\<lparr>cause := 0, entry_hi := 0, gpr := (\<lambda>_. 0), hi := 0, lo := 0,
                pc_epc := 0, status := 0\<rparr>;
     s5 \<leftarrow> upd_pcb p (\<lambda>x. x\<lparr>p_parent := NULL, p_supportStruct := NULL, p_s := ps,
                p_time := 0, p_pid := next_pid s\<rparr>) s4;
     Some (s5\<lparr>next_pid := next_pid s + 1\<rparr>)
   }"

definition freePcb :: "ptr \<Rightarrow> sys \<Rightarrow> sys option" where
  "freePcb p s =
     (if lh_valid s (P_LIST p) then Some (on_lists (list_add_tail (P_LIST p) pcbFree_h) s) else None)"

definition allocPcb :: "sys \<Rightarrow> (ptr \<times> sys) option" where
  "allocPcb s =
     (if list_empty pcbFree_h (lh_mem s) then Some (NULL, s)
      else do {
        nPcb \<leftarrow> container_of_p_list (nxt (lh_mem s) pcbFree_h);
        let s1 = on_lists (list_del (nxt (lh_mem s) pcbFree_h)) s;
        s2 \<leftarrow> initPcbValues nPcb s1;
        Some (nPcb, s2)
      })"

section \<open>Process queues\<close>

definition mkEmptyProcQ :: "lh \<Rightarrow> sys \<Rightarrow> sys" where
  "mkEmptyProcQ head s = on_lists (INIT_LIST_HEAD head) s"

definition emptyProcQ :: "lh \<Rightarrow> sys \<Rightarrow> bool" where
  "emptyProcQ head s = list_empty head (lh_mem s)"

definition insertProcQ :: "lh \<Rightarrow> ptr \<Rightarrow> sys \<Rightarrow> sys option" where
  "insertProcQ head p s =
     (if lh_valid s head \<and> lh_valid s (P_LIST p)
      then Some (on_lists (list_add_tail (P_LIST p) head) s) else None)"

definition headProcQ :: "lh \<Rightarrow> sys \<Rightarrow> ptr option" where
  "headProcQ head s =
     (if emptyProcQ head s then Some NULL
      else container_of_p_list (nxt (lh_mem s) head))"

definition removeProcQ :: "lh \<Rightarrow> sys \<Rightarrow> (ptr \<times> sys) option" where
  "removeProcQ head s =
     (if emptyProcQ head s then Some (NULL, s)
      else do {
        first_pcb \<leftarrow> container_of_p_list (list_next head (lh_mem s));
        Some (first_pcb, on_lists (list_del (P_LIST first_pcb)) s)
      })"

definition outProcQ :: "lh \<Rightarrow> ptr \<Rightarrow> sys \<Rightarrow> (ptr \<times> sys) option" where
  "outProcQ head p s =
     (if p = NULL then Some (NULL, s)
      else do {
        r \<leftarrow> list_for_each_until (\<lambda>iter. Some (iter = P_LIST p)) (nxt (lh_mem s) head) head (lh_mem s);
        (case r of
           None \<Rightarrow> Some (NULL, s)
         | Some iter \<Rightarrow> Some (p, on_lists (list_del iter) s))
      })"

section \<open>The process tree\<close>

definition emptyChild :: "ptr \<Rightarrow> sys \<Rightarrow> bool option" where
  "emptyChild p s = do { _ \<leftarrow> pcbs s p; Some (list_empty (P_CHILD p) (lh_mem s)) }"

definition insertChild :: "ptr \<Rightarrow> ptr \<Rightarrow> sys \<Rightarrow> sys option" where
  "insertChild prnt p s = do {
     s1 \<leftarrow> upd_pcb p (\<lambda>x. x\<lparr>p_parent := prnt\<rparr>) s;
     _ \<leftarrow> pcbs s prnt;
     Some (on_lists (list_add_tail (P_SIB p) (P_CHILD prnt)) s1)
   }"

definition removeChild :: "ptr \<Rightarrow> sys \<Rightarrow> (ptr \<times> sys) option" where
  "removeChild p s = do {
     e \<leftarrow> emptyChild p s;
     if e then Some (NULL, s)
     else do {
       first_child \<leftarrow> container_of_p_sib (nxt (lh_mem s) (P_CHILD p));
       Some (first_child, on_lists (list_del (nxt (lh_mem s) (P_CHILD p))) s)
     }
   }"

definition outChild :: "ptr \<Rightarrow> sys \<Rightarrow> (ptr \<times> sys) option" where
  "outChild p s = do {
     x \<leftarrow> pcbs s p;
     if p_parent x = NULL then Some (NULL, s)
     else do {
       s1 \<leftarrow> upd_pcb p (\<lambda>x. x\<lparr>p_parent := NULL\<rparr>) s;
       Some (p, on_lists (list_del (P_SIB p)) s1)
     }
   }"

section \<open>Searches\<close>

text \<open>The walk of \<^verbatim>\<open>searchProcQ\<close> gives up when its counter has passed \<open>MAXPROC\<close>, so it ends
  whatever the list looks like.\<close>

function searchProcQ_loop :: "nat \<Rightarrow> lh \<Rightarrow> lh \<Rightarrow> ptr \<Rightarrow> list_head \<Rightarrow> bool" where
  "searchProcQ_loop i pos head p h =
     (if pos = head then False
      else if pos = P_LIST p then True
      else if i > MAXPROC then False
      else searchProcQ_loop (Suc i) (nxt h pos) head p h)"
  by pat_completeness auto
termination
  by (relation "measure (\<lambda>(i, _). Suc (Suc MAXPROC) - i)") auto

declare searchProcQ_loop.simps [simp del]

definition searchProcQ :: "ptr \<Rightarrow> lh \<Rightarrow> sys \<Rightarrow> bool" where
  "searchProcQ p head s =
     (if p = NULL \<or> list_empty head (lh_mem s) then False
      else searchProcQ_loop 0 (nxt (lh_mem s) head) head p (lh_mem s))"

definition unlockPcbDevNo :: "u32 \<Rightarrow> lh \<Rightarrow> sys \<Rightarrow> (ptr \<times> sys) option" where
  "unlockPcbDevNo devNo head s = do {
     r \<leftarrow> list_for_each_until
            (\<lambda>pos. do { nPcb \<leftarrow> container_of_p_list pos; x \<leftarrow> pcbs s nPcb;
                        Some (blockedOnDevice x = devNo) })
            (nxt (lh_mem s) head) head (lh_mem s);
     (case r of
        None \<Rightarrow> Some (NULL, s)
      | Some pos \<Rightarrow> do { nPcb \<leftarrow> container_of_p_list pos; outProcQ head nPcb s })
   }"

section \<open>Process queues as lists of PCBs\<close>

text \<open>\<open>procs A q ps\<close>: head \<open>q\<close> holds the PCBs \<open>ps\<close>, in this order.\<close>

abbreviation procs :: "queues \<Rightarrow> lh \<Rightarrow> ptr list \<Rightarrow> bool" where
  "procs A q ps \<equiv> A q = Some (map P_LIST ps)"

lemma on_lists_record: "on_lists f s = s\<lparr>lh_mem := f (lh_mem s)\<rparr>"
  by (simp add: on_lists_def)

lemma proc_head_valid: "q \<in> set proc_heads \<Longrightarrow> lh_valid s q"
  by (auto simp: proc_heads_def blocked_heads_def)

lemma remove1_hd: "xs \<noteq> [] \<Longrightarrow> remove1 (hd xs) xs = tl xs"
  by (cases xs) auto

lemma insertProcQ_represents [queue_step]:
  assumes r: "represents s A" and q: "q \<in> set proc_heads" "procs A q ps"
    and p: "pcbs s p = Some x" and new: "P_LIST p \<notin> nodes A"
  shows "\<exists>h. insertProcQ q p s = Some (s\<lparr>lh_mem := h\<rparr>)
    \<and> represents (s\<lparr>lh_mem := h\<rparr>) (A(q \<mapsto> map P_LIST (ps @ [p])))"
proof -
  let ?h = "list_add_tail (P_LIST p) q (lh_mem s)"
  have "queues_ok ?h (A(q \<mapsto> map P_LIST ps @ [P_LIST p]))"
    by (rule queues_ok_add_tail [OF represents_queues_ok [OF r] q(2) new])
  then have "represents (s\<lparr>lh_mem := ?h\<rparr>) (A(q \<mapsto> map P_LIST (ps @ [p])))"
    using represents_node [OF r q(2)] p q
    by (intro represents_update [OF r]) (auto simp: proc_head_valid)
  then show ?thesis
    using p q by (auto simp: insertProcQ_def on_lists_record proc_head_valid)
qed

lemma removeProcQ_nil [queue_step]:
  "represents s A \<Longrightarrow> procs A q [] \<Longrightarrow> removeProcQ q s = Some (NULL, s)"
  using represents_dlist [of s A q] by (auto simp: removeProcQ_def emptyProcQ_def dlist_empty_iff)

lemma removeProcQ_cons [queue_step]:
  assumes r: "represents s A" and q: "q \<in> set proc_heads" "procs A q (p # ps)"
  shows "\<exists>h. removeProcQ q s = Some (p, s\<lparr>lh_mem := h\<rparr>)
    \<and> represents (s\<lparr>lh_mem := h\<rparr>) (A(q \<mapsto> map P_LIST ps))"
proof -
  let ?h = "list_del (P_LIST p) (lh_mem s)"
  have d: "dlist (lh_mem s) q (map P_LIST (p # ps))" by (rule represents_dlist [OF r q(2)])
  have "queues_ok ?h (A(q \<mapsto> map P_LIST ps))"
    using queues_ok_del [OF represents_queues_ok [OF r] q(2), of "P_LIST p"] by simp
  then have "represents (s\<lparr>lh_mem := ?h\<rparr>) (A(q \<mapsto> map P_LIST ps))"
    using represents_node [OF r q(2)] q
    by (intro represents_update [OF r]) (auto simp: proc_head_valid)
  then show ?thesis
    using dlist_empty_iff [OF d] dlist_next [OF d]
    by (auto simp: removeProcQ_def emptyProcQ_def on_lists_record list_next_def)
qed

lemma headProcQ_represents:
  "represents s A \<Longrightarrow> procs A q ps \<Longrightarrow>
   headProcQ q s = Some (case ps of [] \<Rightarrow> NULL | p # _ \<Rightarrow> p)"
  using represents_dlist [of s A q "map P_LIST ps"]
  by (auto simp: headProcQ_def emptyProcQ_def dlist_empty_iff dlist_next split: list.splits)

lemma inj_P_LIST: "inj P_LIST" by (simp add: inj_def)

lemma outProcQ_in [queue_step]:
  assumes r: "represents s A" and q: "q \<in> set proc_heads" "procs A q ps"
    and p: "p \<in> set ps" "p \<noteq> NULL"
  shows "\<exists>h. outProcQ q p s = Some (p, s\<lparr>lh_mem := h\<rparr>)
    \<and> represents (s\<lparr>lh_mem := h\<rparr>) (A(q \<mapsto> map P_LIST (remove1 p ps)))"
proof -
  let ?h = "list_del (P_LIST p) (lh_mem s)"
  have d: "dlist (lh_mem s) q (map P_LIST ps)" by (rule represents_dlist [OF r q(2)])
  have walk: "list_for_each_until (\<lambda>iter. Some (iter = P_LIST p)) (nxt (lh_mem s) q) q (lh_mem s)
      = Some (Some (P_LIST p))"
    using list_for_each_until_dlist [OF d, of "\<lambda>iter. Some (iter = P_LIST p)" "\<lambda>y. y = P_LIST p"] p
    by (simp add: find_eq image_iff)
  have "queues_ok ?h (A(q \<mapsto> map P_LIST (remove1 p ps)))"
    using queues_ok_del [OF represents_queues_ok [OF r] q(2), of "P_LIST p"] p
    by (simp add: map_injection_remove1 [OF inj_P_LIST])
  then have "represents (s\<lparr>lh_mem := ?h\<rparr>) (A(q \<mapsto> map P_LIST (remove1 p ps)))"
    using represents_node [OF r q(2)] q
    by (intro represents_update [OF r])
      (auto simp: proc_head_valid dest: set_remove1_subset [THEN subsetD])
  with walk p show ?thesis by (auto simp: outProcQ_def on_lists_record)
qed

lemma outProcQ_notin [queue_step]:
  assumes r: "represents s A" and q: "procs A q ps" and p: "p \<notin> set ps"
  shows "outProcQ q p s = Some (NULL, s)"
proof -
  have d: "dlist (lh_mem s) q (map P_LIST ps)" by (rule represents_dlist [OF r q])
  then show ?thesis
    using list_for_each_until_dlist [OF d, of "\<lambda>iter. Some (iter = P_LIST p)" "\<lambda>y. y = P_LIST p"] p
    by (auto simp: outProcQ_def find_eq image_iff)
qed

section \<open>The bounded search\<close>

lemma searchProcQ_loop_links:
  assumes "links h a xs q" "q \<notin> set xs"
  shows "searchProcQ_loop i (nxt h a) q p h \<longleftrightarrow> P_LIST p \<in> set (take (Suc (Suc MAXPROC - i)) xs)"
  using assms
proof (induction xs arbitrary: a i)
  case Nil
  then show ?case by (simp add: searchProcQ_loop.simps)
next
  case (Cons x xs)
  show ?case
  proof (cases "i > MAXPROC")
    case True
    with Cons.prems show ?thesis by (auto simp: searchProcQ_loop.simps [of i x])
  next
    case False
    then have "Suc MAXPROC - i = Suc (Suc MAXPROC - Suc i)" by simp
    with Cons False show ?thesis by (auto simp: searchProcQ_loop.simps [of i x])
  qed
qed

text \<open>\<^verbatim>\<open>searchProcQ\<close> looks at the first 52 nodes of the queue, which is more than there
  are PCBs.\<close>

lemma searchProcQ_take:
  assumes r: "represents s A" and q: "procs A q ps"
  shows "searchProcQ p q s \<longleftrightarrow> p \<noteq> NULL \<and> p \<in> set (take (MAXPROC + 2) ps)"
proof -
  have d: "dlist (lh_mem s) q (map P_LIST ps)" by (rule represents_dlist [OF r q])
  then have l: "links (lh_mem s) q (map P_LIST ps) q" "q \<notin> set (map P_LIST ps)"
    by (simp_all add: dlist_def)
  from searchProcQ_loop_links [OF l, of 0 p] dlist_empty_iff [OF d]
  show ?thesis by (auto simp: searchProcQ_def take_map image_iff)
qed

text \<open>The static table: \<open>MAXPROC\<close> distinct PCBs, none of them at the null address, and no other
  PCB objects.\<close>

definition pcb_table_ok :: "sys \<Rightarrow> bool" where
  "pcb_table_ok s \<longleftrightarrow> length (pcbTable s) = MAXPROC \<and> distinct (pcbTable s)
     \<and> NULL \<notin> set (pcbTable s) \<and> dom (pcbs s) = set (pcbTable s)"

lemma proc_queue_members:
  assumes r: "represents s A" and q: "q \<in> set proc_heads" "procs A q ps"
  shows "distinct ps" "set ps \<subseteq> dom (pcbs s)"
proof -
  have d: "dlist (lh_mem s) q (map P_LIST ps)" by (rule represents_dlist [OF r q(2)])
  then show "distinct ps" using dlist_distinct [OF d] by (simp add: distinct_map)
  show "set ps \<subseteq> dom (pcbs s)" using represents_node [OF r q(2)] by fastforce
qed

lemma proc_queue_length:
  assumes r: "represents s A" and q: "q \<in> set proc_heads" "procs A q ps" and t: "pcb_table_ok s"
  shows "length ps \<le> MAXPROC"
proof -
  have "card (set ps) \<le> card (set (pcbTable s))"
    using proc_queue_members [OF r q] t by (intro card_mono) (auto simp: pcb_table_ok_def)
  then show ?thesis
    using proc_queue_members [OF r q] t by (simp add: pcb_table_ok_def distinct_card)
qed

lemma searchProcQ_represents [queue_step]:
  assumes r: "represents s A" and q: "q \<in> set proc_heads" "procs A q ps" and t: "pcb_table_ok s"
  shows "searchProcQ p q s \<longleftrightarrow> p \<in> set ps"
proof -
  have "NULL \<notin> set ps" using proc_queue_members [OF r q] t by (auto simp: pcb_table_ok_def)
  then show ?thesis
    using searchProcQ_take [OF r q(2)] proc_queue_length [OF r q t] by auto
qed

lemma find_cong_set: "(\<And>x. x \<in> set xs \<Longrightarrow> P x = Q x) \<Longrightarrow> find P xs = find Q xs"
  by (induction xs) auto

lemma find_map: "find P (map f xs) = map_option f (find (P \<circ> f) xs)"
  by (induction xs) auto

text \<open>The first PCB of the queue that waits for device \<open>devNo\<close> is taken out.\<close>

lemma unlockPcbDevNo_walk:
  assumes r: "represents s A" and q: "q \<in> set proc_heads" "procs A q ps"
  shows "list_for_each_until
            (\<lambda>pos. do { nPcb \<leftarrow> container_of_p_list pos; x \<leftarrow> pcbs s nPcb;
                        Some (blockedOnDevice x = devNo) })
            (nxt (lh_mem s) q) q (lh_mem s)
    = Some (map_option P_LIST (find (\<lambda>p. blockedOnDevice (the (pcbs s p)) = devNo) ps))"
proof -
  let ?P = "\<lambda>n. blockedOnDevice (the (pcbs s (the (container_of_p_list n)))) = devNo"
  have d: "dlist (lh_mem s) q (map P_LIST ps)" by (rule represents_dlist [OF r q(2)])
  have "list_for_each_until
            (\<lambda>pos. do { nPcb \<leftarrow> container_of_p_list pos; x \<leftarrow> pcbs s nPcb;
                        Some (blockedOnDevice x = devNo) })
            (nxt (lh_mem s) q) q (lh_mem s) = Some (find ?P (map P_LIST ps))"
    using proc_queue_members(2) [OF r q]
    by (intro list_for_each_until_dlist [OF d]) auto
  then show ?thesis by (simp add: find_map comp_def)
qed

lemma unlockPcbDevNo_none [queue_step]:
  assumes r: "represents s A" and q: "q \<in> set proc_heads" "procs A q ps"
    and n: "find (\<lambda>p. blockedOnDevice (the (pcbs s p)) = devNo) ps = None"
  shows "unlockPcbDevNo devNo q s = Some (NULL, s)"
  using unlockPcbDevNo_walk [OF r q, of devNo] n by (simp add: unlockPcbDevNo_def)

lemma unlockPcbDevNo_some [queue_step]:
  assumes r: "represents s A" and q: "q \<in> set proc_heads" "procs A q ps"
    and n: "find (\<lambda>p. blockedOnDevice (the (pcbs s p)) = devNo) ps = Some p" and p: "p \<noteq> NULL"
  shows "\<exists>h. unlockPcbDevNo devNo q s = Some (p, s\<lparr>lh_mem := h\<rparr>)
    \<and> represents (s\<lparr>lh_mem := h\<rparr>) (A(q \<mapsto> map P_LIST (remove1 p ps)))"
proof -
  have "p \<in> set ps" using find_Some_split [OF n] by simp
  with outProcQ_in [OF r q this p] unlockPcbDevNo_walk [OF r q, of devNo] n
  show ?thesis by (auto simp: unlockPcbDevNo_def)
qed

end
