(* ===== verification/Pcb_Alloc.thy ===== *)
theory Pcb_Alloc
  imports Pcb
begin

text \<open>
  What allocation and the tree operations of \<^verbatim>\<open>pcb.c\<close> do to the abstract queues, and
  the \<open>fifo\<close> interface of process queues, the free list and child lh_mem.
\<close>

section \<open>Initialisation of the free list\<close>

lemma initPcbs_loop_frame:
  "initPcbs_loop i s = s\<lparr>lh_mem := lh_mem (initPcbs_loop i s)\<rparr>"
proof (induction i arbitrary: s)
  case 0
  then show ?case by simp
next
  case (Suc i)
  from Suc [of "on_lists (list_add (P_LIST (pcbTable s ! i)) pcbFree_h) s"] show ?case
    by (simp add: on_lists_def)
qed

lemma initPcbs_loop_queues:
  assumes "queues_ok (lh_mem s) A" "A pcbFree_h = Some (map P_LIST ps)"
    and "i \<le> length (pcbTable s)" "distinct (take i (pcbTable s))"
    and "\<And>p. p \<in> set (take i (pcbTable s)) \<Longrightarrow> P_LIST p \<notin> nodes A"
  shows "queues_ok (lh_mem (initPcbs_loop i s))
    (A(pcbFree_h \<mapsto> map P_LIST (take i (pcbTable s) @ ps)))"
  using assms
proof (induction i arbitrary: s A ps)
  case 0
  then show ?case by (simp add: fun_upd_idem)
next
  case (Suc i)
  let ?p = "pcbTable s ! i"
  let ?s = "on_lists (list_add (P_LIST ?p) pcbFree_h) s"
  let ?A = "A(pcbFree_h \<mapsto> map P_LIST (?p # ps))"
  have take: "take (Suc i) (pcbTable s) = take i (pcbTable s) @ [?p]"
    using Suc.prems(3) by (simp add: take_Suc_conv_app_nth)
  have n: "nodes ?A = insert (P_LIST ?p) (nodes A)"
    by (rule nodes_insert [where xs = "map P_LIST ps"]) (use Suc.prems(2) in simp_all)
  have ok: "queues_ok (lh_mem ?s) ?A"
    using queues_ok_add [OF Suc.prems(1,2), of "P_LIST ?p"] Suc.prems(5) take by simp
  have "queues_ok (lh_mem (initPcbs_loop i ?s))
      (?A(pcbFree_h \<mapsto> map P_LIST (take i (pcbTable ?s) @ (?p # ps))))"
  proof (rule Suc.IH [OF ok])
    show "P_LIST p \<notin> nodes ?A" if "p \<in> set (take i (pcbTable ?s))" for p
      using that Suc.prems(4) Suc.prems(5) [of p] unfolding n take by (auto simp: on_lists_def)
  qed (use Suc.prems take in \<open>auto simp: on_lists_def\<close>)
  moreover have "pcbTable ?s = pcbTable s" by (simp add: on_lists_def)
  ultimately show ?case
    unfolding initPcbs_loop.simps take by (simp only: fun_upd_upd append.assoc append.simps)
qed

text \<open>After initialisation the free list holds the whole table, in table order.\<close>

lemma initPcbs_queues:
  assumes "queues_ok (lh_mem s) A" "A pcbFree_h = Some []" "pcb_table_ok s"
    and "\<And>p. p \<in> set (pcbTable s) \<Longrightarrow> P_LIST p \<notin> nodes A"
  shows "initPcbs s = s\<lparr>lh_mem := lh_mem (initPcbs s)\<rparr>"
    and "queues_ok (lh_mem (initPcbs s)) (A(pcbFree_h \<mapsto> map P_LIST (pcbTable s)))"
  using initPcbs_loop_queues [of s A "[]" MAXPROC] initPcbs_loop_frame [of MAXPROC s] assms
  by (simp_all add: initPcbs_def pcb_table_ok_def)

section \<open>allocPcb and freePcb\<close>

text \<open>The fields a newly allocated PCB has: everything is reset but the two device fields.\<close>

definition zero_state :: state_t where
  "zero_state = \<lparr>entry_hi = 0, cause = 0, status = 0, pc_epc = 0, gpr = (\<lambda>_. 0), hi = 0, lo = 0\<rparr>"

definition fresh_pcb :: "u32 \<Rightarrow> pcb_t \<Rightarrow> pcb_t" where
  "fresh_pcb pid x = \<lparr>p_parent = NULL, p_s = zero_state, p_time = 0, p_supportStruct = NULL,
     p_pid = pid, blockedOnDevice = blockedOnDevice x, deviceType = deviceType x\<rparr>"

lemma zero_state_eq:
  "x\<lparr>cause := 0, entry_hi := 0, gpr := (\<lambda>_. 0), hi := 0, lo := 0, pc_epc := 0, status := 0\<rparr> = zero_state"
  by (simp add: zero_state_def)

lemma fresh_pcb_eq:
  "x\<lparr>p_parent := NULL, p_supportStruct := NULL, p_s := zero_state, p_time := 0, p_pid := pid\<rparr>
   = fresh_pcb pid x"
  by (simp add: fresh_pcb_def)

lemma initPcbValues_eq:
  assumes "pcbs s p = Some x"
  shows "initPcbValues p s = Some (s\<lparr>
     lh_mem := INIT_LIST_HEAD (MSG_INBOX p) (INIT_LIST_HEAD (P_SIB p)
                (INIT_LIST_HEAD (P_CHILD p) (INIT_LIST_HEAD (P_LIST p) (lh_mem s)))),
     pcbs := (pcbs s)(p \<mapsto> fresh_pcb (next_pid s) x), next_pid := next_pid s + 1\<rparr>)"
  using assms
  by (simp add: initPcbValues_def upd_pcb_def on_lists_def zero_state_eq fresh_pcb_eq Let_def)

lemma allocPcb_nil [queue_step]:
  "represents s A \<Longrightarrow> procs A pcbFree_h [] \<Longrightarrow> allocPcb s = Some (NULL, s)"
  using represents_dlist [of s A pcbFree_h] by (auto simp: allocPcb_def dlist_empty_iff)

abbreviation alloc_queues :: "queues \<Rightarrow> ptr \<Rightarrow> ptr list \<Rightarrow> queues" where
  "alloc_queues A p ps \<equiv> A(pcbFree_h \<mapsto> map P_LIST ps, P_CHILD p \<mapsto> [], MSG_INBOX p \<mapsto> [])"

lemma not_node_of_head [simp]:
  "\<not> node_of q (P_CHILD p)" "\<not> node_of q (MSG_INBOX p)"
  by simp_all

lemma initPcbValues_queues:
  assumes ok: "queues_ok h A" and t: "\<And>q xs x. A q = Some xs \<Longrightarrow> x \<in> set xs \<Longrightarrow> node_of q x"
    and n: "P_LIST p \<notin> nodes A" "P_SIB p \<notin> nodes A"
  shows "queues_ok (INIT_LIST_HEAD (MSG_INBOX p) (INIT_LIST_HEAD (P_SIB p)
      (INIT_LIST_HEAD (P_CHILD p) (INIT_LIST_HEAD (P_LIST p) h)))) (A(P_CHILD p \<mapsto> [], MSG_INBOX p \<mapsto> []))"
proof -
  have 1: "queues_ok (INIT_LIST_HEAD (P_LIST p) h) A"
    by (rule queues_ok_init_node [OF ok n(1)])
  have 2: "queues_ok (INIT_LIST_HEAD (P_CHILD p) (INIT_LIST_HEAD (P_LIST p) h)) (A(P_CHILD p \<mapsto> []))"
    by (rule queues_ok_init [OF 1]) (use t in fastforce)
  have 3: "queues_ok (INIT_LIST_HEAD (P_SIB p) (INIT_LIST_HEAD (P_CHILD p) (INIT_LIST_HEAD (P_LIST p) h)))
      (A(P_CHILD p \<mapsto> []))"
    by (rule queues_ok_init_node [OF 2]) (use n in \<open>simp add: not_nodes_upd\<close>)
  show ?thesis
    by (rule queues_ok_init [OF 3]) (use t in \<open>fastforce split: if_splits\<close>)
qed

lemma allocPcb_cons [queue_step]:
  assumes r: "represents s A" and q: "procs A pcbFree_h (p # ps)" and x: "pcbs s p = Some x"
    and sib: "P_SIB p \<notin> nodes A"
  shows "\<exists>h. allocPcb s = Some (p, s\<lparr>lh_mem := h, pcbs := (pcbs s)(p \<mapsto> fresh_pcb (next_pid s) x),
            next_pid := next_pid s + 1\<rparr>)
    \<and> represents (s\<lparr>lh_mem := h, pcbs := (pcbs s)(p \<mapsto> fresh_pcb (next_pid s) x),
            next_pid := next_pid s + 1\<rparr>) (alloc_queues A p ps)
    \<and> P_LIST p \<notin> nodes (alloc_queues A p ps)"
proof -
  let ?h1 = "list_del (P_LIST p) (lh_mem s)"
  let ?A1 = "A(pcbFree_h \<mapsto> map P_LIST ps)"
  let ?h2 = "INIT_LIST_HEAD (MSG_INBOX p) (INIT_LIST_HEAD (P_SIB p)
      (INIT_LIST_HEAD (P_CHILD p) (INIT_LIST_HEAD (P_LIST p) ?h1)))"
  let ?s2 = "s\<lparr>lh_mem := ?h2, pcbs := (pcbs s)(p \<mapsto> fresh_pcb (next_pid s) x),
            next_pid := next_pid s + 1\<rparr>"
  have d: "dlist (lh_mem s) pcbFree_h (map P_LIST (p # ps))" by (rule represents_dlist [OF r q])
  have ok1: "queues_ok ?h1 ?A1"
    using queues_ok_del [OF represents_queues_ok [OF r] q, of "P_LIST p"] by simp
  have n1: "nodes ?A1 = nodes A - {P_LIST p}"
    using nodes_remove1 [OF represents_queues_ok [OF r] q, of "P_LIST p"] by simp
  have t1: "node_of a b" if "?A1 a = Some xs" "b \<in> set xs" for a xs b
    using that represents_node [OF r] q by (auto split: if_splits simp: proc_heads_def)
  have ok2: "queues_ok ?h2 (alloc_queues A p ps)"
    using initPcbValues_queues [OF ok1 t1, where p = p] n1 sib by simp
  have "represents (s\<lparr>lh_mem := ?h2\<rparr>) (alloc_queues A p ps)"
  proof (rule represents_intro [OF r ok2])
    fix z
    show "alloc_queues A p ps z = A z \<or> (\<exists>ys. alloc_queues A p ps z = Some ys \<and> lh_valid s z \<and>
        (\<forall>y \<in> set ys. node_of z y \<and> lh_valid s y))"
      using represents_node [OF r q] x by (cases "z = pcbFree_h") auto
  qed
  then have rep: "represents ?s2 (alloc_queues A p ps)"
    using x by (subst represents_cong [of _ "s\<lparr>lh_mem := ?h2\<rparr>"]) (simp_all del: dom_fun_upd)
  have "P_LIST p \<notin> nodes ?A1" unfolding n1 by simp
  then have "P_LIST p \<notin> nodes (alloc_queues A p ps)"
    by (rule not_nodes_upd [OF not_nodes_upd]) simp_all
  moreover have "allocPcb s = Some (p, ?s2)"
  proof -
    have "\<not> list_empty pcbFree_h (lh_mem s)" "nxt (lh_mem s) pcbFree_h = P_LIST p"
      using dlist_empty_iff [OF d] dlist_next [OF d] by simp_all
    then show ?thesis
      using initPcbValues_eq [of "on_lists (list_del (P_LIST p)) s" p x] x
      by (simp add: allocPcb_def on_lists_def Let_def)
  qed
  ultimately show ?thesis using rep by blast
qed

lemma freePcb_represents [queue_step]:
  assumes r: "represents s A" and q: "procs A pcbFree_h ps"
    and p: "pcbs s p = Some x" and new: "P_LIST p \<notin> nodes A"
  shows "\<exists>h. freePcb p s = Some (s\<lparr>lh_mem := h\<rparr>)
    \<and> represents (s\<lparr>lh_mem := h\<rparr>) (A(pcbFree_h \<mapsto> map P_LIST (ps @ [p])))"
  using insertProcQ_represents [OF r _ q p new] p
  by (simp add: freePcb_def insertProcQ_def proc_heads_def on_lists_def)

section \<open>The process tree\<close>

abbreviation children :: "queues \<Rightarrow> ptr \<Rightarrow> ptr list \<Rightarrow> bool" where
  "children A p cs \<equiv> A (P_CHILD p) = Some (map P_SIB cs)"

lemma emptyChild_represents [queue_step]:
  "represents s A \<Longrightarrow> children A p cs \<Longrightarrow> pcbs s p = Some x \<Longrightarrow> emptyChild p s = Some (cs = [])"
  using represents_dlist [of s A "P_CHILD p"] by (auto simp: emptyChild_def dlist_empty_iff)

lemma represents_upd_pcb:
  assumes "represents s A" "pcbs s p = Some x"
  shows "represents (s\<lparr>pcbs := (pcbs s)(p \<mapsto> y)\<rparr>) A"
  using assms represents_cong [of "s\<lparr>pcbs := (pcbs s)(p \<mapsto> y)\<rparr>" s A]
  by (simp del: dom_fun_upd)

lemma insertChild_represents [queue_step]:
  assumes r: "represents s A" and q: "children A prnt cs" and x: "pcbs s p = Some x"
    and new: "P_SIB p \<notin> nodes A"
  shows "\<exists>h. insertChild prnt p s = Some (s\<lparr>pcbs := (pcbs s)(p \<mapsto> x\<lparr>p_parent := prnt\<rparr>), lh_mem := h\<rparr>)
    \<and> represents (s\<lparr>pcbs := (pcbs s)(p \<mapsto> x\<lparr>p_parent := prnt\<rparr>), lh_mem := h\<rparr>)
        (A(P_CHILD prnt \<mapsto> map P_SIB (cs @ [p])))"
proof -
  let ?s1 = "s\<lparr>pcbs := (pcbs s)(p \<mapsto> x\<lparr>p_parent := prnt\<rparr>)\<rparr>"
  let ?h = "list_add_tail (P_SIB p) (P_CHILD prnt) (lh_mem s)"
  have r1: "represents ?s1 A" by (rule represents_upd_pcb [OF r x])
  have prnt: "pcbs s prnt \<noteq> None" using r q by (fastforce simp: represents_def)
  have ok: "queues_ok ?h (A(P_CHILD prnt \<mapsto> map P_SIB cs @ [P_SIB p]))"
    by (rule queues_ok_add_tail [OF represents_queues_ok [OF r] q new])
  have "represents (?s1\<lparr>lh_mem := ?h\<rparr>) (A(P_CHILD prnt \<mapsto> map P_SIB (cs @ [p])))"
    using ok represents_node [OF r1 q] x prnt
    by (intro represents_update [OF r1]) (auto split: if_splits)
  then show ?thesis
    using x prnt by (auto simp: insertChild_def upd_pcb_def on_lists_def)
qed

lemma removeChild_nil [queue_step]:
  "represents s A \<Longrightarrow> children A p [] \<Longrightarrow> pcbs s p = Some x \<Longrightarrow> removeChild p s = Some (NULL, s)"
  by (auto simp: removeChild_def emptyChild_represents)

lemma removeChild_cons [queue_step]:
  assumes r: "represents s A" and q: "children A p (c # cs)" and x: "pcbs s p = Some x"
  shows "removeChild p s = Some (c, s\<lparr>lh_mem := list_del (P_SIB c) (lh_mem s)\<rparr>)
    \<and> represents (s\<lparr>lh_mem := list_del (P_SIB c) (lh_mem s)\<rparr>) (A(P_CHILD p \<mapsto> map P_SIB cs))"
proof -
  let ?h = "list_del (P_SIB c) (lh_mem s)"
  have d: "dlist (lh_mem s) (P_CHILD p) (map P_SIB (c # cs))" by (rule represents_dlist [OF r q])
  have "queues_ok ?h (A(P_CHILD p \<mapsto> map P_SIB cs))"
    using queues_ok_del [OF represents_queues_ok [OF r] q, of "P_SIB c"] by simp
  then have "represents (s\<lparr>lh_mem := ?h\<rparr>) (A(P_CHILD p \<mapsto> map P_SIB cs))"
    using represents_node [OF r q] x by (intro represents_update [OF r]) auto
  then show ?thesis
    using emptyChild_represents [OF r q x] dlist_next [OF d]
    by (simp add: removeChild_def on_lists_def)
qed

lemma outChild_orphan [queue_step]:
  "pcbs s p = Some x \<Longrightarrow> p_parent x = NULL \<Longrightarrow> outChild p s = Some (NULL, s)"
  by (simp add: outChild_def)

lemma inj_P_SIB: "inj P_SIB" by (simp add: inj_def)

lemma outChild_listed [queue_step]:
  assumes r: "represents s A" and q: "children A prnt cs" and c: "c \<in> set cs"
    and x: "pcbs s c = Some x" "p_parent x \<noteq> NULL"
  shows "\<exists>h. outChild c s = Some (c, s\<lparr>pcbs := (pcbs s)(c \<mapsto> x\<lparr>p_parent := NULL\<rparr>), lh_mem := h\<rparr>)
    \<and> represents (s\<lparr>pcbs := (pcbs s)(c \<mapsto> x\<lparr>p_parent := NULL\<rparr>), lh_mem := h\<rparr>)
        (A(P_CHILD prnt \<mapsto> map P_SIB (remove1 c cs)))"
proof -
  let ?s1 = "s\<lparr>pcbs := (pcbs s)(c \<mapsto> x\<lparr>p_parent := NULL\<rparr>)\<rparr>"
  let ?h = "list_del (P_SIB c) (lh_mem s)"
  have r1: "represents ?s1 A" by (rule represents_upd_pcb [OF r x(1)])
  have prnt: "pcbs s prnt \<noteq> None" using r q by (fastforce simp: represents_def)
  have "queues_ok ?h (A(P_CHILD prnt \<mapsto> map P_SIB (remove1 c cs)))"
    using queues_ok_del [OF represents_queues_ok [OF r] q, of "P_SIB c"] c
    by (simp add: map_injection_remove1 [OF inj_P_SIB])
  then have "represents (?s1\<lparr>lh_mem := ?h\<rparr>) (A(P_CHILD prnt \<mapsto> map P_SIB (remove1 c cs)))"
    using represents_node [OF r1 q] prnt x
    by (intro represents_update [OF r1])
      (auto dest: set_remove1_subset [THEN subsetD])
  then show ?thesis using x by (auto simp: outChild_def upd_pcb_def on_lists_def)
qed

end
