(* ===== verification/Msg.thy ===== *)
theory Msg
  imports Pcb_Alloc
begin

text \<open>
  \<^verbatim>\<open>src/phase1/msg.c\<close>: the pool of messages and the message queues.  Receiving a
  message unlinks it twice (\<open>popMessage\<close> and then \<open>freeMsg\<close> call \<open>list_del\<close> on it); \<open>unlinked\<close> is
  what makes the second call harmless.
\<close>

section \<open>The functions\<close>

text \<open>\<open>for (i = 0; i < n; i++) list_add(&msgTable[i].m_list, &msgFree_h)\<close>.\<close>

primrec initMsgs_loop :: "nat \<Rightarrow> sys \<Rightarrow> sys" where
  "initMsgs_loop 0 s = s"
| "initMsgs_loop (Suc i) s =
     (let s' = initMsgs_loop i s in on_lists (list_add (M_LIST (msgTable s' ! i)) msgFree_h) s')"

definition initMsgs :: "sys \<Rightarrow> sys" where
  "initMsgs s = initMsgs_loop MAXMESSAGES s"

definition freeMsg :: "ptr \<Rightarrow> sys \<Rightarrow> sys option" where
  "freeMsg m s =
     (if lh_valid s (M_LIST m)
      then Some (on_lists (list_add_tail (M_LIST m) msgFree_h) (on_lists (list_del (M_LIST m)) s))
      else None)"

definition mkEmptyMessageQ :: "lh \<Rightarrow> sys \<Rightarrow> sys" where
  "mkEmptyMessageQ head s = on_lists (INIT_LIST_HEAD head) s"

definition emptyMessageQ :: "lh \<Rightarrow> sys \<Rightarrow> bool" where
  "emptyMessageQ head s = list_empty head (lh_mem s)"

definition allocMsg :: "sys \<Rightarrow> (ptr \<times> sys) option" where
  "allocMsg s =
     (if list_empty msgFree_h (lh_mem s) then Some (NULL, s)
      else do {
        nms \<leftarrow> container_of_m_list (nxt (lh_mem s) msgFree_h);
        let s1 = on_lists (list_del (nxt (lh_mem s) msgFree_h)) s;
        let s2 = mkEmptyMessageQ (M_LIST nms) s1;
        s3 \<leftarrow> upd_msg nms (\<lambda>m. m\<lparr>m_sender := NULL, m_payload := 0\<rparr>) s2;
        Some (nms, s3)
      })"

definition insertMessage :: "lh \<Rightarrow> ptr \<Rightarrow> sys \<Rightarrow> sys option" where
  "insertMessage head m s =
     (if lh_valid s head \<and> lh_valid s (M_LIST m)
      then Some (on_lists (list_add_tail (M_LIST m) head) s) else None)"

definition pushMessage :: "lh \<Rightarrow> ptr \<Rightarrow> sys \<Rightarrow> sys option" where
  "pushMessage head m s =
     (if lh_valid s head \<and> lh_valid s (M_LIST m)
      then Some (on_lists (list_add (M_LIST m) head) s) else None)"

text \<open>\<^verbatim>\<open>nms->m_sender->p_pid == p_ptr->p_pid\<close>.\<close>

definition sender_pid_matches :: "sys \<Rightarrow> ptr \<Rightarrow> lh \<Rightarrow> bool option" where
  "sender_pid_matches s p_ptr iter = do {
     nms \<leftarrow> container_of_m_list iter;
     m \<leftarrow> msgs s nms;
     sx \<leftarrow> pcbs s (m_sender m);
     px \<leftarrow> pcbs s p_ptr;
     Some (p_pid sx = p_pid px)
   }"

definition popMessage :: "lh \<Rightarrow> ptr \<Rightarrow> sys \<Rightarrow> (ptr \<times> sys) option" where
  "popMessage head p_ptr s =
     (if \<not> lh_valid s head then None
      else if emptyMessageQ head s then Some (NULL, s)
      else if p_ptr = NULL then do {
        nms \<leftarrow> container_of_m_list (nxt (lh_mem s) head);
        Some (nms, on_lists (list_del (nxt (lh_mem s) head)) s)
      }
      else do {
        r \<leftarrow> list_for_each_until (sender_pid_matches s p_ptr) (nxt (lh_mem s) head) head (lh_mem s);
        (case r of
           None \<Rightarrow> Some (NULL, s)
         | Some iter \<Rightarrow> do {
             nms \<leftarrow> container_of_m_list iter;
             Some (nms, on_lists (list_del (M_LIST nms)) s)
           })
      })"

definition headMessage :: "lh \<Rightarrow> sys \<Rightarrow> ptr option" where
  "headMessage head s =
     (if emptyMessageQ head s then Some NULL
      else container_of_m_list (nxt (lh_mem s) head))"

section \<open>Initialisation of the pool\<close>

definition msg_table_ok :: "sys \<Rightarrow> bool" where
  "msg_table_ok s \<longleftrightarrow> length (msgTable s) = MAXMESSAGES \<and> distinct (msgTable s)
     \<and> NULL \<notin> set (msgTable s) \<and> dom (msgs s) = set (msgTable s)"

lemma initMsgs_loop_frame:
  "initMsgs_loop i s = s\<lparr>lh_mem := lh_mem (initMsgs_loop i s)\<rparr>"
proof (induction i)
  case 0
  then show ?case by simp
next
  case (Suc i)
  let ?t = "initMsgs_loop i s"
  have "initMsgs_loop (Suc i) s = ?t\<lparr>lh_mem := lh_mem (initMsgs_loop (Suc i) s)\<rparr>"
    by (simp add: Let_def on_lists_def)
  also have "\<dots> = s\<lparr>lh_mem := lh_mem (initMsgs_loop (Suc i) s)\<rparr>"
    by (subst Suc) simp
  finally show ?case .
qed

lemma initMsgs_loop_queues:
  assumes "queues_ok (lh_mem s) A" "A msgFree_h = Some []"
    and "i \<le> length (msgTable s)" "distinct (take i (msgTable s))"
    and "\<And>m. m \<in> set (take i (msgTable s)) \<Longrightarrow> M_LIST m \<notin> nodes A"
  shows "queues_ok (lh_mem (initMsgs_loop i s))
    (A(msgFree_h \<mapsto> map M_LIST (rev (take i (msgTable s)))))"
  using assms(3-5)
proof (induction i)
  case 0
  then show ?case using assms(1,2) by (simp add: fun_upd_idem)
next
  case (Suc i)
  let ?m = "msgTable s ! i" and ?t = "initMsgs_loop i s"
  let ?A = "A(msgFree_h \<mapsto> map M_LIST (rev (take i (msgTable s))))"
  have take: "take (Suc i) (msgTable s) = take i (msgTable s) @ [?m]"
    using Suc.prems(1) by (simp add: take_Suc_conv_app_nth)
  have tab: "msgTable ?t = msgTable s" by (subst initMsgs_loop_frame) simp
  have ok: "queues_ok (lh_mem ?t) ?A"
    by (rule Suc.IH) (use Suc.prems take in auto)
  have "M_LIST ?m \<notin> nodes ?A"
    using Suc.prems take by (intro not_nodes_upd) auto
  from queues_ok_add [OF ok fun_upd_same this] have
    "queues_ok (list_add (M_LIST ?m) msgFree_h (lh_mem ?t))
       (?A(msgFree_h \<mapsto> M_LIST ?m # map M_LIST (rev (take i (msgTable s)))))" .
  then show ?case by (simp only: initMsgs_loop.simps Let_def tab take lists_on_lists fun_upd_upd
        rev_append rev.simps append.simps list.map)
qed

text \<open>After initialisation the pool holds the whole table, last element first.\<close>

lemma initMsgs_queues:
  assumes "queues_ok (lh_mem s) A" "A msgFree_h = Some []" "msg_table_ok s"
    and "\<And>m. m \<in> set (msgTable s) \<Longrightarrow> M_LIST m \<notin> nodes A"
  shows "initMsgs s = s\<lparr>lh_mem := lh_mem (initMsgs s)\<rparr>"
    and "queues_ok (lh_mem (initMsgs s)) (A(msgFree_h \<mapsto> map M_LIST (rev (msgTable s))))"
  using initMsgs_loop_queues [of s A MAXMESSAGES] initMsgs_loop_frame [of MAXMESSAGES s] assms
  by (simp_all add: initMsgs_def msg_table_ok_def)

section \<open>Allocation and release\<close>

abbreviation inbox :: "queues \<Rightarrow> lh \<Rightarrow> ptr list \<Rightarrow> bool" where
  "inbox A q ms \<equiv> A q = Some (map M_LIST ms)"

lemma msg_head_represents:
  "represents s A \<Longrightarrow> A q = Some xs \<Longrightarrow> lh_valid s q"
  by (simp add: represents_def)

lemma node_of_M_LIST_iff [simp]: "node_of q (M_LIST m) = is_msg_head q"
  by simp

lemma inj_M_LIST: "inj M_LIST" by (simp add: inj_def)

lemma allocMsg_nil [queue_step]:
  "represents s A \<Longrightarrow> inbox A msgFree_h [] \<Longrightarrow> allocMsg s = Some (NULL, s)"
  using represents_dlist [of s A msgFree_h] by (auto simp: allocMsg_def dlist_empty_iff)

definition empty_msg :: msg_t where
  "empty_msg = \<lparr>m_sender = NULL, m_payload = 0\<rparr>"

lemma represents_upd_msg:
  assumes "represents s A" "msgs s m = Some x"
  shows "represents (s\<lparr>msgs := (msgs s)(m \<mapsto> y)\<rparr>) A"
  using assms represents_cong [of "s\<lparr>msgs := (msgs s)(m \<mapsto> y)\<rparr>" s A] by (simp del: dom_fun_upd)

lemma allocMsg_cons [queue_step]:
  assumes r: "represents s A" and q: "inbox A msgFree_h (m # ms)" and x: "msgs s m = Some x"
  shows "\<exists>h. allocMsg s = Some (m, s\<lparr>lh_mem := h, msgs := (msgs s)(m \<mapsto> empty_msg)\<rparr>)
    \<and> represents (s\<lparr>lh_mem := h, msgs := (msgs s)(m \<mapsto> empty_msg)\<rparr>) (A(msgFree_h \<mapsto> map M_LIST ms))
    \<and> M_LIST m \<notin> nodes (A(msgFree_h \<mapsto> map M_LIST ms))"
proof -
  let ?A = "A(msgFree_h \<mapsto> map M_LIST ms)"
  let ?h1 = "list_del (M_LIST m) (lh_mem s)"
  let ?h2 = "INIT_LIST_HEAD (M_LIST m) ?h1"
  have d: "dlist (lh_mem s) msgFree_h (map M_LIST (m # ms))" by (rule represents_dlist [OF r q])
  have ok1: "queues_ok ?h1 ?A"
    using queues_ok_del [OF represents_queues_ok [OF r] q, of "M_LIST m"] by simp
  have "nodes ?A = nodes A - {M_LIST m}"
    using nodes_remove1 [OF represents_queues_ok [OF r] q, of "M_LIST m"] by simp
  then have n: "M_LIST m \<notin> nodes ?A" by simp
  have ok2: "queues_ok ?h2 ?A" by (rule queues_ok_init_node [OF ok1 n])
  have "represents (s\<lparr>lh_mem := ?h2\<rparr>) ?A"
    using represents_node [OF r q] x by (intro represents_update [OF r ok2]) auto
  from represents_upd_msg [OF this, of m x empty_msg] x
  have rep: "represents (s\<lparr>lh_mem := ?h2, msgs := (msgs s)(m \<mapsto> empty_msg)\<rparr>) ?A" by simp
  have "\<not> list_empty msgFree_h (lh_mem s)" "nxt (lh_mem s) msgFree_h = M_LIST m"
    using dlist_empty_iff [OF d] dlist_next [OF d] by simp_all
  moreover have "x\<lparr>m_sender := NULL, m_payload := 0\<rparr> = empty_msg" by (simp add: empty_msg_def)
  ultimately have "allocMsg s = Some (m, s\<lparr>lh_mem := ?h2, msgs := (msgs s)(m \<mapsto> empty_msg)\<rparr>)"
    using x by (simp add: allocMsg_def on_lists_def upd_msg_def mkEmptyMessageQ_def Let_def)
  with rep n show ?thesis by blast
qed

text \<open>A node whose own pointers name two nodes that are linked to each other: a node just unlinked,
  or one just initialised.  Unlinking it again changes nothing.\<close>

definition unlinked :: "lh \<Rightarrow> list_head \<Rightarrow> bool" where
  "unlinked e h \<longleftrightarrow> nxt h (prv h e) = nxt h e \<and> prv h (nxt h e) = prv h e"

lemma list_del_unlinked: "unlinked e h \<Longrightarrow> list_del e h = h"
  by (simp add: unlinked_def list_del_noop)

lemma unlinked_list_del: "dlist h q xs \<Longrightarrow> x \<in> set xs \<Longrightarrow> unlinked x (list_del x h)"
  using list_del_dangling by (simp add: unlinked_def)

lemma insertMessage_represents [queue_step]:
  assumes r: "represents s A" and q: "is_msg_head q" "inbox A q ms"
    and m: "msgs s m = Some x" and new: "M_LIST m \<notin> nodes A"
  shows "\<exists>h. insertMessage q m s = Some (s\<lparr>lh_mem := h\<rparr>)
    \<and> represents (s\<lparr>lh_mem := h\<rparr>) (A(q \<mapsto> map M_LIST (ms @ [m])))"
proof -
  let ?h = "list_add_tail (M_LIST m) q (lh_mem s)"
  have "queues_ok ?h (A(q \<mapsto> map M_LIST ms @ [M_LIST m]))"
    by (rule queues_ok_add_tail [OF represents_queues_ok [OF r] q(2) new])
  then have "represents (s\<lparr>lh_mem := ?h\<rparr>) (A(q \<mapsto> map M_LIST (ms @ [m])))"
    using represents_node [OF r q(2)] m q msg_head_represents [OF r q(2)]
    by (intro represents_update [OF r]) auto
  then show ?thesis
    using m q msg_head_represents [OF r q(2)] by (auto simp: insertMessage_def on_lists_def)
qed

lemma freeMsg_represents [queue_step]:
  assumes r: "represents s A" and q: "inbox A msgFree_h ms"
    and m: "msgs s m = Some x" and new: "M_LIST m \<notin> nodes A" and u: "unlinked (M_LIST m) (lh_mem s)"
  shows "\<exists>h. freeMsg m s = Some (s\<lparr>lh_mem := h\<rparr>)
    \<and> represents (s\<lparr>lh_mem := h\<rparr>) (A(msgFree_h \<mapsto> map M_LIST (ms @ [m])))"
  using insertMessage_represents [OF r _ q m new] m
  by (auto simp: insertMessage_def freeMsg_def on_lists_def list_del_unlinked [OF u])

section \<open>Receiving\<close>

lemma popMessage_nil [queue_step]:
  assumes r: "represents s A" and q: "inbox A q []"
  shows "popMessage q p s = Some (NULL, s)"
  using represents_dlist [OF r q] msg_head_represents [OF r q]
  by (auto simp: popMessage_def emptyMessageQ_def dlist_empty_iff)

lemma pop_step:
  assumes r: "represents s A" and q: "is_msg_head q" "inbox A q ms" and m: "m \<in> set ms"
  shows "represents (s\<lparr>lh_mem := list_del (M_LIST m) (lh_mem s)\<rparr>) (A(q \<mapsto> map M_LIST (remove1 m ms)))"
    and "M_LIST m \<notin> nodes (A(q \<mapsto> map M_LIST (remove1 m ms)))"
    and "unlinked (M_LIST m) (list_del (M_LIST m) (lh_mem s))"
proof -
  have e: "map M_LIST (remove1 m ms) = remove1 (M_LIST m) (map M_LIST ms)"
    by (rule map_injection_remove1 [OF inj_M_LIST])
  have "queues_ok (list_del (M_LIST m) (lh_mem s)) (A(q \<mapsto> map M_LIST (remove1 m ms)))"
    unfolding e by (rule queues_ok_del [OF represents_queues_ok [OF r] q(2)]) (use m in simp)
  then show "represents (s\<lparr>lh_mem := list_del (M_LIST m) (lh_mem s)\<rparr>) (A(q \<mapsto> map M_LIST (remove1 m ms)))"
    using represents_node [OF r q(2)] msg_head_represents [OF r q(2)] q
    by (intro represents_update [OF r]) (auto dest: set_remove1_subset [THEN subsetD])
  show "M_LIST m \<notin> nodes (A(q \<mapsto> map M_LIST (remove1 m ms)))"
    unfolding e by (subst nodes_remove1 [OF represents_queues_ok [OF r] q(2)]) (use m in simp_all)
  show "unlinked (M_LIST m) (list_del (M_LIST m) (lh_mem s))"
    by (rule unlinked_list_del [OF represents_dlist [OF r q(2)]]) (use m in simp)
qed

lemma popMessage_any [queue_step]:
  assumes r: "represents s A" and q: "is_msg_head q" "inbox A q (m # ms)"
  shows "popMessage q NULL s = Some (m, s\<lparr>lh_mem := list_del (M_LIST m) (lh_mem s)\<rparr>)"
  using represents_dlist [OF r q(2)] msg_head_represents [OF r q(2)]
  by (auto simp: popMessage_def emptyMessageQ_def dlist_empty_iff dlist_next on_lists_def)

text \<open>What \<open>popMessage\<close> selects when a sender is given: the first message whose sender has the pid of
  the PCB given.\<close>

definition from_pid :: "sys \<Rightarrow> u32 \<Rightarrow> ptr \<Rightarrow> bool" where
  "from_pid s pid m \<longleftrightarrow> p_pid (the (pcbs s (m_sender (the (msgs s m))))) = pid"

text \<open>Every message of the inbox was sent by a PCB.\<close>

definition senders_ok :: "sys \<Rightarrow> ptr list \<Rightarrow> bool" where
  "senders_ok s ms \<longleftrightarrow> (\<forall>m \<in> set ms. \<forall>x. msgs s m = Some x \<longrightarrow> pcbs s (m_sender x) \<noteq> None)"

lemma popMessage_from [queue_step]:
  assumes r: "represents s A" and q: "is_msg_head q" "inbox A q ms"
    and p: "pcbs s p = Some x" "p \<noteq> NULL" and snd: "senders_ok s ms"
  shows "popMessage q p s = (case find (from_pid s (p_pid x)) ms of
      None \<Rightarrow> Some (NULL, s)
    | Some m \<Rightarrow> Some (m, s\<lparr>lh_mem := list_del (M_LIST m) (lh_mem s)\<rparr>))"
proof (cases ms)
  case Nil
  with popMessage_nil [OF r] q show ?thesis by simp
next
  case (Cons a as)
  have d: "dlist (lh_mem s) q (map M_LIST ms)" by (rule represents_dlist [OF r q(2)])
  have "sender_pid_matches s p n = Some (from_pid s (p_pid x) (the (container_of_m_list n)))"
    if "n \<in> set (map M_LIST ms)" for n
    using that represents_node [OF r q(2)] snd p
    by (fastforce simp: sender_pid_matches_def from_pid_def senders_ok_def)
  from list_for_each_until_dlist [OF d this] have
    "list_for_each_until (sender_pid_matches s p) (nxt (lh_mem s) q) q (lh_mem s)
      = Some (map_option M_LIST (find (from_pid s (p_pid x)) ms))"
    by (simp add: find_map comp_def)
  moreover have "\<not> emptyMessageQ q s" using dlist_empty_iff [OF d] Cons by (simp add: emptyMessageQ_def)
  ultimately show ?thesis
    using p msg_head_represents [OF r q(2)]
    by (auto simp: popMessage_def on_lists_def split: option.split)
qed

lemma headMessage_represents:
  "represents s A \<Longrightarrow> inbox A q ms \<Longrightarrow>
   headMessage q s = Some (case ms of [] \<Rightarrow> NULL | m # _ \<Rightarrow> m)"
  using represents_dlist [of s A q "map M_LIST ms"]
  by (auto simp: headMessage_def emptyMessageQ_def dlist_empty_iff dlist_next split: list.splits)

lemma pushMessage_represents [queue_step]:
  assumes r: "represents s A" and q: "is_msg_head q" "inbox A q ms"
    and m: "msgs s m = Some x" and new: "M_LIST m \<notin> nodes A"
  shows "\<exists>h. pushMessage q m s = Some (s\<lparr>lh_mem := h\<rparr>)
    \<and> represents (s\<lparr>lh_mem := h\<rparr>) (A(q \<mapsto> map M_LIST (m # ms)))"
proof -
  let ?h = "list_add (M_LIST m) q (lh_mem s)"
  have "queues_ok ?h (A(q \<mapsto> map M_LIST (m # ms)))"
    using queues_ok_add [OF represents_queues_ok [OF r] q(2) new] by simp
  then have "represents (s\<lparr>lh_mem := ?h\<rparr>) (A(q \<mapsto> map M_LIST (m # ms)))"
    using represents_node [OF r q(2)] m q msg_head_represents [OF r q(2)]
    by (intro represents_update [OF r]) auto
  then show ?thesis
    using m q msg_head_represents [OF r q(2)] by (auto simp: pushMessage_def on_lists_def)
qed

text \<open>Popping a message and freeing it, which is what \<open>recv\<close> does: the message goes from the inbox to
  the end of the pool, and its second unlinking is harmless.\<close>

lemma pop_free_represents:
  assumes r: "represents s A" and q: "q \<noteq> msgFree_h" "is_msg_head q" "inbox A q ms" and m: "m \<in> set ms"
    and f: "inbox A msgFree_h fs"
  shows "\<exists>h. freeMsg m (s\<lparr>lh_mem := list_del (M_LIST m) (lh_mem s)\<rparr>) = Some (s\<lparr>lh_mem := h\<rparr>)
    \<and> represents (s\<lparr>lh_mem := h\<rparr>)
        (A(q \<mapsto> map M_LIST (remove1 m ms), msgFree_h \<mapsto> map M_LIST (fs @ [m])))"
proof -
  let ?s1 = "s\<lparr>lh_mem := list_del (M_LIST m) (lh_mem s)\<rparr>"
  note step = pop_step [OF r q(2,3) m]
  have f1: "inbox (A(q \<mapsto> map M_LIST (remove1 m ms))) msgFree_h fs" using f q(1) by simp
  from represents_node [OF r q(3)] m obtain x where x: "msgs s m = Some x" by fastforce
  then have "msgs ?s1 m = Some x" by simp
  from freeMsg_represents [OF step(1) f1 this step(2)] step(3)
  show ?thesis by simp
qed

end
