(* ===== verification/Queue_Instances.thy ===== *)
theory Queue_Instances
  imports Msg
begin

text \<open>
  The queues of \<^verbatim>\<open>pcb.c\<close> and \<^verbatim>\<open>msg.c\<close> as instances of the interfaces
  \<open>fifo\<close> and \<open>fifo_remove\<close>: process queues, the free PCB list, child lists and message
  inboxes.  The representation of an instance is local, one well formed list of objects: it does
  not ask for the global invariant, so a client of one queue needs to know nothing of the others.
\<close>

section \<open>Queues one can also take an element out of the middle of\<close>

locale fifo_remove = fifo rep ok enq deq
  for rep :: "'s \<Rightarrow> 'q \<Rightarrow> 'e list \<Rightarrow> bool"
    and ok :: "'s \<Rightarrow> 'e \<Rightarrow> bool"
    and enq :: "'q \<Rightarrow> 'e \<Rightarrow> 's \<Rightarrow> 's option"
    and deq :: "'q \<Rightarrow> 's \<Rightarrow> ('e option \<times> 's) option" +
  fixes remove :: "'q \<Rightarrow> 'e \<Rightarrow> 's \<Rightarrow> ('e option \<times> 's) option"
  assumes remove_in: "rep s q xs \<Longrightarrow> ok s e \<Longrightarrow> e \<in> set xs \<Longrightarrow>
      \<exists>s'. remove q e s = Some (Some e, s') \<and> rep s' q (remove1 e xs) \<and> (\<forall>y. ok s' y = ok s y)"
    and remove_notin: "rep s q xs \<Longrightarrow> e \<notin> set xs \<Longrightarrow> remove q e s = Some (None, s)"
begin

text \<open>An element removed and inserted again goes to the back of the queue.\<close>

lemma requeue:
  assumes "rep s q xs" "ok s e" "e \<in> set xs" "distinct xs"
  shows "\<exists>s' s''. remove q e s = Some (Some e, s') \<and> enq q e s' = Some s''
    \<and> rep s'' q (remove1 e xs @ [e])"
proof -
  from remove_in [OF assms(1-3)] obtain s' where
    s': "remove q e s = Some (Some e, s')" "rep s' q (remove1 e xs)" "\<forall>y. ok s' y = ok s y"
    by blast
  moreover have "e \<notin> set (remove1 e xs)" using assms(4) by simp
  ultimately show ?thesis using enq_rep [of s' q "remove1 e xs" e] assms(2) by blast
qed

text \<open>Taking an element out does not disturb the order of the others.\<close>

lemma remove_then_drain:
  assumes "rep s q xs" "ok s e" "e \<in> set xs"
  shows "\<exists>s' s''. remove q e s = Some (Some e, s')
    \<and> deq_upto deq q (Suc (length xs)) s' = Some (remove1 e xs, s'')"
proof -
  from remove_in [OF assms] obtain s' where
    s': "remove q e s = Some (Some e, s')" "rep s' q (remove1 e xs)" by blast
  have "length (remove1 e xs) < Suc (length xs)" by (simp add: length_remove1 assms(3) le_imp_less_Suc)
  from deq_upto_rep [OF s'(2) this] s'(1) show ?thesis by blast
qed

end

text \<open>The C operations return a null pointer for "nothing".\<close>

definition opt_ptr :: "(ptr \<times> sys) option \<Rightarrow> (ptr option \<times> sys) option" where
  "opt_ptr r = map_option (\<lambda>(p, s). (if p = NULL then None else Some p, s)) r"

lemma opt_ptr_simps [simp]:
  "opt_ptr (Some (p, s)) = Some (if p = NULL then None else Some p, s)"
  "opt_ptr None = None"
  by (simp_all add: opt_ptr_def)

definition pcb_ok :: "sys \<Rightarrow> ptr \<Rightarrow> bool" where
  "pcb_ok s p \<longleftrightarrow> p \<noteq> NULL \<and> pcbs s p \<noteq> None"

definition msg_ok :: "sys \<Rightarrow> ptr \<Rightarrow> bool" where
  "msg_ok s m \<longleftrightarrow> m \<noteq> NULL \<and> msgs s m \<noteq> None"

section \<open>Process queues\<close>

definition proc_rep :: "sys \<Rightarrow> lh \<Rightarrow> ptr list \<Rightarrow> bool" where
  "proc_rep s q ps \<longleftrightarrow> q \<in> set proc_heads \<and> dlist (lh_mem s) q (map P_LIST ps) \<and>
     (\<forall>p \<in> set ps. pcb_ok s p)"

lemma pcb_ok_lists [simp]: "pcb_ok (s\<lparr>lh_mem := h\<rparr>) p = pcb_ok s p"
  by (simp add: pcb_ok_def)

lemma msg_ok_lists [simp]: "msg_ok (s\<lparr>lh_mem := h\<rparr>) p = msg_ok s p"
  by (simp add: msg_ok_def)

lemma insertProcQ_rep:
  assumes "proc_rep s q ps" "pcb_ok s p" "p \<notin> set ps"
  shows "\<exists>s'. insertProcQ q p s = Some s' \<and> proc_rep s' q (ps @ [p]) \<and> (\<forall>x. pcb_ok s' x = pcb_ok s x)"
proof -
  have q: "q \<in> set proc_heads" and d: "dlist (lh_mem s) q (map P_LIST ps)"
    using assms(1) by (simp_all add: proc_rep_def)
  have "P_LIST p \<noteq> q" using q by (auto simp: proc_heads_def blocked_heads_def)
  then have "dlist (list_add_tail (P_LIST p) q (lh_mem s)) q (map P_LIST (ps @ [p]))"
    using list_add_tail_dlist [OF d, of "P_LIST p"] assms(3) by (simp add: image_iff)
  then show ?thesis
    using assms q by (auto simp: insertProcQ_def on_lists_def proc_rep_def pcb_ok_def proc_head_valid)
qed

lemma removeProcQ_rep_nil: "proc_rep s q [] \<Longrightarrow> opt_ptr (removeProcQ q s) = Some (None, s)"
  using dlist_empty_iff [of "lh_mem s" q "[]"]
  by (simp add: proc_rep_def removeProcQ_def emptyProcQ_def)

lemma removeProcQ_rep_cons:
  assumes "proc_rep s q (p # ps)"
  shows "\<exists>s'. opt_ptr (removeProcQ q s) = Some (Some p, s') \<and> proc_rep s' q ps
    \<and> (\<forall>x. pcb_ok s' x = pcb_ok s x)"
proof -
  have d: "dlist (lh_mem s) q (map P_LIST (p # ps))" using assms by (simp add: proc_rep_def)
  have "dlist (list_del (P_LIST p) (lh_mem s)) q (map P_LIST ps)"
    using list_del_dlist [OF d, of "P_LIST p"] by simp
  then show ?thesis
    using assms dlist_empty_iff [OF d] dlist_next [OF d]
    by (auto simp: proc_rep_def removeProcQ_def emptyProcQ_def list_next_def on_lists_def pcb_ok_def)
qed

lemma outProcQ_walk:
  assumes "dlist (lh_mem s) q (map P_LIST ps)"
  shows "list_for_each_until (\<lambda>iter. Some (iter = P_LIST p)) (nxt (lh_mem s) q) q (lh_mem s)
    = Some (if p \<in> set ps then Some (P_LIST p) else None)"
  using list_for_each_until_dlist [OF assms, of "\<lambda>iter. Some (iter = P_LIST p)" "\<lambda>y. y = P_LIST p"]
  by (auto simp: find_eq image_iff)

lemma outProcQ_rep_in:
  assumes "proc_rep s q ps" "pcb_ok s p" "p \<in> set ps"
  shows "\<exists>s'. opt_ptr (outProcQ q p s) = Some (Some p, s') \<and> proc_rep s' q (remove1 p ps)
    \<and> (\<forall>x. pcb_ok s' x = pcb_ok s x)"
proof -
  have d: "dlist (lh_mem s) q (map P_LIST ps)" using assms by (simp add: proc_rep_def)
  have "dlist (list_del (P_LIST p) (lh_mem s)) q (map P_LIST (remove1 p ps))"
    using list_del_dlist [OF d, of "P_LIST p"] assms(3)
    by (simp add: map_injection_remove1 [OF inj_P_LIST])
  then show ?thesis
    using assms outProcQ_walk [OF d, of p]
    by (auto simp: proc_rep_def outProcQ_def on_lists_def pcb_ok_def
        dest: set_remove1_subset [THEN subsetD])
qed

lemma outProcQ_rep_notin:
  "proc_rep s q ps \<Longrightarrow> p \<notin> set ps \<Longrightarrow> opt_ptr (outProcQ q p s) = Some (None, s)"
  using outProcQ_walk [of s q ps p] by (auto simp: proc_rep_def outProcQ_def)

interpretation procq: fifo_remove proc_rep pcb_ok insertProcQ "\<lambda>q s. opt_ptr (removeProcQ q s)"
    "\<lambda>q p s. opt_ptr (outProcQ q p s)"
  by unfold_locales
    (rule insertProcQ_rep removeProcQ_rep_nil removeProcQ_rep_cons outProcQ_rep_in outProcQ_rep_notin;
     assumption)+

section \<open>Message inboxes\<close>

definition msg_rep :: "sys \<Rightarrow> lh \<Rightarrow> ptr list \<Rightarrow> bool" where
  "msg_rep s q ms \<longleftrightarrow> is_msg_head q \<and> lh_valid s q \<and> dlist (lh_mem s) q (map M_LIST ms) \<and>
     (\<forall>m \<in> set ms. msg_ok s m)"

lemma lh_valid_lists [simp]: "lh_valid (s\<lparr>lh_mem := h\<rparr>) x = lh_valid s x"
  by (cases x) simp_all

lemma insertMessage_rep:
  assumes "msg_rep s q ms" "msg_ok s m" "m \<notin> set ms"
  shows "\<exists>s'. insertMessage q m s = Some s' \<and> msg_rep s' q (ms @ [m]) \<and> (\<forall>x. msg_ok s' x = msg_ok s x)"
proof -
  have q: "is_msg_head q" and d: "dlist (lh_mem s) q (map M_LIST ms)"
    using assms(1) by (simp_all add: msg_rep_def)
  have "M_LIST m \<noteq> q" using q by auto
  then have "dlist (list_add_tail (M_LIST m) q (lh_mem s)) q (map M_LIST (ms @ [m]))"
    using list_add_tail_dlist [OF d, of "M_LIST m"] assms(3) by (simp add: image_iff)
  then show ?thesis
    using assms q by (auto simp: insertMessage_def on_lists_def msg_rep_def msg_ok_def)
qed

lemma popMessage_rep_nil: "msg_rep s q [] \<Longrightarrow> opt_ptr (popMessage q NULL s) = Some (None, s)"
  using dlist_empty_iff [of "lh_mem s" q "[]"]
  by (simp add: msg_rep_def popMessage_def emptyMessageQ_def)

lemma popMessage_rep_cons:
  assumes "msg_rep s q (m # ms)"
  shows "\<exists>s'. opt_ptr (popMessage q NULL s) = Some (Some m, s') \<and> msg_rep s' q ms
    \<and> (\<forall>x. msg_ok s' x = msg_ok s x)"
proof -
  have d: "dlist (lh_mem s) q (map M_LIST (m # ms))" using assms by (simp add: msg_rep_def)
  have "dlist (list_del (M_LIST m) (lh_mem s)) q (map M_LIST ms)"
    using list_del_dlist [OF d, of "M_LIST m"] by simp
  then show ?thesis
    using assms dlist_empty_iff [OF d] dlist_next [OF d]
    by (auto simp: msg_rep_def popMessage_def emptyMessageQ_def on_lists_def msg_ok_def)
qed

interpretation msgq: fifo msg_rep msg_ok insertMessage "\<lambda>q s. opt_ptr (popMessage q NULL s)"
  by unfold_locales (rule insertMessage_rep popMessage_rep_nil popMessage_rep_cons; assumption)+

section \<open>Child lists\<close>

definition child_rep :: "sys \<Rightarrow> ptr \<Rightarrow> ptr list \<Rightarrow> bool" where
  "child_rep s p cs \<longleftrightarrow> pcb_ok s p \<and> dlist (lh_mem s) (P_CHILD p) (map P_SIB cs) \<and>
     (\<forall>c \<in> set cs. pcb_ok s c)"

lemma insertChild_rep:
  assumes "child_rep s p cs" "pcb_ok s c" "c \<notin> set cs"
  shows "\<exists>s'. insertChild p c s = Some s' \<and> child_rep s' p (cs @ [c]) \<and> (\<forall>x. pcb_ok s' x = pcb_ok s x)"
proof -
  have d: "dlist (lh_mem s) (P_CHILD p) (map P_SIB cs)" using assms(1) by (simp add: child_rep_def)
  have "dlist (list_add_tail (P_SIB c) (P_CHILD p) (lh_mem s)) (P_CHILD p) (map P_SIB (cs @ [c]))"
    using list_add_tail_dlist [OF d, of "P_SIB c"] assms(3) by (simp add: image_iff)
  then show ?thesis
    using assms by (auto simp: insertChild_def upd_pcb_def on_lists_def child_rep_def pcb_ok_def)
qed

lemma removeChild_rep_nil: "child_rep s p [] \<Longrightarrow> opt_ptr (removeChild p s) = Some (None, s)"
  using dlist_empty_iff [of "lh_mem s" "P_CHILD p" "[]"]
  by (auto simp: child_rep_def removeChild_def emptyChild_def pcb_ok_def)

lemma removeChild_rep_cons:
  assumes "child_rep s p (c # cs)"
  shows "\<exists>s'. opt_ptr (removeChild p s) = Some (Some c, s') \<and> child_rep s' p cs
    \<and> (\<forall>x. pcb_ok s' x = pcb_ok s x)"
proof -
  have d: "dlist (lh_mem s) (P_CHILD p) (map P_SIB (c # cs))" using assms by (simp add: child_rep_def)
  have "dlist (list_del (P_SIB c) (lh_mem s)) (P_CHILD p) (map P_SIB cs)"
    using list_del_dlist [OF d, of "P_SIB c"] by simp
  then show ?thesis
    using assms dlist_empty_iff [OF d] dlist_next [OF d]
    by (auto simp: child_rep_def removeChild_def emptyChild_def on_lists_def pcb_ok_def)
qed

interpretation childq: fifo child_rep pcb_ok insertChild "\<lambda>p s. opt_ptr (removeChild p s)"
  by unfold_locales (rule insertChild_rep removeChild_rep_nil removeChild_rep_cons; assumption)+

end
