(* ===== verification/Scheduler.thy ===== *)
theory Scheduler
  imports Queue_Instances
begin

text \<open>
  \<^verbatim>\<open>src/phase2/scheduler.c\<close>, with the clock functions of \<^verbatim>\<open>ssi.c\<close> and the state
  copy of \<^verbatim>\<open>initial.c\<close> it and the handlers share, and the invariant of the nucleus
  (\<open>kernel_inv\<close>) that every handler is measured against.

  A function that may give the processor away returns a \<^typ>\<open>control\<close> beside the state: the
  processor state or context it loads, the BIOS service that stops the machine or waits, or
  \<open>RETURN\<close> when it comes back to its caller.
\<close>

section \<open>Copying a processor state\<close>

text \<open>\<^verbatim>\<open>stateCpy(src, dest)\<close>: the new contents of \<open>dest\<close>.  The loop over
  \<^verbatim>\<open>gpr\<close> copies every register.\<close>

definition stateCpy :: "state_t \<Rightarrow> state_t \<Rightarrow> state_t" where
  "stateCpy src dest = dest\<lparr>status := status src, pc_epc := pc_epc src, cause := cause src,
     entry_hi := entry_hi src, hi := hi src, lo := lo src, gpr := gpr src\<rparr>"

lemma stateCpy_eq [simp]: "stateCpy src dest = src"
  by (cases src; cases dest) (simp add: stateCpy_def)

section \<open>Clocks\<close>

text \<open>\<^verbatim>\<open>STCK\<close>: each read of the time-of-day clock consumes one value of the stream
  \<open>clock\<close>.\<close>

definition getTOD :: "sys \<Rightarrow> u32 \<times> sys" where
  "getTOD s = (clock s (clock_reads s), s\<lparr>clock_reads := Suc (clock_reads s)\<rparr>)"

definition updatePCBTime :: "ptr \<Rightarrow> sys \<Rightarrow> sys option" where
  "updatePCBTime sender s = (
     let (endTOD, s1) = getTOD s in
     do {
       s2 \<leftarrow> upd_pcb sender (\<lambda>x. x\<lparr>p_time := p_time x + (endTOD - startTOD s1)\<rparr>) s1;
       Some (s2\<lparr>startTOD := endTOD\<rparr>)
     })"

definition setPLT :: "u32 \<Rightarrow> sys \<Rightarrow> sys" where
  "setPLT time s = s\<lparr>cp0_timer := time * TIMESCALEADDR\<rparr>"

text \<open>\<^verbatim>\<open>LDIT(t)\<close> of the uMPS3 headers: loads the interval timer with \<open>t\<close> microseconds.
  The field holds the microseconds.\<close>

definition LDIT :: "u32 \<Rightarrow> sys \<Rightarrow> sys" where
  "LDIT t s = s\<lparr>interval_timer := t\<rparr>"

section \<open>The scheduler\<close>

definition scheduler :: "sys \<Rightarrow> (control \<times> sys) option" where
  "scheduler s = do {
     (p, s1) \<leftarrow> removeProcQ readyQueue s;
     let s2 = s1\<lparr>current_process := p\<rparr>;
     if p = NULL then
       if processCount s2 = 1 then Some (HALT, s2)
       else if processCount s2 > 1 \<and> softBlockCount s2 = 0 then Some (PANIC, s2)
       else if processCount s2 > 1 \<and> softBlockCount s2 > 0 then
         Some (WAIT, s2\<lparr>current_process := NULL, cp0_status := ALLOFF OR IMON OR IECON\<rparr>)
       else Some (RETURN, s2)
     else do {
       let s3 = setPLT TIMESLICE s2;
       let (tod, s4) = getTOD s3;
       let s5 = s4\<lparr>startTOD := tod\<rparr>;
       x \<leftarrow> pcbs s5 (current_process s5);
       Some (LDST (p_s x), s5)
     }
   }"

section \<open>The invariant of the nucleus\<close>

definition queue_of :: "queues \<Rightarrow> lh \<Rightarrow> lh list" where
  "queue_of A q = (case A q of None \<Rightarrow> [] | Some xs \<Rightarrow> xs)"

text \<open>How many PCBs wait for a device or for the pseudo clock, and how many are allocated.\<close>

definition blocked_total :: "queues \<Rightarrow> nat" where
  "blocked_total A = (\<Sum>q \<leftarrow> blocked_heads. length (queue_of A q))"

definition live_total :: "queues \<Rightarrow> nat" where
  "live_total A = MAXPROC - length (queue_of A pcbFree_h)"

definition free :: "queues \<Rightarrow> ptr \<Rightarrow> bool" where
  "free A p \<longleftrightarrow> P_LIST p \<in> set (queue_of A pcbFree_h)"

text \<open>The process tree: a PCB is in the child list of its parent field, and nowhere else; a free PCB
  is nobody's child and has none.\<close>

definition tree_ok :: "sys \<Rightarrow> queues \<Rightarrow> bool" where
  "tree_ok s A \<longleftrightarrow>
     (\<forall>p c. P_SIB c \<in> set (queue_of A (P_CHILD p)) \<longrightarrow> map_option p_parent (pcbs s c) = Some p) \<and>
     (\<forall>c x. pcbs s c = Some x \<longrightarrow> \<not> free A c \<longrightarrow> p_parent x \<noteq> NULL \<longrightarrow>
        P_SIB c \<in> set (queue_of A (P_CHILD (p_parent x)))) \<and>
     (\<forall>p. free A p \<longrightarrow> P_SIB p \<notin> nodes A \<and> queue_of A (P_CHILD p) = []) \<and>
     (\<forall>p. A (P_SIB p) = None)"

text \<open>
  The invariant, for the family \<open>A\<close> of queues the list memory represents:
  the tables are the two static arrays; both counters agree with the queues; every allocated PCB
  has an inbox and a child list; the process tree is consistent; the running process is an
  allocated PCB that is in no process queue.
\<close>

definition kernel_inv :: "sys \<Rightarrow> queues \<Rightarrow> bool" where
  "kernel_inv s A \<longleftrightarrow>
     represents s A \<and> pcb_table_ok s \<and> msg_table_ok s \<and>
     softBlockCount s = of_nat (blocked_total A) \<and>
     processCount s = of_nat (live_total A) \<and>
     (\<forall>p. pcbs s p \<noteq> None \<longrightarrow> \<not> free A p \<longrightarrow> A (P_CHILD p) \<noteq> None \<and> A (MSG_INBOX p) \<noteq> None) \<and>
     tree_ok s A \<and>
     (current_process s \<noteq> NULL \<longrightarrow>
        pcbs s (current_process s) \<noteq> None \<and> P_LIST (current_process s) \<notin> nodes A)"

lemma queue_of_Some [simp]: "A q = Some xs \<Longrightarrow> queue_of A q = xs"
  by (simp add: queue_of_def)

lemma queue_of_upd: "queue_of (A(q \<mapsto> ys)) q' = (if q' = q then ys else queue_of A q')"
  by (simp add: queue_of_def)

lemma blocked_total_upd_other:
  "q \<notin> set blocked_heads \<Longrightarrow> blocked_total (A(q \<mapsto> ys)) = blocked_total A"
  by (auto simp: blocked_total_def blocked_heads_def queue_of_upd)

lemma live_total_upd_other:
  "q \<noteq> pcbFree_h \<Longrightarrow> live_total (A(q \<mapsto> ys)) = live_total A"
  by (simp add: live_total_def queue_of_upd)

lemma free_upd_other [simp]: "q \<noteq> pcbFree_h \<Longrightarrow> free (A(q \<mapsto> ys)) p = free A p"
  by (simp add: free_def queue_of_upd)

lemma blocked_total_insert:
  assumes "q \<in> set blocked_heads" "A q = Some xs"
  shows "blocked_total (A(q \<mapsto> xs @ [x])) = Suc (blocked_total A)"
    and "blocked_total (A(q \<mapsto> x # xs)) = Suc (blocked_total A)"
  using assms by (auto simp: blocked_total_def blocked_heads_def queue_of_upd)

lemma blocked_total_remove:
  assumes "q \<in> set blocked_heads" "A q = Some xs" "x \<in> set xs"
  shows "Suc (blocked_total (A(q \<mapsto> remove1 x xs))) = blocked_total A"
proof -
  have "Suc (length (remove1 x xs)) = length xs"
    using length_pos_if_in_set [OF assms(3)] by (simp add: length_remove1 assms(3))
  then show ?thesis
    using assms(1,2) by (auto simp: blocked_total_def blocked_heads_def queue_of_upd)
qed

lemma kernel_invD:
  assumes "kernel_inv s A"
  shows "represents s A" "pcb_table_ok s" "msg_table_ok s"
    "softBlockCount s = of_nat (blocked_total A)" "processCount s = of_nat (live_total A)"
  using assms by (simp_all add: kernel_inv_def)

lemma kernel_inv_current:
  assumes "kernel_inv s A" "current_process s \<noteq> NULL"
  shows "pcbs s (current_process s) \<noteq> None" "P_LIST (current_process s) \<notin> nodes A"
  using assms by (simp_all add: kernel_inv_def)

lemma kernel_inv_procs:
  assumes "kernel_inv s A" "q \<in> set proc_heads" "procs A q ps"
  shows "distinct ps" "\<And>p. p \<in> set ps \<Longrightarrow> p \<noteq> NULL \<and> (\<exists>x. pcbs s p = Some x)"
proof -
  have "set ps \<subseteq> dom (pcbs s)" and d: "distinct ps"
    using proc_queue_members [OF kernel_invD(1) [OF assms(1)] assms(2,3)] by simp_all
  moreover have "NULL \<notin> dom (pcbs s)"
    using kernel_invD(2) [OF assms(1)] by (simp add: pcb_table_ok_def)
  ultimately show "\<And>p. p \<in> set ps \<Longrightarrow> p \<noteq> NULL \<and> (\<exists>x. pcbs s p = Some x)" by fast
  show "distinct ps" by (rule d)
qed

lemma kernel_inv_queue:
  assumes "kernel_inv s A" "q \<in> set proc_heads"
  obtains ps where "procs A q ps" "distinct ps" "\<forall>p \<in> set ps. pcb_ok s p"
proof -
  from represents_proc_queue [OF kernel_invD(1) [OF assms(1)] assms(2)]
  obtain ps where ps: "procs A q ps" .
  from kernel_inv_procs [OF assms ps] that [OF ps] show ?thesis by (auto simp: pcb_ok_def)
qed

text \<open>Fields the invariant does not look at.\<close>

lemma kernel_inv_cong:
  assumes "lh_mem s' = lh_mem s" "\<And>p. map_option p_parent (pcbs s' p) = map_option p_parent (pcbs s p)"
    "dom (msgs s') = dom (msgs s)" "pcbTable s' = pcbTable s" "msgTable s' = msgTable s"
    "softBlockCount s' = softBlockCount s" "processCount s' = processCount s"
    "current_process s' = current_process s \<or> current_process s' = NULL"
  shows "kernel_inv s A \<Longrightarrow> kernel_inv s' A"
proof -
  have n: "(pcbs s' p = None) = (pcbs s p = None)" for p
    using assms(2) [of p] by (metis option.map_disc_iff)
  then have d: "dom (pcbs s') = dom (pcbs s)" by (auto simp: dom_def)
  have t: "tree_ok s' A = tree_ok s A"
  proof -
    have "(\<forall>x. pcbs s' c = Some x \<longrightarrow> P (p_parent x)) = (\<forall>x. pcbs s c = Some x \<longrightarrow> P (p_parent x))" for P c
      using assms(2) [of c] by (cases "pcbs s' c"; cases "pcbs s c") auto
    from this [of _ "\<lambda>y. \<not> free A _ \<longrightarrow> y \<noteq> NULL \<longrightarrow> P_SIB _ \<in> set (queue_of A (P_CHILD y))"]
    show ?thesis unfolding tree_ok_def assms(2) by simp
  qed
  assume "kernel_inv s A"
  then show "kernel_inv s' A"
    using assms(1,3-8) represents_cong [OF assms(1) d assms(3)] d n t
    by (auto simp: kernel_inv_def pcb_table_ok_def msg_table_ok_def)
qed

text \<open>A step that changes one queue, by taking an element out of it or by adding one that was in no
  queue, as the invariant sees it.\<close>

lemma kernel_inv_queue_step:
  assumes inv: "kernel_inv s A" and rep: "represents (s\<lparr>lh_mem := h\<rparr>) (A(q \<mapsto> ys))"
    and q: "q \<in> set proc_heads" "q \<noteq> pcbFree_h"
    and cur: "c = NULL \<or> pcbs s c \<noteq> None \<and> P_LIST c \<notin> nodes (A(q \<mapsto> ys))"
    and sib: "\<And>p. P_SIB p \<notin> set ys"
    and soft: "n = of_nat (blocked_total (A(q \<mapsto> ys)))"
  shows "kernel_inv (s\<lparr>lh_mem := h, current_process := c, softBlockCount := n\<rparr>) (A(q \<mapsto> ys))"
proof -
  let ?s = "s\<lparr>lh_mem := h, current_process := c, softBlockCount := n\<rparr>"
  have "represents ?s (A(q \<mapsto> ys))"
    using rep represents_cong [of ?s "s\<lparr>lh_mem := h\<rparr>"] by simp
  moreover have "P_SIB p \<notin> nodes (A(q \<mapsto> ys))" if "P_SIB p \<notin> nodes A" for p
    using that sib q(1) by (intro not_nodes_upd) (auto simp: proc_heads_def blocked_heads_def)
  moreover have ch: "P_CHILD p \<noteq> q" "MSG_INBOX p \<noteq> q" "P_SIB p \<noteq> q" for p
    using q(1) by (auto simp: proc_heads_def blocked_heads_def)
  moreover have "tree_ok ?s (A(q \<mapsto> ys))"
    using inv q(2) ch calculation(2) by (simp add: kernel_inv_def tree_ok_def queue_of_upd)
  ultimately show ?thesis
    using inv q(2) cur soft unfolding kernel_inv_def
    by (auto simp: pcb_table_ok_def msg_table_ok_def live_total_upd_other)
qed

section \<open>What the scheduler does\<close>

definition dispatched :: "ptr \<Rightarrow> list_head \<Rightarrow> sys \<Rightarrow> sys" where
  "dispatched p h s = s\<lparr>lh_mem := h, current_process := p, cp0_timer := TIMESLICE * TIMESCALEADDR,
     clock_reads := Suc (clock_reads s), startTOD := clock s (clock_reads s)\<rparr>"

lemma not_NULL_pcb: "pcb_ok s p \<Longrightarrow> p \<noteq> NULL \<and> (\<exists>x. pcbs s p = Some x)"
  by (auto simp: pcb_ok_def)

lemma scheduler_cons:
  assumes inv: "kernel_inv s A" and q: "procs A readyQueue (p # ps)"
  shows "\<exists>h x. pcbs s p = Some x \<and> scheduler s = Some (LDST (p_s x), dispatched p h s)
    \<and> kernel_inv (dispatched p h s) (A(readyQueue \<mapsto> map P_LIST ps))"
proof -
  have rq: "readyQueue \<in> set proc_heads" by (simp add: proc_heads_def)
  let ?A = "A(readyQueue \<mapsto> map P_LIST ps)"
  from kernel_inv_procs [OF inv rq q] obtain x where
    p: "p \<noteq> NULL" "p \<notin> set ps" and x: "pcbs s p = Some x" by auto
  from removeProcQ_cons [OF kernel_invD(1) [OF inv] rq q] obtain h where
    h: "removeProcQ readyQueue s = Some (p, s\<lparr>lh_mem := h\<rparr>)" "represents (s\<lparr>lh_mem := h\<rparr>) ?A"
    by blast
  have "P_LIST p \<notin> nodes ?A"
    using nodes_remove1 [OF represents_queues_ok [OF kernel_invD(1) [OF inv]] q, of "P_LIST p"] by simp
  then have "kernel_inv (s\<lparr>lh_mem := h, current_process := p, softBlockCount := softBlockCount s\<rparr>) ?A"
    using kernel_invD(4) [OF inv] x
    by (intro kernel_inv_queue_step [OF inv h(2) rq]) (auto simp: blocked_total_upd_other blocked_heads_def)
  then have "kernel_inv (dispatched p h s) ?A"
    by (rule kernel_inv_cong [rotated -1]) (simp_all add: dispatched_def)
  moreover have "scheduler s = Some (LDST (p_s x), dispatched p h s)"
    using h(1) p x by (simp add: scheduler_def setPLT_def getTOD_def dispatched_def Let_def)
  ultimately show ?thesis using x by blast
qed

text \<open>With nobody ready the outcome is decided by the two counters.\<close>

definition idle_outcome :: "nat \<Rightarrow> nat \<Rightarrow> control" where
  "idle_outcome live blocked =
     (if live = 1 then HALT else if live = 0 then RETURN else if blocked = 0 then PANIC else WAIT)"

lemma live_total_le: "live_total A \<le> MAXPROC"
  by (simp add: live_total_def)

lemma word_of_small_nat:
  assumes "n < 2 ^ 32"
  shows "((of_nat n :: u32) = 0) = (n = 0)" "((of_nat n :: u32) = 1) = (n = 1)"
    "((of_nat n :: u32) > 1) = (n > 1)" "((of_nat n :: u32) > 0) = (n > 0)"
proof -
  have u: "unat (of_nat n :: u32) = n" using assms by (simp add: unat_of_nat take_bit_nat_eq_self)
  show "((of_nat n :: u32) = 0) = (n = 0)" "((of_nat n :: u32) = 1) = (n = 1)"
    "((of_nat n :: u32) > 1) = (n > 1)" "((of_nat n :: u32) > 0) = (n > 0)"
    using u by (auto simp: word_less_nat_alt unat_eq_0 dest: arg_cong [where f = unat])
qed

lemma length_queue_le:
  assumes "kernel_inv s A" "q \<in> set proc_heads"
  shows "length (queue_of A q) \<le> MAXPROC"
proof -
  from represents_proc_queue [OF kernel_invD(1) [OF assms(1)] assms(2)] obtain ps where
    ps: "procs A q ps" .
  then show ?thesis
    using proc_queue_length [OF kernel_invD(1) [OF assms(1)] assms(2) ps kernel_invD(2) [OF assms(1)]]
    by simp
qed

lemma blocked_total_bound: "kernel_inv s A \<Longrightarrow> blocked_total A \<le> 7 * MAXPROC"
  using length_queue_le [of s A blockedDiskQueue] length_queue_le [of s A blockedFlashQueue]
    length_queue_le [of s A blockedEthernetQueue] length_queue_le [of s A blockedPrinterQueue]
    length_queue_le [of s A blockedTerminalTransmQueue] length_queue_le [of s A pseudoClockQueue]
    length_queue_le [of s A blockedTerminalRecvQueue]
  by (simp add: blocked_total_def blocked_heads_def proc_heads_def)

definition idled :: "control \<Rightarrow> sys \<Rightarrow> sys" where
  "idled c s = s\<lparr>current_process := NULL,
     cp0_status := (if c = WAIT then ALLOFF OR IMON OR IECON else cp0_status s)\<rparr>"

lemma kernel_inv_idled: "kernel_inv s A \<Longrightarrow> kernel_inv (idled c s) A"
  by (rule kernel_inv_cong [of "idled c s" s]) (simp_all add: idled_def)

lemma scheduler_nil:
  assumes inv: "kernel_inv s A" and q: "procs A readyQueue []"
    and c: "c = idle_outcome (live_total A) (blocked_total A)"
  shows "scheduler s = Some (c, idled c s)"
proof -
  have l: "live_total A < 2 ^ 32" "blocked_total A < 2 ^ 32"
    using live_total_le [of A] blocked_total_bound [OF inv] by simp_all
  have "removeProcQ readyQueue s = Some (NULL, s)"
    by (rule removeProcQ_nil [OF kernel_invD(1) [OF inv] q])
  then show ?thesis
    unfolding scheduler_def idled_def c idle_outcome_def
    by (simp add: kernel_invD(4,5) [OF inv] word_of_small_nat [OF l(1)] word_of_small_nat [OF l(2)]
        Let_def)
qed

end
