(* ===== verification/Ssi.thy ===== *)
theory Ssi
  imports Scheduler
begin

text \<open>
  \<^verbatim>\<open>src/phase2/ssi.c\<close>: the services of the System Service Interface process and its
  dispatcher.  A service is called with the requesting PCB and returns the word the reply carries.
  The loops are written out: \<open>doio\<close> walks lines 3 to 7 and devices 0 to 7 with the inner loop's
  \<^verbatim>\<open>break\<close>; \<open>terminateProcess\<close> is a partial function, since nothing bounds its recursion
  when the process tree is corrupt.
\<close>

section \<open>CREATEPROCESS\<close>

definition createProcess :: "ptr \<Rightarrow> ptr \<Rightarrow> sys \<Rightarrow> (u32 \<times> sys) option" where
  "createProcess prnt req s =
     (if emptyProcQ pcbFree_h s then Some (NOPROC, s)
      else do {
        (child, s1) \<leftarrow> allocPcb s;
        if child = NULL then Some (NOPROC, s1)
        else do {
          c \<leftarrow> ssi_create_processes s1 req;
          s2 \<leftarrow> upd_pcb child (\<lambda>x. x\<lparr>p_supportStruct := scp_support c\<rparr>) s1;
          st \<leftarrow> states s2 (scp_state c);
          s3 \<leftarrow> upd_pcb child (\<lambda>x. x\<lparr>p_s := stateCpy st (p_s x)\<rparr>) s2;
          s4 \<leftarrow> insertProcQ readyQueue child s3;
          s5 \<leftarrow> insertChild prnt child s4;
          Some (child, s5\<lparr>processCount := processCount s5 + 1\<rparr>)
        }
      })"

section \<open>TERMPROCESS\<close>

text \<open>The chain of \<^verbatim>\<open>outProcQ(...) != NULL || ...\<close>: stops at the first queue that held
  the PCB.\<close>

primrec out_any :: "lh list \<Rightarrow> ptr \<Rightarrow> sys \<Rightarrow> (bool \<times> sys) option" where
  "out_any [] p s = Some (False, s)"
| "out_any (q # qs) p s = do {
     (r, s1) \<leftarrow> outProcQ q p s;
     if r \<noteq> NULL then Some (True, s1) else out_any qs p s1
   }"

text \<open>The queues \<^verbatim>\<open>isPcbBlockedOnDevice\<close> looks at, by the value it switches on.\<close>

definition blocked_queues :: "u32 \<Rightarrow> lh list" where
  "blocked_queues dev =
     (if dev = IL_TERMINAL then [blockedTerminalRecvQueue, blockedTerminalTransmQueue, pseudoClockQueue]
      else if dev = IL_DISK then [blockedDiskQueue, pseudoClockQueue]
      else if dev = IL_FLASH then [blockedFlashQueue, pseudoClockQueue]
      else if dev = IL_ETHERNET then [blockedEthernetQueue, pseudoClockQueue]
      else if dev = IL_PRINTER then [blockedPrinterQueue, pseudoClockQueue]
      else [pseudoClockQueue])"

definition isPcbBlockedOnDevice :: "ptr \<Rightarrow> sys \<Rightarrow> (bool \<times> sys) option" where
  "isPcbBlockedOnDevice sender s = do {
     x \<leftarrow> pcbs s sender;
     if blockedOnDevice x \<noteq> - 1 then out_any (blocked_queues (blockedOnDevice x)) sender s
     else Some (False, s)
   }"

text \<open>One call is the test of the \<^verbatim>\<open>while\<close> with either one more round (the child is
  terminated first) or the rest of the function.  Removing a child leaves \<open>p\<close> the same.\<close>

partial_function (option) terminateProcess :: "ptr \<Rightarrow> sys \<Rightarrow> sys option" where
  "terminateProcess sender s =
     (if sender = NULL then Some s
      else do {
        e \<leftarrow> emptyChild sender s;
        if \<not> e then do {
          (c, s1) \<leftarrow> removeChild sender s;
          s2 \<leftarrow> terminateProcess c s1;
          terminateProcess sender s2
        }
        else do {
          (b, s1) \<leftarrow> isPcbBlockedOnDevice sender s;
          let s2 = (if b then s1\<lparr>softBlockCount := softBlockCount s1 - 1\<rparr> else s1);
          (_, s3) \<leftarrow> outChild sender s2;
          s4 \<leftarrow> freePcb sender s3;
          Some (s4\<lparr>processCount := processCount s4 - 1\<rparr>)
        }
      })"

section \<open>DOIO\<close>

definition insertDeviceQ :: "u32 \<Rightarrow> ptr \<Rightarrow> sys \<Rightarrow> sys option" where
  "insertDeviceQ interruptLine sender s =
     (if interruptLine = IL_DISK then insertProcQ blockedDiskQueue sender s
      else if interruptLine = IL_FLASH then insertProcQ blockedFlashQueue sender s
      else if interruptLine = IL_ETHERNET then insertProcQ blockedEthernetQueue sender s
      else if interruptLine = IL_PRINTER then insertProcQ blockedPrinterQueue sender s
      else Some s)"

text \<open>\<^verbatim>\<open>sender->blockedOnDevice = devNo; outProcQ(&readyQueue, sender)\<close> and the insertion
  that follows.\<close>

definition block_on :: "u32 \<Rightarrow> ptr \<Rightarrow> (sys \<Rightarrow> sys option) \<Rightarrow> sys \<Rightarrow> sys option" where
  "block_on devNo sender ins s = do {
     s1 \<leftarrow> upd_pcb sender (\<lambda>x. x\<lparr>blockedOnDevice := devNo\<rparr>) s;
     (_, s2) \<leftarrow> outProcQ readyQueue sender s1;
     ins s2
   }"

text \<open>The body of the inner loop; the flag says whether it left the loop by \<^verbatim>\<open>break\<close>.\<close>

definition doio_body :: "u32 \<Rightarrow> u32 \<Rightarrow> u32 \<Rightarrow> ptr \<Rightarrow> sys \<Rightarrow> (bool \<times> sys) option" where
  "doio_body interruptLine devNo deviceCommand sender s =
     (if interruptLine = IL_TERMINAL then
        let devAddrBase = DEV_REG_ADDR IL_TERMINAL devNo in
        if devAddrBase + transm_command = deviceCommand
        then do { s' \<leftarrow> block_on devNo sender (insertProcQ blockedTerminalTransmQueue sender) s; Some (True, s') }
        else if devAddrBase + recv_command = deviceCommand
        then do { s' \<leftarrow> block_on devNo sender (insertProcQ blockedTerminalRecvQueue sender) s; Some (True, s') }
        else Some (False, s)
      else
        let devAddrBase = DEV_REG_ADDR interruptLine devNo in
        if devAddrBase + dtp_command = deviceCommand
        then do { s' \<leftarrow> block_on devNo sender (insertDeviceQ interruptLine sender) s; Some (True, s') }
        else Some (False, s))"

text \<open>The ranges of the two loops: \<^verbatim>\<open>DEV_IL_START\<close> up to
  \<^verbatim>\<open>N_INTERRUPT_LINES\<close>, and the devices of a line.\<close>

definition io_lines :: "u32 list" where "io_lines = [3, 4, 5, 6, 7]"

definition io_devs :: "u32 list" where "io_devs = [0, 1, 2, 3, 4, 5, 6, 7]"

primrec doio_devs :: "u32 list \<Rightarrow> u32 \<Rightarrow> u32 \<Rightarrow> ptr \<Rightarrow> sys \<Rightarrow> sys option" where
  "doio_devs [] interruptLine deviceCommand sender s = Some s"
| "doio_devs (devNo # ds) interruptLine deviceCommand sender s = do {
     (brk, s1) \<leftarrow> doio_body interruptLine devNo deviceCommand sender s;
     if brk then Some s1 else doio_devs ds interruptLine deviceCommand sender s1
   }"

primrec doio_lines :: "u32 list \<Rightarrow> u32 \<Rightarrow> ptr \<Rightarrow> sys \<Rightarrow> sys option" where
  "doio_lines [] deviceCommand sender s = Some s"
| "doio_lines (l # ls) deviceCommand sender s = do {
     s1 \<leftarrow> doio_devs io_devs l deviceCommand sender s;
     doio_lines ls deviceCommand sender s1
   }"

definition doio :: "ptr \<Rightarrow> ptr \<Rightarrow> sys \<Rightarrow> sys option" where
  "doio doioPTR sender s = do {
     let s1 = s\<lparr>softBlockCount := softBlockCount s + 1\<rparr>;
     d \<leftarrow> ssi_do_ios s1 doioPTR;
     s2 \<leftarrow> doio_lines io_lines (commandAddr d) sender s1;
     Some (s2\<lparr>mem := (mem s2)(commandAddr d := commandValue d)\<rparr>)
   }"

section \<open>The other services\<close>

definition getCPUTime :: "ptr \<Rightarrow> sys \<Rightarrow> u32 option" where
  "getCPUTime sender s = map_option p_time (pcbs s sender)"

definition wait4Clock :: "ptr \<Rightarrow> sys \<Rightarrow> sys option" where
  "wait4Clock sender s = do {
     s1 \<leftarrow> insertProcQ pseudoClockQueue sender s;
     Some (s1\<lparr>softBlockCount := softBlockCount s1 + 1\<rparr>)
   }"

definition getSupportData :: "ptr \<Rightarrow> sys \<Rightarrow> u32 option" where
  "getSupportData sender s = map_option p_supportStruct (pcbs s sender)"

definition getProcessID :: "ptr \<Rightarrow> ptr \<Rightarrow> sys \<Rightarrow> u32 option" where
  "getProcessID sender a s = do {
     x \<leftarrow> pcbs s sender;
     if a = NULL then Some (p_pid x) else map_option p_pid (pcbs s (p_parent x))
   }"

section \<open>The dispatcher and the body of the SSI loop\<close>

definition SSIRequest :: "ptr \<Rightarrow> u32 \<Rightarrow> u32 \<Rightarrow> sys \<Rightarrow> (u32 \<times> sys) option" where
  "SSIRequest sender service a s =
     (if service = CREATEPROCESS then createProcess sender a s
      else if service = TERMPROCESS then do {
        s1 \<leftarrow> (if a \<noteq> NULL then terminateProcess a s else terminateProcess sender s);
        Some (OFF, s1) }
      else if service = DOIO then do { s1 \<leftarrow> doio a sender s; Some (NOPROC, s1) }
      else if service = GETTIME then do { r \<leftarrow> getCPUTime sender s; Some (r, s) }
      else if service = CLOCKWAIT then do { s1 \<leftarrow> wait4Clock sender s; Some (NOPROC, s1) }
      else if service = GETSUPPORTPTR then do { r \<leftarrow> getSupportData sender s; Some (r, s) }
      else if service = GETPROCESSID then do { r \<leftarrow> getProcessID sender a s; Some (r, s) }
      else do { s1 \<leftarrow> terminateProcess sender s; Some (MSGNOGOOD, s1) })"

text \<open>What the SSI does between its two system calls, once the message with payload
  \<open>payload\<close> has been received: the answer it sends, if any, as destination and word.  It reads the
  sender from register v0 of the BIOS data page.\<close>

definition SSI_body :: "ptr \<Rightarrow> sys \<Rightarrow> ((ptr \<times> u32) option \<times> sys) option" where
  "SSI_body payload s = do {
     let senderAddr = gpr (exception_state s) reg_v0;
     ssipyld \<leftarrow> ssi_payloads s payload;
     (result, s1) \<leftarrow> SSIRequest senderAddr (service_code ssipyld) (arg ssipyld) s;
     Some (if result \<noteq> NOPROC then Some (senderAddr, result) else None, s1)
   }"

end
