(* ===== verification/Terminate.thy ===== *)
theory Terminate
  imports Ssi
begin

text \<open>
  Termination of a process and all its progeny (\<open>terminateProcess\<close>): for every finite process tree
  whose members are linked nowhere, or blocked in a queue \<open>isPcbBlockedOnDevice\<close> looks at, the
  recursion ends and moves the members, children first, to the free list.  \<open>kill ds A\<close> is the
  family of queues after the processes \<open>ds\<close> are gone.
\<close>

section \<open>Process trees\<close>

datatype ptree = PNode (root: ptr) (subtrees: "ptree list")

fun tree_at :: "queues \<Rightarrow> ptree \<Rightarrow> bool" where
  "tree_at A (PNode p ts) \<longleftrightarrow>
     A (P_CHILD p) = Some (map (\<lambda>t. P_SIB (root t)) ts) \<and> (\<forall>t \<in> set ts. tree_at A t)"

fun members :: "ptree \<Rightarrow> ptr list" where
  "members (PNode p ts) = concat (map members ts) @ [p]"

lemma root_in_members [simp]: "root t \<in> set (members t)"
  by (cases t) simp

section \<open>The queues without a set of processes\<close>

definition kill :: "ptr list \<Rightarrow> queues \<Rightarrow> queues" where
  "kill ds A q =
     (if q = pcbFree_h then map_option (\<lambda>xs. xs @ map P_LIST ds) (A q)
      else if q \<in> set blocked_heads then map_option (filter (\<lambda>x. x \<notin> P_LIST ` set ds)) (A q)
      else if q \<in> P_CHILD ` set ds then Some []
      else A q)"

lemma kill_Nil [simp]: "kill [] A = A"
proof
  fix q show "kill [] A q = A q" by (cases "A q") (auto simp: kill_def)
qed

lemma kill_append: "kill (ds @ es) A = kill es (kill ds A)"
  by (rule ext) (auto simp: kill_def option.map_comp comp_def blocked_heads_def image_iff
      intro!: option.map_cong filter_cong)

lemma kill_child_other: "p \<notin> set ds \<Longrightarrow> kill ds A (P_CHILD p) = A (P_CHILD p)"
  by (auto simp: kill_def blocked_heads_def)

lemma kill_upd_child:
  "p \<notin> set ds \<Longrightarrow> kill ds (A(P_CHILD p \<mapsto> xs)) = (kill ds A)(P_CHILD p \<mapsto> xs)"
  by (rule ext) (auto simp: kill_def blocked_heads_def)

lemma kill_upd_child_in:
  "p \<in> set ds \<Longrightarrow> kill ds (A(P_CHILD p \<mapsto> xs)) = kill ds A"
  by (rule ext) (auto simp: kill_def blocked_heads_def)

lemma tree_at_cong:
  "(\<And>p. p \<in> set (members t) \<Longrightarrow> A (P_CHILD p) = B (P_CHILD p)) \<Longrightarrow> tree_at A t = tree_at B t"
proof (induction t)
  case (PNode p ts)
  have "tree_at A t = tree_at B t" if "t \<in> set ts" for t
    using that by (intro PNode.IH PNode.prems) auto
  with PNode.prems [of p] show ?case by simp
qed

section \<open>Which processes can be terminated\<close>

definition blocked_in :: "queues \<Rightarrow> ptr \<Rightarrow> lh \<Rightarrow> bool" where
  "blocked_in A p q \<longleftrightarrow> P_LIST p \<in> set (queue_of A q)"

definition blocked :: "queues \<Rightarrow> ptr \<Rightarrow> bool" where
  "blocked A p \<longleftrightarrow> (\<exists>q \<in> set blocked_heads. blocked_in A p q)"

definition killable :: "sys \<Rightarrow> queues \<Rightarrow> ptr \<Rightarrow> bool" where
  "killable s A p \<longleftrightarrow> p \<noteq> NULL \<and> (\<exists>x. pcbs s p = Some x \<and>
     (P_LIST p \<notin> nodes A \<or>
      blockedOnDevice x \<noteq> - 1 \<and> (\<exists>q \<in> set (blocked_queues (blockedOnDevice x)). blocked_in A p q)))"

lemma blocked_queues_sub: "set (blocked_queues dev) \<subseteq> set blocked_heads"
  by (simp add: blocked_queues_def blocked_heads_def)

lemma blocked_heads_sub: "set blocked_heads \<subseteq> set proc_heads"
  by (auto simp: proc_heads_def)

lemma queue_of_nodes: "x \<in> set (queue_of A q) \<Longrightarrow> x \<in> nodes A"
  by (cases "A q") (auto simp: queue_of_def nodes_def)

lemma not_blocked: "P_LIST p \<notin> nodes A \<Longrightarrow> \<not> blocked A p"
  using queue_of_nodes by (auto simp: blocked_def blocked_in_def)

lemma represents_blocked_unique:
  assumes "represents s A" "blocked_in A p q" "blocked_in A p q'"
  shows "q = q'"
  using assms(2,3) queues_ok_owner [OF represents_queues_ok [OF assms(1)], of q _ q' _ "P_LIST p"]
  by (cases "A q"; cases "A q'") (simp_all add: blocked_in_def queue_of_def)

section \<open>Links of the tree a step leaves alone\<close>

definition tree_nodes :: "ptr set \<Rightarrow> lh set" where
  "tree_nodes D = P_SIB ` D \<union> P_CHILD ` D"

definition tree_frame :: "lh set \<Rightarrow> list_head \<Rightarrow> list_head \<Rightarrow> bool" where
  "tree_frame Z h h' \<longleftrightarrow>
     (\<forall>z \<in> tree_nodes UNIV - Z. nxt h' z = nxt h z \<and> prv h' z = prv h z)"

lemma tree_frame_refl [simp]: "tree_frame Z h h"
  by (simp add: tree_frame_def)

lemma tree_frame_trans:
  "tree_frame Z h h' \<Longrightarrow> tree_frame Y h' h'' \<Longrightarrow> Z \<subseteq> X \<Longrightarrow> Y \<subseteq> X \<Longrightarrow> tree_frame X h h''"
  unfolding tree_frame_def by (metis DiffD1 DiffD2 DiffI subsetD)

lemma tree_frameD:
  "tree_frame Z h h' \<Longrightarrow> z \<in> tree_nodes UNIV \<Longrightarrow> z \<notin> Z \<Longrightarrow> nxt h' z = nxt h z \<and> prv h' z = prv h z"
  by (simp add: tree_frame_def)

lemma proc_list_frame:
  assumes d: "dlist h q (map P_LIST ps)" and q: "q \<in> set proc_heads"
  shows "p \<in> set ps \<Longrightarrow> tree_frame Z h (list_del (P_LIST p) h)"
    and "tree_frame Z h (list_add_tail (P_LIST p) q h)"
proof -
  have n: "z \<notin> insert q (set (map P_LIST ps))" "z \<noteq> P_LIST p" "z \<noteq> q" if "z \<in> tree_nodes UNIV" for z
    using q that by (auto simp: proc_heads_def blocked_heads_def tree_nodes_def)
  show "tree_frame Z h (list_del (P_LIST p) h)" if "p \<in> set ps"
    unfolding tree_frame_def using n that by (intro ballI list_del_frame [OF d]) simp_all
  show "tree_frame Z h (list_add_tail (P_LIST p) q h)"
    unfolding tree_frame_def using n by (intro ballI list_add_tail_frame [OF d]) simp_all
qed

section \<open>isPcbBlockedOnDevice\<close>

definition unblock :: "ptr \<Rightarrow> queues \<Rightarrow> queues" where
  "unblock p A q =
     (if q \<in> set blocked_heads then map_option (filter (\<lambda>x. x \<noteq> P_LIST p)) (A q) else A q)"

lemma outProcQ_exact:
  assumes "represents s A" "q \<in> set proc_heads" "blocked_in A p q" "p \<noteq> NULL"
  shows "outProcQ q p s = Some (p, s\<lparr>lh_mem := list_del (P_LIST p) (lh_mem s)\<rparr>)"
proof -
  from represents_proc_queue [OF assms(1,2)] obtain ps where ps: "procs A q ps" .
  with outProcQ_walk [OF represents_dlist [OF assms(1) ps], of p] assms(3,4) show ?thesis
    by (auto simp: outProcQ_def on_lists_def blocked_in_def)
qed

lemma outProcQ_miss:
  assumes "represents s A" "q \<in> set proc_heads" "\<not> blocked_in A p q"
  shows "outProcQ q p s = Some (NULL, s)"
proof -
  from represents_proc_queue [OF assms(1,2)] obtain ps where ps: "procs A q ps" .
  with outProcQ_notin [OF assms(1) ps, of p] assms(3) show ?thesis
    by (auto simp: blocked_in_def)
qed

lemma out_any_miss:
  "represents s A \<Longrightarrow> set qs \<subseteq> set proc_heads \<Longrightarrow> \<forall>q \<in> set qs. \<not> blocked_in A p q \<Longrightarrow>
   out_any qs p s = Some (False, s)"
  by (induction qs) (simp_all add: outProcQ_miss)

lemma out_any_hit:
  assumes "represents s A" "set qs \<subseteq> set proc_heads" "q \<in> set qs" "blocked_in A p q" "p \<noteq> NULL"
  shows "out_any qs p s = Some (True, s\<lparr>lh_mem := list_del (P_LIST p) (lh_mem s)\<rparr>)"
  using assms(2,3)
proof (induction qs)
  case Nil
  then show ?case by simp
next
  case (Cons r qs)
  show ?case
  proof (cases "blocked_in A p r")
    case True
    then show ?thesis using Cons.prems outProcQ_exact [OF assms(1) _ True assms(5)] assms(5) by simp
  next
    case False
    then have "q \<in> set qs" using Cons.prems assms(4) by auto
    then show ?thesis using Cons outProcQ_miss [OF assms(1) _ False] by simp
  qed
qed

lemma unblock_id: "P_LIST p \<notin> nodes A \<Longrightarrow> unblock p A = A"
  by (rule ext) (auto simp: unblock_def nodes_def map_option_case filter_id_conv split: option.splits)

lemma unblock_remove:
  assumes r: "represents s A" and q: "q \<in> set blocked_heads" "A q = Some xs" "P_LIST p \<in> set xs"
  shows "A(q \<mapsto> remove1 (P_LIST p) xs) = unblock p A"
proof
  fix z
  have d: "distinct xs" using dlist_distinct [OF represents_dlist [OF r q(2)]] .
  show "(A(q \<mapsto> remove1 (P_LIST p) xs)) z = unblock p A z"
  proof (cases "z = q")
    case True
    then show ?thesis
      using q d by (simp add: unblock_def distinct_remove1_removeAll removeAll_filter_not_eq eq_commute)
  next
    case False
    then have "filter (\<lambda>x. x \<noteq> P_LIST p) ys = ys" if "A z = Some ys" for ys
      using queues_ok_owner [OF represents_queues_ok [OF r] q(2) that q(3)]
      by (auto simp: filter_id_conv)
    then show ?thesis
      using False by (cases "A z") (simp_all add: unblock_def)
  qed
qed

lemma isPcbBlockedOnDevice_killable:
  assumes r: "represents s A" and k: "killable s A p"
  shows "\<exists>h. isPcbBlockedOnDevice p s = Some (blocked A p, s\<lparr>lh_mem := h\<rparr>)
    \<and> represents (s\<lparr>lh_mem := h\<rparr>) (unblock p A) \<and> P_LIST p \<notin> nodes (unblock p A)
    \<and> tree_frame {} (lh_mem s) h"
proof -
  from k obtain x where x: "p \<noteq> NULL" "pcbs s p = Some x" by (auto simp: killable_def)
  note sub = subset_trans [OF blocked_queues_sub blocked_heads_sub]
  show ?thesis
  proof (cases "P_LIST p \<in> nodes A")
    case False
    then have "\<forall>q \<in> set (blocked_queues (blockedOnDevice x)). \<not> blocked_in A p q"
      using queue_of_nodes by (auto simp: blocked_in_def)
    from out_any_miss [OF r sub this] have "isPcbBlockedOnDevice p s = Some (False, s)"
      using x by (simp add: isPcbBlockedOnDevice_def)
    then show ?thesis using r False by (intro exI [of _ "lh_mem s"]) (simp add: unblock_id not_blocked)
  next
    case True
    with k x obtain q where q: "q \<in> set (blocked_queues (blockedOnDevice x))" "blocked_in A p q"
      and dev: "blockedOnDevice x \<noteq> - 1" by (auto simp: killable_def)
    have qb: "q \<in> set blocked_heads" using q(1) blocked_queues_sub by blast
    then have qp: "q \<in> set proc_heads" using blocked_heads_sub by blast
    from represents_proc_queue [OF r qp] obtain ps where ps: "procs A q ps" .
    with q(2) have p: "p \<in> set ps" by (auto simp: blocked_in_def)
    let ?h = "list_del (P_LIST p) (lh_mem s)"
    have A: "A(q \<mapsto> map P_LIST (remove1 p ps)) = unblock p A"
      using unblock_remove [OF r qb ps, of p] p by (simp add: map_injection_remove1 [OF inj_P_LIST])
    have "represents (s\<lparr>lh_mem := ?h\<rparr>) (unblock p A)"
      using outProcQ_in [OF r qp ps p x(1)] outProcQ_exact [OF r qp q(2) x(1)] A
      by (auto dest: arg_cong [where f = lh_mem])
    moreover have "P_LIST p \<notin> nodes (unblock p A)"
      using nodes_remove1 [OF represents_queues_ok [OF r] ps, of "P_LIST p"] p A
      by (simp add: map_injection_remove1 [OF inj_P_LIST])
    moreover have "tree_frame {} (lh_mem s) ?h"
      by (rule proc_list_frame(1) [OF represents_dlist [OF r ps] qp p])
    moreover have "blocked A p" using q(2) qb by (auto simp: blocked_def)
    moreover have "isPcbBlockedOnDevice p s = Some (True, s\<lparr>lh_mem := ?h\<rparr>)"
      using x dev out_any_hit [OF r sub q x(1)] by (simp add: isPcbBlockedOnDevice_def)
    ultimately show ?thesis by auto
  qed
qed

section \<open>One process without children\<close>

definition orphan :: "ptr list \<Rightarrow> (ptr \<Rightarrow> pcb_t option) \<Rightarrow> ptr \<Rightarrow> pcb_t option" where
  "orphan ds P p = (if p \<in> set ds then map_option (\<lambda>x. x\<lparr>p_parent := NULL\<rparr>) (P p) else P p)"

text \<open>What has happened when the processes \<open>ds\<close> were terminated: \<open>B\<close> is the new family of queues, the
  nodes \<open>Z\<close> of the tree may have been relinked.\<close>

definition stopped :: "ptr list \<Rightarrow> queues \<Rightarrow> queues \<Rightarrow> lh set \<Rightarrow> sys \<Rightarrow> sys \<Rightarrow> bool" where
  "stopped ds A B Z s s' \<longleftrightarrow>
     s' = s\<lparr>lh_mem := lh_mem s', pcbs := orphan ds (pcbs s),
        softBlockCount := softBlockCount s - of_nat (length (filter (blocked A) ds)),
        processCount := processCount s - of_nat (length ds)\<rparr> \<and>
     represents s' B \<and> tree_frame Z (lh_mem s) (lh_mem s')"

lemma orphan_Nil [simp]: "orphan [] P = P"
  by (rule ext) (simp add: orphan_def)

lemma dom_orphan [simp]: "dom (orphan ds P) = dom P"
  by (auto simp: orphan_def dom_def)

lemma orphan_append: "orphan (ds @ es) P = orphan es (orphan ds P)"
  by (rule ext) (auto simp: orphan_def option.map_comp comp_def)

lemma stopped_trans:
  assumes "stopped ds A B Z s s'" "stopped es B C Y s' s''" "Z \<subseteq> X" "Y \<subseteq> X"
    and "\<And>p. p \<in> set es \<Longrightarrow> blocked B p = blocked A p"
  shows "stopped (ds @ es) A C X s s''"
proof -
  have "filter (blocked B) es = filter (blocked A) es"
    by (rule filter_cong) (simp_all add: assms(5))
  then have *: "of_nat (length (filter (blocked A) (ds @ es))) =
      (of_nat (length (filter (blocked A) ds)) + of_nat (length (filter (blocked B) es)) :: u32)"
    by simp
  have f: "tree_frame X (lh_mem s) (lh_mem s'')"
    using assms(1,2) unfolding stopped_def by (blast intro: tree_frame_trans [OF _ _ assms(3,4)])
  have s': "s' = s\<lparr>lh_mem := lh_mem s', pcbs := orphan ds (pcbs s),
        softBlockCount := softBlockCount s - of_nat (length (filter (blocked A) ds)),
        processCount := processCount s - of_nat (length ds)\<rparr>"
    and s'': "s'' = s'\<lparr>lh_mem := lh_mem s'', pcbs := orphan es (pcbs s'),
        softBlockCount := softBlockCount s' - of_nat (length (filter (blocked B) es)),
        processCount := processCount s' - of_nat (length es)\<rparr>"
    and r: "represents s'' C"
    using assms(1,2) by (simp_all add: stopped_def)
  have "s'' = s\<lparr>lh_mem := lh_mem s'', pcbs := orphan (ds @ es) (pcbs s),
        softBlockCount := softBlockCount s - of_nat (length (filter (blocked A) (ds @ es))),
        processCount := processCount s - of_nat (length (ds @ es))\<rparr>"
    unfolding * by (subst s'', subst (1 2 3 4) s') (simp add: orphan_append algebra_simps)
  with r f show ?thesis by (simp add: stopped_def)
qed

lemma terminateProcess_leaf:
  assumes "represents s A" "A (P_CHILD p) = Some []" "pcbs s p = Some x" "p \<noteq> NULL"
  shows "terminateProcess p s = do {
      (b, s1) \<leftarrow> isPcbBlockedOnDevice p s;
      let s2 = (if b then s1\<lparr>softBlockCount := softBlockCount s1 - 1\<rparr> else s1);
      (_, s3) \<leftarrow> outChild p s2;
      s4 \<leftarrow> freePcb p s3;
      Some (s4\<lparr>processCount := processCount s4 - 1\<rparr>)
    }"
  using emptyChild_represents [of s A p "[]"] assms by (subst terminateProcess.simps) simp

text \<open>What is left of \<open>terminateProcess\<close> when the children are gone, for a root of which it is known
  what \<open>outChild\<close> does.\<close>

lemma terminate_leaf_step:
  assumes r: "represents s A" and k: "killable s A p" and ch: "A (P_CHILD p) = Some []"
    and out: "\<And>h n. represents (s\<lparr>lh_mem := h, softBlockCount := n\<rparr>) (unblock p A) \<Longrightarrow>
      tree_frame {} (lh_mem s) h \<Longrightarrow>
      \<exists>r h'. outChild p (s\<lparr>lh_mem := h, softBlockCount := n\<rparr>)
          = Some (r, s\<lparr>lh_mem := h', pcbs := orphan [p] (pcbs s), softBlockCount := n\<rparr>)
        \<and> represents (s\<lparr>lh_mem := h', pcbs := orphan [p] (pcbs s), softBlockCount := n\<rparr>) B
        \<and> tree_frame Z h h'"
    and B: "procs B pcbFree_h fs" "P_LIST p \<notin> nodes (unblock p A) \<Longrightarrow> P_LIST p \<notin> nodes B"
  shows "\<exists>s'. terminateProcess p s = Some s'
    \<and> stopped [p] A (B(pcbFree_h \<mapsto> map P_LIST (fs @ [p]))) Z s s'"
proof -
  let ?n = "softBlockCount s - (if blocked A p then 1 else 0)"
  from k obtain x where x: "p \<noteq> NULL" "pcbs s p = Some x" by (auto simp: killable_def)
  from isPcbBlockedOnDevice_killable [OF r k] obtain h where
    h: "isPcbBlockedOnDevice p s = Some (blocked A p, s\<lparr>lh_mem := h\<rparr>)"
    "represents (s\<lparr>lh_mem := h\<rparr>) (unblock p A)" "P_LIST p \<notin> nodes (unblock p A)"
    "tree_frame {} (lh_mem s) h" by blast
  have "represents (s\<lparr>lh_mem := h, softBlockCount := ?n\<rparr>) (unblock p A)"
    using h(2) represents_cong [of "s\<lparr>lh_mem := h, softBlockCount := ?n\<rparr>" "s\<lparr>lh_mem := h\<rparr>"] by simp
  from out [OF this h(4)] obtain r' h' where
    h': "outChild p (s\<lparr>lh_mem := h, softBlockCount := ?n\<rparr>)
        = Some (r', s\<lparr>lh_mem := h', pcbs := orphan [p] (pcbs s), softBlockCount := ?n\<rparr>)"
    "represents (s\<lparr>lh_mem := h', pcbs := orphan [p] (pcbs s), softBlockCount := ?n\<rparr>) B"
    "tree_frame Z h h'" by blast
  let ?s3 = "s\<lparr>lh_mem := h', pcbs := orphan [p] (pcbs s), softBlockCount := ?n\<rparr>"
  let ?h'' = "list_add_tail (P_LIST p) pcbFree_h h'"
  have x3: "pcbs ?s3 p = Some (x\<lparr>p_parent := NULL\<rparr>)" using x by (simp add: orphan_def)
  have free: "freePcb p ?s3 = Some (?s3\<lparr>lh_mem := ?h''\<rparr>)"
    using x3 by (simp add: freePcb_def on_lists_def)
  from freePcb_represents [OF h'(2) B(1) x3 B(2) [OF h(3)]] free have
    "represents (?s3\<lparr>lh_mem := ?h''\<rparr>) (B(pcbFree_h \<mapsto> map P_LIST (fs @ [p])))"
    by (auto dest: arg_cong [where f = lh_mem])
  then have rep: "represents (?s3\<lparr>lh_mem := ?h'', processCount := processCount s - 1\<rparr>)
      (B(pcbFree_h \<mapsto> map P_LIST (fs @ [p])))"
    by (subst represents_cong [of _ "?s3\<lparr>lh_mem := ?h''\<rparr>"]) simp_all
  have "dlist h' pcbFree_h (map P_LIST fs)" using represents_dlist [OF h'(2) B(1)] by simp
  then have "tree_frame {} h' ?h''" by (rule proc_list_frame(2)) (simp add: proc_heads_def)
  then have fr: "tree_frame Z (lh_mem s) ?h''"
    using h(4) h'(3) tree_frame_trans by (metis empty_subsetI subset_refl)
  have "terminateProcess p s = Some (?s3\<lparr>lh_mem := ?h'', processCount := processCount s - 1\<rparr>)"
    using h(1) h'(1) free terminateProcess_leaf [OF r ch x(2,1)] by (auto simp: Let_def)
  moreover have "stopped [p] A (B(pcbFree_h \<mapsto> map P_LIST (fs @ [p]))) Z s
      (?s3\<lparr>lh_mem := ?h'', processCount := processCount s - 1\<rparr>)"
    unfolding stopped_def
  proof (intro conjI)
    show "?s3\<lparr>lh_mem := ?h'', processCount := processCount s - 1\<rparr> =
      s\<lparr>lh_mem := lh_mem (?s3\<lparr>lh_mem := ?h'', processCount := processCount s - 1\<rparr>),
        pcbs := orphan [p] (pcbs s),
        softBlockCount := softBlockCount s - of_nat (length (filter (blocked A) [p])),
        processCount := processCount s - of_nat (length [p])\<rparr>"
      by (rule sys.equality) simp_all
  qed (use rep fr in simp_all)
  ultimately show ?thesis by blast
qed

lemma kill_one:
  assumes "procs A pcbFree_h fs" "A (P_CHILD p) = Some []"
  shows "(unblock p A)(pcbFree_h \<mapsto> map P_LIST (fs @ [p])) = kill [p] A"
  by (rule ext) (use assms in \<open>auto simp: unblock_def kill_def blocked_heads_def\<close>)

text \<open>The root of a subtree the caller has already unlinked from its siblings: its two neighbours are
  linked to each other and belong to PCBs that stay.\<close>

definition detached :: "list_head \<Rightarrow> ptr set \<Rightarrow> ptr \<Rightarrow> bool" where
  "detached h D p \<longleftrightarrow> unlinked (P_SIB p) h \<and>
     nxt h (P_SIB p) \<in> tree_nodes (- D) \<and> prv h (P_SIB p) \<in> tree_nodes (- D)"

lemma detached_frame:
  assumes d: "detached h D p" and f: "tree_frame Z h h'"
    and Z: "P_SIB p \<notin> Z" "Z \<inter> tree_nodes (- D) = {}"
  shows "detached h' D p"
proof -
  have "nxt h' z = nxt h z \<and> prv h' z = prv h z" if "z \<in> insert (P_SIB p) (tree_nodes (- D))" for z
    using that Z by (intro tree_frameD [OF f]) (auto simp: tree_nodes_def)
  with d show ?thesis by (auto simp: detached_def unlinked_def)
qed

lemma upd_idem_parent: "p_parent x = NULL \<Longrightarrow> x\<lparr>p_parent := NULL\<rparr> = x"
  by (cases x) simp

lemma orphan_one:
  "P p = Some x \<Longrightarrow> orphan [p] P = P(p \<mapsto> x\<lparr>p_parent := NULL\<rparr>)"
  by (rule ext) (simp add: orphan_def)

lemma outChild_detached:
  assumes x: "pcbs s p = Some x" and d: "p_parent x = NULL \<or> unlinked (P_SIB p) (lh_mem s)"
  shows "\<exists>r. outChild p s = Some (r, s\<lparr>pcbs := orphan [p] (pcbs s)\<rparr>)"
proof (cases "p_parent x = NULL")
  case True
  then have "orphan [p] (pcbs s) = pcbs s"
    using x by (simp add: orphan_one upd_idem_parent fun_upd_idem)
  then show ?thesis using True x by (simp add: outChild_def)
next
  case False
  then show ?thesis
    using x d by (simp add: outChild_def upd_pcb_def on_lists_def orphan_one list_del_unlinked)
qed

lemma terminate_detached_leaf:
  assumes r: "represents s A" and k: "killable s A p" and ch: "A (P_CHILD p) = Some []"
    and x: "pcbs s p = Some x" and d: "p_parent x = NULL \<or> unlinked (P_SIB p) (lh_mem s)
      \<and> nxt (lh_mem s) (P_SIB p) \<in> tree_nodes UNIV \<and> prv (lh_mem s) (P_SIB p) \<in> tree_nodes UNIV"
  shows "\<exists>s'. terminateProcess p s = Some s' \<and> stopped [p] A (kill [p] A) {} s s'"
proof -
  from represents_proc_queue [OF r, of pcbFree_h] obtain fs where
    fs: "procs A pcbFree_h fs" by (auto simp: proc_heads_def)
  have fs': "procs (unblock p A) pcbFree_h fs" using fs by (simp add: unblock_def blocked_heads_def)
  have "\<exists>s'. terminateProcess p s = Some s'
      \<and> stopped [p] A ((unblock p A)(pcbFree_h \<mapsto> map P_LIST (fs @ [p]))) {} s s'"
  proof (rule terminate_leaf_step [OF r k ch])
    show "procs (unblock p A) pcbFree_h fs" by (rule fs')
    fix h n
    let ?s = "s\<lparr>lh_mem := h, softBlockCount := n\<rparr>"
    assume rep: "represents ?s (unblock p A)" and fr: "tree_frame {} (lh_mem s) h"
    have "p_parent x = NULL \<or> unlinked (P_SIB p) h"
      using d tree_frameD [OF fr] by (auto simp: unlinked_def tree_nodes_def)
    from outChild_detached [of ?s p x] x this obtain r' where
      "outChild p ?s = Some (r', ?s\<lparr>pcbs := orphan [p] (pcbs ?s)\<rparr>)" by auto
    then have "outChild p ?s = Some (r', s\<lparr>lh_mem := h, pcbs := orphan [p] (pcbs s), softBlockCount := n\<rparr>)"
      by simp
    moreover have "represents (s\<lparr>lh_mem := h, pcbs := orphan [p] (pcbs s), softBlockCount := n\<rparr>)
        (unblock p A)"
      using rep by (subst represents_cong [of _ ?s]) simp_all
    ultimately show "\<exists>r h'. outChild p ?s
          = Some (r, s\<lparr>lh_mem := h', pcbs := orphan [p] (pcbs s), softBlockCount := n\<rparr>)
        \<and> represents (s\<lparr>lh_mem := h', pcbs := orphan [p] (pcbs s), softBlockCount := n\<rparr>) (unblock p A)
        \<and> tree_frame {} h h'"
      by auto
  qed
  then show ?thesis by (simp only: kill_one [OF fs ch])
qed

section \<open>A process with its progeny\<close>

lemma blocked_in_kill [simp]:
  "p \<notin> set ds \<Longrightarrow> q \<in> set blocked_heads \<Longrightarrow> blocked_in (kill ds A) p q = blocked_in A p q"
  by (cases "A q") (auto simp: blocked_in_def queue_of_def kill_def blocked_heads_def)

lemma blocked_in_upd_child [simp]: "q \<in> set blocked_heads \<Longrightarrow>
    blocked_in (A(P_CHILD c \<mapsto> xs)) p q = blocked_in A p q"
  by (auto simp: blocked_in_def queue_of_def blocked_heads_def)

lemma blocked_kill [simp]: "p \<notin> set ds \<Longrightarrow> blocked (kill ds A) p = blocked A p"
  by (simp add: blocked_def)

lemma blocked_upd_child [simp]: "blocked (A(P_CHILD c \<mapsto> xs)) p = blocked A p"
  by (simp add: blocked_def)

lemma not_nodes_kill:
  assumes "P_LIST p \<notin> nodes A" "p \<notin> set ds"
  shows "P_LIST p \<notin> nodes (kill ds A)"
proof
  assume "P_LIST p \<in> nodes (kill ds A)"
  then obtain q xs where q: "kill ds A q = Some xs" "P_LIST p = q \<or> P_LIST p \<in> set xs"
    by (auto simp: nodes_def)
  then have "\<exists>ys. A q = Some ys \<and> (P_LIST p = q \<or> P_LIST p \<in> set ys)"
    using assms(2) by (auto simp: kill_def split: if_splits)
  then show False using assms(1) by (auto simp: nodes_def)
qed

lemma killable_mono:
  assumes k: "killable s A p" and p: "pcbs s' p = pcbs s p"
    and n: "P_LIST p \<notin> nodes A \<Longrightarrow> P_LIST p \<notin> nodes B"
    and b: "\<And>q. q \<in> set blocked_heads \<Longrightarrow> blocked_in B p q = blocked_in A p q"
  shows "killable s' B p"
proof -
  from k obtain x where x: "p \<noteq> NULL" "pcbs s p = Some x"
    "P_LIST p \<notin> nodes A \<or> blockedOnDevice x \<noteq> - 1
      \<and> (\<exists>q \<in> set (blocked_queues (blockedOnDevice x)). blocked_in A p q)"
    by (auto simp: killable_def)
  have "blocked_in B p q = blocked_in A p q" if "q \<in> set (blocked_queues (blockedOnDevice x))" for q
    using that blocked_queues_sub by (intro b) blast
  then have "P_LIST p \<notin> nodes B \<or> blockedOnDevice x \<noteq> - 1
      \<and> (\<exists>q \<in> set (blocked_queues (blockedOnDevice x)). blocked_in B p q)"
    using x(3) n by auto
  with x(1,2) p show ?thesis by (simp add: killable_def)
qed

lemma killable_kill:
  assumes k: "killable s A p" and p: "p \<notin> set ds" and s': "pcbs s' = orphan ds (pcbs s)"
  shows "killable s' (kill ds A) p"
  by (rule killable_mono [OF k]) (use p s' not_nodes_kill [OF _ p] in \<open>simp_all add: orphan_def\<close>)

lemma killable_upd_child:
  assumes k: "killable s A p" and s': "pcbs s' = pcbs s"
  shows "killable s' (A(P_CHILD c \<mapsto> map P_SIB cs)) p"
proof (rule killable_mono [OF k])
  show "P_LIST p \<notin> nodes (A(P_CHILD c \<mapsto> map P_SIB cs))" if "P_LIST p \<notin> nodes A"
    using that by (intro not_nodes_upd) auto
qed (use s' in simp_all)

lemma removeChild_detached:
  assumes d: "dlist h (P_CHILD p) (map P_SIB (c # cs))" and D: "c \<in> D" "p \<notin> D" "set cs \<inter> D = {}"
  shows "detached (list_del (P_SIB c) h) D c"
    and "tree_frame (insert (P_CHILD p) (P_SIB ` set (c # cs))) h (list_del (P_SIB c) h)"
proof -
  let ?h = "list_del (P_SIB c) h"
  have u: "unlinked (P_SIB c) ?h" by (rule unlinked_list_del [OF d]) simp
  have dis: "distinct (P_CHILD p # map P_SIB (c # cs))" using d by (simp add: dlist_def)
  have "nxt h (P_SIB c) = (case cs of [] \<Rightarrow> P_CHILD p | e # _ \<Rightarrow> P_SIB e)" "prv h (P_SIB c) = P_CHILD p"
    using d by (auto simp: dlist_def split: list.splits)
  moreover have "nxt ?h (P_SIB c) = nxt h (P_SIB c)" "prv ?h (P_SIB c) = prv h (P_SIB c)"
    using calculation dis by (auto simp: list_del_def list_del_between_def split: list.splits)
  ultimately show "detached ?h D c"
    using u D by (auto simp: detached_def tree_nodes_def split: list.splits)
  show "tree_frame (insert (P_CHILD p) (P_SIB ` set (c # cs))) h ?h"
    unfolding tree_frame_def using list_del_frame [OF d, of "P_SIB c"] by auto
qed

lemma stopped_refl_upd:
  "represents (s\<lparr>lh_mem := h\<rparr>) B \<Longrightarrow> tree_frame Z (lh_mem s) h \<Longrightarrow> stopped [] A B Z s (s\<lparr>lh_mem := h\<rparr>)"
  unfolding stopped_def by (intro conjI; (rule sys.equality)?) simp_all

lemma stoppedD:
  assumes "stopped ds A B Z s s'"
  shows "represents s' B" "pcbs s' = orphan ds (pcbs s)" "tree_frame Z (lh_mem s) (lh_mem s')"
proof -
  show "represents s' B" "tree_frame Z (lh_mem s) (lh_mem s')"
    using assms by (simp_all add: stopped_def)
  from assms [unfolded stopped_def, THEN conjunct1, THEN arg_cong [where f = pcbs]]
  show "pcbs s' = orphan ds (pcbs s)" by simp
qed

lemma terminateProcess_round:
  assumes r: "represents s A" and ch: "children A p (c # cs)" and p: "pcbs s p = Some x" "p \<noteq> NULL"
    and t: "terminateProcess c (s\<lparr>lh_mem := list_del (P_SIB c) (lh_mem s)\<rparr>) = Some s'"
  shows "terminateProcess p s = terminateProcess p s'"
  using removeChild_cons [OF r ch p(1)] emptyChild_represents [OF r ch p(1)] p(2) t
  by (subst terminateProcess.simps) simp

text \<open>\<open>terminable s A t\<close>: what a tree must satisfy for its root to be terminated.\<close>

definition terminable :: "sys \<Rightarrow> queues \<Rightarrow> ptree \<Rightarrow> bool" where
  "terminable s A t \<longleftrightarrow> represents s A \<and> tree_at A t \<and> distinct (members t) \<and>
     (\<forall>p \<in> set (members t). killable s A p)"

definition terminates_detached :: "ptree \<Rightarrow> bool" where
  "terminates_detached t \<longleftrightarrow> (\<forall>s A x. terminable s A t \<longrightarrow> pcbs s (root t) = Some x \<longrightarrow>
     p_parent x = NULL \<or> detached (lh_mem s) (set (members t)) (root t) \<longrightarrow>
     (\<exists>s'. terminateProcess (root t) s = Some s' \<and>
        stopped (members t) A (kill (members t) A) (tree_nodes (set (members t))) s s'))"

lemma terminates_detachedD:
  assumes "terminates_detached t" "terminable s A t" "pcbs s (root t) = Some x"
    and "p_parent x = NULL \<or> detached (lh_mem s) (set (members t)) (root t)"
  obtains s' where "terminateProcess (root t) s = Some s'"
    "stopped (members t) A (kill (members t) A) (tree_nodes (set (members t))) s s'"
  using assms unfolding terminates_detached_def by blast

lemma kill_children_fold:
  assumes "p \<notin> set M" "p \<notin> set D"
  shows "(kill D (kill M (A(P_CHILD p \<mapsto> xs))))(P_CHILD p \<mapsto> []) = (kill (M @ D) A)(P_CHILD p \<mapsto> [])"
  using assms by (simp add: kill_upd_child kill_append)

text \<open>The \<^verbatim>\<open>while\<close> loop: the subtrees go, first child first.\<close>

lemma terminate_children:
  assumes IH: "\<And>t. t \<in> set ts \<Longrightarrow> terminates_detached t"
    and r: "represents s A" and ch: "A (P_CHILD p) = Some (map (\<lambda>t. P_SIB (root t)) ts)"
    and tr: "\<forall>t \<in> set ts. tree_at A t" and dis: "distinct (concat (map members ts) @ [p])"
    and k: "\<forall>q \<in> set (concat (map members ts)). killable s A q" and p: "pcbs s p \<noteq> None" "p \<noteq> NULL"
  shows "\<exists>s'. terminateProcess p s = terminateProcess p s' \<and>
    stopped (concat (map members ts)) A ((kill (concat (map members ts)) A)(P_CHILD p \<mapsto> []))
      (insert (P_CHILD p) (tree_nodes (set (concat (map members ts))))) s s'"
  using assms
proof (induction ts arbitrary: s A)
  case Nil
  have e: "A(P_CHILD p \<mapsto> []) = A" using Nil.prems(3) by (simp add: fun_upd_idem)
  have "stopped [] A A {P_CHILD p} s (s\<lparr>lh_mem := lh_mem s\<rparr>)"
    by (rule stopped_refl_upd) (use Nil.prems(2) in simp_all)
  then show ?case by (intro exI [of _ s]) (simp add: tree_nodes_def e)
next
  case (Cons t ts)
  let ?c = "root t" and ?M = "members t" and ?D = "concat (map members ts)"
  let ?A1 = "A(P_CHILD p \<mapsto> map P_SIB (map root ts))"
  let ?h1 = "list_del (P_SIB ?c) (lh_mem s)" let ?s1 = "s\<lparr>lh_mem := ?h1\<rparr>"
  have ch: "children A p (?c # map root ts)" using Cons.prems(3) by (simp add: comp_def)
  have roots: "set (map root ts) \<subseteq> set ?D" by force
  have M: "p \<notin> set ?M" "p \<notin> set ?D" "set (map root ts) \<inter> set ?M = {}" "set ?D \<inter> set ?M = {}"
    "distinct ?M" using Cons.prems(5) roots by auto
  from Cons.prems(7) obtain x where x: "pcbs s p = Some x" by blast
  note rc = removeChild_cons [OF Cons.prems(2) ch x, THEN conjunct2]
  note det = removeChild_detached [OF represents_dlist [OF Cons.prems(2) ch] root_in_members M(1,3)]
  have Z: "insert (P_CHILD p) (P_SIB ` set (?c # map root ts)) \<subseteq>
      insert (P_CHILD p) (tree_nodes (set (?M @ ?D)))"
    using roots root_in_members [of t] by (fastforce simp: tree_nodes_def)
  have st1: "stopped [] A ?A1 (insert (P_CHILD p) (P_SIB ` set (?c # map root ts))) s ?s1"
    by (rule stopped_refl_upd [OF rc det(2)])
  have "?A1 (P_CHILD q) = A (P_CHILD q)" if "q \<in> set ?M" for q using that M(1) by auto
  then have "tree_at ?A1 t = tree_at A t" by (rule tree_at_cong)
  then have "tree_at ?A1 t" using Cons.prems(4) by simp
  moreover have "\<forall>q \<in> set ?M. killable ?s1 ?A1 q"
    using Cons.prems(6) by (intro ballI killable_upd_child [of s]) simp_all
  ultimately have tm: "terminable ?s1 ?A1 t" using rc M(5) by (simp add: terminable_def)
  have "killable s A ?c" using Cons.prems(6) by simp
  then obtain y where y: "pcbs ?s1 ?c = Some y" by (auto simp: killable_def)
  have "terminates_detached t" using Cons.prems(1) by simp
  from terminates_detachedD [OF this tm y] det(1) obtain s2 where t2: "terminateProcess ?c ?s1 = Some s2"
    and st2: "stopped ?M ?A1 (kill ?M ?A1) (tree_nodes (set ?M)) ?s1 s2"
    by auto
  let ?A2 = "kill ?M ?A1"
  note s2 = stoppedD [OF st2]
  have ch2: "?A2 (P_CHILD p) = Some (map (\<lambda>t. P_SIB (root t)) ts)"
    using M(1) by (simp add: kill_upd_child)
  have tr2: "\<forall>t' \<in> set ts. tree_at ?A2 t'"
  proof
    fix t' assume t': "t' \<in> set ts"
    have "q \<notin> set ?M \<and> q \<noteq> p" if "q \<in> set (members t')" for q using that t' M(2,4) by auto
    then have "tree_at ?A2 t' = tree_at A t'" by (intro tree_at_cong) (simp add: kill_child_other)
    then show "tree_at ?A2 t'" using Cons.prems(4) t' by simp
  qed
  have k2: "\<forall>q \<in> set ?D. killable s2 ?A2 q"
  proof (intro ballI killable_kill [OF _ _ s2(2)])
    fix q assume q: "q \<in> set ?D"
    show "killable ?s1 ?A1 q"
      using q Cons.prems(6) by (intro killable_upd_child [of s]) simp_all
    show "q \<notin> set ?M" using q M(4) by auto
  qed
  have p2: "pcbs s2 p \<noteq> None" using s2(2) x by (simp add: orphan_def)
  have IH: "terminates_detached t'" if "t' \<in> set ts" for t' using that Cons.prems(1) by simp
  have dis: "distinct (?D @ [p])" using Cons.prems(5) by simp
  from Cons.IH [OF IH s2(1) ch2 tr2 dis k2 p2 Cons.prems(8)]
  obtain s3 where t3: "terminateProcess p s2 = terminateProcess p s3"
    and st3: "stopped ?D ?A2 ((kill ?D ?A2)(P_CHILD p \<mapsto> []))
      (insert (P_CHILD p) (tree_nodes (set ?D))) s2 s3"
    by blast
  have st12: "stopped ([] @ ?M) A ?A2 (insert (P_CHILD p) (tree_nodes (set (?M @ ?D)))) s s2"
    by (rule stopped_trans [OF st1 st2 Z]) (auto simp: tree_nodes_def)
  have "stopped (([] @ ?M) @ ?D) A ((kill ?D ?A2)(P_CHILD p \<mapsto> []))
      (insert (P_CHILD p) (tree_nodes (set (?M @ ?D)))) s s3"
  proof (rule stopped_trans [OF st12 st3 subset_refl])
    show "blocked ?A2 q = blocked A q" if q: "q \<in> set ?D" for q
    proof -
      have "q \<notin> set ?M" using q M(4) by blast
      from blocked_kill [OF this, of ?A1] show ?thesis by (simp only: blocked_upd_child)
    qed
  qed (auto simp: tree_nodes_def)
  moreover have "terminateProcess p s = terminateProcess p s3"
    using terminateProcess_round [OF Cons.prems(2) ch x Cons.prems(8) t2] t3 by simp
  ultimately show ?case
    by (intro exI [of _ s3] conjI)
      (simp_all only: kill_children_fold [OF M(1,2)] append.simps list.map concat.simps)
qed

text \<open>The root itself, once its children are gone.\<close>

lemma children_gone:
  assumes t: "terminable s A (PNode p ts)" and D: "D = concat (map members ts)"
    and st: "stopped D A ((kill D A)(P_CHILD p \<mapsto> [])) Z s s'"
  shows "represents s' ((kill D A)(P_CHILD p \<mapsto> []))" "killable s' ((kill D A)(P_CHILD p \<mapsto> [])) p"
    "pcbs s' p = pcbs s p"
proof -
  have p: "p \<notin> set D" "killable s A p" using t D by (auto simp: terminable_def)
  note s' = stoppedD [OF st]
  show "represents s' ((kill D A)(P_CHILD p \<mapsto> []))" by (rule s'(1))
  show "pcbs s' p = pcbs s p" using p(1) by (simp add: s'(2) orphan_def)
  have "killable s' (kill D A) p" by (rule killable_kill [OF p(2,1) s'(2)])
  from killable_upd_child [OF this refl, of p "[]"]
  show "killable s' ((kill D A)(P_CHILD p \<mapsto> [])) p" by simp
qed

lemma stopped_root:
  assumes st: "stopped D A ((kill D A)(P_CHILD p \<mapsto> [])) (insert (P_CHILD p) (tree_nodes (set D))) s s1"
    and st': "stopped [p] ((kill D A)(P_CHILD p \<mapsto> [])) B Z s1 s2"
    and p: "p \<notin> set D" and X: "tree_nodes (set (D @ [p])) \<subseteq> X" "Z \<subseteq> X"
  shows "stopped (D @ [p]) A B X s s2"
  by (rule stopped_trans [OF st st']) (use p X in \<open>auto simp: tree_nodes_def\<close>)

lemma kill_root:
  "p \<notin> set D \<Longrightarrow> kill [p] ((kill D A)(P_CHILD p \<mapsto> [])) = kill (D @ [p]) A"
  by (simp add: kill_upd_child_in kill_append)

lemma terminate_detached: "terminates_detached t"
proof (induction t)
  case (PNode p ts)
  let ?D = "concat (map members ts)"
  show ?case unfolding terminates_detached_def
  proof (intro allI impI)
    fix s A x
    assume t: "terminable s A (PNode p ts)" and x: "pcbs s (root (PNode p ts)) = Some x"
      and d: "p_parent x = NULL \<or>
        detached (lh_mem s) (set (members (PNode p ts))) (root (PNode p ts))"
    have p: "p \<noteq> NULL" "p \<notin> set ?D" using t by (auto simp: terminable_def killable_def)
    from terminate_children [of ts s A p] PNode.IH t x p obtain s1 where
      t1: "terminateProcess p s = terminateProcess p s1"
      and st1: "stopped ?D A ((kill ?D A)(P_CHILD p \<mapsto> [])) (insert (P_CHILD p) (tree_nodes (set ?D))) s s1"
      by (auto simp: terminable_def)
    note g = children_gone [OF t refl st1]
    have "p_parent x = NULL \<or> detached (lh_mem s1) (set (members (PNode p ts))) p"
      using d detached_frame [OF _ stoppedD(3) [OF st1], of "set (members (PNode p ts))" p] p(2)
      by (auto simp: tree_nodes_def)
    then have "p_parent x = NULL \<or> unlinked (P_SIB p) (lh_mem s1) \<and>
        nxt (lh_mem s1) (P_SIB p) \<in> tree_nodes UNIV \<and> prv (lh_mem s1) (P_SIB p) \<in> tree_nodes UNIV"
      unfolding detached_def tree_nodes_def by blast
    moreover have "pcbs s1 p = Some x" using g(3) x by simp
    ultimately obtain s2 where t2: "terminateProcess p s1 = Some s2"
      and st2: "stopped [p] ((kill ?D A)(P_CHILD p \<mapsto> []))
        (kill [p] ((kill ?D A)(P_CHILD p \<mapsto> []))) {} s1 s2"
      using terminate_detached_leaf [OF g(1,2), of x] by auto
    from stopped_root [OF st1 st2 p(2), of "tree_nodes (set (?D @ [p]))"] kill_root [OF p(2), of A] t1 t2
    show "\<exists>s'. terminateProcess (root (PNode p ts)) s = Some s' \<and> stopped (members (PNode p ts)) A
        (kill (members (PNode p ts)) A) (tree_nodes (set (members (PNode p ts)))) s s'"
      by auto
  qed
qed

section \<open>The two callers\<close>

text \<open>The root of a process tree, whose parent field is null.\<close>

lemma terminate_orphan:
  assumes "terminable s A t" "pcbs s (root t) = Some x" "p_parent x = NULL"
  shows "\<exists>s'. terminateProcess (root t) s = Some s' \<and>
    stopped (members t) A (kill (members t) A) (tree_nodes (set (members t))) s s'"
  using terminates_detachedD [OF terminate_detached assms(1,2)] assms(3) by blast

text \<open>A process that is in the child list of its parent, which stays: it disappears from that list.\<close>

lemma terminate_listed:
  assumes t: "terminable s A t" and x: "pcbs s (root t) = Some x" "p_parent x \<noteq> NULL"
    and prnt: "children A prnt cs" "root t \<in> set cs" "prnt \<notin> set (members t)"
  shows "\<exists>s'. terminateProcess (root t) s = Some s' \<and>
    stopped (members t) A ((kill (members t) A)(P_CHILD prnt \<mapsto> map P_SIB (remove1 (root t) cs))) UNIV s s'"
proof (cases t)
  case (PNode p ts)
  let ?D = "concat (map members ts)"
  let ?cs = "map P_SIB (remove1 p cs)"
  note t' = t [unfolded PNode]
  have p: "p \<noteq> NULL" "p \<notin> set ?D" "prnt \<notin> set ?D" "prnt \<noteq> p" "pcbs s p = Some x" "p \<in> set cs"
    using t' prnt x PNode by (auto simp: terminable_def killable_def)
  from terminate_children [of ts s A p] terminate_detached t' p obtain s1 where
    t1: "terminateProcess p s = terminateProcess p s1"
    and st1: "stopped ?D A ((kill ?D A)(P_CHILD p \<mapsto> [])) (insert (P_CHILD p) (tree_nodes (set ?D))) s s1"
    by (auto simp: terminable_def)
  note g = children_gone [OF t' refl st1]
  let ?A1 = "(kill ?D A)(P_CHILD p \<mapsto> [])"
  have ch1: "children ?A1 prnt cs" using prnt p by (simp add: kill_child_other)
  from represents_proc_queue [OF g(1), of pcbFree_h] obtain fs where
    fs: "procs ?A1 pcbFree_h fs" by (auto simp: proc_heads_def)
  let ?B = "(unblock p ?A1)(P_CHILD prnt \<mapsto> ?cs)"
  have "\<exists>s'. terminateProcess p s1 = Some s' \<and>
      stopped [p] ?A1 (?B(pcbFree_h \<mapsto> map P_LIST (fs @ [p]))) UNIV s1 s'"
  proof (rule terminate_leaf_step [OF g(1,2)])
    show "?A1 (P_CHILD p) = Some []" by simp
    show "procs ?B pcbFree_h fs" using fs by (simp add: unblock_def blocked_heads_def)
    show "P_LIST p \<notin> nodes ?B" if "P_LIST p \<notin> nodes (unblock p ?A1)"
      using that by (intro not_nodes_upd) auto
    fix h n
    let ?s = "s1\<lparr>lh_mem := h, softBlockCount := n\<rparr>"
    assume rep: "represents ?s (unblock p ?A1)"
    have ch: "children (unblock p ?A1) prnt cs" using ch1 by (simp add: unblock_def blocked_heads_def)
    have x1: "pcbs ?s p = Some x" using g(3) p(5) by simp
    from outChild_listed [OF rep ch p(6) x1 x(2)] obtain h' where
      h': "outChild p ?s = Some (p, ?s\<lparr>pcbs := (pcbs ?s)(p \<mapsto> x\<lparr>p_parent := NULL\<rparr>), lh_mem := h'\<rparr>)"
      "represents (?s\<lparr>pcbs := (pcbs ?s)(p \<mapsto> x\<lparr>p_parent := NULL\<rparr>), lh_mem := h'\<rparr>) ?B" by blast
    have "?s\<lparr>pcbs := (pcbs ?s)(p \<mapsto> x\<lparr>p_parent := NULL\<rparr>), lh_mem := h'\<rparr> =
        s1\<lparr>lh_mem := h', pcbs := orphan [p] (pcbs s1), softBlockCount := n\<rparr>"
      by (rule sys.equality) (use x1 in \<open>simp_all add: orphan_one\<close>)
    with h' show "\<exists>r h'. outChild p ?s =
          Some (r, s1\<lparr>lh_mem := h', pcbs := orphan [p] (pcbs s1), softBlockCount := n\<rparr>)
        \<and> represents (s1\<lparr>lh_mem := h', pcbs := orphan [p] (pcbs s1), softBlockCount := n\<rparr>) ?B
        \<and> tree_frame UNIV h h'" by (auto simp: tree_frame_def)
  qed
  moreover have "?B(pcbFree_h \<mapsto> map P_LIST (fs @ [p])) = (kill (?D @ [p]) A)(P_CHILD prnt \<mapsto> ?cs)"
  proof -
    have "?B(pcbFree_h \<mapsto> map P_LIST (fs @ [p])) =
        ((unblock p ?A1)(pcbFree_h \<mapsto> map P_LIST (fs @ [p])))(P_CHILD prnt \<mapsto> ?cs)"
      by (rule fun_upd_twist) simp
    moreover have "(unblock p ?A1)(pcbFree_h \<mapsto> map P_LIST (fs @ [p])) = kill [p] ?A1"
      by (rule kill_one [where A = ?A1, OF fs]) simp
    ultimately show ?thesis using kill_root [OF p(2), of A] by simp
  qed
  ultimately obtain s2 where "terminateProcess p s1 = Some s2"
    "stopped [p] ?A1 ((kill (?D @ [p]) A)(P_CHILD prnt \<mapsto> ?cs)) UNIV s1 s2" by auto
  with stopped_root [OF st1 _ p(2), of _ UNIV] t1 PNode show ?thesis by auto
qed

end
