(* ===== verification/Terminate_Inv.thy ===== *)
theory Terminate_Inv
  imports Terminate
begin

text \<open>
  Termination of a process tree keeps the invariant of the nucleus: the counters go down by the
  processes that disappear and by those of them that were blocked, and what is left of the process
  tree is consistent.
\<close>

section \<open>Counting\<close>

lemma distinct_queues:
  assumes r: "represents s A" and d: "distinct qs"
  shows "distinct (concat (map (queue_of A) qs))"
  using d
proof (induction qs)
  case Nil
  then show ?case by simp
next
  case (Cons q qs)
  have "distinct (queue_of A q)"
    using dlist_distinct [OF represents_dlist [OF r]] by (cases "A q") (simp_all add: queue_of_def)
  moreover have "set (queue_of A q) \<inter> set (queue_of A q') = {}" if "q' \<noteq> q" for q'
    using queues_ok_owner [OF represents_queues_ok [OF r], of q _ q'] that
    by (cases "A q"; cases "A q'") (auto simp: queue_of_def)
  ultimately show ?case using Cons by fastforce
qed

lemma blocked_total_concat: "blocked_total A = length (concat (map (queue_of A) blocked_heads))"
  by (simp add: blocked_total_def length_concat comp_def)

lemma blocked_iff_concat: "blocked A p \<longleftrightarrow> P_LIST p \<in> set (concat (map (queue_of A) blocked_heads))"
  by (simp add: blocked_def blocked_in_def)

lemma queue_of_kill_blocked:
  "q \<in> set blocked_heads \<Longrightarrow> queue_of (kill ds A) q = filter (\<lambda>x. x \<notin> P_LIST ` set ds) (queue_of A q)"
  by (cases "A q") (auto simp: queue_of_def kill_def blocked_heads_def)

lemma filter_concat_map: "filter P (concat (map f xs)) = concat (map (\<lambda>x. filter P (f x)) xs)"
  by (induction xs) auto

lemma length_filter_image:
  assumes "distinct xs" "distinct ds" "inj f"
  shows "length (filter (\<lambda>x. x \<in> f ` set ds) xs) = length (filter (\<lambda>d. f d \<in> set xs) ds)"
proof -
  have "f ` set (filter (\<lambda>d. f d \<in> set xs) ds) = set (filter (\<lambda>x. x \<in> f ` set ds) xs)" by auto
  then have "card (set (filter (\<lambda>d. f d \<in> set xs) ds)) = card (set (filter (\<lambda>x. x \<in> f ` set ds) xs))"
    using card_image [of f "set (filter (\<lambda>d. f d \<in> set xs) ds)"] assms(3)
    by (metis inj_on_subset top_greatest)
  then show ?thesis using assms(1,2) by (metis distinct_card distinct_filter)
qed

lemma blocked_total_kill:
  assumes r: "represents s A" and d: "distinct ds"
  shows "blocked_total (kill ds A) + length (filter (blocked A) ds) = blocked_total A"
proof -
  let ?L = "concat (map (queue_of A) blocked_heads)"
  have "map (queue_of (kill ds A)) blocked_heads =
      map (\<lambda>q. filter (\<lambda>x. x \<notin> P_LIST ` set ds) (queue_of A q)) blocked_heads"
    by (rule map_cong) (simp_all add: queue_of_kill_blocked)
  then have k: "blocked_total (kill ds A) = length (filter (\<lambda>x. x \<notin> P_LIST ` set ds) ?L)"
    by (simp only: blocked_total_concat filter_concat_map)
  have "distinct ?L" by (rule distinct_queues [OF r]) (simp add: blocked_heads_def)
  moreover have "blocked A = (\<lambda>p. P_LIST p \<in> set ?L)" by (rule ext) (rule blocked_iff_concat)
  ultimately have "length (filter (\<lambda>x. x \<in> P_LIST ` set ds) ?L) = length (filter (blocked A) ds)"
    using length_filter_image [OF _ d inj_P_LIST] by simp
  then show ?thesis
    using sum_length_filter_compl [of "\<lambda>x. x \<in> P_LIST ` set ds" ?L] k
    by (simp add: blocked_total_concat)
qed

lemma killable_not_free:
  assumes r: "represents s A" and k: "killable s A p"
  shows "\<not> free A p"
proof
  assume f: "free A p"
  then have f': "blocked_in A p pcbFree_h" by (simp add: free_def blocked_in_def)
  have "P_LIST p \<in> nodes A" using f queue_of_nodes by (simp add: free_def)
  with k obtain x q where "q \<in> set (blocked_queues x)" "blocked_in A p q" by (auto simp: killable_def)
  then have "q \<in> set blocked_heads" "q = pcbFree_h"
    using blocked_queues_sub represents_blocked_unique [OF r _ f'] by (blast, simp)
  then show False by (simp add: blocked_heads_def)
qed

lemma free_kill:
  assumes "A pcbFree_h = Some fs"
  shows "free (kill ds A) p \<longleftrightarrow> free A p \<or> p \<in> set ds"
  using assms by (auto simp: free_def queue_of_def kill_def)

lemma live_total_kill:
  assumes inv: "kernel_inv s A" and r: "represents s' B" "pcb_table_ok s'"
    and B: "B pcbFree_h = kill ds A pcbFree_h"
  shows "live_total B + length ds = live_total A"
proof -
  from represents_proc_queue [OF kernel_invD(1) [OF inv], of pcbFree_h] obtain fs where
    fs: "procs A pcbFree_h fs" by (auto simp: proc_heads_def)
  then have fs': "procs B pcbFree_h (fs @ ds)" using B by (simp add: kill_def)
  have "length (fs @ ds) \<le> MAXPROC"
    by (rule proc_queue_length [OF r(1) _ fs' r(2)]) (simp add: proc_heads_def)
  then show ?thesis using fs fs' by (simp add: live_total_def)
qed

lemma orphan_None_iff [simp]: "orphan ds P p = None \<longleftrightarrow> P p = None"
  by (simp add: orphan_def)

section \<open>The tree after a termination\<close>

lemma member_child_in:
  "tree_at A t \<Longrightarrow> c \<in> set (members t) \<Longrightarrow> c \<noteq> root t \<Longrightarrow>
   \<exists>p \<in> set (members t). P_SIB c \<in> set (queue_of A (P_CHILD p))"
proof (induction t)
  case (PNode p ts)
  then obtain t where t: "t \<in> set ts" "c \<in> set (members t)" by auto
  show ?case
  proof (cases "c = root t")
    case True
    then have "P_SIB c \<in> set (queue_of A (P_CHILD p))"
      using PNode.prems(1) t(1) by (auto simp: queue_of_def)
    then show ?thesis by auto
  next
    case False
    with PNode.IH [OF t(1) _ t(2)] PNode.prems(1) t(1)
    obtain p' where "p' \<in> set (members t)" "P_SIB c \<in> set (queue_of A (P_CHILD p'))" by auto
    then show ?thesis using t(1) by auto
  qed
qed

lemma member_children:
  "tree_at A t \<Longrightarrow> p \<in> set (members t) \<Longrightarrow> P_SIB c \<in> set (queue_of A (P_CHILD p)) \<Longrightarrow>
   c \<in> set (members t)"
proof (induction t)
  case (PNode q ts)
  show ?case
  proof (cases "p = q")
    case True
    then obtain t where t: "t \<in> set ts" "c = root t" using PNode.prems by (auto simp: queue_of_def)
    then have "c \<in> set (members t)" by simp
    then show ?thesis using t(1) by auto
  next
    case False
    then obtain t where t: "t \<in> set ts" "p \<in> set (members t)" using PNode.prems(2) by auto
    with PNode.IH [OF t(1) _ t(2)] PNode.prems(1,3) show ?thesis by auto
  qed
qed

lemma node_of_P_SIB: "node_of q (P_SIB c) \<Longrightarrow> \<exists>p. q = P_CHILD p"
  by (cases q) auto

lemma tree_parent:
  "tree_ok s A \<Longrightarrow> P_SIB c \<in> set (queue_of A (P_CHILD p)) \<Longrightarrow> pcbs s c = Some x \<Longrightarrow> p_parent x = p"
  unfolding tree_ok_def by (metis option.inject option.simps(9))

lemma tree_ok_after:
  assumes tree: "tree_ok s A" and t: "terminable s A t" and r: "represents s' B"
    and s': "pcbs s' = orphan (members t) (pcbs s)"
    and fr: "\<And>p. free B p = (free A p \<or> p \<in> set (members t))" and dom: "dom B = dom A"
    and B: "\<And>p. p \<notin> set (members t) \<Longrightarrow> set (queue_of B (P_CHILD p)) =
      set (queue_of A (P_CHILD p)) - {P_SIB (root t)}"
    and B': "\<And>p. p \<in> set (members t) \<Longrightarrow> queue_of B (P_CHILD p) = []"
  shows "tree_ok s' B"
proof -
  have ta: "tree_at A t" using t by (simp add: terminable_def)
  have ok: "\<And>p c. P_SIB c \<in> set (queue_of A (P_CHILD p)) \<Longrightarrow> map_option p_parent (pcbs s c) = Some p"
    "\<And>c x. pcbs s c = Some x \<Longrightarrow> \<not> free A c \<Longrightarrow> p_parent x \<noteq> NULL \<Longrightarrow>
        P_SIB c \<in> set (queue_of A (P_CHILD (p_parent x)))"
    "\<And>p. free A p \<Longrightarrow> P_SIB p \<notin> nodes A" "\<And>p. A (P_SIB p) = None"
    "\<And>p. free A p \<Longrightarrow> queue_of A (P_CHILD p) = []"
    using tree unfolding tree_ok_def by blast+
  have uniq: "p = p'" if "P_SIB c \<in> set (queue_of A (P_CHILD p))" "P_SIB c \<in> set (queue_of A (P_CHILD p'))"
    for c p p' using ok(1) [OF that(1)] ok(1) [OF that(2)] by simp
  have 1: "P_SIB c \<in> set (queue_of A (P_CHILD p)) \<and> c \<notin> set (members t)"
    if c: "P_SIB c \<in> set (queue_of B (P_CHILD p))" for c p
  proof -
    have p: "p \<notin> set (members t)" using c B' [of p] by auto
    with c B have "P_SIB c \<in> set (queue_of A (P_CHILD p))" "c \<noteq> root t" by auto
    then show ?thesis using p uniq member_child_in [OF ta, of c] by auto
  qed
  have 2: "P_SIB c \<in> set (queue_of B (P_CHILD (p_parent x)))"
    if c: "pcbs s' c = Some x" "\<not> free B c" "p_parent x \<noteq> NULL" for c x
  proof -
    have "c \<notin> set (members t)" "\<not> free A c" using c(2) fr by auto
    then have a: "P_SIB c \<in> set (queue_of A (P_CHILD (p_parent x)))"
      using c s' ok by (simp add: orphan_def)
    then have "p_parent x \<notin> set (members t)"
      using member_children [OF ta] \<open>c \<notin> set (members t)\<close> by blast
    then show ?thesis using a B \<open>c \<notin> set (members t)\<close> by auto
  qed
  have 3: "P_SIB p \<notin> nodes B" if p: "free B p" for p
  proof
    assume "P_SIB p \<in> nodes B"
    moreover have "B (P_SIB p) = None" using dom ok by (metis domIff)
    ultimately obtain q xs where q: "B q = Some xs" "P_SIB p \<in> set xs" by (auto simp: nodes_def)
    then obtain p' where "q = P_CHILD p'" using represents_node [OF r] node_of_P_SIB by metis
    with q have "P_SIB p \<in> set (queue_of B (P_CHILD p'))" by simp
    from 1 [OF this] have "P_SIB p \<in> set (queue_of A (P_CHILD p'))" "p \<notin> set (members t)" by auto
    then show False using p fr ok queue_of_nodes by blast
  qed
  have 4: "B (P_SIB p) = None" for p using dom ok by (metis domIff)
  have 5: "queue_of B (P_CHILD p) = []" if p: "free B p" for p
  proof (cases "p \<in> set (members t)")
    case False
    then have "queue_of A (P_CHILD p) = []" using p fr ok(5) by blast
    then show ?thesis using B [OF False] by simp
  qed (rule B')
  show ?thesis
    unfolding tree_ok_def
  proof (intro conjI allI impI)
    fix p c assume "P_SIB c \<in> set (queue_of B (P_CHILD p))"
    from 1 [OF this] show "map_option p_parent (pcbs s' c) = Some p"
      using ok(1) by (simp add: s' orphan_def)
  qed (use 2 3 4 5 in auto)
qed

lemma root_not_member_child:
  "tree_at A t \<Longrightarrow> distinct (members t) \<Longrightarrow> p \<in> set (members t) \<Longrightarrow>
   P_SIB (root t) \<notin> set (queue_of A (P_CHILD p))"
proof (induction t)
  case (PNode q ts)
  show ?case
  proof (cases "p = q")
    case True
    have "root t \<noteq> q" if "t \<in> set ts" for t using that PNode.prems(2) root_in_members by fastforce
    then show ?thesis using True PNode.prems(1) by (auto simp: queue_of_def)
  next
    case False
    then obtain t where t: "t \<in> set ts" "p \<in> set (members t)" using PNode.prems(3) by auto
    then have "tree_at A t" "q \<notin> set (members t)" using PNode.prems(1,2) by auto
    with member_children [OF this(1) t(2), of q] show ?thesis by auto
  qed
qed

lemma kill_dom:
  assumes "tree_at A t"
  shows "dom (kill (members t) A) = dom A"
proof -
  have "A (P_CHILD p) \<noteq> None" if "p \<in> set (members t)" for p
    using assms that
  proof (induction t)
    case (PNode q ts)
    then show ?case by auto
  qed
  then show ?thesis by (auto simp: kill_def dom_def split: if_splits)
qed

lemma stopped_kernel_inv:
  assumes inv: "kernel_inv s A" and t: "terminable s A t" and st: "stopped (members t) A B Z s s'"
    and B: "B pcbFree_h = kill (members t) A pcbFree_h"
      "blocked_total B = blocked_total (kill (members t) A)" "dom B = dom A"
    and n: "\<And>p. P_LIST p \<notin> nodes (kill (members t) A) \<Longrightarrow> P_LIST p \<notin> nodes B"
    and tree: "tree_ok s' B"
    and c: "c = NULL \<or> c = current_process s \<and> c \<notin> set (members t)"
  shows "kernel_inv (s'\<lparr>current_process := c\<rparr>) B"
proof -
  let ?M = "members t"
  have r: "represents s A" "distinct ?M" using t by (simp_all add: terminable_def)
  note s' = stoppedD [OF st]
  have eq: "s' = s\<lparr>lh_mem := lh_mem s', pcbs := orphan ?M (pcbs s),
        softBlockCount := softBlockCount s - of_nat (length (filter (blocked A) ?M)),
        processCount := processCount s - of_nat (length ?M)\<rparr>"
    using st by (simp add: stopped_def)
  have tab: "pcb_table_ok s'" "msg_table_ok s'"
    using kernel_invD(2,3) [OF inv] by (subst eq, simp add: pcb_table_ok_def msg_table_ok_def)+
  have soft: "softBlockCount s' = of_nat (blocked_total B)"
  proof -
    have "softBlockCount s' = softBlockCount s - of_nat (length (filter (blocked A) ?M))"
      by (subst eq) simp
    moreover have "blocked_total A = blocked_total B + length (filter (blocked A) ?M)"
      using blocked_total_kill [OF r] B(2) by simp
    ultimately show ?thesis using kernel_invD(4) [OF inv] by simp
  qed
  have proc: "processCount s' = of_nat (live_total B)"
  proof -
    have "processCount s' = processCount s - of_nat (length ?M)" by (subst eq) simp
    moreover have "live_total A = live_total B + length ?M"
      using live_total_kill [OF inv s'(1) tab(1) B(1)] by simp
    ultimately show ?thesis using kernel_invD(5) [OF inv] by simp
  qed
  from represents_proc_queue [OF r(1), of pcbFree_h] obtain fs where
    fs: "procs A pcbFree_h fs" by (auto simp: proc_heads_def)
  have free: "free A p \<Longrightarrow> free B p" for p
    using free_kill [where A = A and ds = ?M and p = p, OF fs] B(1) by (simp add: free_def queue_of_def)
  have heads: "B (P_CHILD p) \<noteq> None \<and> B (MSG_INBOX p) \<noteq> None"
    if "pcbs s' p \<noteq> None" "\<not> free B p" for p
  proof -
    have "pcbs s p \<noteq> None" "\<not> free A p" using that free by (auto simp: s'(2))
    then have "A (P_CHILD p) \<noteq> None \<and> A (MSG_INBOX p) \<noteq> None"
      using inv by (simp add: kernel_inv_def)
    then show ?thesis using B(3) by (simp add: dom_def set_eq_iff)
  qed
  have cur: "c \<noteq> NULL \<Longrightarrow> pcbs s' c \<noteq> None \<and> P_LIST c \<notin> nodes B"
    using c n not_nodes_kill [of c A ?M] inv by (auto simp: kernel_inv_def s'(2) orphan_def)
  have "represents (s'\<lparr>current_process := c\<rparr>) B"
    using s'(1) represents_cong [of "s'\<lparr>current_process := c\<rparr>" s'] by simp
  then show ?thesis
    unfolding kernel_inv_def using tab soft proc heads tree cur
    by (simp add: pcb_table_ok_def msg_table_ok_def tree_ok_def)
qed

text \<open>TERMPROCESS keeps the invariant, with or without a parent left behind.\<close>

lemma terminateProcess_kernel_inv:
  assumes inv: "kernel_inv s A" and t: "terminable s A t"
    and c: "c = NULL \<or> c = current_process s \<and> c \<notin> set (members t)"
  shows "\<exists>s' B. terminateProcess (root t) s = Some s' \<and> kernel_inv (s'\<lparr>current_process := c\<rparr>) B
    \<and> queue_of B pcbFree_h = queue_of A pcbFree_h @ map P_LIST (members t)
    \<and> (\<forall>q. q \<notin> set (pcbFree_h # blocked_heads) \<longrightarrow> \<not> is_child_head q \<longrightarrow> B q = A q)
    \<and> (\<forall>p. set (queue_of B (P_CHILD p)) \<subseteq> set (queue_of A (P_CHILD p)))
    \<and> pcbs s' = orphan (members t) (pcbs s) \<and> current_process s' = current_process s
    \<and> (\<forall>q. \<not> is_child_head q \<longrightarrow> B q = kill (members t) A q)
    \<and> (\<forall>p. p \<notin> set (members t) \<longrightarrow>
        set (queue_of B (P_CHILD p)) = set (queue_of A (P_CHILD p)) - {P_SIB (root t)})"
proof -
  let ?M = "members t" and ?p = "root t"
  have tree: "tree_ok s A" using inv by (simp add: kernel_inv_def)
  have ta: "tree_at A t" and r: "represents s A" and k: "killable s A ?p" and dis: "distinct ?M"
    using t by (simp_all add: terminable_def)
  from k obtain x where x: "pcbs s ?p = Some x" by (auto simp: killable_def)
  have alive: "\<not> free A ?p" by (rule killable_not_free [OF r k])
  from represents_proc_queue [OF r, of pcbFree_h] obtain fs where
    fs: "procs A pcbFree_h fs" by (auto simp: proc_heads_def)
  have main: ?thesis
    if st: "terminateProcess ?p s = Some s'" "stopped ?M A B Z s s'"
      and B: "B = kill ?M A \<or> (\<exists>q cs. q \<notin> set ?M \<and> A (P_CHILD q) \<noteq> None \<and> B = (kill ?M A)(P_CHILD q \<mapsto> map P_SIB cs))"
      and q: "\<And>p. p \<notin> set ?M \<Longrightarrow> set (queue_of B (P_CHILD p)) = set (queue_of A (P_CHILD p)) - {P_SIB ?p}"
    for s' B Z
  proof -
    note s' = stoppedD [OF st(2)]
    have same: "B z = kill ?M A z" if "\<not> is_child_head z" for z using B that by auto
    have kd: "kill ?M A z = None \<longleftrightarrow> A z = None" for z
      using kill_dom [OF ta] by (metis domIff)
    have "B z = None \<longleftrightarrow> A z = None" for z
      using B kd [of z] by (cases "B = kill ?M A") (auto split: if_splits)
    then have dom: "dom B = dom A" by (simp add: set_eq_iff domIff del: not_None_eq)
    have bt: "blocked_total B = blocked_total (kill ?M A)"
      using same by (simp add: blocked_total_def blocked_heads_def queue_of_def)
    have free: "free B p = (free A p \<or> p \<in> set ?M)" for p
      using same [of pcbFree_h] free_kill [where A = A and ds = ?M and p = p, OF fs]
      by (simp add: free_def queue_of_def)
    have none: "queue_of B (P_CHILD p) = []" if "p \<in> set ?M" for p
      using B that by (auto simp: queue_of_def kill_def blocked_heads_def)
    have n: "P_LIST p \<notin> nodes B" if "P_LIST p \<notin> nodes (kill ?M A)" for p
    proof -
      have "P_LIST p \<notin> nodes ((kill ?M A)(P_CHILD q \<mapsto> map P_SIB cs))" for q cs
        by (rule not_nodes_upd [OF that]) auto
      then show ?thesis using B that by auto
    qed
    have "tree_ok s' B" by (rule tree_ok_after [OF tree t s'(1,2) free dom q none])
    from stopped_kernel_inv [OF inv t st(2) same bt dom n this c]
    have "kernel_inv (s'\<lparr>current_process := c\<rparr>) B" by simp
    moreover have "current_process s' = current_process s"
      using st(2) [unfolded stopped_def, THEN conjunct1, THEN arg_cong [where f = current_process]] by simp
    moreover have "queue_of B pcbFree_h = queue_of A pcbFree_h @ map P_LIST ?M"
      using same [of pcbFree_h] fs by (simp add: queue_of_def kill_def)
    moreover have "B z = A z" if "z \<notin> set (pcbFree_h # blocked_heads)" "\<not> is_child_head z" for z
      using same [OF that(2)] that by (auto simp: kill_def)
    moreover have "set (queue_of B (P_CHILD p)) \<subseteq> set (queue_of A (P_CHILD p))" for p
      using q [of p] none [of p] by (cases "p \<in> set ?M") auto
    ultimately show ?thesis using st(1) s'(2) same q by (intro exI [of _ s'] exI [of _ B] conjI allI impI) blast+
  qed
  show ?thesis
  proof (cases "p_parent x = NULL")
    case True
    from terminate_orphan [OF t x True] obtain s' where
      s': "terminateProcess ?p s = Some s'" "stopped ?M A (kill ?M A) (tree_nodes (set ?M)) s s'" by blast
    have nul: "P_SIB ?p \<notin> set (queue_of A (P_CHILD p))" for p
    proof
      assume a: "P_SIB ?p \<in> set (queue_of A (P_CHILD p))"
      then have "p = NULL" using tree_parent [OF tree _ x] True by simp
      moreover obtain xs where "A (P_CHILD p) = Some xs"
        using a by (cases "A (P_CHILD p)") (auto simp: queue_of_def)
      then have "pcbs s p \<noteq> None" using msg_head_represents [OF r] by fastforce
      ultimately show False using kernel_invD(2) [OF inv] by (auto simp: pcb_table_ok_def dom_def set_eq_iff)
    qed
    show ?thesis
      by (rule main [OF s']) (use nul in \<open>simp_all add: queue_of_def kill_child_other\<close>)
  next
    case False
    let ?q = "p_parent x"
    have sib: "P_SIB ?p \<in> set (queue_of A (P_CHILD ?q))"
      using tree x alive False by (simp add: tree_ok_def)
    then have qM: "?q \<notin> set ?M" using root_not_member_child [OF ta dis] by blast
    from sib obtain xs where "A (P_CHILD ?q) = Some xs" by (cases "A (P_CHILD ?q)") (auto simp: queue_of_def)
    then obtain cs where cs: "children A ?q cs" using represents_children [OF r] by blast
    have mem: "?p \<in> set cs" using sib cs by auto
    have d: "distinct cs"
      using dlist_distinct [OF represents_dlist [OF r cs]] by (simp add: distinct_map)
    from terminate_listed [OF t x False cs mem qM] obtain s' where
      s': "terminateProcess ?p s = Some s'"
      "stopped ?M A ((kill ?M A)(P_CHILD ?q \<mapsto> map P_SIB (remove1 ?p cs))) UNIV s s'" by blast
    have "set (queue_of ((kill ?M A)(P_CHILD ?q \<mapsto> map P_SIB (remove1 ?p cs))) (P_CHILD p)) =
        set (queue_of A (P_CHILD p)) - {P_SIB ?p}" if "p \<notin> set ?M" for p
    proof (cases "p = ?q")
      case True
      then show ?thesis using cs d by (auto simp: queue_of_upd)
    next
      case p: False
      have "P_SIB ?p \<notin> set (queue_of A (P_CHILD p))" using tree_parent [OF tree _ x] p by blast
      then show ?thesis using p that by (auto simp: queue_of_upd queue_of_def kill_child_other)
    qed
    then show ?thesis using main [OF s'] qM cs by auto
  qed
qed

end
