(* ===== verification/Ssi_Correct.thy ===== *)
theory Ssi_Correct
  imports Terminate_Inv
begin

text \<open>
  What the other services of the SSI do to the nucleus: each keeps \<open>kernel_inv\<close>, with the family of
  queues it leaves written out, under the condition the code relies on (the process it blocks is
  linked in no process queue, or only in the ready queue where the code takes it out of it).
\<close>

section \<open>Blocking a process\<close>

lemma queue_of_procs: "procs A q ps \<Longrightarrow> queue_of A q = map P_LIST ps"
  by simp

lemma insert_blocked:
  assumes inv: "kernel_inv s A" and q: "q \<in> set blocked_heads" "procs A q ps"
    and p: "pcbs s p \<noteq> None" "P_LIST p \<notin> nodes A" "p \<noteq> current_process s"
  shows "\<exists>h. insertProcQ q p s = Some (s\<lparr>lh_mem := h\<rparr>) \<and>
    kernel_inv (s\<lparr>lh_mem := h, softBlockCount := softBlockCount s + 1\<rparr>)
      (A(q \<mapsto> map P_LIST (ps @ [p])))"
proof -
  let ?A = "A(q \<mapsto> map P_LIST (ps @ [p]))"
  have qp: "q \<in> set proc_heads" "q \<noteq> pcbFree_h" using q(1) by (auto simp: proc_heads_def blocked_heads_def)
  from p(1) obtain x where x: "pcbs s p = Some x" by blast
  from insertProcQ_represents [OF kernel_invD(1) [OF inv] qp(1) q(2) x p(2)] obtain h where
    h: "insertProcQ q p s = Some (s\<lparr>lh_mem := h\<rparr>)" "represents (s\<lparr>lh_mem := h\<rparr>) ?A" by blast
  have n: "nodes ?A = insert (P_LIST p) (nodes A)" by (rule nodes_insert [where A = A and xs = "map P_LIST ps"]) (use q(2) in auto)
  have cur: "current_process s = NULL \<or> pcbs s (current_process s) \<noteq> None \<and>
      P_LIST (current_process s) \<notin> nodes ?A"
    using kernel_inv_current [OF inv] p(3) unfolding n by auto
  have bt: "blocked_total ?A = Suc (blocked_total A)"
    using blocked_total_insert(1) [where A = A and xs = "map P_LIST ps" and x = "P_LIST p", OF q] by simp
  have "kernel_inv (s\<lparr>lh_mem := h, current_process := current_process s,
      softBlockCount := softBlockCount s + 1\<rparr>) ?A"
    by (rule kernel_inv_queue_step [OF inv h(2) qp cur]) (use bt kernel_invD(4) [OF inv] in auto)
  then show ?thesis using h(1) by auto
qed

section \<open>CLOCKWAIT\<close>

lemma wait4Clock_kernel_inv:
  assumes inv: "kernel_inv s A" and q: "procs A pseudoClockQueue ps"
    and p: "pcbs s p \<noteq> None" "P_LIST p \<notin> nodes A" "p \<noteq> current_process s"
  shows "\<exists>s'. wait4Clock p s = Some s' \<and> kernel_inv s' (A(pseudoClockQueue \<mapsto> map P_LIST (ps @ [p])))"
  using insert_blocked [OF inv _ q p] by (auto simp: wait4Clock_def blocked_heads_def)

section \<open>DOIO\<close>

text \<open>Which queue and device number a command register address stands for, computed from the address:
  \<open>doio\<close> finds it by search.\<close>

definition line_queue :: "u32 \<Rightarrow> lh" where
  "line_queue l = (if l = IL_DISK then blockedDiskQueue else if l = IL_FLASH then blockedFlashQueue
     else if l = IL_ETHERNET then blockedEthernetQueue else blockedPrinterQueue)"

definition device_queue :: "u32 \<Rightarrow> (lh \<times> u32) option" where
  "device_queue a = (
     let off = a - START_DEVREG; l = drop_bit 7 off + 3; d = drop_bit 4 off AND 7; r = off AND 15
     in if l \<in> {3, 4, 5, 6} \<and> r = dtp_command then Some (line_queue l, d)
        else if l = IL_TERMINAL \<and> r = transm_command then Some (blockedTerminalTransmQueue, d)
        else if l = IL_TERMINAL \<and> r = recv_command then Some (blockedTerminalRecvQueue, d)
        else None)"

text \<open>What the loop body compares.\<close>

definition cmd_match :: "u32 \<Rightarrow> u32 \<Rightarrow> u32 \<Rightarrow> lh option" where
  "cmd_match l d a =
     (if l = IL_TERMINAL then
        if DEV_REG_ADDR l d + transm_command = a then Some blockedTerminalTransmQueue
        else if DEV_REG_ADDR l d + recv_command = a then Some blockedTerminalRecvQueue else None
      else if DEV_REG_ADDR l d + dtp_command = a then Some (line_queue l) else None)"

lemma io_lines_cases:
  "l \<in> set io_lines \<Longrightarrow> l = IL_DISK \<or> l = IL_FLASH \<or> l = IL_ETHERNET \<or> l = IL_PRINTER \<or> l = IL_TERMINAL"
  by (simp add: io_lines_def)

lemma insertDeviceQ_line:
  assumes "l \<in> set io_lines" "l \<noteq> IL_TERMINAL"
  shows "insertDeviceQ l p = insertProcQ (line_queue l) p"
  using io_lines_cases [OF assms(1)] assms(2)
  by (intro ext) (elim disjE; simp add: insertDeviceQ_def line_queue_def)

lemma doio_body_match:
  assumes "l \<in> set io_lines"
  shows "doio_body l d a p s = (case cmd_match l d a of None \<Rightarrow> Some (False, s)
    | Some q \<Rightarrow> do { s' \<leftarrow> block_on d p (insertProcQ q p) s; Some (True, s') })"
proof (cases "l = IL_TERMINAL")
  case True
  then show ?thesis by (simp add: doio_body_def cmd_match_def Let_def)
next
  case False
  then show ?thesis
    by (simp add: doio_body_def cmd_match_def Let_def insertDeviceQ_line [OF assms])
qed

lemma doio_devs_none:
  assumes "l \<in> set io_lines" "\<forall>d \<in> set ds. cmd_match l d a = None"
  shows "doio_devs ds l a p s = Some s"
  using assms(2) by (induction ds) (simp_all add: doio_body_match [OF assms(1)])

lemma doio_devs_hit:
  assumes "l \<in> set io_lines" "d \<in> set ds" "cmd_match l d a = Some q"
    and "\<forall>d' \<in> set ds. cmd_match l d' a \<noteq> None \<longrightarrow> d' = d"
  shows "doio_devs ds l a p s = block_on d p (insertProcQ q p) s"
  using assms(2,4)
proof (induction ds)
  case Nil
  then show ?case by simp
next
  case (Cons e ds)
  note body = doio_body_match [OF assms(1), of e a p s]
  show ?case
  proof (cases "e = d")
    case True
    then show ?thesis
      using body assms(3) by (cases "block_on d p (insertProcQ q p) s") simp_all
  next
    case False
    then have m: "cmd_match l e a = None" using Cons.prems(2) by (meson list.set_intros(1))
    have "d \<in> set ds" using False Cons.prems(1) by simp
    moreover have "\<forall>d' \<in> set ds. cmd_match l d' a \<noteq> None \<longrightarrow> d' = d"
      using Cons.prems(2) by (meson list.set_intros(2))
    ultimately have "doio_devs ds l a p s = block_on d p (insertProcQ q p) s" by (rule Cons.IH)
    then show ?thesis using body m by simp
  qed
qed

lemma doio_lines_none:
  assumes "set ls \<subseteq> set io_lines"
    and "\<forall>l \<in> set ls. \<forall>d \<in> set io_devs. cmd_match l d a = None"
  shows "doio_lines ls a p s = Some s"
  using assms
proof (induction ls)
  case Nil
  then show ?case by simp
next
  case (Cons l ls)
  then have "doio_devs io_devs l a p s = Some s" by (intro doio_devs_none) auto
  with Cons show ?case by simp
qed

lemma doio_lines_hit:
  assumes "set ls \<subseteq> set io_lines" "distinct ls" "l \<in> set ls" "d \<in> set io_devs"
    and "cmd_match l d a = Some q"
    and "\<forall>l' \<in> set ls. \<forall>d' \<in> set io_devs. cmd_match l' d' a \<noteq> None \<longrightarrow> l' = l \<and> d' = d"
  shows "doio_lines ls a p s = block_on d p (insertProcQ q p) s"
  using assms(1-3,6)
proof (induction ls)
  case Nil
  then show ?case by simp
next
  case (Cons e ls)
  have other: "cmd_match l' d' a = None" if "l' \<in> set (e # ls)" "l' \<noteq> l" "d' \<in> set io_devs" for l' d'
    using Cons.prems(4) that by blast
  show ?case
  proof (cases "e = l")
    case True
    have l: "l \<in> set io_lines" using Cons.prems(1) True by simp
    have "\<forall>d' \<in> set io_devs. cmd_match l d' a \<noteq> None \<longrightarrow> d' = d"
      using Cons.prems(3,4) by blast
    from doio_devs_hit [OF l assms(4,5) this]
    have "doio_devs io_devs l a p s = block_on d p (insertProcQ q p) s" .
    moreover have "doio_lines ls a p s' = Some s'" for s'
    proof (rule doio_lines_none)
      show "set ls \<subseteq> set io_lines" using Cons.prems(1) by simp
      show "\<forall>l \<in> set ls. \<forall>d \<in> set io_devs. cmd_match l d a = None"
        using other Cons.prems(2) True by (metis distinct.simps(2) list.set_intros(2))
    qed
    ultimately show ?thesis using True by simp
  next
    case False
    have "doio_devs io_devs e a p s = Some s"
    proof (rule doio_devs_none)
      show "e \<in> set io_lines" using Cons.prems(1) by simp
      show "\<forall>d \<in> set io_devs. cmd_match e d a = None" using other False by (meson list.set_intros(1))
    qed
    moreover have "doio_lines ls a p s = block_on d p (insertProcQ q p) s"
    proof (rule Cons.IH)
      show "\<forall>l' \<in> set ls. \<forall>d' \<in> set io_devs. cmd_match l' d' a \<noteq> None \<longrightarrow> l' = l \<and> d' = d"
        using Cons.prems(4) by (meson list.set_intros(2))
      show "l \<in> set ls" using Cons.prems(3) False by (metis set_ConsD)
    qed (use Cons.prems(1,2) in simp_all)
    ultimately show ?thesis using False by simp
  qed
qed

text \<open>An address is built from a line, a device and an offset in exactly one way.\<close>

lemma word_field_split:
  "(off :: u32) = push_bit 7 (drop_bit 7 off) OR push_bit 4 (drop_bit 4 off AND 7) OR (off AND 15)"
proof -
  have "off = push_bit 7 (drop_bit 7 off) OR push_bit 4 (drop_bit 4 off AND mask 3) OR (off AND mask 4)"
  proof (rule bit_word_eqI)
    fix n
    show "bit off n = bit (push_bit 7 (drop_bit 7 off) OR push_bit 4 (drop_bit 4 off AND mask 3)
        OR (off AND mask 4)) n"
      by (cases "n < 7") (auto simp: bit_simps dest: bit_imp_le_length)
  qed
  then show ?thesis by (simp add: mask_eq_exp_minus_1)
qed

lemma and_7_devs: "(x :: u32) AND 7 \<in> set io_devs"
proof -
  have "x AND 7 = take_bit 3 x" by (simp add: take_bit_eq_mask mask_eq_exp_minus_1)
  then have "unat (x AND 7) < 8"
    using take_bit_nat_less_exp [of 3 "unat x"] by (simp add: unsigned_take_bit_eq)
  then have "unat (x AND 7) = 0 \<or> unat (x AND 7) = 1 \<or> unat (x AND 7) = 2 \<or> unat (x AND 7) = 3
      \<or> unat (x AND 7) = 4 \<or> unat (x AND 7) = 5 \<or> unat (x AND 7) = 6 \<or> unat (x AND 7) = 7"
    by linarith
  then show ?thesis by (simp add: io_devs_def word_unat_eq_iff)
qed

lemma device_queue_table:
  "list_all (\<lambda>l. list_all (\<lambda>d. if l = IL_TERMINAL
      then device_queue (DEV_REG_ADDR l d + transm_command) = Some (blockedTerminalTransmQueue, d)
        \<and> device_queue (DEV_REG_ADDR l d + recv_command) = Some (blockedTerminalRecvQueue, d)
      else device_queue (DEV_REG_ADDR l d + dtp_command) = Some (line_queue l, d)) io_devs) io_lines"
  by code_simp

lemma device_queue_match:
  assumes "l \<in> set io_lines" "d \<in> set io_devs" "cmd_match l d a = Some q"
  shows "device_queue a = Some (q, d)"
  using device_queue_table assms
  by (auto simp: list_all_iff cmd_match_def split: if_splits)

lemma field_join_table:
  "list_all (\<lambda>l. list_all (\<lambda>d. list_all (\<lambda>r.
      START_DEVREG + (push_bit 7 (l - 3) OR push_bit 4 d OR r) = DEV_REG_ADDR l d + r)
    [dtp_command, transm_command]) io_devs) io_lines"
  by code_simp

lemma line_of_address_table:
  "list_all (\<lambda>l. list_all (\<lambda>d. list_all (\<lambda>r. drop_bit 7 (DEV_REG_ADDR l d + r - START_DEVREG) + 3 = l)
    [dtp_command, transm_command]) io_devs) io_lines"
  by code_simp

lemma cmd_match_line:
  assumes "l \<in> set io_lines" "d \<in> set io_devs" "cmd_match l d a = Some q"
  shows "l = drop_bit 7 (a - START_DEVREG) + 3"
  using line_of_address_table assms
  by (auto simp: list_all_iff cmd_match_def split: if_splits)

lemma device_queue_hit:
  assumes "device_queue a = Some (q, d)"
  shows "\<exists>l \<in> set io_lines. d \<in> set io_devs \<and> cmd_match l d a = Some q"
proof -
  define off l r where "off = a - START_DEVREG" and "l = drop_bit 7 off + 3" and "r = off AND 15"
  have q: "d = drop_bit 4 off AND 7"
    "l \<in> {3, 4, 5, 6} \<and> r = dtp_command \<and> q = line_queue l \<or>
     l = IL_TERMINAL \<and> r = transm_command \<and> q = blockedTerminalTransmQueue \<or>
     l = IL_TERMINAL \<and> r = recv_command \<and> q = blockedTerminalRecvQueue"
    using assms unfolding device_queue_def Let_def off_def [symmetric] l_def [symmetric] r_def [symmetric]
    by (simp_all split: if_splits)
  have d: "d \<in> set io_devs" unfolding q(1) by (rule and_7_devs)
  have l: "l \<in> set io_lines" using q(2) by (auto simp: io_lines_def)
  have "off = push_bit 7 (l - 3) OR push_bit 4 d OR r"
    using word_field_split [of off] by (simp add: l_def r_def q(1))
  then have "a = START_DEVREG + (push_bit 7 (l - 3) OR push_bit 4 d OR r)"
    by (simp add: off_def algebra_simps)
  also have "\<dots> = DEV_REG_ADDR l d + r"
    using field_join_table l d q(2) unfolding list_all_iff by auto
  finally have a: "a = DEV_REG_ADDR l d + r" .
  show ?thesis
    using q(2) d l unfolding a by (intro bexI [OF _ l]) (auto simp: cmd_match_def)
qed

text \<open>The search of \<open>doio\<close> finds what the address says, and nothing for any other address.\<close>

lemma doio_lines_device:
  "doio_lines io_lines a p s =
     (case device_queue a of None \<Rightarrow> Some s | Some (q, d) \<Rightarrow> block_on d p (insertProcQ q p) s)"
proof (cases "device_queue a")
  case None
  then have "cmd_match l d a = None" if "l \<in> set io_lines" "d \<in> set io_devs" for l d
    using device_queue_match [OF that] by (cases "cmd_match l d a") auto
  then show ?thesis using None doio_lines_none [OF subset_refl] by simp
next
  case (Some qd)
  obtain q d where qd: "qd = (q, d)" by fastforce
  from device_queue_hit [of a q d] Some qd obtain l where
    l: "l \<in> set io_lines" "d \<in> set io_devs" "cmd_match l d a = Some q" by auto
  have "l' = l \<and> d' = d"
    if "l' \<in> set io_lines" "d' \<in> set io_devs" "cmd_match l' d' a \<noteq> None" for l' d'
  proof -
    from that(3) obtain q' where q': "cmd_match l' d' a = Some q'" by blast
    show ?thesis
      using device_queue_match [OF that(1,2) q'] device_queue_match [OF l]
        cmd_match_line [OF that(1,2) q'] cmd_match_line [OF l] by simp
  qed
  then have "doio_lines io_lines a p s = block_on d p (insertProcQ q p) s"
    by (intro doio_lines_hit [OF subset_refl _ l]) (simp add: io_lines_def, blast)
  then show ?thesis using Some qd by simp
qed

section \<open>The effect of DOIO\<close>

lemma lh_valid_soft [simp]: "lh_valid (s\<lparr>softBlockCount := n\<rparr>) x = lh_valid s x"
  by (cases x) simp_all

lemma outProcQ_soft:
  "outProcQ q p (s\<lparr>softBlockCount := n\<rparr>) =
     map_option (\<lambda>(r, t). (r, t\<lparr>softBlockCount := n\<rparr>)) (outProcQ q p s)"
  by (auto simp: outProcQ_def on_lists_def split: option.split bind_split)

lemma block_on_soft:
  "block_on d p (insertProcQ q p) (s\<lparr>softBlockCount := n\<rparr>) =
     map_option (\<lambda>t. t\<lparr>softBlockCount := n\<rparr>) (block_on d p (insertProcQ q p) s)"
proof (cases "pcbs s p")
  case None
  then show ?thesis by (simp add: block_on_def upd_pcb_def)
next
  case (Some x)
  let ?s1 = "s\<lparr>pcbs := (pcbs s)(p \<mapsto> x\<lparr>blockedOnDevice := d\<rparr>)\<rparr>"
  have eq: "s\<lparr>softBlockCount := n, pcbs := (pcbs s)(p \<mapsto> x\<lparr>blockedOnDevice := d\<rparr>)\<rparr> = ?s1\<lparr>softBlockCount := n\<rparr>"
    by simp
  have "block_on d p (insertProcQ q p) (s\<lparr>softBlockCount := n\<rparr>) =
      do { (_, s2) \<leftarrow> outProcQ readyQueue p (?s1\<lparr>softBlockCount := n\<rparr>); insertProcQ q p s2 }"
    using Some by (simp add: block_on_def upd_pcb_def eq)
  moreover have "block_on d p (insertProcQ q p) s =
      do { (_, s2) \<leftarrow> outProcQ readyQueue p ?s1; insertProcQ q p s2 }"
    using Some by (simp add: block_on_def upd_pcb_def)
  ultimately show ?thesis
    by (cases "outProcQ readyQueue p ?s1") (auto simp: outProcQ_soft insertProcQ_def on_lists_def)
qed

text \<open>Taking a process out of the ready queue, if it is there.\<close>

lemma leave_ready:
  assumes inv: "kernel_inv s A" and q: "procs A readyQueue rs" and p: "p \<noteq> NULL"
    and out: "P_LIST p \<in> nodes A \<Longrightarrow> p \<in> set rs"
  shows "\<exists>r h. outProcQ readyQueue p s = Some (r, s\<lparr>lh_mem := h\<rparr>) \<and>
    kernel_inv (s\<lparr>lh_mem := h\<rparr>) (A(readyQueue \<mapsto> map P_LIST (remove1 p rs))) \<and>
    P_LIST p \<notin> nodes (A(readyQueue \<mapsto> map P_LIST (remove1 p rs)))"
proof (cases "p \<in> set rs")
  case False
  then have "A(readyQueue \<mapsto> map P_LIST (remove1 p rs)) = A"
    using q by (simp add: remove1_idem fun_upd_idem)
  moreover have "outProcQ readyQueue p s = Some (NULL, s\<lparr>lh_mem := lh_mem s\<rparr>)"
    using outProcQ_notin [OF kernel_invD(1) [OF inv] q False] by simp
  moreover have "P_LIST p \<notin> nodes A" using False out by blast
  ultimately show ?thesis using inv by (intro exI [of _ NULL] exI [of _ "lh_mem s"]) simp
next
  case True
  let ?A = "A(readyQueue \<mapsto> map P_LIST (remove1 p rs))"
  have rq: "readyQueue \<in> set proc_heads" "readyQueue \<noteq> pcbFree_h" by (simp_all add: proc_heads_def)
  from outProcQ_in [OF kernel_invD(1) [OF inv] rq(1) q True p] obtain h where
    h: "outProcQ readyQueue p s = Some (p, s\<lparr>lh_mem := h\<rparr>)" "represents (s\<lparr>lh_mem := h\<rparr>) ?A" by blast
  have n: "nodes ?A = nodes A - {P_LIST p}"
    using nodes_remove1 [OF represents_queues_ok [OF kernel_invD(1) [OF inv]] q, of "P_LIST p"] True
    by (simp add: map_injection_remove1 [OF inj_P_LIST])
  have "kernel_inv (s\<lparr>lh_mem := h, current_process := current_process s,
      softBlockCount := softBlockCount s\<rparr>) ?A"
    using kernel_inv_current [OF inv] kernel_invD(4) [OF inv] n
    by (intro kernel_inv_queue_step [OF inv h(2) rq])
      (auto simp: blocked_total_upd_other blocked_heads_def)
  then show ?thesis using h(1) n by auto
qed

definition blocked_upd :: "queues \<Rightarrow> ptr list \<Rightarrow> lh \<Rightarrow> ptr list \<Rightarrow> ptr \<Rightarrow> queues" where
  "blocked_upd A rs q qs p = A(readyQueue \<mapsto> map P_LIST (remove1 p rs), q \<mapsto> map P_LIST (qs @ [p]))"

lemma device_queue_blocked: "device_queue a = Some (q, d) \<Longrightarrow> q \<in> set blocked_heads \<and> q \<noteq> readyQueue"
  by (auto simp: device_queue_def blocked_heads_def line_queue_def Let_def split: if_splits)

lemma doio_kernel_inv:
  assumes inv: "kernel_inv s A" and io: "ssi_do_ios s ioptr = Some io"
    and dev: "device_queue (commandAddr io) = Some (q, d)"
    and rs: "procs A readyQueue rs" and qs: "procs A q qs"
    and p: "pcbs s p = Some x" "p \<noteq> current_process s" "P_LIST p \<in> nodes A \<Longrightarrow> p \<in> set rs"
  shows "\<exists>s'. doio ioptr p s = Some s' \<and> kernel_inv s' (blocked_upd A rs q qs p)
    \<and> pcbs s' = (pcbs s)(p \<mapsto> x\<lparr>blockedOnDevice := d\<rparr>)
    \<and> mem s' = (mem s)(commandAddr io := commandValue io)"
proof -
  let ?P = "(pcbs s)(p \<mapsto> x\<lparr>blockedOnDevice := d\<rparr>)"
  let ?s1 = "s\<lparr>pcbs := ?P\<rparr>"
  let ?A1 = "A(readyQueue \<mapsto> map P_LIST (remove1 p rs))"
  have q: "q \<in> set blocked_heads" "q \<noteq> readyQueue" using device_queue_blocked [OF dev] by simp_all
  have pn: "p \<noteq> NULL" using p(1) kernel_invD(2) [OF inv] by (auto simp: pcb_table_ok_def dom_def set_eq_iff)
  have i1: "kernel_inv ?s1 A" using p(1) by (intro kernel_inv_cong [OF _ _ _ _ _ _ _ _ inv]) auto
  from leave_ready [OF i1 rs pn p(3)] obtain r h where
    h: "outProcQ readyQueue p ?s1 = Some (r, ?s1\<lparr>lh_mem := h\<rparr>)" "kernel_inv (?s1\<lparr>lh_mem := h\<rparr>) ?A1"
      "P_LIST p \<notin> nodes ?A1" by blast
  have qs1: "procs ?A1 q qs" using qs q(2) by simp
  from insert_blocked [where A = ?A1 and p = p, OF h(2) q(1) qs1] h(3) p(2) obtain h' where
    h': "insertProcQ q p (?s1\<lparr>lh_mem := h\<rparr>) = Some (?s1\<lparr>lh_mem := h, lh_mem := h'\<rparr>)"
    "kernel_inv (?s1\<lparr>lh_mem := h, lh_mem := h', softBlockCount := softBlockCount s + 1\<rparr>)
       (?A1(q \<mapsto> map P_LIST (qs @ [p])))" by auto
  have "block_on d p (insertProcQ q p) s = Some (?s1\<lparr>lh_mem := h'\<rparr>)"
    using p(1) h(1) h'(1) by (simp add: block_on_def upd_pcb_def)
  then have "block_on d p (insertProcQ q p) (s\<lparr>softBlockCount := softBlockCount s + 1\<rparr>) =
      Some (?s1\<lparr>lh_mem := h', softBlockCount := softBlockCount s + 1\<rparr>)"
    by (simp add: block_on_soft)
  then have "doio ioptr p s = Some (?s1\<lparr>lh_mem := h', softBlockCount := softBlockCount s + 1,
      mem := (mem s)(commandAddr io := commandValue io)\<rparr>)"
    using io dev by (simp add: doio_def doio_lines_device)
  moreover have "kernel_inv (?s1\<lparr>lh_mem := h', softBlockCount := softBlockCount s + 1,
      mem := (mem s)(commandAddr io := commandValue io)\<rparr>) (blocked_upd A rs q qs p)"
    by (rule kernel_inv_cong [OF _ _ _ _ _ _ _ _ h'(2) [folded blocked_upd_def]]) simp_all
  ultimately show ?thesis by auto
qed

section \<open>CREATEPROCESS\<close>

lemma createProcess_full:
  assumes r: "represents s A" and q: "procs A pcbFree_h []"
  shows "createProcess prnt req s = Some (NOPROC, s)"
  using dlist_empty_iff [OF represents_dlist [OF r q]]
  by (simp add: createProcess_def emptyProcQ_def)

text \<open>The PCB a creation leaves, and the queues.\<close>

definition created_pcb :: "ptr \<Rightarrow> u32 \<Rightarrow> ptr \<Rightarrow> state_t \<Rightarrow> pcb_t \<Rightarrow> pcb_t" where
  "created_pcb prnt pid supp st x =
     (fresh_pcb pid x)\<lparr>p_supportStruct := supp, p_s := st, p_parent := prnt\<rparr>"

definition created_queues ::
  "queues \<Rightarrow> ptr \<Rightarrow> ptr list \<Rightarrow> ptr list \<Rightarrow> ptr \<Rightarrow> ptr list \<Rightarrow> queues" where
  "created_queues A p fs rs prnt cs = (alloc_queues A p fs)
     (readyQueue \<mapsto> map P_LIST (rs @ [p]), P_CHILD prnt \<mapsto> map P_SIB (cs @ [p]))"

lemma createProcess_represents:
  assumes r: "represents s A" and f: "procs A pcbFree_h (p # fs)" and rq: "procs A readyQueue rs"
    and ch: "children A prnt cs" and prnt: "prnt \<noteq> p" and x: "pcbs s p = Some x" "p \<noteq> NULL"
    and sib: "P_SIB p \<notin> nodes A"
    and c: "ssi_create_processes s req = Some c" "states s (scp_state c) = Some st"
  shows "\<exists>h. createProcess prnt req s = Some (p, s\<lparr>lh_mem := h,
      pcbs := (pcbs s)(p \<mapsto> created_pcb prnt (next_pid s) (scp_support c) st x),
      next_pid := next_pid s + 1, processCount := processCount s + 1\<rparr>) \<and>
    represents (s\<lparr>lh_mem := h,
      pcbs := (pcbs s)(p \<mapsto> created_pcb prnt (next_pid s) (scp_support c) st x),
      next_pid := next_pid s + 1, processCount := processCount s + 1\<rparr>)
      (created_queues A p fs rs prnt cs)"
proof -
  let ?f = "fresh_pcb (next_pid s) x" and ?A1 = "alloc_queues A p fs"
  from allocPcb_cons [OF r f x(1) sib] obtain h1 where
    h1: "allocPcb s = Some (p, s\<lparr>lh_mem := h1, pcbs := (pcbs s)(p \<mapsto> ?f), next_pid := next_pid s + 1\<rparr>)"
    "represents (s\<lparr>lh_mem := h1, pcbs := (pcbs s)(p \<mapsto> ?f), next_pid := next_pid s + 1\<rparr>) ?A1"
    "P_LIST p \<notin> nodes ?A1" by blast
  let ?g = "?f\<lparr>p_supportStruct := scp_support c, p_s := st\<rparr>"
  let ?s3 = "s\<lparr>lh_mem := h1, next_pid := next_pid s + 1, pcbs := (pcbs s)(p \<mapsto> ?g)\<rparr>"
  have r3: "represents ?s3 ?A1"
    using h1(2) by (subst represents_cong [of _ "s\<lparr>lh_mem := h1, pcbs := (pcbs s)(p \<mapsto> ?f), next_pid := next_pid s + 1\<rparr>"])
      (use x(1) in simp_all)
  have rq3: "procs ?A1 readyQueue rs" using rq by simp
  have x3: "pcbs ?s3 p = Some ?g" by simp
  have rp: "readyQueue \<in> set proc_heads" by (simp add: proc_heads_def)
  from insertProcQ_represents [where A = ?A1, OF r3 rp rq3 x3 h1(3)] obtain h2 where
    h2: "insertProcQ readyQueue p ?s3 = Some (?s3\<lparr>lh_mem := h2\<rparr>)"
    "represents (?s3\<lparr>lh_mem := h2\<rparr>) (?A1(readyQueue \<mapsto> map P_LIST (rs @ [p])))" by blast
  let ?A2 = "?A1(readyQueue \<mapsto> map P_LIST (rs @ [p]))"
  have ch2: "children ?A2 prnt cs" using ch prnt by simp
  have sib2: "P_SIB p \<notin> nodes ?A2"
  proof -
    have "P_SIB p \<notin> nodes (A(pcbFree_h \<mapsto> map P_LIST fs))"
      by (rule not_nodes_upd [OF sib]) auto
    then have "P_SIB p \<notin> nodes ?A1" by (rule not_nodes_upd [OF not_nodes_upd]) auto
    then show ?thesis by (rule not_nodes_upd) auto
  qed
  have x2: "pcbs (?s3\<lparr>lh_mem := h2\<rparr>) p = Some ?g" by simp
  from insertChild_represents [where A = ?A2, OF h2(2) ch2 x2 sib2] obtain h3 where
    h3: "insertChild prnt p (?s3\<lparr>lh_mem := h2\<rparr>) = Some (?s3\<lparr>lh_mem := h2,
        pcbs := (pcbs (?s3\<lparr>lh_mem := h2\<rparr>))(p \<mapsto> ?g\<lparr>p_parent := prnt\<rparr>), lh_mem := h3\<rparr>)"
    "represents (?s3\<lparr>lh_mem := h2, pcbs := (pcbs (?s3\<lparr>lh_mem := h2\<rparr>))(p \<mapsto> ?g\<lparr>p_parent := prnt\<rparr>), lh_mem := h3\<rparr>)
      (?A2(P_CHILD prnt \<mapsto> map P_SIB (cs @ [p])))" by blast
  let ?s' = "s\<lparr>lh_mem := h3,
      pcbs := (pcbs s)(p \<mapsto> created_pcb prnt (next_pid s) (scp_support c) st x),
      next_pid := next_pid s + 1, processCount := processCount s + 1\<rparr>"
  have eq: "?s3\<lparr>lh_mem := h2, pcbs := (pcbs (?s3\<lparr>lh_mem := h2\<rparr>))(p \<mapsto> ?g\<lparr>p_parent := prnt\<rparr>), lh_mem := h3,
      processCount := processCount s + 1\<rparr> = ?s'"
    by (rule sys.equality) (simp_all add: created_pcb_def)
  have "represents ?s' (created_queues A p fs rs prnt cs)"
    using h3(2) unfolding created_queues_def
    by (subst represents_cong [of _ "?s3\<lparr>lh_mem := h2, pcbs := (pcbs (?s3\<lparr>lh_mem := h2\<rparr>))(p \<mapsto> ?g\<lparr>p_parent := prnt\<rparr>), lh_mem := h3\<rparr>"])
      (simp_all add: x(1))
  moreover have "createProcess prnt req s = Some (p, ?s')"
  proof -
    have "\<not> emptyProcQ pcbFree_h s"
      using dlist_empty_iff [OF represents_dlist [OF r f]] by (simp add: emptyProcQ_def)
    then show ?thesis
      using h1(1) h2(1) h3(1) x(2) c eq
      by (simp add: createProcess_def upd_pcb_def)
  qed
  ultimately show ?thesis by blast
qed

lemma created_queues_free:
  assumes "kernel_inv s A" "procs A pcbFree_h (p # fs)"
  shows "free (created_queues A p fs rs prnt cs) q \<longleftrightarrow> free A q \<and> q \<noteq> p"
proof -
  have "distinct (p # fs)"
    by (rule kernel_inv_procs(1) [OF assms(1) _ assms(2)]) (simp add: proc_heads_def)
  then show ?thesis using assms(2) by (auto simp: free_def created_queues_def queue_of_upd)
qed

lemma createProcess_tree_ok:
  assumes inv: "kernel_inv s A" and f: "procs A pcbFree_h (p # fs)" and ch: "children A prnt cs"
    and prnt: "\<not> free A prnt" and s': "pcbs s' = (pcbs s)(p \<mapsto> created_pcb prnt pid supp st x)"
  shows "tree_ok s' (created_queues A p fs rs prnt cs)"
proof -
  let ?B = "created_queues A p fs rs prnt cs"
  have ok: "tree_ok s A" using inv by (simp add: kernel_inv_def)
  have p: "free A p" "P_SIB p \<notin> nodes A" "prnt \<noteq> p"
    using f ok prnt by (auto simp: free_def tree_ok_def)
  have notin: "P_SIB p \<notin> set (queue_of A q)" for q using p(2) queue_of_nodes by blast
  have B: "queue_of ?B (P_CHILD q) = (if q = prnt then map P_SIB (cs @ [p])
      else if q = p then [] else queue_of A (P_CHILD q))" for q
    by (auto simp: created_queues_def queue_of_upd)
  have par: "map_option p_parent (pcbs s' c) = (if c = p then Some prnt else map_option p_parent (pcbs s c))" for c
    by (simp add: s' created_pcb_def)
  have free: "free ?B q \<longleftrightarrow> free A q \<and> q \<noteq> p" for q by (rule created_queues_free [OF inv f])
  have nd: "P_SIB q \<notin> nodes ?B" if "P_SIB q \<notin> nodes A" "q \<noteq> p" for q
  proof -
    have cs: "P_SIB q \<notin> set (map P_SIB (cs @ [p]))" using not_nodesD [OF that(1) ch] that(2) by auto
    have "P_SIB q \<notin> nodes (A(pcbFree_h \<mapsto> map P_LIST fs))" by (rule not_nodes_upd [OF that(1)]) auto
    then have "P_SIB q \<notin> nodes (alloc_queues A p fs)" by (rule not_nodes_upd [OF not_nodes_upd]) auto
    then have "P_SIB q \<notin> nodes ((alloc_queues A p fs)(readyQueue \<mapsto> map P_LIST (rs @ [p])))"
      by (rule not_nodes_upd) auto
    then show ?thesis unfolding created_queues_def by (rule not_nodes_upd) (use cs in auto)
  qed
  have 1: "map_option p_parent (pcbs s' c) = Some q" if "P_SIB c \<in> set (queue_of ?B (P_CHILD q))" for q c
  proof -
    have "c = p \<and> q = prnt \<or> P_SIB c \<in> set (queue_of A (P_CHILD q))"
      using that ch by (auto simp: B split: if_splits)
    then show ?thesis using ok notin [of "P_CHILD q"] by (auto simp: par tree_ok_def)
  qed
  have 2: "P_SIB c \<in> set (queue_of ?B (P_CHILD (p_parent y)))"
    if c: "pcbs s' c = Some y" "\<not> free ?B c" "p_parent y \<noteq> NULL" for c y
  proof (cases "c = p")
    case True
    then show ?thesis using c(1) by (auto simp: s' created_pcb_def B)
  next
    case False
    then have "P_SIB c \<in> set (queue_of A (P_CHILD (p_parent y)))"
      using c ok free by (simp add: s' tree_ok_def)
    moreover have "queue_of A (P_CHILD p) = []" using ok p(1) by (simp add: tree_ok_def)
    ultimately show ?thesis using ch by (auto simp: B)
  qed
  have 3: "queue_of ?B (P_CHILD q) = []" if "free ?B q" for q
    using that prnt ok free by (auto simp: B tree_ok_def)
  show ?thesis
    unfolding tree_ok_def
    using 1 2 3 nd free ok by (auto simp: tree_ok_def created_queues_def)
qed

text \<open>CREATEPROCESS keeps the invariant: the head of the free list becomes a ready process, the last
  child of the requester.\<close>

lemma createProcess_kernel_inv:
  assumes inv: "kernel_inv s A" and f: "procs A pcbFree_h (p # fs)" and rq: "procs A readyQueue rs"
    and ch: "children A prnt cs" and prnt: "\<not> free A prnt"
    and c: "ssi_create_processes s req = Some c" "states s (scp_state c) = Some st"
    and x: "pcbs s p = Some x"
  shows "\<exists>s'. createProcess prnt req s = Some (p, s') \<and> kernel_inv s' (created_queues A p fs rs prnt cs)
    \<and> pcbs s' = (pcbs s)(p \<mapsto> created_pcb prnt (next_pid s) (scp_support c) st x)
    \<and> next_pid s' = next_pid s + 1"
proof -
  let ?B = "created_queues A p fs rs prnt cs"
  have ok: "tree_ok s A" using inv by (simp add: kernel_inv_def)
  have p: "free A p" "P_SIB p \<notin> nodes A" "prnt \<noteq> p"
    using f ok prnt by (auto simp: free_def tree_ok_def)
  have pf: "pcbFree_h \<in> set proc_heads" by (simp add: proc_heads_def)
  have pn: "p \<noteq> NULL" using kernel_inv_procs [OF inv pf f] by simp
  from createProcess_represents [OF kernel_invD(1) [OF inv] f rq ch p(3) x pn p(2) c] obtain h where
    h: "createProcess prnt req s = Some (p, s\<lparr>lh_mem := h,
      pcbs := (pcbs s)(p \<mapsto> created_pcb prnt (next_pid s) (scp_support c) st x),
      next_pid := next_pid s + 1, processCount := processCount s + 1\<rparr>)"
    "represents (s\<lparr>lh_mem := h,
      pcbs := (pcbs s)(p \<mapsto> created_pcb prnt (next_pid s) (scp_support c) st x),
      next_pid := next_pid s + 1, processCount := processCount s + 1\<rparr>) ?B" by blast
  let ?s' = "s\<lparr>lh_mem := h, pcbs := (pcbs s)(p \<mapsto> created_pcb prnt (next_pid s) (scp_support c) st x),
      next_pid := next_pid s + 1, processCount := processCount s + 1\<rparr>"
  have tree: "tree_ok ?s' ?B" by (rule createProcess_tree_ok [OF inv f ch prnt]) simp
  have free: "free ?B q \<longleftrightarrow> free A q \<and> q \<noteq> p" for q by (rule created_queues_free [OF inv f])
  have live: "live_total ?B = Suc (live_total A)"
    using f length_queue_le [OF inv pf] by (simp add: live_total_def created_queues_def queue_of_upd)
  have soft: "blocked_total ?B = blocked_total A"
    by (simp add: blocked_total_def blocked_heads_def created_queues_def queue_of_upd)
  have heads: "?B (P_CHILD q) \<noteq> None \<and> ?B (MSG_INBOX q) \<noteq> None"
    if "pcbs ?s' q \<noteq> None" "\<not> free ?B q" for q
    using that inv x free by (auto simp: created_queues_def kernel_inv_def split: if_splits)
  have cur: "pcbs ?s' (current_process s) \<noteq> None \<and> P_LIST (current_process s) \<notin> nodes ?B"
    if "current_process s \<noteq> NULL"
  proof -
    let ?c = "current_process s"
    note c = kernel_inv_current [OF inv that]
    have "?c \<noteq> p" using not_nodesD [OF c(2) f] by auto
    moreover have "P_LIST ?c \<notin> nodes (A(pcbFree_h \<mapsto> map P_LIST fs))"
      using not_nodesD [OF c(2) f] by (intro not_nodes_upd [OF c(2)]) auto
    then have "P_LIST ?c \<notin> nodes (alloc_queues A p fs)" by (rule not_nodes_upd [OF not_nodes_upd]) auto
    then have "P_LIST ?c \<notin> nodes ((alloc_queues A p fs)(readyQueue \<mapsto> map P_LIST (rs @ [p])))"
      by (rule not_nodes_upd) (use not_nodesD [OF c(2) rq] \<open>?c \<noteq> p\<close> in auto)
    then have "P_LIST ?c \<notin> nodes ?B"
      unfolding created_queues_def by (rule not_nodes_upd) auto
    ultimately show ?thesis using c(1) by simp
  qed
  have "kernel_inv ?s' ?B"
    unfolding kernel_inv_def
    using h(2) tree live soft heads cur kernel_invD(2-5) [OF inv] x
    by (simp add: pcb_table_ok_def msg_table_ok_def del: dom_fun_upd)
  then show ?thesis using h(1) by simp
qed

end
