(* ===== verification/Interrupts.thy ===== *)
theory Interrupts
  imports Ssi_Correct
begin

text \<open>
  \<^verbatim>\<open>src/phase2/interrupts.c\<close>: the processor local timer, the interval timer, the
  devices, and the dispatch by priority.  Every handler ends by giving the processor to somebody:
  its result is a \<^typ>\<open>control\<close>.
\<close>

section \<open>Timers\<close>

definition PLTHandler :: "sys \<Rightarrow> (control \<times> sys) option" where
  "PLTHandler s = do {
     let s1 = setPLT 0 s;
     s2 \<leftarrow> updatePCBTime (current_process s1) s1;
     x \<leftarrow> pcbs s2 (current_process s2);
     let s3 = s2\<lparr>exception_state := stateCpy (p_s x) (exception_state s2)\<rparr>;
     s4 \<leftarrow> insertProcQ readyQueue (current_process s3) s3;
     scheduler s4
   }"

definition exitInterruptHandler :: "sys \<Rightarrow> (control \<times> sys) option" where
  "exitInterruptHandler s = (
     let s1 = s\<lparr>cp0_status := cp0_status s OR TEBITON\<rparr> in
     if current_process s1 \<noteq> NULL then Some (LDST (exception_state s1), s1)
     else scheduler s1)"

text \<open>The \<^verbatim>\<open>while (awknPcb != NULL)\<close> loop.\<close>

partial_function (option) wake_clock :: "ptr \<Rightarrow> sys \<Rightarrow> sys option" where
  "wake_clock awknPcb s =
     (if awknPcb = NULL then Some s
      else do {
        (msg, s1) \<leftarrow> allocMsg s;
        s2 \<leftarrow> upd_msg msg (\<lambda>m. m\<lparr>m_sender := ssi_pcb s1, m_payload := 0\<rparr>) s1;
        s3 \<leftarrow> insertMessage (MSG_INBOX awknPcb) msg s2;
        s4 \<leftarrow> insertProcQ readyQueue awknPcb s3;
        let s5 = s4\<lparr>softBlockCount := softBlockCount s4 - 1\<rparr>;
        (awknPcb', s6) \<leftarrow> removeProcQ pseudoClockQueue s5;
        wake_clock awknPcb' s6
      })"

definition intervalTimerHandler :: "sys \<Rightarrow> (control \<times> sys) option" where
  "intervalTimerHandler s = do {
     let s1 = LDIT PSECOND s;
     (awknPcb, s2) \<leftarrow> removeProcQ pseudoClockQueue s1;
     s3 \<leftarrow> wake_clock awknPcb s2;
     exitInterruptHandler s3
   }"

section \<open>Devices\<close>

definition getDeviceBitmap :: "u32 \<Rightarrow> sys \<Rightarrow> u32" where
  "getDeviceBitmap interruptLine s = interrupt_dev s (interruptLine - 3)"

definition getDeviceNo :: "u32 \<Rightarrow> u32" where
  "getDeviceNo msk =
     (if msk AND DEV7ON \<noteq> 0 then 7
      else if msk AND DEV6ON \<noteq> 0 then 6
      else if msk AND DEV5ON \<noteq> 0 then 5
      else if msk AND DEV4ON \<noteq> 0 then 4
      else if msk AND DEV3ON \<noteq> 0 then 3
      else if msk AND DEV2ON \<noteq> 0 then 2
      else if msk AND DEV1ON \<noteq> 0 then 1
      else if msk AND DEV0ON \<noteq> 0 then 0
      else - 1)"

definition getPcbFromLine :: "u32 \<Rightarrow> u32 \<Rightarrow> sys \<Rightarrow> (ptr \<times> sys) option" where
  "getPcbFromLine interruptLine devNo s =
     (if interruptLine = IL_DISK then unlockPcbDevNo devNo blockedDiskQueue s
      else if interruptLine = IL_FLASH then unlockPcbDevNo devNo blockedFlashQueue s
      else if interruptLine = IL_ETHERNET then unlockPcbDevNo devNo blockedEthernetQueue s
      else if interruptLine = IL_PRINTER then unlockPcbDevNo devNo blockedPrinterQueue s
      else Some (NULL, s))"

definition store :: "u32 \<Rightarrow> u32 \<Rightarrow> sys \<Rightarrow> sys" where
  "store a v s = s\<lparr>mem := (mem s)(a := v)\<rparr>"

text \<open>The branch on the kind of device: the PCB woken, the status word and the state with the
  device acknowledged.  \<open>None\<close> in the last terminal case: \<^verbatim>\<open>outPcb\<close> is read without
  having been written.\<close>

definition device_ack :: "u32 \<Rightarrow> u32 \<Rightarrow> sys \<Rightarrow> (ptr \<times> u32 \<times> sys) option" where
  "device_ack interruptLine devNo s =
     (let reg = DEV_REG_ADDR interruptLine devNo in
      if interruptLine = IL_TERMINAL then
        if mem s (reg + recv_status) AND 0xFF = CHARRECV then do {
          (outPcb, s1) \<leftarrow> unlockPcbDevNo devNo blockedTerminalRecvQueue s;
          Some (outPcb, mem s1 (reg + recv_status), store (reg + recv_command) ACK s1) }
        else if mem s (reg + transm_status) AND 0xFF = OKCHARTRANS then do {
          (outPcb, s1) \<leftarrow> unlockPcbDevNo devNo blockedTerminalTransmQueue s;
          Some (outPcb, mem s1 (reg + transm_status), store (reg + transm_command) ACK s1) }
        else None
      else do {
        (outPcb, s1) \<leftarrow> getPcbFromLine interruptLine devNo s;
        Some (outPcb, mem s1 (reg + dtp_status), store (reg + dtp_command) ACK s1) })"

text \<open>The message that unblocks the process.\<close>

definition wake_device :: "ptr \<Rightarrow> u32 \<Rightarrow> sys \<Rightarrow> sys option" where
  "wake_device outPcb st s = do {
     (msg, s1) \<leftarrow> allocMsg s;
     s2 \<leftarrow> upd_msg msg (\<lambda>m. m\<lparr>m_sender := ssi_pcb s1\<rparr>) s1;
     s3 \<leftarrow> upd_pcb outPcb (\<lambda>x. x\<lparr>p_s := (p_s x)\<lparr>gpr := (gpr (p_s x))(reg_v0 := st)\<rparr>\<rparr>) s2;
     s4 \<leftarrow> upd_msg msg (\<lambda>m. m\<lparr>m_payload := st\<rparr>) s3;
     s5 \<leftarrow> insertMessage (MSG_INBOX outPcb) msg s4;
     s6 \<leftarrow> insertProcQ readyQueue outPcb s5;
     Some (s6\<lparr>softBlockCount := softBlockCount s6 - 1\<rparr>)
   }"

definition deviceHandler :: "u32 \<Rightarrow> sys \<Rightarrow> (control \<times> sys) option" where
  "deviceHandler interruptLine s = do {
     let msk = getDeviceBitmap interruptLine s;
     let devNo = getDeviceNo msk;
     (outPcb, st, s1) \<leftarrow> device_ack interruptLine devNo s;
     s2 \<leftarrow> (if outPcb \<noteq> NULL then wake_device outPcb st s1 else Some s1);
     exitInterruptHandler s2
   }"

section \<open>Dispatch\<close>

definition interruptHandler :: "sys \<Rightarrow> (control \<times> sys) option" where
  "interruptHandler s = (
     let bitmask = cause (exception_state s) AND CAUSE_IP_MASK;
         s1 = s\<lparr>cp0_status := cp0_status s AND NOT TEBITON\<rparr> in
     if LOCALTIMERINT AND bitmask \<noteq> 0 then PLTHandler s1
     else if TIMERINTERRUPT AND bitmask \<noteq> 0 then intervalTimerHandler s1
     else if DISKINTERRUPT AND bitmask \<noteq> 0 then deviceHandler IL_DISK s1
     else if FLASHINTERRUPT AND bitmask \<noteq> 0 then deviceHandler IL_FLASH s1
     else if NETWORKINTERRUPT AND bitmask \<noteq> 0 then deviceHandler IL_ETHERNET s1
     else if PRINTINTERRUPT AND bitmask \<noteq> 0 then deviceHandler IL_PRINTER s1
     else if TERMINTERRUPT AND bitmask \<noteq> 0 then deviceHandler IL_TERMINAL s1
     else Some (RETURN, s1))"

end
