(* ===== verification/Exceptions.thy ===== *)
theory Exceptions
  imports Interrupts
begin

text \<open>
  \<^verbatim>\<open>src/phase2/exceptions.c\<close>: message passing, the system call handler, the
  pass-up-or-die rule and the exception dispatcher.
\<close>

section \<open>Registers\<close>

abbreviation reg :: "gpr_reg \<Rightarrow> sys \<Rightarrow> u32" where
  "reg r s \<equiv> gpr (exception_state s) r"

definition set_exc_reg :: "gpr_reg \<Rightarrow> u32 \<Rightarrow> sys \<Rightarrow> sys" where
  "set_exc_reg r v s =
     s\<lparr>exception_state := (exception_state s)\<lparr>gpr := (gpr (exception_state s))(r := v)\<rparr>\<rparr>"

text \<open>\<^verbatim>\<open>EXCEPTION_STATE->pc_epc += WORDLEN\<close>.\<close>

definition advance_pc :: "sys \<Rightarrow> sys" where
  "advance_pc s = s\<lparr>exception_state :=
     (exception_state s)\<lparr>pc_epc := pc_epc (exception_state s) + WORDLEN\<rparr>\<rparr>"

section \<open>send and recv\<close>

definition send :: "ptr \<Rightarrow> ptr \<Rightarrow> u32 \<Rightarrow> sys \<Rightarrow> (u32 \<times> sys) option" where
  "send sender dest payload s = do {
     (msg, s1) \<leftarrow> allocMsg s;
     if msg = NULL then Some (MSGNOGOOD, s1)
     else do {
       s2 \<leftarrow> upd_msg msg (\<lambda>m. m\<lparr>m_sender := sender, m_payload := payload\<rparr>) s1;
       if searchProcQ dest pcbFree_h s2 then Some (DEST_NOT_EXIST, s2)
       else do {
         s3 \<leftarrow> (if dest \<noteq> current_process s2 \<and> \<not> searchProcQ dest readyQueue s2
               then insertProcQ readyQueue dest s2 else Some s2);
         s4 \<leftarrow> insertMessage (MSG_INBOX dest) msg s3;
         Some (0, s4)
       }
     }
   }"

definition recv :: "ptr \<Rightarrow> ptr \<Rightarrow> sys \<Rightarrow> (control \<times> sys) option" where
  "recv sender payload s = do {
     _ \<leftarrow> pcbs s (current_process s);
     (msg, s1) \<leftarrow> popMessage (MSG_INBOX (current_process s))
                   (if sender = ANYMESSAGE then NULL else sender) s;
     if msg = NULL then do {
       s2 \<leftarrow> upd_pcb (current_process s1) (\<lambda>x. x\<lparr>p_s := stateCpy (exception_state s1) (p_s x)\<rparr>) s1;
       s3 \<leftarrow> updatePCBTime (current_process s2) s2;
       scheduler s3
     }
     else do {
       m \<leftarrow> msgs s1 msg;
       let s2 = set_exc_reg reg_v0 (m_sender m) s1;
       let s3 = (if payload \<noteq> 0 then store payload (m_payload m) s2 else s2);
       s4 \<leftarrow> freeMsg msg s3;
       Some (RETURN, s4)
     }
   }"

section \<open>passUpOrDie\<close>

definition upd_support :: "ptr \<Rightarrow> (support_t \<Rightarrow> support_t) \<Rightarrow> sys \<Rightarrow> sys option" where
  "upd_support p f s = do { x \<leftarrow> supports s p; Some (s\<lparr>supports := (supports s)(p \<mapsto> f x)\<rparr>) }"

definition passUpOrDie :: "nat \<Rightarrow> sys \<Rightarrow> (control \<times> sys) option" where
  "passUpOrDie excType s = do {
     x \<leftarrow> pcbs s (current_process s);
     if p_supportStruct x = NULL then do {
       s1 \<leftarrow> terminateProcess (current_process s) s;
       scheduler s1
     }
     else do {
       s1 \<leftarrow> upd_support (p_supportStruct x) (\<lambda>u. u\<lparr>sup_exceptState := (sup_exceptState u)
               (excType := stateCpy (exception_state s) (sup_exceptState u excType))\<rparr>) s;
       u \<leftarrow> supports s1 (p_supportStruct x);
       let cxt = sup_exceptContext u excType;
       Some (LDCXT (stackPtr cxt) (c_status cxt) (c_pc cxt), s1)
     }
   }"

section \<open>The handlers\<close>

definition syscallHandler :: "sys \<Rightarrow> (control \<times> sys) option" where
  "syscallHandler s =
     (if drop_bit 31 (push_bit 30 (status (exception_state s))) \<noteq> 0 then
        passUpOrDie GENERALEXCEPT (s\<lparr>exception_state := (exception_state s)\<lparr>cause :=
          (cause (exception_state s) AND CLEAREXECCODE) OR push_bit CAUSESHIFT PRIVINSTR\<rparr>\<rparr>)
      else
        let syscallCode = reg reg_a0 s in
        if syscallCode = SENDMESSAGE then do {
          (r, s1) \<leftarrow> send (current_process s) (reg reg_a1 s) (reg reg_a2 s) s;
          let s2 = advance_pc (set_exc_reg reg_v0 r s1);
          Some (LDST (exception_state s2), s2)
        }
        else if syscallCode = RECEIVEMESSAGE then do {
          (c, s1) \<leftarrow> recv (reg reg_a1 s) (reg reg_a2 s) s;
          if c = RETURN then
            let s2 = advance_pc s1 in Some (LDST (exception_state s2), s2)
          else Some (c, s1)
        }
        else passUpOrDie GENERALEXCEPT s)"

definition exceptionHandler :: "sys \<Rightarrow> (control \<times> sys) option" where
  "exceptionHandler s = (
     let excCode = drop_bit CAUSESHIFT (cp0_cause s AND GETEXECCODE) in
     if excCode = IOINTERRUPTS then interruptHandler s
     else if 1 \<le> excCode \<and> excCode \<le> TLBINVLDS then passUpOrDie PGFAULTEXCEPT s
     else if STARTPROGTRAPEXC \<le> excCode \<and> excCode \<le> STOPPROGTRAPEXC then passUpOrDie GENERALEXCEPT s
     else if excCode = SYSEXCEPTION then syscallHandler s
     else if BREAKEXCEPTION \<le> excCode \<and> excCode \<le> ENDPROGTRAPEXC then passUpOrDie GENERALEXCEPT s
     else Some (RETURN, s))"

end
