(* ===== verification/Initial.thy ===== *)
theory Initial
  imports Exceptions
begin

text \<open>
  \<^verbatim>\<open>src/phase2/initial.c\<close>: the entry point of the nucleus and the TLB refill
  handler.  The addresses the linker gives to the functions are a parameter, and so is the uMPS3
  macro that reads the page number out of an entryHI value.
\<close>

datatype entry_point = E_uTLB_RefillHandler | E_exceptionHandler | E_SSI | E_test | E_mutex | E_SST
  | E_pager | E_supExceptionHandler | E_printer nat | E_terminal nat

section \<open>main\<close>

definition set_status_sp_pc :: "ptr \<Rightarrow> u32 \<Rightarrow> u32 \<Rightarrow> u32 \<Rightarrow> sys \<Rightarrow> sys option" where
  "set_status_sp_pc p st sp pc s = upd_pcb p (\<lambda>x. x\<lparr>p_s := (p_s x)\<lparr>status := st,
     gpr := (gpr (p_s x))(reg_sp := sp, reg_t9 := pc), pc_epc := pc\<rparr>\<rparr>) s"

definition RAMTOP :: "sys \<Rightarrow> u32" where
  "RAMTOP s = mem s RAMBASEADDR + mem s RAMBASESIZE"

definition kernel_queues_init :: "sys \<Rightarrow> sys" where
  "kernel_queues_init s = fold mkEmptyProcQ
     [readyQueue, blockedDiskQueue, blockedFlashQueue, blockedEthernetQueue, blockedPrinterQueue,
      blockedTerminalTransmQueue, blockedTerminalRecvQueue, pseudoClockQueue] s"

text \<open>Everything up to the call of the scheduler.\<close>

definition main_init :: "(entry_point \<Rightarrow> u32) \<Rightarrow> sys \<Rightarrow> sys option" where
  "main_init code s = do {
     let s1 = store PASSUPVECTOR (code E_uTLB_RefillHandler) s;
     let s2 = store (PASSUPVECTOR + 4) KERNELSTACK s1;
     let s3 = store (PASSUPVECTOR + 8) (code E_exceptionHandler) s2;
     let s4 = store (PASSUPVECTOR + 12) KERNELSTACK s3;
     let s5 = initMsgs (initPcbs s4);
     let s6 = s5\<lparr>processCount := 0, softBlockCount := 0, current_process := NULL\<rparr>;
     let s7 = kernel_queues_init s6;
     let s8 = LDIT PSECOND s7;
     let s9 = s8\<lparr>ssi_pcb := NULL\<rparr>;
     (p, s10) \<leftarrow> allocPcb s9;
     let s11 = s10\<lparr>ssi_pcb := p\<rparr>;
     s12 \<leftarrow> set_status_sp_pc p (ALLOFF OR IEPON OR IMON) (RAMTOP s11) (code E_SSI) s11;
     s13 \<leftarrow> insertProcQ readyQueue p s12;
     let s14 = s13\<lparr>processCount := processCount s13 + 1\<rparr>;
     let s15 = s14\<lparr>new_pcb := NULL\<rparr>;
     (q, s16) \<leftarrow> allocPcb s15;
     let s17 = s16\<lparr>new_pcb := q\<rparr>;
     s18 \<leftarrow> set_status_sp_pc q (ALLOFF OR IEPON OR IMON OR TEBITON) (RAMTOP s17 - 2 * PAGESIZE)
             (code E_test) s17;
     s19 \<leftarrow> insertProcQ readyQueue q s18;
     Some (s19\<lparr>processCount := processCount s19 + 1\<rparr>)
   }"

definition main :: "(entry_point \<Rightarrow> u32) \<Rightarrow> sys \<Rightarrow> (control \<times> sys) option" where
  "main code s = do { s1 \<leftarrow> main_init code s; scheduler s1 }"

section \<open>The TLB refill handler\<close>

text \<open>\<^verbatim>\<open>TLBWR\<close>: the pair of entry registers goes to the slot the hardware picks.\<close>

definition TLBWR :: "sys \<Rightarrow> sys" where
  "TLBWR s = s\<lparr>tlb := (tlb s)(tlb_random s := (cp0_entryhi s, cp0_entrylo s))\<rparr>"

text \<open>\<^verbatim>\<open>int p = ...; if (p > MAXPAGES - 1) p = MAXPAGES - 1\<close>, as the pager computes it too;
  a negative number would be an access out of bounds.\<close>

definition page_index :: "(u32 \<Rightarrow> u32) \<Rightarrow> u32 \<Rightarrow> nat option" where
  "page_index get_vpn entryhi = (
     let p = sint (get_vpn entryhi);
         p' = (if p > int MAXPAGES - 1 then int MAXPAGES - 1 else p) in
     if p' < 0 then None else Some (nat p'))"

definition uTLB_RefillHandler :: "(u32 \<Rightarrow> u32) \<Rightarrow> sys \<Rightarrow> (control \<times> sys) option" where
  "uTLB_RefillHandler get_vpn s = do {
     let excState = exception_state s;
     p \<leftarrow> page_index get_vpn (entry_hi excState);
     x \<leftarrow> pcbs s (current_process s);
     u \<leftarrow> supports s (p_supportStruct x);
     let s1 = s\<lparr>cp0_entryhi := pte_entryHI (sup_privatePgTbl u p)\<rparr>;
     let s2 = s1\<lparr>cp0_entrylo := pte_entryLO (sup_privatePgTbl u p)\<rparr>;
     let s3 = TLBWR s2;
     Some (LDST (exception_state s3), s3)
   }"

end
