(* ===== verification/Ipc_Correct.thy ===== *)
theory Ipc_Correct
  imports Initial
begin

text \<open>
  Message passing: what \<open>send\<close> and \<open>recv\<close> do on each of their branches, in terms of the abstract
  queues, and that they keep the invariant of the nucleus.
\<close>

section \<open>Steps on message queues\<close>

lemma proc_head_not_msg: "q \<in> set proc_heads \<Longrightarrow> \<not> is_msg_head q"
  by (auto simp: proc_heads_def blocked_heads_def)

lemma child_head_not_msg: "is_child_head q \<Longrightarrow> \<not> is_msg_head q"
  by (cases q) auto

lemma kernel_inv_msgs:
  assumes inv: "kernel_inv s A" and rep: "represents s' B"
    and same: "\<And>q. \<not> is_msg_head q \<Longrightarrow> B q = A q" and dom: "\<And>q. A q \<noteq> None \<Longrightarrow> B q \<noteq> None"
    and f: "\<And>p. map_option p_parent (pcbs s' p) = map_option p_parent (pcbs s p)"
      "dom (msgs s') = dom (msgs s)" "pcbTable s' = pcbTable s" "msgTable s' = msgTable s"
      "softBlockCount s' = softBlockCount s" "processCount s' = processCount s"
      "current_process s' = current_process s \<or> current_process s' = NULL"
  shows "kernel_inv s' B"
proof -
  let ?t = "s'\<lparr>lh_mem := lh_mem s\<rparr>"
  have t: "kernel_inv ?t A" by (rule kernel_inv_cong [OF _ _ _ _ _ _ _ _ inv]) (use f in simp_all)
  have q: "queue_of B q = queue_of A q" if "\<not> is_msg_head q" for q
    using same [OF that] by (simp add: queue_of_def)
  have n: "P_LIST p \<notin> nodes A \<Longrightarrow> P_LIST p \<notin> nodes B" "P_SIB p \<notin> nodes A \<Longrightarrow> P_SIB p \<notin> nodes B" for p
  proof -
    have *: "l \<notin> nodes B" if l: "l \<notin> nodes A" "\<not> is_msg_head l" "\<And>q. node_of q l \<Longrightarrow> \<not> is_msg_head q" for l
    proof
      assume "l \<in> nodes B"
      then obtain q xs where "B q = Some xs" "l = q \<or> l \<in> set xs" by (auto simp: nodes_def)
      then have "\<not> is_msg_head q" "A q = Some xs \<longrightarrow> l \<in> nodes A"
        using l(2,3) represents_node [OF rep] by (auto simp: nodes_def)
      then show False using same l(1) \<open>B q = Some xs\<close> by auto
    qed
    show "P_LIST p \<notin> nodes A \<Longrightarrow> P_LIST p \<notin> nodes B" by (rule *) (auto dest: proc_head_not_msg child_head_not_msg)
    show "P_SIB p \<notin> nodes A \<Longrightarrow> P_SIB p \<notin> nodes B" by (rule *) (auto dest: proc_head_not_msg child_head_not_msg)
  qed
  have "blocked_total B = blocked_total A" by (simp add: blocked_total_def blocked_heads_def q)
  moreover have "live_total B = live_total A" by (simp add: live_total_def q)
  moreover have free: "free B = free A" by (rule ext) (simp add: free_def q)
  moreover have "tree_ok s' B"
    using t n same [of "P_SIB _"] unfolding kernel_inv_def tree_ok_def free by (simp add: q)
  moreover have "A (P_CHILD p) \<noteq> None \<and> A (MSG_INBOX p) \<noteq> None \<Longrightarrow> B (P_CHILD p) \<noteq> None \<and> B (MSG_INBOX p) \<noteq> None" for p
    using dom by blast
  ultimately show ?thesis
    using t rep n unfolding kernel_inv_def
    by (simp add: pcb_table_ok_def msg_table_ok_def del: not_None_eq)
qed

section \<open>send\<close>

lemma send_no_message:
  "represents s A \<Longrightarrow> inbox A msgFree_h [] \<Longrightarrow> send sndr dest payload s = Some (MSGNOGOOD, s)"
  by (simp add: send_def allocMsg_nil)

lemma allocMsg_kernel_inv:
  assumes inv: "kernel_inv s A" and f: "inbox A msgFree_h (m # ms)"
  shows "\<exists>h. allocMsg s = Some (m, s\<lparr>lh_mem := h, msgs := (msgs s)(m \<mapsto> empty_msg)\<rparr>) \<and> m \<noteq> NULL
    \<and> kernel_inv (s\<lparr>lh_mem := h, msgs := (msgs s)(m \<mapsto> y)\<rparr>) (A(msgFree_h \<mapsto> map M_LIST ms))
    \<and> M_LIST m \<notin> nodes (A(msgFree_h \<mapsto> map M_LIST ms))"
proof -
  note r = kernel_invD(1) [OF inv]
  let ?B = "A(msgFree_h \<mapsto> map M_LIST ms)"
  have "lh_valid s (M_LIST m)" using represents_node [OF r f, of "M_LIST m"] by simp
  then obtain x where x: "msgs s m = Some x" by auto
  have "m \<noteq> NULL" using x kernel_invD(3) [OF inv] by (auto simp: msg_table_ok_def dom_def set_eq_iff)
  from allocMsg_cons [OF r f x] obtain h where
    h: "allocMsg s = Some (m, s\<lparr>lh_mem := h, msgs := (msgs s)(m \<mapsto> empty_msg)\<rparr>)"
    "represents (s\<lparr>lh_mem := h, msgs := (msgs s)(m \<mapsto> empty_msg)\<rparr>) ?B" "M_LIST m \<notin> nodes ?B" by blast
  have "represents (s\<lparr>lh_mem := h, msgs := (msgs s)(m \<mapsto> y)\<rparr>) ?B"
    using h(2) x
    by (subst represents_cong [of _ "s\<lparr>lh_mem := h, msgs := (msgs s)(m \<mapsto> empty_msg)\<rparr>"]) (simp_all del: dom_fun_upd)
  then have "kernel_inv (s\<lparr>lh_mem := h, msgs := (msgs s)(m \<mapsto> y)\<rparr>) ?B"
    by (rule kernel_inv_msgs [OF inv]) (use x in \<open>auto simp del: dom_fun_upd\<close>)
  with h \<open>m \<noteq> NULL\<close> show ?thesis by blast
qed

lemma insertMessage_kernel_inv:
  assumes inv: "kernel_inv s A" and q: "inbox A (MSG_INBOX p) ms" and m: "msgs s m = Some x"
    and new: "M_LIST m \<notin> nodes A"
  shows "\<exists>h. insertMessage (MSG_INBOX p) m s = Some (s\<lparr>lh_mem := h\<rparr>)
    \<and> kernel_inv (s\<lparr>lh_mem := h\<rparr>) (A(MSG_INBOX p \<mapsto> map M_LIST (ms @ [m])))"
proof -
  from insertMessage_represents [OF kernel_invD(1) [OF inv] _ q m new] obtain h where
    h: "insertMessage (MSG_INBOX p) m s = Some (s\<lparr>lh_mem := h\<rparr>)"
    "represents (s\<lparr>lh_mem := h\<rparr>) (A(MSG_INBOX p \<mapsto> map M_LIST (ms @ [m])))" by auto
  have "kernel_inv (s\<lparr>lh_mem := h\<rparr>) (A(MSG_INBOX p \<mapsto> map M_LIST (ms @ [m])))"
    by (rule kernel_inv_msgs [OF inv h(2)]) auto
  with h(1) show ?thesis by blast
qed

text \<open>Making a process ready that is in no queue.\<close>

lemma insert_ready:
  assumes inv: "kernel_inv s A" and q: "procs A readyQueue rs"
    and p: "pcbs s p = Some x" "P_LIST p \<notin> nodes A"
    and c: "c = NULL \<or> c = current_process s \<and> c \<noteq> p"
  shows "\<exists>h. insertProcQ readyQueue p s = Some (s\<lparr>lh_mem := h\<rparr>) \<and>
    kernel_inv (s\<lparr>lh_mem := h, current_process := c\<rparr>) (A(readyQueue \<mapsto> map P_LIST (rs @ [p])))"
proof -
  let ?A = "A(readyQueue \<mapsto> map P_LIST (rs @ [p]))"
  have rq: "readyQueue \<in> set proc_heads" "readyQueue \<noteq> pcbFree_h" by (simp_all add: proc_heads_def)
  from insertProcQ_represents [OF kernel_invD(1) [OF inv] rq(1) q p] obtain h where
    h: "insertProcQ readyQueue p s = Some (s\<lparr>lh_mem := h\<rparr>)" "represents (s\<lparr>lh_mem := h\<rparr>) ?A" by blast
  have n: "nodes ?A = insert (P_LIST p) (nodes A)"
    by (rule nodes_insert [where A = A and xs = "map P_LIST rs"]) (use q in auto)
  have "kernel_inv (s\<lparr>lh_mem := h, current_process := c, softBlockCount := softBlockCount s\<rparr>) ?A"
  proof (rule kernel_inv_queue_step [OF inv h(2) rq])
    show "c = NULL \<or> pcbs s c \<noteq> None \<and> P_LIST c \<notin> nodes ?A"
      using c kernel_inv_current [OF inv] unfolding n by auto
    show "softBlockCount s = of_nat (blocked_total ?A)"
      using kernel_invD(4) [OF inv] by (simp add: blocked_total_upd_other blocked_heads_def)
  qed auto
  with h(1) show ?thesis by auto
qed

text \<open>Where a message to \<open>dest\<close> goes, and who becomes ready.\<close>

definition woken :: "ptr \<Rightarrow> ptr list \<Rightarrow> ptr \<Rightarrow> ptr list" where
  "woken cur rs dest = (if dest = cur \<or> dest \<in> set rs then rs else rs @ [dest])"

definition sent_queues :: "queues \<Rightarrow> ptr list \<Rightarrow> ptr list \<Rightarrow> ptr \<Rightarrow> ptr list \<Rightarrow> queues" where
  "sent_queues A ms rs dest inb =
     A(msgFree_h \<mapsto> map M_LIST ms, readyQueue \<mapsto> map P_LIST rs, MSG_INBOX dest \<mapsto> map M_LIST inb)"

lemma send_kernel_inv:
  assumes inv: "kernel_inv s A" and f: "inbox A msgFree_h (m # ms)" and rq: "procs A readyQueue rs"
    and d: "pcbs s dest = Some x" "\<not> free A dest" "inbox A (MSG_INBOX dest) inb"
    and w: "dest = current_process s \<or> dest \<in> set rs \<or> P_LIST dest \<notin> nodes A"
  shows "\<exists>h. send sndr dest payload s = Some (0, s\<lparr>msgs := (msgs s)(m \<mapsto> \<lparr>m_sender = sndr, m_payload = payload\<rparr>), lh_mem := h\<rparr>)
    \<and> kernel_inv (s\<lparr>msgs := (msgs s)(m \<mapsto> \<lparr>m_sender = sndr, m_payload = payload\<rparr>), lh_mem := h\<rparr>)
        (sent_queues A ms (woken (current_process s) rs dest) dest (inb @ [m]))"
proof -
  let ?y = "\<lparr>m_sender = sndr, m_payload = payload\<rparr>"
  let ?A1 = "A(msgFree_h \<mapsto> map M_LIST ms)"
  from allocMsg_kernel_inv [OF inv f, of ?y] obtain h1 where
    h1: "allocMsg s = Some (m, s\<lparr>lh_mem := h1, msgs := (msgs s)(m \<mapsto> empty_msg)\<rparr>)" "m \<noteq> NULL"
    "kernel_inv (s\<lparr>lh_mem := h1, msgs := (msgs s)(m \<mapsto> ?y)\<rparr>) ?A1" "M_LIST m \<notin> nodes ?A1" by blast
  let ?s2 = "s\<lparr>lh_mem := h1, msgs := (msgs s)(m \<mapsto> ?y)\<rparr>"
  note r2 = kernel_invD(1,2) [OF h1(3)]
  have pf: "pcbFree_h \<in> set proc_heads" "readyQueue \<in> set proc_heads" by (simp_all add: proc_heads_def)
  from represents_proc_queue [OF kernel_invD(1) [OF inv] pf(1)] obtain fs where fs: "procs A pcbFree_h fs" .
  have notfree: "\<not> searchProcQ dest pcbFree_h ?s2"
    using searchProcQ_represents [where A = ?A1, OF r2(1) pf(1) _ r2(2), of fs dest] fs d(2)
    by (auto simp: free_def)
  have rq1: "procs ?A1 readyQueue rs" using rq by simp
  have ready: "searchProcQ dest readyQueue ?s2 \<longleftrightarrow> dest \<in> set rs"
    by (rule searchProcQ_represents [where A = ?A1, OF r2(1) pf(2) rq1 r2(2)])
  let ?rs = "woken (current_process s) rs dest"
  have "\<exists>h. (if dest \<noteq> current_process ?s2 \<and> \<not> searchProcQ dest readyQueue ?s2
        then insertProcQ readyQueue dest ?s2 else Some ?s2) = Some (?s2\<lparr>lh_mem := h\<rparr>)
      \<and> kernel_inv (?s2\<lparr>lh_mem := h\<rparr>) (?A1(readyQueue \<mapsto> map P_LIST ?rs))"
  proof (cases "dest = current_process s \<or> dest \<in> set rs")
    case True
    then have "?A1(readyQueue \<mapsto> map P_LIST ?rs) = ?A1" using rq1 by (simp add: woken_def fun_upd_idem)
    moreover have "?s2\<lparr>lh_mem := h1\<rparr> = ?s2" by simp
    moreover have "\<not> (dest \<noteq> current_process ?s2 \<and> \<not> searchProcQ dest readyQueue ?s2)"
      using True ready by simp
    ultimately show ?thesis using h1(3) by (intro exI [of _ h1]) (simp only: if_False simp_thms)
  next
    case False
    have "P_LIST dest \<notin> nodes ?A1" using w False by (intro not_nodes_upd) auto
    from insert_ready [where A = ?A1, OF h1(3) rq1 _ this, of x "current_process s"] d(1) False
    show ?thesis using ready by (auto simp: woken_def)
  qed
  then obtain h2 where h2: "(if dest \<noteq> current_process ?s2 \<and> \<not> searchProcQ dest readyQueue ?s2
        then insertProcQ readyQueue dest ?s2 else Some ?s2) = Some (?s2\<lparr>lh_mem := h2\<rparr>)"
      "kernel_inv (?s2\<lparr>lh_mem := h2\<rparr>) (?A1(readyQueue \<mapsto> map P_LIST ?rs))" by blast
  let ?A2 = "?A1(readyQueue \<mapsto> map P_LIST ?rs)"
  have inb: "inbox ?A2 (MSG_INBOX dest) inb" using d(3) by simp
  have m2: "M_LIST m \<notin> nodes ?A2" by (rule not_nodes_upd [OF h1(4)]) auto
  from insertMessage_kernel_inv [where A = ?A2, OF h2(2) inb _ m2, of ?y] obtain h3 where
    h3: "insertMessage (MSG_INBOX dest) m (?s2\<lparr>lh_mem := h2\<rparr>) = Some (?s2\<lparr>lh_mem := h2, lh_mem := h3\<rparr>)"
    "kernel_inv (?s2\<lparr>lh_mem := h2, lh_mem := h3\<rparr>) (?A2(MSG_INBOX dest \<mapsto> map M_LIST (inb @ [m])))" by auto
  have "send sndr dest payload s = Some (0, ?s2\<lparr>lh_mem := h2, lh_mem := h3\<rparr>)"
  proof (cases "dest \<noteq> current_process ?s2 \<and> \<not> searchProcQ dest readyQueue ?s2")
    case True
    then show ?thesis
      using h1(1,2) notfree h2(1) h3(1) by (simp add: send_def upd_msg_def empty_msg_def)
  next
    case False
    then have "?s2\<lparr>lh_mem := h2\<rparr> = ?s2" using h2(1) by (simp only: if_False option.inject)
    then have "insertMessage (MSG_INBOX dest) m ?s2 = Some (?s2\<lparr>lh_mem := h2, lh_mem := h3\<rparr>)"
      using h3(1) by (simp only:)
    then show ?thesis
      using h1(1,2) notfree False by (auto simp: send_def upd_msg_def empty_msg_def)
  qed
  then show ?thesis using h3(2) by (auto simp: sent_queues_def)
qed

text \<open>A dead destination: the message has left the pool and is in no inbox.\<close>

lemma send_dead:
  assumes inv: "kernel_inv s A" and f: "inbox A msgFree_h (m # ms)" and d: "free A dest"
  shows "\<exists>s'. send sndr dest payload s = Some (DEST_NOT_EXIST, s')
    \<and> kernel_inv s' (A(msgFree_h \<mapsto> map M_LIST ms)) \<and> M_LIST m \<notin> nodes (A(msgFree_h \<mapsto> map M_LIST ms))
    \<and> s' = s\<lparr>lh_mem := lh_mem s', msgs := (msgs s)(m \<mapsto> \<lparr>m_sender = sndr, m_payload = payload\<rparr>)\<rparr>"
proof -
  let ?y = "\<lparr>m_sender = sndr, m_payload = payload\<rparr>"
  let ?A1 = "A(msgFree_h \<mapsto> map M_LIST ms)"
  from allocMsg_kernel_inv [OF inv f, of ?y] obtain h1 where
    h1: "allocMsg s = Some (m, s\<lparr>lh_mem := h1, msgs := (msgs s)(m \<mapsto> empty_msg)\<rparr>)" "m \<noteq> NULL"
    "kernel_inv (s\<lparr>lh_mem := h1, msgs := (msgs s)(m \<mapsto> ?y)\<rparr>) ?A1" "M_LIST m \<notin> nodes ?A1" by blast
  have pf: "pcbFree_h \<in> set proc_heads" by (simp add: proc_heads_def)
  from represents_proc_queue [OF kernel_invD(1) [OF inv] pf] obtain fs where fs: "procs A pcbFree_h fs" .
  have "searchProcQ dest pcbFree_h (s\<lparr>lh_mem := h1, msgs := (msgs s)(m \<mapsto> ?y)\<rparr>)"
    using searchProcQ_represents [where A = ?A1, OF kernel_invD(1) [OF h1(3)] pf _ kernel_invD(2) [OF h1(3)], of fs dest]
      fs d by (auto simp: free_def)
  then show ?thesis using h1 by (simp add: send_def upd_msg_def empty_msg_def)
qed

section \<open>recv\<close>

text \<open>The message of the inbox a receive selects: the first one, or the first one from a process with
  the pid of the process named.\<close>

definition selects :: "sys \<Rightarrow> ptr \<Rightarrow> ptr list \<Rightarrow> ptr option" where
  "selects s sender inb =
     (if sender = ANYMESSAGE then (case inb of [] \<Rightarrow> None | m # _ \<Rightarrow> Some m)
      else find (from_pid s (p_pid (the (pcbs s sender)))) inb)"

definition receivable :: "sys \<Rightarrow> ptr \<Rightarrow> ptr list \<Rightarrow> bool" where
  "receivable s sender inb \<longleftrightarrow> sender = ANYMESSAGE \<or> pcbs s sender \<noteq> None \<and> senders_ok s inb"

lemma popMessage_selects:
  assumes r: "represents s A" and q: "is_msg_head q" "inbox A q inb" and ok: "receivable s sender inb"
  shows "popMessage q (if sender = ANYMESSAGE then NULL else sender) s =
    (case selects s sender inb of None \<Rightarrow> Some (NULL, s)
     | Some m \<Rightarrow> Some (m, s\<lparr>lh_mem := list_del (M_LIST m) (lh_mem s)\<rparr>))"
proof (cases "sender = ANYMESSAGE")
  case True
  then show ?thesis
    using popMessage_nil [where A = A, OF r, of q NULL] popMessage_any [where A = A, OF r q(1)] q(2)
    by (cases inb) (simp_all add: selects_def)
next
  case False
  then obtain x where "pcbs s sender = Some x" using ok by (auto simp: receivable_def)
  then show ?thesis
    using popMessage_from [where A = A, OF r q(1) q(2), of sender x] False ok
    by (simp add: selects_def receivable_def)
qed

lemma selects_mem: "selects s sender inb = Some m \<Longrightarrow> m \<in> set inb"
  by (auto simp: selects_def dest: find_Some_split split: if_splits list.splits)

text \<open>What a process that gives the processor up leaves behind.\<close>

definition suspended :: "pcb_t \<Rightarrow> sys \<Rightarrow> sys" where
  "suspended x s = s\<lparr>clock_reads := Suc (clock_reads s),
     pcbs := (pcbs s)(current_process s \<mapsto> x\<lparr>p_s := exception_state s,
       p_time := p_time x + (clock s (clock_reads s) - startTOD s)\<rparr>),
     startTOD := clock s (clock_reads s)\<rparr>"

lemma suspended_kernel_inv:
  "kernel_inv s A \<Longrightarrow> pcbs s (current_process s) = Some x \<Longrightarrow> kernel_inv (suspended x s) A"
  by (rule kernel_inv_cong [of "suspended x s" s]) (auto simp: suspended_def)

lemma recv_blocks:
  assumes inv: "kernel_inv s A" and x: "pcbs s (current_process s) = Some x"
    and q: "inbox A (MSG_INBOX (current_process s)) inb" and ok: "receivable s sender inb"
    and none: "selects s sender inb = None"
  shows "recv sender payload s = scheduler (suspended x s)"
  using popMessage_selects [where A = A, OF kernel_invD(1) [OF inv] _ q ok] none x
  by (simp add: recv_def upd_pcb_def updatePCBTime_def getTOD_def suspended_def Let_def)

definition received :: "ptr \<Rightarrow> msg_t \<Rightarrow> list_head \<Rightarrow> sys \<Rightarrow> sys" where
  "received payload m h s = (let t = set_exc_reg reg_v0 (m_sender m) s in
     (if payload \<noteq> 0 then store payload (m_payload m) t else t)\<lparr>lh_mem := h\<rparr>)"

lemma recv_takes:
  assumes inv: "kernel_inv s A" and x: "pcbs s (current_process s) = Some x"
    and q: "inbox A (MSG_INBOX (current_process s)) inb" and ok: "receivable s sender inb"
    and sel: "selects s sender inb = Some m" and f: "inbox A msgFree_h fs" and y: "msgs s m = Some y"
  shows "\<exists>h. recv sender payload s = Some (RETURN, received payload y h s) \<and>
    kernel_inv (received payload y h s)
      (A(MSG_INBOX (current_process s) \<mapsto> map M_LIST (remove1 m inb), msgFree_h \<mapsto> map M_LIST (fs @ [m])))"
proof -
  let ?q = "MSG_INBOX (current_process s)"
  let ?B = "A(?q \<mapsto> map M_LIST (remove1 m inb), msgFree_h \<mapsto> map M_LIST (fs @ [m]))"
  let ?h1 = "list_del (M_LIST m) (lh_mem s)"
  note r = kernel_invD(1) [OF inv]
  have m: "m \<in> set inb" by (rule selects_mem [OF sel])
  have mn: "m \<noteq> NULL" using y kernel_invD(3) [OF inv] by (auto simp: msg_table_ok_def dom_def set_eq_iff)
  have pop: "popMessage ?q (if sender = ANYMESSAGE then NULL else sender) s = Some (m, s\<lparr>lh_mem := ?h1\<rparr>)"
    using popMessage_selects [where A = A, OF r _ q ok] sel by simp
  from pop_free_represents [where A = A, OF r _ _ q m f] obtain h where
    h: "freeMsg m (s\<lparr>lh_mem := ?h1\<rparr>) = Some (s\<lparr>lh_mem := h\<rparr>)" "represents (s\<lparr>lh_mem := h\<rparr>) ?B" by auto
  let ?t = "(if payload \<noteq> 0 then store payload (m_payload y) (set_exc_reg reg_v0 (m_sender y) (s\<lparr>lh_mem := ?h1\<rparr>))
      else set_exc_reg reg_v0 (m_sender y) (s\<lparr>lh_mem := ?h1\<rparr>))"
  have "freeMsg m ?t = Some (received payload y h s)"
    using h(1) y by (auto simp: freeMsg_def on_lists_def received_def set_exc_reg_def store_def Let_def
        dest: arg_cong [where f = lh_mem] intro!: sys.equality)
  then have "recv sender payload s = Some (RETURN, received payload y h s)"
    using x pop mn y by (simp add: recv_def Let_def)
  moreover have "kernel_inv (received payload y h s) ?B"
  proof (rule kernel_inv_msgs [OF inv])
    show "represents (received payload y h s) ?B"
      using h(2) by (subst represents_cong [of _ "s\<lparr>lh_mem := h\<rparr>"])
        (auto simp: received_def set_exc_reg_def store_def Let_def)
  qed (auto simp: received_def set_exc_reg_def store_def Let_def)
  ultimately show ?thesis by blast
qed

section \<open>Giving the processor away\<close>

lemma scheduler_kernel_inv:
  assumes inv: "kernel_inv s A" and q: "procs A readyQueue rs"
  shows "\<exists>c s'. scheduler s = Some (c, s') \<and> kernel_inv s' (A(readyQueue \<mapsto> map P_LIST (tl rs)))"
proof (cases rs)
  case Nil
  then have "A(readyQueue \<mapsto> map P_LIST (tl rs)) = A" using q by (simp add: fun_upd_idem)
  then show ?thesis
    using scheduler_nil [where A = A, OF inv _ refl] kernel_inv_idled [OF inv] q Nil by simp
next
  case (Cons p ps)
  with scheduler_cons [where A = A and p = p and ps = ps, OF inv] q show ?thesis by auto
qed

end
