(* ===== verification/Interrupt_Correct.thy ===== *)
theory Interrupt_Correct
  imports Ipc_Correct
begin

text \<open>
  The interrupt handlers and the exception handlers as steps on the abstract queues: who is woken,
  with which message, who runs next, and that the invariant of the nucleus is kept.
\<close>

section \<open>The local timer\<close>

lemma scheduler_current: "scheduler (s\<lparr>current_process := c\<rparr>) = scheduler s"
  by (simp add: scheduler_def removeProcQ_def emptyProcQ_def on_lists_def setPLT_def getTOD_def Let_def
      split: option.split bind_split)

text \<open>The state the round-robin step leaves, before the scheduler: the running process is charged the
  time, its saved state is untouched and overwrites the one of the exception.\<close>

definition preempted :: "pcb_t \<Rightarrow> sys \<Rightarrow> sys" where
  "preempted x s = s\<lparr>cp0_timer := 0, clock_reads := Suc (clock_reads s),
     pcbs := (pcbs s)(current_process s \<mapsto> x\<lparr>p_time := p_time x + (clock s (clock_reads s) - startTOD s)\<rparr>),
     startTOD := clock s (clock_reads s), exception_state := p_s x\<rparr>"

lemma preempted_kernel_inv:
  "kernel_inv s A \<Longrightarrow> pcbs s (current_process s) = Some x \<Longrightarrow> kernel_inv (preempted x s) A"
  by (rule kernel_inv_cong [of "preempted x s" s]) (auto simp: preempted_def)

lemma PLTHandler_step:
  assumes inv: "kernel_inv s A" and q: "procs A readyQueue rs"
    and x: "current_process s \<noteq> NULL" "pcbs s (current_process s) = Some x"
  shows "\<exists>h. PLTHandler s = scheduler (preempted x s\<lparr>lh_mem := h, current_process := NULL\<rparr>) \<and>
    kernel_inv (preempted x s\<lparr>lh_mem := h, current_process := NULL\<rparr>)
      (A(readyQueue \<mapsto> map P_LIST (rs @ [current_process s])))"
proof -
  let ?t = "preempted x s"
  have cur: "current_process ?t = current_process s" by (simp add: preempted_def)
  have px: "pcbs ?t (current_process s) = Some (x\<lparr>p_time := p_time x + (clock s (clock_reads s) - startTOD s)\<rparr>)"
    by (simp add: preempted_def)
  from insert_ready [where A = A and p = "current_process s" and c = NULL,
      OF preempted_kernel_inv [OF inv x(2)] q px kernel_inv_current(2) [OF inv x(1)]]
  obtain h where h: "insertProcQ readyQueue (current_process s) ?t = Some (?t\<lparr>lh_mem := h\<rparr>)"
    "kernel_inv (?t\<lparr>lh_mem := h, current_process := NULL\<rparr>)
      (A(readyQueue \<mapsto> map P_LIST (rs @ [current_process s])))" by auto
  have "PLTHandler s = do { s4 \<leftarrow> insertProcQ readyQueue (current_process s) ?t; scheduler s4 }"
    using x(2) by (simp add: PLTHandler_def setPLT_def updatePCBTime_def getTOD_def upd_pcb_def
        preempted_def Let_def)
  also have "\<dots> = scheduler (?t\<lparr>lh_mem := h\<rparr>)" using h(1) by simp
  also have "\<dots> = scheduler (?t\<lparr>lh_mem := h, current_process := NULL\<rparr>)"
    by (rule scheduler_current [symmetric])
  finally show ?thesis using h(2) by blast
qed

section \<open>Waking a blocked process\<close>

text \<open>A process leaves a queue of blocked processes.\<close>

lemma leave_blocked:
  assumes inv: "kernel_inv s A" and q: "q \<in> set blocked_heads" "procs A q ps" and p: "p \<in> set ps"
    and h: "represents (s\<lparr>lh_mem := h\<rparr>) (A(q \<mapsto> map P_LIST (remove1 p ps)))"
  shows "kernel_inv (s\<lparr>lh_mem := h, softBlockCount := softBlockCount s - 1\<rparr>)
      (A(q \<mapsto> map P_LIST (remove1 p ps)))"
    and "P_LIST p \<notin> nodes (A(q \<mapsto> map P_LIST (remove1 p ps)))"
proof -
  let ?A = "A(q \<mapsto> map P_LIST (remove1 p ps))"
  have qp: "q \<in> set proc_heads" "q \<noteq> pcbFree_h" using q(1) by (auto simp: proc_heads_def blocked_heads_def)
  have n: "nodes ?A = nodes A - {P_LIST p}"
    using nodes_remove1 [OF represents_queues_ok [OF kernel_invD(1) [OF inv]] q(2), of "P_LIST p"] p
    by (simp add: map_injection_remove1 [OF inj_P_LIST])
  then show "P_LIST p \<notin> nodes ?A" by simp
  have "Suc (blocked_total ?A) = blocked_total A"
    using blocked_total_remove [where A = A and x = "P_LIST p", OF q] p
    by (simp add: map_injection_remove1 [OF inj_P_LIST])
  then have "softBlockCount s - 1 = of_nat (blocked_total ?A)"
    using kernel_invD(4) [OF inv] by (metis add_diff_cancel_right' of_nat_Suc add.commute)
  then have "kernel_inv (s\<lparr>lh_mem := h, current_process := current_process s,
      softBlockCount := softBlockCount s - 1\<rparr>) ?A"
    using kernel_inv_current [OF inv] n by (intro kernel_inv_queue_step [OF inv h qp]) auto
  then show "kernel_inv (s\<lparr>lh_mem := h, softBlockCount := softBlockCount s - 1\<rparr>) ?A" by simp
qed

text \<open>The common part of the two handlers that wake: an answer of the SSI is put into the inbox and
  the process becomes ready.\<close>

definition deliver :: "ptr \<Rightarrow> u32 \<Rightarrow> sys \<Rightarrow> sys option" where
  "deliver p pay s = do {
     (msg, s1) \<leftarrow> allocMsg s;
     s2 \<leftarrow> upd_msg msg (\<lambda>m. m\<lparr>m_sender := ssi_pcb s1, m_payload := pay\<rparr>) s1;
     s3 \<leftarrow> insertMessage (MSG_INBOX p) msg s2;
     insertProcQ readyQueue p s3
   }"

definition delivered :: "ptr \<Rightarrow> u32 \<Rightarrow> list_head \<Rightarrow> sys \<Rightarrow> sys" where
  "delivered m pay h s = s\<lparr>msgs := (msgs s)(m \<mapsto> \<lparr>m_sender = ssi_pcb s, m_payload = pay\<rparr>), lh_mem := h\<rparr>"

definition delivered_queues :: "queues \<Rightarrow> ptr \<Rightarrow> ptr list \<Rightarrow> ptr list \<Rightarrow> ptr \<Rightarrow> ptr list \<Rightarrow> queues" where
  "delivered_queues A m ms inb p rs = A(msgFree_h \<mapsto> map M_LIST ms,
     MSG_INBOX p \<mapsto> map M_LIST (inb @ [m]), readyQueue \<mapsto> map P_LIST (rs @ [p]))"

lemma allocMsg_soft:
  "allocMsg (s\<lparr>softBlockCount := n\<rparr>) =
     map_option (\<lambda>(m, t). (m, t\<lparr>softBlockCount := n\<rparr>)) (allocMsg s)"
  by (auto simp: allocMsg_def on_lists_def mkEmptyMessageQ_def upd_msg_def Let_def split: bind_split)

lemma deliver_soft:
  "deliver p pay (s\<lparr>softBlockCount := n\<rparr>) = map_option (\<lambda>t. t\<lparr>softBlockCount := n\<rparr>) (deliver p pay s)"
  by (cases "allocMsg s")
    (auto simp: deliver_def allocMsg_soft upd_msg_def insertMessage_def insertProcQ_def on_lists_def
      split: bind_split)

lemma deliver_kernel_inv:
  assumes inv: "kernel_inv (s\<lparr>softBlockCount := n\<rparr>) A" and f: "inbox A msgFree_h (m # ms)"
    and inb: "inbox A (MSG_INBOX p) inb" and rs: "procs A readyQueue rs"
    and x: "pcbs s p = Some x" "P_LIST p \<notin> nodes A" "p \<noteq> current_process s"
  shows "\<exists>h. deliver p pay s = Some (delivered m pay h s) \<and>
    kernel_inv (delivered m pay h s\<lparr>softBlockCount := n\<rparr>) (delivered_queues A m ms inb p rs)"
proof -
  let ?t = "s\<lparr>softBlockCount := n\<rparr>"
  let ?y = "\<lparr>m_sender = ssi_pcb s, m_payload = pay\<rparr>"
  let ?A1 = "A(msgFree_h \<mapsto> map M_LIST ms)"
  from allocMsg_kernel_inv [OF inv f, of ?y] obtain h1 where
    h1: "allocMsg ?t = Some (m, ?t\<lparr>lh_mem := h1, msgs := (msgs s)(m \<mapsto> empty_msg)\<rparr>)" "m \<noteq> NULL"
    "kernel_inv (?t\<lparr>lh_mem := h1, msgs := (msgs s)(m \<mapsto> ?y)\<rparr>) ?A1" "M_LIST m \<notin> nodes ?A1" by auto
  let ?t2 = "?t\<lparr>lh_mem := h1, msgs := (msgs s)(m \<mapsto> ?y)\<rparr>"
  let ?s2 = "s\<lparr>lh_mem := h1, msgs := (msgs s)(m \<mapsto> ?y)\<rparr>"
  have inb1: "inbox ?A1 (MSG_INBOX p) inb" using inb by simp
  from insertMessage_kernel_inv [where A = ?A1 and m = m and x = ?y, OF h1(3) inb1 _ h1(4)] obtain h2 where
    h2: "insertMessage (MSG_INBOX p) m ?t2 = Some (?t2\<lparr>lh_mem := h2\<rparr>)"
    "kernel_inv (?t2\<lparr>lh_mem := h2\<rparr>) (?A1(MSG_INBOX p \<mapsto> map M_LIST (inb @ [m])))" by auto
  let ?A2 = "?A1(MSG_INBOX p \<mapsto> map M_LIST (inb @ [m]))"
  have rs2: "procs ?A2 readyQueue rs" using rs by simp
  have n2: "P_LIST p \<notin> nodes ?A2" by (rule not_nodes_upd [OF not_nodes_upd [OF x(2)]]) auto
  have x2: "pcbs (?t2\<lparr>lh_mem := h2\<rparr>) p = Some x" using x(1) by simp
  from insert_ready [where A = ?A2 and p = p and c = "current_process s", OF h2(2) rs2 x2 n2] x(3) obtain h3 where
    h3: "insertProcQ readyQueue p (?t2\<lparr>lh_mem := h2\<rparr>) = Some (?t2\<lparr>lh_mem := h2, lh_mem := h3\<rparr>)"
    "kernel_inv (?t2\<lparr>lh_mem := h2, lh_mem := h3\<rparr>) (?A2(readyQueue \<mapsto> map P_LIST (rs @ [p])))" by auto
  have "deliver p pay ?t = Some (?t2\<lparr>lh_mem := h2, lh_mem := h3\<rparr>)"
    using h1(1) h2(1) h3(1) by (simp add: deliver_def upd_msg_def empty_msg_def)
  then have "deliver p pay (?t\<lparr>softBlockCount := softBlockCount s\<rparr>) =
      Some (?t2\<lparr>lh_mem := h2, lh_mem := h3, softBlockCount := softBlockCount s\<rparr>)"
    by (simp only: deliver_soft option.map)
  moreover have "?t2\<lparr>lh_mem := h2, lh_mem := h3, softBlockCount := softBlockCount s\<rparr> = delivered m pay h3 s"
    by (rule sys.equality) (simp_all add: delivered_def)
  ultimately have "deliver p pay s = Some (delivered m pay h3 s)" by simp
  moreover have "kernel_inv (delivered m pay h3 s\<lparr>softBlockCount := n\<rparr>) (delivered_queues A m ms inb p rs)"
    using h3(2) unfolding delivered_queues_def
    by (rule kernel_inv_cong [rotated -1]) (simp_all add: delivered_def)
  ultimately show ?thesis by blast
qed

section \<open>The interval timer\<close>

lemma wake_clock_NULL [simp]: "wake_clock NULL s = Some s"
  by (subst wake_clock.simps) simp

lemma wake_clock_step:
  assumes "p \<noteq> NULL"
  shows "wake_clock p s = do {
     s4 \<leftarrow> deliver p 0 s;
     let s5 = s4\<lparr>softBlockCount := softBlockCount s4 - 1\<rparr>;
     (p', s6) \<leftarrow> removeProcQ pseudoClockQueue s5;
     wake_clock p' s6
   }"
  using assms by (subst wake_clock.simps) (cases "allocMsg s"; auto simp: deliver_def)

text \<open>The queues after all waiting processes \<open>ps\<close> have been woken with the messages at the front of
  the pool \<open>ms\<close>.\<close>

definition clock_woken :: "queues \<Rightarrow> queues \<Rightarrow> ptr list \<Rightarrow> ptr list \<Rightarrow> ptr list \<Rightarrow> bool" where
  "clock_woken A B ps ms rs \<longleftrightarrow>
     procs B readyQueue (rs @ ps) \<and> procs B pseudoClockQueue [] \<and>
     inbox B msgFree_h (drop (length ps) ms) \<and>
     (\<forall>p. queue_of B (MSG_INBOX p) = queue_of A (MSG_INBOX p) @
        (case map_of (zip ps ms) p of None \<Rightarrow> [] | Some m \<Rightarrow> [M_LIST m])) \<and>
     (\<forall>q. q \<notin> {readyQueue, pseudoClockQueue, msgFree_h} \<longrightarrow> q \<notin> range MSG_INBOX \<longrightarrow> B q = A q)"

definition clock_answers :: "sys \<Rightarrow> ptr list \<Rightarrow> sys \<Rightarrow> bool" where
  "clock_answers s ms s' \<longleftrightarrow> current_process s' = current_process s \<and> ssi_pcb s' = ssi_pcb s \<and>
     exception_state s' = exception_state s \<and> interval_timer s' = interval_timer s \<and> pcbs s' = pcbs s \<and>
     (\<forall>m. msgs s' m = (if m \<in> set ms then Some \<lparr>m_sender = ssi_pcb s, m_payload = 0\<rparr> else msgs s m))"

lemma blocked_alive:
  assumes inv: "kernel_inv s A" and q: "q \<in> set proc_heads" "q \<noteq> pcbFree_h" "procs A q ps" "p \<in> set ps"
  shows "\<not> free A p" "p \<noteq> current_process s" "\<exists>inb. inbox A (MSG_INBOX p) inb"
proof -
  from kernel_inv_procs [where A = A, OF inv q(1,3)] q(4) obtain x where x: "p \<noteq> NULL" "pcbs s p = Some x" by blast
  have b: "blocked_in A p q" using q(3,4) by (simp add: blocked_in_def)
  show f: "\<not> free A p"
  proof
    assume "free A p"
    then have "blocked_in A p pcbFree_h" by (simp add: free_def blocked_in_def)
    then show False using represents_blocked_unique [OF kernel_invD(1) [OF inv] b] q(2) by simp
  qed
  have "P_LIST p \<in> nodes A" using b queue_of_nodes by (simp add: blocked_in_def)
  then show "p \<noteq> current_process s" using kernel_inv_current(2) [OF inv] x(1) by auto
  have "A (MSG_INBOX p) \<noteq> None" using inv f x(2) by (auto simp: kernel_inv_def)
  then obtain xs where "A (MSG_INBOX p) = Some xs" by blast
  from represents_msgs [OF kernel_invD(1) [OF inv] _ this] show "\<exists>inb. inbox A (MSG_INBOX p) inb" by auto
qed

lemma removeProcQ_soft:
  "removeProcQ q (s\<lparr>softBlockCount := n\<rparr>) =
     map_option (\<lambda>(p, t). (p, t\<lparr>softBlockCount := n\<rparr>)) (removeProcQ q s)"
  by (auto simp: removeProcQ_def emptyProcQ_def on_lists_def split: bind_split)

lemma clock_woken_Cons:
  assumes "clock_woken ((delivered_queues A m ms inb p rs)(pseudoClockQueue \<mapsto> X)) B qs ms (rs @ [p])"
    and "inbox A (MSG_INBOX p) inb" "p \<notin> set qs"
  shows "clock_woken A B (p # qs) (m # ms) rs"
proof -
  have "map_of (zip qs ms) p = None"
    using assms(3) by (auto simp: map_of_eq_None_iff dest: set_zip_leftD)
  then show ?thesis
    using assms(1,2) by (auto simp: clock_woken_def delivered_queues_def queue_of_upd)
qed

lemma wake_clock_all:
  assumes "kernel_inv (s\<lparr>softBlockCount := softBlockCount s - 1\<rparr>) A"
    and "procs A pseudoClockQueue ps" "inbox A msgFree_h ms" "procs A readyQueue rs"
    and "P_LIST p \<notin> nodes A" "p \<noteq> current_process s" "p \<noteq> NULL" "pcbs s p = Some x"
    and "inbox A (MSG_INBOX p) inb" and "length ps < length ms"
  shows "\<exists>s' B. wake_clock p s = Some s' \<and> kernel_inv s' B \<and> clock_woken A B (p # ps) ms rs
    \<and> clock_answers s (take (Suc (length ps)) ms) s'"
  using assms
proof (induction ps arbitrary: p s A ms rs x inb)
  case Nil
  then obtain m ms' where ms: "ms = m # ms'" by (cases ms) auto
  let ?B = "delivered_queues A m ms' inb p rs"
  from deliver_kernel_inv [where A = A and p = p and m = m and pay = 0, OF Nil.prems(1) _ Nil.prems(9,4,8,5,6)]
    Nil.prems(3) ms obtain h where
    h: "deliver p 0 s = Some (delivered m 0 h s)"
    "kernel_inv (delivered m 0 h s\<lparr>softBlockCount := softBlockCount s - 1\<rparr>) ?B" by auto
  let ?s5 = "delivered m 0 h s\<lparr>softBlockCount := softBlockCount s - 1\<rparr>"
  have pb: "procs ?B pseudoClockQueue []" using Nil.prems(2) by (simp add: delivered_queues_def)
  have "softBlockCount (delivered m 0 h s) = softBlockCount s" by (simp add: delivered_def)
  then have "wake_clock p s = Some ?s5"
    using h(1) removeProcQ_nil [where A = ?B, OF kernel_invD(1) [OF h(2)] pb]
    by (simp add: wake_clock_step [OF Nil.prems(7)])
  moreover have "clock_woken A ?B [p] ms rs"
    using Nil.prems ms by (auto simp: clock_woken_def delivered_queues_def queue_of_upd)
  moreover have "clock_answers s (take (Suc (length [])) ms) ?s5"
    using ms by (auto simp: clock_answers_def delivered_def)
  ultimately show ?case using h(2) by blast
next
  case (Cons p' ps)
  then obtain m ms' where ms: "ms = m # ms'" by (cases ms) auto
  let ?B = "delivered_queues A m ms' inb p rs" and ?n = "softBlockCount s - 1"
  from deliver_kernel_inv [where A = A and p = p and m = m and pay = 0, OF Cons.prems(1) _ Cons.prems(9,4,8,5,6)]
    Cons.prems(3) ms obtain h where
    h: "deliver p 0 s = Some (delivered m 0 h s)"
    "kernel_inv (delivered m 0 h s\<lparr>softBlockCount := ?n\<rparr>) ?B" by auto
  let ?s5 = "delivered m 0 h s\<lparr>softBlockCount := ?n\<rparr>"
  have soft: "softBlockCount (delivered m 0 h s) = softBlockCount s" by (simp add: delivered_def)
  have cp: "pseudoClockQueue \<in> set proc_heads" "pseudoClockQueue \<noteq> pcbFree_h"
    "pseudoClockQueue \<in> set blocked_heads" by (simp_all add: proc_heads_def blocked_heads_def)
  have pb: "procs ?B pseudoClockQueue (p' # ps)" using Cons.prems(2) by (simp add: delivered_queues_def)
  from removeProcQ_cons [where A = ?B, OF kernel_invD(1) [OF h(2)] cp(1) pb] obtain h' where
    h': "removeProcQ pseudoClockQueue ?s5 = Some (p', ?s5\<lparr>lh_mem := h'\<rparr>)"
    "represents (?s5\<lparr>lh_mem := h'\<rparr>) (?B(pseudoClockQueue \<mapsto> map P_LIST ps))" by blast
  let ?A' = "?B(pseudoClockQueue \<mapsto> map P_LIST ps)" and ?s6 = "?s5\<lparr>lh_mem := h'\<rparr>"
  have rem: "remove1 p' (p' # ps) = ps" by simp
  note lb = leave_blocked [where A = ?B and p = p', OF h(2) cp(3) pb, unfolded rem, OF _ h'(2)]
  have inv6: "kernel_inv (?s6\<lparr>softBlockCount := softBlockCount ?s6 - 1\<rparr>) ?A'"
    using lb(1) by simp
  have pn: "P_LIST p' \<notin> nodes ?A'" using lb(2) by simp
  note al = blocked_alive [where A = ?B and p = p', OF h(2) cp(1,2) pb]
  from kernel_inv_procs [where A = ?B, OF h(2) cp(1) pb] obtain y where
    y: "p' \<noteq> NULL" "pcbs ?s5 p' = Some y" "distinct (p' # ps)" by auto
  from al obtain inb' where inb': "inbox ?B (MSG_INBOX p') inb'" by auto
  have "p \<notin> set (p' # ps)" using not_nodesD [OF Cons.prems(5) Cons.prems(2)] by auto
  have "\<exists>s' B. wake_clock p' ?s6 = Some s' \<and> kernel_inv s' B \<and> clock_woken ?A' B (p' # ps) ms' (rs @ [p])
    \<and> clock_answers ?s6 (take (Suc (length ps)) ms') s'"
  proof (rule Cons.IH [OF inv6 _ _ _ pn])
    show "procs ?A' pseudoClockQueue ps" "inbox ?A' msgFree_h ms'" "procs ?A' readyQueue (rs @ [p])"
      by (simp_all add: delivered_queues_def)
    show "inbox ?A' (MSG_INBOX p') inb'" using inb' by simp
    show "p' \<noteq> current_process ?s6" using al(2) by simp
    show "pcbs ?s6 p' = Some y" using y(2) by simp
  qed (use y Cons.prems(10) ms in simp_all)
  then obtain s' B where s': "wake_clock p' ?s6 = Some s'" "kernel_inv s' B"
    "clock_woken ?A' B (p' # ps) ms' (rs @ [p])" "clock_answers ?s6 (take (Suc (length ps)) ms') s'" by blast
  have "wake_clock p s = Some s'"
    using h(1) h'(1) s'(1) soft by (simp add: wake_clock_step [OF Cons.prems(7)])
  moreover have "clock_answers s (take (Suc (length (p' # ps))) ms) s'"
    using s'(4) ms by (auto simp: clock_answers_def delivered_def)
  moreover have "clock_woken A B (p # p' # ps) ms rs"
    unfolding ms by (rule clock_woken_Cons [OF s'(3) Cons.prems(9) \<open>p \<notin> set (p' # ps)\<close>])
  ultimately show ?case using s'(2) by blast
qed

text \<open>The tick: every process that waits for the clock becomes ready, in the order of waiting, each
  with an empty answer of the SSI; then the interrupted process goes on, or the scheduler runs.\<close>

lemma kernel_inv_nondata:
  assumes "kernel_inv s A"
  shows "kernel_inv (s\<lparr>interval_timer := t\<rparr>) A" "kernel_inv (s\<lparr>cp0_status := t\<rparr>) A" "kernel_inv (s\<lparr>mem := m\<rparr>) A"
  by (rule kernel_inv_cong [OF _ _ _ _ _ _ _ _ assms]; simp)+

lemma exitInterruptHandler_kernel_inv:
  assumes inv: "kernel_inv s A" and q: "procs A readyQueue rs"
  shows "\<exists>c s' B. exitInterruptHandler s = Some (c, s') \<and> kernel_inv s' B \<and>
    B = (if current_process s = NULL then A(readyQueue \<mapsto> map P_LIST (tl rs)) else A) \<and>
    (current_process s \<noteq> NULL \<longrightarrow> c = LDST (exception_state s))"
proof (cases "current_process s = NULL")
  case True
  then show ?thesis
    using scheduler_kernel_inv [where A = A, OF kernel_inv_nondata(2) [OF inv] q]
    by (auto simp: exitInterruptHandler_def Let_def)
next
  case False
  then show ?thesis
    using kernel_inv_nondata(2) [OF inv] by (auto simp: exitInterruptHandler_def Let_def)
qed

lemma intervalTimer_step:
  assumes inv: "kernel_inv s A" and q: "procs A pseudoClockQueue ps"
    and ms: "inbox A msgFree_h ms" and rs: "procs A readyQueue rs" and n: "length ps \<le> length ms"
  shows "\<exists>s' B. intervalTimerHandler s = exitInterruptHandler s' \<and> kernel_inv s' B \<and>
    clock_woken A B ps ms rs \<and> clock_answers (LDIT PSECOND s) (take (length ps) ms) s'"
proof (cases ps)
  case Nil
  let ?s = "s\<lparr>interval_timer := PSECOND\<rparr>"
  have i: "kernel_inv ?s A" by (rule kernel_inv_nondata(1) [OF inv])
  have "intervalTimerHandler s = exitInterruptHandler ?s"
    using removeProcQ_nil [where A = A, OF kernel_invD(1) [OF i]] q Nil
    by (simp add: intervalTimerHandler_def LDIT_def)
  moreover have "clock_woken A A ps ms rs" using q ms rs Nil by (simp add: clock_woken_def)
  moreover have "clock_answers (LDIT PSECOND s) (take (length ps) ms) ?s"
    using Nil by (simp add: clock_answers_def LDIT_def)
  ultimately show ?thesis using i by fastforce
next
  case (Cons p ps')
  let ?s = "s\<lparr>interval_timer := PSECOND\<rparr>" and ?A = "A(pseudoClockQueue \<mapsto> map P_LIST ps')"
  have i: "kernel_inv ?s A" by (rule kernel_inv_nondata(1) [OF inv])
  have cp: "pseudoClockQueue \<in> set proc_heads" "pseudoClockQueue \<noteq> pcbFree_h"
    "pseudoClockQueue \<in> set blocked_heads" by (simp_all add: proc_heads_def blocked_heads_def)
  have q': "procs A pseudoClockQueue (p # ps')" using q Cons by simp
  from removeProcQ_cons [where A = A, OF kernel_invD(1) [OF i] cp(1) q'] obtain h where
    h: "removeProcQ pseudoClockQueue ?s = Some (p, ?s\<lparr>lh_mem := h\<rparr>)" "represents (?s\<lparr>lh_mem := h\<rparr>) ?A" by blast
  have rem: "remove1 p (p # ps') = ps'" by simp
  note lb = leave_blocked [where A = A and p = p, OF i cp(3) q', unfolded rem, OF _ h(2)]
  note al = blocked_alive [where A = A and p = p, OF i cp(1,2) q']
  from kernel_inv_procs [where A = A, OF i cp(1) q'] obtain y where
    y: "p \<noteq> NULL" "pcbs ?s p = Some y" by auto
  from al obtain inb where inb: "inbox A (MSG_INBOX p) inb" by auto
  have "\<exists>s' B. wake_clock p (?s\<lparr>lh_mem := h\<rparr>) = Some s' \<and> kernel_inv s' B \<and> clock_woken ?A B (p # ps') ms rs
    \<and> clock_answers (?s\<lparr>lh_mem := h\<rparr>) (take (Suc (length ps')) ms) s'"
  proof (rule wake_clock_all)
    show "kernel_inv (?s\<lparr>lh_mem := h, softBlockCount := softBlockCount (?s\<lparr>lh_mem := h\<rparr>) - 1\<rparr>) ?A"
      using lb(1) by simp
    show "P_LIST p \<notin> nodes ?A" using lb(2) by simp
    show "p \<noteq> current_process (?s\<lparr>lh_mem := h\<rparr>)" using al(2) by simp
    show "inbox ?A (MSG_INBOX p) inb" using inb by simp
  qed (use y ms rs n Cons in simp_all)
  then obtain s' B where s': "wake_clock p (?s\<lparr>lh_mem := h\<rparr>) = Some s'" "kernel_inv s' B"
    "clock_woken ?A B (p # ps') ms rs" "clock_answers (?s\<lparr>lh_mem := h\<rparr>) (take (Suc (length ps')) ms) s'" by blast
  have "intervalTimerHandler s = exitInterruptHandler s'"
    using h(1) s'(1) by (simp add: intervalTimerHandler_def LDIT_def)
  moreover have "clock_woken A B ps ms rs" using s'(3) Cons by (auto simp: clock_woken_def queue_of_upd)
  moreover have "clock_answers (LDIT PSECOND s) (take (length ps) ms) s'"
    using s'(4) Cons by (auto simp: clock_answers_def LDIT_def)
  ultimately show ?thesis using s'(2) by blast
qed

text \<open>The answers are allocated without a check: with an empty pool the first process to wake is a
  null pointer dereference.\<close>

lemma intervalTimer_no_message:
  assumes inv: "kernel_inv s A" and q: "procs A pseudoClockQueue (p # ps)" and ms: "inbox A msgFree_h []"
  shows "intervalTimerHandler s = None"
proof -
  let ?s = "s\<lparr>interval_timer := PSECOND\<rparr>" and ?A = "A(pseudoClockQueue \<mapsto> map P_LIST ps)"
  have i: "kernel_inv ?s A" by (rule kernel_inv_nondata(1) [OF inv])
  have cp: "pseudoClockQueue \<in> set proc_heads" by (simp add: proc_heads_def blocked_heads_def)
  from removeProcQ_cons [where A = A, OF kernel_invD(1) [OF i] cp q] obtain h where
    h: "removeProcQ pseudoClockQueue ?s = Some (p, ?s\<lparr>lh_mem := h\<rparr>)" "represents (?s\<lparr>lh_mem := h\<rparr>) ?A" by blast
  have p: "p \<noteq> NULL" using kernel_inv_procs [where A = A, OF i cp q] by auto
  have "inbox ?A msgFree_h []" using ms by simp
  from allocMsg_nil [where A = ?A, OF h(2) this] have
    "allocMsg (?s\<lparr>lh_mem := h\<rparr>) = Some (NULL, ?s\<lparr>lh_mem := h\<rparr>)" .
  moreover have "msgs s NULL = None" using kernel_invD(3) [OF inv] by (auto simp: msg_table_ok_def)
  ultimately have "wake_clock p (?s\<lparr>lh_mem := h\<rparr>) = None"
    using wake_clock_step [OF p, of "?s\<lparr>lh_mem := h\<rparr>"] by (simp add: deliver_def upd_msg_def)
  then show ?thesis using h(1) by (simp add: intervalTimerHandler_def LDIT_def)
qed

section \<open>Devices\<close>

lemma unlock_step:
  assumes inv: "kernel_inv s A" and q: "q \<in> set blocked_heads" "procs A q ps"
  shows "case find (\<lambda>p. blockedOnDevice (the (pcbs s p)) = devNo) ps of
      None \<Rightarrow> unlockPcbDevNo devNo q s = Some (NULL, s)
    | Some p \<Rightarrow> p \<noteq> NULL \<and> p \<in> set ps \<and> (\<exists>h. unlockPcbDevNo devNo q s = Some (p, s\<lparr>lh_mem := h\<rparr>) \<and>
        kernel_inv (s\<lparr>lh_mem := h, softBlockCount := softBlockCount s - 1\<rparr>) (A(q \<mapsto> map P_LIST (remove1 p ps))) \<and>
        P_LIST p \<notin> nodes (A(q \<mapsto> map P_LIST (remove1 p ps))))"
proof (cases "find (\<lambda>p. blockedOnDevice (the (pcbs s p)) = devNo) ps")
  case None
  have "q \<in> set proc_heads" using q(1) blocked_heads_sub by blast
  from unlockPcbDevNo_none [where A = A, OF kernel_invD(1) [OF inv] this q(2) None] None show ?thesis by simp
next
  case (Some p)
  have qp: "q \<in> set proc_heads" using q(1) blocked_heads_sub by blast
  have p: "p \<in> set ps" using find_Some_split [OF Some] by simp
  then have pn: "p \<noteq> NULL" using kernel_inv_procs [where A = A, OF inv qp q(2)] by blast
  from unlockPcbDevNo_some [where A = A, OF kernel_invD(1) [OF inv] qp q(2) Some pn] obtain h where
    h: "unlockPcbDevNo devNo q s = Some (p, s\<lparr>lh_mem := h\<rparr>)"
    "represents (s\<lparr>lh_mem := h\<rparr>) (A(q \<mapsto> map P_LIST (remove1 p ps)))" by blast
  from leave_blocked [where A = A, OF inv q p h(2)] h(1) p pn Some show ?thesis by auto
qed

definition with_v0 :: "u32 \<Rightarrow> pcb_t \<Rightarrow> pcb_t" where
  "with_v0 st x = x\<lparr>p_s := (p_s x)\<lparr>gpr := (gpr (p_s x))(reg_v0 := st)\<rparr>\<rparr>"

lemma allocMsg_pcbs:
  "allocMsg (s\<lparr>pcbs := P\<rparr>) = map_option (\<lambda>(m, t). (m, t\<lparr>pcbs := P\<rparr>)) (allocMsg s)"
  by (auto simp: allocMsg_def on_lists_def mkEmptyMessageQ_def upd_msg_def Let_def split: bind_split)

lemma allocMsg_frame: "allocMsg s = Some (m, t) \<Longrightarrow> pcbs t = pcbs s \<and> ssi_pcb t = ssi_pcb s"
  by (auto simp: allocMsg_def on_lists_def mkEmptyMessageQ_def upd_msg_def Let_def
      split: bind_splits if_splits)

lemma wake_device_deliver:
  assumes x: "pcbs s p = Some x"
  shows "wake_device p st s = do {
     t \<leftarrow> deliver p st (s\<lparr>pcbs := (pcbs s)(p \<mapsto> with_v0 st x)\<rparr>);
     Some (t\<lparr>softBlockCount := softBlockCount t - 1\<rparr>) }"
proof (cases "allocMsg s")
  case None
  then show ?thesis by (simp add: wake_device_def deliver_def allocMsg_pcbs)
next
  case (Some r)
  obtain m t where r: "r = (m, t)" by fastforce
  have t: "pcbs t = pcbs s" using allocMsg_frame Some r by auto
  let ?P = "(pcbs s)(p \<mapsto> with_v0 st x)"
  show ?thesis
  proof (cases "msgs t m")
    case None
    then show ?thesis using Some r by (simp add: wake_device_def deliver_def allocMsg_pcbs upd_msg_def)
  next
    case y: (Some y)
    let ?l = "t\<lparr>pcbs := ?P, msgs := (msgs t)(m \<mapsto> y\<lparr>m_sender := ssi_pcb t, m_payload := st\<rparr>)\<rparr>"
    have "deliver p st (s\<lparr>pcbs := ?P\<rparr>) = do { s3 \<leftarrow> insertMessage (MSG_INBOX p) m ?l; insertProcQ readyQueue p s3 }"
      using Some r y by (simp add: deliver_def allocMsg_pcbs upd_msg_def)
    moreover have "wake_device p st s = do { s5 \<leftarrow> insertMessage (MSG_INBOX p) m ?l;
        s6 \<leftarrow> insertProcQ readyQueue p s5; Some (s6\<lparr>softBlockCount := softBlockCount s6 - 1\<rparr>) }"
      using Some r y t x by (simp add: wake_device_def upd_msg_def upd_pcb_def with_v0_def)
    ultimately show ?thesis by simp
  qed
qed

text \<open>Waking for a device: the status goes into the answer and into the saved v0.\<close>

lemma wake_device_kernel_inv:
  assumes inv: "kernel_inv (s\<lparr>softBlockCount := softBlockCount s - 1\<rparr>) A" and f: "inbox A msgFree_h (m # ms)"
    and inb: "inbox A (MSG_INBOX p) inb" and rs: "procs A readyQueue rs"
    and x: "pcbs s p = Some x" "P_LIST p \<notin> nodes A" "p \<noteq> current_process s"
  shows "\<exists>s'. wake_device p st s = Some s' \<and> kernel_inv s' (delivered_queues A m ms inb p rs) \<and>
    pcbs s' = (pcbs s)(p \<mapsto> with_v0 st x) \<and>
    msgs s' = (msgs s)(m \<mapsto> \<lparr>m_sender = ssi_pcb s, m_payload = st\<rparr>) \<and>
    s' = s\<lparr>lh_mem := lh_mem s', pcbs := pcbs s', msgs := msgs s', softBlockCount := softBlockCount s - 1\<rparr>"
proof -
  let ?P = "(pcbs s)(p \<mapsto> with_v0 st x)" and ?n = "softBlockCount s - 1"
  let ?u = "s\<lparr>pcbs := ?P\<rparr>"
  have inv': "kernel_inv (?u\<lparr>softBlockCount := ?n\<rparr>) A"
    by (rule kernel_inv_cong [OF _ _ _ _ _ _ _ _ inv]) (simp_all add: x(1) with_v0_def)
  have x': "pcbs ?u p = Some (with_v0 st x)" "p \<noteq> current_process ?u" using x(3) by simp_all
  from deliver_kernel_inv [where A = A and p = p and m = m and pay = st, OF inv' f inb rs x'(1) x(2) x'(2)]
  obtain h where h: "deliver p st ?u = Some (delivered m st h ?u)"
    "kernel_inv (delivered m st h ?u\<lparr>softBlockCount := ?n\<rparr>) (delivered_queues A m ms inb p rs)" by blast
  have "wake_device p st s = Some (delivered m st h ?u\<lparr>softBlockCount := ?n\<rparr>)"
    using h(1) by (simp add: wake_device_deliver [OF x(1)] delivered_def)
  then show ?thesis using h(2) by (auto simp: delivered_def)
qed

text \<open>The queue, the status register and the command register a device interrupt is about.\<close>

definition irq_target :: "u32 \<Rightarrow> u32 \<Rightarrow> sys \<Rightarrow> (lh \<times> u32 \<times> u32) option" where
  "irq_target l d s = (let reg = DEV_REG_ADDR l d in
     if l = IL_TERMINAL then
       if mem s (reg + recv_status) AND 0xFF = CHARRECV
       then Some (blockedTerminalRecvQueue, reg + recv_status, reg + recv_command)
       else if mem s (reg + transm_status) AND 0xFF = OKCHARTRANS
       then Some (blockedTerminalTransmQueue, reg + transm_status, reg + transm_command)
       else None
     else Some (line_queue l, reg + dtp_status, reg + dtp_command))"

lemma device_ack_unlock:
  assumes "l \<in> set io_lines" "irq_target l d s = Some (q, st, cmd)"
  shows "q \<in> set blocked_heads" "q \<noteq> readyQueue"
    "device_ack l d s = do { (p, s1) \<leftarrow> unlockPcbDevNo d q s; Some (p, mem s1 st, store cmd ACK s1) }"
proof -
  show "q \<in> set blocked_heads" "q \<noteq> readyQueue"
    using assms(2) by (auto simp: irq_target_def blocked_heads_def line_queue_def Let_def split: if_splits)
  show "device_ack l d s = do { (p, s1) \<leftarrow> unlockPcbDevNo d q s; Some (p, mem s1 st, store cmd ACK s1) }"
  proof (cases "l = IL_TERMINAL")
    case True
    then show ?thesis
      using assms(2) by (auto simp: irq_target_def device_ack_def Let_def split: if_splits)
  next
    case False
    have "getPcbFromLine l d s = unlockPcbDevNo d (line_queue l) s"
      using io_lines_cases [OF assms(1)] False by (elim disjE; simp add: getPcbFromLine_def line_queue_def)
    then show ?thesis using assms(2) False by (auto simp: irq_target_def device_ack_def Let_def)
  qed
qed

text \<open>A device interrupt: the first process that waits for the device is woken with the status of the
  device, whose command register is acknowledged.\<close>

lemma deviceHandler_wakes:
  assumes inv: "kernel_inv s A" and l: "l \<in> set io_lines" and d: "d = getDeviceNo (getDeviceBitmap l s)"
    and t: "irq_target l d s = Some (q, st, cmd)" and q: "procs A q ps"
    and p: "find (\<lambda>p. blockedOnDevice (the (pcbs s p)) = d) ps = Some p" and x: "pcbs s p = Some x"
    and ms: "inbox A msgFree_h (m # ms)" and inb: "inbox A (MSG_INBOX p) inb" and rs: "procs A readyQueue rs"
  shows "\<exists>s'. deviceHandler l s = exitInterruptHandler s' \<and>
    kernel_inv s' (delivered_queues (A(q \<mapsto> map P_LIST (remove1 p ps))) m ms inb p rs) \<and>
    pcbs s' = (pcbs s)(p \<mapsto> with_v0 (mem s st) x) \<and>
    msgs s' = (msgs s)(m \<mapsto> \<lparr>m_sender = ssi_pcb s, m_payload = mem s st\<rparr>) \<and>
    s' = s\<lparr>lh_mem := lh_mem s', pcbs := pcbs s', msgs := msgs s', softBlockCount := softBlockCount s - 1,
      mem := (mem s)(cmd := ACK)\<rparr>"
proof -
  let ?A1 = "A(q \<mapsto> map P_LIST (remove1 p ps))"
  note du = device_ack_unlock [OF l t]
  from unlock_step [where A = A and devNo = d, OF inv du(1) q] p obtain h where
    h: "p \<noteq> NULL" "p \<in> set ps" "unlockPcbDevNo d q s = Some (p, s\<lparr>lh_mem := h\<rparr>)"
    "kernel_inv (s\<lparr>lh_mem := h, softBlockCount := softBlockCount s - 1\<rparr>) ?A1" "P_LIST p \<notin> nodes ?A1" by auto
  let ?s2 = "s\<lparr>lh_mem := h, mem := (mem s)(cmd := ACK)\<rparr>"
  have ack: "device_ack l d s = Some (p, mem s st, ?s2)" using du(3) h(3) by (simp add: store_def)
  have qm: "q \<noteq> msgFree_h" "q \<noteq> MSG_INBOX p" using du(1) by (auto simp: blocked_heads_def)
  have inv2: "kernel_inv (?s2\<lparr>softBlockCount := softBlockCount ?s2 - 1\<rparr>) ?A1"
    by (rule kernel_inv_cong [OF _ _ _ _ _ _ _ _ h(4)]) simp_all
  have qp: "q \<in> set proc_heads" "q \<noteq> pcbFree_h" using du(1) by (auto simp: blocked_heads_def proc_heads_def)
  have cur: "p \<noteq> current_process ?s2" using blocked_alive(2) [where A = A, OF inv qp q h(2)] by simp
  have a: "inbox ?A1 msgFree_h (m # ms)" "inbox ?A1 (MSG_INBOX p) inb" "procs ?A1 readyQueue rs" "pcbs ?s2 p = Some x"
    using ms inb rs qm du(2) x by simp_all
  from wake_device_kernel_inv [where A = ?A1 and st = "mem s st", OF inv2 a h(5) cur] obtain s' where
    s': "wake_device p (mem s st) ?s2 = Some s'" "kernel_inv s' (delivered_queues ?A1 m ms inb p rs)"
    "pcbs s' = (pcbs s)(p \<mapsto> with_v0 (mem s st) x)"
    "msgs s' = (msgs s)(m \<mapsto> \<lparr>m_sender = ssi_pcb s, m_payload = mem s st\<rparr>)"
    "s' = ?s2\<lparr>lh_mem := lh_mem s', pcbs := pcbs s', msgs := msgs s', softBlockCount := softBlockCount ?s2 - 1\<rparr>" by auto
  have "deviceHandler l s = exitInterruptHandler s'"
    using ack h(1) s'(1) d by (simp add: deviceHandler_def Let_def)
  moreover have "s' = s\<lparr>lh_mem := lh_mem s', pcbs := pcbs s', msgs := msgs s', softBlockCount := softBlockCount s - 1,
      mem := (mem s)(cmd := ACK)\<rparr>" by (subst s'(5)) simp
  ultimately show ?thesis using s'(2-4) by blast
qed

text \<open>Nobody waits for the device: it is acknowledged and nothing else happens.\<close>

lemma deviceHandler_nobody:
  assumes inv: "kernel_inv s A" and l: "l \<in> set io_lines" and d: "d = getDeviceNo (getDeviceBitmap l s)"
    and t: "irq_target l d s = Some (q, st, cmd)" and q: "procs A q ps"
    and p: "find (\<lambda>p. blockedOnDevice (the (pcbs s p)) = d) ps = None"
  shows "deviceHandler l s = exitInterruptHandler (store cmd ACK s) \<and> kernel_inv (store cmd ACK s) A"
proof -
  note du = device_ack_unlock [OF l t]
  have "unlockPcbDevNo d q s = Some (NULL, s)"
    using unlock_step [where A = A and devNo = d, OF inv du(1) q] p by simp
  then show ?thesis
    using du(3) d kernel_inv_nondata(3) [OF inv] by (simp add: deviceHandler_def store_def Let_def)
qed

lemma deviceHandler_undefined:
  assumes "irq_target IL_TERMINAL d s = None" "d = getDeviceNo (getDeviceBitmap IL_TERMINAL s)"
  shows "deviceHandler IL_TERMINAL s = None"
  using assms by (auto simp: irq_target_def deviceHandler_def device_ack_def Let_def split: if_splits)

end
