(* ===== verification/Boot.thy ===== *)
theory Boot
  imports Interrupt_Correct
begin

text \<open>
  The boot of the nucleus: \<open>main_init\<close> turns the statically initialised memory into a state that
  satisfies the invariant, with the SSI (pid 1) and the test process (pid 2) ready in this order and
  everything else in the two pools.
\<close>

section \<open>One process without a parent\<close>

definition boot_queues :: "queues \<Rightarrow> ptr \<Rightarrow> ptr list \<Rightarrow> ptr list \<Rightarrow> queues" where
  "boot_queues A p fs rs = (alloc_queues A p fs)(readyQueue \<mapsto> map P_LIST (rs @ [p]))"

lemma alloc_tree_ok:
  assumes ok: "tree_ok s A" and f: "procs A pcbFree_h (p # fs)" "distinct (p # fs)"
    and s': "pcbs s' = (pcbs s)(p \<mapsto> y)" "p_parent y = NULL"
  shows "tree_ok s' (boot_queues A p fs rs)"
proof -
  let ?B = "boot_queues A p fs rs"
  have p: "free A p" "P_SIB p \<notin> nodes A" using f ok by (auto simp: free_def tree_ok_def)
  have notin: "P_SIB p \<notin> set (queue_of A q)" for q using p(2) queue_of_nodes by blast
  have B: "queue_of ?B (P_CHILD q) = (if q = p then [] else queue_of A (P_CHILD q))" for q
    by (auto simp: boot_queues_def queue_of_upd)
  have free: "free ?B q \<longleftrightarrow> free A q \<and> q \<noteq> p" for q
    using f by (auto simp: free_def boot_queues_def queue_of_upd)
  have nd: "P_SIB q \<notin> nodes ?B" if "P_SIB q \<notin> nodes A" for q
  proof -
    have "P_SIB q \<notin> nodes (A(pcbFree_h \<mapsto> map P_LIST fs))" by (rule not_nodes_upd [OF that]) auto
    then have "P_SIB q \<notin> nodes (alloc_queues A p fs)" by (rule not_nodes_upd [OF not_nodes_upd]) auto
    then show ?thesis unfolding boot_queues_def by (rule not_nodes_upd) auto
  qed
  have 1: "map_option p_parent (pcbs s' c) = Some q" if "P_SIB c \<in> set (queue_of ?B (P_CHILD q))" for q c
    using that ok notin [of "P_CHILD q"] by (auto simp: B s' tree_ok_def split: if_splits)
  have 2: "P_SIB c \<in> set (queue_of ?B (P_CHILD (p_parent z)))"
    if c: "pcbs s' c = Some z" "\<not> free ?B c" "p_parent z \<noteq> NULL" for c z
  proof -
    have "c \<noteq> p" using c s' by auto
    then have "P_SIB c \<in> set (queue_of A (P_CHILD (p_parent z)))"
      using c ok free by (simp add: s' tree_ok_def)
    moreover have "queue_of A (P_CHILD p) = []" using ok p(1) by (simp add: tree_ok_def)
    ultimately show ?thesis by (auto simp: B)
  qed
  have 3: "queue_of ?B (P_CHILD q) = []" if "free ?B q" for q
    using that ok free by (simp add: B tree_ok_def)
  have 4: "?B (P_SIB q) = None" for q using ok by (simp add: boot_queues_def tree_ok_def)
  show ?thesis
    unfolding tree_ok_def using 1 2 3 4 nd free ok by (auto simp: tree_ok_def)
qed

text \<open>Allocation, any changes to the fields of the new PCB and to fields the invariant does not look
  at, insertion into the ready queue, \<^verbatim>\<open>processCount++\<close>.\<close>

lemma boot_process:
  assumes inv: "kernel_inv s A" and f: "procs A pcbFree_h (p # fs)" and rs: "procs A readyQueue rs"
    and x: "pcbs s p = Some x" and cur: "current_process s = NULL"
  shows "\<exists>h. allocPcb s = Some (p, s\<lparr>lh_mem := h, pcbs := (pcbs s)(p \<mapsto> fresh_pcb (next_pid s) x),
            next_pid := next_pid s + 1\<rparr>) \<and>
    (\<forall>t. lh_mem t = h \<and> pcbs t = (pcbs s)(p \<mapsto> y) \<and> p_parent y = NULL \<and> msgs t = msgs s \<and>
        pcbTable t = pcbTable s \<and> msgTable t = msgTable s \<and> softBlockCount t = softBlockCount s \<and>
        processCount t = processCount s \<and> current_process t = NULL \<longrightarrow>
      (\<exists>h'. insertProcQ readyQueue p t = Some (t\<lparr>lh_mem := h'\<rparr>) \<and>
        kernel_inv (t\<lparr>lh_mem := h', processCount := processCount t + 1\<rparr>) (boot_queues A p fs rs)))"
proof -
  let ?A1 = "alloc_queues A p fs" and ?B = "boot_queues A p fs rs"
  have pf: "pcbFree_h \<in> set proc_heads" "readyQueue \<in> set proc_heads" by (simp_all add: proc_heads_def)
  have ok: "tree_ok s A" using inv by (simp add: kernel_inv_def)
  have sib: "P_SIB p \<notin> nodes A" using f ok by (auto simp: free_def tree_ok_def)
  from allocPcb_cons [where A = A, OF kernel_invD(1) [OF inv] f x sib] obtain h where
    h: "allocPcb s = Some (p, s\<lparr>lh_mem := h, pcbs := (pcbs s)(p \<mapsto> fresh_pcb (next_pid s) x),
            next_pid := next_pid s + 1\<rparr>)"
    "represents (s\<lparr>lh_mem := h, pcbs := (pcbs s)(p \<mapsto> fresh_pcb (next_pid s) x),
            next_pid := next_pid s + 1\<rparr>) ?A1" "P_LIST p \<notin> nodes ?A1" by blast
  have "\<exists>h'. insertProcQ readyQueue p t = Some (t\<lparr>lh_mem := h'\<rparr>) \<and>
        kernel_inv (t\<lparr>lh_mem := h', processCount := processCount t + 1\<rparr>) ?B"
    if t: "lh_mem t = h" "pcbs t = (pcbs s)(p \<mapsto> y)" "p_parent y = NULL" "msgs t = msgs s"
        "pcbTable t = pcbTable s" "msgTable t = msgTable s" "softBlockCount t = softBlockCount s"
        "processCount t = processCount s" "current_process t = NULL" for t
  proof -
    have r: "represents t ?A1"
      using h(2) by (subst represents_cong [of _ "s\<lparr>lh_mem := h, pcbs := (pcbs s)(p \<mapsto> fresh_pcb (next_pid s) x),
            next_pid := next_pid s + 1\<rparr>"]) (use t x in \<open>simp_all del: dom_fun_upd\<close>)
    have rs1: "procs ?A1 readyQueue rs" using rs by simp
    have y: "pcbs t p = Some y" using t(2) by simp
    from insertProcQ_represents [where A = ?A1, OF r pf(2) rs1 y h(3)] obtain h' where
      h': "insertProcQ readyQueue p t = Some (t\<lparr>lh_mem := h'\<rparr>)" "represents (t\<lparr>lh_mem := h'\<rparr>) ?B"
      unfolding boot_queues_def by blast
    let ?s' = "t\<lparr>lh_mem := h', processCount := processCount t + 1\<rparr>"
    have d: "distinct (p # fs)" by (rule kernel_inv_procs(1) [where A = A, OF inv pf(1) f])
    have "represents ?s' ?B" using h'(2) represents_cong [of ?s' "t\<lparr>lh_mem := h'\<rparr>"] by simp
    moreover have "tree_ok ?s' ?B" by (rule alloc_tree_ok [OF ok f d, of _ y]) (simp_all add: t)
    moreover have free: "free ?B q \<longleftrightarrow> free A q \<and> q \<noteq> p" for q
      using f d by (auto simp: free_def boot_queues_def queue_of_upd)
    have "?B (P_CHILD q) \<noteq> None \<and> ?B (MSG_INBOX q) \<noteq> None" if "pcbs ?s' q \<noteq> None" "\<not> free ?B q" for q
      using that inv free by (auto simp: boot_queues_def kernel_inv_def t split: if_splits)
    moreover have "live_total ?B = Suc (live_total A)"
      using f length_queue_le [where A = A, OF inv pf(1)] by (simp add: live_total_def boot_queues_def queue_of_upd)
    moreover have "blocked_total ?B = blocked_total A"
      by (simp add: blocked_total_def blocked_heads_def boot_queues_def queue_of_upd)
    ultimately have "kernel_inv ?s' ?B"
      unfolding kernel_inv_def
      using kernel_invD(2-5) [OF inv] x by (simp add: t pcb_table_ok_def msg_table_ok_def del: dom_fun_upd)
    then show ?thesis using h'(1) by blast
  qed
  then show ?thesis using h(1) by blast
qed

section \<open>The boot\<close>

text \<open>What the linker and the static initialisers provide: the two arrays, two empty lists
  (\<^verbatim>\<open>LIST_HEAD\<close>), \<^verbatim>\<open>next_pid = 1\<close>.\<close>

definition static_image :: "sys \<Rightarrow> bool" where
  "static_image s \<longleftrightarrow> pcb_table_ok s \<and> msg_table_ok s \<and> next_pid s = 1 \<and>
     dlist (lh_mem s) pcbFree_h [] \<and> dlist (lh_mem s) msgFree_h []"

definition pools :: "sys \<Rightarrow> queues" where
  "pools s = [pcbFree_h \<mapsto> map P_LIST (pcbTable s), msgFree_h \<mapsto> map M_LIST (rev (msgTable s))]"

definition idle_queues :: "sys \<Rightarrow> queues" where
  "idle_queues s = (pools s)(readyQueue \<mapsto> [], blockedDiskQueue \<mapsto> [], blockedFlashQueue \<mapsto> [],
     blockedEthernetQueue \<mapsto> [], blockedPrinterQueue \<mapsto> [], blockedTerminalTransmQueue \<mapsto> [],
     blockedTerminalRecvQueue \<mapsto> [], pseudoClockQueue \<mapsto> [])"

lemma init_pools:
  assumes st: "static_image s"
  shows "initMsgs (initPcbs s) = s\<lparr>lh_mem := lh_mem (initMsgs (initPcbs s))\<rparr>"
    and "queues_ok (lh_mem (initMsgs (initPcbs s))) (pools s)"
proof -
  let ?A0 = "[pcbFree_h \<mapsto> [], msgFree_h \<mapsto> []] :: queues"
  have ok0: "queues_ok (lh_mem s) ?A0" using st by (auto simp: queues_ok_def static_image_def)
  have n0: "P_LIST p \<notin> nodes ?A0" "M_LIST p \<notin> nodes ?A0" for p by (auto simp: nodes_def split: if_splits)
  have pt: "pcb_table_ok s" "msg_table_ok s" using st by (simp_all add: static_image_def)
  note ip = initPcbs_queues [where A = ?A0, OF ok0 _ pt(1) n0(1)]
  let ?s1 = "initPcbs s" and ?A1 = "?A0(pcbFree_h \<mapsto> map P_LIST (pcbTable s))"
  have s1: "?s1 = s\<lparr>lh_mem := lh_mem ?s1\<rparr>" by (rule ip(1)) simp
  have ok1: "queues_ok (lh_mem ?s1) ?A1" by (rule ip(2)) simp
  have tab: "msgTable ?s1 = msgTable s" by (subst s1) simp
  have mt: "msg_table_ok ?s1" using pt(2) by (subst s1) (simp add: msg_table_ok_def)
  have n1: "M_LIST m \<notin> nodes ?A1" for m by (rule not_nodes_upd [OF n0(2)]) auto
  note im = initMsgs_queues [where A = ?A1, OF ok1 _ mt n1]
  have s2: "initMsgs ?s1 = ?s1\<lparr>lh_mem := lh_mem (initMsgs ?s1)\<rparr>" by (rule im(1)) simp
  show "initMsgs ?s1 = s\<lparr>lh_mem := lh_mem (initMsgs ?s1)\<rparr>"
    by (subst s2, subst s1) simp
  have "queues_ok (lh_mem (initMsgs ?s1)) (?A1(msgFree_h \<mapsto> map M_LIST (rev (msgTable ?s1))))"
    by (rule im(2)) simp
  moreover have "?A1(msgFree_h \<mapsto> map M_LIST (rev (msgTable ?s1))) = pools s"
    unfolding tab pools_def by (rule ext) simp
  ultimately show "queues_ok (lh_mem (initMsgs ?s1)) (pools s)" by simp
qed

lemma init_head:
  assumes ok: "queues_ok (lh_mem s) A" and q: "q \<in> set proc_heads"
    and n: "\<And>p xs. A p = Some xs \<Longrightarrow> q \<notin> set xs"
  shows "queues_ok (lh_mem (mkEmptyProcQ q s)) (A(q \<mapsto> []))" "mkEmptyProcQ q s = s\<lparr>lh_mem := lh_mem (mkEmptyProcQ q s)\<rparr>"
  using queues_ok_init [OF ok n] by (simp_all add: mkEmptyProcQ_def on_lists_def)

primrec with_heads :: "lh list \<Rightarrow> queues \<Rightarrow> queues" where
  "with_heads [] A = A"
| "with_heads (q # qs) A = with_heads qs (A(q \<mapsto> []))"

lemma init_heads:
  assumes ok: "queues_ok (lh_mem s) A" and qs: "set qs \<subseteq> set proc_heads"
    and n: "\<And>p xs q. A p = Some xs \<Longrightarrow> q \<in> set proc_heads \<Longrightarrow> q \<notin> set xs"
  shows "queues_ok (lh_mem (fold mkEmptyProcQ qs s)) (with_heads qs A)
    \<and> fold mkEmptyProcQ qs s = s\<lparr>lh_mem := lh_mem (fold mkEmptyProcQ qs s)\<rparr>"
  using assms
proof (induction qs arbitrary: s A)
  case Nil
  then show ?case by simp
next
  case (Cons q qs)
  have q: "q \<in> set proc_heads" using Cons.prems(2) by simp
  note h = init_head [OF Cons.prems(1) q Cons.prems(3) [OF _ q]]
  have n: "q' \<notin> set xs" if "(A(q \<mapsto> [])) p = Some xs" "q' \<in> set proc_heads" for p xs q'
    using that Cons.prems(3) [of p xs q'] by (auto split: if_splits)
  have qs: "set qs \<subseteq> set proc_heads" using Cons.prems(2) by simp
  have IH: "queues_ok (lh_mem (fold mkEmptyProcQ qs (mkEmptyProcQ q s))) (with_heads qs (A(q \<mapsto> [])))
    \<and> fold mkEmptyProcQ qs (mkEmptyProcQ q s) = (mkEmptyProcQ q s)\<lparr>lh_mem := lh_mem (fold mkEmptyProcQ qs (mkEmptyProcQ q s))\<rparr>"
    by (rule Cons.IH [OF h(1) qs n])
  let ?s' = "fold mkEmptyProcQ qs (mkEmptyProcQ q s)"
  have "?s' = (mkEmptyProcQ q s)\<lparr>lh_mem := lh_mem ?s'\<rparr>" using IH by blast
  also have "\<dots> = s\<lparr>lh_mem := lh_mem ?s'\<rparr>" by (simp add: mkEmptyProcQ_def on_lists_def)
  finally show ?case using IH by simp
qed

text \<open>The state in which the first two processes are created.\<close>

lemma idle_inv:
  assumes st: "static_image s" and t: "t = kernel_queues_init ((initMsgs (initPcbs s))
      \<lparr>processCount := 0, softBlockCount := 0, current_process := NULL\<rparr>)"
  shows "kernel_inv t (idle_queues s)"
    and "t = s\<lparr>lh_mem := lh_mem t, processCount := 0, softBlockCount := 0, current_process := NULL\<rparr>"
proof -
  let ?m = "initMsgs (initPcbs s)"
  let ?u = "?m\<lparr>processCount := 0, softBlockCount := 0, current_process := NULL\<rparr>"
  let ?qs = "[readyQueue, blockedDiskQueue, blockedFlashQueue, blockedEthernetQueue, blockedPrinterQueue,
      blockedTerminalTransmQueue, blockedTerminalRecvQueue, pseudoClockQueue]"
  note ip = init_pools [OF st]
  have ok: "queues_ok (lh_mem ?u) (pools s)" using ip(2) by simp
  have n: "q \<notin> set xs" if "pools s p = Some xs" "q \<in> set proc_heads" for p xs q
    using that by (auto simp: pools_def proc_heads_def blocked_heads_def split: if_splits)
  have qs: "set ?qs \<subseteq> set proc_heads" by (simp add: proc_heads_def blocked_heads_def)
  have "queues_ok (lh_mem (fold mkEmptyProcQ ?qs ?u)) (with_heads ?qs (pools s))
    \<and> fold mkEmptyProcQ ?qs ?u = ?u\<lparr>lh_mem := lh_mem (fold mkEmptyProcQ ?qs ?u)\<rparr>"
    by (rule init_heads [OF ok qs]) (use n in blast)
  then have ih: "queues_ok (lh_mem t) (with_heads ?qs (pools s)) \<and> t = ?u\<lparr>lh_mem := lh_mem t\<rparr>"
    unfolding t kernel_queues_init_def .
  have "with_heads ?qs (pools s) = idle_queues s" by (simp add: idle_queues_def)
  with ih have okt: "queues_ok (lh_mem t) (idle_queues s)" by (simp only:)
  have "t = ?u\<lparr>lh_mem := lh_mem t\<rparr>" using ih by blast
  also have "\<dots> = s\<lparr>lh_mem := lh_mem t, processCount := 0, softBlockCount := 0, current_process := NULL\<rparr>"
    by (subst ip(1)) simp
  finally show eq: "t = s\<lparr>lh_mem := lh_mem t, processCount := 0, softBlockCount := 0, current_process := NULL\<rparr>" .
  have tab: "pcb_table_ok t" "msg_table_ok t"
    using st by (subst eq, simp add: static_image_def pcb_table_ok_def msg_table_ok_def)+
  have f: "pcbs t = pcbs s" "msgs t = msgs s" "softBlockCount t = 0" "processCount t = 0" "current_process t = NULL"
    by (subst eq, simp)+
  have pm: "pcbs s p \<noteq> None \<longleftrightarrow> p \<in> set (pcbTable s)" "msgs s p \<noteq> None \<longleftrightarrow> p \<in> set (msgTable s)" for p
    using st by (auto simp: static_image_def pcb_table_ok_def msg_table_ok_def dom_def set_eq_iff)
  have valid: "lh_valid t q \<and> (\<forall>x \<in> set xs. node_of q x \<and> lh_valid t x)" if "idle_queues s q = Some xs" for q xs
    using that pm by (auto simp: idle_queues_def pools_def proc_heads_def blocked_heads_def f
        split: if_splits)
  have rep: "represents t (idle_queues s)"
    unfolding represents_def using okt valid
    by (auto simp: idle_queues_def pools_def proc_heads_def blocked_heads_def)
  have len: "length (pcbTable s) = MAXPROC" using st by (simp add: static_image_def pcb_table_ok_def)
  have free: "free (idle_queues s) p \<longleftrightarrow> p \<in> set (pcbTable s)" for p
    by (auto simp: free_def idle_queues_def pools_def queue_of_def)
  have nosib: "P_SIB p \<notin> nodes (idle_queues s)" for p
    by (auto simp: nodes_def idle_queues_def pools_def split: if_splits)
  have "tree_ok t (idle_queues s)"
    using pm nosib free by (auto simp: tree_ok_def f idle_queues_def pools_def queue_of_def)
  moreover have "blocked_total (idle_queues s) = 0" "live_total (idle_queues s) = 0"
    using len by (simp_all add: blocked_total_def blocked_heads_def live_total_def idle_queues_def
        pools_def queue_of_def)
  ultimately show "kernel_inv t (idle_queues s)"
    unfolding kernel_inv_def using rep tab f free pm by auto
qed

section \<open>main\<close>

definition boot_pcb :: "u32 \<Rightarrow> u32 \<Rightarrow> u32 \<Rightarrow> u32 \<Rightarrow> pcb_t \<Rightarrow> pcb_t" where
  "boot_pcb pid st sp pc x = (fresh_pcb pid x)\<lparr>p_s := zero_state\<lparr>status := st,
     gpr := (\<lambda>_. 0)(reg_sp := sp, reg_t9 := pc), pc_epc := pc\<rparr>\<rparr>"

definition booted :: "(entry_point \<Rightarrow> u32) \<Rightarrow> sys \<Rightarrow> ptr \<Rightarrow> ptr \<Rightarrow> sys \<Rightarrow> bool" where
  "booted code s p q s' \<longleftrightarrow> ssi_pcb s' = p \<and> new_pcb s' = q \<and> current_process s' = NULL \<and>
     pcbs s' p = map_option (boot_pcb 1 (ALLOFF OR IEPON OR IMON) (RAMTOP s) (code E_SSI)) (pcbs s p) \<and>
     pcbs s' q = map_option (boot_pcb 2 (ALLOFF OR IEPON OR IMON OR TEBITON) (RAMTOP s - 2 * PAGESIZE)
       (code E_test)) (pcbs s q) \<and>
     interval_timer s' = PSECOND \<and> mem s' PASSUPVECTOR = code E_uTLB_RefillHandler \<and>
     mem s' (PASSUPVECTOR + 8) = code E_exceptionHandler"

definition boot_final_queues :: "sys \<Rightarrow> ptr \<Rightarrow> ptr \<Rightarrow> ptr list \<Rightarrow> queues" where
  "boot_final_queues s p q ps = boot_queues (boot_queues (idle_queues s) p (q # ps) []) q ps [p]"

lemma set_status_sp_pc_fresh:
  assumes "pcbs s p = Some (fresh_pcb pid x)"
  shows "set_status_sp_pc p st sp pc s = Some (s\<lparr>pcbs := (pcbs s)(p \<mapsto> boot_pcb pid st sp pc x)\<rparr>)"
  using assms by (simp add: set_status_sp_pc_def upd_pcb_def boot_pcb_def fresh_pcb_def zero_state_def)

lemma main_init_kernel_inv:
  assumes st: "static_image s" and tab: "pcbTable s = p # q # ps"
  shows "\<exists>s'. main_init code s = Some s' \<and> kernel_inv s' (boot_final_queues s p q ps) \<and> booted code s p q s'"
proof -
  let ?s4 = "store (PASSUPVECTOR + 12) KERNELSTACK (store (PASSUPVECTOR + 8) (code E_exceptionHandler)
      (store (PASSUPVECTOR + 4) KERNELSTACK (store PASSUPVECTOR (code E_uTLB_RefillHandler) s)))"
  define t where "t = kernel_queues_init ((initMsgs (initPcbs ?s4))
      \<lparr>processCount := 0, softBlockCount := 0, current_process := NULL\<rparr>)"
  have st4: "static_image ?s4"
    using st by (simp add: static_image_def store_def pcb_table_ok_def msg_table_ok_def)
  note iv = idle_inv [OF st4 t_def]
  have iq: "idle_queues ?s4 = idle_queues s" by (simp add: idle_queues_def pools_def store_def)
  define s9 where "s9 = t\<lparr>interval_timer := PSECOND, ssi_pcb := NULL\<rparr>"
  have s9: "s9 = ?s4\<lparr>lh_mem := lh_mem t, processCount := 0, softBlockCount := 0, current_process := NULL,
      interval_timer := PSECOND, ssi_pcb := NULL\<rparr>"
    unfolding s9_def by (subst iv(2)) simp
  have f9: "pcbs s9 = pcbs s" "next_pid s9 = 1" "current_process s9 = NULL" "pcbTable s9 = pcbTable s"
    "RAMTOP s9 = RAMTOP s" "mem s9 = mem ?s4" "interval_timer s9 = PSECOND"
    using st unfolding s9 by (simp_all add: store_def static_image_def RAMTOP_def)
  have inv9: "kernel_inv s9 (idle_queues s)"
    unfolding s9_def by (rule kernel_inv_cong [OF _ _ _ _ _ _ _ _ iv(1) [unfolded iq]]) simp_all
  have pq: "p \<noteq> q" "pcbs s p \<noteq> None" "pcbs s q \<noteq> None"
    using st tab by (auto simp: static_image_def pcb_table_ok_def dom_def set_eq_iff)
  obtain x y where x: "pcbs s p = Some x" and y: "pcbs s q = Some y" using pq by blast
  let ?A0 = "idle_queues s" and ?A1 = "boot_queues (idle_queues s) p (q # ps) []"
  have fr: "procs ?A0 pcbFree_h (p # q # ps)" "procs ?A0 readyQueue []"
    using tab by (simp_all add: idle_queues_def pools_def)
  let ?x = "boot_pcb 1 (ALLOFF OR IEPON OR IMON) (RAMTOP s) (code E_SSI) x"
  have par: "p_parent (boot_pcb a b c d z) = NULL" for a b c d z by (simp add: boot_pcb_def fresh_pcb_def)
  from boot_process [where A = ?A0 and y = ?x, OF inv9 fr f9(1) [THEN fun_cong, of p, unfolded x] f9(3)]
  obtain h where h: "allocPcb s9 = Some (p, s9\<lparr>lh_mem := h, pcbs := (pcbs s)(p \<mapsto> fresh_pcb 1 x), next_pid := 2\<rparr>)"
    "\<And>t. lh_mem t = h \<and> pcbs t = (pcbs s)(p \<mapsto> ?x) \<and> p_parent ?x = NULL \<and> msgs t = msgs s9 \<and>
        pcbTable t = pcbTable s9 \<and> msgTable t = msgTable s9 \<and> softBlockCount t = softBlockCount s9 \<and>
        processCount t = processCount s9 \<and> current_process t = NULL \<Longrightarrow>
      (\<exists>h'. insertProcQ readyQueue p t = Some (t\<lparr>lh_mem := h'\<rparr>) \<and>
        kernel_inv (t\<lparr>lh_mem := h', processCount := processCount t + 1\<rparr>) ?A1)"
    unfolding f9 by auto
  let ?s12 = "s9\<lparr>lh_mem := h, next_pid := 2, ssi_pcb := p, pcbs := (pcbs s)(p \<mapsto> ?x)\<rparr>"
  have "\<exists>h'. insertProcQ readyQueue p ?s12 = Some (?s12\<lparr>lh_mem := h'\<rparr>) \<and>
        kernel_inv (?s12\<lparr>lh_mem := h', processCount := processCount ?s12 + 1\<rparr>) ?A1"
    by (rule h(2)) (simp add: par f9(3))
  then obtain h1 where h1: "insertProcQ readyQueue p ?s12 = Some (?s12\<lparr>lh_mem := h1\<rparr>)"
    "kernel_inv (?s12\<lparr>lh_mem := h1, processCount := processCount ?s12 + 1\<rparr>) ?A1" by blast
  define s15 where "s15 = ?s12\<lparr>lh_mem := h1, processCount := processCount ?s12 + 1, new_pcb := NULL\<rparr>"
  have inv15: "kernel_inv s15 ?A1"
    unfolding s15_def by (rule kernel_inv_cong [OF _ _ _ _ _ _ _ _ h1(2)]) simp_all
  have f15: "pcbs s15 = (pcbs s)(p \<mapsto> ?x)" "next_pid s15 = 2" "current_process s15 = NULL" "ssi_pcb s15 = p"
    "RAMTOP s15 = RAMTOP s" "mem s15 = mem ?s4" "interval_timer s15 = PSECOND"
    unfolding s15_def using f9 by (simp_all add: RAMTOP_def)
  have y15: "pcbs s15 q = Some y" using y pq by (simp add: f15)
  have fr1: "procs ?A1 pcbFree_h (q # ps)" "procs ?A1 readyQueue [p]"
    by (simp_all add: boot_queues_def)
  let ?y = "boot_pcb 2 (ALLOFF OR IEPON OR IMON OR TEBITON) (RAMTOP s - 2 * PAGESIZE) (code E_test) y"
  let ?A2 = "boot_queues ?A1 q ps [p]"
  from boot_process [where A = ?A1 and y = ?y, OF inv15 fr1 y15 f15(3)]
  obtain k where k: "allocPcb s15 = Some (q, s15\<lparr>lh_mem := k, pcbs := (pcbs s15)(q \<mapsto> fresh_pcb 2 y), next_pid := 3\<rparr>)"
    "\<And>t. lh_mem t = k \<and> pcbs t = (pcbs s15)(q \<mapsto> ?y) \<and> p_parent ?y = NULL \<and> msgs t = msgs s15 \<and>
        pcbTable t = pcbTable s15 \<and> msgTable t = msgTable s15 \<and> softBlockCount t = softBlockCount s15 \<and>
        processCount t = processCount s15 \<and> current_process t = NULL \<Longrightarrow>
      (\<exists>h'. insertProcQ readyQueue q t = Some (t\<lparr>lh_mem := h'\<rparr>) \<and>
        kernel_inv (t\<lparr>lh_mem := h', processCount := processCount t + 1\<rparr>) ?A2)"
    unfolding f15(2) by auto
  let ?s18 = "s15\<lparr>lh_mem := k, next_pid := 3, new_pcb := q, pcbs := (pcbs s15)(q \<mapsto> ?y)\<rparr>"
  have "\<exists>h'. insertProcQ readyQueue q ?s18 = Some (?s18\<lparr>lh_mem := h'\<rparr>) \<and>
        kernel_inv (?s18\<lparr>lh_mem := h', processCount := processCount ?s18 + 1\<rparr>) ?A2"
    by (rule k(2)) (simp add: par f15(3))
  then obtain k1 where k1: "insertProcQ readyQueue q ?s18 = Some (?s18\<lparr>lh_mem := k1\<rparr>)"
    "kernel_inv (?s18\<lparr>lh_mem := k1, processCount := processCount ?s18 + 1\<rparr>) ?A2" by blast
  let ?s' = "?s18\<lparr>lh_mem := k1, processCount := processCount ?s18 + 1\<rparr>"
  have "main_init code s = Some ?s'"
  proof -
    have l: "LDIT PSECOND (kernel_queues_init ((initMsgs (initPcbs ?s4))
      \<lparr>processCount := 0, softBlockCount := 0, current_process := NULL\<rparr>))\<lparr>ssi_pcb := NULL\<rparr> = s9"
      by (simp add: s9_def t_def LDIT_def)
    have a: "set_status_sp_pc p (ALLOFF OR IEPON OR IMON) (RAMTOP s) (code E_SSI)
        (s9\<lparr>lh_mem := h, pcbs := (pcbs s)(p \<mapsto> fresh_pcb 1 x), next_pid := 2, ssi_pcb := p\<rparr>) = Some ?s12"
      by (subst set_status_sp_pc_fresh [of _ _ 1 x]) simp_all
    have b: "set_status_sp_pc q (ALLOFF OR IEPON OR IMON OR TEBITON) (RAMTOP s - 2 * PAGESIZE) (code E_test)
        (s15\<lparr>lh_mem := k, pcbs := (pcbs s15)(q \<mapsto> fresh_pcb 2 y), next_pid := 3, new_pcb := q\<rparr>) = Some ?s18"
      by (subst set_status_sp_pc_fresh [of _ _ 2 y]) simp_all
    have c: "(?s12\<lparr>lh_mem := h1\<rparr>)\<lparr>processCount := processCount (?s12\<lparr>lh_mem := h1\<rparr>) + 1\<rparr>\<lparr>new_pcb := NULL\<rparr> = s15"
      by (simp add: s15_def)
    have r: "RAMTOP (s9\<lparr>lh_mem := h, pcbs := (pcbs s)(p \<mapsto> fresh_pcb 1 x), next_pid := 2, ssi_pcb := p\<rparr>) = RAMTOP s"
      "RAMTOP (s15\<lparr>lh_mem := k, pcbs := (pcbs s15)(q \<mapsto> fresh_pcb 2 y), next_pid := 3, new_pcb := q\<rparr>) = RAMTOP s"
      using f9(5) f15(5) by (simp_all add: RAMTOP_def)
    show ?thesis
      unfolding main_init_def Let_def
      by (simp only: l h(1) Option.bind.bind_lunit prod.case r a h1(1) c k(1) b k1(1)) simp
  qed
  moreover have "booted code s p q ?s'"
    using f15 x y pq by (simp add: booted_def store_def)
  ultimately show ?thesis using k1(2) by (auto simp: boot_final_queues_def)
qed

end
