(* ===== verification/Passup.thy ===== *)
theory Passup
  imports Boot
begin

text \<open>
  The exceptions that are not interrupts: pass-up-or-die, the system call handler on every branch,
  and what the dispatchers select.
\<close>

section \<open>passUpOrDie\<close>

text \<open>The state after the exception has been stored for the support level.\<close>

definition passed_up :: "nat \<Rightarrow> ptr \<Rightarrow> support_t \<Rightarrow> sys \<Rightarrow> sys" where
  "passed_up k p u s = s\<lparr>supports := (supports s)(p \<mapsto>
     u\<lparr>sup_exceptState := (sup_exceptState u)(k := exception_state s)\<rparr>)\<rparr>"

lemma passUpOrDie_up:
  assumes "pcbs s (current_process s) = Some x" "p_supportStruct x \<noteq> NULL"
    and "supports s (p_supportStruct x) = Some u"
  shows "passUpOrDie k s = Some (LDCXT (stackPtr (sup_exceptContext u k)) (c_status (sup_exceptContext u k))
      (c_pc (sup_exceptContext u k)), passed_up k (p_supportStruct x) u s)"
  using assms by (simp add: passUpOrDie_def upd_support_def passed_up_def Let_def)

lemma passed_up_kernel_inv: "kernel_inv s A \<Longrightarrow> kernel_inv (passed_up k p u s) A"
  by (rule kernel_inv_cong [of "passed_up k p u s" s]) (simp_all add: passed_up_def)

text \<open>Death: the current process with its progeny, then the scheduler.\<close>

lemma passUpOrDie_die:
  assumes inv: "kernel_inv s A" and x: "pcbs s (current_process s) = Some x" "p_supportStruct x = NULL"
    and t: "terminable s A t" "root t = current_process s" and rs: "procs A readyQueue rs"
  shows "\<exists>s1 B. terminateProcess (current_process s) s = Some s1 \<and> passUpOrDie k s = scheduler s1 \<and>
    kernel_inv (s1\<lparr>current_process := NULL\<rparr>) B \<and> procs B readyQueue rs \<and>
    queue_of B pcbFree_h = queue_of A pcbFree_h @ map P_LIST (members t) \<and>
    (\<forall>p. set (queue_of B (P_CHILD p)) \<subseteq> set (queue_of A (P_CHILD p))) \<and>
    pcbs s1 = orphan (members t) (pcbs s)"
proof -
  from terminateProcess_kernel_inv [where A = A and c = NULL, OF inv t(1)] t(2) obtain s1 B where
    s1: "terminateProcess (current_process s) s = Some s1" "kernel_inv (s1\<lparr>current_process := NULL\<rparr>) B"
    "queue_of B pcbFree_h = queue_of A pcbFree_h @ map P_LIST (members t)"
    "\<forall>q. q \<notin> set (pcbFree_h # blocked_heads) \<longrightarrow> \<not> is_child_head q \<longrightarrow> B q = A q" "pcbs s1 = orphan (members t) (pcbs s)"
    "\<forall>p. set (queue_of B (P_CHILD p)) \<subseteq> set (queue_of A (P_CHILD p))" by auto
  have "B readyQueue = A readyQueue" using s1(4) by (simp add: blocked_heads_def)
  moreover have "passUpOrDie k s = scheduler s1" using x s1(1) by (simp add: passUpOrDie_def)
  ultimately show ?thesis using s1(1,2,3,5,6) rs by (intro exI [of _ s1] exI [of _ B] conjI) simp_all
qed

lemma scheduler_runs:
  assumes inv: "kernel_inv (s\<lparr>current_process := NULL\<rparr>) A" and q: "procs A readyQueue rs"
  shows "\<exists>c s'. scheduler s = Some (c, s') \<and> kernel_inv s' (A(readyQueue \<mapsto> map P_LIST (tl rs)))"
  using scheduler_kernel_inv [where A = A, OF inv q] by (simp add: scheduler_current)

section \<open>System calls\<close>

text \<open>The bit the handler tests is KUc: bit 1 of the status word.\<close>

lemma user_bit: "(drop_bit 31 (push_bit 30 (w :: u32)) \<noteq> 0) = bit w 1"
proof -
  have "bit (drop_bit 31 (push_bit 30 w)) n = (n = 0 \<and> bit w 1)" for n
    by (auto simp: bit_simps dest: bit_imp_le_length)
  then show ?thesis by (metis bit_eq_iff bit_0_eq bot_apply bot_bool_def)
qed

definition trapped :: "sys \<Rightarrow> sys" where
  "trapped s = s\<lparr>exception_state := (exception_state s)\<lparr>cause :=
     (cause (exception_state s) AND CLEAREXECCODE) OR push_bit CAUSESHIFT PRIVINSTR\<rparr>\<rparr>"

lemma syscallHandler_user:
  "bit (status (exception_state s)) 1 \<Longrightarrow> syscallHandler s = passUpOrDie GENERALEXCEPT (trapped s)"
  by (simp add: syscallHandler_def user_bit trapped_def)

lemma syscallHandler_unknown:
  assumes "\<not> bit (status (exception_state s)) 1" "reg reg_a0 s \<notin> {SENDMESSAGE, RECEIVEMESSAGE}"
  shows "syscallHandler s = passUpOrDie GENERALEXCEPT s"
  using assms by (simp add: syscallHandler_def user_bit Let_def)

definition returned :: "u32 \<Rightarrow> sys \<Rightarrow> sys" where
  "returned r s = advance_pc (set_exc_reg reg_v0 r s)"

lemma syscallHandler_send:
  assumes "\<not> bit (status (exception_state s)) 1" "reg reg_a0 s = SENDMESSAGE"
  shows "syscallHandler s = map_option (\<lambda>(r, s1). (LDST (exception_state (returned r s1)), returned r s1))
     (send (current_process s) (reg reg_a1 s) (reg reg_a2 s) s)"
  using assms by (auto simp: syscallHandler_def user_bit returned_def Let_def split: bind_split option.split)

lemma syscallHandler_recv:
  assumes "\<not> bit (status (exception_state s)) 1" "reg reg_a0 s = RECEIVEMESSAGE"
  shows "syscallHandler s = map_option (\<lambda>(c, s1).
       if c = RETURN then (LDST (exception_state (advance_pc s1)), advance_pc s1) else (c, s1))
     (recv (reg reg_a1 s) (reg reg_a2 s) s)"
  using assms by (auto simp: syscallHandler_def user_bit Let_def split: bind_split option.split)

section \<open>Dispatch\<close>

lemma kernel_inv_exc:
  "kernel_inv s A \<Longrightarrow> kernel_inv (trapped s) A"
  "kernel_inv s A \<Longrightarrow> kernel_inv (returned r s) A"
  "kernel_inv s A \<Longrightarrow> kernel_inv (advance_pc s) A"
  by (rule kernel_inv_cong [of _ s]; simp add: trapped_def returned_def advance_pc_def set_exc_reg_def)+

text \<open>What the exception dispatcher calls, by exception code.\<close>

datatype exc_target = To_Interrupts | To_TLB | To_Trap | To_Syscall | To_Nothing

definition exc_code :: "sys \<Rightarrow> nat" where
  "exc_code s = unat (cp0_cause s) div 4 mod 32"

definition exc_target :: "nat \<Rightarrow> exc_target" where
  "exc_target k = (if k = 0 then To_Interrupts else if k \<le> 3 then To_TLB else if k \<le> 7 then To_Trap
     else if k = 8 then To_Syscall else if k \<le> 12 then To_Trap else To_Nothing)"

lemma exc_code_word: "drop_bit CAUSESHIFT (cp0_cause s AND GETEXECCODE) = of_nat (exc_code s)"
proof -
  have b: "drop_bit 2 (w AND 0x7C) = take_bit 5 (drop_bit 2 (w :: u32))" for w
    by (rule bit_word_eqI) (auto simp: bit_simps bit_numeral_rec less_Suc_eq numeral_eq_Suc)
  have "unat (drop_bit 2 (cp0_cause s AND GETEXECCODE)) = exc_code s"
  proof -
    have "unat (take_bit 5 (drop_bit 2 w)) = take_bit 5 (drop_bit 2 (unat w))" for w :: u32
      by (simp only: unsigned_take_bit_eq unat_drop_bit_eq)
    moreover have "take_bit 5 (drop_bit 2 n) = n div 4 mod 32" for n :: nat
      by (simp add: take_bit_eq_mod drop_bit_eq_div)
    ultimately show ?thesis unfolding b exc_code_def by simp
  qed
  then show ?thesis by (metis of_nat_unat ucast_id)
qed

end
