(* ===== verification/Forest.thy ===== *)
theory Forest
  imports Passup
begin

text \<open>
  The process tree has no cycles: a second invariant, kept by every operation that adds or removes a
  child, from which every allocated process is the root of a finite tree whose members are exactly
  its descendants.  This is what makes the recursion of \<open>terminateProcess\<close> end.
\<close>

section \<open>The relation between parents and children\<close>

definition child_rel :: "queues \<Rightarrow> (ptr \<times> ptr) set" where
  "child_rel A = {(p, c). P_SIB c \<in> set (queue_of A (P_CHILD p))}"

definition forest :: "queues \<Rightarrow> bool" where
  "forest A \<longleftrightarrow> acyclic (child_rel A)"

lemma forest_subset:
  assumes "\<And>p. set (queue_of B (P_CHILD p)) \<subseteq> set (queue_of A (P_CHILD p))"
  shows "forest A \<Longrightarrow> forest B"
  unfolding forest_def by (erule acyclic_subset) (use assms in \<open>auto simp: child_rel_def\<close>)

lemma forest_same:
  assumes "\<And>p. B (P_CHILD p) = A (P_CHILD p)"
  shows "forest A \<Longrightarrow> forest B"
  by (rule forest_subset) (simp_all add: queue_of_def assms)

lemma forest_upd: "\<not> is_child_head q \<Longrightarrow> forest A \<Longrightarrow> forest (A(q \<mapsto> xs))"
  by (rule forest_same) auto

text \<open>A new process is a leaf.\<close>

lemma forest_created:
  assumes inv: "kernel_inv s A" and f: "procs A pcbFree_h (p # fs)" and ch: "children A prnt cs"
    and prnt: "\<not> free A prnt" and ac: "forest A"
  shows "forest (created_queues A p fs rs prnt cs)"
proof -
  have pf: "free A p" using f by (simp add: free_def)
  have e: "queue_of A (P_CHILD p) = []" using inv pf by (simp add: kernel_inv_def tree_ok_def)
  have ne: "prnt \<noteq> p" using pf prnt by blast
  have "child_rel (created_queues A p fs rs prnt cs) \<subseteq> insert (prnt, p) (child_rel A)"
    using ch e ne by (auto simp: child_rel_def created_queues_def queue_of_upd split: if_splits)
  moreover have "(p, prnt) \<notin> (child_rel A)\<^sup>*"
    using e ne by (auto elim: converse_rtranclE simp: child_rel_def)
  then have "acyclic (insert (prnt, p) (child_rel A))" using ac by (simp add: forest_def acyclic_insert)
  ultimately show ?thesis unfolding forest_def by (rule acyclic_subset [rotated])
qed

section \<open>Every process is the root of a finite tree\<close>

lemma child_rel_facts:
  assumes inv: "kernel_inv s A" and pc: "(p, c) \<in> child_rel A"
  shows "map_option p_parent (pcbs s c) = Some p" "pcbs s p \<noteq> None" "\<not> free A c" "\<not> free A p"
proof -
  have sib: "P_SIB c \<in> set (queue_of A (P_CHILD p))" using pc by (simp add: child_rel_def)
  then obtain xs where xs: "A (P_CHILD p) = Some xs" "P_SIB c \<in> set xs"
    by (cases "A (P_CHILD p)") (auto simp: queue_of_def)
  show "pcbs s p \<noteq> None" using msg_head_represents [OF kernel_invD(1) [OF inv] xs(1)] by auto
  show "map_option p_parent (pcbs s c) = Some p" "\<not> free A c" "\<not> free A p"
    using inv sib queue_of_nodes by (auto simp: kernel_inv_def tree_ok_def)
qed

lemma child_rel_parent: "kernel_inv s A \<Longrightarrow> single_valued ((child_rel A)\<inverse>)"
  by (rule single_valuedI) (metis child_rel_facts(1) converse_iff option.inject)

lemma child_rel_finite:
  assumes inv: "kernel_inv s A"
  shows "finite (child_rel A)"
proof -
  have "child_rel A \<subseteq> dom (pcbs s) \<times> dom (pcbs s)"
    using child_rel_facts(1,2) [OF inv] by (force simp: dom_def)
  moreover have "finite (dom (pcbs s))"
    using kernel_invD(2) [OF inv] by (metis List.finite_set pcb_table_ok_def)
  ultimately show ?thesis by (metis finite_SigmaI finite_subset)
qed

lemma siblings_apart:
  assumes inv: "kernel_inv s A" and ac: "forest A"
    and c: "(p, c) \<in> child_rel A" "(p, d) \<in> child_rel A" "c \<noteq> d"
    and x: "(c, x) \<in> (child_rel A)\<^sup>*" "(d, x) \<in> (child_rel A)\<^sup>*"
  shows False
proof -
  let ?R = "child_rel A"
  have no: False if cd: "(a, b) \<in> ?R\<^sup>*" "a \<noteq> b" "(p, a) \<in> ?R" "(p, b) \<in> ?R" for a b
  proof -
    from cd(1,2) obtain e where e: "(a, e) \<in> ?R\<^sup>*" "(e, b) \<in> ?R" by (metis rtranclE)
    have "e = p" using e(2) cd(4) child_rel_parent [OF inv] by (metis converse_iff single_valuedD)
    then have "(p, p) \<in> ?R\<^sup>+" using e(1) cd(3) by (metis rtrancl_into_trancl2)
    then show False using ac by (simp add: forest_def acyclic_def)
  qed
  have "(c, d) \<in> ?R\<^sup>* \<or> (d, c) \<in> ?R\<^sup>*"
    using single_valued_confluent [OF child_rel_parent [OF inv], of x c d] x by (auto simp: rtrancl_converse)
  then show False using no [of c d] no [of d c] c by blast
qed

lemma forest_tree:
  assumes inv: "kernel_inv s A" and ac: "forest A"
  shows "pcbs s p \<noteq> None \<Longrightarrow> \<not> free A p \<Longrightarrow>
    \<exists>t. root t = p \<and> tree_at A t \<and> distinct (members t) \<and> set (members t) = {q. (p, q) \<in> (child_rel A)\<^sup>*}"
proof (induction p rule: wf_induct_rule [OF finite_acyclic_wf_converse [OF child_rel_finite [OF inv] ac [unfolded forest_def]]])
  case (1 p)
  let ?R = "child_rel A"
  have "A (P_CHILD p) \<noteq> None" using "1.prems" inv by (simp add: kernel_inv_def)
  then obtain cs where cs: "children A p cs"
    using represents_children [OF kernel_invD(1) [OF inv], of p] by auto
  have R: "(p, c) \<in> ?R \<longleftrightarrow> c \<in> set cs" for c using cs by (auto simp: child_rel_def)
  have dcs: "distinct cs"
    using represents_dlist [OF kernel_invD(1) [OF inv] cs] by (simp add: dlist_def distinct_map)
  have "\<exists>t. root t = c \<and> tree_at A t \<and> distinct (members t) \<and> set (members t) = {q. (c, q) \<in> ?R\<^sup>*}"
    if "c \<in> set cs" for c
    using "1.IH" [of c] that R [of c] child_rel_facts [OF inv, of p c] by force
  then obtain f where f: "\<And>c. c \<in> set cs \<Longrightarrow> root (f c) = c \<and> tree_at A (f c) \<and> distinct (members (f c)) \<and>
      set (members (f c)) = {q. (c, q) \<in> ?R\<^sup>*}" by metis
  have fm: "set (members (f c)) = {q. (c, q) \<in> ?R\<^sup>*}" if "c \<in> set cs" for c using f [OF that] by blast
  have disj: "distinct (concat (map (members \<circ> f) cs))"
  proof (rule distinct_concat_map [OF dcs])
    fix c d assume cd: "c \<in> set cs" "d \<in> set cs" "c \<noteq> d"
    then show "set ((members \<circ> f) c) \<inter> set ((members \<circ> f) d) = {}"
      using siblings_apart [OF inv ac, of p c d] fm [OF cd(1)] fm [OF cd(2)] R by auto
  qed (use f in simp)
  have pn: "p \<notin> set (members (f c))" if "c \<in> set cs" for c
  proof
    assume "p \<in> set (members (f c))"
    then have "(c, p) \<in> ?R\<^sup>*" using fm [OF that] by simp
    then have "(p, p) \<in> ?R\<^sup>+" using R [of c] that by (metis rtrancl_into_trancl2)
    then show False using ac by (simp add: forest_def acyclic_def)
  qed
  have reach: "{q. (p, q) \<in> ?R\<^sup>*} = insert p (\<Union>c \<in> set cs. {q. (c, q) \<in> ?R\<^sup>*})"
    using R by (auto elim: converse_rtranclE intro: converse_rtrancl_into_rtrancl)
  let ?t = "PNode p (map f cs)"
  have "tree_at A ?t" using cs f by (simp add: comp_def cong: map_cong)
  moreover have "distinct (members ?t)" using disj pn by (auto simp: comp_def)
  moreover have "set (members ?t) = {q. (p, q) \<in> ?R\<^sup>*}" unfolding reach using fm by auto
  ultimately show ?case by (intro exI [of _ ?t]) simp
qed

end
