(* ===== verification/Nucleus.thy ===== *)
theory Nucleus
  imports Forest
begin

text \<open>
  The nucleus as one transition system.  The conditions under which each entry point works are
  computed from the state itself (\<open>queue\<close> reads a list back from the list memory); under its guard
  every entry point returns a result and keeps the invariant.
\<close>

section \<open>Reading a list back\<close>

primrec walk :: "nat \<Rightarrow> list_head \<Rightarrow> lh \<Rightarrow> lh \<Rightarrow> lh list" where
  "walk 0 h q x = []"
| "walk (Suc n) h q x = (if x = q then [] else x # walk n h q (nxt h x))"

definition queue :: "sys \<Rightarrow> lh \<Rightarrow> lh list" where
  "queue s q = walk 64 (lh_mem s) q (nxt (lh_mem s) q)"

lemma walk_links:
  "links h a xs q \<Longrightarrow> q \<notin> set xs \<Longrightarrow> length xs < n \<Longrightarrow> walk n h q (nxt h a) = xs"
proof (induction xs arbitrary: a n)
  case Nil
  then show ?case by (cases n) auto
next
  case (Cons x xs)
  then show ?case by (cases n) auto
qed

lemma kernel_inv_length:
  assumes inv: "kernel_inv s A" and q: "A q = Some xs"
  shows "length xs \<le> 50"
proof -
  have rep: "represents s A" by (rule kernel_invD(1) [OF inv])
  have d: "distinct xs" using represents_dlist [OF rep q] by (simp add: dlist_def)
  have n: "node_of q x" "lh_valid s x" if "x \<in> set xs" for x
    using represents_node [OF rep q that] by auto
  have cp: "card (dom (pcbs s)) = 50" "finite (dom (pcbs s))"
    using kernel_invD(2) [OF inv] by (auto simp: pcb_table_ok_def distinct_card)
  have cm: "card (dom (msgs s)) = 50" "finite (dom (msgs s))"
    using kernel_invD(3) [OF inv] by (auto simp: msg_table_ok_def distinct_card)
  have sub: "set xs \<subseteq> P_LIST ` dom (pcbs s) \<or> set xs \<subseteq> P_SIB ` dom (pcbs s) \<or> set xs \<subseteq> M_LIST ` dom (msgs s)"
  proof -
    have "q \<in> set proc_heads \<or> is_child_head q \<or> is_msg_head q" if "node_of q x" for x
      using that by (cases x) auto
    then consider "q \<in> set proc_heads" | "is_child_head q" | "is_msg_head q" | "\<forall>x. \<not> node_of q x"
      by blast
    then show ?thesis
    proof cases
      case 1
      then have "x \<in> P_LIST ` dom (pcbs s)" if "x \<in> set xs" for x
        using n [OF that] node_of_proc [OF 1] by (metis domI image_eqI lh_valid.simps(2) not_None_eq)
      then show ?thesis by blast
    next
      case 2
      then obtain p where p: "q = P_CHILD p" by (cases q) auto
      have "x \<in> P_SIB ` dom (pcbs s)" if "x \<in> set xs" for x
        using n [OF that] node_of_child unfolding p by (metis domI image_eqI lh_valid.simps(4) not_None_eq)
      then show ?thesis by blast
    next
      case 3
      then have "x \<in> M_LIST ` dom (msgs s)" if "x \<in> set xs" for x
        using n [OF that] node_of_msg [OF 3] by (metis domI image_eqI lh_valid.simps(6) not_None_eq)
      then show ?thesis by blast
    next
      case 4
      then show ?thesis using n by (cases xs) auto
    qed
  qed
  have le: "card (set xs) \<le> card D" if "set xs \<subseteq> f ` D" "finite D" for f :: "ptr \<Rightarrow> lh" and D
    using card_mono [OF finite_imageI [OF that(2)] that(1)] card_image_le [OF that(2), of f] by linarith
  have "card (set xs) \<le> 50"
    using sub le [OF _ cp(2)] le [OF _ cm(2)] cp(1) cm(1) by metis
  then show ?thesis using d by (simp add: distinct_card)
qed

lemma queue_eq:
  assumes inv: "kernel_inv s A" and q: "A q = Some xs"
  shows "queue s q = xs"
  using walk_links [of "lh_mem s" q xs q 64] kernel_inv_length [OF assms]
    represents_dlist [OF kernel_invD(1) [OF inv] q]
  by (simp add: queue_def dlist_def)

definition nucleus_ok :: "sys \<Rightarrow> bool" where
  "nucleus_ok s \<longleftrightarrow> (\<exists>A. kernel_inv s A \<and> forest A)"

section \<open>What a process is doing\<close>

definition ready :: "sys \<Rightarrow> ptr \<Rightarrow> bool" where
  "ready s p \<longleftrightarrow> P_LIST p \<in> set (queue s readyQueue)"

definition allocated :: "sys \<Rightarrow> ptr \<Rightarrow> bool" where
  "allocated s p \<longleftrightarrow> pcbs s p \<noteq> None \<and> P_LIST p \<notin> set (queue s pcbFree_h)"

definition linked :: "sys \<Rightarrow> ptr \<Rightarrow> bool" where
  "linked s p \<longleftrightarrow> (\<exists>q \<in> set proc_heads. P_LIST p \<in> set (queue s q))"

definition some_message :: "sys \<Rightarrow> bool" where
  "some_message s \<longleftrightarrow> queue s msgFree_h \<noteq> []"

lemma global_queue:
  assumes "kernel_inv s A" "q \<in> set proc_heads"
  shows "A q = Some (queue s q)"
  using represents_global [OF kernel_invD(1) [OF assms(1)], of q] assms(2) queue_eq [OF assms(1)] by auto

lemma msgFree_queue: "kernel_inv s A \<Longrightarrow> A msgFree_h = Some (queue s msgFree_h)"
  using represents_global [OF kernel_invD(1), of s A msgFree_h] queue_eq by fastforce

text \<open>The family can be chosen without lists headed by a queue link.\<close>

definition proper :: "queues \<Rightarrow> bool" where
  "proper A \<longleftrightarrow> (\<forall>p. A (P_LIST p) = None)"

fun keep_heads :: "queues \<Rightarrow> queues" where
  "keep_heads A (P_LIST p) = None"
| "keep_heads A q = A q"

lemma keep_heads_cases: "keep_heads A q = A q \<or> keep_heads A q = None"
  by (cases q) auto

lemma keep_heads_other: "(\<And>p. q \<noteq> P_LIST p) \<Longrightarrow> keep_heads A q = A q"
  by (cases q) auto

lemma keep_heads_global: "q \<in> set (msgFree_h # proc_heads) \<Longrightarrow> keep_heads A q = A q"
  by (rule keep_heads_other) (auto simp: proc_heads_def blocked_heads_def)

lemma kernel_inv_keep_heads:
  assumes inv: "kernel_inv s A"
  shows "kernel_inv s (keep_heads A)"
proof -
  let ?B = "keep_heads A"
  have sub: "A q = Some xs" if "?B q = Some xs" for q xs using that keep_heads_cases [of A q] by auto
  have nd: "nodes ?B \<subseteq> nodes A" using sub by (auto simp: nodes_def)
  have qo: "queue_of ?B (P_CHILD p) = queue_of A (P_CHILD p)" for p by (simp add: queue_of_def)
  have qg: "queue_of ?B q = queue_of A q" if "q \<in> set (msgFree_h # proc_heads)" for q
    using keep_heads_global [OF that] by (simp add: queue_of_def)
  have fr: "free ?B p = free A p" for p unfolding free_def by (subst qg) (simp_all add: proc_heads_def)
  have "represents s ?B"
  proof -
    have ok: "queues_ok (lh_mem s) A" using kernel_invD(1) [OF inv] by (simp add: represents_def)
    have "queues_ok (lh_mem s) ?B"
      unfolding queues_ok_def
      using queues_okD [OF ok] queues_ok_disjoint [OF ok] sub by (intro conjI allI impI) blast+
    moreover have "set (msgFree_h # proc_heads) \<subseteq> dom ?B"
      using keep_heads_global kernel_invD(1) [OF inv] unfolding represents_def by (metis domIff subsetD subsetI)
    ultimately show ?thesis
      using sub kernel_invD(1) [OF inv] unfolding represents_def by (intro conjI) blast+
  qed
  moreover have "tree_ok s ?B"
    using inv nd unfolding kernel_inv_def tree_ok_def qo fr by auto
  moreover have "blocked_total ?B = blocked_total A"
    unfolding blocked_total_def
    by (rule arg_cong [where f = sum_list], rule map_cong) (auto simp: proc_heads_def qg)
  moreover have "live_total ?B = live_total A"
    unfolding live_total_def by (subst qg) (simp_all add: proc_heads_def)
  ultimately show ?thesis using inv nd fr unfolding kernel_inv_def by auto
qed

lemma nucleus_okE:
  assumes "nucleus_ok s"
  obtains A where "kernel_inv s A" "forest A" "proper A"
proof -
  from assms obtain A where A: "kernel_inv s A" "forest A" by (auto simp: nucleus_ok_def)
  have "kernel_inv s (keep_heads A)" by (rule kernel_inv_keep_heads [OF A(1)])
  moreover have "forest (keep_heads A)" by (rule forest_same [OF _ A(2)]) simp
  ultimately show ?thesis by (rule that) (simp add: proper_def)
qed

lemma linked_iff:
  assumes inv: "kernel_inv s A" and A: "proper A"
  shows "linked s p \<longleftrightarrow> P_LIST p \<in> nodes A"
proof
  assume "linked s p"
  then show "P_LIST p \<in> nodes A"
    using global_queue [OF inv] by (auto simp: linked_def intro: nodesI2)
next
  assume "P_LIST p \<in> nodes A"
  then obtain q xs where q: "A q = Some xs" "P_LIST p = q \<or> P_LIST p \<in> set xs" by (auto simp: nodes_def)
  have m: "P_LIST p \<in> set xs" using q A by (auto simp: proper_def)
  then have "q \<in> set proc_heads" using represents_node [OF kernel_invD(1) [OF inv] q(1)] by force
  then show "linked s p" using m queue_eq [OF inv q(1)] by (auto simp: linked_def)
qed

lemma allocated_iff:
  assumes "kernel_inv s A"
  shows "allocated s p \<longleftrightarrow> pcbs s p \<noteq> None \<and> \<not> free A p"
  using global_queue [OF assms, of pcbFree_h] by (auto simp: allocated_def free_def proc_heads_def)

lemma inbox_of:
  assumes inv: "kernel_inv s A" and p: "allocated s p"
  obtains inb where "inbox A (MSG_INBOX p) inb" "queue s (MSG_INBOX p) = map M_LIST inb"
proof -
  have "A (MSG_INBOX p) \<noteq> None" using p inv unfolding allocated_iff [OF inv] kernel_inv_def by blast
  then obtain xs where xs: "A (MSG_INBOX p) = Some xs" by auto
  with represents_msgs [OF kernel_invD(1) [OF inv], of "MSG_INBOX p" xs]
  obtain inb where "inbox A (MSG_INBOX p) inb" by auto
  then show ?thesis using that queue_eq [OF inv] by blast
qed

lemma children_of:
  assumes inv: "kernel_inv s A" and p: "allocated s p"
  obtains cs where "children A p cs" "queue s (P_CHILD p) = map P_SIB cs"
proof -
  have "A (P_CHILD p) \<noteq> None" using p inv unfolding allocated_iff [OF inv] kernel_inv_def by blast
  then obtain xs where xs: "A (P_CHILD p) = Some xs" by auto
  with represents_children [OF kernel_invD(1) [OF inv], of p xs]
  obtain cs where "children A p cs" by auto
  then show ?thesis using that queue_eq [OF inv] by blast
qed

lemma procs_of:
  assumes inv: "kernel_inv s A" and q: "q \<in> set proc_heads"
  obtains ps where "procs A q ps" "queue s q = map P_LIST ps"
  using represents_proc_queue [OF kernel_invD(1) [OF inv] q] queue_eq [OF inv] that by metis

lemma messages_of:
  assumes inv: "kernel_inv s A"
  obtains ms where "inbox A msgFree_h ms" "queue s msgFree_h = map M_LIST ms"
  using represents_msgs [OF kernel_invD(1) [OF inv], of msgFree_h] msgFree_queue [OF inv]
    queue_eq [OF inv] that by (metis is_msg_head.simps(2))

lemma current_facts:
  assumes inv: "kernel_inv s A" and c: "current_process s \<noteq> NULL"
  shows "allocated s (current_process s)" "\<exists>x. pcbs s (current_process s) = Some x"
proof -
  note k = kernel_inv_current [OF inv c]
  show "\<exists>x. pcbs s (current_process s) = Some x" using k by auto
  have "\<not> free A (current_process s)" using k(2) queue_of_nodes by (auto simp: free_def)
  then show "allocated s (current_process s)" using k allocated_iff [OF inv] by blast
qed

section \<open>Descendants\<close>

inductive descendant :: "sys \<Rightarrow> ptr \<Rightarrow> ptr \<Rightarrow> bool" for s p where
  self: "descendant s p p"
| child: "descendant s p q \<Longrightarrow> P_SIB c \<in> set (queue s (P_CHILD q)) \<Longrightarrow> descendant s p c"

lemma descendant_iff:
  assumes inv: "kernel_inv s A" and p: "allocated s p"
  shows "descendant s p q \<longleftrightarrow> (p, q) \<in> (child_rel A)\<^sup>*"
proof
  have "(p, q) \<in> (child_rel A)\<^sup>* \<and> allocated s q" if "descendant s p q"
    using that
  proof induction
    case self
    then show ?case using p by simp
  next
    case (child q c)
    then obtain cs where cs: "children A q cs" "queue s (P_CHILD q) = map P_SIB cs"
      using children_of [OF inv] by blast
    have "(q, c) \<in> child_rel A" using cs child.hyps(2) by (simp add: child_rel_def)
    then show ?case using child.IH child_rel_facts(1,3) [OF inv, of q c] allocated_iff [OF inv]
      by (auto intro: rtrancl_into_rtrancl)
  qed
  then show "descendant s p q \<Longrightarrow> (p, q) \<in> (child_rel A)\<^sup>*" by blast
  show "(p, q) \<in> (child_rel A)\<^sup>* \<Longrightarrow> descendant s p q"
  proof (induction rule: rtrancl_induct)
    case base
    show ?case by (rule descendant.self)
  next
    case (step q c)
    from child_rel_facts [OF inv step.hyps(2)] have "allocated s q" using allocated_iff [OF inv] by blast
    then obtain cs where cs: "children A q cs" "queue s (P_CHILD q) = map P_SIB cs"
      using children_of [OF inv] by blast
    then show ?case using step by (auto simp: child_rel_def intro: descendant.child)
  qed
qed

text \<open>A process \<^verbatim>\<open>terminateProcess\<close> can take out of the queues: it is in none, or
  in one that the value of its device field leads to.\<close>

definition removable :: "sys \<Rightarrow> ptr \<Rightarrow> bool" where
  "removable s p \<longleftrightarrow> \<not> linked s p \<or> (\<exists>x. pcbs s p = Some x \<and> blockedOnDevice x \<noteq> - 1 \<and>
     (\<exists>q \<in> set (blocked_queues (blockedOnDevice x)). P_LIST p \<in> set (queue s q)))"

definition stoppable :: "sys \<Rightarrow> ptr \<Rightarrow> bool" where
  "stoppable s p \<longleftrightarrow> (\<forall>q. descendant s p q \<longrightarrow> removable s q)"

lemma stoppable_terminable:
  assumes inv: "kernel_inv s A" and A: "proper A" and ac: "forest A"
    and p: "allocated s p" and st: "stoppable s p"
  obtains t where "root t = p" "terminable s A t" "set (members t) = {q. descendant s p q}"
proof -
  from p have "pcbs s p \<noteq> None" "\<not> free A p" using allocated_iff [OF inv] by blast+
  from forest_tree [OF inv ac this] obtain t where t: "root t = p" "tree_at A t" "distinct (members t)"
    "set (members t) = {q. (p, q) \<in> (child_rel A)\<^sup>*}" by blast
  have m: "set (members t) = {q. descendant s p q}" using t(4) descendant_iff [OF inv p] by blast
  have "killable s A q" if "descendant s p q" for q
  proof -
    have "(p, q) \<in> (child_rel A)\<^sup>*" using that descendant_iff [OF inv p] by blast
    then have "q = p \<or> (\<exists>r. (r, q) \<in> child_rel A)" by (metis rtranclE)
    then obtain x where x: "pcbs s q = Some x" using \<open>pcbs s p \<noteq> None\<close> child_rel_facts(1) [OF inv, of _ q] by auto
    then have "q \<noteq> NULL" using kernel_invD(2) [OF inv] by (auto simp: pcb_table_ok_def dom_def set_eq_iff)
    moreover have "P_LIST q \<notin> nodes A \<or> blockedOnDevice x \<noteq> - 1 \<and>
        (\<exists>h \<in> set (blocked_queues (blockedOnDevice x)). blocked_in A q h)"
    proof -
      have "queue_of A h = queue s h" if "h \<in> set (blocked_queues (blockedOnDevice x))" for h
        using that blocked_queues_sub blocked_heads_sub global_queue [OF inv, of h] by force
      moreover have "removable s q" using st that by (simp add: stoppable_def)
      ultimately show ?thesis
        using x linked_iff [OF inv A, of q] by (auto simp: removable_def blocked_in_def)
    qed
    ultimately show ?thesis using x by (auto simp: killable_def)
  qed
  then have "terminable s A t"
    using t kernel_invD(1) [OF inv] m by (auto simp: terminable_def)
  then show ?thesis using that t(1) m by blast
qed

end
