(* ===== verification/Dispatch.thy ===== *)
theory Dispatch
  imports Nucleus
begin

text \<open>
  Guards for the entry points of the nucleus, and the proof that under its guard every entry point
  returns a result and leaves a state that satisfies the invariant.  Which handler an exception or
  interrupt reaches is stated against the order of the lines in the Cause register.
\<close>

section \<open>Results\<close>

definition works :: "(control \<times> sys) option \<Rightarrow> bool" where
  "works r \<longleftrightarrow> (\<exists>c s'. r = Some (c, s') \<and> nucleus_ok s')"

lemma worksI: "r = Some (c, s') \<Longrightarrow> kernel_inv s' A \<Longrightarrow> forest A \<Longrightarrow> works r"
  by (auto simp: works_def nucleus_ok_def)

lemma heads_in [simp]:
  "readyQueue \<in> set proc_heads" "pcbFree_h \<in> set proc_heads" "pseudoClockQueue \<in> set proc_heads"
  by (simp_all add: proc_heads_def blocked_heads_def)

text \<open>The heads the handlers change besides child lists.\<close>

lemma not_child_heads [simp]:
  "q \<in> set proc_heads \<Longrightarrow> \<not> is_child_head q" "q \<in> set blocked_heads \<Longrightarrow> \<not> is_child_head q"
  by (auto simp: proc_heads_def blocked_heads_def)

lemma scheduler_works:
  assumes inv: "kernel_inv (s\<lparr>current_process := NULL\<rparr>) A" and ac: "forest A"
  shows "works (scheduler s)"
proof -
  from procs_of [OF inv, of readyQueue] obtain rs where rs: "procs A readyQueue rs" by auto
  from scheduler_runs [where A = A, OF inv rs] forest_upd [OF _ ac, of readyQueue]
  show ?thesis by (auto intro: worksI)
qed

lemma nucleus_ok_nondata:
  assumes "lh_mem s' = lh_mem s" "pcbs s' = pcbs s" "msgs s' = msgs s" "pcbTable s' = pcbTable s"
    "msgTable s' = msgTable s" "softBlockCount s' = softBlockCount s" "processCount s' = processCount s"
    "current_process s' = current_process s \<or> current_process s' = NULL"
  shows "nucleus_ok s \<Longrightarrow> nucleus_ok s'"
  using kernel_inv_cong [of s' s] assms by (auto simp: nucleus_ok_def)

lemma exitInterruptHandler_works:
  assumes inv: "kernel_inv s A" and ac: "forest A"
  shows "works (exitInterruptHandler s)"
proof -
  from procs_of [OF inv, of readyQueue] obtain rs where rs: "procs A readyQueue rs" by auto
  from exitInterruptHandler_kernel_inv [where A = A, OF inv rs] obtain c s' B where
    e: "exitInterruptHandler s = Some (c, s')" "kernel_inv s' B"
    "B = (if current_process s = NULL then A(readyQueue \<mapsto> map P_LIST (tl rs)) else A)" by blast
  have "forest B" unfolding e(3) using forest_upd [OF _ ac, of readyQueue] ac by simp
  then show ?thesis by (rule worksI [OF e(1,2)])
qed

section \<open>Interrupts\<close>

lemma PLTHandler_works:
  assumes "nucleus_ok s" "current_process s \<noteq> NULL"
  shows "works (PLTHandler s)"
proof -
  from assms(1) obtain A where inv: "kernel_inv s A" and ac: "forest A" by (auto simp: nucleus_ok_def)
  from procs_of [OF inv, of readyQueue] obtain rs where rs: "procs A readyQueue rs" by auto
  from current_facts(2) [OF inv assms(2)] obtain x where x: "pcbs s (current_process s) = Some x" by blast
  from PLTHandler_step [where A = A, OF inv rs assms(2) x] obtain h where
    h: "PLTHandler s = scheduler (preempted x s\<lparr>lh_mem := h, current_process := NULL\<rparr>)"
    "kernel_inv (preempted x s\<lparr>lh_mem := h, current_process := NULL\<rparr>)
      (A(readyQueue \<mapsto> map P_LIST (rs @ [current_process s])))" by blast
  have "forest (A(readyQueue \<mapsto> map P_LIST (rs @ [current_process s])))" by (rule forest_upd [OF _ ac]) simp
  moreover have "kernel_inv (preempted x s\<lparr>lh_mem := h, current_process := NULL, current_process := NULL\<rparr>)
      (A(readyQueue \<mapsto> map P_LIST (rs @ [current_process s])))" using h(2) by simp
  ultimately show ?thesis unfolding h(1) using scheduler_works by blast
qed

definition clock_guard :: "sys \<Rightarrow> bool" where
  "clock_guard s \<longleftrightarrow> length (queue s pseudoClockQueue) \<le> length (queue s msgFree_h)"

lemma intervalTimerHandler_works:
  assumes "nucleus_ok s" "clock_guard s"
  shows "works (intervalTimerHandler s)"
proof -
  from assms(1) obtain A where inv: "kernel_inv s A" and ac: "forest A" by (auto simp: nucleus_ok_def)
  from procs_of [OF inv, of readyQueue] obtain rs where rs: "procs A readyQueue rs" by auto
  from procs_of [OF inv, of pseudoClockQueue] obtain ps where
    ps: "procs A pseudoClockQueue ps" "queue s pseudoClockQueue = map P_LIST ps" by auto
  from messages_of [OF inv] obtain ms where
    ms: "inbox A msgFree_h ms" "queue s msgFree_h = map M_LIST ms" by blast
  have "length ps \<le> length ms" using assms(2) ps(2) ms(2) by (simp add: clock_guard_def)
  from intervalTimer_step [where A = A, OF inv ps(1) ms(1) rs this] obtain s' B where
    t: "intervalTimerHandler s = exitInterruptHandler s'" "kernel_inv s' B" "clock_woken A B ps ms rs" by blast
  have "forest B" by (rule forest_same [OF _ ac]) (use t(3) in \<open>auto simp: clock_woken_def\<close>)
  then show ?thesis unfolding t(1) by (rule exitInterruptHandler_works [OF t(2)])
qed

text \<open>A device interrupt: the terminal must report one of the two states the handler knows, and a
  process that is to be woken needs a message.\<close>

definition device_guard :: "u32 \<Rightarrow> sys \<Rightarrow> bool" where
  "device_guard l s \<longleftrightarrow> (let d = getDeviceNo (getDeviceBitmap l s) in
     case irq_target l d s of None \<Rightarrow> False
     | Some (q, st, cmd) \<Rightarrow> some_message s \<or>
         (\<forall>x \<in> set (queue s q). \<forall>p. x = P_LIST p \<longrightarrow> blockedOnDevice (the (pcbs s p)) \<noteq> d))"

lemma deviceHandler_works:
  assumes ok: "nucleus_ok s" and l: "l \<in> set io_lines" and g: "device_guard l s"
  shows "works (deviceHandler l s)"
proof -
  from ok obtain A where inv: "kernel_inv s A" and ac: "forest A" by (auto simp: nucleus_ok_def)
  define d where "d = getDeviceNo (getDeviceBitmap l s)"
  from g obtain q st cmd where t: "irq_target l d s = Some (q, st, cmd)"
    and m: "some_message s \<or> (\<forall>x \<in> set (queue s q). \<forall>p. x = P_LIST p \<longrightarrow> blockedOnDevice (the (pcbs s p)) \<noteq> d)"
    unfolding device_guard_def d_def [symmetric] Let_def by (auto split: option.splits)
  have q: "q \<in> set proc_heads" "q \<noteq> pcbFree_h"
    using device_ack_unlock(1) [OF l t] by (auto simp: proc_heads_def blocked_heads_def)
  from procs_of [OF inv q(1)] obtain ps where ps: "procs A q ps" "queue s q = map P_LIST ps" by auto
  let ?P = "\<lambda>p. blockedOnDevice (the (pcbs s p)) = d"
  show ?thesis
  proof (cases "find ?P ps")
    case None
    note n = deviceHandler_nobody [where A = A, OF inv l d_def t ps(1) None]
    then have k: "kernel_inv (store cmd ACK s) A" by blast
    show ?thesis unfolding conjunct1 [OF n] by (rule exitInterruptHandler_works [OF k ac])
  next
    case (Some p)
    have pm: "p \<in> set ps" "?P p" using find_Some_split [OF Some] by simp_all
    then have "some_message s" using m ps(2) by auto
    moreover obtain ms where ms: "inbox A msgFree_h ms" "queue s msgFree_h = map M_LIST ms"
      by (rule messages_of [OF inv])
    ultimately obtain m ms' where mm: "inbox A msgFree_h (m # ms')"
      by (cases ms) (simp_all add: some_message_def)
    from procs_of [OF inv, of readyQueue] obtain rs where rs: "procs A readyQueue rs" by auto
    from kernel_inv_procs(2) [OF inv q(1) ps(1) pm(1)] obtain x where x: "pcbs s p = Some x" by blast
    from blocked_alive(3) [where A = A, OF inv q ps(1) pm(1)] obtain inb where inb: "inbox A (MSG_INBOX p) inb" by blast
    from deviceHandler_wakes [where A = A, OF inv l d_def t ps(1) Some x mm inb rs] obtain s' where
      s': "deviceHandler l s = exitInterruptHandler s'"
      "kernel_inv s' (delivered_queues (A(q \<mapsto> map P_LIST (remove1 p ps))) m ms' inb p rs)" by blast
    have "forest (delivered_queues (A(q \<mapsto> map P_LIST (remove1 p ps))) m ms' inb p rs)"
      by (rule forest_same [OF _ ac]) (use q in \<open>auto simp: delivered_queues_def proc_heads_def blocked_heads_def\<close>)
    then show ?thesis unfolding s'(1) by (rule exitInterruptHandler_works [OF s'(2)])
  qed
qed

section \<open>Interrupt priority\<close>

text \<open>Line \<open>n\<close> is pending when bit \<open>8 + n\<close> of the saved Cause register is set; the handler serves the
  lowest pending line from 1 to 7.\<close>

definition pending :: "sys \<Rightarrow> nat \<Rightarrow> bool" where
  "pending s n \<longleftrightarrow> bit (cause (exception_state s)) (8 + n)"

definition served :: "sys \<Rightarrow> nat option" where
  "served s = find (pending s) [1, 2, 3, 4, 5, 6, 7]"

definition irq_handler :: "nat option \<Rightarrow> sys \<Rightarrow> (control \<times> sys) option" where
  "irq_handler n s = (case n of None \<Rightarrow> Some (RETURN, s) | Some n \<Rightarrow>
     if n = 1 then PLTHandler s else if n = 2 then intervalTimerHandler s else deviceHandler (of_nat n) s)"

definition masked :: "sys \<Rightarrow> sys" where
  "masked s = s\<lparr>cp0_status := cp0_status s AND NOT TEBITON\<rparr>"

lemma pending_mask:
  assumes "n < 8" "m = 2 ^ (8 + n)"
  shows "(m AND (w AND CAUSE_IP_MASK) \<noteq> 0) = bit (w :: u32) (8 + n)"
proof -
  have "bit (CAUSE_IP_MASK :: u32) (8 + n)"
    using assms(1) by (auto simp: less_Suc_eq numeral_eq_Suc bit_numeral_rec)
  then have b: "bit (m AND (w AND CAUSE_IP_MASK)) k = (k = 8 + n \<and> bit w k)" for k
    using assms by (auto simp: bit_simps)
  show ?thesis
  proof
    assume "m AND (w AND CAUSE_IP_MASK) \<noteq> 0"
    then obtain k where "bit (m AND (w AND CAUSE_IP_MASK)) k"
      using bit_eqI [of "m AND (w AND CAUSE_IP_MASK)" 0] by (metis bit_0_eq bot_apply bot_bool_def)
    then show "bit w (8 + n)" unfolding b by blast
  next
    assume "bit w (8 + n)"
    then show "m AND (w AND CAUSE_IP_MASK) \<noteq> 0" using b [of "8 + n"] by (metis bit_0_eq bot_apply bot_bool_def)
  qed
qed

lemma interrupt_dispatch: "interruptHandler s = irq_handler (served s) (masked s)"
proof -
  have p: "(LOCALTIMERINT AND (w AND CAUSE_IP_MASK) \<noteq> 0) = bit w 9"
    "(TIMERINTERRUPT AND (w AND CAUSE_IP_MASK) \<noteq> 0) = bit w 10"
    "(DISKINTERRUPT AND (w AND CAUSE_IP_MASK) \<noteq> 0) = bit w 11"
    "(FLASHINTERRUPT AND (w AND CAUSE_IP_MASK) \<noteq> 0) = bit w 12"
    "(NETWORKINTERRUPT AND (w AND CAUSE_IP_MASK) \<noteq> 0) = bit w 13"
    "(PRINTINTERRUPT AND (w AND CAUSE_IP_MASK) \<noteq> 0) = bit w 14"
    "(TERMINTERRUPT AND (w AND CAUSE_IP_MASK) \<noteq> 0) = bit w 15" for w :: u32
    using pending_mask [of 1 _ w] pending_mask [of 2 _ w] pending_mask [of 3 _ w] pending_mask [of 4 _ w]
      pending_mask [of 5 _ w] pending_mask [of 6 _ w] pending_mask [of 7 _ w] by simp_all
  show ?thesis
    unfolding interruptHandler_def Let_def p irq_handler_def served_def pending_def masked_def
    by simp
qed

lemma served_range: "served s = Some n \<Longrightarrow> n \<in> {1..7}"
  by (auto simp: served_def split: if_splits)

definition irq_guard :: "sys \<Rightarrow> bool" where
  "irq_guard s \<longleftrightarrow> (case served s of None \<Rightarrow> True | Some n \<Rightarrow>
     if n = 1 then current_process s \<noteq> NULL else if n = 2 then clock_guard s
     else device_guard (of_nat n) s)"

lemma interruptHandler_works:
  assumes ok: "nucleus_ok s" and g: "irq_guard s"
  shows "works (interruptHandler s)"
proof -
  have okm: "nucleus_ok (masked s)" by (rule nucleus_ok_nondata [OF _ _ _ _ _ _ _ _ ok]) (simp_all add: masked_def)
  have f: "queue (masked s) = queue s" "mem (masked s) = mem s" "pcbs (masked s) = pcbs s"
    "interrupt_dev (masked s) = interrupt_dev s" "current_process (masked s) = current_process s"
    by (simp_all add: queue_def masked_def fun_eq_iff)
  have gm: "clock_guard (masked s) = clock_guard s" "device_guard l (masked s) = device_guard l s"
    "current_process (masked s) = current_process s" for l
    unfolding clock_guard_def device_guard_def irq_target_def some_message_def getDeviceBitmap_def f
    by (rule refl)+
  show ?thesis
  proof (cases "served s")
    case None
    then show ?thesis unfolding interrupt_dispatch using okm by (simp add: irq_handler_def works_def)
  next
    case (Some n)
    note n = served_range [OF Some]
    have "of_nat n \<in> set io_lines" if "n \<noteq> 1" "n \<noteq> 2"
    proof -
      have "n \<in> {3, 4, 5, 6, 7}" using n that by auto
      then show ?thesis by (auto simp: io_lines_def)
    qed
    then show ?thesis
      using g Some PLTHandler_works [OF okm] intervalTimerHandler_works [OF okm] deviceHandler_works [OF okm]
      unfolding interrupt_dispatch irq_handler_def irq_guard_def by (auto simp: gm split: if_splits)
  qed
qed

text \<open>Among the devices of a line the handler serves the highest numbered one.\<close>

lemma dev_bit: "n < 8 \<Longrightarrow> (m AND 2 ^ n \<noteq> 0) = bit (m :: u32) n"
  by (simp add: and_exp_eq_0_iff_not_bit)

lemma getDeviceNo_highest:
  "getDeviceNo m = (case find (bit m) [7, 6, 5, 4, 3, 2, 1, 0] of None \<Rightarrow> - 1 | Some n \<Rightarrow> of_nat n)"
  using dev_bit [of 7 m] dev_bit [of 6 m] dev_bit [of 5 m] dev_bit [of 4 m] dev_bit [of 3 m]
    dev_bit [of 2 m] dev_bit [of 1 m] dev_bit [of 0 m]
  by (simp add: getDeviceNo_def)

section \<open>Pass up or die\<close>

definition pass_guard :: "sys \<Rightarrow> bool" where
  "pass_guard s \<longleftrightarrow> current_process s \<noteq> NULL \<and> (let u = p_supportStruct (the (pcbs s (current_process s))) in
     if u = NULL then stoppable s (current_process s) else supports s u \<noteq> None)"

lemma passUpOrDie_works:
  assumes ok: "nucleus_ok s" and g: "pass_guard s"
  shows "works (passUpOrDie k s)"
proof -
  from ok obtain A where inv: "kernel_inv s A" and ac: "forest A" and A: "proper A" by (rule nucleus_okE)
  have cur: "current_process s \<noteq> NULL" using g by (simp add: pass_guard_def)
  from current_facts [OF inv cur] obtain x where
    al: "allocated s (current_process s)" and x: "pcbs s (current_process s) = Some x" by blast
  show ?thesis
  proof (cases "p_supportStruct x = NULL")
    case True
    then have "stoppable s (current_process s)" using g x by (simp add: pass_guard_def)
    then obtain t where t: "terminable s A t" "root t = current_process s"
      using stoppable_terminable [OF inv A ac al] by metis
    from procs_of [OF inv, of readyQueue] obtain rs where rs: "procs A readyQueue rs" by auto
    from passUpOrDie_die [where A = A and k = k, OF inv x True t rs] obtain s1 B where
      d: "passUpOrDie k s = scheduler s1" "kernel_inv (s1\<lparr>current_process := NULL\<rparr>) B"
      "\<forall>p. set (queue_of B (P_CHILD p)) \<subseteq> set (queue_of A (P_CHILD p))" by blast
    have "forest B" by (rule forest_subset [OF _ ac]) (use d(3) in blast)
    then show ?thesis unfolding d(1) by (rule scheduler_works [OF d(2)])
  next
    case False
    then obtain u where u: "supports s (p_supportStruct x) = Some u"
      using g x by (auto simp: pass_guard_def Let_def)
    show ?thesis by (rule worksI [OF passUpOrDie_up [OF x False u] passed_up_kernel_inv [OF inv] ac])
  qed
qed

section \<open>Message passing\<close>

text \<open>\<open>send\<close> puts a destination that is neither running nor ready into the ready queue, so it must not
  be waiting in another one.\<close>

definition send_guard :: "ptr \<Rightarrow> sys \<Rightarrow> bool" where
  "send_guard dest s \<longleftrightarrow> pcbs s dest \<noteq> None \<and>
     (some_message s \<longrightarrow> allocated s dest \<longrightarrow> dest = current_process s \<or> ready s dest \<or> \<not> linked s dest)"

lemma send_works:
  assumes ok: "nucleus_ok s" and g: "send_guard dest s"
  shows "\<exists>r s'. send sndr dest payload s = Some (r, s') \<and> nucleus_ok s'"
proof -
  from ok obtain A where inv: "kernel_inv s A" and ac: "forest A" and A: "proper A" by (rule nucleus_okE)
  obtain ms where ms: "inbox A msgFree_h ms" "queue s msgFree_h = map M_LIST ms" by (rule messages_of [OF inv])
  show ?thesis
  proof (cases ms)
    case Nil
    have "send sndr dest payload s = Some (MSGNOGOOD, s)"
      by (rule send_no_message [where A = A, OF kernel_invD(1) [OF inv]]) (use ms Nil in simp)
    then show ?thesis using ok by blast
  next
    case (Cons m ms')
    have f: "inbox A msgFree_h (m # ms')" using ms(1) Cons by simp
    have sm: "some_message s" using ms(2) Cons by (simp add: some_message_def)
    show ?thesis
    proof (cases "allocated s dest")
      case False
      then have "free A dest" using g allocated_iff [OF inv] by (auto simp: send_guard_def)
      from send_dead [where A = A, OF inv f this] obtain s' where
        "send sndr dest payload s = Some (DEST_NOT_EXIST, s')" "kernel_inv s' (A(msgFree_h \<mapsto> map M_LIST ms'))" by blast
      moreover have "forest (A(msgFree_h \<mapsto> map M_LIST ms'))" by (rule forest_upd [OF _ ac]) simp
      ultimately show ?thesis by (auto simp: nucleus_ok_def)
    next
      case True
      then obtain x where x: "pcbs s dest = Some x" "\<not> free A dest" using allocated_iff [OF inv] by blast
      obtain inb where inb: "inbox A (MSG_INBOX dest) inb" by (rule inbox_of [OF inv True])
      from procs_of [OF inv, of readyQueue] obtain rs where
        rs: "procs A readyQueue rs" "queue s readyQueue = map P_LIST rs" by auto
      have w: "dest = current_process s \<or> dest \<in> set rs \<or> P_LIST dest \<notin> nodes A"
        using g sm True rs(2) linked_iff [OF inv A] by (auto simp: send_guard_def ready_def)
      let ?B = "sent_queues A ms' (woken (current_process s) rs dest) dest (inb @ [m])"
      from send_kernel_inv [where A = A and payload = payload and sndr = sndr, OF inv f rs(1) x inb w]
      obtain s' where "send sndr dest payload s = Some (0, s')" "kernel_inv s' ?B" by blast
      moreover have "forest ?B" by (rule forest_same [OF _ ac]) (auto simp: sent_queues_def)
      ultimately show ?thesis by (auto simp: nucleus_ok_def)
    qed
  qed
qed

definition recv_guard :: "ptr \<Rightarrow> sys \<Rightarrow> bool" where
  "recv_guard sender s \<longleftrightarrow> current_process s \<noteq> NULL \<and> (sender = ANYMESSAGE \<or> pcbs s sender \<noteq> None \<and>
     (\<forall>z \<in> set (queue s (MSG_INBOX (current_process s))). \<forall>m y. z = M_LIST m \<longrightarrow> msgs s m = Some y \<longrightarrow>
        pcbs s (m_sender y) \<noteq> None))"

lemma selects_member: "selects s sender inb = Some m \<Longrightarrow> m \<in> set inb"
  using find_Some_split [of _ inb m] by (auto simp: selects_def split: if_splits list.splits)

lemma recv_works:
  assumes ok: "nucleus_ok s" and g: "recv_guard sender s"
  shows "works (recv sender payload s)"
proof -
  from ok obtain A where inv: "kernel_inv s A" and ac: "forest A" by (rule nucleus_okE)
  have cur: "current_process s \<noteq> NULL" using g by (simp add: recv_guard_def)
  from current_facts [OF inv cur] obtain x where
    al: "allocated s (current_process s)" and x: "pcbs s (current_process s) = Some x" by blast
  obtain inb where inb: "inbox A (MSG_INBOX (current_process s)) inb"
    "queue s (MSG_INBOX (current_process s)) = map M_LIST inb" by (rule inbox_of [OF inv al])
  have rc: "receivable s sender inb"
    using g inb(2) by (auto simp: recv_guard_def receivable_def senders_ok_def)
  show ?thesis
  proof (cases "selects s sender inb")
    case None
    have k: "kernel_inv (suspended x s\<lparr>current_process := NULL\<rparr>) A"
      by (rule kernel_inv_cong [OF _ _ _ _ _ _ _ _ suspended_kernel_inv [OF inv x]]) simp_all
    show ?thesis unfolding recv_blocks [where A = A and payload = payload, OF inv x inb(1) rc None]
      by (rule scheduler_works [OF k ac])
  next
    case (Some m)
    obtain fs where fs: "inbox A msgFree_h fs" by (rule messages_of [OF inv])
    have "lh_valid s (M_LIST m)"
      using represents_node [OF kernel_invD(1) [OF inv] inb(1), of "M_LIST m"] selects_member [OF Some] by auto
    then obtain y where y: "msgs s m = Some y" by auto
    from recv_takes [where A = A and payload = payload, OF inv x inb(1) rc Some fs y] obtain s' where
      s': "recv sender payload s = Some (RETURN, s')" "kernel_inv s'
      (A(MSG_INBOX (current_process s) \<mapsto> map M_LIST (remove1 m inb), msgFree_h \<mapsto> map M_LIST (fs @ [m])))" by blast
    show ?thesis by (rule worksI [OF s']) (rule forest_same [OF _ ac], auto)
  qed
qed

section \<open>System calls and exceptions\<close>

definition sys_guard :: "sys \<Rightarrow> bool" where
  "sys_guard s \<longleftrightarrow>
     (if bit (status (exception_state s)) 1 then pass_guard s
      else if reg reg_a0 s = SENDMESSAGE then send_guard (reg reg_a1 s) s
      else if reg reg_a0 s = RECEIVEMESSAGE then recv_guard (reg reg_a1 s) s
      else pass_guard s)"

lemma nucleus_ok_exc:
  "nucleus_ok s \<Longrightarrow> nucleus_ok (trapped s)" "nucleus_ok s \<Longrightarrow> nucleus_ok (returned r s)"
  "nucleus_ok s \<Longrightarrow> nucleus_ok (advance_pc s)"
  by (auto simp: nucleus_ok_def dest: kernel_inv_exc)

lemma descendant_queue: "queue s' = queue s \<Longrightarrow> descendant s' p q = descendant s p q"
proof -
  have "descendant t p q \<Longrightarrow> queue u = queue t \<Longrightarrow> descendant u p q" for t u
    by (induction rule: descendant.induct) (auto intro: descendant.intros)
  then show "queue s' = queue s \<Longrightarrow> descendant s' p q = descendant s p q" by metis
qed

lemma pass_guard_trapped: "pass_guard (trapped s) = pass_guard s"
proof -
  have f: "queue (trapped s) = queue s" "pcbs (trapped s) = pcbs s" "supports (trapped s) = supports s"
    "current_process (trapped s) = current_process s"
    by (simp_all add: trapped_def queue_def fun_eq_iff)
  show ?thesis
    unfolding pass_guard_def stoppable_def removable_def linked_def descendant_queue [OF f(1)] f by (rule refl)
qed

lemma syscallHandler_works:
  assumes ok: "nucleus_ok s" and g: "sys_guard s"
  shows "works (syscallHandler s)"
proof -
  consider (user) "bit (status (exception_state s)) 1"
    | (send) "\<not> bit (status (exception_state s)) 1" "reg reg_a0 s = SENDMESSAGE"
    | (recv) "\<not> bit (status (exception_state s)) 1" "reg reg_a0 s = RECEIVEMESSAGE"
    | (other) "\<not> bit (status (exception_state s)) 1" "reg reg_a0 s \<notin> {SENDMESSAGE, RECEIVEMESSAGE}"
    by blast
  then show ?thesis
  proof cases
    case user
    then show ?thesis
      using passUpOrDie_works [OF nucleus_ok_exc(1) [OF ok]] g
      by (simp add: syscallHandler_user sys_guard_def pass_guard_trapped)
  next
    case send
    then have "send_guard (reg reg_a1 s) s" using g by (simp add: sys_guard_def)
    from send_works [OF ok this, of "current_process s" "reg reg_a2 s"] show ?thesis
      by (auto simp: syscallHandler_send [OF send] works_def nucleus_ok_exc)
  next
    case recv
    then have "recv_guard (reg reg_a1 s) s" using g by (simp add: sys_guard_def)
    from recv_works [OF ok this, of "reg reg_a2 s"] obtain c s' where
      r: "recv (reg reg_a1 s) (reg reg_a2 s) s = Some (c, s')" "nucleus_ok s'" by (auto simp: works_def)
    show ?thesis
      using r(1) r(2) nucleus_ok_exc(3) [OF r(2)] by (simp add: syscallHandler_recv [OF recv] works_def)
  next
    case other
    then show ?thesis
      using passUpOrDie_works [OF ok] g by (auto simp: syscallHandler_unknown sys_guard_def)
  qed
qed

lemma exc_code_lt: "exc_code s < 32"
  by (simp add: exc_code_def)

lemma exception_dispatch:
  "exceptionHandler s = (case exc_target (exc_code s) of
     To_Interrupts \<Rightarrow> interruptHandler s | To_TLB \<Rightarrow> passUpOrDie PGFAULTEXCEPT s
   | To_Trap \<Rightarrow> passUpOrDie GENERALEXCEPT s | To_Syscall \<Rightarrow> syscallHandler s
   | To_Nothing \<Rightarrow> Some (RETURN, s))"
proof -
  let ?k = "exc_code s"
  have u: "unat (of_nat ?k :: u32) = ?k"
    using exc_code_lt [of s] by (simp add: unat_of_nat take_bit_nat_eq_self)
  show ?thesis
    unfolding exceptionHandler_def exc_code_word Let_def exc_target_def
    using u by (auto simp: word_le_nat_alt unat_eq_0 word_unat_eq_iff)
qed

definition exc_guard :: "sys \<Rightarrow> bool" where
  "exc_guard s \<longleftrightarrow> (case exc_target (exc_code s) of
     To_Interrupts \<Rightarrow> irq_guard s | To_TLB \<Rightarrow> pass_guard s | To_Trap \<Rightarrow> pass_guard s
   | To_Syscall \<Rightarrow> sys_guard s | To_Nothing \<Rightarrow> True)"

lemma exceptionHandler_works:
  assumes "nucleus_ok s" "exc_guard s"
  shows "works (exceptionHandler s)"
  using assms interruptHandler_works passUpOrDie_works syscallHandler_works
  by (auto simp: exception_dispatch exc_guard_def works_def split: exc_target.splits)

end
