(* ===== verification/Services.thy ===== *)
theory Services
  imports Dispatch
begin

text \<open>
  The services of the SSI under their guards, the nucleus as a transition system whose steps are
  the exceptions and the services, and the invariant of all reachable states with what it says
  about the two process counters.
\<close>

section \<open>Guards\<close>

definition stop_guard :: "ptr \<Rightarrow> sys \<Rightarrow> bool" where
  "stop_guard p s \<longleftrightarrow> allocated s p \<and> stoppable s p \<and>
     (current_process s \<noteq> NULL \<longrightarrow> \<not> descendant s p (current_process s))"

definition create_guard :: "ptr \<Rightarrow> ptr \<Rightarrow> sys \<Rightarrow> bool" where
  "create_guard sender a s \<longleftrightarrow> queue s pcbFree_h \<noteq> [] \<longrightarrow> allocated s sender \<and>
     (\<exists>c. ssi_create_processes s a = Some c \<and> states s (scp_state c) \<noteq> None)"

text \<open>The process that asks for I/O may be ready again; the one that waits for the clock may not.\<close>

definition doio_guard :: "ptr \<Rightarrow> ptr \<Rightarrow> sys \<Rightarrow> bool" where
  "doio_guard sender a s \<longleftrightarrow> pcbs s sender \<noteq> None \<and> sender \<noteq> current_process s \<and>
     (linked s sender \<longrightarrow> ready s sender) \<and>
     (\<exists>io. ssi_do_ios s a = Some io \<and> device_queue (commandAddr io) \<noteq> None)"

definition clockwait_guard :: "ptr \<Rightarrow> sys \<Rightarrow> bool" where
  "clockwait_guard sender s \<longleftrightarrow> pcbs s sender \<noteq> None \<and> sender \<noteq> current_process s \<and> \<not> linked s sender"

definition ssi_guard :: "ptr \<Rightarrow> u32 \<Rightarrow> u32 \<Rightarrow> sys \<Rightarrow> bool" where
  "ssi_guard sender service a s \<longleftrightarrow>
     (if service = CREATEPROCESS then create_guard sender a s
      else if service = TERMPROCESS then stop_guard (if a \<noteq> NULL then a else sender) s
      else if service = DOIO then doio_guard sender a s
      else if service = GETTIME then pcbs s sender \<noteq> None
      else if service = CLOCKWAIT then clockwait_guard sender s
      else if service = GETSUPPORTPTR then pcbs s sender \<noteq> None
      else if service = GETPROCESSID then (\<exists>x. pcbs s sender = Some x \<and> (a \<noteq> NULL \<longrightarrow> pcbs s (p_parent x) \<noteq> None))
      else stop_guard sender s)"

section \<open>Each service works\<close>

definition serves :: "(u32 \<times> sys) option \<Rightarrow> bool" where
  "serves r \<longleftrightarrow> (\<exists>v s'. r = Some (v, s') \<and> nucleus_ok s')"

lemma createProcess_serves:
  assumes ok: "nucleus_ok s" and g: "create_guard sender a s"
  shows "serves (createProcess sender a s)"
proof -
  from ok obtain A where inv: "kernel_inv s A" and ac: "forest A" by (rule nucleus_okE)
  from procs_of [OF inv, of pcbFree_h] obtain fs where
    fs: "procs A pcbFree_h fs" "queue s pcbFree_h = map P_LIST fs" by auto
  show ?thesis
  proof (cases fs)
    case Nil
    then show ?thesis
      using createProcess_full [OF kernel_invD(1) [OF inv]] fs(1) ok by (simp add: serves_def)
  next
    case (Cons p fs')
    have f: "procs A pcbFree_h (p # fs')" using fs(1) Cons by simp
    from g fs(2) Cons obtain c st where c: "ssi_create_processes s a = Some c" "states s (scp_state c) = Some st"
      and al: "allocated s sender" by (auto simp: create_guard_def)
    from procs_of [OF inv, of readyQueue] obtain rs where rs: "procs A readyQueue rs" by auto
    obtain cs where cs: "children A sender cs" by (rule children_of [OF inv al])
    have nf: "\<not> free A sender" using al allocated_iff [OF inv] by blast
    from kernel_inv_procs(2) [OF inv _ f] obtain x where x: "pcbs s p = Some x" by fastforce
    from createProcess_kernel_inv [where A = A, OF inv f rs cs nf c x] obtain s' where
      "createProcess sender a s = Some (p, s')" "kernel_inv s' (created_queues A p fs' rs sender cs)" by blast
    then show ?thesis using forest_created [OF inv f cs nf ac] by (auto simp: serves_def nucleus_ok_def)
  qed
qed

lemma terminateProcess_serves:
  assumes ok: "nucleus_ok s" and g: "stop_guard p s"
  shows "\<exists>s'. terminateProcess p s = Some s' \<and> nucleus_ok s'"
proof -
  from ok obtain A where inv: "kernel_inv s A" and ac: "forest A" and A: "proper A" by (rule nucleus_okE)
  from g have al: "allocated s p" and st: "stoppable s p" by (simp_all add: stop_guard_def)
  obtain t where t: "root t = p" "terminable s A t" "set (members t) = {q. descendant s p q}"
    by (rule stoppable_terminable [OF inv A ac al st])
  have c: "current_process s = NULL \<or> current_process s = current_process s \<and> current_process s \<notin> set (members t)"
    using g t(3) by (auto simp: stop_guard_def)
  from terminateProcess_kernel_inv [where A = A, OF inv t(2) c] obtain s' B where
    s': "terminateProcess p s = Some s'" "kernel_inv (s'\<lparr>current_process := current_process s\<rparr>) B"
    "\<forall>p. set (queue_of B (P_CHILD p)) \<subseteq> set (queue_of A (P_CHILD p))"
    "current_process s' = current_process s" unfolding t(1) by blast
  have "s'\<lparr>current_process := current_process s\<rparr> = s'" using s'(4) by simp
  moreover have "forest B" by (rule forest_subset [OF _ ac]) (use s'(3) in blast)
  ultimately show ?thesis using s'(1,2) by (auto simp: nucleus_ok_def)
qed

lemma doio_serves:
  assumes ok: "nucleus_ok s" and g: "doio_guard sender a s"
  shows "\<exists>s'. doio a sender s = Some s' \<and> nucleus_ok s'"
proof -
  from ok obtain A where inv: "kernel_inv s A" and ac: "forest A" and A: "proper A" by (rule nucleus_okE)
  from g obtain io q d where io: "ssi_do_ios s a = Some io" "device_queue (commandAddr io) = Some (q, d)"
    by (auto simp: doio_guard_def)
  from g obtain x where x: "pcbs s sender = Some x" "sender \<noteq> current_process s" by (auto simp: doio_guard_def)
  note dq = device_queue_blocked [OF io(2)]
  have qp: "q \<in> set proc_heads" using dq by (simp add: proc_heads_def)
  from procs_of [OF inv, of readyQueue] obtain rs where
    rs: "procs A readyQueue rs" "queue s readyQueue = map P_LIST rs" by auto
  from procs_of [OF inv qp] obtain qs where qs: "procs A q qs" by auto
  have "P_LIST sender \<in> nodes A \<Longrightarrow> sender \<in> set rs"
    using g rs(2) linked_iff [OF inv A] by (auto simp: doio_guard_def ready_def)
  from doio_kernel_inv [where A = A, OF inv io rs(1) qs x this] obtain s' where
    s': "doio a sender s = Some s'" "kernel_inv s' (blocked_upd A rs q qs sender)" by blast
  have "forest (blocked_upd A rs q qs sender)"
    by (rule forest_same [OF _ ac]) (use qp in \<open>auto simp: blocked_upd_def proc_heads_def blocked_heads_def\<close>)
  then show ?thesis using s' by (auto simp: nucleus_ok_def)
qed

lemma wait4Clock_serves:
  assumes ok: "nucleus_ok s" and g: "clockwait_guard sender s"
  shows "\<exists>s'. wait4Clock sender s = Some s' \<and> nucleus_ok s'"
proof -
  from ok obtain A where inv: "kernel_inv s A" and ac: "forest A" and A: "proper A" by (rule nucleus_okE)
  from procs_of [OF inv, of pseudoClockQueue] obtain ps where ps: "procs A pseudoClockQueue ps" by auto
  have "pcbs s sender \<noteq> None" "P_LIST sender \<notin> nodes A" "sender \<noteq> current_process s"
    using g linked_iff [OF inv A] by (simp_all add: clockwait_guard_def)
  from wait4Clock_kernel_inv [where A = A, OF inv ps this] obtain s' where
    "wait4Clock sender s = Some s'" "kernel_inv s' (A(pseudoClockQueue \<mapsto> map P_LIST (ps @ [sender])))" by blast
  moreover have "forest (A(pseudoClockQueue \<mapsto> map P_LIST (ps @ [sender])))" by (rule forest_upd [OF _ ac]) simp
  ultimately show ?thesis by (auto simp: nucleus_ok_def)
qed

lemma SSIRequest_serves:
  assumes ok: "nucleus_ok s" and g: "ssi_guard sender service a s"
  shows "serves (SSIRequest sender service a s)"
proof -
  have t: "\<exists>s'. terminateProcess p s = Some s' \<and> nucleus_ok s'" if "stop_guard p s" for p
    by (rule terminateProcess_serves [OF ok that])
  consider "service = CREATEPROCESS" | "service = TERMPROCESS" | "service = DOIO" | "service = GETTIME"
    | "service = CLOCKWAIT" | "service = GETSUPPORTPTR" | "service = GETPROCESSID"
    | "service \<notin> {1, 2, 3, 4, 5, 6, 7}" by blast
  then show ?thesis
  proof cases
    case 1
    then show ?thesis using createProcess_serves [OF ok] g by (simp add: SSIRequest_def ssi_guard_def)
  next
    case 2
    then show ?thesis
      using t [of a] t [of sender] g by (auto simp: SSIRequest_def ssi_guard_def serves_def split: if_splits)
  next
    case 3
    then show ?thesis using doio_serves [OF ok] g by (fastforce simp: SSIRequest_def ssi_guard_def serves_def)
  next
    case 4
    then show ?thesis using ok g by (auto simp: SSIRequest_def ssi_guard_def serves_def getCPUTime_def)
  next
    case 5
    then show ?thesis using wait4Clock_serves [OF ok] g by (fastforce simp: SSIRequest_def ssi_guard_def serves_def)
  next
    case 6
    then show ?thesis using ok g by (auto simp: SSIRequest_def ssi_guard_def serves_def getSupportData_def)
  next
    case 7
    then show ?thesis using ok g by (auto simp: SSIRequest_def ssi_guard_def serves_def getProcessID_def)
  next
    case 8
    then show ?thesis using t [of sender] g by (auto simp: SSIRequest_def ssi_guard_def serves_def)
  qed
qed

section \<open>The transition system\<close>

text \<open>What processes, devices and clocks do between two entries into the nucleus leaves the data of
  the nucleus alone.\<close>

definition same_kernel :: "sys \<Rightarrow> sys \<Rightarrow> bool" where
  "same_kernel s s' \<longleftrightarrow> lh_mem s' = lh_mem s \<and> pcbs s' = pcbs s \<and> msgs s' = msgs s \<and>
     pcbTable s' = pcbTable s \<and> msgTable s' = msgTable s \<and> softBlockCount s' = softBlockCount s \<and>
     processCount s' = processCount s \<and> current_process s' = current_process s \<and> next_pid s' = next_pid s \<and>
     ssi_pcb s' = ssi_pcb s"

inductive nucleus_step :: "sys \<Rightarrow> sys \<Rightarrow> bool" where
  outside: "same_kernel s s' \<Longrightarrow> nucleus_step s s'"
| exception: "exc_guard s \<Longrightarrow> exceptionHandler s = Some (c, s') \<Longrightarrow> nucleus_step s s'"
| service: "ssi_guard sender srv a s \<Longrightarrow> SSIRequest sender srv a s = Some (r, s') \<Longrightarrow> nucleus_step s s'"

inductive_cases nucleus_stepE: "nucleus_step s s'"

inductive reachable :: "(entry_point \<Rightarrow> u32) \<Rightarrow> sys \<Rightarrow> bool" for code where
  boot: "static_image s0 \<Longrightarrow> main code s0 = Some (c, s) \<Longrightarrow> reachable code s"
| step: "reachable code s \<Longrightarrow> nucleus_step s s' \<Longrightarrow> reachable code s'"

lemma nucleus_step_ok:
  assumes "nucleus_step s s'" "nucleus_ok s"
  shows "nucleus_ok s'"
proof -
  have "nucleus_ok s'" if "same_kernel s s'"
    by (rule nucleus_ok_nondata [OF _ _ _ _ _ _ _ _ assms(2)]) (use that in \<open>simp_all add: same_kernel_def\<close>)
  moreover have "nucleus_ok s'" if "exc_guard s" "exceptionHandler s = Some (c, s')" for c
    using exceptionHandler_works [OF assms(2) that(1)] that(2) by (simp add: works_def)
  moreover have "nucleus_ok s'" if "ssi_guard p v a s" "SSIRequest p v a s = Some (r, s')" for p v a r
    using SSIRequest_serves [OF assms(2) that(1)] that(2) by (simp add: serves_def)
  ultimately show ?thesis using assms(1) by (auto elim: nucleus_stepE)
qed

text \<open>The boot with its first scheduling: the SSI runs.\<close>

lemma static_table:
  assumes "static_image s"
  obtains p q ps where "pcbTable s = p # q # ps"
proof -
  have "length (pcbTable s) = 50" using assms by (simp add: static_image_def pcb_table_ok_def)
  then show ?thesis using that by (cases "pcbTable s"; cases "tl (pcbTable s)") auto
qed

lemma boot_forest:
  assumes "static_image s" "pcbTable s = p # q # ps"
  shows "forest (boot_final_queues s p q ps)"
proof -
  have "queue_of (boot_final_queues s p q ps) (P_CHILD z) = []" for z
    by (simp add: boot_final_queues_def boot_queues_def queue_of_upd idle_queues_def pools_def queue_of_def)
  then show ?thesis by (simp add: forest_def child_rel_def acyclic_def)
qed

lemma main_runs:
  assumes st: "static_image s" and tab: "pcbTable s = p # q # ps"
  shows "\<exists>s' h. main_init code s = Some s' \<and> booted code s p q s' \<and>
    main code s = Some (LDST (p_s (the (pcbs s' p))), dispatched p h s') \<and>
    kernel_inv (dispatched p h s') ((boot_final_queues s p q ps)(readyQueue \<mapsto> map P_LIST [q]))"
proof -
  from main_init_kernel_inv [OF assms, of code] obtain s' where
    s': "main_init code s = Some s'" "kernel_inv s' (boot_final_queues s p q ps)" "booted code s p q s'" by blast
  have rq: "procs (boot_final_queues s p q ps) readyQueue (p # [q])"
    by (simp add: boot_final_queues_def boot_queues_def)
  from scheduler_cons [OF s'(2) rq] obtain h x where
    h: "pcbs s' p = Some x" "scheduler s' = Some (LDST (p_s x), dispatched p h s')"
    "kernel_inv (dispatched p h s') ((boot_final_queues s p q ps)(readyQueue \<mapsto> map P_LIST [q]))" by blast
  then show ?thesis using s' by (auto simp: main_def)
qed

lemma reachable_nucleus_ok: "reachable code s \<Longrightarrow> nucleus_ok s"
proof (induction rule: reachable.induct)
  case (boot s0 c s)
  from static_table [OF boot(1)] obtain p q ps where tab: "pcbTable s0 = p # q # ps" .
  from main_runs [OF boot(1) tab, of code] boot(2)
  have "kernel_inv s ((boot_final_queues s0 p q ps)(readyQueue \<mapsto> map P_LIST [q]))" by auto
  moreover have "forest ((boot_final_queues s0 p q ps)(readyQueue \<mapsto> map P_LIST [q]))"
    by (rule forest_upd [OF _ boot_forest [OF boot(1) tab]]) simp
  ultimately show ?case by (auto simp: nucleus_ok_def)
next
  case (step s s')
  then show ?case by (blast intro: nucleus_step_ok)
qed

section \<open>The counters\<close>

text \<open>No process is in two queues, so the waiting, the ready and the running ones are among the
  allocated.\<close>

definition running :: "sys \<Rightarrow> nat" where
  "running s = (if current_process s = NULL then 0 else 1)"

lemma queues_disjoint:
  assumes inv: "kernel_inv s A"
  shows "distinct (concat (map (queue s) proc_heads))"
    and "set (concat (map (queue s) proc_heads)) \<subseteq> P_LIST ` (dom (pcbs s) - {current_process s})"
proof -
  have d: "distinct proc_heads" by (simp add: proc_heads_def blocked_heads_def)
  note gq = global_queue [OF inv]
  have rep: "represents s A" by (rule kernel_invD(1) [OF inv])
  show "distinct (concat (map (queue s) proc_heads))"
  proof (rule distinct_concat_map [OF d])
    fix q assume "q \<in> set proc_heads"
    then show "distinct (queue s q)" using represents_dlist [OF rep gq] by (simp add: dlist_def)
  next
    fix q r assume qr: "q \<in> set proc_heads" "r \<in> set proc_heads" "q \<noteq> r"
    then show "set (queue s q) \<inter> set (queue s r) = {}"
      using queues_ok_disjoint [OF represents_queues_ok [OF rep] gq [OF qr(1)] gq [OF qr(2)] qr(3)] by auto
  qed
  show "set (concat (map (queue s) proc_heads)) \<subseteq> P_LIST ` (dom (pcbs s) - {current_process s})"
  proof
    fix x assume "x \<in> set (concat (map (queue s) proc_heads))"
    then obtain q where q: "q \<in> set proc_heads" "x \<in> set (queue s q)" by auto
    obtain ps where ps: "procs A q ps" "queue s q = map P_LIST ps" by (rule procs_of [OF inv q(1)])
    then obtain p where p: "x = P_LIST p" "p \<in> set ps" using q(2) by auto
    from kernel_inv_procs(2) [OF inv q(1) ps(1) p(2)] have "p \<noteq> NULL" "p \<in> dom (pcbs s)" by auto
    moreover have "p \<noteq> current_process s"
    proof
      assume e: "p = current_process s"
      then have "P_LIST p \<notin> nodes A" using kernel_inv_current(2) [OF inv] \<open>p \<noteq> NULL\<close> by simp
      then show False using nodesI2 [where A = A, OF ps(1)] p(2) by auto
    qed
    ultimately show "x \<in> P_LIST ` (dom (pcbs s) - {current_process s})" using p(1) by blast
  qed
qed

lemma counters:
  assumes inv: "kernel_inv s A"
  shows "blocked_total A + length (queue s readyQueue) + running s \<le> live_total A"
    and "unat (processCount s) = live_total A" "unat (softBlockCount s) = blocked_total A"
proof -
  note qd = queues_disjoint [OF inv]
  have fin: "finite (dom (pcbs s))" and card: "card (dom (pcbs s)) = 50" and n0: "NULL \<notin> dom (pcbs s)"
    using kernel_invD(2) [OF inv] by (auto simp: pcb_table_ok_def distinct_card)
  have cq: "queue s q = queue_of A q" if "q \<in> set proc_heads" for q
    using global_queue [OF inv that] by simp
  have "length (concat (map (queue s) proc_heads)) = card (set (concat (map (queue s) proc_heads)))"
    by (rule distinct_card [OF qd(1), symmetric])
  also have "\<dots> \<le> card (P_LIST ` (dom (pcbs s) - {current_process s}))"
    by (rule card_mono [OF _ qd(2)]) (simp add: fin)
  also have "\<dots> \<le> card (dom (pcbs s) - {current_process s})"
    by (rule card_image_le) (simp add: fin)
  also have "\<dots> = 50 - running s"
  proof (cases "current_process s = NULL")
    case True
    then show ?thesis using n0 card by (simp add: running_def)
  next
    case False
    then have "current_process s \<in> dom (pcbs s)" using kernel_inv_current(1) [OF inv False] by blast
    then show ?thesis using False card fin by (simp add: running_def card_Diff_singleton)
  qed
  finally have le: "length (concat (map (queue s) proc_heads)) \<le> 50 - running s" .
  have "length (concat (map (queue s) proc_heads)) =
      length (queue s pcbFree_h) + length (queue s readyQueue) + (\<Sum>q \<leftarrow> blocked_heads. length (queue s q))"
    by (simp add: proc_heads_def length_concat comp_def)
  also have "(\<Sum>q \<leftarrow> blocked_heads. length (queue s q)) = blocked_total A"
    unfolding blocked_total_def by (rule arg_cong [where f = sum_list], rule map_cong) (simp_all add: cq proc_heads_def)
  finally have len: "length (concat (map (queue s) proc_heads)) =
      length (queue s pcbFree_h) + length (queue s readyQueue) + blocked_total A" .
  have "live_total A = 50 - length (queue s pcbFree_h)" by (simp add: live_total_def cq)
  moreover have "running s \<le> 1" by (simp add: running_def)
  ultimately show "blocked_total A + length (queue s readyQueue) + running s \<le> live_total A"
    using le len by linarith
  then have "blocked_total A \<le> 50" using live_total_le [of A] by simp
  then show "unat (processCount s) = live_total A" "unat (softBlockCount s) = blocked_total A"
    using live_total_le [of A] kernel_invD(4,5) [OF inv] by (simp_all add: unat_of_nat take_bit_nat_eq_self)
qed

end
