(* ===== verification/Demo.thy ===== *)
theory Demo
  imports Services
begin

text \<open>
  Concrete states on which the hypotheses of the properties hold: a memory image with the two static
  arrays at fixed addresses, the state \<open>main\<close> leaves before it calls the scheduler, the state in
  which the SSI runs, and states a few operations further on.
\<close>

section \<open>The image\<close>

definition demo_pcbs :: "ptr list" where
  "demo_pcbs = map (\<lambda>i. 0x20010000 + of_nat i * 0x100) [0..<50]"

definition demo_msgs :: "ptr list" where
  "demo_msgs = map (\<lambda>i. 0x20020000 + of_nat i * 0x10) [0..<50]"

definition demo_code :: "entry_point \<Rightarrow> u32" where
  "demo_code e = (case e of E_uTLB_RefillHandler \<Rightarrow> 0x20000100 | E_exceptionHandler \<Rightarrow> 0x20000200
     | E_SSI \<Rightarrow> 0x20000300 | E_test \<Rightarrow> 0x20000400
     | E_mutex \<Rightarrow> 0x20000500 | E_SST \<Rightarrow> 0x20000600 | E_pager \<Rightarrow> 0x20000700
     | E_supExceptionHandler \<Rightarrow> 0x20000800 | E_printer n \<Rightarrow> 0x20001000 + of_nat n * 0x10
     | E_terminal n \<Rightarrow> 0x20002000 + of_nat n * 0x10)"

definition blank_pcb :: pcb_t where
  "blank_pcb = \<lparr>p_parent = NULL, p_s = zero_state, p_time = 0, p_supportStruct = NULL, p_pid = 0,
     blockedOnDevice = 0, deviceType = 0\<rparr>"

definition demo_image :: sys where
  "demo_image = \<lparr>
     lh_mem = \<lparr>nxt = (\<lambda>l. l), prv = (\<lambda>l. l)\<rparr>,
     pcbs = (\<lambda>p. if p \<in> set demo_pcbs then Some blank_pcb else None),
     msgs = (\<lambda>m. if m \<in> set demo_msgs then Some \<lparr>m_sender = NULL, m_payload = 0\<rparr> else None),
     pcbTable = demo_pcbs, msgTable = demo_msgs, next_pid = 1,
     processCount = 0, softBlockCount = 0, current_process = NULL, ssi_pcb = NULL, new_pcb = NULL,
     startTOD = 0, exception_state = zero_state, cp0_status = 0, cp0_cause = 0, cp0_timer = 0,
     cp0_entryhi = 0, cp0_entrylo = 0, tlb_random = 1, tlb = (\<lambda>_. (0, 0)), interval_timer = 0,
     clock = (\<lambda>n. of_nat (1000 * n)), clock_reads = 0,
     mem = (\<lambda>_. 0)(RAMBASEADDR := 0x20000000, RAMBASESIZE := 0x40000), interrupt_dev = (\<lambda>_. 0),
     states = Map.empty, supports = Map.empty, ssi_payloads = Map.empty,
     ssi_create_processes = Map.empty, ssi_do_ios = Map.empty\<rparr>"

lemma word_table:
  assumes "0 < d" "a + 50 * d < 2 ^ 32"
  shows "distinct (map (\<lambda>i. of_nat (a + i * d) :: u32) [0..<50])"
    and "0 < a \<Longrightarrow> 0 \<notin> set (map (\<lambda>i. of_nat (a + i * d) :: u32) [0..<50])"
proof -
  have b: "a + i * d < 2 ^ 32" if "i < 50" for i
    using that assms by (smt (verit) add_le_mono less_imp_le_nat mult_le_mono le_less_trans order_refl)
  have u: "unat (of_nat (a + i * d) :: u32) = a + i * d" if "i < 50" for i
    using b [OF that] by (simp add: unat_of_nat take_bit_nat_eq_self del: of_nat_add of_nat_mult)
  have "inj_on (\<lambda>i. of_nat (a + i * d) :: u32) {0..<50}"
  proof (rule inj_onI)
    fix i j :: nat assume a: "i \<in> {0..<50}" "j \<in> {0..<50}" "(of_nat (a + i * d) :: u32) = of_nat (a + j * d)"
    then have "unat (of_nat (a + i * d) :: u32) = unat (of_nat (a + j * d) :: u32)" by simp
    then show "i = j" using u [of i] u [of j] a(1,2) assms(1) by simp
  qed
  then show "distinct (map (\<lambda>i. of_nat (a + i * d) :: u32) [0..<50])" by (simp only: distinct_map set_upt distinct_upt simp_thms)
  show "0 \<notin> set (map (\<lambda>i. of_nat (a + i * d) :: u32) [0..<50])" if a: "0 < a"
  proof
    assume "0 \<in> set (map (\<lambda>i. of_nat (a + i * d) :: u32) [0..<50])"
    then obtain i where i: "i < 50" "(of_nat (a + i * d) :: u32) = 0" by (auto simp: image_iff)
    with u [OF i(1)] a show False by simp
  qed
qed

lemma demo_tables:
  "distinct demo_pcbs" "NULL \<notin> set demo_pcbs" "length demo_pcbs = 50"
  "distinct demo_msgs" "NULL \<notin> set demo_msgs" "length demo_msgs = 50"
proof -
  have p: "demo_pcbs = map (\<lambda>i. of_nat (0x20010000 + i * 0x100)) [0..<50]"
    and m: "demo_msgs = map (\<lambda>i. of_nat (0x20020000 + i * 0x10)) [0..<50]"
    by (simp_all only: demo_pcbs_def demo_msgs_def of_nat_add of_nat_mult of_nat_numeral)
  show "distinct demo_pcbs" unfolding p by (rule word_table(1)) simp_all
  show "NULL \<notin> set demo_pcbs" unfolding p by (rule word_table(2)) simp_all
  show "distinct demo_msgs" unfolding m by (rule word_table(1)) simp_all
  show "NULL \<notin> set demo_msgs" unfolding m by (rule word_table(2)) simp_all
  show "length demo_pcbs = 50" "length demo_msgs = 50" by (simp_all add: p m)
qed

lemma demo_image_static: "static_image demo_image"
proof -
  have d: "dom (pcbs demo_image) = set demo_pcbs" "dom (msgs demo_image) = set demo_msgs"
    by (auto simp: demo_image_def split: if_splits)
  have f: "pcbTable demo_image = demo_pcbs" "msgTable demo_image = demo_msgs" "next_pid demo_image = 1"
    by (simp_all add: demo_image_def)
  have e: "dlist (lh_mem demo_image) q []" for q by (simp add: demo_image_def dlist_def)
  show ?thesis
    unfolding static_image_def pcb_table_ok_def msg_table_ok_def d f using demo_tables e by simp
qed

section \<open>After the boot\<close>

abbreviation (input) p0 :: ptr where "p0 \<equiv> 0x20010000"
abbreviation (input) p1 :: ptr where "p1 \<equiv> 0x20010100"

definition demo_rest :: "ptr list" where
  "demo_rest = map (\<lambda>i. 0x20010000 + of_nat i * 0x100) [2..<50]"

lemma demo_pcbs_cons: "pcbTable demo_image = p0 # p1 # demo_rest"
proof -
  have "[0..<50] = 0 # 1 # [2..<50 :: nat]"
    by (simp add: upt_conv_Cons numeral_2_eq_2 [symmetric] del: upt_Suc)
  then show ?thesis by (simp add: demo_image_def demo_pcbs_def demo_rest_def del: upt_Suc)
qed

text \<open>The state in which the SSI has just been dispatched.\<close>

definition demo_start :: sys where
  "demo_start = snd (the (main demo_code demo_image))"

definition demo_queues :: queues where
  "demo_queues = (boot_final_queues demo_image p0 p1 demo_rest)(readyQueue \<mapsto> [P_LIST p1])"

lemma demo_start_main:
  "\<exists>c. main demo_code demo_image = Some (c, demo_start)"
  "kernel_inv demo_start demo_queues" "current_process demo_start = p0" "ssi_pcb demo_start = p0"
  using main_runs [OF demo_image_static demo_pcbs_cons, of demo_code]
  by (auto simp: demo_start_def demo_queues_def dispatched_def booted_def)

lemma demo_queues_at [simp]:
  "demo_queues readyQueue = Some [P_LIST p1]"
  "demo_queues pcbFree_h = Some (map P_LIST demo_rest)"
  "demo_queues msgFree_h = Some (map M_LIST (rev demo_msgs))"
  "q \<in> set blocked_heads \<Longrightarrow> demo_queues q = Some []"
  "demo_queues (P_CHILD p0) = Some []" "demo_queues (P_CHILD p1) = Some []"
  "demo_queues (MSG_INBOX p0) = Some []" "demo_queues (MSG_INBOX p1) = Some []"
  "demo_queues (P_LIST z) = None"
  by (auto simp: demo_queues_def boot_final_queues_def boot_queues_def idle_queues_def pools_def
      blocked_heads_def demo_image_def)

lemma demo_reachable: "reachable demo_code demo_start"
  using demo_start_main(1) reachable.boot [OF demo_image_static] by blast

end
