(* ===== verification/Nucleus_Props.thy ===== *)
theory Nucleus_Props
  imports Demo
begin

text \<open>
  What the nucleus guarantees, stated over its own state: \<open>queue s q\<close> is the list under the head \<open>q\<close>,
  \<open>nucleus_ok s\<close> the invariant.  Every hypothesis is one the demo states satisfy.
\<close>

section \<open>Reading results off the abstract queues\<close>

text \<open>The heads of a state's lists: the global ones, and the child list and inbox of each process.\<close>

definition live_head :: "sys \<Rightarrow> lh \<Rightarrow> bool" where
  "live_head s q \<longleftrightarrow> q \<in> set (msgFree_h # proc_heads) \<or>
     (\<exists>p. allocated s p \<and> (q = P_CHILD p \<or> q = MSG_INBOX p))"

definition kept :: "lh set \<Rightarrow> sys \<Rightarrow> sys \<Rightarrow> bool" where
  "kept Q s s' \<longleftrightarrow> (\<forall>q. live_head s q \<longrightarrow> q \<notin> Q \<longrightarrow> queue s' q = queue s q)"

lemma live_head_queue:
  assumes inv: "kernel_inv s A" and q: "live_head s q"
  shows "A q = Some (queue s q)"
proof -
  consider "q \<in> set proc_heads" | "q = msgFree_h"
    | p where "allocated s p" "q = P_CHILD p" | p where "allocated s p" "q = MSG_INBOX p"
    using q by (auto simp: live_head_def)
  then show ?thesis
  proof cases
    case 1
    then show ?thesis by (rule global_queue [OF inv])
  next
    case 2
    then show ?thesis using msgFree_queue [OF inv] by simp
  next
    case 3
    then show ?thesis using children_of [OF inv, of p] by metis
  next
    case 4
    then show ?thesis using inbox_of [OF inv, of p] by metis
  qed
qed

lemma keptI:
  assumes inv: "kernel_inv s A" "kernel_inv s' B"
    and "\<And>q. live_head s q \<Longrightarrow> q \<notin> Q \<Longrightarrow> B q = A q"
  shows "kept Q s s'"
  unfolding kept_def using live_head_queue [OF inv(1)] assms(3) queue_eq [OF inv(2)] by metis

lemma procs_queue:
  assumes inv: "kernel_inv s A" and q: "q \<in> set proc_heads" "queue s q = map P_LIST ps"
  shows "procs A q ps"
  using global_queue [OF inv q(1)] q(2) by simp

lemma msgs_queue:
  "kernel_inv s A \<Longrightarrow> queue s msgFree_h = map M_LIST ms \<Longrightarrow> inbox A msgFree_h ms"
  using msgFree_queue [of s A] by simp

lemma inbox_queue:
  assumes inv: "kernel_inv s A" and p: "allocated s p" "queue s (MSG_INBOX p) = map M_LIST ms"
  shows "inbox A (MSG_INBOX p) ms"
proof -
  obtain inb where i: "inbox A (MSG_INBOX p) inb" "queue s (MSG_INBOX p) = map M_LIST inb"
    by (rule inbox_of [OF inv p(1)])
  then show ?thesis using p(2) by simp
qed

lemma queue_cong: "lh_mem s' = lh_mem s \<Longrightarrow> queue s' = queue s"
  by (simp add: queue_def fun_eq_iff)

lemma kept_cong:
  assumes "lh_mem s1 = lh_mem s" "dom (pcbs s1) = dom (pcbs s)"
  shows "kept Q s1 s' = kept Q s s'"
proof -
  have "(pcbs s1 p = None) = (pcbs s p = None)" for p using assms(2) by (metis domIff)
  then have "live_head s1 q = live_head s q" for q
    by (simp add: live_head_def allocated_def queue_cong [OF assms(1)])
  then show ?thesis by (simp add: kept_def queue_cong [OF assms(1)])
qed

section \<open>What the scheduler does next\<close>

text \<open>The head of the ready queue runs with a fresh time slice; with nothing ready the counters decide
  between halting, waiting for an interrupt and panic.\<close>

definition runs_next :: "sys \<Rightarrow> control \<Rightarrow> sys \<Rightarrow> bool" where
  "runs_next s c s' \<longleftrightarrow> (case queue s readyQueue of
     [] \<Rightarrow> c = idle_outcome (unat (processCount s)) (unat (softBlockCount s)) \<and> s' = idled c s
   | q # qs \<Rightarrow> \<exists>p x. q = P_LIST p \<and> pcbs s p = Some x \<and> c = LDST (p_s x) \<and>
       s' = dispatched p (lh_mem s') s \<and> queue s' readyQueue = qs \<and> kept {readyQueue} s s')"

lemma dispatched_current: "current_process (dispatched p h s) = p"
  by (simp add: dispatched_def)

lemma runs_next_current:
  "runs_next s c s' \<Longrightarrow> queue s readyQueue = P_LIST p # qs \<Longrightarrow> current_process s' = p"
  unfolding runs_next_def using dispatched_current by (auto simp: runs_next_def) metis

lemma scheduler_next:
  assumes ok: "nucleus_ok (s\<lparr>current_process := NULL\<rparr>)"
  shows "\<exists>c s'. scheduler s = Some (c, s') \<and> runs_next s c s' \<and> nucleus_ok s'"
proof -
  let ?s = "s\<lparr>current_process := NULL\<rparr>"
  from ok obtain A where inv: "kernel_inv ?s A" and ac: "forest A" by (rule nucleus_okE)
  have q: "queue ?s = queue s" by (rule queue_cong) simp
  from procs_of [OF inv, of readyQueue] obtain rs where
    rs: "procs A readyQueue rs" "queue s readyQueue = map P_LIST rs" unfolding q by auto
  have cnt: "unat (processCount s) = live_total A" "unat (softBlockCount s) = blocked_total A"
    using counters [OF inv] by simp_all
  show ?thesis
  proof (cases rs)
    case Nil
    define c where "c = idle_outcome (live_total A) (blocked_total A)"
    have "scheduler ?s = Some (c, idled c ?s)" by (rule scheduler_nil [where A = A, OF inv _ c_def]) (use rs Nil in simp)
    moreover have "idled c ?s = idled c s" by (simp add: idled_def)
    moreover have "nucleus_ok (idled c ?s)" using kernel_inv_idled [OF inv] ac by (auto simp: nucleus_ok_def)
    ultimately show ?thesis using rs(2) Nil cnt by (simp add: runs_next_def c_def scheduler_current)
  next
    case (Cons p ps)
    then have "procs A readyQueue (p # ps)" using rs(1) by simp
    from scheduler_cons [where A = A, OF inv this] obtain h x where
      h: "pcbs s p = Some x" "scheduler s = Some (LDST (p_s x), dispatched p h ?s)"
      "kernel_inv (dispatched p h ?s) (A(readyQueue \<mapsto> map P_LIST ps))" by (auto simp: scheduler_current)
    have e: "dispatched p h ?s = dispatched p h s" by (simp add: dispatched_def)
    have "queue (dispatched p h s) readyQueue = map P_LIST ps" using queue_eq [OF h(3)] unfolding e by simp
    moreover have "kept {readyQueue} ?s (dispatched p h ?s)" by (rule keptI [OF inv h(3)]) simp
    then have "kept {readyQueue} s (dispatched p h s)" using kept_cong [of ?s s] unfolding e by simp
    moreover have "nucleus_ok (dispatched p h s)"
      using h(3) forest_upd [OF _ ac, of readyQueue] unfolding e by (auto simp: nucleus_ok_def)
    moreover have "dispatched p h s = dispatched p (lh_mem (dispatched p h s)) s" by (simp add: dispatched_def)
    ultimately show ?thesis using h(1,2) rs(2) Cons unfolding e by (auto simp: runs_next_def)
  qed
qed

lemma nucleus_ok_idle: "nucleus_ok s \<Longrightarrow> nucleus_ok (s\<lparr>current_process := NULL\<rparr>)"
  by (rule nucleus_ok_nondata [of "s\<lparr>current_process := NULL\<rparr>" s]) simp_all

text \<open>The demo state.\<close>

lemma demo_queue: "demo_queues q = Some xs \<Longrightarrow> queue demo_start q = xs"
  by (rule queue_eq [OF demo_start_main(2)])

lemma demo_ok: "nucleus_ok demo_start"
  by (rule reachable_nucleus_ok [OF demo_reachable])

section \<open>Reachable states\<close>

text \<open>C1.  Whatever exceptions are taken and whatever services are granted after the boot, every list
  of the nucleus stays a well formed ring of its own kind of nodes, no node is in two lists, both
  counters agree with the queues, and the process tree is consistent and without cycles.\<close>

theorem reachable_states_ok: "reachable code s \<Longrightarrow> nucleus_ok s"
  by (rule reachable_nucleus_ok)

theorem reachable_states_ok_witness: "reachable demo_code demo_start \<and> nucleus_ok demo_start"
  using demo_reachable reachable_states_ok [OF demo_reachable] by simp

text \<open>C2.  In every reachable state an exception whose guard holds is handled: the handler returns a
  control transfer (nothing is dereferenced that does not exist, no loop runs for ever), and the
  state it leaves is well formed again.\<close>

theorem exceptions_handled:
  assumes "reachable code s" "exc_guard s"
  shows "\<exists>c s'. exceptionHandler s = Some (c, s') \<and> nucleus_ok s' \<and> reachable code s'"
  using exceptionHandler_works [OF reachable_nucleus_ok [OF assms(1)] assms(2)]
    reachable.step [OF assms(1) nucleus_step.exception [OF assms(2)]]
  by (auto simp: works_def)

text \<open>The SSI, just dispatched, sends a message to the test process.\<close>

definition demo_send :: sys where
  "demo_send = demo_start\<lparr>cp0_cause := 32, exception_state := zero_state\<lparr>gpr :=
     (\<lambda>_. 0)(reg_a0 := SENDMESSAGE, reg_a1 := p1, reg_a2 := 77)\<rparr>\<rparr>"

lemma demo_send_same: "same_kernel demo_start demo_send"
  by (simp add: demo_send_def same_kernel_def)

lemma demo_send_reachable: "reachable demo_code demo_send"
  by (rule reachable.step [OF demo_reachable nucleus_step.outside [OF demo_send_same]])

lemma demo_p1: "ready demo_start p1" "pcbs demo_start p1 \<noteq> None" "pcbs demo_start p0 \<noteq> None"
proof -
  show "ready demo_start p1" by (simp add: ready_def demo_queue)
  show "pcbs demo_start p1 \<noteq> None"
    using kernel_inv_procs(2) [OF demo_start_main(2) _ , of readyQueue "[p1]" p1] by auto
  show "pcbs demo_start p0 \<noteq> None"
    using kernel_inv_current(1) [OF demo_start_main(2)] by (simp add: demo_start_main(3))
qed

lemma demo_send_guard: "exc_guard demo_send"
proof -
  have q: "queue demo_send = queue demo_start" by (simp add: demo_send_def queue_def fun_eq_iff)
  have "exc_code demo_send = 8" by (simp add: exc_code_def demo_send_def)
  moreover have "send_guard p1 demo_send"
    using demo_p1 by (simp add: send_guard_def ready_def q) (simp add: demo_send_def)
  ultimately show ?thesis
    by (simp add: exc_guard_def exc_target_def sys_guard_def demo_send_def zero_state_def)
qed

theorem exceptions_handled_witness:
  "reachable demo_code demo_send \<and> exc_guard demo_send \<and> (\<exists>c s'. exceptionHandler demo_send = Some (c, s') \<and> nucleus_ok s')"
  using exceptions_handled [OF demo_send_reachable demo_send_guard] demo_send_reachable demo_send_guard by blast

text \<open>C3.  In every reachable state a service whose guard holds is granted: \<^verbatim>\<open>SSIRequest\<close>
  returns, the recursion of \<^verbatim>\<open>terminateProcess\<close> included, and the state is well formed.\<close>

theorem services_granted:
  assumes "reachable code s" "ssi_guard sender srv a s"
  shows "\<exists>r s'. SSIRequest sender srv a s = Some (r, s') \<and> nucleus_ok s' \<and> reachable code s'"
  using SSIRequest_serves [OF reachable_nucleus_ok [OF assms(1)] assms(2)]
    reachable.step [OF assms(1) nucleus_step.service [OF assms(2)]]
  by (auto simp: serves_def)

text \<open>The test process asks for a child.\<close>

definition demo_request :: sys where
  "demo_request = demo_start\<lparr>states := [0x20030000 \<mapsto> zero_state],
     ssi_create_processes := [0x20030200 \<mapsto> \<lparr>scp_state = 0x20030000, scp_support = NULL\<rparr>]\<rparr>"

lemma demo_request_reachable: "reachable demo_code demo_request"
  by (rule reachable.step [OF demo_reachable nucleus_step.outside])
    (simp add: demo_request_def same_kernel_def)

lemma demo_p1_allocated: "allocated demo_start p1"
proof -
  have "demo_pcbs = p0 # p1 # demo_rest" using demo_pcbs_cons by (simp add: demo_image_def)
  then have "distinct (p0 # p1 # demo_rest)" using demo_tables(1) by metis
  then have "p1 \<notin> set demo_rest" by (simp only: distinct.simps simp_thms)
  then show ?thesis using demo_p1 by (auto simp: allocated_def demo_queue)
qed

lemma demo_request_guard: "ssi_guard p1 CREATEPROCESS 0x20030200 demo_request"
proof -
  have q: "queue demo_request = queue demo_start" by (simp add: demo_request_def queue_def fun_eq_iff)
  have "allocated demo_request p1"
    using demo_p1_allocated unfolding allocated_def q by (simp add: demo_request_def)
  then show ?thesis by (simp add: ssi_guard_def create_guard_def demo_request_def)
qed

theorem services_granted_witness:
  "reachable demo_code demo_request \<and> ssi_guard p1 CREATEPROCESS 0x20030200 demo_request \<and>
   (\<exists>r s'. SSIRequest p1 CREATEPROCESS 0x20030200 demo_request = Some (r, s') \<and> nucleus_ok s')"
  using services_granted [OF demo_request_reachable demo_request_guard]
    demo_request_reachable demo_request_guard by blast

text \<open>C22.  In every reachable state no process is in two process queues, the processes that wait, are
  ready or run are among those \<^verbatim>\<open>processCount\<close> counts, \<^verbatim>\<open>softBlockCount\<close>
  is the number of those that wait, and neither counter exceeds 50 or wraps.\<close>

theorem counters_agree:
  assumes "reachable code s"
  shows "distinct (concat (map (queue s) proc_heads)) \<and>
    unat (softBlockCount s) = (\<Sum>q \<leftarrow> blocked_heads. length (queue s q)) \<and>
    unat (processCount s) + length (queue s pcbFree_h) = MAXPROC \<and>
    unat (softBlockCount s) + length (queue s readyQueue) + running s \<le> unat (processCount s)"
proof -
  from reachable_nucleus_ok [OF assms] obtain A where inv: "kernel_inv s A" by (auto simp: nucleus_ok_def)
  note c = counters [OF inv]
  have g: "queue s q = queue_of A q" if "q \<in> set proc_heads" for q using global_queue [OF inv that] by simp
  have "(\<Sum>q \<leftarrow> blocked_heads. length (queue s q)) = blocked_total A"
    unfolding blocked_total_def
    by (rule arg_cong [where f = sum_list], rule map_cong) (simp_all add: g proc_heads_def)
  moreover have "live_total A + length (queue s pcbFree_h) = MAXPROC"
    using length_queue_le [OF inv, of pcbFree_h] by (simp add: live_total_def g)
  ultimately show ?thesis using c queues_disjoint(1) [OF inv] by simp
qed

theorem counters_agree_witness:
  "reachable demo_code demo_start \<and> unat (processCount demo_start) + length (queue demo_start pcbFree_h) = 50"
  using counters_agree [OF demo_reachable] demo_reachable by simp

section \<open>Boot and scheduling\<close>

text \<open>C18.  From any image with the two static arrays of PCBs and messages the boot succeeds: the SSI, which
  got the first PCB and pid 1, runs with interrupts enabled on the topmost frame, and
  \<^verbatim>\<open>test\<close>, on the second PCB, is the only ready process.  All other PCBs and all messages
  are free, no process is blocked, the exception vector and the interval timer are set.\<close>

theorem boot_runs:
  assumes img: "static_image s" "pcbTable s = p # q # ps"
  shows "\<exists>s'. main code s = Some (LDST (zero_state\<lparr>status := ALLOFF OR IEPON OR IMON,
       gpr := (\<lambda>_. 0)(reg_sp := RAMTOP s, reg_t9 := code E_SSI), pc_epc := code E_SSI\<rparr>), s') \<and>
     nucleus_ok s' \<and> current_process s' = p \<and> ssi_pcb s' = p \<and> queue s' readyQueue = [P_LIST q] \<and>
     queue s' pcbFree_h = map P_LIST ps \<and> queue s' msgFree_h = map M_LIST (rev (msgTable s)) \<and>
     (\<forall>b \<in> set blocked_heads. queue s' b = []) \<and> processCount s' = 2 \<and> softBlockCount s' = 0 \<and>
     map_option p_pid (pcbs s' p) = Some 1 \<and> map_option p_pid (pcbs s' q) = Some 2 \<and>
     interval_timer s' = PSECOND \<and> mem s' (PASSUPVECTOR + 8) = code E_exceptionHandler"
proof -
  from main_runs [OF img, of code] obtain t h where
    t: "booted code s p q t" "main code s = Some (LDST (p_s (the (pcbs t p))), dispatched p h t)"
    "kernel_inv (dispatched p h t) ((boot_final_queues s p q ps)(readyQueue \<mapsto> map P_LIST [q]))" (is "kernel_inv ?t ?B")
    by blast
  have dom: "p \<in> dom (pcbs s)" "q \<in> dom (pcbs s)" using img by (auto simp: static_image_def pcb_table_ok_def)
  then obtain x y where xy: "pcbs s p = Some x" "pcbs s q = Some y" by auto
  have "forest ?B" by (rule forest_upd [OF _ boot_forest [OF img]]) simp
  then have ok: "nucleus_ok ?t" using t(3) by (auto simp: nucleus_ok_def)
  have qs: "?B readyQueue = Some [P_LIST q]" "?B pcbFree_h = Some (map P_LIST ps)"
    "?B msgFree_h = Some (map M_LIST (rev (msgTable s)))" "b \<in> set blocked_heads \<Longrightarrow> ?B b = Some []" for b
    by (auto simp: boot_final_queues_def boot_queues_def idle_queues_def pools_def blocked_heads_def)
  have len: "length ps = 48" using img by (simp add: static_image_def pcb_table_ok_def)
  have "blocked_total ?B = 0" using qs(4) by (simp add: blocked_total_def)
  moreover have "live_total ?B = 2" using qs(2) len by (simp add: live_total_def)
  ultimately have cnt: "softBlockCount ?t = 0" "processCount ?t = 2" using kernel_invD(4,5) [OF t(3)] by simp_all
  have "queue ?t readyQueue = [P_LIST q]" "queue ?t pcbFree_h = map P_LIST ps"
    "queue ?t msgFree_h = map M_LIST (rev (msgTable s))" "\<forall>b \<in> set blocked_heads. queue ?t b = []"
    using queue_eq [OF t(3)] qs by blast+
  then show ?thesis
    using t(1,2) ok cnt xy by (simp add: booted_def dispatched_def boot_pcb_def fresh_pcb_def)
qed

theorem boot_runs_witness:
  "\<exists>c s'. main demo_code demo_image = Some (c, s') \<and> queue s' readyQueue = [P_LIST p1] \<and> processCount s' = 2"
  using boot_runs [OF demo_image_static demo_pcbs_cons, of demo_code] by blast

text \<open>C21.  Whatever ran before, the scheduler gives the processor to the process at the head of the ready
  queue and takes it off, with the clock started for it and the rest of the queues untouched.  With nothing
  ready it halts the machine when one process is left, panics when none of several is blocked, and
  waits for an interrupt otherwise; with no process left at all it falls through to its end.\<close>

theorem scheduler_dispatches:
  assumes "nucleus_ok s"
  shows "\<exists>c s'. scheduler s = Some (c, s') \<and> runs_next s c s' \<and> nucleus_ok s'"
  by (rule scheduler_next [OF nucleus_ok_idle [OF assms]])

theorem scheduler_dispatches_witness:
  "\<exists>c s'. scheduler demo_start = Some (c, s') \<and> current_process s' = p1"
  using scheduler_dispatches [OF demo_ok] runs_next_current demo_queue [OF demo_queues_at(1)] by blast

section \<open>A node in two queues\<close>

text \<open>Two memories that agree along a list up to a node lead to that node both.\<close>

lemma links_follow:
  assumes "links h a (pre @ l # post) b" "\<And>z. z \<in> insert a (set pre) \<Longrightarrow> nxt h' z = nxt h z"
    and "links h' a ys q" "q \<notin> set pre" "q \<noteq> l"
  shows "l \<in> set ys"
  using assms
proof (induction pre arbitrary: a ys)
  case Nil
  then show ?case by (cases ys) auto
next
  case (Cons x pre)
  then show ?case by (cases ys) auto
qed

text \<open>A queue that leads to a process, and another one whose last node is that process: no family of lists
  describes such a memory.\<close>

lemma two_queues_corrupt:
  assumes dr: "dlist h c (pre @ P_LIST p # post)" and h: "c \<in> set proc_heads" "q \<in> set proc_heads" "q \<noteq> c"
    and same: "\<And>z. z \<in> insert c (set pre) \<Longrightarrow> nxt (lh_mem s') z = nxt h z" and last: "prv (lh_mem s') q = P_LIST p"
  shows "\<not> nucleus_ok s'"
proof
  assume "nucleus_ok s'"
  then obtain B where inv: "kernel_inv s' B" by (auto simp: nucleus_ok_def)
  note rep = kernel_invD(1) [OF inv]
  obtain ys zs where B: "B c = Some ys" "B q = Some zs" using global_queue [OF inv] h(1,2) by meson
  have d: "dlist (lh_mem s') c ys" "dlist (lh_mem s') q zs"
    using represents_dlist [OF rep B(1)] represents_dlist [OF rep B(2)] by simp_all
  have ne: "q \<noteq> P_LIST p" "c \<noteq> P_LIST p" using h(1,2) by (auto simp: proc_heads_def blocked_heads_def)
  have "P_LIST p \<in> set ys"
    by (rule links_follow [where h = h and h' = "lh_mem s'" and a = c and q = c, OF _ same])
      (use dr d ne in \<open>auto simp: dlist_def\<close>)
  moreover have "P_LIST p \<in> set zs"
    using dlist_prev [OF d(2)] ne(1) last by (cases zs rule: rev_cases) (auto split: if_splits)
  ultimately show False using queues_ok_disjoint [OF represents_queues_ok [OF rep] B] h(3) by auto
qed

text \<open>So when a process of one queue is put at the end of another.\<close>

lemma prev_in: "dlist h q xs \<Longrightarrow> prv h q \<in> insert q (set xs)"
  using dlist_prev [of h q xs] by (cases xs rule: rev_cases) (auto split: if_splits)

lemma relink_corrupts:
  assumes dr: "dlist h c (pre @ P_LIST p # post)" and dq: "dlist h q xs"
    and dis: "insert c (set (pre @ P_LIST p # post)) \<inter> insert q (set xs) = {}"
    and h: "c \<in> set proc_heads" "q \<in> set proc_heads" "q \<noteq> c"
    and s': "lh_mem s' = list_add_tail (P_LIST p) q h"
  shows "\<not> nucleus_ok s'"
proof (rule two_queues_corrupt [OF dr h])
  fix z assume z: "z \<in> insert c (set pre)"
  then have "z \<noteq> P_LIST p" using dr h(1) by (auto simp: dlist_def proc_heads_def blocked_heads_def)
  moreover have "z \<noteq> prv h q" using z dis prev_in [OF dq] by auto
  ultimately show "nxt (lh_mem s') z = nxt h z" by (simp add: s' list_add_tail_def list_add_between_def)
next
  have "q \<noteq> P_LIST p" using h(2) by (auto simp: proc_heads_def blocked_heads_def)
  then show "prv (lh_mem s') q = P_LIST p" by (simp add: s' list_add_tail_def list_add_between_def)
qed

lemma queue_split:
  assumes r: "represents s A" and q: "procs A c rs" "p \<in> set rs" "A q = Some xs" "q \<noteq> c"
  obtains pre post where "dlist (lh_mem s) c (pre @ P_LIST p # post)" "dlist (lh_mem s) q xs"
    "insert c (set (pre @ P_LIST p # post)) \<inter> insert q (set xs) = {}"
proof -
  obtain pre post where "map P_LIST rs = pre @ P_LIST p # post" using split_list [of "P_LIST p" "map P_LIST rs"] q(2) by auto
  then show ?thesis
    using that represents_dlist [OF r q(1)] represents_dlist [OF r q(3)]
      queues_ok_disjoint [OF represents_queues_ok [OF r] q(1,3)] q(4) by metis
qed

end
