(* ===== verification/Ipc_Props.thy ===== *)
theory Ipc_Props
  imports Nucleus_Props
begin

text \<open>
  Message passing over the state of the nucleus: what \<^verbatim>\<open>send\<close> and
  \<^verbatim>\<open>recv\<close> do to the queues on every branch, and that what is sent is what is received.
\<close>

section \<open>send\<close>

lemma send_delivers_full:
  assumes ok: "nucleus_ok s" and m: "queue s msgFree_h = M_LIST m # ms" and al: "allocated s dest"
    and w: "dest = current_process s \<or> ready s dest \<or> \<not> linked s dest"
  shows "\<exists>s'. send sndr dest payload s = Some (0, s') \<and> nucleus_ok s' \<and>
    s' = s\<lparr>msgs := (msgs s)(m \<mapsto> \<lparr>m_sender = sndr, m_payload = payload\<rparr>), lh_mem := lh_mem s'\<rparr> \<and>
    queue s' msgFree_h = ms \<and> queue s' (MSG_INBOX dest) = queue s (MSG_INBOX dest) @ [M_LIST m] \<and>
    queue s' readyQueue = queue s readyQueue @
      (if dest = current_process s \<or> ready s dest then [] else [P_LIST dest]) \<and>
    kept {msgFree_h, MSG_INBOX dest, readyQueue} s s'"
proof -
  from ok obtain A where inv: "kernel_inv s A" and ac: "forest A" and A: "proper A" by (rule nucleus_okE)
  obtain fs where fs: "inbox A msgFree_h fs" "queue s msgFree_h = map M_LIST fs" by (rule messages_of [OF inv])
  then obtain ms' where f: "inbox A msgFree_h (m # ms')" "ms = map M_LIST ms'" using m by (cases fs) auto
  obtain inb where inb: "inbox A (MSG_INBOX dest) inb" "queue s (MSG_INBOX dest) = map M_LIST inb"
    by (rule inbox_of [OF inv al])
  from procs_of [OF inv, of readyQueue] obtain rs where
    rs: "procs A readyQueue rs" "queue s readyQueue = map P_LIST rs" by auto
  obtain x where x: "pcbs s dest = Some x" "\<not> free A dest" using al allocated_iff [OF inv] by blast
  have r: "ready s dest \<longleftrightarrow> dest \<in> set rs" using rs(2) by (auto simp: ready_def)
  have this0: "dest = current_process s \<or> dest \<in> set rs \<or> P_LIST dest \<notin> nodes A"
    using w linked_iff [OF inv A] r by blast
  let ?B = "sent_queues A ms' (woken (current_process s) rs dest) dest (inb @ [m])"
  let ?t = "\<lambda>h. s\<lparr>msgs := (msgs s)(m \<mapsto> \<lparr>m_sender = sndr, m_payload = payload\<rparr>), lh_mem := h\<rparr>"
  from send_kernel_inv [where A = A and payload = payload and sndr = sndr, OF inv f(1) rs(1) x inb(1) this0]
  obtain h where h: "send sndr dest payload s = Some (0, ?t h)" "kernel_inv (?t h) ?B" by blast
  have "forest ?B" by (rule forest_same [OF _ ac]) (auto simp: sent_queues_def)
  then have "nucleus_ok (?t h)" using h(2) by (auto simp: nucleus_ok_def)
  moreover have "queue (?t h) msgFree_h = ms" "queue (?t h) (MSG_INBOX dest) = queue s (MSG_INBOX dest) @ [M_LIST m]"
    using f(2) inb(2) by (auto intro: queue_eq [OF h(2)] simp: sent_queues_def)
  moreover have "queue (?t h) readyQueue = map P_LIST (woken (current_process s) rs dest)"
    by (rule queue_eq [OF h(2)]) (simp add: sent_queues_def)
  moreover have "kept {msgFree_h, MSG_INBOX dest, readyQueue} s (?t h)"
    by (rule keptI [OF inv h(2)]) (simp add: sent_queues_def)
  ultimately show ?thesis using h(1) rs(2) r by (simp add: woken_def)
qed

text \<open>A receiver that waits in a queue of its own: its node is linked into the ready queue without leaving the queue
  it waits in.\<close>

lemma send_blocked_corrupts_full:
  assumes ok: "nucleus_ok s" and m: "queue s msgFree_h = M_LIST m # ms" and al: "allocated s dest"
    and w: "dest \<noteq> current_process s" "\<not> ready s dest" "linked s dest"
  shows "\<exists>s'. send sndr dest payload s = Some (0, s') \<and> \<not> nucleus_ok s'"
proof -
  from ok obtain A where inv: "kernel_inv s A" and A: "proper A" by (rule nucleus_okE)
  obtain fs where fs: "inbox A msgFree_h fs" "queue s msgFree_h = map M_LIST fs" by (rule messages_of [OF inv])
  then obtain ms' where f: "inbox A msgFree_h (m # ms')" using m by (cases fs) auto
  obtain inb where inb: "inbox A (MSG_INBOX dest) inb" by (rule inbox_of [OF inv al])
  obtain x where x: "pcbs s dest = Some x" "\<not> free A dest" using al allocated_iff [OF inv] by blast
  let ?y = "\<lparr>m_sender = sndr, m_payload = payload\<rparr>" and ?A1 = "A(msgFree_h \<mapsto> map M_LIST ms')"
  from allocMsg_kernel_inv [OF inv f, of ?y] obtain h1 where
    h1: "allocMsg s = Some (m, s\<lparr>lh_mem := h1, msgs := (msgs s)(m \<mapsto> empty_msg)\<rparr>)" "m \<noteq> NULL"
    "kernel_inv (s\<lparr>lh_mem := h1, msgs := (msgs s)(m \<mapsto> ?y)\<rparr>) ?A1" by blast
  let ?s2 = "s\<lparr>lh_mem := h1, msgs := (msgs s)(m \<mapsto> ?y)\<rparr>"
  note rep = kernel_invD(1) [OF h1(3)]
  obtain c where c: "c \<in> set proc_heads" "P_LIST dest \<in> set (queue s c)" using w(3) by (auto simp: linked_def)
  have cr: "c \<noteq> readyQueue" using c(2) w(2) by (auto simp: ready_def)
  obtain rs where rs: "procs A c rs" "queue s c = map P_LIST rs" by (rule procs_of [OF inv c(1)])
  have cs: "procs ?A1 c rs" "dest \<in> set rs" using rs c by (auto simp: proc_heads_def blocked_heads_def)
  have rq: "?A1 readyQueue = Some (queue s readyQueue)" using global_queue [OF inv, of readyQueue] by simp
  obtain fs' where "procs A pcbFree_h fs'" "queue s pcbFree_h = map P_LIST fs'" by (rule procs_of [OF inv, of pcbFree_h]) simp
  then have nf: "\<not> searchProcQ dest pcbFree_h ?s2"
    using searchProcQ_represents [where A = ?A1, OF rep _ _ kernel_invD(2) [OF h1(3)], of pcbFree_h fs' dest] x(2)
    by (auto simp: free_def queue_of_def)
  obtain qs where qs: "procs A readyQueue qs" "queue s readyQueue = map P_LIST qs" by (rule procs_of [OF inv, of readyQueue]) simp
  then have nr: "\<not> searchProcQ dest readyQueue ?s2"
    using searchProcQ_represents [where A = ?A1, OF rep _ _ kernel_invD(2) [OF h1(3)], of readyQueue qs dest] w(2)
    by (auto simp: ready_def)
  let ?h2 = "list_add_tail (P_LIST dest) readyQueue h1"
  let ?h3 = "list_add_tail (M_LIST m) (MSG_INBOX dest) ?h2"
  have v: "lh_valid ?s2 (M_LIST m)" "lh_valid ?s2 (MSG_INBOX dest)" "lh_valid ?s2 (P_LIST dest)" using x(1) by simp_all
  have s: "send sndr dest payload s = Some (0, ?s2\<lparr>lh_mem := ?h3\<rparr>)"
    using h1(1,2) nf nr w(1) x(1) by (simp add: send_def upd_msg_def empty_msg_def insertProcQ_def insertMessage_def on_lists_def)
  have di: "dlist h1 (MSG_INBOX dest) (map M_LIST inb)" using represents_dlist [OF rep] inb by auto
  obtain pre post where d: "dlist h1 c (pre @ P_LIST dest # post)" "dlist h1 readyQueue (queue s readyQueue)"
    "insert c (set (pre @ P_LIST dest # post)) \<inter> insert readyQueue (set (queue s readyQueue)) = {}"
    using queue_split [where A = ?A1, OF rep cs rq] cr by auto
  have "prv ?h2 (MSG_INBOX dest) = prv h1 (MSG_INBOX dest)" by (simp add: list_add_tail_def list_add_between_def)
  then have pv: "prv ?h2 (MSG_INBOX dest) \<in> insert (MSG_INBOX dest) (M_LIST ` set inb)" using prev_in [OF di] by simp
  have pre: "set pre \<subseteq> P_LIST ` set rs"
  proof -
    have "pre @ P_LIST dest # post = map P_LIST rs"
      using dlist_unique [OF d(1)] represents_dlist [OF rep cs(1)] by simp
    then show ?thesis by (metis Un_upper1 list.set_map set_append)
  qed
  have "\<not> nucleus_ok (?s2\<lparr>lh_mem := ?h3\<rparr>)"
  proof (rule two_queues_corrupt [OF d(1) c(1), of readyQueue])
    fix z assume z: "z \<in> insert c (set pre)"
    have "z \<noteq> M_LIST m" "z \<notin> insert (MSG_INBOX dest) (M_LIST ` set inb)"
      using z pre c(1) by (auto simp: proc_heads_def blocked_heads_def)
    moreover have "z \<noteq> P_LIST dest" using z d(1) c(1) by (auto simp: dlist_def proc_heads_def blocked_heads_def)
    moreover have "z \<noteq> prv h1 readyQueue" using z d(3) prev_in [OF d(2)] by auto
    ultimately show "nxt (lh_mem (?s2\<lparr>lh_mem := ?h3\<rparr>)) z = nxt h1 z"
      using pv by (auto simp: list_add_tail_def list_add_between_def)
  qed (use cr in \<open>auto simp: list_add_tail_def list_add_between_def\<close>)
  then show ?thesis using s by blast
qed

text \<open>C13.  A message to a living process is taken from the head of the free list, filled in, and put at
  the tail of the inbox of the receiver.  A receiver that runs or is ready stays where it is; one that is in no
  queue goes to the tail of the ready queue; no other list changes, and nothing else in the state.  A receiver that
  waits for a device or for the clock is put into the ready queue as well, while its node is still linked in the
  queue it waits in: the state left satisfies the invariant under no reading of its lists.\<close>

theorem send_delivers:
  assumes "nucleus_ok s" "queue s msgFree_h = M_LIST m # ms" "allocated s dest"
  shows "if dest = current_process s \<or> ready s dest \<or> \<not> linked s dest
    then \<exists>s'. send sndr dest payload s = Some (0, s') \<and> nucleus_ok s' \<and>
      s' = s\<lparr>msgs := (msgs s)(m \<mapsto> \<lparr>m_sender = sndr, m_payload = payload\<rparr>), lh_mem := lh_mem s'\<rparr> \<and>
      queue s' msgFree_h = ms \<and> queue s' (MSG_INBOX dest) = queue s (MSG_INBOX dest) @ [M_LIST m] \<and>
      queue s' readyQueue = queue s readyQueue @
        (if dest = current_process s \<or> ready s dest then [] else [P_LIST dest]) \<and>
      kept {msgFree_h, MSG_INBOX dest, readyQueue} s s'
    else \<exists>s'. send sndr dest payload s = Some (0, s') \<and> \<not> nucleus_ok s'"
  using send_delivers_full [OF assms] send_blocked_corrupts_full [OF assms] by auto

lemma demo_msgs_free: "queue demo_start msgFree_h = M_LIST (0x20020310) # map M_LIST (tl (rev demo_msgs))"
proof -
  have "rev demo_msgs \<noteq> []" using demo_tables(6) by auto
  moreover have "hd (rev demo_msgs) = 0x20020310" by code_simp
  ultimately have "rev demo_msgs = 0x20020310 # tl (rev demo_msgs)" by (metis list.collapse)
  then show ?thesis using demo_queue by (metis demo_queues_at(3) list.simps(9))
qed

theorem send_delivers_witness:
  "\<exists>s'. send p0 p1 77 demo_start = Some (0, s') \<and> queue s' (MSG_INBOX p1) = [M_LIST 0x20020310]"
  using send_delivers [OF demo_ok demo_msgs_free demo_p1_allocated, of p0 77] demo_p1(1)
  by (auto simp: demo_queue)


text \<open>C35.  The two failures of \<^verbatim>\<open>send\<close>.  Without a free message nothing changes.  A freed
  receiver is reported too, but the message that was allocated is gone: it has left the free list and is
  in no list at all.\<close>

theorem send_fails:
  assumes ok: "nucleus_ok s"
  shows "(queue s msgFree_h = [] \<longrightarrow> send sndr dest payload s = Some (MSGNOGOOD, s)) \<and>
    (queue s msgFree_h = M_LIST m # ms \<longrightarrow> P_LIST dest \<in> set (queue s pcbFree_h) \<longrightarrow>
      (\<exists>s'. send sndr dest payload s = Some (DEST_NOT_EXIST, s') \<and> nucleus_ok s' \<and>
        queue s' msgFree_h = ms \<and> kept {msgFree_h} s s' \<and>
        (\<forall>q. live_head s q \<longrightarrow> M_LIST m \<notin> set (queue s' q))))"
proof (intro conjI impI)
  from ok obtain A where inv: "kernel_inv s A" and ac: "forest A" and A: "proper A" by (rule nucleus_okE)
  obtain fs where fs: "inbox A msgFree_h fs" "queue s msgFree_h = map M_LIST fs" by (rule messages_of [OF inv])
  show "send sndr dest payload s = Some (MSGNOGOOD, s)" if "queue s msgFree_h = []"
    by (rule send_no_message [where A = A, OF kernel_invD(1) [OF inv]]) (use fs that in simp)
  assume m: "queue s msgFree_h = M_LIST m # ms" and d: "P_LIST dest \<in> set (queue s pcbFree_h)"
  obtain ms' where f: "inbox A msgFree_h (m # ms')" "ms = map M_LIST ms'" using m fs by (cases fs) auto
  have "free A dest" using d global_queue [OF inv, of pcbFree_h] by (simp add: free_def)
  from send_dead [where A = A and sndr = sndr and payload = payload, OF inv f(1) this] obtain s' where
    s': "send sndr dest payload s = Some (DEST_NOT_EXIST, s')" "kernel_inv s' (A(msgFree_h \<mapsto> map M_LIST ms'))"
    "M_LIST m \<notin> nodes (A(msgFree_h \<mapsto> map M_LIST ms'))" by blast
  let ?B = "A(msgFree_h \<mapsto> map M_LIST ms')"
  have "forest ?B" by (rule forest_upd [OF _ ac]) simp
  then have "nucleus_ok s'" using s'(2) by (auto simp: nucleus_ok_def)
  moreover have "queue s' msgFree_h = ms" by (rule queue_eq [OF s'(2)]) (simp add: f(2))
  moreover have "kept {msgFree_h} s s'" by (rule keptI [OF inv s'(2)]) simp
  moreover have "M_LIST m \<notin> set (queue s' q)" if "live_head s q" for q
  proof -
    have "?B q \<noteq> None" using live_head_queue [OF inv that] by simp
    then obtain xs where "?B q = Some xs" by blast
    then show ?thesis using queue_eq [OF s'(2)] s'(3) by (auto intro: nodesI2)
  qed
  ultimately show "\<exists>s'. send sndr dest payload s = Some (DEST_NOT_EXIST, s') \<and> nucleus_ok s' \<and>
        queue s' msgFree_h = ms \<and> kept {msgFree_h} s s' \<and>
        (\<forall>q. live_head s q \<longrightarrow> M_LIST m \<notin> set (queue s' q))" using s'(1) by blast
qed

theorem send_fails_witness:
  "\<exists>s'. send p0 0x20010200 77 demo_start = Some (DEST_NOT_EXIST, s') \<and>
    length (queue s' msgFree_h) < length (queue demo_start msgFree_h)"
proof -
  have "P_LIST 0x20010200 \<in> set (queue demo_start pcbFree_h)"
    unfolding demo_queue [OF demo_queues_at(2)] demo_rest_def by (auto intro!: image_eqI [where x = 2])
  from send_fails [OF demo_ok, of p0 "0x20010200" 77 "0x20020310" "map M_LIST (tl (rev demo_msgs))"] demo_msgs_free this
  obtain s' where
    "send p0 0x20010200 77 demo_start = Some (DEST_NOT_EXIST, s')"
    "queue s' msgFree_h = map M_LIST (tl (rev demo_msgs))" by blast
  then show ?thesis using demo_msgs_free by auto
qed

section \<open>recv\<close>

text \<open>The messages a receiver accepts: all of them, or those whose sender has the pid of the process it
  names.\<close>

definition accepts :: "sys \<Rightarrow> ptr \<Rightarrow> lh \<Rightarrow> bool" where
  "accepts s sender x \<longleftrightarrow> (\<exists>m y. x = M_LIST m \<and> msgs s m = Some y \<and>
     (sender = ANYMESSAGE \<or> map_option p_pid (pcbs s (m_sender y)) = map_option p_pid (pcbs s sender)))"

abbreviation caller_inbox :: "sys \<Rightarrow> lh list" where
  "caller_inbox s \<equiv> queue s (MSG_INBOX (current_process s))"

lemma find_Some_first: "find P (x # xs) = (if P x then Some x else find P xs)"
  by simp

lemma selects_accepts:
  assumes inv: "kernel_inv s A" and q: "inbox A q inb" and rc: "receivable s sender inb"
  shows "find (accepts s sender) (map M_LIST inb) = map_option M_LIST (selects s sender inb)"
proof -
  have v: "\<exists>y. msgs s m = Some y" if "m \<in> set inb" for m
    using represents_node [OF kernel_invD(1) [OF inv] q, of "M_LIST m"] that by auto
  show ?thesis
  proof (cases "sender = ANYMESSAGE")
    case True
    then show ?thesis using v by (cases inb) (auto simp: selects_def accepts_def)
  next
    case False
    then obtain x where x: "pcbs s sender = Some x" and so: "senders_ok s inb"
      using rc by (auto simp: receivable_def)
    have "accepts s sender (M_LIST m) = from_pid s (p_pid x) m" if "m \<in> set inb" for m
      using v [OF that] so that x False by (fastforce simp: accepts_def from_pid_def senders_ok_def)
    then have "find (accepts s sender \<circ> M_LIST) inb = find (from_pid s (p_pid x)) inb"
      by (intro find_cong_set) simp
    then show ?thesis using False x by (simp add: find_map selects_def)
  qed
qed

text \<open>What the two branches of \<^verbatim>\<open>recv\<close> need about the state.\<close>

lemma recv_setting:
  assumes ok: "nucleus_ok s" and g: "recv_guard sender s"
  obtains A x inb fs rs where "kernel_inv s A" "forest A" "proper A" "pcbs s (current_process s) = Some x"
    "inbox A (MSG_INBOX (current_process s)) inb" "caller_inbox s = map M_LIST inb"
    "receivable s sender inb" "find (accepts s sender) (caller_inbox s) = map_option M_LIST (selects s sender inb)"
    "inbox A msgFree_h fs" "queue s msgFree_h = map M_LIST fs"
    "procs A readyQueue rs" "queue s readyQueue = map P_LIST rs"
proof -
  from ok obtain A where inv: "kernel_inv s A" and ac: "forest A" and A: "proper A" by (rule nucleus_okE)
  have cur: "current_process s \<noteq> NULL" using g by (simp add: recv_guard_def)
  from current_facts [OF inv cur] obtain x where
    al: "allocated s (current_process s)" and x: "pcbs s (current_process s) = Some x" by blast
  obtain inb where inb: "inbox A (MSG_INBOX (current_process s)) inb" "caller_inbox s = map M_LIST inb"
    by (rule inbox_of [OF inv al])
  have rc: "receivable s sender inb"
    using g inb(2) by (auto simp: recv_guard_def receivable_def senders_ok_def)
  obtain fs where fs: "inbox A msgFree_h fs" "queue s msgFree_h = map M_LIST fs" by (rule messages_of [OF inv])
  from procs_of [OF inv, of readyQueue] obtain rs where
    rs: "procs A readyQueue rs" "queue s readyQueue = map P_LIST rs" by auto
  show ?thesis
    by (rule that [OF inv ac A x inb rc _ fs rs]) (use selects_accepts [OF inv inb(1) rc] inb(2) in simp)
qed

lemma recv_takes_first_full:
  assumes ok: "nucleus_ok s" and g: "recv_guard sender s"
    and m: "find (accepts s sender) (caller_inbox s) = Some (M_LIST m)" "msgs s m = Some y"
  shows "\<exists>s'. recv sender a s = Some (RETURN, s') \<and> nucleus_ok s' \<and> reg reg_v0 s' = m_sender y \<and>
    mem s' = (if a \<noteq> 0 then (mem s)(a := m_payload y) else mem s) \<and>
    caller_inbox s' = remove1 (M_LIST m) (caller_inbox s) \<and>
    queue s' msgFree_h = queue s msgFree_h @ [M_LIST m] \<and> current_process s' = current_process s \<and>
    pcbs s' = pcbs s \<and> kept {MSG_INBOX (current_process s), msgFree_h} s s' \<and> s' = received a y (lh_mem s') s"
proof -
  obtain A x inb fs rs where r: "kernel_inv s A" "forest A" "proper A" "pcbs s (current_process s) = Some x"
    "inbox A (MSG_INBOX (current_process s)) inb" "caller_inbox s = map M_LIST inb" "receivable s sender inb"
    "find (accepts s sender) (caller_inbox s) = map_option M_LIST (selects s sender inb)"
    "inbox A msgFree_h fs" "queue s msgFree_h = map M_LIST fs" by (rule recv_setting [OF ok g])
  have sel: "selects s sender inb = Some m" using m(1) r(8) by auto
  let ?B = "A(MSG_INBOX (current_process s) \<mapsto> map M_LIST (remove1 m inb), msgFree_h \<mapsto> map M_LIST (fs @ [m]))"
  from recv_takes [where A = A and payload = a, OF r(1,4,5,7) sel r(9) m(2)] obtain h where
    h: "recv sender a s = Some (RETURN, received a y h s)" "kernel_inv (received a y h s) ?B" by blast
  let ?s = "received a y h s"
  have d: "current_process ?s = current_process s" "pcbs ?s = pcbs s" "reg reg_v0 ?s = m_sender y"
    "mem ?s = (if a \<noteq> 0 then (mem s)(a := m_payload y) else mem s)"
    by (simp_all add: received_def Let_def set_exc_reg_def store_def)
  have "forest ?B" by (rule forest_same [OF _ r(2)]) auto
  then have "nucleus_ok ?s" using h(2) by (auto simp: nucleus_ok_def)
  moreover have "queue ?s (MSG_INBOX (current_process s)) = map M_LIST (remove1 m inb)"
    "queue ?s msgFree_h = map M_LIST (fs @ [m])" by (rule queue_eq [OF h(2)], simp)+
  moreover have "kept {MSG_INBOX (current_process s), msgFree_h} s ?s" by (rule keptI [OF r(1) h(2)]) simp
  moreover have "?s = received a y (lh_mem ?s) s" by (simp add: received_def Let_def)
  ultimately show ?thesis using h(1) r(6,10) d inj_M_LIST by (auto simp: map_injection_remove1)
qed

text \<open>C16.  A receiver whose inbox holds a message it accepts gets the first such message: its payload at
  the address it named, unless that is null, and the sender in register v0.  The message goes from its
  inbox to the tail of the free list, and the receiver keeps the processor.\<close>

theorem recv_takes_first:
  assumes "nucleus_ok s" and "recv_guard sender s"
    and "find (accepts s sender) (caller_inbox s) = Some (M_LIST m)" "msgs s m = Some y"
  shows "\<exists>s'. recv sender a s = Some (RETURN, s') \<and> nucleus_ok s' \<and> reg reg_v0 s' = m_sender y \<and>
    mem s' = (if a \<noteq> 0 then (mem s)(a := m_payload y) else mem s) \<and>
    caller_inbox s' = remove1 (M_LIST m) (caller_inbox s) \<and>
    queue s' msgFree_h = queue s msgFree_h @ [M_LIST m] \<and> current_process s' = current_process s \<and>
    pcbs s' = pcbs s \<and> kept {MSG_INBOX (current_process s), msgFree_h} s s'"
  using recv_takes_first_full [OF assms] by blast

text \<open>A message of the SSI to itself.\<close>

lemma demo_mail:
  obtains s where "send p0 p0 77 demo_start = Some (0, s)" "nucleus_ok s" "current_process s = p0"
    "queue s (MSG_INBOX p0) = [M_LIST 0x20020310]" "recv_guard ANYMESSAGE s"
    "msgs s 0x20020310 = Some \<lparr>m_sender = p0, m_payload = 77\<rparr>" "pcbs s = pcbs demo_start" "allocated s p0"
proof -
  have al: "allocated demo_start p0"
    using current_facts(1) [OF demo_start_main(2)] by (simp add: demo_start_main(3))
  from send_delivers_full [where sndr = p0 and payload = 77, OF demo_ok demo_msgs_free al] obtain s where
    s: "send p0 p0 77 demo_start = Some (0, s)" "nucleus_ok s"
    "s = demo_start\<lparr>msgs := (msgs demo_start)(0x20020310 \<mapsto> \<lparr>m_sender = p0, m_payload = 77\<rparr>), lh_mem := lh_mem s\<rparr>"
    "queue s (MSG_INBOX p0) = [M_LIST 0x20020310]" "kept {msgFree_h, MSG_INBOX p0, readyQueue} demo_start s"
    using demo_start_main(3) by (auto simp: demo_queue)
  have "current_process s = p0" "msgs s 0x20020310 = Some \<lparr>m_sender = p0, m_payload = 77\<rparr>" "pcbs s = pcbs demo_start"
    using arg_cong [OF s(3), of current_process] arg_cong [OF s(3), of "\<lambda>s. msgs s 0x20020310"] demo_start_main(3)
      arg_cong [OF s(3), of pcbs] by simp_all
  moreover have "queue s pcbFree_h = queue demo_start pcbFree_h" using s(5) by (simp add: kept_def live_head_def)
  ultimately show ?thesis using that s al by (simp add: recv_guard_def allocated_def)
qed

theorem recv_takes_first_witness:
  "\<exists>s s'. send p0 p0 77 demo_start = Some (0, s) \<and> recv ANYMESSAGE 0x20030000 s = Some (RETURN, s') \<and>
     mem s' 0x20030000 = 77 \<and> reg reg_v0 s' = p0 \<and> queue s' (MSG_INBOX p0) = []"
proof -
  obtain s where s: "send p0 p0 77 demo_start = Some (0, s)" "nucleus_ok s" "current_process s = p0"
    "queue s (MSG_INBOX p0) = [M_LIST 0x20020310]" "recv_guard ANYMESSAGE s"
    "msgs s 0x20020310 = Some \<lparr>m_sender = p0, m_payload = 77\<rparr>" by (rule demo_mail)
  have "find (accepts s ANYMESSAGE) (caller_inbox s) = Some (M_LIST 0x20020310)"
    using s(3,4,6) by (simp add: accepts_def)
  from recv_takes_first [where a = "0x20030000", OF s(2,5) this s(6)] show ?thesis using s(1,3,4) by auto
qed

lemma recv_suspends_full:
  assumes ok: "nucleus_ok s" and g: "recv_guard sender s"
    and m: "find (accepts s sender) (caller_inbox s) = None" and x: "pcbs s (current_process s) = Some x"
  shows "\<exists>c s'. recv sender a s = Some (c, s') \<and> nucleus_ok s' \<and> runs_next (suspended x s) c s' \<and>
    \<not> linked s' (current_process s) \<and> caller_inbox s = queue s' (MSG_INBOX (current_process s))"
proof -
  obtain A x' inb fs rs where r: "kernel_inv s A" "forest A" "proper A" "pcbs s (current_process s) = Some x'"
    "inbox A (MSG_INBOX (current_process s)) inb" "caller_inbox s = map M_LIST inb" "receivable s sender inb"
    "find (accepts s sender) (caller_inbox s) = map_option M_LIST (selects s sender inb)"
    "inbox A msgFree_h fs" "queue s msgFree_h = map M_LIST fs" by (rule recv_setting [OF ok g])
  have cur: "current_process s \<noteq> NULL" using g by (simp add: recv_guard_def)
  have none: "selects s sender inb = None" using m r(8) by auto
  let ?t = "suspended x s"
  have t: "queue ?t = queue s" "dom (pcbs ?t) = dom (pcbs s)" "dom (pcbs (?t\<lparr>current_process := NULL\<rparr>)) = dom (pcbs s)"
    using x by (auto simp: suspended_def intro: queue_cong split: if_splits)
  have inv: "kernel_inv ?t A" by (rule suspended_kernel_inv [OF r(1) x])
  then have "nucleus_ok ?t" using r(2) by (auto simp: nucleus_ok_def)
  from scheduler_next [OF nucleus_ok_idle [OF this]] obtain c s' where
    s': "scheduler ?t = Some (c, s')" "runs_next ?t c s'" "nucleus_ok s'" by blast
  have rv: "recv sender a s = Some (c, s')"
    using recv_blocks [where A = A and payload = a, OF r(1) x r(5,7) none] s'(1) by simp
  have same: "queue s' q = queue s q \<or> q = readyQueue \<and> set (queue s' q) \<subseteq> set (queue s q)" if "live_head s q" for q
  proof (cases "queue ?t readyQueue")
    case Nil
    then have "s' = idled c ?t" using s'(2) by (simp add: runs_next_def)
    then show ?thesis using t(1) queue_cong [of s' ?t] by (simp add: idled_def)
  next
    case (Cons z zs)
    have "kept {readyQueue} s s'" using s'(2) Cons kept_cong [of ?t s] t(2) by (auto simp: runs_next_def suspended_def)
    then show ?thesis using that s'(2) Cons t(1) by (auto simp: runs_next_def kept_def)
  qed
  have "\<not> linked s (current_process s)" using kernel_inv_current(2) [OF r(1) cur] linked_iff [OF r(1,3)] by blast
  then have "\<not> linked s' (current_process s)" using same unfolding linked_def live_head_def by fastforce
  moreover have "live_head s (MSG_INBOX (current_process s))"
    using current_facts(1) [OF r(1) cur] by (auto simp: live_head_def)
  then have "caller_inbox s = queue s' (MSG_INBOX (current_process s))" using same by fastforce
  ultimately show ?thesis using rv s'(2,3) by blast
qed

text \<open>C17.  A receiver that accepts none of the messages in its inbox is suspended: its PCB gets the
  processor state saved at the system call and the time it ran, it leaves the processor without entering any
  queue, its inbox is as it was, and the scheduler runs.\<close>

theorem recv_suspends:
  assumes "nucleus_ok s" and "recv_guard sender s"
    and "find (accepts s sender) (caller_inbox s) = None" and "pcbs s (current_process s) = Some x"
  shows "\<exists>c s'. recv sender a s = Some (c, s') \<and> nucleus_ok s' \<and> runs_next (suspended x s) c s' \<and>
    \<not> linked s' (current_process s) \<and> caller_inbox s = queue s' (MSG_INBOX (current_process s))"
  by (rule recv_suspends_full [OF assms])

theorem recv_suspends_witness:
  "\<exists>c s'. recv ANYMESSAGE 0 demo_start = Some (c, s') \<and> current_process s' = p1 \<and> \<not> linked s' p0"
proof -
  obtain x where x: "pcbs demo_start p0 = Some x" using demo_p1(3) by blast
  have "recv_guard ANYMESSAGE demo_start" by (simp add: recv_guard_def demo_start_main(3))
  moreover have "find (accepts demo_start ANYMESSAGE) (caller_inbox demo_start) = None"
    by (simp add: demo_start_main(3) demo_queue)
  ultimately obtain c s' where s': "recv ANYMESSAGE 0 demo_start = Some (c, s')"
    "runs_next (suspended x demo_start) c s'" "\<not> linked s' p0"
    using recv_suspends [OF demo_ok, of ANYMESSAGE x 0] x by (auto simp: demo_start_main(3))
  moreover have "queue (suspended x demo_start) readyQueue = [P_LIST p1]"
    using queue_cong [of "suspended x demo_start" demo_start] by (simp add: suspended_def demo_queue)
  ultimately show ?thesis using runs_next_current by blast
qed

section \<open>Round trip\<close>

text \<open>The test process runs after the SSI has waited for a message.\<close>

lemma demo_listening:
  obtains c s where "recv ANYMESSAGE 0 demo_start = Some (c, s)" "nucleus_ok s" "current_process s = p1"
    "queue s readyQueue = []" "\<not> linked s p0" "allocated s p0" "queue s (MSG_INBOX p0) = []"
    "queue s msgFree_h = queue demo_start msgFree_h" "allocated s p1"
    "queue s pseudoClockQueue = []" "dom (pcbs s) = dom (pcbs demo_start)" "ssi_pcb s = p0"
    "queue s (P_CHILD p0) = []" "queue s (P_CHILD p1) = []"
proof -
  obtain x where x: "pcbs demo_start p0 = Some x" using demo_p1(3) by blast
  have g: "recv_guard ANYMESSAGE demo_start" by (simp add: recv_guard_def demo_start_main(3))
  have "find (accepts demo_start ANYMESSAGE) (caller_inbox demo_start) = None"
    by (simp add: demo_start_main(3) demo_queue)
  from recv_suspends_full [OF demo_ok g this, of x 0] x obtain c s where
    s: "recv ANYMESSAGE 0 demo_start = Some (c, s)" "nucleus_ok s" "runs_next (suspended x demo_start) c s"
    "\<not> linked s p0" by (auto simp: demo_start_main(3))
  let ?t = "suspended x demo_start"
  have q: "queue ?t = queue demo_start" and dt: "dom (pcbs ?t) = dom (pcbs demo_start)"
    using queue_cong [of ?t demo_start] x by (auto simp: suspended_def demo_start_main(3))
  have rq: "queue ?t readyQueue = [P_LIST p1]" by (simp add: q demo_queue)
  then obtain y where y: "s = dispatched p1 (lh_mem s) ?t" "queue s readyQueue = []" "kept {readyQueue} ?t s"
    using s(3) by (auto simp: runs_next_def)
  have k: "kept {readyQueue} demo_start s" using kept_cong [of ?t demo_start] y(3) dt by (simp add: suspended_def)
  have d: "dom (pcbs s) = dom (pcbs demo_start)" "ssi_pcb s = p0"
    using arg_cong [OF y(1), of pcbs] arg_cong [OF y(1), of ssi_pcb] dt demo_start_main(4)
    by (simp_all add: dispatched_def suspended_def)
  have al: "allocated demo_start p0"
    using current_facts(1) [OF demo_start_main(2)] by (simp add: demo_start_main(3))
  have e: "queue s q = queue demo_start q" if "live_head demo_start q" "q \<noteq> readyQueue" for q
    using k that by (simp add: kept_def)
  have fr: "queue s pcbFree_h = queue demo_start pcbFree_h" "queue s msgFree_h = queue demo_start msgFree_h"
    "queue s pseudoClockQueue = queue demo_start pseudoClockQueue"
    by (rule e, simp_all add: live_head_def)+
  have "allocated s p = allocated demo_start p" for p
    using d(1) unfolding allocated_def fr by (metis domIff)
  moreover have "queue s (P_CHILD p0) = []" "queue s (P_CHILD p1) = []"
    using e [of "P_CHILD p0"] e [of "P_CHILD p1"] al demo_p1_allocated by (simp_all add: live_head_def demo_queue)
  moreover have "queue s (MSG_INBOX p0) = []" using e [of "MSG_INBOX p0"] al by (simp add: live_head_def demo_queue)
  moreover have "queue demo_start pseudoClockQueue = []"
    by (rule demo_queue) (simp add: blocked_heads_def)
  ultimately show ?thesis
    using that [OF s(1,2) _ y(2) s(4)] al demo_p1_allocated fr d runs_next_current [OF s(3) rq]
    by (simp add: demo_queue)
qed

text \<open>A message sent to a process that waits for one, once the processor is free for it, arrives: the
  receiver is scheduled, its \<^verbatim>\<open>recv\<close> returns the sender and the payload, and the message
  is back in the free list.\<close>

theorem sent_is_received:
  assumes ok: "nucleus_ok s" and m: "queue s msgFree_h = M_LIST m # ms"
    and d: "allocated s dest" "\<not> linked s dest" "dest \<noteq> current_process s" "dest \<noteq> NULL"
    and e: "queue s (MSG_INBOX dest) = []" "queue s readyQueue = []" and a: "a \<noteq> 0"
  shows "\<exists>s1 c s2 s3. send sndr dest v s = Some (0, s1) \<and> scheduler s1 = Some (c, s2) \<and>
    current_process s2 = dest \<and> recv ANYMESSAGE a s2 = Some (RETURN, s3) \<and> nucleus_ok s3 \<and>
    reg reg_v0 s3 = sndr \<and> mem s3 a = v \<and> queue s3 (MSG_INBOX dest) = [] \<and> queue s3 msgFree_h = ms @ [M_LIST m]"
proof -
  have nr: "\<not> ready s dest" using e(2) by (simp add: ready_def)
  from send_delivers_full [where sndr = sndr and payload = v, OF ok m d(1)] d(2) obtain s1 where
    s1: "send sndr dest v s = Some (0, s1)" "nucleus_ok s1"
    "s1 = s\<lparr>msgs := (msgs s)(m \<mapsto> \<lparr>m_sender = sndr, m_payload = v\<rparr>), lh_mem := lh_mem s1\<rparr>"
    "queue s1 msgFree_h = ms" "queue s1 (MSG_INBOX dest) = [M_LIST m]" "queue s1 readyQueue = [P_LIST dest]"
    "kept {msgFree_h, MSG_INBOX dest, readyQueue} s s1" using e d(3) nr by auto
  have f1: "msgs s1 m = Some \<lparr>m_sender = sndr, m_payload = v\<rparr>" "pcbs s1 = pcbs s"
    using arg_cong [OF s1(3), of "\<lambda>s. msgs s m"] arg_cong [OF s1(3), of pcbs] by simp_all
  from scheduler_next [OF nucleus_ok_idle [OF s1(2)]] obtain c s2 where
    s2: "scheduler s1 = Some (c, s2)" "runs_next s1 c s2" "nucleus_ok s2" by blast
  have c2: "current_process s2 = dest" by (rule runs_next_current [OF s2(2) s1(6)])
  have s2e: "s2 = dispatched dest (lh_mem s2) s1" "kept {readyQueue} s1 s2"
    using s2(2) s1(6) by (auto simp: runs_next_def)
  have f2: "msgs s2 m = Some \<lparr>m_sender = sndr, m_payload = v\<rparr>"
    using arg_cong [OF s2e(1), of "\<lambda>s. msgs s m"] f1 by (simp add: dispatched_def)
  have "queue s1 pcbFree_h = queue s pcbFree_h" using s1(7) by (simp add: kept_def live_head_def)
  then have "allocated s1 dest" using d(1) f1(2) by (simp add: allocated_def)
  then have q2: "queue s2 msgFree_h = ms" "caller_inbox s2 = [M_LIST m]"
    using s2e(2) s1(4,5) c2 by (simp_all add: kept_def live_head_def)
  have fnd: "find (accepts s2 ANYMESSAGE) (caller_inbox s2) = Some (M_LIST m)" using q2 f2 by (simp add: accepts_def)
  have g: "recv_guard ANYMESSAGE s2" using c2 d(4) by (simp add: recv_guard_def)
  obtain s3 where
    "recv ANYMESSAGE a s2 = Some (RETURN, s3)" "nucleus_ok s3" "reg reg_v0 s3 = sndr" "mem s3 = (mem s2)(a := v)"
    "caller_inbox s3 = []" "queue s3 msgFree_h = ms @ [M_LIST m]" "current_process s3 = dest"
    using recv_takes_first_full [where a = a, OF s2(3) g fnd f2] a q2 c2 by auto
  then show ?thesis using s1(1) s2(1) c2 by auto
qed

theorem sent_is_received_witness:
  "\<exists>c0 s s1 c s2 s3. recv ANYMESSAGE 0 demo_start = Some (c0, s) \<and> send p1 p0 77 s = Some (0, s1) \<and>
     scheduler s1 = Some (c, s2) \<and> recv ANYMESSAGE 0x20030000 s2 = Some (RETURN, s3) \<and>
     reg reg_v0 s3 = p1 \<and> mem s3 0x20030000 = 77"
proof -
  obtain c0 s where s: "recv ANYMESSAGE 0 demo_start = Some (c0, s)" "nucleus_ok s" "current_process s = p1"
    "queue s readyQueue = []" "\<not> linked s p0" "allocated s p0" "queue s (MSG_INBOX p0) = []"
    "queue s msgFree_h = queue demo_start msgFree_h" by (rule demo_listening)
  have m: "queue s msgFree_h = M_LIST 0x20020310 # map M_LIST (tl (rev demo_msgs))"
    using s(8) demo_msgs_free by simp
  show ?thesis
    using sent_is_received [where a = "0x20030000" and sndr = p1 and v = 77, OF s(2) m s(6,5) _ _ s(7,4)] s(1,3) by auto
qed

end
