(* ===== verification/Ssi_Props.thy ===== *)
theory Ssi_Props
  imports Ipc_Props
begin

text \<open>
  The services of the SSI over the state of the nucleus, service by service, and the answer the SSI
  sends; what pass up or die does to a process and its progeny.
\<close>

section \<open>Terminating a process\<close>

text \<open>All processes of the tree under \<open>p\<close> are gone: their PCBs are at the end of the free list, they
  are in no blocked queue, \<open>p\<close> is no child any more, and nothing else has moved.\<close>

definition killed :: "ptr \<Rightarrow> ptr list \<Rightarrow> sys \<Rightarrow> sys \<Rightarrow> bool" where
  "killed p ds s s' \<longleftrightarrow> distinct ds \<and> set ds = {q. descendant s p q} \<and>
     queue s' pcbFree_h = queue s pcbFree_h @ map P_LIST ds \<and>
     (\<forall>q \<in> set blocked_heads. queue s' q = filter (\<lambda>x. x \<notin> P_LIST ` set ds) (queue s q)) \<and>
     queue s' readyQueue = queue s readyQueue \<and> queue s' msgFree_h = queue s msgFree_h \<and>
     (\<forall>q. allocated s q \<longrightarrow> queue s' (MSG_INBOX q) = queue s (MSG_INBOX q)) \<and>
     (\<forall>q. allocated s q \<longrightarrow> q \<notin> set ds \<longrightarrow> set (queue s' (P_CHILD q)) = set (queue s (P_CHILD q)) - {P_SIB p}) \<and>
     (\<forall>q. pcbs s' q = (if q \<in> set ds then map_option (\<lambda>x. x\<lparr>p_parent := NULL\<rparr>) (pcbs s q) else pcbs s q)) \<and>
     unat (processCount s') + length ds = unat (processCount s) \<and> current_process s' = current_process s"

lemma count_free:
  assumes "nucleus_ok s"
  shows "unat (processCount s) + length (queue s pcbFree_h) = MAXPROC"
proof -
  from assms obtain A where inv: "kernel_inv s A" by (auto simp: nucleus_ok_def)
  have "queue_of A pcbFree_h = queue s pcbFree_h" using global_queue [OF inv, of pcbFree_h] by simp
  moreover have "length (queue s pcbFree_h) \<le> 50"
    using kernel_inv_length [OF inv global_queue [OF inv]] by simp
  ultimately show ?thesis using counters(2) [OF inv] by (simp add: live_total_def)
qed

lemma terminate_full:
  assumes ok: "nucleus_ok s" and al: "allocated s p" and st: "stoppable s p"
    and c: "c = NULL \<or> c = current_process s \<and> \<not> descendant s p c"
  shows "\<exists>ds s'. terminateProcess p s = Some s' \<and> nucleus_ok (s'\<lparr>current_process := c\<rparr>) \<and> killed p ds s s'"
proof -
  from ok obtain A where inv: "kernel_inv s A" and ac: "forest A" and A: "proper A" by (rule nucleus_okE)
  obtain t where t: "root t = p" "terminable s A t" "set (members t) = {q. descendant s p q}"
    by (rule stoppable_terminable [OF inv A ac al st])
  let ?M = "members t"
  have c': "c = NULL \<or> c = current_process s \<and> c \<notin> set ?M" using c t(3) by auto
  from terminateProcess_kernel_inv [where A = A, OF inv t(2) c'] obtain s' B where
    s': "terminateProcess p s = Some s'" "kernel_inv (s'\<lparr>current_process := c\<rparr>) B"
    "queue_of B pcbFree_h = queue_of A pcbFree_h @ map P_LIST ?M"
    "\<And>p. set (queue_of B (P_CHILD p)) \<subseteq> set (queue_of A (P_CHILD p))"
    "pcbs s' = orphan ?M (pcbs s)" "current_process s' = current_process s"
    "\<And>q. \<not> is_child_head q \<Longrightarrow> B q = kill ?M A q"
    "\<And>p. p \<notin> set ?M \<Longrightarrow> set (queue_of B (P_CHILD p)) = set (queue_of A (P_CHILD p)) - {P_SIB (root t)}"
    unfolding t(1) by blast
  let ?s = "s'\<lparr>current_process := c\<rparr>"
  have "forest B" by (rule forest_subset [OF _ ac]) (use s'(4) in blast)
  then have ok': "nucleus_ok ?s" using s'(2) by (auto simp: nucleus_ok_def)
  have q: "queue s' = queue ?s" by (rule queue_cong) simp
  have Q: "queue s' z = xs" if "B z = Some xs" for z xs using queue_eq [OF s'(2) that] q by simp
  have gl: "B z = kill ?M A z" "A z = Some (queue s z)" if "z \<in> set proc_heads" for z
    using s'(7) global_queue [OF inv] that by auto
  have dis: "distinct ?M" using t(2) by (simp add: terminable_def)
  have fr: "queue s' pcbFree_h = queue s pcbFree_h @ map P_LIST ?M"
    by (rule Q) (use gl [of pcbFree_h] in \<open>simp add: kill_def\<close>)
  have bl: "queue s' z = filter (\<lambda>x. x \<notin> P_LIST ` set ?M) (queue s z)" if "z \<in> set blocked_heads" for z
    by (rule Q) (use gl [of z] that blocked_heads_sub in \<open>auto simp: kill_def blocked_heads_def\<close>)
  have rq: "queue s' readyQueue = queue s readyQueue"
    by (rule Q) (use gl [of readyQueue] in \<open>auto simp: kill_def blocked_heads_def\<close>)
  have mf: "queue s' msgFree_h = queue s msgFree_h"
    by (rule Q) (use s'(7) [of msgFree_h] msgFree_queue [OF inv] in \<open>auto simp: kill_def blocked_heads_def\<close>)
  have ib: "queue s' (MSG_INBOX z) = queue s (MSG_INBOX z)" if "allocated s z" for z
  proof (rule Q)
    have "A (MSG_INBOX z) = Some (queue s (MSG_INBOX z))"
      by (rule live_head_queue [OF inv]) (use that in \<open>auto simp: live_head_def\<close>)
    moreover have "kill ?M A (MSG_INBOX z) = A (MSG_INBOX z)" by (simp add: kill_def blocked_heads_def image_iff)
    ultimately show "B (MSG_INBOX z) = Some (queue s (MSG_INBOX z))" using s'(7) [of "MSG_INBOX z"] by simp
  qed
  have ch: "set (queue s' (P_CHILD z)) = set (queue s (P_CHILD z)) - {P_SIB p}" if "allocated s z" "z \<notin> set ?M" for z
  proof -
    have "A (P_CHILD z) = Some (queue s (P_CHILD z))"
      by (rule live_head_queue [OF inv]) (use that(1) in \<open>auto simp: live_head_def\<close>)
    moreover have "z \<in> dom (pcbs ?s)" "\<not> free B z"
      using that allocated_iff [OF inv] s'(3,5) by (auto simp: free_def orphan_def dom_def split: if_splits)
    then have "B (P_CHILD z) = Some (queue ?s (P_CHILD z))"
      using live_head_queue [OF s'(2), of "P_CHILD z"] allocated_iff [OF s'(2)] by (auto simp: live_head_def)
    ultimately show ?thesis using s'(8) [OF that(2)] t(1) q by simp
  qed
  have "unat (processCount s') + length (queue s' pcbFree_h) = MAXPROC"
    using count_free [OF ok'] q by simp
  then have "unat (processCount s') + length ?M = unat (processCount s)"
    using count_free [OF ok] fr by simp
  then have "killed p ?M s s'"
    using dis t(3) fr bl rq mf ib ch s'(5,6) unfolding killed_def orphan_def by simp
  then show ?thesis using s'(1) ok' by blast
qed

text \<open>C7.  TERMPROCESS of a process whose tree can be taken out of the queues: neither it nor a descendant is
  running or ready, and each of those that wait is in a queue that \<^verbatim>\<open>isPcbBlockedOnDevice\<close>
  searches for the value of its device field.  Exactly the process and its descendants are freed, whatever the
  shape and depth of the tree, and the recursion returns.  (For a ready process the code destroys the queues,
  which \<open>terminate_ready_corrupts\<close> shows.)\<close>

theorem terminate_kills:
  assumes "nucleus_ok s" "stop_guard p s"
  shows "\<exists>ds s'. terminateProcess p s = Some s' \<and> nucleus_ok s' \<and> killed p ds s s'"
proof -
  have g: "allocated s p" "stoppable s p" "current_process s = NULL \<or> current_process s = current_process s \<and>
      \<not> descendant s p (current_process s)"
    using assms(2) by (auto simp: stop_guard_def)
  from terminate_full [OF assms(1) g] obtain ds s' where
    s': "terminateProcess p s = Some s'" "nucleus_ok (s'\<lparr>current_process := current_process s\<rparr>)" "killed p ds s s'"
    by blast
  have "s'\<lparr>current_process := current_process s\<rparr> = s'" using s'(3) by (simp add: killed_def)
  then show ?thesis using s' by auto
qed

lemma distinct_singleton: "distinct xs \<Longrightarrow> set xs = {x} \<Longrightarrow> xs = [x]"
proof (cases xs)
  case (Cons y ys)
  assume "distinct xs" "set xs = {x}"
  then show ?thesis using Cons by (cases ys) auto
qed simp

lemma descendant_childless: "queue s (P_CHILD p) = [] \<Longrightarrow> descendant s p q \<longleftrightarrow> q = p"
proof
  show "queue s (P_CHILD p) = [] \<Longrightarrow> descendant s p q \<Longrightarrow> q = p"
    by (rotate_tac 1, induction rule: descendant.induct) auto
qed (auto intro: descendant.self)

section \<open>Pass up or die\<close>

text \<open>C32.  An exception of a process without a support structure, none of whose descendants is ready or in a queue
  that is not searched, ends it and its progeny, and the scheduler runs.\<close>

theorem exception_kills:
  assumes ok: "nucleus_ok s" and cur: "current_process s \<noteq> NULL" and x: "pcbs s (current_process s) = Some x"
    and d: "p_supportStruct x = NULL" "stoppable s (current_process s)"
  shows "\<exists>ds s1 c s'. passUpOrDie k s = Some (c, s') \<and> nucleus_ok s' \<and> killed (current_process s) ds s s1 \<and>
    runs_next s1 c s'"
proof -
  from ok obtain A where inv: "kernel_inv s A" by (auto simp: nucleus_ok_def)
  note al = current_facts(1) [OF inv cur]
  from terminate_full [OF ok al d(2), of NULL] obtain ds s1 where
    s1: "terminateProcess (current_process s) s = Some s1" "nucleus_ok (s1\<lparr>current_process := NULL\<rparr>)"
    "killed (current_process s) ds s s1" by blast
  from scheduler_next [OF s1(2)] show ?thesis using s1(1,3) x d(1) by (auto simp: passUpOrDie_def)
qed

text \<open>The two processes of the boot have no support structure.\<close>

lemma demo_ssi_pcb: "\<exists>x. pcbs demo_start p0 = Some x \<and> p_supportStruct x = NULL \<and> p_parent x = NULL \<and> p_pid x = 1"
  "\<exists>x. pcbs demo_start p1 = Some x \<and> p_supportStruct x = NULL \<and> p_parent x = NULL \<and> p_pid x = 2"
proof -
  have im: "pcbs demo_image p0 = Some blank_pcb" "pcbs demo_image p1 = Some blank_pcb"
  proof -
    have "demo_pcbs = p0 # p1 # demo_rest" using demo_pcbs_cons by (simp add: demo_image_def)
    then have "p0 \<in> set demo_pcbs" "p1 \<in> set demo_pcbs" by (metis list.set_intros)+
    then show "pcbs demo_image p0 = Some blank_pcb" "pcbs demo_image p1 = Some blank_pcb"
      by (simp_all add: demo_image_def)
  qed
  from main_runs [OF demo_image_static demo_pcbs_cons, of demo_code]
  show "\<exists>x. pcbs demo_start p0 = Some x \<and> p_supportStruct x = NULL \<and> p_parent x = NULL \<and> p_pid x = 1"
    "\<exists>x. pcbs demo_start p1 = Some x \<and> p_supportStruct x = NULL \<and> p_parent x = NULL \<and> p_pid x = 2"
    using im by (auto simp: demo_start_def booted_def dispatched_def boot_pcb_def fresh_pcb_def)
qed

section \<open>Creating a process\<close>

lemma create_process_makes_full:
  assumes ok: "nucleus_ok s" and f: "queue s pcbFree_h = P_LIST p # fs" and al: "allocated s sender"
    and c: "ssi_create_processes s a = Some c" "states s (scp_state c) = Some st"
  shows "\<exists>s' x. createProcess sender a s = Some (p, s') \<and> nucleus_ok s' \<and> pcbs s' p = Some x \<and>
    p_s x = st \<and> p_supportStruct x = scp_support c \<and> p_parent x = sender \<and> p_time x = 0 \<and>
    p_pid x = next_pid s \<and> next_pid s' = next_pid s + 1 \<and> (\<forall>q. q \<noteq> p \<longrightarrow> pcbs s' q = pcbs s q) \<and>
    queue s' pcbFree_h = fs \<and> queue s' readyQueue = queue s readyQueue @ [P_LIST p] \<and>
    queue s' (P_CHILD sender) = queue s (P_CHILD sender) @ [P_SIB p] \<and>
    queue s' (MSG_INBOX p) = [] \<and> queue s' (P_CHILD p) = [] \<and>
    kept {pcbFree_h, readyQueue, P_CHILD sender} s s' \<and> unat (processCount s') = unat (processCount s) + 1"
proof -
  from ok obtain A where inv: "kernel_inv s A" and ac: "forest A" by (rule nucleus_okE)
  obtain ps where ps: "procs A pcbFree_h ps" "queue s pcbFree_h = map P_LIST ps"
    using procs_of [OF inv, of pcbFree_h] by auto
  then obtain fs' where fs: "procs A pcbFree_h (p # fs')" "fs = map P_LIST fs'" using f by (cases ps) auto
  from procs_of [OF inv, of readyQueue] obtain rs where
    rs: "procs A readyQueue rs" "queue s readyQueue = map P_LIST rs" by auto
  obtain cs where cs: "children A sender cs" "queue s (P_CHILD sender) = map P_SIB cs" by (rule children_of [OF inv al])
  have nf: "\<not> free A sender" using al allocated_iff [OF inv] by blast
  have fp: "free A p" using fs(1) by (simp add: free_def queue_of_def)
  then have ps': "p \<noteq> sender" "\<not> allocated s p" using nf allocated_iff [OF inv] by auto
  from kernel_inv_procs(2) [OF inv _ fs(1)] obtain x where x: "pcbs s p = Some x" by fastforce
  let ?B = "created_queues A p fs' rs sender cs"
  from createProcess_kernel_inv [where A = A, OF inv fs(1) rs(1) cs(1) nf c x] obtain s' where
    s': "createProcess sender a s = Some (p, s')" "kernel_inv s' ?B"
    "pcbs s' = (pcbs s)(p \<mapsto> created_pcb sender (next_pid s) (scp_support c) st x)" "next_pid s' = next_pid s + 1"
    by blast
  have ok': "nucleus_ok s'" using s'(2) forest_created [OF inv fs(1) cs(1) nf ac] by (auto simp: nucleus_ok_def)
  have Q: "queue s' q = xs" if "?B q = Some xs" for q xs by (rule queue_eq [OF s'(2) that])
  have q: "queue s' pcbFree_h = fs" "queue s' readyQueue = queue s readyQueue @ [P_LIST p]"
    "queue s' (P_CHILD sender) = queue s (P_CHILD sender) @ [P_SIB p]"
    "queue s' (MSG_INBOX p) = []" "queue s' (P_CHILD p) = []"
    by (rule Q, use fs(2) rs(2) cs(2) ps'(1) in \<open>simp add: created_queues_def\<close>)+
  have "kept {pcbFree_h, readyQueue, P_CHILD sender} s s'"
    by (rule keptI [OF inv s'(2)])
      (use ps'(2) in \<open>auto simp: created_queues_def live_head_def proc_heads_def blocked_heads_def\<close>)
  moreover have "unat (processCount s') = unat (processCount s) + 1"
    using count_free [OF ok] count_free [OF ok'] q(1) f by simp
  ultimately show ?thesis using s' ok' q by (auto simp: created_pcb_def fresh_pcb_def)
qed

text \<open>C25.  CREATEPROCESS with a free PCB: the child gets the state and the support structure of the
  request, its parent, a fresh pid and no time used, an empty inbox and no children; it is last in the
  ready queue and last among the children of the requester.\<close>

theorem create_process_makes:
  assumes "nucleus_ok s" and "queue s pcbFree_h = P_LIST p # fs" and "allocated s sender"
    and "ssi_create_processes s a = Some c" "states s (scp_state c) = Some st"
  shows "\<exists>s' x. createProcess sender a s = Some (p, s') \<and> nucleus_ok s' \<and> pcbs s' p = Some x \<and>
    p_s x = st \<and> p_supportStruct x = scp_support c \<and> p_parent x = sender \<and> p_time x = 0 \<and>
    p_pid x = next_pid s \<and> next_pid s' = next_pid s + 1 \<and> (\<forall>q. q \<noteq> p \<longrightarrow> pcbs s' q = pcbs s q) \<and>
    queue s' pcbFree_h = fs \<and> queue s' readyQueue = queue s readyQueue @ [P_LIST p] \<and>
    queue s' (P_CHILD sender) = queue s (P_CHILD sender) @ [P_SIB p] \<and>
    queue s' (MSG_INBOX p) = [] \<and> queue s' (P_CHILD p) = [] \<and>
    kept {pcbFree_h, readyQueue, P_CHILD sender} s s' \<and> unat (processCount s') = unat (processCount s) + 1"
  by (rule create_process_makes_full [OF assms])

text \<open>A request of the test process.\<close>

lemma demo_request_facts:
  "nucleus_ok demo_request" "allocated demo_request p1"
  "queue demo_request pcbFree_h = P_LIST 0x20010200 # map P_LIST (tl demo_rest)"
proof -
  have q: "queue demo_request = queue demo_start" by (rule queue_cong) (simp add: demo_request_def)
  show "nucleus_ok demo_request" by (rule reachable_nucleus_ok [OF demo_request_reachable])
  show "allocated demo_request p1"
    using demo_p1_allocated unfolding allocated_def q by (simp add: demo_request_def)
  have "demo_rest = 0x20010200 # tl demo_rest" by code_simp
  then show "queue demo_request pcbFree_h = P_LIST 0x20010200 # map P_LIST (tl demo_rest)"
    using demo_queue [OF demo_queues_at(2)] unfolding q by (metis list.simps(9))
qed

theorem create_process_makes_witness:
  "\<exists>s'. createProcess p1 0x20030200 demo_request = Some (0x20010200, s') \<and>
     queue s' (P_CHILD p1) = [P_SIB 0x20010200]"
proof -
  have c: "ssi_create_processes demo_request 0x20030200 = Some \<lparr>scp_state = 0x20030000, scp_support = NULL\<rparr>"
    by (simp add: demo_request_def)
  have "states demo_request (scp_state \<lparr>scp_state = 0x20030000, scp_support = NULL\<rparr>) = Some zero_state"
    by (simp add: demo_request_def)
  moreover have "queue demo_request (P_CHILD p1) = []"
    using queue_cong [of demo_request demo_start] by (simp add: demo_request_def demo_queue)
  ultimately show ?thesis
    using create_process_makes [OF demo_request_facts(1,3,2) c] by fastforce
qed

text \<open>With no PCB left the request changes nothing, and the SSI does not answer: the error value is
  the one that means no answer, so the requester waits for ever.\<close>

theorem create_process_unanswered:
  assumes ok: "nucleus_ok s" and f: "queue s pcbFree_h = []"
    and r: "ssi_payloads s payload = Some \<lparr>service_code = CREATEPROCESS, arg = a\<rparr>"
  shows "createProcess sender a s = Some (NOPROC, s) \<and> SSI_body payload s = Some (None, s)"
proof -
  from ok obtain A where inv: "kernel_inv s A" by (auto simp: nucleus_ok_def)
  have "procs A pcbFree_h []" using global_queue [OF inv, of pcbFree_h] f by simp
  then have "createProcess sender a s = Some (NOPROC, s)" for sender
    by (rule createProcess_full [OF kernel_invD(1) [OF inv]])
  then show ?thesis using r by (simp add: SSI_body_def Let_def SSIRequest_def)
qed

text \<open>Children of the test process until no PCB is left.\<close>

primrec fill :: "nat \<Rightarrow> sys \<Rightarrow> sys" where
  "fill 0 s = s"
| "fill (Suc n) s = snd (the (createProcess p1 0x20030200 (fill n s)))"

lemma create_frame:
  "createProcess sender a s = Some (p, s') \<Longrightarrow> ssi_create_processes s' = ssi_create_processes s \<and> states s' = states s \<and>
     msgs s' = msgs s \<and> current_process s' = current_process s"
  by (auto simp: createProcess_def allocPcb_def initPcbValues_def upd_pcb_def insertProcQ_def insertChild_def
      on_lists_def Let_def split: if_splits bind_splits)

lemma fill_facts:
  "n \<le> 48 \<Longrightarrow> nucleus_ok (fill n demo_request) \<and> allocated (fill n demo_request) p1 \<and>
   length (queue (fill n demo_request) pcbFree_h) = 48 - n \<and>
   ssi_create_processes (fill n demo_request) = ssi_create_processes demo_request \<and>
   states (fill n demo_request) = states demo_request"
proof (induction n)
  case 0
  have "length (queue demo_request pcbFree_h) = 48"
    using demo_request_facts(3) by (simp add: demo_rest_def)
  then show ?case using demo_request_facts(1,2) by simp
next
  case (Suc n)
  let ?s = "fill n demo_request"
  from Suc have IH: "nucleus_ok ?s" "allocated ?s p1" "length (queue ?s pcbFree_h) = 48 - n"
    "ssi_create_processes ?s = ssi_create_processes demo_request" "states ?s = states demo_request" by auto
  have "queue ?s pcbFree_h \<noteq> []" using IH(3) Suc.prems by auto
  moreover obtain A where inv: "kernel_inv ?s A" using IH(1) by (auto simp: nucleus_ok_def)
  obtain ps where "queue ?s pcbFree_h = map P_LIST ps" using procs_of [OF inv, of pcbFree_h] by auto
  ultimately obtain p fs where f: "queue ?s pcbFree_h = P_LIST p # map P_LIST fs" by (cases ps) auto
  have c: "ssi_create_processes ?s 0x20030200 = Some \<lparr>scp_state = 0x20030000, scp_support = NULL\<rparr>"
    "states ?s (scp_state \<lparr>scp_state = 0x20030000, scp_support = NULL\<rparr>) = Some zero_state"
    unfolding IH(4,5) by (simp_all add: demo_request_def)
  from create_process_makes_full [OF IH(1) f IH(2) c] obtain s' where
    s': "createProcess p1 0x20030200 ?s = Some (p, s')" "nucleus_ok s'" "queue s' pcbFree_h = map P_LIST fs"
    "\<forall>q. q \<noteq> p \<longrightarrow> pcbs s' q = pcbs ?s q" "\<exists>x. pcbs s' p = Some x" by blast
  have "P_LIST p1 \<notin> set (queue ?s pcbFree_h)" using IH(2) by (simp add: allocated_def)
  then have "allocated s' p1" using IH(2) s'(3,4,5) f by (auto simp: allocated_def)
  moreover have "length (queue s' pcbFree_h) = 48 - Suc n" using s'(3) f IH(3) Suc.prems by simp
  ultimately show ?case using s'(1,2) create_frame [OF s'(1)] IH(4,5) by simp
qed

theorem create_process_unanswered_witness:
  "\<exists>s. nucleus_ok s \<and> queue s pcbFree_h = [] \<and> SSI_body 0x20030300 s = Some (None, s)"
proof -
  let ?t = "(fill 48 demo_request)\<lparr>ssi_payloads := [0x20030300 \<mapsto> \<lparr>service_code = CREATEPROCESS, arg = 0x20030200\<rparr>]\<rparr>"
  have ok: "nucleus_ok ?t" by (rule nucleus_ok_nondata [of ?t "fill 48 demo_request"]) (use fill_facts [of 48] in simp_all)
  have f: "queue ?t pcbFree_h = []"
    using fill_facts [of 48] queue_cong [of ?t "fill 48 demo_request"] by simp
  have "ssi_payloads ?t 0x20030300 = Some \<lparr>service_code = CREATEPROCESS, arg = 0x20030200\<rparr>" by simp
  from create_process_unanswered [OF ok f this] show ?thesis using ok f by blast
qed

section \<open>Input and output\<close>

text \<open>The search of \<^verbatim>\<open>doio\<close> over five lines and eight devices finds the device by
  its command address alone: it equals one computation with the address, and at most one line and device
  match it.\<close>

theorem device_search:
  "doio_lines io_lines a p s =
     (case device_queue a of None \<Rightarrow> Some s | Some (q, d) \<Rightarrow> block_on d p (insertProcQ q p) s)"
  by (rule doio_lines_device)

lemma doio_blocks_full:
  assumes ok: "nucleus_ok s" and g: "sender \<noteq> current_process s" "linked s sender \<longrightarrow> ready s sender"
    and x: "pcbs s sender = Some x" and io: "ssi_do_ios s a = Some io" "device_queue (commandAddr io) = Some (q, d)"
  shows "\<exists>s'. doio a sender s = Some s' \<and> nucleus_ok s' \<and> queue s' q = queue s q @ [P_LIST sender] \<and>
    queue s' readyQueue = remove1 (P_LIST sender) (queue s readyQueue) \<and> kept {q, readyQueue} s s' \<and>
    pcbs s' = (pcbs s)(sender \<mapsto> x\<lparr>blockedOnDevice := d\<rparr>) \<and>
    mem s' = (mem s)(commandAddr io := commandValue io)"
proof -
  from ok obtain A where inv: "kernel_inv s A" and ac: "forest A" and A: "proper A" by (rule nucleus_okE)
  note dq = device_queue_blocked [OF io(2)]
  have qp: "q \<in> set proc_heads" using dq by (simp add: proc_heads_def)
  from procs_of [OF inv, of readyQueue] obtain rs where
    rs: "procs A readyQueue rs" "queue s readyQueue = map P_LIST rs" by auto
  obtain qs where qs: "procs A q qs" "queue s q = map P_LIST qs" by (rule procs_of [OF inv qp])
  have "P_LIST sender \<in> nodes A \<Longrightarrow> sender \<in> set rs"
    using g(2) rs(2) linked_iff [OF inv A] by (auto simp: ready_def)
  from doio_kernel_inv [where A = A, OF inv io rs(1) qs(1) x g(1) this] obtain s' where
    s': "doio a sender s = Some s'" "kernel_inv s' (blocked_upd A rs q qs sender)"
    "pcbs s' = (pcbs s)(sender \<mapsto> x\<lparr>blockedOnDevice := d\<rparr>)"
    "mem s' = (mem s)(commandAddr io := commandValue io)" by blast
  have "forest (blocked_upd A rs q qs sender)"
    by (rule forest_same [OF _ ac]) (use qp in \<open>auto simp: blocked_upd_def proc_heads_def blocked_heads_def\<close>)
  then have "nucleus_ok s'" using s'(2) by (auto simp: nucleus_ok_def)
  moreover have "queue s' q = map P_LIST (qs @ [sender])" "queue s' readyQueue = map P_LIST (remove1 sender rs)"
    by (rule queue_eq [OF s'(2)], use dq in \<open>auto simp: blocked_upd_def\<close>)+
  moreover have "kept {q, readyQueue} s s'"
    by (rule keptI [OF inv s'(2)]) (simp add: blocked_upd_def)
  ultimately show ?thesis using s'(1,3,4) qs(2) rs(2) inj_P_LIST by (auto simp: map_injection_remove1)
qed

text \<open>C28.  DOIO for the command register of a device: the requester leaves the ready queue if it is there
  and waits in the queue of the device's line, marked with the device number; then the command is
  written.\<close>

theorem doio_blocks:
  assumes "nucleus_ok s" and "sender \<noteq> current_process s" "linked s sender \<longrightarrow> ready s sender"
    and "pcbs s sender = Some x" and "ssi_do_ios s a = Some io" "device_queue (commandAddr io) = Some (q, d)"
  shows "\<exists>s'. doio a sender s = Some s' \<and> nucleus_ok s' \<and> queue s' q = queue s q @ [P_LIST sender] \<and>
    queue s' readyQueue = remove1 (P_LIST sender) (queue s readyQueue) \<and> kept {q, readyQueue} s s' \<and>
    pcbs s' = (pcbs s)(sender \<mapsto> x\<lparr>blockedOnDevice := d\<rparr>) \<and>
    mem s' = (mem s)(commandAddr io := commandValue io)"
  by (rule doio_blocks_full [OF assms])

text \<open>The test process writes to the command register of printer 2.\<close>

definition demo_io :: sys where
  "demo_io = demo_start\<lparr>ssi_do_ios := [0x20030400 \<mapsto>
     \<lparr>commandAddr = DEV_REG_ADDR IL_PRINTER 2 + dtp_command, commandValue = 2\<rparr>]\<rparr>"

lemma demo_io_facts:
  "nucleus_ok demo_io" "queue demo_io = queue demo_start" "current_process demo_io = p0"
  "ssi_do_ios demo_io 0x20030400 = Some \<lparr>commandAddr = DEV_REG_ADDR IL_PRINTER 2 + dtp_command, commandValue = 2\<rparr>"
  "device_queue (commandAddr \<lparr>commandAddr = DEV_REG_ADDR IL_PRINTER 2 + dtp_command, commandValue = 2\<rparr>) =
     Some (blockedPrinterQueue, 2)" "pcbs demo_io = pcbs demo_start" "ready demo_io p1"
proof -
  show "nucleus_ok demo_io"
    by (rule nucleus_ok_nondata [OF _ _ _ _ _ _ _ _ demo_ok]) (simp_all add: demo_io_def)
  show q: "queue demo_io = queue demo_start" by (rule queue_cong) (simp add: demo_io_def)
  show "ready demo_io p1" using demo_p1(1) by (simp add: ready_def q)
  show "device_queue (commandAddr \<lparr>commandAddr = DEV_REG_ADDR IL_PRINTER 2 + dtp_command, commandValue = 2\<rparr>) =
     Some (blockedPrinterQueue, 2)" by code_simp
qed (simp_all add: demo_io_def demo_start_main(3))

theorem doio_blocks_witness:
  "\<exists>s'. doio 0x20030400 p1 demo_io = Some s' \<and> queue s' blockedPrinterQueue = [P_LIST p1] \<and> queue s' readyQueue = []"
proof -
  obtain x where "pcbs demo_io p1 = Some x" using demo_p1(2) demo_io_facts(6) by auto
  note d = doio_blocks [OF demo_io_facts(1) _ _ this demo_io_facts(4,5)]
  have "queue demo_start blockedPrinterQueue = []" by (rule demo_queue) (simp add: blocked_heads_def)
  then show ?thesis using d demo_io_facts(2,3,7) by (auto simp: demo_queue)
qed

lemma doio_frame: "doio a p s = Some s' \<Longrightarrow> msgs s' = msgs s \<and> current_process s' = current_process s"
  by (auto simp: doio_def doio_lines_device block_on_def upd_pcb_def outProcQ_def insertProcQ_def on_lists_def Let_def
      split: if_splits bind_splits option.splits prod.splits)

section \<open>Waiting for the clock\<close>

lemma clock_wait_blocks_full:
  assumes ok: "nucleus_ok s" and g: "clockwait_guard sender s"
  shows "\<exists>s'. wait4Clock sender s = Some s' \<and> nucleus_ok s' \<and>
    queue s' pseudoClockQueue = queue s pseudoClockQueue @ [P_LIST sender] \<and> kept {pseudoClockQueue} s s' \<and>
    s' = s\<lparr>lh_mem := lh_mem s', softBlockCount := softBlockCount s + 1\<rparr>"
proof -
  from ok obtain A where inv: "kernel_inv s A" and ac: "forest A" and A: "proper A" by (rule nucleus_okE)
  obtain ps where ps: "procs A pseudoClockQueue ps" "queue s pseudoClockQueue = map P_LIST ps"
    using procs_of [OF inv, of pseudoClockQueue] by auto
  have "pcbs s sender \<noteq> None" "P_LIST sender \<notin> nodes A" "sender \<noteq> current_process s"
    using g linked_iff [OF inv A] by (simp_all add: clockwait_guard_def)
  from wait4Clock_kernel_inv [where A = A, OF inv ps(1) this] obtain s' where
    s': "wait4Clock sender s = Some s'" "kernel_inv s' (A(pseudoClockQueue \<mapsto> map P_LIST (ps @ [sender])))" by blast
  have "forest (A(pseudoClockQueue \<mapsto> map P_LIST (ps @ [sender])))" by (rule forest_upd [OF _ ac]) simp
  then have "nucleus_ok s'" using s'(2) by (auto simp: nucleus_ok_def)
  moreover have "queue s' pseudoClockQueue = map P_LIST (ps @ [sender])" by (rule queue_eq [OF s'(2)]) simp
  moreover have "kept {pseudoClockQueue} s s'" by (rule keptI [OF inv s'(2)]) simp
  moreover have "s' = s\<lparr>lh_mem := lh_mem s', softBlockCount := softBlockCount s + 1\<rparr>"
    using s'(1) by (auto simp: wait4Clock_def insertProcQ_def on_lists_def split: bind_splits if_splits)
  ultimately show ?thesis using s'(1) ps(2) by auto
qed

text \<open>CLOCKWAIT of a process that is in no queue puts it at the end of the pseudo-clock queue and
  counts it as blocked.\<close>

theorem clock_wait_blocks:
  assumes "nucleus_ok s" and "clockwait_guard sender s"
  shows "\<exists>s'. wait4Clock sender s = Some s' \<and> nucleus_ok s' \<and>
    queue s' pseudoClockQueue = queue s pseudoClockQueue @ [P_LIST sender] \<and> kept {pseudoClockQueue} s s' \<and>
    s' = s\<lparr>lh_mem := lh_mem s', softBlockCount := softBlockCount s + 1\<rparr>"
  by (rule clock_wait_blocks_full [OF assms])

theorem clock_wait_blocks_witness:
  "\<exists>c s s'. recv ANYMESSAGE 0 demo_start = Some (c, s) \<and> wait4Clock p0 s = Some s' \<and>
     queue s' pseudoClockQueue = [P_LIST p0]"
proof -
  obtain c s where s: "recv ANYMESSAGE 0 demo_start = Some (c, s)" "nucleus_ok s" "current_process s = p1"
    "queue s readyQueue = []" "\<not> linked s p0" "allocated s p0" "queue s (MSG_INBOX p0) = []"
    "queue s msgFree_h = queue demo_start msgFree_h" "allocated s p1" "queue s pseudoClockQueue = []"
    by (rule demo_listening)
  have "clockwait_guard p0 s" using s(3,5,6) by (simp add: clockwait_guard_def allocated_def)
  from clock_wait_blocks [OF s(2) this] show ?thesis using s(1,10) by auto
qed

text \<open>C37.  CLOCKWAIT of a process that is still in the ready queue destroys the queues: the node is
  linked into the pseudo-clock queue without being taken out of the ready queue, and the state left
  satisfies the invariant under no reading of its lists.\<close>

theorem clock_wait_ready_corrupts:
  assumes ok: "nucleus_ok s" and r: "ready s p"
  shows "\<exists>s'. wait4Clock p s = Some s' \<and> \<not> nucleus_ok s'"
proof -
  from ok obtain A where inv: "kernel_inv s A" by (auto simp: nucleus_ok_def)
  note rep = kernel_invD(1) [OF inv]
  obtain rs where rs: "procs A readyQueue rs" "queue s readyQueue = map P_LIST rs"
    using procs_of [OF inv, of readyQueue] by auto
  have p: "p \<in> set rs" using r rs(2) by (auto simp: ready_def)
  have Ac: "A pseudoClockQueue = Some (queue s pseudoClockQueue)" by (rule global_queue [OF inv]) simp
  let ?s = "s\<lparr>lh_mem := list_add_tail (P_LIST p) pseudoClockQueue (lh_mem s), softBlockCount := softBlockCount s + 1\<rparr>"
  have "lh_valid s (P_LIST p)" using represents_node [OF rep rs(1), of "P_LIST p"] p by auto
  then have w: "wait4Clock p s = Some ?s" by (simp add: wait4Clock_def insertProcQ_def on_lists_def)
  obtain pre post where "dlist (lh_mem s) readyQueue (pre @ P_LIST p # post)"
    "dlist (lh_mem s) pseudoClockQueue (queue s pseudoClockQueue)"
    "insert readyQueue (set (pre @ P_LIST p # post)) \<inter> insert pseudoClockQueue (set (queue s pseudoClockQueue)) = {}"
    using queue_split [where A = A, OF rep rs(1) p Ac] by auto
  then have "\<not> nucleus_ok ?s" by (rule relink_corrupts) simp_all
  then show ?thesis using w by blast
qed

theorem clock_wait_ready_corrupts_witness:
  "reachable demo_code demo_start \<and> (\<exists>s'. wait4Clock p1 demo_start = Some s' \<and> \<not> nucleus_ok s')"
  using demo_reachable clock_wait_ready_corrupts [OF demo_ok demo_p1(1)] by blast

text \<open>So does TERMPROCESS of a ready process: its PCB goes to the free list without leaving the
  ready queue.\<close>

theorem terminate_ready_corrupts:
  assumes ok: "nucleus_ok s" and r: "ready s p" and ch: "queue s (P_CHILD p) = []"
  shows "\<exists>s'. terminateProcess p s = Some s' \<and> \<not> nucleus_ok s'"
proof -
  from ok obtain A where inv: "kernel_inv s A" by (auto simp: nucleus_ok_def)
  note rep = kernel_invD(1) [OF inv]
  obtain rs where rs: "procs A readyQueue rs" "queue s readyQueue = map P_LIST rs"
    using procs_of [OF inv, of readyQueue] by auto
  have p: "p \<in> set rs" using r rs(2) by (auto simp: ready_def)
  obtain x where x: "pcbs s p = Some x" "p \<noteq> NULL" using kernel_inv_procs(2) [OF inv _ rs(1) p] by auto
  have al: "\<not> free A p" using blocked_alive(1) [OF inv _ _ rs(1) p] by simp
  have "A (P_CHILD p) \<noteq> None" using inv x(1) al by (simp add: kernel_inv_def)
  then have leaf: "A (P_CHILD p) = Some []" using ch queue_eq [OF inv] by auto
  have nb: "\<not> blocked_in A p q" if "q \<in> set blocked_heads" for q
  proof
    assume "blocked_in A p q"
    then have "P_LIST p \<in> set (queue s q)"
      using global_queue [OF inv, of q] that blocked_heads_sub by (auto simp: blocked_in_def)
    moreover have "A q = Some (queue s q)" using global_queue [OF inv, of q] that blocked_heads_sub by blast
    ultimately show False
      using queues_ok_owner [OF represents_queues_ok [OF rep] rs(1) \<open>A q = _\<close>, of "P_LIST p"] p that
      by (auto simp: blocked_heads_def)
  qed
  have "isPcbBlockedOnDevice p s = Some (False, s)"
    using x(1) out_any_miss [OF rep, of "blocked_queues (blockedOnDevice x)" p] nb blocked_queues_sub blocked_heads_sub
    by (auto simp: isPcbBlockedOnDevice_def)
  then have t: "terminateProcess p s = do {
      (_, s3) \<leftarrow> outChild p s; s4 \<leftarrow> freePcb p s3; Some (s4\<lparr>processCount := processCount s4 - 1\<rparr>) }"
    by (simp add: terminateProcess_leaf [OF rep leaf x])
  have main: ?thesis
    if o: "outChild p s = Some (v, s3)" "represents s3 B" "procs B readyQueue rs" "B pcbFree_h = A pcbFree_h" for v s3 B
  proof -
    obtain fs where fs: "B pcbFree_h = Some fs" using o(4) global_queue [OF inv, of pcbFree_h] by auto
    have "lh_valid s3 (P_LIST p)" using represents_node [OF o(2,3), of "P_LIST p"] p by auto
    then have "terminateProcess p s = Some (s3\<lparr>lh_mem := list_add_tail (P_LIST p) pcbFree_h (lh_mem s3),
        processCount := processCount s3 - 1\<rparr>)" (is "_ = Some ?s")
      by (simp add: t o(1) freePcb_def on_lists_def)
    moreover obtain pre post where "dlist (lh_mem s3) readyQueue (pre @ P_LIST p # post)" "dlist (lh_mem s3) pcbFree_h fs"
      "insert readyQueue (set (pre @ P_LIST p # post)) \<inter> insert pcbFree_h (set fs) = {}"
      using queue_split [where A = B, OF o(2,3) p fs] by auto
    then have "\<not> nucleus_ok ?s" by (rule relink_corrupts) simp_all
    ultimately show ?thesis by blast
  qed
  show ?thesis
  proof (cases "p_parent x = NULL")
    case True
    show ?thesis by (rule main [OF outChild_orphan [OF x(1) True] rep rs(1) refl])
  next
    case False
    then have sib: "P_SIB p \<in> set (queue_of A (P_CHILD (p_parent x)))"
      using inv x(1) al by (auto simp: kernel_inv_def tree_ok_def)
    then obtain ys where "A (P_CHILD (p_parent x)) = Some ys" by (cases "A (P_CHILD (p_parent x))") (auto simp: queue_of_def)
    then obtain cs where cs: "children A (p_parent x) cs" using represents_children [OF rep] by blast
    then have "p \<in> set cs" using sib by auto
    from outChild_listed [where A = A, OF rep cs this x(1) False] obtain s3 where
      "outChild p s = Some (p, s3)" "represents s3 (A(P_CHILD (p_parent x) \<mapsto> map P_SIB (remove1 p cs)))" by blast
    then show ?thesis by (rule main) (use rs(1) in simp_all)
  qed
qed

theorem terminate_ready_corrupts_witness:
  "reachable demo_code demo_start \<and> (\<exists>s'. terminateProcess p1 demo_start = Some s' \<and> \<not> nucleus_ok s')"
  using demo_reachable terminate_ready_corrupts [OF demo_ok demo_p1(1)] by (simp add: demo_queue)

section \<open>A family of processes\<close>

lemma descendant_child:
  assumes c: "queue s (P_CHILD p) = [P_SIB q]"
  shows "descendant s p r \<longleftrightarrow> r = p \<or> descendant s q r"
proof
  show "descendant s p r \<Longrightarrow> r = p \<or> descendant s q r"
    by (induction rule: descendant.induct) (use c in \<open>auto intro: descendant.intros\<close>)
  have "descendant s p r" if "descendant s q r"
    using that by induction (use c in \<open>auto intro: descendant.intros descendant.child [OF descendant.self]\<close>)
  then show "r = p \<or> descendant s q r \<Longrightarrow> descendant s p r" by (auto intro: descendant.self)
qed

text \<open>A process makes a child, and the child asks for the printer with number 6.\<close>

lemma blocked_child:
  assumes s: "reachable demo_code s" "current_process s = p0" and f: "queue s pcbFree_h = P_LIST p # fs" and al: "allocated s sender"
  obtains s' x where "reachable demo_code s'" "current_process s' = p0" "queue s' pcbFree_h = fs"
    "queue s' blockedPrinterQueue = queue s blockedPrinterQueue @ [P_LIST p]"
    "queue s' (P_CHILD sender) = queue s (P_CHILD sender) @ [P_SIB p]" "queue s' (P_CHILD p) = []" "allocated s' p"
    "queue s' readyQueue = queue s readyQueue" "pcbs s' p = Some x" "blockedOnDevice x = 6" "\<forall>r. r \<noteq> p \<longrightarrow> pcbs s' r = pcbs s r"
    "kept {pcbFree_h, blockedPrinterQueue, P_CHILD sender} s s'"
proof -
  let ?io = "\<lparr>commandAddr = DEV_REG_ADDR IL_PRINTER 6 + dtp_command, commandValue = 2\<rparr>"
  let ?t = "s\<lparr>states := [0x20030000 \<mapsto> zero_state], ssi_create_processes := [0x20030200 \<mapsto> \<lparr>scp_state = 0x20030000, scp_support = NULL\<rparr>]\<rparr>"
  have rt: "reachable demo_code ?t" by (rule reachable.step [OF s(1) nucleus_step.outside]) (simp add: same_kernel_def)
  have qt: "queue ?t = queue s" by (rule queue_cong) simp
  have at: "allocated ?t r = allocated s r" for r by (simp add: allocated_def qt)
  have f': "queue ?t pcbFree_h = P_LIST p # fs" "allocated ?t sender" using f al by (simp_all add: qt at)
  have c: "ssi_create_processes ?t 0x20030200 = Some \<lparr>scp_state = 0x20030000, scp_support = NULL\<rparr>"
    "states ?t (scp_state \<lparr>scp_state = 0x20030000, scp_support = NULL\<rparr>) = Some zero_state" by simp_all
  from create_process_makes_full [OF reachable_nucleus_ok [OF rt] f' c] obtain s1 where
    s1: "createProcess sender 0x20030200 ?t = Some (p, s1)" "nucleus_ok s1" "\<forall>q. q \<noteq> p \<longrightarrow> pcbs s1 q = pcbs s q"
    "queue s1 pcbFree_h = fs" "queue s1 readyQueue = queue s readyQueue @ [P_LIST p]"
    "queue s1 (P_CHILD sender) = queue s (P_CHILD sender) @ [P_SIB p]" "queue s1 (P_CHILD p) = []"
    "kept {pcbFree_h, readyQueue, P_CHILD sender} ?t s1" "\<exists>x. pcbs s1 p = Some x" unfolding qt by auto
  have cur: "current_process s1 = p0" using create_frame [OF s1(1)] s(2) by simp
  have "nucleus_step ?t s1"
    by (rule nucleus_step.service [where sender = sender and srv = CREATEPROCESS and a = "0x20030200"])
      (use f' s1(1) in \<open>auto simp: ssi_guard_def create_guard_def SSIRequest_def\<close>)
  then have r1: "reachable demo_code s1" by (rule reachable.step [OF rt])
  let ?u = "s1\<lparr>ssi_do_ios := [0x20030400 \<mapsto> ?io]\<rparr>"
  have ru: "reachable demo_code ?u" by (rule reachable.step [OF r1 nucleus_step.outside]) (simp add: same_kernel_def)
  have qu: "queue ?u = queue s1" by (rule queue_cong) simp
  obtain A where inv: "kernel_inv s A" and A: "proper A" using reachable_nucleus_ok [OF s(1)] by (rule nucleus_okE)
  have "free A p" using f global_queue [OF inv, of pcbFree_h] by (simp add: free_def)
  then have na: "\<not> allocated s p" using allocated_iff [OF inv] by blast
  then have ne: "p \<noteq> p0" "p \<noteq> sender" using current_facts(1) [OF inv] s(2) al by auto
  have nr: "P_LIST p \<notin> set (queue s readyQueue)"
    using queues_ok_owner [OF represents_queues_ok [OF kernel_invD(1) [OF inv]] global_queue [OF inv, of readyQueue]
      global_queue [OF inv, of pcbFree_h], of "P_LIST p"] f by auto
  obtain y where y: "pcbs ?u p = Some y" using s1(9) by auto
  have io: "ssi_do_ios ?u 0x20030400 = Some ?io" "device_queue (commandAddr ?io) = Some (blockedPrinterQueue, 6)" by (simp, code_simp)
  have rdy: "ready ?u p" using s1(5) by (simp add: ready_def qu)
  from doio_blocks_full [OF reachable_nucleus_ok [OF ru] _ _ y io] ne(1) cur rdy obtain s' where
    s': "doio 0x20030400 p ?u = Some s'" "queue s' blockedPrinterQueue = queue s1 blockedPrinterQueue @ [P_LIST p]"
    "queue s' readyQueue = remove1 (P_LIST p) (queue s1 readyQueue)" "kept {blockedPrinterQueue, readyQueue} ?u s'"
    "pcbs s' = (pcbs s1)(p \<mapsto> y\<lparr>blockedOnDevice := 6\<rparr>)" unfolding qu by auto
  have "nucleus_step ?u s'"
    by (rule nucleus_step.service [where sender = p and srv = DOIO and a = "0x20030400"])
      (use y ne(1) cur rdy io s'(1) in \<open>auto simp: ssi_guard_def doio_guard_def SSIRequest_def\<close>)
  then have r': "reachable demo_code s'" by (rule reachable.step [OF ru])
  have cur': "current_process s' = p0" using doio_frame [OF s'(1)] cur by simp
  have au: "allocated ?u r = allocated s1 r" for r by (simp add: allocated_def qu)
  have dist: "P_LIST p \<notin> set fs"
    using represents_dlist [OF kernel_invD(1) [OF inv] global_queue [OF inv, of pcbFree_h]] f by (simp add: dlist_def)
  have as: "allocated s1 r" if "allocated s r \<or> r = p" for r
    using that s1(3,4,9) f dist by (cases "r = p") (auto simp: allocated_def)
  have k: "queue s' q = queue s q" if q: "live_head s q" "q \<notin> {pcbFree_h, blockedPrinterQueue, P_CHILD sender, readyQueue}" for q
  proof -
    have "live_head ?t q" using q(1) by (simp add: live_head_def at)
    then have "queue s1 q = queue s q" using s1(8) q(2) by (simp add: kept_def qt)
    moreover have "live_head ?u q" using q(1) as by (auto simp: live_head_def au)
    then have "queue s' q = queue s1 q" using s'(4) q(2) by (simp add: kept_def qu)
    ultimately show ?thesis by simp
  qed
  have rq: "queue s' readyQueue = queue s readyQueue" using s'(3) s1(5) nr by (simp add: remove1_append)
  have kp: "kept {pcbFree_h, blockedPrinterQueue, P_CHILD sender} s s'" unfolding kept_def using k rq by auto
  have other: "queue s' q = queue s1 q" if "q \<in> {pcbFree_h, P_CHILD sender, P_CHILD p}" for q
  proof -
    have "live_head ?u q" using that as al by (auto simp: live_head_def au)
    then show ?thesis using s'(4) that by (auto simp: kept_def qu)
  qed
  have pr: "queue s1 blockedPrinterQueue = queue s blockedPrinterQueue"
    using s1(8) by (auto simp: kept_def qt live_head_def proc_heads_def blocked_heads_def)
  have "allocated s' p" using as [of p] other [of pcbFree_h] s'(5) by (auto simp: allocated_def)
  then show ?thesis
    by (intro that [OF r' cur' _ _ _ _ _ rq _ _ _ kp, of "y\<lparr>blockedOnDevice := 6\<rparr>"])
      (use s'(2,5) s1(3,4,6,7) other pr in auto)
qed

text \<open>The SSI has a child and a grandchild, which both wait for the printer.\<close>

abbreviation (input) p_child :: ptr where "p_child \<equiv> 0x20010200"
abbreviation (input) p_grand :: ptr where "p_grand \<equiv> 0x20010300"

lemma demo_three:
  obtains s where "reachable demo_code s" "current_process s = p0" "queue s readyQueue = [P_LIST p1]"
    "queue s blockedPrinterQueue = [P_LIST p_child, P_LIST p_grand]" "\<forall>q. descendant s p0 q \<longleftrightarrow> q \<in> {p0, p_child, p_grand}"
    "\<forall>q. descendant s p_child q \<longleftrightarrow> q \<in> {p_child, p_grand}" "stoppable s p0" "stop_guard p_child s" "pcbs s p0 = pcbs demo_start p0"
proof -
  have fr: "queue demo_start pcbFree_h = P_LIST p_child # P_LIST p_grand # map P_LIST (drop 2 demo_rest)"
  proof -
    have "demo_rest = p_child # p_grand # drop 2 demo_rest" by code_simp
    then show ?thesis using demo_queue [OF demo_queues_at(2)] by (metis list.simps(9))
  qed
  have a0: "allocated demo_start p0" using current_facts(1) [OF demo_start_main(2)] by (simp add: demo_start_main(3))
  have e: "queue demo_start blockedPrinterQueue = []" "queue demo_start (P_CHILD p0) = []" "queue demo_start readyQueue = [P_LIST p1]"
    using demo_queue [OF demo_queues_at(1)] demo_queue [OF demo_queues_at(4)] demo_queue [OF demo_queues_at(5)]
    by (simp_all add: blocked_heads_def)
  obtain s1 x2 where
    s1: "reachable demo_code s1" "current_process s1 = p0" "queue s1 pcbFree_h = P_LIST p_grand # map P_LIST (drop 2 demo_rest)"
    "queue s1 blockedPrinterQueue = queue demo_start blockedPrinterQueue @ [P_LIST p_child]"
    "queue s1 (P_CHILD p0) = queue demo_start (P_CHILD p0) @ [P_SIB p_child]" "queue s1 (P_CHILD p_child) = []" "allocated s1 p_child"
    "queue s1 readyQueue = queue demo_start readyQueue" "pcbs s1 p_child = Some x2" "blockedOnDevice x2 = 6"
    "\<forall>r. r \<noteq> p_child \<longrightarrow> pcbs s1 r = pcbs demo_start r" "kept {pcbFree_h, blockedPrinterQueue, P_CHILD p0} demo_start s1"
    by (rule blocked_child [OF demo_reachable demo_start_main(3) fr a0])
  obtain s x3 where
    s: "reachable demo_code s" "current_process s = p0" "queue s pcbFree_h = map P_LIST (drop 2 demo_rest)"
    "queue s blockedPrinterQueue = queue s1 blockedPrinterQueue @ [P_LIST p_grand]"
    "queue s (P_CHILD p_child) = queue s1 (P_CHILD p_child) @ [P_SIB p_grand]" "queue s (P_CHILD p_grand) = []" "allocated s p_grand"
    "queue s readyQueue = queue s1 readyQueue" "pcbs s p_grand = Some x3" "blockedOnDevice x3 = 6"
    "\<forall>r. r \<noteq> p_grand \<longrightarrow> pcbs s r = pcbs s1 r" "kept {pcbFree_h, blockedPrinterQueue, P_CHILD p_child} s1 s"
    by (rule blocked_child [OF s1(1-3,7)])
  have pq: "queue s blockedPrinterQueue = [P_LIST p_child, P_LIST p_grand]" using s(4) s1(4) e(1) by simp
  obtain B where B: "kernel_inv s1 B" using reachable_nucleus_ok [OF s1(1)] by (auto simp: nucleus_ok_def)
  have "allocated s1 p0" using current_facts(1) [OF B] s1(2) by simp
  then have c: "queue s (P_CHILD p0) = [P_SIB p_child]" "queue s (P_CHILD p_child) = [P_SIB p_grand]"
    using s(5,12) s1(5,6) e(2) by (auto simp: kept_def live_head_def)
  have d3: "descendant s p_grand q \<longleftrightarrow> q = p_grand" for q by (rule descendant_childless [OF s(6)])
  have d2: "descendant s p_child q \<longleftrightarrow> q \<in> {p_child, p_grand}" for q using descendant_child [OF c(2)] d3 by simp
  have d0: "descendant s p0 q \<longleftrightarrow> q \<in> {p0, p_child, p_grand}" for q using descendant_child [OF c(1)] d2 by simp
  have x2: "pcbs s p_child = Some x2" "pcbs s p0 = pcbs demo_start p0" using s(11) s1(9,11) by simp_all
  have q6: "blockedPrinterQueue \<in> set (blocked_queues 6)" by (simp add: blocked_queues_def)
  have r2: "removable s p_child" "removable s p_grand" using x2(1) s1(10) s(9,10) pq by (auto simp: removable_def intro!: bexI [OF _ q6])
  obtain A where A: "kernel_inv s A" "proper A" using reachable_nucleus_ok [OF s(1)] by (rule nucleus_okE)
  have "\<not> linked s p0" using kernel_inv_current(2) [OF A(1)] linked_iff [OF A, of p0] s(2) by simp
  then have st: "stoppable s p0" using r2 d0 by (auto simp: stoppable_def removable_def)
  have "allocated s p_child" using x2(1) s(3) s1(3,7) by (auto simp: allocated_def)
  then have "stop_guard p_child s" using r2 d2 s(2) by (auto simp: stop_guard_def stoppable_def)
  then show ?thesis using s(8) s1(8) e(3) by (intro that [OF s(1,2) _ pq _ _ st _ x2(2)]) (simp_all add: d0 d2)
qed

text \<open>The child is terminated with the grandchild.\<close>

theorem terminate_kills_witness:
  "\<exists>s s'. reachable demo_code s \<and> queue s blockedPrinterQueue = [P_LIST p_child, P_LIST p_grand] \<and> terminateProcess p_child s = Some s' \<and>
     queue s' blockedPrinterQueue = [] \<and> (\<exists>ds. set ds = {p_child, p_grand} \<and> queue s' pcbFree_h = queue s pcbFree_h @ map P_LIST ds)"
proof -
  obtain s where s: "reachable demo_code s" "current_process s = p0" "queue s readyQueue = [P_LIST p1]"
    "queue s blockedPrinterQueue = [P_LIST p_child, P_LIST p_grand]" "\<forall>q. descendant s p0 q \<longleftrightarrow> q \<in> {p0, p_child, p_grand}"
    "\<forall>q. descendant s p_child q \<longleftrightarrow> q \<in> {p_child, p_grand}" "stoppable s p0" "stop_guard p_child s" "pcbs s p0 = pcbs demo_start p0"
    by (rule demo_three)
  from terminate_kills [OF reachable_nucleus_ok [OF s(1)] s(8)] obtain ds s' where
    k: "terminateProcess p_child s = Some s'" "killed p_child ds s s'" by blast
  have ds: "set ds = {p_child, p_grand}" using k(2) s(6) by (auto simp: killed_def)
  have "queue s' blockedPrinterQueue = filter (\<lambda>x. x \<notin> P_LIST ` set ds) [P_LIST p_child, P_LIST p_grand]"
    using k(2) s(4) by (simp add: killed_def blocked_heads_def)
  then have "queue s' blockedPrinterQueue = []" by (simp add: ds)
  then show ?thesis using s(1,4) k ds by (auto simp: killed_def)
qed

text \<open>The SSI, which has no support structure, executes an illegal instruction: the three processes are ended, and
  the fourth runs.\<close>

theorem exception_kills_witness:
  "\<exists>s ds s1 c s'. reachable demo_code s \<and> passUpOrDie GENERALEXCEPT s = Some (c, s') \<and> killed p0 ds s s1 \<and>
     set ds = {p0, p_child, p_grand} \<and> current_process s' = p1"
proof -
  obtain s where s: "reachable demo_code s" "current_process s = p0" "queue s readyQueue = [P_LIST p1]"
    "queue s blockedPrinterQueue = [P_LIST p_child, P_LIST p_grand]" "\<forall>q. descendant s p0 q \<longleftrightarrow> q \<in> {p0, p_child, p_grand}"
    "\<forall>q. descendant s p_child q \<longleftrightarrow> q \<in> {p_child, p_grand}" "stoppable s p0" "stop_guard p_child s" "pcbs s p0 = pcbs demo_start p0"
    by (rule demo_three)
  obtain x where x: "pcbs s (current_process s) = Some x" "p_supportStruct x = NULL" using demo_ssi_pcb(1) s(2,9) by auto
  have c: "current_process s \<noteq> NULL" "stoppable s (current_process s)" using s(2,7) by simp_all
  from exception_kills [OF reachable_nucleus_ok [OF s(1)] c(1) x c(2), of GENERALEXCEPT] obtain ds s1 c s' where
    k: "passUpOrDie GENERALEXCEPT s = Some (c, s')" "killed p0 ds s s1" "runs_next s1 c s'" using s(2) by auto
  have "set ds = {p0, p_child, p_grand}" using k(2) s(5) by (auto simp: killed_def)
  moreover have "queue s1 readyQueue = [P_LIST p1]" using k(2) s(3) by (simp add: killed_def)
  ultimately show ?thesis using s(1) k runs_next_current [OF k(3)] by blast
qed

end
