(* ===== verification/Irq_Props.thy ===== *)
theory Irq_Props
  imports Ssi_Props
begin

text \<open>
  Exceptions and interrupts over the state of the nucleus: which handler serves what, and what the
  handlers do to the processes.
\<close>

section \<open>Dispatch\<close>

text \<open>The exception code decides: interrupts, TLB exceptions (1 to 3) and program traps (4 to 7 and 9
  to 12) pass up, 8 is a system call; any other code is ignored and the handler returns.\<close>

theorem exceptions_routed:
  "exceptionHandler s = (case exc_target (unat (cp0_cause s) div 4 mod 32) of
     To_Interrupts \<Rightarrow> interruptHandler s | To_TLB \<Rightarrow> passUpOrDie PGFAULTEXCEPT s
   | To_Trap \<Rightarrow> passUpOrDie GENERALEXCEPT s | To_Syscall \<Rightarrow> syscallHandler s
   | To_Nothing \<Rightarrow> Some (RETURN, s))"
  using exception_dispatch [of s] by (simp add: exc_code_def)

text \<open>Of the pending interrupt lines the lowest numbered one from 1 to 7 is served, with the
  processor's local timer masked: line 1 by the time slice handler, line 2 by the interval timer handler, a
  line from 3 on by the device handler for that line.\<close>

theorem interrupts_prioritised:
  "interruptHandler s = (case find (\<lambda>n. bit (cause (exception_state s)) (8 + n)) [1, 2, 3, 4, 5, 6, 7] of
     None \<Rightarrow> Some (RETURN, masked s)
   | Some n \<Rightarrow> if n = 1 then PLTHandler (masked s) else if n = 2 then intervalTimerHandler (masked s)
       else deviceHandler (of_nat n) (masked s))"
proof -
  have "served s = find (\<lambda>n. bit (cause (exception_state s)) (8 + n)) [1, 2, 3, 4, 5, 6, 7]"
    unfolding served_def pending_def by (rule refl)
  then show ?thesis using interrupt_dispatch [of s] by (simp add: irq_handler_def)
qed

text \<open>Of several interrupting devices on a line the one with the highest number is served.\<close>

theorem device_highest_first:
  "getDeviceNo m = (case find (bit m) [7, 6, 5, 4, 3, 2, 1, 0] of None \<Rightarrow> - 1 | Some n \<Rightarrow> of_nat n)"
  by (rule getDeviceNo_highest)

text \<open>C33.  An exception of a process with a support structure is passed up: the saved state goes to the
  exception state area of the structure for that kind of exception, the context of the same kind is loaded, and
  no queue, process or message changes.\<close>

theorem exception_passed_up:
  assumes "pcbs s (current_process s) = Some x" "p_supportStruct x \<noteq> NULL" "supports s (p_supportStruct x) = Some u"
  shows "\<exists>s'. passUpOrDie k s = Some (LDCXT (stackPtr (sup_exceptContext u k)) (c_status (sup_exceptContext u k))
      (c_pc (sup_exceptContext u k)), s') \<and>
    s' = s\<lparr>supports := (supports s)(p_supportStruct x \<mapsto>
      u\<lparr>sup_exceptState := (sup_exceptState u)(k := exception_state s)\<rparr>)\<rparr>"
  using passUpOrDie_up [OF assms] by (simp add: passed_up_def)

text \<open>The running process is given a support structure.\<close>

definition demo_sup :: support_t where
  "demo_sup = \<lparr>sup_asid = 1, sup_exceptState = (\<lambda>_. zero_state),
     sup_exceptContext = (\<lambda>_. \<lparr>stackPtr = 0x2003F000, c_status = 0, c_pc = 0x20000700\<rparr>),
     sup_privatePgTbl = (\<lambda>_. \<lparr>pte_entryHI = 0, pte_entryLO = 0\<rparr>)\<rparr>"

definition demo_user :: sys where
  "demo_user = demo_start\<lparr>pcbs := (pcbs demo_start)(p0 \<mapsto> blank_pcb\<lparr>p_supportStruct := 0x20030800\<rparr>),
     supports := [0x20030800 \<mapsto> demo_sup]\<rparr>"

theorem exception_passed_up_witness:
  "\<exists>s'. passUpOrDie PGFAULTEXCEPT demo_user = Some (LDCXT 0x2003F000 0 0x20000700, s')"
proof -
  have "pcbs demo_user (current_process demo_user) = Some (blank_pcb\<lparr>p_supportStruct := 0x20030800\<rparr>)"
    by (simp add: demo_user_def demo_start_main(3))
  from exception_passed_up [OF this, of demo_sup PGFAULTEXCEPT] show ?thesis
    by (simp add: demo_user_def demo_sup_def)
qed

section \<open>The time slice\<close>

lemma time_slice_full:
  assumes ok: "nucleus_ok s" and x: "current_process s \<noteq> NULL" "pcbs s (current_process s) = Some x"
  shows "\<exists>t c s'. PLTHandler s = Some (c, s') \<and> nucleus_ok s' \<and> runs_next t c s' \<and>
    queue t readyQueue = queue s readyQueue @ [P_LIST (current_process s)] \<and> kept {readyQueue} s t \<and>
    pcbs t = (pcbs s)(current_process s \<mapsto> x\<lparr>p_time := p_time x + (clock s (clock_reads s) - startTOD s)\<rparr>) \<and>
    exception_state t = p_s x \<and> msgs t = msgs s"
proof -
  from ok obtain A where inv: "kernel_inv s A" and ac: "forest A" by (rule nucleus_okE)
  obtain rs where rs: "procs A readyQueue rs" "queue s readyQueue = map P_LIST rs"
    using procs_of [OF inv, of readyQueue] by auto
  let ?B = "A(readyQueue \<mapsto> map P_LIST (rs @ [current_process s]))"
  from PLTHandler_step [where A = A, OF inv rs(1) x] obtain h where
    h: "PLTHandler s = scheduler (preempted x s\<lparr>lh_mem := h, current_process := NULL\<rparr>)"
    "kernel_inv (preempted x s\<lparr>lh_mem := h, current_process := NULL\<rparr>) ?B" by blast
  let ?t = "preempted x s\<lparr>lh_mem := h, current_process := NULL\<rparr>"
  have "forest ?B" by (rule forest_upd [OF _ ac]) simp
  then have "nucleus_ok (?t\<lparr>current_process := NULL\<rparr>)" using h(2) by (auto simp: nucleus_ok_def)
  from scheduler_next [OF this] obtain c s' where
    "scheduler ?t = Some (c, s')" "runs_next ?t c s'" "nucleus_ok s'" by blast
  moreover have "queue ?t readyQueue = map P_LIST (rs @ [current_process s])" by (rule queue_eq [OF h(2)]) simp
  moreover have "kept {readyQueue} s ?t" by (rule keptI [OF inv h(2)]) simp
  moreover have "exception_state ?t = p_s x" "msgs ?t = msgs s" "pcbs ?t = (pcbs s)(current_process s \<mapsto>
      x\<lparr>p_time := p_time x + (clock s (clock_reads s) - startTOD s)\<rparr>)" by (simp_all add: preempted_def)
  ultimately show ?thesis using h(1) rs(2) by (intro exI [of _ ?t] exI [of _ c] exI [of _ s']) simp
qed

text \<open>C34.  At the end of a time slice the running process is charged its time and goes to the tail of the ready
  queue, and the scheduler runs.  The copy of the states goes the wrong way: the state in its PCB, not the
  one saved at the interrupt, is what it will resume from, and the saved one is overwritten.\<close>

theorem time_slice_ends:
  assumes ok: "nucleus_ok s" and x: "current_process s \<noteq> NULL" "pcbs s (current_process s) = Some x"
  shows "\<exists>t c s'. PLTHandler s = Some (c, s') \<and> nucleus_ok s' \<and> runs_next t c s' \<and>
    queue t readyQueue = queue s readyQueue @ [P_LIST (current_process s)] \<and> kept {readyQueue} s t \<and>
    pcbs t = (pcbs s)(current_process s \<mapsto> x\<lparr>p_time := p_time x + (clock s (clock_reads s) - startTOD s)\<rparr>) \<and>
    exception_state t = p_s x"
  using time_slice_full [OF assms] by blast

theorem time_slice_ends_witness:
  "\<exists>t c s'. PLTHandler demo_start = Some (c, s') \<and> queue t readyQueue = [P_LIST p1, P_LIST p0] \<and>
     runs_next t c s' \<and> current_process s' = p1"
proof -
  obtain x where "pcbs demo_start p0 = Some x" using demo_p1(3) by blast
  then have x: "pcbs demo_start (current_process demo_start) = Some x" "current_process demo_start \<noteq> NULL"
    by (simp_all add: demo_start_main(3))
  from time_slice_ends [OF demo_ok x(2,1)] obtain t c s' where
    t: "PLTHandler demo_start = Some (c, s')" "runs_next t c s'" "queue t readyQueue = [P_LIST p1, P_LIST p0]"
    by (auto simp: demo_queue demo_start_main(3))
  then show ?thesis using runs_next_current [OF t(2)] by auto
qed

section \<open>The interval timer\<close>

text \<open>Where \<^verbatim>\<open>exitInterruptHandler\<close> goes: back to the interrupted process, or to the scheduler.\<close>

definition unmasked :: "sys \<Rightarrow> sys" where
  "unmasked s = s\<lparr>cp0_status := cp0_status s OR TEBITON\<rparr>"

definition resumes :: "sys \<Rightarrow> control \<Rightarrow> sys \<Rightarrow> bool" where
  "resumes t c s' \<longleftrightarrow> (if current_process t = NULL then runs_next (unmasked t) c s'
     else c = LDST (exception_state t) \<and> s' = unmasked t)"

lemma exit_resumes:
  assumes "nucleus_ok t"
  shows "\<exists>c s'. exitInterruptHandler t = Some (c, s') \<and> resumes t c s' \<and> nucleus_ok s'"
proof -
  have ok: "nucleus_ok (unmasked t)"
    by (rule nucleus_ok_nondata [OF _ _ _ _ _ _ _ _ assms]) (simp_all add: unmasked_def)
  have e: "exitInterruptHandler t = (if current_process t \<noteq> NULL then Some (LDST (exception_state t), unmasked t)
      else scheduler (unmasked t))" by (simp add: exitInterruptHandler_def unmasked_def Let_def)
  show ?thesis using scheduler_next [OF nucleus_ok_idle [OF ok]] ok by (simp add: e resumes_def)
qed

lemma tick_wakes_full:
  assumes ok: "nucleus_ok s" and ps: "queue s pseudoClockQueue = map P_LIST ps"
    and ms: "queue s msgFree_h = map M_LIST ms" "length ps \<le> length ms"
  shows "\<exists>t c s'. intervalTimerHandler s = Some (c, s') \<and> nucleus_ok s' \<and> resumes t c s' \<and>
    queue t pseudoClockQueue = [] \<and> queue t readyQueue = queue s readyQueue @ map P_LIST ps \<and>
    queue t msgFree_h = map M_LIST (drop (length ps) ms) \<and>
    (\<forall>i < length ps. queue t (MSG_INBOX (ps ! i)) = queue s (MSG_INBOX (ps ! i)) @ [M_LIST (ms ! i)] \<and>
       msgs t (ms ! i) = Some \<lparr>m_sender = ssi_pcb s, m_payload = 0\<rparr>) \<and>
    kept ({pseudoClockQueue, readyQueue, msgFree_h} \<union> MSG_INBOX ` set ps) s t \<and> pcbs t = pcbs s \<and>
    interval_timer t = PSECOND \<and> current_process t = current_process s \<and> exception_state t = exception_state s \<and>
    (\<forall>m. m \<notin> set (take (length ps) ms) \<longrightarrow> msgs t m = msgs s m)"
proof -
  from ok obtain A where inv: "kernel_inv s A" and ac: "forest A" by (rule nucleus_okE)
  obtain rs where rs: "procs A readyQueue rs" "queue s readyQueue = map P_LIST rs"
    using procs_of [OF inv, of readyQueue] by auto
  have pq: "procs A pseudoClockQueue ps" by (rule procs_queue [OF inv]) (use ps in simp_all)
  have mq: "inbox A msgFree_h ms" by (rule msgs_queue [OF inv ms(1)])
  from intervalTimer_step [where A = A, OF inv pq mq rs(1) ms(2)] obtain t B where
    t: "intervalTimerHandler s = exitInterruptHandler t" "kernel_inv t B" "clock_woken A B ps ms rs"
    "clock_answers (LDIT PSECOND s) (take (length ps) ms) t" by blast
  note w = t(3) [unfolded clock_woken_def] and a = t(4) [unfolded clock_answers_def]
  have "forest B" by (rule forest_same [OF _ ac]) (use w in auto)
  then have ok': "nucleus_ok t" using t(2) by (auto simp: nucleus_ok_def)
  have dps: "distinct ps" using kernel_inv_procs(1) [OF inv _ pq] by simp
  have alive: "A (MSG_INBOX p) = Some (queue s (MSG_INBOX p))" "B (MSG_INBOX p) = Some (queue t (MSG_INBOX p))"
    if "allocated s p" for p
  proof -
    show "A (MSG_INBOX p) = Some (queue s (MSG_INBOX p))"
      by (rule live_head_queue [OF inv]) (use that in \<open>auto simp: live_head_def\<close>)
    have "queue t pcbFree_h = queue s pcbFree_h"
      using w global_queue [OF inv, of pcbFree_h] queue_eq [OF t(2), of pcbFree_h] by auto
    then have "allocated t p" using that a by (simp add: allocated_def LDIT_def)
    then show "B (MSG_INBOX p) = Some (queue t (MSG_INBOX p))"
      by (intro live_head_queue [OF t(2)]) (auto simp: live_head_def)
  qed
  have al: "allocated s p" if "p \<in> set ps" for p
    using blocked_alive(1) [OF inv _ _ pq that] kernel_inv_procs(2) [OF inv _ pq that] allocated_iff [OF inv] by simp
  have inb: "queue t (MSG_INBOX p) = queue s (MSG_INBOX p) @
      (case map_of (zip ps ms) p of None \<Rightarrow> [] | Some m \<Rightarrow> [M_LIST m])" if "allocated s p" for p
  proof -
    have "queue_of B (MSG_INBOX p) = queue_of A (MSG_INBOX p) @
        (case map_of (zip ps ms) p of None \<Rightarrow> [] | Some m \<Rightarrow> [M_LIST m])" using w by blast
    then show ?thesis using alive [OF that] by (simp add: queue_of_def)
  qed
  have "\<forall>i < length ps. queue t (MSG_INBOX (ps ! i)) = queue s (MSG_INBOX (ps ! i)) @ [M_LIST (ms ! i)] \<and>
      msgs t (ms ! i) = Some \<lparr>m_sender = ssi_pcb s, m_payload = 0\<rparr>"
  proof (intro allI impI)
    fix i assume i: "i < length ps"
    have "map_of (zip ps ms) (ps ! i) = Some (ms ! i)"
    proof (rule map_of_is_SomeI)
      show "distinct (map fst (zip ps ms))" using dps by (simp add: map_fst_zip_take)
      show "(ps ! i, ms ! i) \<in> set (zip ps ms)" using i ms(2) by (force simp: set_zip)
    qed
    moreover have "ms ! i \<in> set (take (length ps) ms)" using i ms(2) by (auto simp: in_set_conv_nth)
    ultimately show "queue t (MSG_INBOX (ps ! i)) = queue s (MSG_INBOX (ps ! i)) @ [M_LIST (ms ! i)] \<and>
      msgs t (ms ! i) = Some \<lparr>m_sender = ssi_pcb s, m_payload = 0\<rparr>" using inb [OF al] i a by (simp add: LDIT_def)
  qed
  moreover have "kept ({pseudoClockQueue, readyQueue, msgFree_h} \<union> MSG_INBOX ` set ps) s t"
    unfolding kept_def
  proof (intro allI impI)
    fix q assume q: "live_head s q" "q \<notin> {pseudoClockQueue, readyQueue, msgFree_h} \<union> MSG_INBOX ` set ps"
    show "queue t q = queue s q"
    proof (cases "q \<in> range MSG_INBOX")
      case True
      then obtain p where p: "q = MSG_INBOX p" by blast
      then have "allocated s p" using q(1) by (auto simp: live_head_def proc_heads_def blocked_heads_def)
      moreover have "map_of (zip ps ms) p = None" using p q(2) by (auto simp: map_of_eq_None_iff dest: set_zip_leftD)
      ultimately show ?thesis using inb p by simp
    next
      case False
      then have "B q = A q" using w q(2) by blast
      then show ?thesis using live_head_queue [OF inv q(1)] queue_eq [OF t(2)] by simp
    qed
  qed
  moreover have wb: "procs B pseudoClockQueue []" "procs B readyQueue (rs @ ps)"
    "inbox B msgFree_h (drop (length ps) ms)" using t(3) by (simp_all add: clock_woken_def)
  have "queue t pseudoClockQueue = []" "queue t readyQueue = queue s readyQueue @ map P_LIST ps"
    "queue t msgFree_h = map M_LIST (drop (length ps) ms)"
    using queue_eq [OF t(2) wb(1)] queue_eq [OF t(2) wb(2)] queue_eq [OF t(2) wb(3)] rs(2) by simp_all
  moreover have "pcbs t = pcbs s" "interval_timer t = PSECOND" "current_process t = current_process s"
    "exception_state t = exception_state s" "\<forall>m. m \<notin> set (take (length ps) ms) \<longrightarrow> msgs t m = msgs s m"
    using a by (simp_all add: LDIT_def)
  moreover obtain c s' where "intervalTimerHandler s = Some (c, s')" "resumes t c s'" "nucleus_ok s'"
    using exit_resumes [OF ok'] t(1) by auto
  ultimately show ?thesis by (intro exI [of _ t] exI [of _ c] exI [of _ s'] conjI) assumption+
qed

text \<open>C27.  A tick of the interval timer wakes every process that waits for it, in the order in which they
  came: each gets one message from the SSI with payload 0, all go to the tail of the ready queue, and the
  timer is loaded for the next tick.  The interrupted process goes on.\<close>

theorem tick_wakes_all:
  assumes ok: "nucleus_ok s" and ps: "queue s pseudoClockQueue = map P_LIST ps"
    and ms: "queue s msgFree_h = map M_LIST ms" "length ps \<le> length ms"
  shows "\<exists>t c s'. intervalTimerHandler s = Some (c, s') \<and> nucleus_ok s' \<and> resumes t c s' \<and>
    queue t pseudoClockQueue = [] \<and> queue t readyQueue = queue s readyQueue @ map P_LIST ps \<and>
    queue t msgFree_h = map M_LIST (drop (length ps) ms) \<and>
    (\<forall>i < length ps. queue t (MSG_INBOX (ps ! i)) = queue s (MSG_INBOX (ps ! i)) @ [M_LIST (ms ! i)] \<and>
       msgs t (ms ! i) = Some \<lparr>m_sender = ssi_pcb s, m_payload = 0\<rparr>) \<and>
    kept ({pseudoClockQueue, readyQueue, msgFree_h} \<union> MSG_INBOX ` set ps) s t \<and> pcbs t = pcbs s \<and>
    interval_timer t = PSECOND \<and> current_process t = current_process s \<and> exception_state t = exception_state s"
  using tick_wakes_full [OF assms] by blast

text \<open>The SSI waits for the clock when the timer ticks.\<close>

theorem tick_wakes_all_witness:
  "\<exists>c0 s0 s t c s'. recv ANYMESSAGE 0 demo_start = Some (c0, s0) \<and> wait4Clock p0 s0 = Some s \<and>
     intervalTimerHandler s = Some (c, s') \<and> resumes t c s' \<and> queue t readyQueue = [P_LIST p0] \<and>
     queue t (MSG_INBOX p0) = [M_LIST 0x20020310]"
proof -
  obtain c0 s0 where s0: "recv ANYMESSAGE 0 demo_start = Some (c0, s0)" "nucleus_ok s0" "current_process s0 = p1"
    "queue s0 readyQueue = []" "\<not> linked s0 p0" "allocated s0 p0" "queue s0 (MSG_INBOX p0) = []"
    "queue s0 msgFree_h = queue demo_start msgFree_h" "allocated s0 p1" "queue s0 pseudoClockQueue = []"
    by (rule demo_listening)
  have "clockwait_guard p0 s0" using s0(3,5,6) by (simp add: clockwait_guard_def allocated_def)
  from clock_wait_blocks_full [OF s0(2) this] s0(10) obtain s where
    s: "wait4Clock p0 s0 = Some s" "nucleus_ok s" "queue s pseudoClockQueue = map P_LIST [p0]"
    "kept {pseudoClockQueue} s0 s" by auto
  have q: "queue s readyQueue = []" "queue s (MSG_INBOX p0) = []"
    "queue s msgFree_h = map M_LIST (0x20020310 # tl (rev demo_msgs))"
    using s(4) s0(4,6,7,8) demo_msgs_free by (simp_all add: kept_def live_head_def)
  show ?thesis using tick_wakes_all [OF s(2,3) q(3)] q(1,2) s0(1) s(1) by auto
qed

section \<open>Devices\<close>

lemma device_wakes_full:
  assumes ok: "nucleus_ok s" and l: "l \<in> set io_lines" and d: "d = getDeviceNo (getDeviceBitmap l s)"
    and t: "irq_target l d s = Some (q, st, cmd)" and ps: "queue s q = map P_LIST ps"
    and p: "find (\<lambda>p. blockedOnDevice (the (pcbs s p)) = d) ps = Some p" "pcbs s p = Some x"
    and ms: "queue s msgFree_h = M_LIST m # ms"
  shows "\<exists>t c s'. deviceHandler l s = Some (c, s') \<and> nucleus_ok s' \<and> resumes t c s' \<and>
    queue t q = remove1 (P_LIST p) (queue s q) \<and> queue t readyQueue = queue s readyQueue @ [P_LIST p] \<and>
    queue t (MSG_INBOX p) = queue s (MSG_INBOX p) @ [M_LIST m] \<and> queue t msgFree_h = ms \<and>
    kept {q, readyQueue, MSG_INBOX p, msgFree_h} s t \<and>
    msgs t = (msgs s)(m \<mapsto> \<lparr>m_sender = ssi_pcb s, m_payload = mem s st\<rparr>) \<and>
    pcbs t = (pcbs s)(p \<mapsto> x\<lparr>p_s := (p_s x)\<lparr>gpr := (gpr (p_s x))(reg_v0 := mem s st)\<rparr>\<rparr>) \<and>
    mem t = (mem s)(cmd := ACK) \<and> t = s\<lparr>lh_mem := lh_mem t, pcbs := pcbs t, msgs := msgs t, mem := mem t,
      softBlockCount := softBlockCount s - 1\<rparr>"
proof -
  from ok obtain A where inv: "kernel_inv s A" and ac: "forest A" by (rule nucleus_okE)
  have q: "q \<in> set proc_heads" "q \<noteq> pcbFree_h" "q \<noteq> readyQueue"
    using device_ack_unlock(1,2) [OF l t] by (auto simp: proc_heads_def blocked_heads_def)
  have pq: "procs A q ps" by (rule procs_queue [OF inv q(1) ps])
  obtain rs where rs: "procs A readyQueue rs" "queue s readyQueue = map P_LIST rs"
    using procs_of [OF inv, of readyQueue] by auto
  obtain fs where fs: "inbox A msgFree_h fs" "queue s msgFree_h = map M_LIST fs" by (rule messages_of [OF inv])
  then obtain ms' where f: "inbox A msgFree_h (m # ms')" "ms = map M_LIST ms'" using ms by (cases fs) auto
  have pm: "p \<in> set ps" using find_Some_split [OF p(1)] by simp
  have "allocated s p" using blocked_alive(1) [OF inv q(1,2) pq pm] p(2) allocated_iff [OF inv] by simp
  then obtain inb where inb: "inbox A (MSG_INBOX p) inb" "queue s (MSG_INBOX p) = map M_LIST inb"
    using inbox_of [OF inv] by metis
  let ?B = "delivered_queues (A(q \<mapsto> map P_LIST (remove1 p ps))) m ms' inb p rs"
  from deviceHandler_wakes [where A = A, OF inv l d t pq p f(1) inb(1) rs(1)] obtain t where
    t: "deviceHandler l s = exitInterruptHandler t" "kernel_inv t ?B" "pcbs t = (pcbs s)(p \<mapsto> with_v0 (mem s st) x)"
    "msgs t = (msgs s)(m \<mapsto> \<lparr>m_sender = ssi_pcb s, m_payload = mem s st\<rparr>)"
    "t = s\<lparr>lh_mem := lh_mem t, pcbs := pcbs t, msgs := msgs t, softBlockCount := softBlockCount s - 1, mem := (mem s)(cmd := ACK)\<rparr>"
    by blast
  have "forest ?B"
    by (rule forest_same [OF _ ac]) (use q in \<open>auto simp: delivered_queues_def proc_heads_def blocked_heads_def\<close>)
  then have ok': "nucleus_ok t" using t(2) by (auto simp: nucleus_ok_def)
  have ne: "q \<noteq> msgFree_h" "q \<noteq> MSG_INBOX p" using q(1) by (auto simp: proc_heads_def blocked_heads_def)
  have "queue t q = map P_LIST (remove1 p ps)" "queue t readyQueue = map P_LIST (rs @ [p])"
    "queue t (MSG_INBOX p) = map M_LIST (inb @ [m])" "queue t msgFree_h = map M_LIST ms'"
    by (rule queue_eq [OF t(2)], use q(3) ne in \<open>simp add: delivered_queues_def\<close>)+
  then have "queue t q = remove1 (P_LIST p) (queue s q)" "queue t readyQueue = queue s readyQueue @ [P_LIST p]"
    "queue t (MSG_INBOX p) = queue s (MSG_INBOX p) @ [M_LIST m]" "queue t msgFree_h = ms"
    using ps rs(2) inb(2) f(2) by (simp_all add: map_injection_remove1 [OF inj_P_LIST])
  moreover have "kept {q, readyQueue, MSG_INBOX p, msgFree_h} s t"
    by (rule keptI [OF inv t(2)]) (simp add: delivered_queues_def)
  moreover have "mem t = (mem s)(cmd := ACK)" by (subst t(5)) simp
  moreover have "t = s\<lparr>lh_mem := lh_mem t, pcbs := pcbs t, msgs := msgs t, mem := mem t, softBlockCount := softBlockCount s - 1\<rparr>"
    by (subst t(5)) (simp add: \<open>mem t = (mem s)(cmd := ACK)\<close>)
  moreover note t(4) t(3) [unfolded with_v0_def]
  moreover obtain c s' where "deviceHandler l s = Some (c, s')" "resumes t c s'" "nucleus_ok s'"
    using exit_resumes [OF ok'] t(1) by auto
  ultimately show ?thesis by (intro exI [of _ t] exI [of _ c] exI [of _ s'] conjI) assumption+
qed

text \<open>C26.  A device interrupt wakes the first process that waits for that device on its line: it gets one message
  from the SSI whose payload is the status the device reported, the same word in its register v0, leaves the
  device queue for the tail of the ready queue, and the device is acknowledged: \<^verbatim>\<open>ACK\<close> is the only word
  of memory written, at the command register of the device.  One process less is counted as blocked, and
  nothing else changes before the interrupted process goes on or the scheduler runs.\<close>

theorem device_wakes:
  assumes ok: "nucleus_ok s" and l: "l \<in> set io_lines" and d: "d = getDeviceNo (getDeviceBitmap l s)"
    and t: "irq_target l d s = Some (q, st, cmd)" and ps: "queue s q = map P_LIST ps"
    and p: "find (\<lambda>p. blockedOnDevice (the (pcbs s p)) = d) ps = Some p" "pcbs s p = Some x"
    and ms: "queue s msgFree_h = M_LIST m # ms"
  shows "\<exists>t c s'. deviceHandler l s = Some (c, s') \<and> nucleus_ok s' \<and> resumes t c s' \<and>
    queue t q = remove1 (P_LIST p) (queue s q) \<and> queue t readyQueue = queue s readyQueue @ [P_LIST p] \<and>
    queue t (MSG_INBOX p) = queue s (MSG_INBOX p) @ [M_LIST m] \<and> queue t msgFree_h = ms \<and>
    kept {q, readyQueue, MSG_INBOX p, msgFree_h} s t \<and>
    msgs t = (msgs s)(m \<mapsto> \<lparr>m_sender = ssi_pcb s, m_payload = mem s st\<rparr>) \<and>
    pcbs t = (pcbs s)(p \<mapsto> x\<lparr>p_s := (p_s x)\<lparr>gpr := (gpr (p_s x))(reg_v0 := mem s st)\<rparr>\<rparr>) \<and>
    mem t = (mem s)(cmd := ACK) \<and> t = s\<lparr>lh_mem := lh_mem t, pcbs := pcbs t, msgs := msgs t, mem := mem t,
      softBlockCount := softBlockCount s - 1\<rparr>"
  by (rule device_wakes_full [OF assms])

text \<open>The test process writes to printer 2, and printer 2 interrupts.\<close>

theorem device_wakes_witness:
  "\<exists>s1 t c s'. doio 0x20030400 p1 demo_io = Some s1 \<and>
     deviceHandler IL_PRINTER (s1\<lparr>interrupt_dev := (\<lambda>_. 4)\<rparr>) = Some (c, s') \<and> resumes t c s' \<and>
     queue t blockedPrinterQueue = [] \<and> queue t readyQueue = [P_LIST p1] \<and>
     queue t (MSG_INBOX p1) = [M_LIST 0x20020310] \<and>
     mem s1 (DEV_REG_ADDR IL_PRINTER 2 + dtp_command) = 2 \<and> mem t (DEV_REG_ADDR IL_PRINTER 2 + dtp_command) = ACK"
proof -
  obtain x where x: "pcbs demo_io p1 = Some x" using demo_p1(2) demo_io_facts(6) by auto
  have e: "queue demo_start blockedPrinterQueue = []" by (rule demo_queue) (simp add: blocked_heads_def)
  from doio_blocks_full [OF demo_io_facts(1) _ _ x demo_io_facts(4,5)] obtain s1 where
    s1: "doio 0x20030400 p1 demo_io = Some s1" "nucleus_ok s1" "queue s1 blockedPrinterQueue = [P_LIST p1]"
    "queue s1 readyQueue = []" "kept {blockedPrinterQueue, readyQueue} demo_io s1"
    "pcbs s1 = (pcbs demo_io)(p1 \<mapsto> x\<lparr>blockedOnDevice := 2\<rparr>)" "mem s1 (DEV_REG_ADDR IL_PRINTER 2 + dtp_command) = 2"
    using demo_io_facts(2,3,7) e by (auto simp: demo_queue)
  let ?s = "s1\<lparr>interrupt_dev := (\<lambda>_. 4)\<rparr>"
  have ok: "nucleus_ok ?s" by (rule nucleus_ok_nondata [OF _ _ _ _ _ _ _ _ s1(2)]) simp_all
  have q: "queue ?s = queue s1" by (rule queue_cong) simp
  have d: "2 = getDeviceNo (getDeviceBitmap IL_PRINTER ?s)" by (simp add: getDeviceBitmap_def getDeviceNo_def)
  have l: "IL_PRINTER \<in> set io_lines" by (simp add: io_lines_def)
  have t: "irq_target IL_PRINTER 2 ?s =
      Some (blockedPrinterQueue, DEV_REG_ADDR IL_PRINTER 2 + dtp_status, DEV_REG_ADDR IL_PRINTER 2 + dtp_command)"
    by (simp add: irq_target_def Let_def line_queue_def)
  have al: "allocated demo_io p1"
    using demo_p1_allocated demo_io_facts(2,6) by (simp add: allocated_def)
  have k: "queue s1 msgFree_h = M_LIST 0x20020310 # map M_LIST (tl (rev demo_msgs))" "queue s1 (MSG_INBOX p1) = []"
    using s1(5) demo_msgs_free al by (simp_all add: kept_def live_head_def demo_io_facts(2) demo_queue)
  have f: "find (\<lambda>p. blockedOnDevice (the (pcbs ?s p)) = 2) [p1] = Some p1" "pcbs ?s p1 = Some (x\<lparr>blockedOnDevice := 2\<rparr>)"
    using s1(6) by simp_all
  have "queue ?s blockedPrinterQueue = map P_LIST [p1]" "queue ?s msgFree_h = M_LIST 0x20020310 # map M_LIST (tl (rev demo_msgs))"
    using s1(3) k(1) by (simp_all add: q)
  from device_wakes [OF ok l d t this(1) f this(2)] show ?thesis
    using s1(1,3,4,7) k unfolding q by fastforce
qed

text \<open>A terminal interrupt with neither a received nor a transmitted character has no defined
  outcome: the handler reads a local variable it has not set.\<close>

theorem terminal_interrupt_undefined:
  assumes "d = getDeviceNo (getDeviceBitmap IL_TERMINAL s)"
    and "mem s (DEV_REG_ADDR IL_TERMINAL d + recv_status) AND 0xFF \<noteq> CHARRECV"
    and "mem s (DEV_REG_ADDR IL_TERMINAL d + transm_status) AND 0xFF \<noteq> OKCHARTRANS"
  shows "deviceHandler IL_TERMINAL s = None"
  by (rule deviceHandler_undefined [OF _ assms(1)]) (use assms(2,3) in \<open>simp add: irq_target_def Let_def\<close>)

theorem terminal_interrupt_undefined_witness:
  "deviceHandler IL_TERMINAL (demo_image\<lparr>interrupt_dev := (\<lambda>_. 1), mem := (\<lambda>_. 1)\<rparr>) = None"
  by (rule terminal_interrupt_undefined [OF refl]) simp_all

end
