(* ===== verification/Phase1_Props.thy ===== *)
theory Phase1_Props
  imports Irq_Props
begin

text \<open>
  The queues and tables of phase 1 on their own: order, search and selection.
\<close>

text \<open>C36.  Process queues are first in, first out: processes inserted behind \<open>xs\<close> come out after them, in the
  order in which they were inserted.\<close>

theorem process_queues_fifo:
  assumes "proc_rep s q xs" "\<forall>p \<in> set ps. pcb_ok s p" "distinct (xs @ ps)"
  shows "\<exists>s' s''. enq_all insertProcQ q ps s = Some s' \<and>
    deq_upto (\<lambda>q s. opt_ptr (removeProcQ q s)) q (Suc (length (xs @ ps))) s' = Some (xs @ ps, s'')"
  by (rule procq.fifo_order [OF assms])

text \<open>The ready queue of the demo state, emptied by a dispatch, and the SSI and test processes.\<close>

lemma demo_ready_rep: "proc_rep demo_start readyQueue [p1]"
proof -
  have "dlist (lh_mem demo_start) readyQueue [P_LIST p1]"
    using represents_dlist [OF kernel_invD(1) [OF demo_start_main(2)] demo_queues_at(1)] .
  then show ?thesis using demo_p1(2) by (simp add: proc_rep_def pcb_ok_def)
qed

theorem process_queues_fifo_witness:
  "\<exists>s' s''. insertProcQ readyQueue p0 demo_start = Some s' \<and>
    deq_upto (\<lambda>q s. opt_ptr (removeProcQ q s)) readyQueue 3 s' = Some ([p1, p0], s'')"
  using process_queues_fifo [OF demo_ready_rep, of "[p0]"] demo_p1(3)
  by (auto simp: pcb_ok_def numeral_3_eq_3 simp del: deq_upto.simps split: bind_splits)

text \<open>\<^verbatim>\<open>searchProcQ\<close> finds exactly the processes of a queue: the counter that stops it
  after 52 nodes never cuts a search short.\<close>

theorem search_finds_members:
  assumes ok: "nucleus_ok s" and q: "q \<in> set proc_heads"
  shows "searchProcQ p q s \<longleftrightarrow> P_LIST p \<in> set (queue s q)"
proof -
  from ok obtain A where inv: "kernel_inv s A" by (auto simp: nucleus_ok_def)
  obtain ps where ps: "procs A q ps" "queue s q = map P_LIST ps" by (rule procs_of [OF inv q])
  have "searchProcQ p q s \<longleftrightarrow> p \<in> set ps"
    by (rule searchProcQ_represents [OF kernel_invD(1) [OF inv] q ps(1) kernel_invD(2) [OF inv]])
  then show ?thesis using ps(2) by auto
qed

theorem search_finds_members_witness:
  "searchProcQ p1 readyQueue demo_start \<and> \<not> searchProcQ p0 readyQueue demo_start"
  using search_finds_members [OF demo_ok heads_in(1), of p1] search_finds_members [OF demo_ok heads_in(1), of p0]
  by (simp add: demo_queue)

text \<open>\<^verbatim>\<open>popMessage\<close> with a sender takes the first message whose sender has that process's
  pid out of the inbox and leaves the order of the others; it finds nothing exactly when there is
  none.\<close>

theorem pop_selects_sender:
  assumes ok: "nucleus_ok s" and al: "allocated s r" and q: "queue s (MSG_INBOX r) = map M_LIST ms"
    and p: "pcbs s p = Some x" "p \<noteq> NULL" and snd: "senders_ok s ms"
  shows "popMessage (MSG_INBOX r) p s =
    (case find (\<lambda>m. map_option p_pid (pcbs s (m_sender (the (msgs s m)))) = Some (p_pid x)) ms of
       None \<Rightarrow> Some (NULL, s)
     | Some m \<Rightarrow> Some (m, s\<lparr>lh_mem := list_del (M_LIST m) (lh_mem s)\<rparr>)) \<and>
    (\<forall>m \<in> set ms. dlist (list_del (M_LIST m) (lh_mem s)) (MSG_INBOX r) (map M_LIST (remove1 m ms)))"
proof -
  from ok obtain A where inv: "kernel_inv s A" by (auto simp: nucleus_ok_def)
  have ib: "inbox A (MSG_INBOX r) ms" by (rule inbox_queue [OF inv al q])
  note rep = kernel_invD(1) [OF inv]
  have v: "\<exists>y z. msgs s m = Some y \<and> pcbs s (m_sender y) = Some z" if "m \<in> set ms" for m
    using represents_node [OF rep ib, of "M_LIST m"] that snd by (force simp: senders_ok_def)
  have "find (from_pid s (p_pid x)) ms =
      find (\<lambda>m. map_option p_pid (pcbs s (m_sender (the (msgs s m)))) = Some (p_pid x)) ms"
    by (rule find_cong_set) (use v in \<open>force simp: from_pid_def\<close>)
  then have "popMessage (MSG_INBOX r) p s =
    (case find (\<lambda>m. map_option p_pid (pcbs s (m_sender (the (msgs s m)))) = Some (p_pid x)) ms of
       None \<Rightarrow> Some (NULL, s) | Some m \<Rightarrow> Some (m, s\<lparr>lh_mem := list_del (M_LIST m) (lh_mem s)\<rparr>))"
    using popMessage_from [OF rep _ ib p snd] by simp
  moreover have "dlist (list_del (M_LIST m) (lh_mem s)) (MSG_INBOX r) (map M_LIST (remove1 m ms))" if "m \<in> set ms" for m
    using represents_dlist [OF pop_step(1) [OF rep _ ib that]] by simp
  ultimately show ?thesis by blast
qed

theorem pop_selects_sender_witness:
  "\<exists>s. send p0 p0 77 demo_start = Some (0, s) \<and> (\<exists>t. popMessage (MSG_INBOX p0) p0 s = Some (0x20020310, t)) \<and>
     popMessage (MSG_INBOX p0) p1 s = Some (NULL, s)"
proof -
  obtain s where s: "send p0 p0 77 demo_start = Some (0, s)" "nucleus_ok s" "current_process s = p0"
    "queue s (MSG_INBOX p0) = [M_LIST 0x20020310]" "recv_guard ANYMESSAGE s"
    "msgs s 0x20020310 = Some \<lparr>m_sender = p0, m_payload = 77\<rparr>" "pcbs s = pcbs demo_start" "allocated s p0"
    by (rule demo_mail)
  obtain x y where xy: "pcbs s p0 = Some x" "p_pid x = 1" "pcbs s p1 = Some y" "p_pid y = 2"
    using demo_ssi_pcb unfolding s(7) by blast
  have q: "queue s (MSG_INBOX p0) = map M_LIST [0x20020310]" using s(4) by simp
  have so: "senders_ok s [0x20020310]" using s(6) xy(1) by (simp add: senders_ok_def)
  show ?thesis
    using s(1,6) xy pop_selects_sender [OF s(2,8) q xy(1) _ so] pop_selects_sender [OF s(2,8) q xy(3) _ so] by auto
qed

end
