(* ===== verification/Klog.thy ===== *)
theory Klog
  imports Prelude
begin

text \<open>
  \<^verbatim>\<open>src/klog.c\<close>: the circular log buffer of 64 lines of 42 characters.  A store into the
  buffer is checked against its bounds (\<open>None\<close> outside), so that the absence of an overrun is a
  theorem.  The buffer is also read as one ring of 64 * 42 cells, in which printing is appending.
\<close>

section \<open>The buffer\<close>

abbreviation (input) KLOG_LINES :: nat where "KLOG_LINES \<equiv> 64"
abbreviation (input) KLOG_LINE_SIZE :: nat where "KLOG_LINE_SIZE \<equiv> 42"

record klog =
  klog_line_index :: u32
  klog_char_index :: u32
  klog_buffer :: "char list list"

definition klog_init :: klog where
  "klog_init = \<lparr>klog_line_index = 0, klog_char_index = 0,
     klog_buffer = replicate KLOG_LINES (replicate KLOG_LINE_SIZE (CHR 0x00))\<rparr>"

definition klog_store :: "u32 \<Rightarrow> u32 \<Rightarrow> char \<Rightarrow> klog \<Rightarrow> klog option" where
  "klog_store i j c k = (let b = klog_buffer k in
     if unat i < length b \<and> unat j < length (b ! unat i)
     then Some (k\<lparr>klog_buffer := b[unat i := (b ! unat i)[unat j := c]]\<rparr>) else None)"

text \<open>The loop that writes blanks from column \<open>i\<close> on.\<close>

function blank_line :: "u32 \<Rightarrow> klog \<Rightarrow> klog option" where
  "blank_line i k = (if i < 42 then do { k1 \<leftarrow> klog_store (klog_line_index k) i (CHR '' '') k; blank_line (i + 1) k1 }
     else Some k)"
  by pat_completeness auto
termination
  by (relation "measure (\<lambda>(i, k). 42 - unat i)") (auto simp: word_less_nat_alt unat_word_ariths)

definition next_line :: "klog \<Rightarrow> klog option" where
  "next_line k = blank_line 0 (k\<lparr>klog_line_index := (klog_line_index k + 1) mod 64, klog_char_index := 0\<rparr>)"

definition next_char :: "klog \<Rightarrow> klog option" where
  "next_char k = (let k1 = k\<lparr>klog_char_index := klog_char_index k + 1\<rparr> in
     if klog_char_index k1 \<ge> 42 then next_line (k1\<lparr>klog_char_index := 0\<rparr>) else Some k1)"

section \<open>Printing\<close>

text \<open>\<^verbatim>\<open>klog_buffer[klog_line_index][klog_char_index] = c; next_char();\<close>\<close>

definition klog_put :: "char \<Rightarrow> klog \<Rightarrow> klog option" where
  "klog_put c k = do { k1 \<leftarrow> klog_store (klog_line_index k) (klog_char_index k) c k; next_char k1 }"

text \<open>The argument is the string up to its terminator.\<close>

primrec klog_print :: "string \<Rightarrow> klog \<Rightarrow> klog option" where
  "klog_print [] k = Some k"
| "klog_print (c # str) k = do {
     k1 \<leftarrow> (if c = CHR 0x0A then next_line k else klog_put c k);
     klog_print str k1
   }"

definition dec_digit :: "u32 \<Rightarrow> char" where
  "dec_digit n = ''0123456789'' ! unat n"

definition hex_digit :: "u32 \<Rightarrow> char" where
  "hex_digit n = ''0123456789ABCDEF'' ! unat n"

lemma word_div_less: "(1 :: u32) < d \<Longrightarrow> num div d > 0 \<Longrightarrow> unat (num div d) < unat num"
  by (auto simp: word_less_nat_alt unat_div intro!: div_less_dividend gr0I)

text \<open>The two \<^verbatim>\<open>do ... while (num > 0)\<close> loops.\<close>

function dec_loop :: "u32 \<Rightarrow> klog \<Rightarrow> klog option" where
  "dec_loop num k = do {
     k1 \<leftarrow> klog_put (dec_digit (num mod 10)) k;
     if num div 10 > 0 then dec_loop (num div 10) k1 else Some k1
   }"
  by pat_completeness auto
termination
  by (relation "measure (\<lambda>(num, k). unat num)") (auto intro: word_div_less)

definition klog_print_dec :: "u32 \<Rightarrow> klog \<Rightarrow> klog option" where
  "klog_print_dec num k =
     (if num < 10 then dec_loop num k
      else let buff = num mod 10; num = num div 10 in do {
        k1 \<leftarrow> klog_put (dec_digit (num mod 10)) k;
        klog_put (dec_digit buff) k1
      })"

function klog_print_hex :: "u32 \<Rightarrow> klog \<Rightarrow> klog option" where
  "klog_print_hex num k = do {
     k1 \<leftarrow> klog_put (hex_digit (num mod 16)) k;
     if num div 16 > 0 then klog_print_hex (num div 16) k1 else Some k1
   }"
  by pat_completeness auto
termination
  by (relation "measure (\<lambda>(num, k). unat num)") (auto intro: word_div_less)

declare blank_line.simps [simp del] dec_loop.simps [simp del] klog_print_hex.simps [simp del]

section \<open>No store outside the buffer\<close>

definition klog_ok :: "klog \<Rightarrow> bool" where
  "klog_ok k \<longleftrightarrow> klog_line_index k < 64 \<and> klog_char_index k < 42 \<and>
     length (klog_buffer k) = KLOG_LINES \<and> (\<forall>l \<in> set (klog_buffer k). length l = KLOG_LINE_SIZE)"

text \<open>The ring: cell \<open>n\<close> is column \<open>n mod 42\<close> of line \<open>n div 42 mod 64\<close>; \<open>cursor\<close> is the number of the
  cell the next character goes to.\<close>

definition cell :: "klog \<Rightarrow> nat \<Rightarrow> char" where
  "cell k n = klog_buffer k ! (n div 42 mod 64) ! (n mod 42)"

definition cursor :: "klog \<Rightarrow> nat" where
  "cursor k = unat (klog_line_index k) * 42 + unat (klog_char_index k)"

lemma klog_okD:
  assumes "klog_ok k"
  shows "unat (klog_line_index k) < 64" "unat (klog_char_index k) < 42" "length (klog_buffer k) = 64"
    "i < 64 \<Longrightarrow> length (klog_buffer k ! i) = 42"
  using assms by (auto simp: klog_ok_def word_less_nat_alt)

lemma klog_store_ok:
  assumes "klog_line_index k < 64" "length (klog_buffer k) = 64" "\<forall>l \<in> set (klog_buffer k). length l = 42" "j < 42"
  shows "klog_store (klog_line_index k) j c k = Some (k\<lparr>klog_buffer := (klog_buffer k)
     [unat (klog_line_index k) := (klog_buffer k ! unat (klog_line_index k))[unat j := c]]\<rparr>)"
  using assms by (simp add: klog_store_def Let_def word_less_nat_alt)

lemma take_drop_blank:
  assumes "length xs = 42" "i < 42"
  shows "take (Suc i) (xs[i := c]) = take i xs @ [c]"
  using assms by (simp add: take_Suc_conv_app_nth)

lemma blank_line_effect:
  assumes "klog_line_index k < 64" "length (klog_buffer k) = 64" "\<forall>l \<in> set (klog_buffer k). length l = 42" "unat i \<le> 42"
  shows "blank_line i k = Some (k\<lparr>klog_buffer := (klog_buffer k)[unat (klog_line_index k) :=
     take (unat i) (klog_buffer k ! unat (klog_line_index k)) @ replicate (42 - unat i) (CHR '' '')]\<rparr>)"
  using assms
proof (induction i k rule: blank_line.induct)
  case (1 i k)
  let ?l = "unat (klog_line_index k)" and ?b = "klog_buffer k"
  have l: "?l < length ?b" using "1.prems"(1,2) by (simp add: word_less_nat_alt)
  then have row: "length (?b ! ?l) = 42" using "1.prems"(3) by simp
  show ?case
  proof (cases "i < 42")
    case False
    then have "unat i = 42" using "1.prems"(4) by (simp add: word_less_nat_alt)
    then show ?thesis using False row by (subst blank_line.simps) simp
  next
    case True
    let ?k1 = "k\<lparr>klog_buffer := ?b[?l := (?b ! ?l)[unat i := CHR '' '']]\<rparr>"
    have i: "unat i < 42" "unat (i + 1) = Suc (unat i)" using True by (simp_all add: word_less_nat_alt unat_word_ariths)
    have st: "klog_store (klog_line_index k) i (CHR '' '') k = Some ?k1"
      by (rule klog_store_ok) (use "1.prems" True in simp_all)
    have ok1: "\<forall>l \<in> set (klog_buffer ?k1). length l = 42"
      using "1.prems"(3) row set_update_subset_insert [of ?b ?l] by fastforce
    have "blank_line i k = blank_line (i + 1) ?k1" using True st by (subst blank_line.simps) simp
    also have "\<dots> = Some (?k1\<lparr>klog_buffer := (klog_buffer ?k1)[?l :=
       take (unat (i + 1)) (klog_buffer ?k1 ! ?l) @ replicate (42 - unat (i + 1)) (CHR '' '')]\<rparr>)"
      using "1.IH" [OF True st] "1.prems" ok1 i by simp
    also have "\<dots> = Some (k\<lparr>klog_buffer := ?b[?l := take (unat i) (?b ! ?l) @ replicate (42 - unat i) (CHR '' '')]\<rparr>)"
      using l row i by (simp add: take_drop_blank Suc_diff_le [symmetric] flip: replicate_Suc)
    finally show ?thesis .
  qed
qed

lemma next_line_effect:
  assumes ok: "klog_ok k"
  shows "next_line k = Some (k\<lparr>klog_line_index := (klog_line_index k + 1) mod 64, klog_char_index := 0,
      klog_buffer := (klog_buffer k)[(unat (klog_line_index k) + 1) mod 64 := replicate 42 (CHR '' '')]\<rparr>)"
proof -
  let ?k = "k\<lparr>klog_line_index := (klog_line_index k + 1) mod 64, klog_char_index := 0\<rparr>"
  have u: "unat ((klog_line_index k + 1) mod 64) = (unat (klog_line_index k) + 1) mod 64"
    using klog_okD(1) [OF ok] by (simp add: unat_mod unat_word_ariths)
  then have "klog_line_index ?k < 64" by (simp add: word_less_nat_alt)
  then show ?thesis
    using blank_line_effect [of ?k 0] ok u by (simp add: next_line_def klog_ok_def)
qed

lemma klog_ok_line:
  assumes ok: "klog_ok k"
  shows "klog_ok (k\<lparr>klog_line_index := (klog_line_index k + 1) mod 64, klog_char_index := 0,
      klog_buffer := (klog_buffer k)[i := replicate 42 c]\<rparr>)"
proof -
  have "(klog_line_index k + 1) mod 64 < (64 :: u32)" by (simp add: word_less_nat_alt unat_mod)
  then show ?thesis
    using ok set_update_subset_insert [of "klog_buffer k" i] by (fastforce simp: klog_ok_def)
qed

text \<open>One character: it goes to the cell of the cursor, the cursor advances by one in the ring, and a
  line the cursor enters is blanked first.\<close>

definition put_effect :: "char \<Rightarrow> klog \<Rightarrow> klog \<Rightarrow> bool" where
  "put_effect c k k' \<longleftrightarrow> klog_ok k' \<and> cursor k' = (cursor k + 1) mod 2688 \<and>
     (\<forall>n. cell k' n = (if n mod 2688 = cursor k then c
        else if (cursor k + 1) mod 42 = 0 \<and> n div 42 mod 64 = (cursor k + 1) div 42 mod 64 then CHR '' ''
        else cell k n))"

lemma cell_index:
  fixes n l j :: nat
  assumes "j < 42"
  shows "n mod 2688 = l * 42 + j \<longleftrightarrow> n div 42 mod 64 = l \<and> n mod 42 = j"
proof -
  have "n mod (42 * 64) = 42 * (n div 42 mod 64) + n mod 42" by (rule mod_mult2_eq)
  then have e: "n mod 2688 = 42 * (n div 42 mod 64) + n mod 42" by simp
  show ?thesis
  proof
    assume "n mod 2688 = l * 42 + j"
    then have q: "42 * (n div 42 mod 64) + n mod 42 = l * 42 + j" using e by simp
    then have "(42 * (n div 42 mod 64) + n mod 42) div 42 = (l * 42 + j) div 42"
      "(42 * (n div 42 mod 64) + n mod 42) mod 42 = (l * 42 + j) mod 42" by simp_all
    then show "n div 42 mod 64 = l \<and> n mod 42 = j" using assms by simp
  qed (simp add: e)
qed

lemma klog_put_effect:
  assumes ok: "klog_ok k"
  shows "\<exists>k'. klog_put c k = Some k' \<and> put_effect c k k'"
proof -
  let ?l = "unat (klog_line_index k)" and ?j = "unat (klog_char_index k)" and ?b = "klog_buffer k"
  let ?k1 = "k\<lparr>klog_buffer := ?b[?l := (?b ! ?l)[?j := c]]\<rparr>"
  note d = klog_okD [OF ok]
  have st: "klog_store (klog_line_index k) (klog_char_index k) c k = Some ?k1"
    by (rule klog_store_ok) (use ok in \<open>simp_all add: klog_ok_def\<close>)
  have ok1: "klog_ok ?k1"
    using ok d set_update_subset_insert [of ?b ?l] by (fastforce simp: klog_ok_def)
  have cur: "cursor k = ?l * 42 + ?j" by (simp add: cursor_def)
  have u: "unat (klog_char_index k + 1) = Suc ?j" using d(2) by (simp add: unat_word_ariths)
  have hit: "n mod 2688 = cursor k \<longleftrightarrow> n div 42 mod 64 = ?l \<and> n mod 42 = ?j" for n
    unfolding cur by (rule cell_index [OF d(2)])
  have c1: "cell ?k1 n = (if n mod 2688 = cursor k then c else cell k n)" for n
    using d hit by (auto simp: cell_def nth_list_update)
  show ?thesis
  proof (cases "Suc ?j < 42")
    case True
    let ?k' = "?k1\<lparr>klog_char_index := klog_char_index k + 1\<rparr>"
    have "klog_put c k = Some ?k'"
      using st True u by (simp add: klog_put_def next_char_def Let_def word_le_nat_alt)
    moreover have "klog_ok ?k'" using ok1 True u by (simp add: klog_ok_def word_less_nat_alt)
    moreover have "cursor ?k' = cursor k + 1" "cursor k + 1 < 2688" using u d(1) True by (simp_all add: cursor_def)
    moreover have "(cursor k + 1) mod 42 \<noteq> 0"
    proof -
      have "cursor k + 1 = Suc ?j + ?l * 42" by (simp add: cur)
      then have "(cursor k + 1) mod 42 = Suc ?j mod 42" by (metis mod_mult_self1)
      then show ?thesis using True by simp
    qed
    moreover have "cell ?k' n = cell ?k1 n" for n by (simp add: cell_def)
    ultimately show ?thesis using c1 by (auto simp: put_effect_def)
  next
    case False
    then have j: "?j = 41" using d(2) by simp
    let ?m = "(?l + 1) mod 64"
    let ?k' = "?k1\<lparr>klog_line_index := (klog_line_index k + 1) mod 64, klog_char_index := 0,
        klog_buffer := (klog_buffer ?k1)[?m := replicate 42 (CHR '' '')]\<rparr>"
    have nl: "next_line ?k1 = Some ?k'" using next_line_effect [OF ok1] by simp
    have ok2: "klog_ok ?k'" using klog_ok_line [OF ok1] by simp
    have "next_line (?k1\<lparr>klog_char_index := 0\<rparr>) = next_line ?k1" by (simp add: next_line_def)
    then have "klog_put c k = Some ?k'"
      using st j u nl by (simp add: klog_put_def next_char_def Let_def word_le_nat_alt)
    moreover have "unat ((klog_line_index k + 1) mod 64) = ?m"
      using d(1) by (simp add: unat_mod unat_word_ariths)
    then have "cursor ?k' = ?m * 42" by (simp add: cursor_def)
    moreover have cu: "cursor k + 1 = (?l + 1) * 42" using j by (simp add: cur)
    have m42: "(cursor k + 1) mod 2688 = ?m * 42"
      unfolding cu using mult_mod_left [of "?l + 1" 64 42] by simp
    moreover have cm: "(cursor k + 1) mod 42 = 0" "(cursor k + 1) div 42 mod 64 = ?m" using cu by simp_all
    moreover have "cell ?k' n = (if n mod 2688 = cursor k then c else if n div 42 mod 64 = ?m then CHR '' '' else cell k n)" for n
    proof -
      have ne: "?m \<noteq> ?l" using d(1) by (auto simp: mod_Suc split: if_splits)
      have len: "length (klog_buffer ?k1) = 64" using d(3) by simp
      have "cell ?k' n = (if n div 42 mod 64 = ?m then CHR '' '' else cell ?k1 n)"
        using len by (simp add: cell_def nth_list_update)
      then show ?thesis using c1 hit ne by auto
    qed
    ultimately show ?thesis using ok2 unfolding put_effect_def by (intro exI [of _ ?k']) simp
  qed
qed

section \<open>Printing is appending to the ring\<close>

lemma klog_print_append: "klog_print (xs @ ys) k = do { k1 \<leftarrow> klog_print xs k; klog_print ys k1 }"
  by (induction xs arbitrary: k) (auto split: bind_split)

lemma klog_print_total: "klog_ok k \<Longrightarrow> \<exists>k'. klog_print str k = Some k' \<and> klog_ok k'"
proof (induction str arbitrary: k)
  case (Cons c str)
  show ?case
  proof (cases "c = CHR 0x0A")
    case True
    note n = next_line_effect [OF Cons.prems]
    from Cons.IH [OF klog_ok_line [OF Cons.prems]] show ?thesis using True by (simp add: n)
  next
    case False
    from klog_put_effect [OF Cons.prems, of c] obtain k1 where
      k1: "klog_put c k = Some k1" "klog_ok k1" by (auto simp: put_effect_def)
    from Cons.IH [OF k1(2)] show ?thesis using False k1(1) by simp
  qed
qed simp

lemma line_not_blanked:
  fixes c i j :: nat
  assumes "i + c mod 42 < 2688" "j < i" "i = Suc i'" "(c + i) mod 42 = 0"
  shows "(c + j) div 42 mod 64 \<noteq> (c + i) div 42 mod 64"
proof -
  let ?a = "(c + j) div 42" and ?b = "(c + i) div 42"
  have eq: "c + i = 42 * ?b" using assms(4) by (metis mod_0_imp_dvd dvd_mult_div_cancel)
  have "?a < ?b"
  proof -
    have "c + j < 42 * ?b" using eq assms(2) by simp
    then show ?thesis by (simp add: div_less_iff_less_mult mult.commute)
  qed
  moreover have "?b - ?a < 64"
  proof -
    have "c div 42 \<le> ?a" by (simp add: div_le_mono)
    moreover have "42 * ?b < 42 * (c div 42) + 2688"
      using assms(1) eq mult_div_mod_eq [of 42 c] by linarith
    ultimately show ?thesis by linarith
  qed
  ultimately show ?thesis
    by (metis add_diff_inverse_nat less_not_refl mod_eq_dvd_iff_nat nat_dvd_not_less not_less_iff_gr_or_eq zero_less_diff order_less_imp_le)
qed

lemma klog_print_ring:
  assumes ok: "klog_ok k"
  shows "CHR 0x0A \<notin> set str \<Longrightarrow> length str + cursor k mod 42 < 2688 \<Longrightarrow>
    \<exists>k'. klog_print str k = Some k' \<and> klog_ok k' \<and> cursor k' = (cursor k + length str) mod 2688 \<and>
      (\<forall>j < length str. cell k' (cursor k + j) = str ! j)"
proof (induction str rule: rev_induct)
  case Nil
  have "cursor k < 2688" using klog_okD(1,2) [OF ok] by (simp add: cursor_def)
  then show ?case using ok by simp
next
  case (snoc c str)
  let ?i = "length str"
  from snoc obtain k1 where k1: "klog_print str k = Some k1" "klog_ok k1"
    "cursor k1 = (cursor k + ?i) mod 2688" "\<forall>j < ?i. cell k1 (cursor k + j) = str ! j" by auto
  from klog_put_effect [OF k1(2), of c] obtain k2 where k2: "klog_put c k1 = Some k2" "put_effect c k1 k2" by blast
  have "klog_print (str @ [c]) k = Some k2" using k1(1) k2(1) snoc.prems(1) by (auto simp: klog_print_append)
  moreover have "klog_ok k2" "cursor k2 = (cursor k + length (str @ [c])) mod 2688"
    using k2(2) k1(3) by (simp_all add: put_effect_def mod_Suc_eq)
  moreover have "cell k2 (cursor k + j) = (str @ [c]) ! j" if j: "j < length (str @ [c])" for j
  proof (cases "j = ?i")
    case True
    then show ?thesis using k2(2) k1(3) by (simp add: put_effect_def)
  next
    case False
    then have j: "j < ?i" using j by simp
    have e: "cell k2 n = (if n mod 2688 = cursor k1 then c
        else if (cursor k1 + 1) mod 42 = 0 \<and> n div 42 mod 64 = (cursor k1 + 1) div 42 mod 64 then CHR '' ''
        else cell k1 n)" for n using k2(2) by (simp add: put_effect_def)
    have "(cursor k + j) mod 2688 \<noteq> cursor k1"
    proof
      assume "(cursor k + j) mod 2688 = cursor k1"
      then have "(cursor k + j) mod 2688 = (cursor k + ?i) mod 2688" by (simp add: k1(3))
      then have "2688 dvd (cursor k + ?i) - (cursor k + j)" using j by (metis add_le_cancel_left less_imp_le_nat mod_eq_dvd_iff_nat)
      then show False using j snoc.prems(2) by (auto dest: dvd_imp_le)
    qed
    moreover have "\<not> ((cursor k1 + 1) mod 42 = 0 \<and> (cursor k + j) div 42 mod 64 = (cursor k1 + 1) div 42 mod 64)"
    proof
      assume a: "(cursor k1 + 1) mod 42 = 0 \<and> (cursor k + j) div 42 mod 64 = (cursor k1 + 1) div 42 mod 64"
      let ?n = "cursor k + Suc ?i"
      have m: "(cursor k1 + 1) mod 2688 = ?n mod 2688" by (simp add: k1(3) mod_Suc_eq)
      have q: "x mod 42 = x mod 2688 mod 42" "x div 42 mod 64 = x mod 2688 div 42" for x :: nat
        using mod_mult2_eq [of x 42 64] by (simp_all add: mod_mod_cancel)
      have "?n mod 42 = 0" using a q(1) m by metis
      moreover have "(cursor k + j) div 42 mod 64 = ?n div 42 mod 64" using a q(2) m by metis
      ultimately show False using line_not_blanked [of "Suc ?i" "cursor k" j ?i] snoc.prems(2) j by simp
    qed
    ultimately have "cell k2 (cursor k + j) = cell k1 (cursor k + j)" unfolding e by auto
    then show ?thesis using k1(4) j by (simp add: nth_append)
  qed
  ultimately show ?case by blast
qed

section \<open>Numbers\<close>

definition digit_value :: "char \<Rightarrow> nat" where
  "digit_value c = length (takeWhile (\<lambda>d. d \<noteq> c) ''0123456789ABCDEF'')"

text \<open>The characters the two functions print.\<close>

definition dec_chars :: "u32 \<Rightarrow> string" where
  "dec_chars num = (if num < 10 then [dec_digit num] else [dec_digit (num div 10 mod 10), dec_digit (num mod 10)])"

function hex_chars :: "u32 \<Rightarrow> string" where
  "hex_chars num = hex_digit (num mod 16) # (if num div 16 > 0 then hex_chars (num div 16) else [])"
  by pat_completeness auto
termination
  by (relation "measure unat") (auto intro: word_div_less)

declare hex_chars.simps [simp del]

lemma digits_table:
  "list_all (\<lambda>i. let d = ''0123456789ABCDEF'' ! i in d \<noteq> CHR 0x0A \<and> digit_value d = i \<and>
     (i < 10 \<longrightarrow> ''0123456789'' ! i = d)) [0..<16]"
  by code_simp

lemma digits:
  assumes "n < 16"
  shows "hex_digit n \<noteq> CHR 0x0A" "digit_value (hex_digit n) = unat n"
    and "n < 10 \<Longrightarrow> dec_digit n = hex_digit n"
proof -
  have n: "unat n \<in> set [0..<16]" using assms by (simp add: word_less_nat_alt)
  note t = digits_table [unfolded list_all_iff, THEN bspec, OF n]
  show "hex_digit n \<noteq> CHR 0x0A" "digit_value (hex_digit n) = unat n"
    using t by (simp_all add: hex_digit_def Let_def)
  show "dec_digit n = hex_digit n" if "n < 10"
    using t that by (simp add: hex_digit_def dec_digit_def word_less_nat_alt Let_def)
qed

lemma word_mod_less: "0 < d \<Longrightarrow> (n :: u32) mod d < d"
  by (simp add: word_less_nat_alt unat_mod)

lemma klog_print_dec_chars: "klog_print_dec num k = klog_print (dec_chars num) k"
proof (cases "num < 10")
  case True
  then have "num div 10 = 0" "num mod 10 = num" by (simp_all add: word_less_nat_alt word_unat_eq_iff unat_div unat_mod)
  then show ?thesis
    using True digits [of num] by (simp add: klog_print_dec_def dec_chars_def dec_loop.simps word_less_nat_alt)
next
  case False
  have "num div 10 mod 10 < 10" "num mod 10 < 10" by (simp_all add: word_mod_less)
  then have "dec_digit (num div 10 mod 10) \<noteq> CHR 0x0A" "dec_digit (num mod 10) \<noteq> CHR 0x0A"
    using digits [of "num div 10 mod 10"] digits [of "num mod 10"] by (simp_all add: word_less_nat_alt)
  then show ?thesis
    using False by (auto simp: klog_print_dec_def dec_chars_def Let_def split: bind_split)
qed

lemma klog_print_hex_chars: "klog_print_hex num k = klog_print (hex_chars num) k"
proof (induction num k rule: klog_print_hex.induct)
  case (1 num k)
  have "hex_digit (num mod 16) \<noteq> CHR 0x0A" by (rule digits(1)) (simp add: word_mod_less)
  then show ?case
    using "1.IH" by (subst klog_print_hex.simps, subst hex_chars.simps) (auto split: bind_split)
qed

text \<open>Read with the least significant digit first, what is printed is the number; the usual reading
  is the reverse.\<close>

lemma hex_chars_value: "foldr (\<lambda>c v. digit_value c + 16 * v) (hex_chars num) 0 = unat num"
proof (induction num rule: hex_chars.induct)
  case (1 num)
  have d: "digit_value (hex_digit (num mod 16)) = unat num mod 16"
    using digits(2) [of "num mod 16"] by (simp add: word_mod_less unat_mod)
  show ?case
  proof (cases "num div 16 > 0")
    case True
    then show ?thesis
      using "1.IH" d by (subst hex_chars.simps) (simp add: unat_div)
  next
    case False
    then have "unat (num div 16) = 0" by (simp add: word_less_nat_alt)
    then have "unat num < 16" by (simp add: unat_div div_eq_0_iff)
    then show ?thesis using False d by (subst hex_chars.simps) simp
  qed
qed

lemma hex_chars_plain: "CHR 0x0A \<notin> set (hex_chars num)"
proof (induction num rule: hex_chars.induct)
  case (1 num)
  have "hex_digit (num mod 16) \<noteq> CHR 0x0A" by (rule digits(1)) (simp add: word_mod_less)
  then show ?case using "1.IH" by (subst hex_chars.simps) auto
qed

lemma hex_chars_length: "unat num < 16 ^ n \<Longrightarrow> 0 < n \<Longrightarrow> length (hex_chars num) \<le> n"
proof (induction n arbitrary: num)
  case (Suc n)
  show ?case
  proof (cases "num div 16 > 0")
    case True
    have "unat (num div 16) < 16 ^ n" using Suc.prems(1) by (simp add: unat_div div_less_iff_less_mult mult.commute)
    moreover have "0 < n"
    proof (rule ccontr)
      assume "\<not> 0 < n"
      then show False using Suc.prems(1) True by (simp add: word_less_nat_alt unat_div)
    qed
    ultimately show ?thesis using Suc.IH [of "num div 16"] by (subst hex_chars.simps) simp
  qed (subst hex_chars.simps, simp)
qed simp

lemma dec_chars_value:
  "num < 100 \<Longrightarrow> foldl (\<lambda>v c. digit_value c + 10 * v) 0 (dec_chars num) = unat num"
proof -
  assume n: "num < 100"
  have "unat num div 10 < 10" using n by (simp add: word_less_nat_alt)
  then have e: "unat num div 10 mod 10 = unat num div 10" by simp
  have v: "digit_value (dec_digit m) = unat m" if "m < 10" for m
    using digits [of m] that by (simp add: word_less_nat_alt)
  have "unat num mod 10 + 10 * (unat num div 10) = unat num" by simp
  then show ?thesis
    using v [of num] v [of "num mod 10"] v [of "num div 10 mod 10"] e
    by (simp add: dec_chars_def word_mod_less unat_div unat_mod)
qed

lemma dec_chars_length: "length (dec_chars num) \<le> 2"
  by (simp add: dec_chars_def)

end
