(* ===== verification/Klog_Props.thy ===== *)
theory Klog_Props
  imports Klog
begin

text \<open>
  What the kernel log shows of what was printed.
\<close>

text \<open>The characters shown from position \<open>i\<close> on, around the ring of 64 lines of 42 characters.\<close>

definition shown :: "klog \<Rightarrow> nat \<Rightarrow> nat \<Rightarrow> string" where
  "shown k i n = map (\<lambda>j. cell k (i + j)) [0..<n]"

lemma shown_eqI: "(\<And>j. j < length str \<Longrightarrow> cell k (i + j) = str ! j) \<Longrightarrow> shown k i (length str) = str"
  unfolding shown_def by (rule nth_equalityI) simp_all

lemma klog_ok_init: "klog_ok klog_init"
  by (simp add: klog_ok_def klog_init_def)

lemma print_shown:
  assumes "klog_ok k" "CHR 0x0A \<notin> set str" "length str + cursor k mod 42 < 2688"
  obtains k' where "klog_print str k = Some k'" "klog_ok k'" "cursor k' = (cursor k + length str) mod 2688"
    "shown k' (cursor k) (length str) = str"
  using klog_print_ring [OF assms]
proof (elim exE conjE)
  fix k' assume k': "klog_print str k = Some k'" "klog_ok k'" "cursor k' = (cursor k + length str) mod 2688"
    and c: "\<forall>j < length str. cell k' (cursor k + j) = str ! j"
  show ?thesis
    by (rule that [OF k'], rule shown_eqI) (rule c [rule_format])
qed

text \<open>A string without newlines that is shorter than the rest of the ring is shown from the cursor on,
  across the ends of the lines and around the end of the buffer, and the cursor is behind it.\<close>

theorem log_shows_string:
  assumes "klog_ok k" "CHR 0x0A \<notin> set str" "length str + cursor k mod 42 < 2688"
  shows "\<exists>k'. klog_print str k = Some k' \<and> klog_ok k' \<and> shown k' (cursor k) (length str) = str \<and>
    cursor k' = (cursor k + length str) mod 2688"
  by (rule print_shown [OF assms]) blast

theorem log_shows_string_witness:
  "\<exists>k'. klog_print ''panic'' klog_init = Some k' \<and> shown k' 0 (length ''panic'') = ''panic''"
proof -
  have "cursor klog_init = 0" by (simp add: cursor_def klog_init_def)
  then show ?thesis
    using log_shows_string [OF klog_ok_init, of "''panic''"] by (auto simp del: klog_print.simps)
qed

text \<open>C40.  A hexadecimal number is printed with its least significant digit first, in at most eight
  digits: reading the digits in the order in which they are shown, the first counts 1 and the last most.\<close>

theorem log_hex_reversed:
  assumes ok: "klog_ok k" and room: "cursor k mod 42 < 2680"
  shows "\<exists>k' n. klog_print_hex num k = Some k' \<and> klog_ok k' \<and> 0 < n \<and> n \<le> 8 \<and>
    foldr (\<lambda>c v. digit_value c + 16 * v) (shown k' (cursor k) n) 0 = unat num"
proof -
  have len: "length (hex_chars num) \<le> 8" by (rule hex_chars_length) (use unsigned_less [of num] in simp_all)
  then have room': "length (hex_chars num) + cursor k mod 42 < 2688" using room by linarith
  obtain k' where k': "klog_print (hex_chars num) k = Some k'" "klog_ok k'"
    "shown k' (cursor k) (length (hex_chars num)) = hex_chars num" by (rule print_shown [OF ok hex_chars_plain room'])
  have "hex_chars num \<noteq> []" by (subst hex_chars.simps) simp
  then show ?thesis
    using k' len hex_chars_value [of num]
    by (intro exI [of _ k'] exI [of _ "length (hex_chars num)"]) (simp add: klog_print_hex_chars del: hex_chars.simps)
qed

theorem log_hex_reversed_witness:
  "\<exists>k' n. klog_print_hex 0x1A klog_init = Some k' \<and>
     foldr (\<lambda>c v. digit_value c + 16 * v) (shown k' 0 n) 0 = 26"
  using log_hex_reversed [OF klog_ok_init, of "0x1A"] by (auto simp: cursor_def klog_init_def)

lemma dec_digit_value:
  "m < 10 \<Longrightarrow> digit_value (dec_digit m) = unat m" "m < 10 \<Longrightarrow> dec_digit m \<noteq> CHR 0x0A"
  using digits [of m] by (simp_all add: word_less_nat_alt)

lemma dec_chars_last: "foldl (\<lambda>v c. digit_value c + 10 * v) 0 (dec_chars num) = unat num mod 100"
proof (cases "num < 10")
  case True
  then show ?thesis using dec_digit_value [of num] by (simp add: dec_chars_def word_less_nat_alt)
next
  case False
  have "digit_value (dec_digit (num mod 10)) = unat num mod 10"
    "digit_value (dec_digit (num div 10 mod 10)) = unat num div 10 mod 10"
    using dec_digit_value(1) [of "num mod 10"] dec_digit_value(1) [of "num div 10 mod 10"]
    by (simp_all add: word_mod_less unat_div unat_mod)
  moreover have "n mod 10 + 10 * (n div 10 mod 10) = n mod 100" for n :: nat
    using mod_mult2_eq [of n 10 10] by simp
  ultimately show ?thesis using False by (simp add: dec_chars_def)
qed

lemma dec_chars_plain: "CHR 0x0A \<notin> set (dec_chars num)"
  using dec_digit_value(2) [of num] dec_digit_value(2) [of "num mod 10"] dec_digit_value(2) [of "num div 10 mod 10"]
  by (auto simp: dec_chars_def word_mod_less)

text \<open>A decimal number is printed with its most significant digit first, but only its last two
  digits: above 99 the number shown is the remainder modulo 100.\<close>

theorem log_dec_two_digits:
  assumes ok: "klog_ok k"
  shows "\<exists>k' n. klog_print_dec num k = Some k' \<and> klog_ok k' \<and> n \<le> 2 \<and>
    foldl (\<lambda>v c. digit_value c + 10 * v) 0 (shown k' (cursor k) n) = unat num mod 100"
proof -
  have v: "foldl (\<lambda>v c. digit_value c + 10 * v) 0 (dec_chars num) = unat num mod 100" by (rule dec_chars_last)
  have room: "length (dec_chars num) + cursor k mod 42 < 2688"
    using dec_chars_length [of num] mod_less_divisor [of 42 "cursor k"] by linarith
  obtain k' where k': "klog_print (dec_chars num) k = Some k'" "klog_ok k'"
    "shown k' (cursor k) (length (dec_chars num)) = dec_chars num" by (rule print_shown [OF ok dec_chars_plain room])
  then show ?thesis
    using k'(1,2) v dec_chars_length [of num]
    by (intro exI [of _ k'] exI [of _ "length (dec_chars num)"]) (simp add: klog_print_dec_chars)
qed

theorem log_dec_two_digits_witness:
  "\<exists>k' n. klog_print_dec 142 klog_init = Some k' \<and> n \<le> 2 \<and>
     foldl (\<lambda>v c. digit_value c + 10 * v) 0 (shown k' 0 n) = 42"
proof -
  have "cursor klog_init = 0" by (simp add: cursor_def klog_init_def)
  then show ?thesis using log_dec_two_digits [OF klog_ok_init, of 142] by auto
qed

end
