(* ===== verification/World.thy ===== *)
theory World
  imports Initial "HOL-Library.Signed_Division"
begin

text \<open>
  The state the support level adds to the nucleus (the globals of
  \<^verbatim>\<open>src/phase3/initProc.c\<close> and the static counter of \<^verbatim>\<open>pick_frame\<close>), and
  processes: the code of the support level runs as processes that ask the nucleus for messages.  A
  process is a resumption: it has finished, it does an action on the state, it makes a system call
  and goes on with the word the call returns, or it gives the processor away for good.
\<close>

section \<open>Data\<close>

record sst_print_t =
  length_of :: u32
  string_of :: ptr

text \<open>\<^verbatim>\<open>pteEntry_t *sw_pte\<close>: an entry of the page table of a support structure.\<close>

datatype pte_ref = PTE_NULL | PTE_AT ptr nat

record swap_t =
  sw_asid :: u32
  sw_pageNo :: u32
  sw_pte :: pte_ref

abbreviation (input) UPROCMAX :: nat where "UPROCMAX \<equiv> 8"
abbreviation (input) POOLSIZE :: nat where "POOLSIZE \<equiv> 16"
abbreviation (input) NOASID :: u32 where "NOASID \<equiv> - 1"
abbreviation (input) NOPAGE :: u32 where "NOPAGE \<equiv> - 1"
abbreviation (input) ON :: u32 where "ON \<equiv> 1"
abbreviation (input) RAMSTART :: u32 where "RAMSTART \<equiv> 0x20000000"
abbreviation (input) SWAPPOOL :: u32 where "SWAPPOOL \<equiv> 0x20020000"
abbreviation (input) KUSEG :: u32 where "KUSEG \<equiv> 0x80000000"
abbreviation (input) GETSHAREFLAG :: u32 where "GETSHAREFLAG \<equiv> 0xC0000000"
abbreviation (input) ASIDSHIFT :: nat where "ASIDSHIFT \<equiv> 6"
abbreviation (input) VALIDON :: u32 where "VALIDON \<equiv> 0x00000200"
abbreviation (input) DIRTYON :: u32 where "DIRTYON \<equiv> 0x00000400"
abbreviation (input) PRESENTFLAG :: u32 where "PRESENTFLAG \<equiv> 0x80000000"
abbreviation (input) BYTELENGTH :: nat where "BYTELENGTH \<equiv> 8"
abbreviation (input) FLASHREAD :: u32 where "FLASHREAD \<equiv> 2"
abbreviation (input) FLASHWRITE :: u32 where "FLASHWRITE \<equiv> 3"
abbreviation (input) PRINTCHR :: u32 where "PRINTCHR \<equiv> 2"
abbreviation (input) UPROCSTARTADDR :: u32 where "UPROCSTARTADDR \<equiv> 0x800000B0"
abbreviation (input) USERSTACKTOP :: u32 where "USERSTACKTOP \<equiv> 0xC0000000"
abbreviation (input) TLBINVLDM :: u32 where "TLBINVLDM \<equiv> 1"
abbreviation (input) SENDMSG :: u32 where "SENDMSG \<equiv> 1"
abbreviation (input) RECEIVEMSG :: u32 where "RECEIVEMSG \<equiv> 2"
abbreviation (input) PARENT :: u32 where "PARENT \<equiv> 0"
abbreviation (input) GET_TOD :: u32 where "GET_TOD \<equiv> 1"
abbreviation (input) TERMINATE :: u32 where "TERMINATE \<equiv> 2"
abbreviation (input) WRITEPRINTER :: u32 where "WRITEPRINTER \<equiv> 3"
abbreviation (input) WRITETERMINAL :: u32 where "WRITETERMINAL \<equiv> 4"

text \<open>Documented constants of the uMPS3 headers: the status of a device that is ready, the length of
  a device register in words, the position of \<^verbatim>\<open>TRANSM_COMMAND\<close> in a terminal's
  register.\<close>

abbreviation (input) READY :: u32 where "READY \<equiv> 1"
abbreviation (input) DEVREGLEN :: u32 where "DEVREGLEN \<equiv> 4"
abbreviation (input) TRANCOMMAND :: u32 where "TRANCOMMAND \<equiv> 3"
abbreviation (input) EOS :: char where "EOS \<equiv> CHR 0x00"

text \<open>
  The arrays of states and support structures are the lists of the addresses of their elements, the
  arrays of pointers and the swap pool table are lists of their contents.  \<open>bytes\<close> is memory as
  characters, for the strings that are printed.
\<close>

record world =
  nuc :: sys
  uProcState :: "ptr list"
  supStruct :: "ptr list"
  sstProcState :: "ptr list"
  printerState :: "ptr list"
  terminalState :: "ptr list"
  swapPoolTable :: "swap_t list"
  mutexSender :: ptr
  mutexRecv :: ptr
  printerPcbs :: "ptr list"
  terminalPcbs :: "ptr list"
  sstPcbs :: "ptr list"
  uproc :: "ptr list"
  testPcb :: ptr
  ramtop :: u32
  pick_counter :: int
  cp0_index :: u32
  bytes :: "u32 \<Rightarrow> char"
  sst_prints :: "ptr \<Rightarrow> sst_print_t option"

text \<open>Macros and instructions of the machine that the code uses and the repository does not contain:
  the page number and exception code fields of a register, the TLB probe with the register it sets,
  the slot an index register names, and the number of slots.\<close>

record machine =
  get_vpn :: "u32 \<Rightarrow> u32"
  get_exccode :: "u32 \<Rightarrow> u32"
  tlb_probe :: "(nat \<Rightarrow> u32 \<times> u32) \<Rightarrow> u32 \<Rightarrow> u32"
  index_slot :: "u32 \<Rightarrow> nat"
  tlb_size :: nat

text \<open>The local variables whose addresses are passed to the nucleus.  The address of each in the stack
  of the running process is a parameter \<open>lv\<close> of the code.\<close>

datatype local_var =
    V_create_arg | V_create_payload | V_create_p
  | V_getsup_payload | V_getsup_sup
  | V_kill_payload
  | V_flash_io | V_flash_payload | V_flash_s
  | V_print_msg | V_print_io | V_print_payload | V_print_status
  | V_sst_payload | V_mutexState

type_synonym locals = "local_var \<Rightarrow> ptr"

section \<open>Array access\<close>

definition nth_opt :: "'a list \<Rightarrow> int \<Rightarrow> 'a option" where
  "nth_opt xs i = (if 0 \<le> i \<and> i < int (length xs) then Some (xs ! nat i) else None)"

definition upd_opt :: "'a list \<Rightarrow> int \<Rightarrow> 'a \<Rightarrow> 'a list option" where
  "upd_opt xs i x = (if 0 \<le> i \<and> i < int (length xs) then Some (xs[nat i := x]) else None)"

lemma nth_opt_nat [simp]: "nth_opt xs (int i) = (if i < length xs then Some (xs ! i) else None)"
  by (simp add: nth_opt_def)

lemma upd_opt_nat [simp]: "upd_opt xs (int i) x = (if i < length xs then Some (xs[i := x]) else None)"
  by (simp add: upd_opt_def)

section \<open>Processes\<close>

datatype 'a prog =
    Ret 'a
  | Act "world \<Rightarrow> ('a prog \<times> world) option"
  | Syscall u32 u32 u32 "u32 \<Rightarrow> 'a prog"
  | Jump control

primrec seq :: "'a prog \<Rightarrow> ('a \<Rightarrow> 'b prog) \<Rightarrow> 'b prog" where
  "seq (Ret a) k = k a"
| "seq (Act f) k = Act (\<lambda>w. map_option (map_prod (\<lambda>p. seq p k) (\<lambda>w. w)) (f w))"
| "seq (Syscall a b c f) k = Syscall a b c (\<lambda>v. seq (f v) k)"
| "seq (Jump c) k = Jump c"

definition andThen :: "'a prog \<Rightarrow> 'b prog \<Rightarrow> 'b prog" where
  "andThen p q = seq p (\<lambda>_. q)"

text \<open>A read, a write, and an action that may fail.\<close>

definition reads :: "(world \<Rightarrow> 'a option) \<Rightarrow> 'a prog" where
  "reads f = Act (\<lambda>w. map_option (\<lambda>a. (Ret a, w)) (f w))"

definition writes :: "(world \<Rightarrow> world option) \<Rightarrow> unit prog" where
  "writes f = Act (\<lambda>w. map_option (\<lambda>w'. (Ret (), w')) (f w))"

definition on_nuc :: "(sys \<Rightarrow> sys option) \<Rightarrow> unit prog" where
  "on_nuc f = writes (\<lambda>w. map_option (\<lambda>s. w\<lparr>nuc := s\<rparr>) (f (nuc w)))"

text \<open>\<^verbatim>\<open>SYSCALL(a0, a1, a2, 0)\<close>.\<close>

definition SYSCALL :: "u32 \<Rightarrow> u32 \<Rightarrow> u32 \<Rightarrow> u32 prog" where
  "SYSCALL a0 a1 a2 = Syscall a0 a1 a2 Ret"

text \<open>A \<^verbatim>\<open>for\<close> loop over a list of indices.\<close>

primrec for_each :: "'b list \<Rightarrow> ('b \<Rightarrow> unit prog) \<Rightarrow> unit prog" where
  "for_each [] f = Ret ()"
| "for_each (x # xs) f = seq (f x) (\<lambda>_. for_each xs f)"

section \<open>Running a process against its environment\<close>

text \<open>
  \<open>E\<close> answers the system calls: what happens in the rest of the system until the call returns, with
  the word it returns, or nothing when it never returns (the process is killed, or waits for a
  message nobody sends).  \<open>Fault\<close> is an access outside an array or through a bad pointer.
\<close>

type_synonym env = "u32 \<times> u32 \<times> u32 \<Rightarrow> world \<Rightarrow> (u32 \<times> world) option"

datatype 'a outcome = Done 'a | Left control | Fault | Never

primrec run :: "'a prog \<Rightarrow> env \<Rightarrow> world \<Rightarrow> 'a outcome \<times> world" where
  "run (Ret a) E w = (Done a, w)"
| "run (Act f) E w = (case map_option (map_prod (\<lambda>p. run p E) (\<lambda>w. w)) (f w) of
     None \<Rightarrow> (Fault, w) | Some (r, w') \<Rightarrow> r w')"
| "run (Syscall a b c f) E w = (case E (a, b, c) w of
     None \<Rightarrow> (Never, w) | Some (v, w') \<Rightarrow> run (f v) E w')"
| "run (Jump c) E w = (Left c, w)"

lemma run_seq: "run (seq p k) E w = (case run p E w of
    (Done a, w') \<Rightarrow> run (k a) E w' | (Left c, w') \<Rightarrow> (Left c, w') | (Fault, w') \<Rightarrow> (Fault, w') | (Never, w') \<Rightarrow> (Never, w'))"
proof (induction p arbitrary: w)
  case (Act f)
  show ?case
  proof (cases "f w")
    case (Some r)
    obtain p w' where r: "r = (p, w')" by fastforce
    have "run (seq p k) E w' = (case run p E w' of
      (Done a, w') \<Rightarrow> run (k a) E w' | (Left c, w') \<Rightarrow> (Left c, w') | (Fault, w') \<Rightarrow> (Fault, w') | (Never, w') \<Rightarrow> (Never, w'))"
      by (rule Act.IH [OF rangeI [of f w]]) (auto simp: Some r intro: fsts.intros)
    then show ?thesis using Some r by simp
  qed simp
qed (auto split: option.split)

lemma run_simps [simp]:
  "run (reads f) E w = (case f w of None \<Rightarrow> (Fault, w) | Some a \<Rightarrow> (Done a, w))"
  "run (writes g) E w = (case g w of None \<Rightarrow> (Fault, w) | Some w' \<Rightarrow> (Done (), w'))"
  "run (SYSCALL a b c) E w = (case E (a, b, c) w of None \<Rightarrow> (Never, w) | Some (v, w') \<Rightarrow> (Done v, w'))"
  by (auto simp: reads_def writes_def SYSCALL_def split: option.split)

lemma run_on_nuc [simp]:
  "run (on_nuc f) E w = (case f (nuc w) of None \<Rightarrow> (Fault, w) | Some s \<Rightarrow> (Done (), w\<lparr>nuc := s\<rparr>))"
  by (auto simp: on_nuc_def split: option.split)

end
