(* ===== verification/Sup_Utils.thy ===== *)
theory Sup_Utils
  imports World
begin

text \<open>
  \<^verbatim>\<open>src/phase3/utils.c\<close>: requests to the SSI, the mutex of the swap pool and the device
  processes.  A process with an endless loop is given by the body of the loop; the loop over the
  characters of a string has fuel.
\<close>

section \<open>Requests to the SSI\<close>

text \<open>Storing a request in a local variable, and the request and reply that follow.\<close>

definition put_payload :: "ptr \<Rightarrow> u32 \<Rightarrow> u32 \<Rightarrow> unit prog" where
  "put_payload p code a = on_nuc (\<lambda>s. Some (s\<lparr>ssi_payloads := (ssi_payloads s)(p \<mapsto> \<lparr>service_code = code, arg = a\<rparr>)\<rparr>))"

definition ask_ssi :: "ptr \<Rightarrow> ptr \<Rightarrow> unit prog" where
  "ask_ssi payload answer =
     seq (reads (\<lambda>w. Some (ssi_pcb (nuc w)))) (\<lambda>ssi.
     seq (SYSCALL SENDMESSAGE ssi payload) (\<lambda>_.
     seq (reads (\<lambda>w. Some (ssi_pcb (nuc w)))) (\<lambda>ssi.
     seq (SYSCALL RECEIVEMESSAGE ssi answer) (\<lambda>_.
     Ret ()))))"

definition create_process :: "locals \<Rightarrow> ptr \<Rightarrow> ptr \<Rightarrow> ptr prog" where
  "create_process lv st spt =
     seq (on_nuc (\<lambda>s. Some (s\<lparr>ssi_create_processes := (ssi_create_processes s)
            (lv V_create_arg \<mapsto> \<lparr>scp_state = st, scp_support = spt\<rparr>)\<rparr>))) (\<lambda>_.
     seq (put_payload (lv V_create_payload) CREATEPROCESS (lv V_create_arg)) (\<lambda>_.
     seq (ask_ssi (lv V_create_payload) (lv V_create_p)) (\<lambda>_.
     reads (\<lambda>w. Some (mem (nuc w) (lv V_create_p))))))"

definition getSupStruct :: "locals \<Rightarrow> ptr prog" where
  "getSupStruct lv =
     seq (put_payload (lv V_getsup_payload) GETSUPPORTPTR NULL) (\<lambda>_.
     seq (ask_ssi (lv V_getsup_payload) (lv V_getsup_sup)) (\<lambda>_.
     reads (\<lambda>w. Some (mem (nuc w) (lv V_getsup_sup)))))"

definition sendKillReq :: "locals \<Rightarrow> ptr \<Rightarrow> unit prog" where
  "sendKillReq lv p =
     seq (put_payload (lv V_kill_payload) TERMPROCESS p) (\<lambda>_.
     ask_ssi (lv V_kill_payload) 0)"

section \<open>The mutex of the swap pool\<close>

text \<open>One round of the \<^verbatim>\<open>while (1)\<close> of the process that gives the mutex.\<close>

definition mutex :: "unit prog" where
  "mutex =
     seq (SYSCALL RECEIVEMESSAGE ANYMESSAGE 0) (\<lambda>senderAddr.
     seq (writes (\<lambda>w. Some (w\<lparr>mutexRecv := senderAddr\<rparr>))) (\<lambda>_.
     seq (SYSCALL SENDMESSAGE senderAddr 0) (\<lambda>_.
     seq (SYSCALL RECEIVEMESSAGE senderAddr 0) (\<lambda>_.
     Ret ()))))"

definition askMutex :: "unit prog" where
  "askMutex =
     seq (reads (\<lambda>w. Some (mutexSender w))) (\<lambda>m.
     seq (SYSCALL SENDMESSAGE m 0) (\<lambda>_.
     seq (reads (\<lambda>w. Some (mutexSender w))) (\<lambda>m.
     seq (SYSCALL RECEIVEMESSAGE m 0) (\<lambda>_.
     Ret ()))))"

section \<open>Printers and terminals\<close>

text \<open>\<^verbatim>\<open>base += asid * DEVREGLEN\<close> and the fields are arithmetic on pointers to words.\<close>

definition device_base :: "u32 \<Rightarrow> int \<Rightarrow> u32" where
  "device_base devType asid =
     (if devType = IL_PRINTER then PRINT0ADDR else TERM0ADDR) + 4 * (word_of_int asid * DEVREGLEN)"

definition device_command :: "u32 \<Rightarrow> int \<Rightarrow> u32" where
  "device_command devType asid =
     device_base devType asid + 4 * (if devType = IL_PRINTER then 1 else TRANCOMMAND)"

definition device_data0 :: "u32 \<Rightarrow> int \<Rightarrow> u32" where
  "device_data0 devType asid = device_base devType asid + 4 * 2"

text \<open>C's conversion of a \<^verbatim>\<open>char\<close>, which is signed, to an unsigned word.\<close>

definition char_word :: "char \<Rightarrow> u32" where
  "char_word c = scast (of_char c :: 8 word)"

text \<open>One character.\<close>

definition print_char :: "locals \<Rightarrow> int \<Rightarrow> u32 \<Rightarrow> char \<Rightarrow> unit prog" where
  "print_char lv asid devType c =
     seq (on_nuc (\<lambda>s. Some (if devType = IL_PRINTER then store (device_data0 devType asid) (char_word c) s else s))) (\<lambda>_.
     seq (on_nuc (\<lambda>s. Some (s\<lparr>ssi_do_ios := (ssi_do_ios s)(lv V_print_io \<mapsto>
            \<lparr>commandAddr = device_command devType asid,
             commandValue = (if devType = IL_PRINTER then PRINTCHR
               else PRINTCHR OR push_bit BYTELENGTH (char_word c))\<rparr>)\<rparr>))) (\<lambda>_.
     seq (put_payload (lv V_print_payload) DOIO (lv V_print_io)) (\<lambda>_.
     ask_ssi (lv V_print_payload) (lv V_print_status))))"

text \<open>\<^verbatim>\<open>while (*msg != EOS) { ... msg++; }\<close>, at most \<open>n\<close> rounds; with more characters than
  fuel the result is a fault.\<close>

primrec print_string :: "nat \<Rightarrow> locals \<Rightarrow> int \<Rightarrow> u32 \<Rightarrow> ptr \<Rightarrow> unit prog" where
  "print_string 0 lv asid devType msg = reads (\<lambda>w. if bytes w msg = EOS then Some () else None)"
| "print_string (Suc n) lv asid devType msg =
     seq (reads (\<lambda>w. Some (bytes w msg))) (\<lambda>c.
     if c = EOS then Ret ()
     else seq (print_char lv asid devType c) (\<lambda>_.
       print_string n lv asid devType (msg + 1)))"

text \<open>One round of the \<^verbatim>\<open>while (1)\<close>, for the two device types it is called with.\<close>

definition printDevice :: "nat \<Rightarrow> locals \<Rightarrow> int \<Rightarrow> u32 \<Rightarrow> unit prog" where
  "printDevice n lv asid devType =
     seq (SYSCALL RECEIVEMESSAGE ANYMESSAGE (lv V_print_msg)) (\<lambda>sender.
     seq (reads (\<lambda>w. Some (mem (nuc w) (lv V_print_msg)))) (\<lambda>msg.
     seq (print_string n lv asid devType msg) (\<lambda>_.
     seq (SYSCALL SENDMESSAGE sender 0) (\<lambda>_.
     Ret ()))))"

end
