(* ===== verification/Sup_Exceptions.thy ===== *)
theory Sup_Exceptions
  imports Sup_Utils
begin

text \<open>
  \<^verbatim>\<open>src/phase3/sysSupport.c\<close>: the exceptions the nucleus passes up.
\<close>

section \<open>System calls of user processes\<close>

definition current_pcb :: "world \<Rightarrow> pcb_t option" where
  "current_pcb w = pcbs (nuc w) (current_process (nuc w))"

definition supSyscallHandler :: "state_t \<Rightarrow> unit prog" where
  "supSyscallHandler excState = (
     let syscallCode = gpr excState reg_a0; dest = gpr excState reg_a1 in
     if syscallCode = SENDMSG then
       if dest = PARENT then
         seq (reads (\<lambda>w. map_option p_parent (current_pcb w))) (\<lambda>prnt.
         seq (SYSCALL SENDMESSAGE prnt (gpr excState reg_a2)) (\<lambda>_. Ret ()))
       else seq (SYSCALL SENDMESSAGE dest (gpr excState reg_a2)) (\<lambda>_. Ret ())
     else if syscallCode = RECEIVEMSG then
       seq (SYSCALL RECEIVEMESSAGE dest (gpr excState reg_a2)) (\<lambda>_. Ret ())
     else Jump PANIC)"

section \<open>Program traps\<close>

text \<open>The loop that gives back the frames of an address space.\<close>

definition release_frame :: "u32 \<Rightarrow> nat \<Rightarrow> world \<Rightarrow> world option" where
  "release_frame asid i w = do {
     e \<leftarrow> nth_opt (swapPoolTable w) (int i);
     if sw_asid e = asid then do {
       t \<leftarrow> upd_opt (swapPoolTable w) (int i) (e\<lparr>sw_asid := NOASID\<rparr>);
       Some (w\<lparr>swapPoolTable := t\<rparr>)
     }
     else Some w
   }"

definition programTrapHandler :: "locals \<Rightarrow> unit prog" where
  "programTrapHandler lv =
     seq (for_each [0..<POOLSIZE] (\<lambda>i. writes (\<lambda>w. do {
            x \<leftarrow> current_pcb w;
            u \<leftarrow> supports (nuc w) (p_supportStruct x);
            release_frame (sup_asid u) i w }))) (\<lambda>_.
     seq (reads (\<lambda>w. Some (current_process (nuc w) = mutexRecv w))) (\<lambda>holder.
     seq (if holder then seq (reads (\<lambda>w. Some (mutexSender w))) (\<lambda>m.
            seq (SYSCALL SENDMESSAGE m 0) (\<lambda>_. Ret ())) else Ret ()) (\<lambda>_.
     sendKillReq lv NULL)))"

section \<open>The general exception handler\<close>

definition exc_state_of :: "nat \<Rightarrow> ptr \<Rightarrow> world \<Rightarrow> state_t option" where
  "exc_state_of k spt w = map_option (\<lambda>u. sup_exceptState u k) (supports (nuc w) spt)"

definition supExceptionHandler :: "machine \<Rightarrow> locals \<Rightarrow> unit prog" where
  "supExceptionHandler hw lv =
     seq (getSupStruct lv) (\<lambda>spt.
     seq (reads (exc_state_of GENERALEXCEPT spt)) (\<lambda>excState.
     seq (if get_exccode hw (cause excState) = SYSEXCEPTION then supSyscallHandler excState
          else programTrapHandler lv) (\<lambda>_.
     seq (on_nuc (upd_support spt (\<lambda>u. u\<lparr>sup_exceptState := (sup_exceptState u)(GENERALEXCEPT :=
            (sup_exceptState u GENERALEXCEPT)\<lparr>pc_epc := pc_epc (sup_exceptState u GENERALEXCEPT) + WORDLEN\<rparr>)\<rparr>))) (\<lambda>_.
     seq (reads (exc_state_of GENERALEXCEPT spt)) (\<lambda>excState.
     Jump (LDST excState))))))"

end
