(* ===== verification/Vm_Support.thy ===== *)
theory Vm_Support
  imports Sup_Exceptions
begin

text \<open>
  \<^verbatim>\<open>src/phase3/vmSupport.c\<close>: the swap pool and the pager.
\<close>

section \<open>The swap pool\<close>

definition initSwapStructs :: "int \<Rightarrow> world \<Rightarrow> world option" where
  "initSwapStructs entryid w = do {
     t \<leftarrow> upd_opt (swapPoolTable w) entryid \<lparr>sw_asid = NOASID, sw_pageNo = NOPAGE, sw_pte = PTE_NULL\<rparr>;
     Some (w\<lparr>swapPoolTable := t\<rparr>)
   }"

definition isFrameFree :: "int \<Rightarrow> world \<Rightarrow> bool option" where
  "isFrameFree i w = map_option (\<lambda>e. sw_asid e = NOASID) (nth_opt (swapPoolTable w) i)"

definition interrupts_off :: "world \<Rightarrow> world option" where
  "interrupts_off w = Some (w\<lparr>nuc := (nuc w)\<lparr>cp0_status := cp0_status (nuc w) AND NOT IECON\<rparr>\<rparr>)"

definition interrupts_on :: "world \<Rightarrow> world option" where
  "interrupts_on w = Some (w\<lparr>nuc := (nuc w)\<lparr>cp0_status := cp0_status (nuc w) OR IECON\<rparr>\<rparr>)"

text \<open>\<^verbatim>\<open>counter++ % POOLSIZE\<close> on C's \<^verbatim>\<open>int\<close>: the remainder has the sign of
  the dividend, and incrementing the largest value is undefined.\<close>

primrec first_free :: "nat list \<Rightarrow> world \<Rightarrow> int option option" where
  "first_free [] w = Some None"
| "first_free (i # is) w = do {
     f \<leftarrow> isFrameFree (int i) w;
     if f then Some (Some (int i)) else first_free is w
   }"

definition pick_frame :: "world \<Rightarrow> (int \<times> world) option" where
  "pick_frame w = do {
     r \<leftarrow> first_free [0..<POOLSIZE] w;
     case r of Some i \<Rightarrow> Some (i, w)
     | None \<Rightarrow> if pick_counter w \<ge> 2 ^ 31 - 1 then None
         else Some (pick_counter w smod 16, w\<lparr>pick_counter := pick_counter w + 1\<rparr>)
   }"

section \<open>The TLB\<close>

definition updateTLB :: "machine \<Rightarrow> pteEntry_t \<Rightarrow> world \<Rightarrow> world option" where
  "updateTLB hw pte w = (
     let s = (nuc w)\<lparr>cp0_entryhi := pte_entryHI pte\<rparr>;
         w1 = w\<lparr>nuc := s, cp0_index := tlb_probe hw (tlb s) (cp0_entryhi s)\<rparr> in
     if cp0_index w1 AND PRESENTFLAG = 0 then
       let s1 = s\<lparr>cp0_entrylo := pte_entryLO pte\<rparr>;
           s2 = s1\<lparr>tlb := (tlb s1)(index_slot hw (cp0_index w1) := (cp0_entryhi s1, cp0_entrylo s1))\<rparr> in
       Some (w1\<lparr>nuc := s2\<rparr>)
     else Some w1)"

section \<open>Backing store\<close>

definition flashOp :: "locals \<Rightarrow> u32 \<Rightarrow> u32 \<Rightarrow> u32 \<Rightarrow> u32 \<Rightarrow> u32 prog" where
  "flashOp lv asid block pageAddr operation = (
     let flashReg = DEV_REG_ADDR IL_FLASH (asid - 1) in
     seq (on_nuc (\<lambda>s. Some (store (flashReg + dtp_data0) pageAddr s))) (\<lambda>_.
     seq (on_nuc (\<lambda>s. Some (s\<lparr>ssi_do_ios := (ssi_do_ios s)(lv V_flash_io \<mapsto>
            \<lparr>commandAddr = flashReg + dtp_command,
             commandValue = push_bit BYTELENGTH block OR operation\<rparr>)\<rparr>))) (\<lambda>_.
     seq (put_payload (lv V_flash_payload) DOIO (lv V_flash_io)) (\<lambda>_.
     seq (ask_ssi (lv V_flash_payload) (lv V_flash_s)) (\<lambda>_.
     reads (\<lambda>w. Some (mem (nuc w) (lv V_flash_s))))))))"

section \<open>The pager\<close>

definition pte_at :: "pte_ref \<Rightarrow> world \<Rightarrow> pteEntry_t option" where
  "pte_at r w = (case r of PTE_NULL \<Rightarrow> None
     | PTE_AT p i \<Rightarrow> map_option (\<lambda>u. sup_privatePgTbl u i) (supports (nuc w) p))"

definition set_pteLO :: "pte_ref \<Rightarrow> (u32 \<Rightarrow> u32) \<Rightarrow> world \<Rightarrow> world option" where
  "set_pteLO r f w = (case r of PTE_NULL \<Rightarrow> None
     | PTE_AT p i \<Rightarrow> map_option (\<lambda>s. w\<lparr>nuc := s\<rparr>) (upd_support p (\<lambda>u. u\<lparr>sup_privatePgTbl :=
         (sup_privatePgTbl u)(i := (sup_privatePgTbl u i)\<lparr>pte_entryLO := f (pte_entryLO (sup_privatePgTbl u i))\<rparr>)\<rparr>) (nuc w)))"

definition frame_addr :: "int \<Rightarrow> u32" where
  "frame_addr f = SWAPPOOL + word_of_int f * PAGESIZE"

text \<open>The page that occupied the frame: marked not valid with interrupts off, then written back.\<close>

definition evict :: "machine \<Rightarrow> locals \<Rightarrow> int \<Rightarrow> unit prog" where
  "evict hw lv f =
     seq (writes interrupts_off) (\<lambda>_.
     seq (reads (\<lambda>w. nth_opt (swapPoolTable w) f)) (\<lambda>spte.
     seq (writes (set_pteLO (sw_pte spte) (\<lambda>v. v AND NOT VALIDON))) (\<lambda>_.
     seq (reads (pte_at (sw_pte spte))) (\<lambda>pte.
     seq (writes (updateTLB hw pte)) (\<lambda>_.
     seq (writes interrupts_on) (\<lambda>_.
     seq (reads (\<lambda>w. nth_opt (swapPoolTable w) f)) (\<lambda>spte.
     seq (flashOp lv (sw_asid spte) (sw_pageNo spte) (frame_addr f) FLASHWRITE) (\<lambda>r.
     if r \<noteq> READY then programTrapHandler lv else Ret ()))))))))"

text \<open>The new owner of the frame in the swap pool table, and its page table entry.\<close>

definition claim_frame :: "int \<Rightarrow> ptr \<Rightarrow> nat \<Rightarrow> world \<Rightarrow> world option" where
  "claim_frame f spt p w = do {
     u \<leftarrow> supports (nuc w) spt;
     t \<leftarrow> upd_opt (swapPoolTable w) f \<lparr>sw_asid = sup_asid u, sw_pageNo = of_nat p, sw_pte = PTE_AT spt p\<rparr>;
     Some (w\<lparr>swapPoolTable := t\<rparr>)
   }"

definition map_page :: "machine \<Rightarrow> int \<Rightarrow> ptr \<Rightarrow> nat \<Rightarrow> unit prog" where
  "map_page hw f spt p =
     seq (writes interrupts_off) (\<lambda>_.
     seq (writes (set_pteLO (PTE_AT spt p) (\<lambda>v. v OR (VALIDON OR DIRTYON)))) (\<lambda>_.
     seq (writes (set_pteLO (PTE_AT spt p) (\<lambda>v. v AND 0xFFF))) (\<lambda>_.
     seq (writes (set_pteLO (PTE_AT spt p) (\<lambda>v. v OR frame_addr f))) (\<lambda>_.
     seq (reads (pte_at (PTE_AT spt p))) (\<lambda>pte.
     seq (writes (updateTLB hw pte)) (\<lambda>_.
     writes interrupts_on))))))"

text \<open>What the pager does while it holds the swap pool.\<close>

definition serve_fault :: "machine \<Rightarrow> locals \<Rightarrow> ptr \<Rightarrow> unit prog" where
  "serve_fault hw lv spt =
     seq (reads (exc_state_of PGFAULTEXCEPT spt)) (\<lambda>supState.
     seq (reads (\<lambda>_. page_index (get_vpn hw) (entry_hi supState))) (\<lambda>p.
     seq (Act (\<lambda>w. map_option (\<lambda>(f, w'). (Ret f, w')) (pick_frame w))) (\<lambda>f.
     seq (reads (isFrameFree f)) (\<lambda>free.
     seq (if \<not> free then evict hw lv f else Ret ()) (\<lambda>_.
     seq (reads (\<lambda>w. map_option sup_asid (supports (nuc w) spt))) (\<lambda>asid.
     seq (flashOp lv asid (of_nat p) (frame_addr f) FLASHREAD) (\<lambda>r.
     seq (if r \<noteq> READY then programTrapHandler lv else Ret ()) (\<lambda>_.
     seq (writes (claim_frame f spt p)) (\<lambda>_.
     map_page hw f spt p)))))))))"

definition pager :: "machine \<Rightarrow> locals \<Rightarrow> unit prog" where
  "pager hw lv =
     seq (getSupStruct lv) (\<lambda>spt.
     seq (reads (exc_state_of PGFAULTEXCEPT spt)) (\<lambda>supState.
     seq (if get_exccode hw (cause supState) = TLBINVLDM then programTrapHandler lv else Ret ()) (\<lambda>_.
     seq askMutex (\<lambda>_.
     seq (serve_fault hw lv spt) (\<lambda>_.
     seq (reads (\<lambda>w. Some (mutexSender w))) (\<lambda>m.
     seq (SYSCALL SENDMESSAGE m 0) (\<lambda>_.
     seq (reads (exc_state_of PGFAULTEXCEPT spt)) (\<lambda>supState.
     Jump (LDST supState)))))))))"

end
