(* ===== verification/Swap_Correct.thy ===== *)
theory Swap_Correct
  imports Vm_Support
begin

text \<open>
  The swap pool: which frame is picked, what the TLB holds after an update, and what the pager leaves
  when it has served a fault.
\<close>

section \<open>Picking a frame\<close>

definition pool_ok :: "world \<Rightarrow> bool" where
  "pool_ok w \<longleftrightarrow> length (swapPoolTable w) = POOLSIZE"

definition occupied :: "world \<Rightarrow> nat \<Rightarrow> bool" where
  "occupied w i \<longleftrightarrow> sw_asid (swapPoolTable w ! i) \<noteq> NOASID"

lemma first_free_find:
  assumes "pool_ok w"
  shows "set is \<subseteq> {..<16} \<Longrightarrow> first_free is w = Some (map_option int (find (\<lambda>i. \<not> occupied w i) is))"
proof (induction "is")
  case (Cons i "is")
  then show ?case using assms by (auto simp: isFrameFree_def pool_ok_def occupied_def)
qed simp

lemma pick_frame_free:
  assumes p: "pool_ok w" and f: "\<exists>i < 16. \<not> occupied w i"
  shows "pick_frame w = Some (int (LEAST i. \<not> occupied w i), w)"
proof -
  define k where "k = (LEAST i. \<not> occupied w i)"
  from f obtain j where j: "j < 16" "\<not> occupied w j" by blast
  have l: "\<not> occupied w k" unfolding k_def by (rule LeastI) (rule j(2))
  have lt: "k < 16" using Least_le [of "\<lambda>i. \<not> occupied w i" j] j by (simp add: k_def)
  have n: "occupied w i" if "i < k" for i using not_less_Least [OF that [unfolded k_def]] by simp
  have "find (\<lambda>i. \<not> occupied w i) [0..<16] = Some k"
    unfolding find_Some_iff using l lt n by (intro exI [of _ k]) (simp del: upt_Suc)
  moreover have "first_free [0..<16] w = Some (map_option int (find (\<lambda>i. \<not> occupied w i) [0..<16]))"
    by (rule first_free_find [OF p]) auto
  ultimately show ?thesis unfolding k_def [symmetric] by (simp add: pick_frame_def del: upt_Suc)
qed

text \<open>A full pool: the frames go round, except that the first eviction after the start asks for frame
  -1.\<close>

lemma pick_frame_full:
  assumes p: "pool_ok w" and f: "\<forall>i < 16. occupied w i" and c: "pick_counter w < 2 ^ 31 - 1"
  shows "pick_frame w = Some (pick_counter w smod 16, w\<lparr>pick_counter := pick_counter w + 1\<rparr>)"
proof -
  have "find (\<lambda>i. \<not> occupied w i) [0..<16] = None" using f by (simp add: find_None_iff)
  moreover have "first_free [0..<16] w = Some (map_option int (find (\<lambda>i. \<not> occupied w i) [0..<16]))"
    by (rule first_free_find [OF p]) auto
  ultimately show ?thesis using c by (simp add: pick_frame_def del: upt_Suc)
qed

lemma smod_start: "- 1 smod 16 = (- 1 :: int)"
  by (simp add: signed_modulo_int_def signed_divide_int_def)

lemma smod_nonneg: "0 \<le> n \<Longrightarrow> n smod 16 = (n mod 16 :: int)"
  by (simp add: signed_modulo_int_def signed_divide_int_def minus_div_mult_eq_mod sgn_if)

section \<open>The TLB\<close>

text \<open>The documented behaviour of \<^verbatim>\<open>TLBP\<close>: the probe finds a slot with the tag of
  EntryHi, or sets the P bit when there is none.\<close>

definition probe_ok :: "machine \<Rightarrow> bool" where
  "probe_ok hw \<longleftrightarrow> (\<forall>t h. if tlb_probe hw t h AND PRESENTFLAG = 0
     then index_slot hw (tlb_probe hw t h) < tlb_size hw \<and> fst (t (index_slot hw (tlb_probe hw t h))) = h
     else (\<forall>i < tlb_size hw. fst (t i) \<noteq> h))"

definition tlb_updated :: "machine \<Rightarrow> pteEntry_t \<Rightarrow> world \<Rightarrow> world" where
  "tlb_updated hw pte w = (
     let t = tlb (nuc w); x = tlb_probe hw t (pte_entryHI pte) in
     if x AND PRESENTFLAG = 0
     then w\<lparr>nuc := (nuc w)\<lparr>cp0_entryhi := pte_entryHI pte, cp0_entrylo := pte_entryLO pte,
              tlb := t(index_slot hw x := (pte_entryHI pte, pte_entryLO pte))\<rparr>, cp0_index := x\<rparr>
     else w\<lparr>nuc := (nuc w)\<lparr>cp0_entryhi := pte_entryHI pte\<rparr>, cp0_index := x\<rparr>)"

lemma updateTLB_eq: "updateTLB hw pte w = Some (tlb_updated hw pte w)"
  by (simp add: updateTLB_def tlb_updated_def Let_def)

section \<open>What the pager keeps\<close>

text \<open>The pages of all address spaces: for each support structure its ASID and page table.\<close>

type_synonym spaces = "ptr \<Rightarrow> (u32 \<times> (nat \<Rightarrow> pteEntry_t)) option"

definition spaces_of :: "world \<Rightarrow> spaces" where
  "spaces_of w p = map_option (\<lambda>u. (sup_asid u, sup_privatePgTbl u)) (supports (nuc w) p)"

definition valid_entry :: "pteEntry_t \<Rightarrow> bool" where
  "valid_entry e \<longleftrightarrow> bit (pte_entryLO e) 9"

definition entry_frame :: "pteEntry_t \<Rightarrow> u32" where
  "entry_frame e = push_bit 12 (drop_bit 12 (pte_entryLO e))"

text \<open>No TLB entry differs from the page table entry with its tag; no page is in the TLB twice; tags are
  unique among the pages; an occupied frame names the page it holds; a valid page has a frame of its own.\<close>

definition tlb_coherent :: "machine \<Rightarrow> (nat \<Rightarrow> u32 \<times> u32) \<Rightarrow> spaces \<Rightarrow> bool" where
  "tlb_coherent hw t V \<longleftrightarrow> (\<forall>s p a g j. s < tlb_size hw \<longrightarrow> V p = Some (a, g) \<longrightarrow> j < 32 \<longrightarrow>
     fst (t s) = pte_entryHI (g j) \<longrightarrow> snd (t s) = pte_entryLO (g j))"

definition page_tag :: "spaces \<Rightarrow> u32 \<Rightarrow> bool" where
  "page_tag V h \<longleftrightarrow> (\<exists>p a g j. V p = Some (a, g) \<and> j < 32 \<and> pte_entryHI (g j) = h)"

definition tags_unique :: "machine \<Rightarrow> (nat \<Rightarrow> u32 \<times> u32) \<Rightarrow> spaces \<Rightarrow> bool" where
  "tags_unique hw t V \<longleftrightarrow> (\<forall>i j. i < tlb_size hw \<longrightarrow> j < tlb_size hw \<longrightarrow> page_tag V (fst (t i)) \<longrightarrow>
     fst (t i) = fst (t j) \<longrightarrow> i = j)"

definition pages_distinct :: "spaces \<Rightarrow> bool" where
  "pages_distinct V \<longleftrightarrow> (\<forall>p a g j q b h i. V p = Some (a, g) \<longrightarrow> V q = Some (b, h) \<longrightarrow> j < 32 \<longrightarrow> i < 32 \<longrightarrow>
     pte_entryHI (g j) = pte_entryHI (h i) \<longrightarrow> p = q \<and> j = i)"

definition refs_ok :: "swap_t list \<Rightarrow> spaces \<Rightarrow> bool" where
  "refs_ok t V \<longleftrightarrow> (\<forall>f < 16. sw_asid (t ! f) \<noteq> NOASID \<longrightarrow>
     (\<exists>p j. sw_pte (t ! f) = PTE_AT p j \<and> j < 32 \<and> V p \<noteq> None))"

definition isolated :: "swap_t list \<Rightarrow> spaces \<Rightarrow> bool" where
  "isolated t V \<longleftrightarrow> (\<forall>p a g j. V p = Some (a, g) \<longrightarrow> j < 32 \<longrightarrow> valid_entry (g j) \<longrightarrow>
     (\<exists>f < 16. sw_asid (t ! f) \<noteq> NOASID \<and> sw_pte (t ! f) = PTE_AT p j \<and> entry_frame (g j) = frame_addr (int f)))"

definition tlb_ok :: "machine \<Rightarrow> world \<Rightarrow> bool" where
  "tlb_ok hw w \<longleftrightarrow> tags_unique hw (tlb (nuc w)) (spaces_of w) \<and> tlb_coherent hw (tlb (nuc w)) (spaces_of w)"

definition vm_inv :: "machine \<Rightarrow> world \<Rightarrow> bool" where
  "vm_inv hw w \<longleftrightarrow> pool_ok w \<and> refs_ok (swapPoolTable w) (spaces_of w) \<and> pages_distinct (spaces_of w) \<and>
     isolated (swapPoolTable w) (spaces_of w) \<and> tlb_ok hw w"

text \<open>The rest of the system while a process holds the swap pool: it changes neither the pool nor the
  page tables, and the TLB stays coherent.\<close>

definition same_vm :: "world \<Rightarrow> world \<Rightarrow> bool" where
  "same_vm w w' \<longleftrightarrow> swapPoolTable w' = swapPoolTable w \<and> pick_counter w' = pick_counter w \<and> spaces_of w' = spaces_of w"

definition quiet :: "machine \<Rightarrow> env \<Rightarrow> bool" where
  "quiet hw E \<longleftrightarrow> (\<forall>c w v w'. E c w = Some (v, w') \<longrightarrow>
     same_vm w w' \<and> (pages_distinct (spaces_of w) \<longrightarrow> tlb_ok hw w \<longrightarrow> tlb_ok hw w'))"

definition flash_works :: "env \<Rightarrow> locals \<Rightarrow> bool" where
  "flash_works E lv \<longleftrightarrow> (\<forall>c w. E c w \<noteq> None) \<and> (\<forall>x w v w'.
     E (RECEIVEMESSAGE, x, lv V_flash_s) w = Some (v, w') \<longrightarrow> mem (nuc w') (lv V_flash_s) = READY)"

lemma same_vm_refl [simp]: "same_vm w w"
  by (simp add: same_vm_def)

lemma same_vm_trans: "same_vm a b \<Longrightarrow> same_vm b c \<Longrightarrow> same_vm a c"
  by (simp add: same_vm_def)

text \<open>Two valid pages never share a frame.\<close>

lemma frame_addr_bits:
  assumes "f < 16"
  shows "frame_addr (int f) = push_bit 12 (0x20020 + of_nat f)"
  by (simp add: frame_addr_def push_bit_eq_mult algebra_simps)

lemma frame_addr_inj: "f < 16 \<Longrightarrow> g < 16 \<Longrightarrow> frame_addr (int f) = frame_addr (int g) \<Longrightarrow> f = g"
proof -
  assume a: "f < 16" "g < 16" "frame_addr (int f) = frame_addr (int g)"
  then have "(of_nat (0x1000 * f) :: u32) = of_nat (0x1000 * g)"
    by (simp add: frame_addr_def mult.commute)
  then have "unat (of_nat (0x1000 * f) :: u32) = unat (of_nat (0x1000 * g) :: u32)" by simp
  then show "f = g" using a(1,2) by (simp add: unat_of_nat take_bit_nat_eq_self del: of_nat_mult)
qed

lemma isolated_frames:
  assumes "isolated t V" "V p = Some (a, g)" "V q = Some (b, h)" "j < 32" "i < 32"
    and "valid_entry (g j)" "valid_entry (h i)" "entry_frame (g j) = entry_frame (h i)"
  shows "p = q \<and> j = i"
proof -
  from assms obtain f f' where "f < 16" "sw_pte (t ! f) = PTE_AT p j" "entry_frame (g j) = frame_addr (int f)"
    "f' < 16" "sw_pte (t ! f') = PTE_AT q i" "entry_frame (h i) = frame_addr (int f')"
    unfolding isolated_def by metis
  then show ?thesis using assms(8) frame_addr_inj [of f f'] by simp
qed

section \<open>The steps of the pager\<close>

definition new_lo :: "(nat \<Rightarrow> pteEntry_t) \<Rightarrow> nat \<Rightarrow> u32 \<Rightarrow> nat \<Rightarrow> pteEntry_t" where
  "new_lo g i x = g(i := (g i)\<lparr>pte_entryLO := x\<rparr>)"

lemma set_pteLO_effect:
  assumes "spaces_of w q = Some (a, g)"
  shows "\<exists>w'. set_pteLO (PTE_AT q i) f w = Some w' \<and>
    spaces_of w' = (spaces_of w)(q \<mapsto> (a, new_lo g i (f (pte_entryLO (g i))))) \<and>
    swapPoolTable w' = swapPoolTable w \<and> pick_counter w' = pick_counter w \<and> tlb (nuc w') = tlb (nuc w)"
proof -
  from assms obtain u where u: "supports (nuc w) q = Some u" "sup_asid u = a" "sup_privatePgTbl u = g"
    by (auto simp: spaces_of_def)
  then show ?thesis by (auto simp: set_pteLO_def upd_support_def spaces_of_def new_lo_def fun_eq_iff)
qed

lemma pte_at_eq: "spaces_of w q = Some (a, g) \<Longrightarrow> pte_at (PTE_AT q i) w = Some (g i)"
  by (auto simp: spaces_of_def pte_at_def)

lemma updateTLB_effect:
  "\<exists>w'. updateTLB hw e w = Some w' \<and> w' = tlb_updated hw e w \<and> spaces_of w' = spaces_of w \<and>
    swapPoolTable w' = swapPoolTable w \<and> pick_counter w' = pick_counter w"
  by (auto simp: updateTLB_eq tlb_updated_def spaces_of_def Let_def fun_eq_iff)

text \<open>Writing an entry and then refreshing the TLB keeps it coherent.\<close>

lemma page_tag_new_lo: "V q = Some (a, g) \<Longrightarrow> page_tag (V(q \<mapsto> (a, new_lo g i x))) h = page_tag V h"
  unfolding page_tag_def new_lo_def by (rule iffI) (elim exE conjE, rename_tac p b k j, case_tac "p = q", force, force)+

lemma tlb_updated_slots:
  assumes hw: "probe_ok hw"
  shows "\<And>s. s < tlb_size hw \<Longrightarrow> fst (tlb (nuc (tlb_updated hw e w)) s) = fst (tlb (nuc w) s)"
    and "\<And>s. fst (tlb (nuc w) s) \<noteq> pte_entryHI e \<Longrightarrow> tlb (nuc (tlb_updated hw e w)) s = tlb (nuc w) s"
proof -
  let ?x = "tlb_probe hw (tlb (nuc w)) (pte_entryHI e)"
  have "?x AND PRESENTFLAG = 0 \<Longrightarrow> fst (tlb (nuc w) (index_slot hw ?x)) = pte_entryHI e"
    using hw unfolding probe_ok_def by meson
  then show "\<And>s. s < tlb_size hw \<Longrightarrow> fst (tlb (nuc (tlb_updated hw e w)) s) = fst (tlb (nuc w) s)"
    "\<And>s. fst (tlb (nuc w) s) \<noteq> pte_entryHI e \<Longrightarrow> tlb (nuc (tlb_updated hw e w)) s = tlb (nuc w) s"
    by (auto simp: tlb_updated_def Let_def)
qed

lemma tlb_updated_fresh:
  assumes hw: "probe_ok hw" and u: "tags_unique hw (tlb (nuc w)) V" and p: "page_tag V (pte_entryHI e)"
    and s: "s < tlb_size hw" "fst (tlb (nuc w) s) = pte_entryHI e"
  shows "snd (tlb (nuc (tlb_updated hw e w)) s) = pte_entryLO e"
proof -
  let ?x = "tlb_probe hw (tlb (nuc w)) (pte_entryHI e)"
  have x: "?x AND PRESENTFLAG = 0" using hw s unfolding probe_ok_def by meson
  then have "index_slot hw ?x < tlb_size hw" "fst (tlb (nuc w) (index_slot hw ?x)) = pte_entryHI e"
    using hw unfolding probe_ok_def by meson+
  then have "s = index_slot hw ?x" using u s p unfolding tags_unique_def by metis
  then show ?thesis using x by (simp add: tlb_updated_def Let_def)
qed

lemma refresh_coherent:
  assumes hw: "probe_ok hw" and u: "tags_unique hw (tlb (nuc w)) V" and c: "tlb_coherent hw (tlb (nuc w)) V"
    and d: "pages_distinct V" and q: "V q = Some (a, g)" "i < 32"
    and V': "spaces_of w = V(q \<mapsto> (a, new_lo g i x))"
    and w': "w' = tlb_updated hw (new_lo g i x i) w"
  shows "tlb_ok hw w'"
proof -
  let ?e = "new_lo g i x i"
  have e: "pte_entryHI ?e = pte_entryHI (g i)" by (simp add: new_lo_def)
  have pt: "page_tag V (pte_entryHI ?e)" unfolding e page_tag_def using q by blast
  note fst_same = tlb_updated_slots(1) [OF hw, of _ ?e w] and same = tlb_updated_slots(2) [OF hw, of w _ ?e]
  have sp: "spaces_of w' = spaces_of w"
    unfolding w' by (auto simp: tlb_updated_def spaces_of_def Let_def fun_eq_iff)
  have "snd (tlb (nuc w') s) = pte_entryLO (h j)"
    if s: "s < tlb_size hw" and p: "spaces_of w' p = Some (b, h)" "j < 32" "fst (tlb (nuc w') s) = pte_entryHI (h j)"
    for s p b h j
  proof (cases "p = q \<and> j = i")
    case True
    then have "h j = ?e" using p(1) by (simp add: sp V')
    then show ?thesis using tlb_updated_fresh [OF hw u pt s] p(3) fst_same [OF s] by (simp add: w')
  next
    case False
    obtain h' where h': "V p = Some (b, h')" "pte_entryHI (h j) = pte_entryHI (h' j)" "pte_entryLO (h j) = pte_entryLO (h' j)"
      using p(1) False q by (cases "p = q") (auto simp: sp V' new_lo_def)
    have ne: "pte_entryHI (h j) \<noteq> pte_entryHI ?e"
      using d h'(1,2) q p(2) False unfolding pages_distinct_def e by metis
    then have "fst (tlb (nuc w) s) \<noteq> pte_entryHI ?e" using p(3) fst_same [OF s] by (simp add: w')
    then have "tlb (nuc w') s = tlb (nuc w) s" using same by (simp add: w')
    then show ?thesis using c s h' p(2,3) unfolding tlb_coherent_def by metis
  qed
  moreover have "tags_unique hw (tlb (nuc w')) (spaces_of w')"
    using u fst_same unfolding tags_unique_def w' [symmetric] sp V' page_tag_new_lo [where V = V and q = q and a = a and g = g and i = i and x = x, OF q(1)] by metis
  ultimately show ?thesis unfolding tlb_ok_def tlb_coherent_def by blast
qed

text \<open>Steps that touch neither the pool, nor the page tables, nor the TLB.\<close>

definition vm_frame :: "machine \<Rightarrow> world \<Rightarrow> world \<Rightarrow> bool" where
  "vm_frame hw w w' \<longleftrightarrow> same_vm w w' \<and> (pages_distinct (spaces_of w) \<longrightarrow> tlb_ok hw w \<longrightarrow> tlb_ok hw w')"

lemma vm_frameI: "same_vm w w' \<Longrightarrow> tlb (nuc w') = tlb (nuc w) \<Longrightarrow> vm_frame hw w w'"
  by (simp add: vm_frame_def tlb_ok_def same_vm_def)

lemma vm_frame_trans: "vm_frame hw a b \<Longrightarrow> vm_frame hw b c \<Longrightarrow> vm_frame hw a c"
  by (auto simp: vm_frame_def same_vm_def)

lemma vm_frame_env: "quiet hw E \<Longrightarrow> E c w = Some (v, w') \<Longrightarrow> vm_frame hw w w'"
  unfolding quiet_def vm_frame_def by blast

lemma vm_frame_nuc:
  "supports s = supports (nuc w) \<Longrightarrow> tlb s = tlb (nuc w) \<Longrightarrow> vm_frame hw w (w\<lparr>nuc := s\<rparr>)"
  by (rule vm_frameI) (simp_all add: same_vm_def spaces_of_def fun_eq_iff)

lemma run_ask_ssi:
  assumes q: "quiet hw E" and f: "flash_works E lv"
  shows "\<exists>w'. run (ask_ssi payload answer) E w = (Done (), w') \<and> vm_frame hw w w' \<and>
    (answer = lv V_flash_s \<longrightarrow> mem (nuc w') answer = READY)"
proof -
  obtain v1 w1 where 1: "E (SENDMESSAGE, ssi_pcb (nuc w), payload) w = Some (v1, w1)"
    using f unfolding flash_works_def by fastforce
  obtain v2 w2 where 2: "E (RECEIVEMESSAGE, ssi_pcb (nuc w1), answer) w1 = Some (v2, w2)"
    using f unfolding flash_works_def by fastforce
  have "run (ask_ssi payload answer) E w = (Done (), w2)"
    using 1 2 by (simp add: ask_ssi_def run_seq)
  moreover have "vm_frame hw w w2" using vm_frame_env [OF q 1] vm_frame_env [OF q 2] vm_frame_trans by blast
  moreover have "mem (nuc w2) answer = READY" if "answer = lv V_flash_s"
    using f 2 that unfolding flash_works_def by blast
  ultimately show ?thesis by blast
qed

lemma run_flashOp:
  assumes q: "quiet hw E" and f: "flash_works E lv"
  shows "\<exists>w'. run (flashOp lv asid block addr op) E w = (Done READY, w') \<and> vm_frame hw w w'"
proof -
  let ?r = "DEV_REG_ADDR IL_FLASH (asid - 1)"
  let ?s1 = "store (?r + dtp_data0) addr (nuc w)"
  let ?s2 = "?s1\<lparr>ssi_do_ios := (ssi_do_ios ?s1)(lv V_flash_io \<mapsto>
     \<lparr>commandAddr = ?r + dtp_command, commandValue = push_bit BYTELENGTH block OR op\<rparr>)\<rparr>"
  let ?s3 = "?s2\<lparr>ssi_payloads := (ssi_payloads ?s2)(lv V_flash_payload \<mapsto> \<lparr>service_code = DOIO, arg = lv V_flash_io\<rparr>)\<rparr>"
  have fr: "vm_frame hw w (w\<lparr>nuc := ?s3\<rparr>)" by (rule vm_frame_nuc) (simp_all add: store_def)
  from run_ask_ssi [OF q f, of "lv V_flash_payload" "lv V_flash_s" "w\<lparr>nuc := ?s3\<rparr>"] obtain w' where
    w': "run (ask_ssi (lv V_flash_payload) (lv V_flash_s)) E (w\<lparr>nuc := ?s3\<rparr>) = (Done (), w')"
    "vm_frame hw (w\<lparr>nuc := ?s3\<rparr>) w'" "mem (nuc w') (lv V_flash_s) = READY" by blast
  have "run (flashOp lv asid block addr op) E w = (Done READY, w')"
    using w'(1,3) by (simp add: flashOp_def put_payload_def Let_def run_seq)
  then show ?thesis using fr w'(2) vm_frame_trans by blast
qed

lemma spaces_upd_refs: "refs_ok t V \<Longrightarrow> refs_ok t (V(q \<mapsto> x))"
  unfolding refs_ok_def by (metis fun_upd_apply option.distinct(1))

lemma pages_distinct_upd:
  "pages_distinct V \<Longrightarrow> V q = Some (a, g) \<Longrightarrow> pages_distinct (V(q \<mapsto> (a, new_lo g i x)))"
proof -
  assume d: "pages_distinct V" and q: "V q = Some (a, g)"
  have e: "\<exists>g'. V p = Some (b, g') \<and> (\<forall>j. pte_entryHI (h j) = pte_entryHI (g' j))"
    if "(V(q \<mapsto> (a, new_lo g i x))) p = Some (b, h)" for p b h
    using that q by (auto simp: new_lo_def split: if_splits)
  show ?thesis
    unfolding pages_distinct_def using d e unfolding pages_distinct_def by metis
qed

text \<open>The pte of the frame, off and back in the TLB.\<close>

lemma run_evict:
  assumes inv: "vm_inv hw w" and f: "f < 16" "occupied w f" and hw: "probe_ok hw" and E: "quiet hw E" "flash_works E lv"
  shows "\<exists>w' q i a g. sw_pte (swapPoolTable w ! f) = PTE_AT q i \<and> i < 32 \<and> spaces_of w q = Some (a, g) \<and>
    run (evict hw lv (int f)) E w = (Done (), w') \<and>
    spaces_of w' = (spaces_of w)(q \<mapsto> (a, new_lo g i (pte_entryLO (g i) AND NOT VALIDON))) \<and>
    swapPoolTable w' = swapPoolTable w \<and> tlb_ok hw w'"
proof -
  have len: "length (swapPoolTable w) = 16" using inv by (simp add: vm_inv_def pool_ok_def)
  obtain q i where r: "sw_pte (swapPoolTable w ! f) = PTE_AT q i" "i < 32" "spaces_of w q \<noteq> None"
    using inv f unfolding vm_inv_def refs_ok_def occupied_def by blast
  then obtain a g where g: "spaces_of w q = Some (a, g)" by auto
  let ?x = "pte_entryLO (g i) AND NOT VALIDON"
  obtain w1 where w1: "interrupts_off w = Some w1" "spaces_of w1 = spaces_of w" "swapPoolTable w1 = swapPoolTable w"
    "tlb (nuc w1) = tlb (nuc w)"
    by (simp add: interrupts_off_def spaces_of_def fun_eq_iff)
  from set_pteLO_effect [of w1 q a g i "\<lambda>v. v AND NOT VALIDON"] w1(2) g obtain w2 where
    w2: "set_pteLO (PTE_AT q i) (\<lambda>v. v AND NOT VALIDON) w1 = Some w2"
    "spaces_of w2 = (spaces_of w)(q \<mapsto> (a, new_lo g i ?x))" "swapPoolTable w2 = swapPoolTable w"
    "tlb (nuc w2) = tlb (nuc w)" using w1 by auto
  have p2: "pte_at (PTE_AT q i) w2 = Some (new_lo g i ?x i)" using pte_at_eq [of w2 q] w2(2) by simp
  from updateTLB_effect [of hw "new_lo g i ?x i" w2] obtain w3 where
    w3: "updateTLB hw (new_lo g i ?x i) w2 = Some w3" "w3 = tlb_updated hw (new_lo g i ?x i) w2"
    "spaces_of w3 = spaces_of w2" "swapPoolTable w3 = swapPoolTable w2" by blast
  have ok3: "tlb_ok hw w3"
    using refresh_coherent [OF hw _ _ _ g r(2) w2(2) w3(2)] inv w2(4) by (simp add: vm_inv_def tlb_ok_def)
  obtain w4 where w4: "interrupts_on w3 = Some w4" "spaces_of w4 = spaces_of w3" "swapPoolTable w4 = swapPoolTable w3"
    "tlb (nuc w4) = tlb (nuc w3)"
    by (simp add: interrupts_on_def spaces_of_def fun_eq_iff)
  let ?e = "swapPoolTable w ! f"
  from run_flashOp [OF E, of "sw_asid ?e" "sw_pageNo ?e" "frame_addr (int f)" FLASHWRITE w4] obtain w5 where
    w5: "run (flashOp lv (sw_asid ?e) (sw_pageNo ?e) (frame_addr (int f)) FLASHWRITE) E w4 = (Done READY, w5)"
    "vm_frame hw w4 w5" by blast
  have "run (evict hw lv (int f)) E w = (Done (), w5)"
    using w1(1,3) w2(1,3) p2 w3(1,4) w4(1,3) w5(1) len f(1) r(1) by (simp add: evict_def run_seq)
  moreover have "spaces_of w5 = (spaces_of w)(q \<mapsto> (a, new_lo g i ?x))" "swapPoolTable w5 = swapPoolTable w"
    using w5(2) w4 w3 w2 by (simp_all add: vm_frame_def same_vm_def)
  moreover have "pages_distinct (spaces_of w4)"
    unfolding w4(2) w3(3) w2(2) by (rule pages_distinct_upd) (use inv g in \<open>simp_all add: vm_inv_def\<close>)
  then have "tlb_ok hw w5" using w5(2) w4 ok3 by (simp add: vm_frame_def tlb_ok_def)
  ultimately show ?thesis using r g by blast
qed

text \<open>The word the entry of the page gets.\<close>

definition mapped_lo :: "u32 \<Rightarrow> nat \<Rightarrow> u32" where
  "mapped_lo v f = (v OR (VALIDON OR DIRTYON)) AND 0xFFF OR frame_addr (int f)"

lemma mapped_lo_bits:
  assumes "f < 16"
  shows "bit (mapped_lo v f) 9" "push_bit 12 (drop_bit 12 (mapped_lo v f)) = frame_addr (int f)"
proof -
  have fr: "bit (frame_addr (int f)) n \<Longrightarrow> 12 \<le> n" for n
    unfolding frame_addr_bits [OF assms] by (simp add: bit_push_bit_iff)
  have m: "bit (0xFFF :: u32) n \<longleftrightarrow> n < 12" for n
  proof -
    have "bit (mask 12 :: u32) n \<longleftrightarrow> n < 12" unfolding bit_mask_iff by auto
    moreover have "(mask 12 :: u32) = 0xFFF" by (simp add: mask_eq_exp_minus_1)
    ultimately show ?thesis by (simp only:)
  qed
  show "bit (mapped_lo v f) 9"
    using m [of 9] by (simp add: mapped_lo_def bit_or_iff bit_and_iff bit_numeral_rec)
  show "push_bit 12 (drop_bit 12 (mapped_lo v f)) = frame_addr (int f)"
  proof (rule bit_word_eqI)
    fix n :: nat assume "n < LENGTH(32)"
    then show "bit (push_bit 12 (drop_bit 12 (mapped_lo v f))) n = bit (frame_addr (int f)) n"
      using fr [of n] m [of n]
      by (auto simp: bit_push_bit_iff bit_drop_bit_eq mapped_lo_def bit_or_iff bit_and_iff)
  qed
qed

lemma isolated_claim:
  assumes iso: "isolated t V" and len: "length t = 16" and f: "f < 16" and V: "V p = Some (a, g)"
    and unused: "sw_asid (t ! f) = NOASID \<or> (\<exists>q i b h. sw_pte (t ! f) = PTE_AT q i \<and> V q = Some (b, h) \<and> \<not> valid_entry (h i))"
    and e: "sw_asid e \<noteq> NOASID" "sw_pte e = PTE_AT p j" and x: "push_bit 12 (drop_bit 12 x) = frame_addr (int f)"
  shows "isolated (t[f := e]) (V(p \<mapsto> (a, new_lo g j x)))"
  unfolding isolated_def
proof (intro allI impI)
  fix q b h i assume h: "(V(p \<mapsto> (a, new_lo g j x))) q = Some (b, h)" "i < 32" "valid_entry (h i)"
  show "\<exists>k < 16. sw_asid (t[f := e] ! k) \<noteq> NOASID \<and> sw_pte (t[f := e] ! k) = PTE_AT q i \<and>
      entry_frame (h i) = frame_addr (int k)"
  proof (cases "q = p \<and> i = j")
    case True
    then have "entry_frame (h i) = frame_addr (int f)" using h(1) x by (auto simp: new_lo_def entry_frame_def)
    then show ?thesis using True e f len by (intro exI [of _ f]) simp
  next
    case False
    then obtain h' where h': "V q = Some (b, h')" "h i = h' i"
      using h(1) V by (cases "q = p") (auto simp: new_lo_def)
    then obtain k where k: "k < 16" "sw_asid (t ! k) \<noteq> NOASID" "sw_pte (t ! k) = PTE_AT q i"
      "entry_frame (h' i) = frame_addr (int k)" using iso h(2,3) unfolding isolated_def by metis
    have "k \<noteq> f" using unused k(2,3) h' h(3) by auto
    then show ?thesis using k h'(2) len by (intro exI [of _ k]) simp
  qed
qed

lemma refs_ok_claim:
  assumes "refs_ok t V" "length t = 16" "sw_pte e = PTE_AT p j" "j < 32" "V p = Some (a, g)"
  shows "refs_ok (t[f := e]) V"
  unfolding refs_ok_def
proof (intro allI impI)
  fix k assume k: "k < 16" "sw_asid (t[f := e] ! k) \<noteq> NOASID"
  show "\<exists>p j. sw_pte (t[f := e] ! k) = PTE_AT p j \<and> j < 32 \<and> V p \<noteq> None"
  proof (cases "k = f")
    case True
    then show ?thesis using assms k(1) by simp
  next
    case False
    then show ?thesis using assms(1) k unfolding refs_ok_def by simp
  qed
qed

lemma isolated_invalidate:
  assumes iso: "isolated t V" and V: "V q = Some (a, g)"
  shows "isolated t (V(q \<mapsto> (a, new_lo g i (pte_entryLO (g i) AND NOT VALIDON))))"
    and "\<not> valid_entry (new_lo g i (pte_entryLO (g i) AND NOT VALIDON) i)"
proof -
  show nv: "\<not> valid_entry (new_lo g i (pte_entryLO (g i) AND NOT VALIDON) i)"
    by (simp add: valid_entry_def new_lo_def bit_and_iff bit_not_iff bit_numeral_rec)
  show "isolated t (V(q \<mapsto> (a, new_lo g i (pte_entryLO (g i) AND NOT VALIDON))))"
    unfolding isolated_def
  proof (intro allI impI)
    fix p b h j assume h: "(V(q \<mapsto> (a, new_lo g i (pte_entryLO (g i) AND NOT VALIDON)))) p = Some (b, h)"
      "j < 32" "valid_entry (h j)"
    then have "\<not> (p = q \<and> j = i)" using nv by auto
    then obtain h' where "V p = Some (b, h')" "h j = h' j"
      using h(1) V by (cases "p = q") (auto simp: new_lo_def)
    then show "\<exists>f < 16. sw_asid (t ! f) \<noteq> NOASID \<and> sw_pte (t ! f) = PTE_AT p j \<and>
        entry_frame (h j) = frame_addr (int f)"
      using iso h(2,3) unfolding isolated_def by metis
  qed
qed

lemma run_map_page:
  assumes g: "spaces_of w spt = Some (a, g)" "p < 32" and tl: "tlb_ok hw w" and d: "pages_distinct (spaces_of w)"
    and hw: "probe_ok hw"
  shows "\<exists>w'. run (map_page hw (int f) spt p) E w = (Done (), w') \<and> tlb_ok hw w' \<and>
    spaces_of w' = (spaces_of w)(spt \<mapsto> (a, new_lo g p (mapped_lo (pte_entryLO (g p)) f))) \<and>
    swapPoolTable w' = swapPoolTable w"
proof -
  let ?v = "pte_entryLO (g p)" and ?r = "PTE_AT spt p"
  let ?v1 = "?v OR (VALIDON OR DIRTYON)"
  obtain w1 where w1: "interrupts_off w = Some w1" "spaces_of w1 = spaces_of w" "swapPoolTable w1 = swapPoolTable w"
    "tlb (nuc w1) = tlb (nuc w)"
    by (simp add: interrupts_off_def spaces_of_def fun_eq_iff)
  from set_pteLO_effect [of w1 spt a g p "\<lambda>v. v OR (VALIDON OR DIRTYON)"] w1(2) g obtain w2 where
    w2: "set_pteLO ?r (\<lambda>v. v OR (VALIDON OR DIRTYON)) w1 = Some w2" "spaces_of w2 = (spaces_of w)(spt \<mapsto> (a, new_lo g p ?v1))"
    "swapPoolTable w2 = swapPoolTable w" "tlb (nuc w2) = tlb (nuc w)" using w1 by auto
  from set_pteLO_effect [of w2 spt a "new_lo g p ?v1" p "\<lambda>v. v AND 0xFFF"] obtain w3 where
    w3: "set_pteLO ?r (\<lambda>v. v AND 0xFFF) w2 = Some w3" "spaces_of w3 = (spaces_of w)(spt \<mapsto> (a, new_lo g p (?v1 AND 0xFFF)))"
    "swapPoolTable w3 = swapPoolTable w" "tlb (nuc w3) = tlb (nuc w)" using w2 by (auto simp: new_lo_def)
  from set_pteLO_effect [of w3 spt a "new_lo g p (?v1 AND 0xFFF)" p "\<lambda>v. v OR frame_addr (int f)"] obtain w4 where
    w4: "set_pteLO ?r (\<lambda>v. v OR frame_addr (int f)) w3 = Some w4"
    "spaces_of w4 = (spaces_of w)(spt \<mapsto> (a, new_lo g p (mapped_lo ?v f)))"
    "swapPoolTable w4 = swapPoolTable w" "tlb (nuc w4) = tlb (nuc w)" using w3 by (auto simp: new_lo_def mapped_lo_def)
  let ?e = "new_lo g p (mapped_lo ?v f) p"
  have p4: "pte_at ?r w4 = Some ?e" using pte_at_eq [of w4 spt] w4(2) by simp
  from updateTLB_effect [of hw ?e w4] obtain w5 where
    w5: "updateTLB hw ?e w4 = Some w5" "w5 = tlb_updated hw ?e w4" "spaces_of w5 = spaces_of w4"
    "swapPoolTable w5 = swapPoolTable w4" by blast
  have ok5: "tlb_ok hw w5"
    using refresh_coherent [OF hw _ _ d g w4(2) w5(2)] tl w4(4) by (simp add: tlb_ok_def)
  obtain w6 where w6: "interrupts_on w5 = Some w6" "spaces_of w6 = spaces_of w5" "swapPoolTable w6 = swapPoolTable w5"
    "tlb (nuc w6) = tlb (nuc w5)"
    by (simp add: interrupts_on_def spaces_of_def fun_eq_iff)
  have "run (map_page hw (int f) spt p) E w = (Done (), w6)"
    using w1(1) w2(1) w3(1) w4(1) p4 w5(1) w6(1) by (simp add: map_page_def run_seq)
  then show ?thesis using w6 w5 w4 ok5 by (simp add: tlb_ok_def)
qed

lemma page_index_less: "page_index gv h = Some p \<Longrightarrow> p < 32"
  by (auto simp: page_index_def Let_def split: if_splits)

text \<open>A page fault served: the pool and the page tables stay consistent, and the page is mapped.\<close>

lemma serve_fault_serves:
  assumes inv: "vm_inv hw w" and hw: "probe_ok hw" and E: "quiet hw E" "flash_works E lv"
    and u: "supports (nuc w) spt = Some u" "sup_asid u \<noteq> NOASID"
    and p: "page_index (get_vpn hw) (entry_hi (sup_exceptState u PGFAULTEXCEPT)) = Some p"
    and pick: "pick_frame w = Some (int f, w1)" "f < 16"
  shows "\<exists>w' g. run (serve_fault hw lv spt) E w = (Done (), w') \<and> vm_inv hw w' \<and>
    spaces_of w' spt = Some (sup_asid u, g) \<and> valid_entry (g p) \<and> entry_frame (g p) = frame_addr (int f) \<and>
    swapPoolTable w' = (swapPoolTable w)[f := \<lparr>sw_asid = sup_asid u, sw_pageNo = of_nat p, sw_pte = PTE_AT spt p\<rparr>] \<and>
    (\<forall>q. map_option fst (spaces_of w' q) = map_option fst (spaces_of w q)) \<and>
    (\<not> occupied w f \<longrightarrow> (\<forall>q. q \<noteq> spt \<longrightarrow> spaces_of w' q = spaces_of w q))"
proof -
  let ?a = "sup_asid u" and ?t = "swapPoolTable w"
  have p32: "p < 32" by (rule page_index_less [OF p])
  have len: "length ?t = 16" using inv by (simp add: vm_inv_def pool_ok_def)
  have w1: "spaces_of w1 = spaces_of w" "swapPoolTable w1 = ?t" "tlb (nuc w1) = tlb (nuc w)" "nuc w1 = nuc w"
    using pick(1) by (auto simp: pick_frame_def spaces_of_def fun_eq_iff split: bind_splits option.splits if_splits)
  have inv1: "vm_inv hw w1" using inv w1 by (simp add: vm_inv_def pool_ok_def tlb_ok_def)
  have spt0: "spaces_of w spt = Some (?a, sup_privatePgTbl u)" using u by (simp add: spaces_of_def)
  have fr: "isFrameFree (int f) w1 = Some (\<not> occupied w f)"
    using len pick(2) w1(2) by (simp add: isFrameFree_def occupied_def)
  have es: "exc_state_of PGFAULTEXCEPT spt w = Some (sup_exceptState u PGFAULTEXCEPT)"
    using u by (simp add: exc_state_of_def)
  obtain w2 where w2: "run (if occupied w f then evict hw lv (int f) else Ret ()) E w1 = (Done (), w2)"
    "swapPoolTable w2 = ?t" "tlb_ok hw w2" "pages_distinct (spaces_of w2)" "isolated ?t (spaces_of w2)" "refs_ok ?t (spaces_of w2)"
    "\<exists>g. spaces_of w2 spt = Some (?a, g)" "\<forall>q. map_option fst (spaces_of w2 q) = map_option fst (spaces_of w q)"
    "\<not> occupied w f \<longrightarrow> spaces_of w2 = spaces_of w"
    "sw_asid (?t ! f) = NOASID \<or> (\<exists>q i b h. sw_pte (?t ! f) = PTE_AT q i \<and> spaces_of w2 q = Some (b, h) \<and> \<not> valid_entry (h i))"
  proof (cases "occupied w f")
    case True
    have occ1: "occupied w1 f" using True w1 by (simp add: occupied_def)
    from run_evict [OF inv1 pick(2) occ1 hw E] obtain w2 q i b h where
      e: "sw_pte (?t ! f) = PTE_AT q i" "spaces_of w q = Some (b, h)" "run (evict hw lv (int f)) E w1 = (Done (), w2)"
      "spaces_of w2 = (spaces_of w)(q \<mapsto> (b, new_lo h i (pte_entryLO (h i) AND NOT VALIDON)))"
      "swapPoolTable w2 = ?t" "tlb_ok hw w2" unfolding w1 by blast
    have i1: "isolated ?t (spaces_of w2)"
      using isolated_invalidate(1) [of ?t "spaces_of w" q b h i] inv e(2) unfolding e(4) vm_inv_def by blast
    have i2: "pages_distinct (spaces_of w2)" unfolding e(4) using pages_distinct_upd [where V = "spaces_of w" and q = q and a = b and g = h] e(2) inv by (simp add: vm_inv_def)
    have i3: "refs_ok ?t (spaces_of w2)" unfolding e(4) using spaces_upd_refs inv by (simp add: vm_inv_def)
    have i4: "\<exists>g. spaces_of w2 spt = Some (?a, g)" using spt0 e(2) by (auto simp: e(4))
    have i5: "\<exists>q i b h. sw_pte (?t ! f) = PTE_AT q i \<and> spaces_of w2 q = Some (b, h) \<and> \<not> valid_entry (h i)"
    proof -
      have "\<not> valid_entry (new_lo h i (pte_entryLO (h i) AND NOT VALIDON) i)"
        using isolated_invalidate(2) [of ?t "spaces_of w" q b h i] inv e(2) by (simp add: vm_inv_def)
      moreover have "spaces_of w2 q = Some (b, new_lo h i (pte_entryLO (h i) AND NOT VALIDON))" by (simp add: e(4))
      ultimately show ?thesis using e(1) by blast
    qed
    have i6: "\<forall>q. map_option fst (spaces_of w2 q) = map_option fst (spaces_of w q)" using e(2) by (simp add: e(4))
    show ?thesis by (rule that [of w2]) (use True e i1 i2 i3 i4 i5 i6 in auto)
  next
    case False
    then show ?thesis
      using that [of w1] inv1 w1 spt0 by (auto simp: vm_inv_def occupied_def)
  qed
  then obtain g where g: "spaces_of w2 spt = Some (?a, g)" by blast
  obtain u2 where u2: "supports (nuc w2) spt = Some u2" "sup_asid u2 = ?a" using g by (auto simp: spaces_of_def)
  from run_flashOp [OF E, of ?a "of_nat p" "frame_addr (int f)" FLASHREAD w2] obtain w3 where
    w3: "run (flashOp lv ?a (of_nat p) (frame_addr (int f)) FLASHREAD) E w2 = (Done READY, w3)" "vm_frame hw w2 w3" by blast
  have f3: "spaces_of w3 = spaces_of w2" "swapPoolTable w3 = ?t" "tlb_ok hw w3"
    using w3(2) w2(2-4) by (simp_all add: vm_frame_def same_vm_def)
  obtain u3 where u3: "supports (nuc w3) spt = Some u3" "sup_asid u3 = ?a" using g unfolding f3(1) [symmetric] by (auto simp: spaces_of_def)
  let ?e = "\<lparr>sw_asid = ?a, sw_pageNo = of_nat p, sw_pte = PTE_AT spt p\<rparr>"
  let ?w4 = "w3\<lparr>swapPoolTable := ?t[f := ?e]\<rparr>"
  have cl: "claim_frame (int f) spt p w3 = Some ?w4" using u3 f3(2) len pick(2) by (simp add: claim_frame_def)
  have s4: "spaces_of ?w4 = spaces_of w2" "tlb_ok hw ?w4"
  proof -
    show "spaces_of ?w4 = spaces_of w2" unfolding f3(1) [symmetric] by (simp add: spaces_of_def fun_eq_iff)
    then show "tlb_ok hw ?w4" using f3(1,3) by (simp add: tlb_ok_def)
  qed
  from run_map_page [of ?w4 spt ?a g p hw f E] g p32 s4 w2(4) hw obtain w5 where
    w5: "run (map_page hw (int f) spt p) E ?w4 = (Done (), w5)" "tlb_ok hw w5"
    "spaces_of w5 = (spaces_of w2)(spt \<mapsto> (?a, new_lo g p (mapped_lo (pte_entryLO (g p)) f)))"
    "swapPoolTable w5 = ?t[f := ?e]" by auto
  have "run (serve_fault hw lv spt) E w = (Done (), w5)"
    using es p pick(1) fr w2(1) u2 w3(1) cl w5(1) by (simp add: serve_fault_def run_seq)
  moreover have "vm_inv hw w5"
  proof -
    have "isolated (?t[f := ?e]) (spaces_of w5)"
      unfolding w5(3) by (rule isolated_claim [OF w2(5) len pick(2) g w2(10)])
        (use u(2) mapped_lo_bits [OF pick(2)] in simp_all)
    moreover have "refs_ok (?t[f := ?e]) (spaces_of w5)"
      unfolding w5(3) by (rule spaces_upd_refs, rule refs_ok_claim [OF w2(6) len _ p32 g]) simp
    moreover have "pages_distinct (spaces_of w5)"
      unfolding w5(3) by (rule pages_distinct_upd [OF w2(4) g])
    ultimately show ?thesis using w5(2,4) len by (simp add: vm_inv_def pool_ok_def)
  qed
  moreover have "valid_entry (new_lo g p (mapped_lo (pte_entryLO (g p)) f) p)"
    "entry_frame (new_lo g p (mapped_lo (pte_entryLO (g p)) f) p) = frame_addr (int f)"
    using mapped_lo_bits [OF pick(2)] by (simp_all add: new_lo_def valid_entry_def entry_frame_def)
  moreover have "\<forall>q. map_option fst (spaces_of w5 q) = map_option fst (spaces_of w q)"
  proof
    fix q
    have "map_option fst (spaces_of w spt) = Some ?a" using spt0 by simp
    then show "map_option fst (spaces_of w5 q) = map_option fst (spaces_of w q)"
      using w2(8) [rule_format, of q] unfolding w5(3) by (cases "q = spt") auto
  qed
  moreover have "\<not> occupied w f \<longrightarrow> (\<forall>q. q \<noteq> spt \<longrightarrow> spaces_of w5 q = spaces_of w q)" unfolding w5(3) using w2(9) by simp
  ultimately show ?thesis using w5(3,4) by auto
qed

end
