(* ===== verification/Sst.thy ===== *)
theory Sst
  imports Vm_Support
begin

text \<open>
  \<^verbatim>\<open>src/phase3/sst.c\<close>: the services a user process asks of its system service thread.
\<close>

section \<open>Services\<close>

definition terminate :: "locals \<Rightarrow> int \<Rightarrow> unit prog" where
  "terminate lv asid =
     seq (for_each [0..<POOLSIZE] (\<lambda>i. writes (release_frame (word_of_int asid) i))) (\<lambda>_.
     seq (reads (\<lambda>w. Some (testPcb w))) (\<lambda>t.
     seq (SYSCALL SENDMESSAGE t 0) (\<lambda>_.
     seq (reads (\<lambda>w. nth_opt (printerPcbs w) asid)) (\<lambda>p.
     seq (sendKillReq lv p) (\<lambda>_.
     seq (reads (\<lambda>w. nth_opt (terminalPcbs w) asid)) (\<lambda>p.
     seq (sendKillReq lv p) (\<lambda>_.
     sendKillReq lv NULL)))))))"

definition write_to :: "(world \<Rightarrow> ptr list) \<Rightarrow> int \<Rightarrow> ptr \<Rightarrow> unit prog" where
  "write_to pcbs_of asid print =
     seq (reads (\<lambda>w. nth_opt (pcbs_of w) asid)) (\<lambda>p.
     seq (reads (\<lambda>w. map_option string_of (sst_prints w print))) (\<lambda>str.
     seq (SYSCALL SENDMESSAGE p str) (\<lambda>_.
     seq (reads (\<lambda>w. nth_opt (pcbs_of w) asid)) (\<lambda>p.
     seq (SYSCALL RECEIVEMESSAGE p 0) (\<lambda>_.
     Ret ())))))"

definition writePrinter :: "int \<Rightarrow> ptr \<Rightarrow> unit prog" where
  "writePrinter asid print = write_to printerPcbs asid print"

definition writeTerminal :: "int \<Rightarrow> ptr \<Rightarrow> unit prog" where
  "writeTerminal asid print = write_to terminalPcbs asid print"

text \<open>\<^verbatim>\<open>res = getTOD()\<close>.\<close>

definition read_clock :: "u32 prog" where
  "read_clock = Act (\<lambda>w. let (t, s) = getTOD (nuc w) in Some (Ret t, w\<lparr>nuc := s\<rparr>))"

text \<open>The case \<^verbatim>\<open>TERMINATE\<close> has no \<^verbatim>\<open>break\<close>.\<close>

definition SSTRequest :: "locals \<Rightarrow> ptr \<Rightarrow> u32 \<Rightarrow> u32 \<Rightarrow> int \<Rightarrow> u32 prog" where
  "SSTRequest lv sender service a asid =
     (if service = GET_TOD then read_clock
      else if service = TERMINATE then
        seq (terminate lv asid) (\<lambda>_. seq (writePrinter asid a) (\<lambda>_. Ret ON))
      else if service = WRITEPRINTER then seq (writePrinter asid a) (\<lambda>_. Ret ON)
      else if service = WRITETERMINAL then seq (writeTerminal asid a) (\<lambda>_. Ret ON)
      else seq (terminate lv asid) (\<lambda>_. Ret ON))"

section \<open>The thread\<close>

definition asid_of :: "ptr \<Rightarrow> world \<Rightarrow> int option" where
  "asid_of spt w = map_option (\<lambda>u. sint (sup_asid u)) (supports (nuc w) spt)"

definition SST_start :: "locals \<Rightarrow> ptr prog" where
  "SST_start lv =
     seq (getSupStruct lv) (\<lambda>sstSup.
     seq (reads (asid_of sstSup)) (\<lambda>asid.
     seq (reads (\<lambda>w. nth_opt (uProcState w) (asid - 1))) (\<lambda>sstState.
     seq (create_process lv sstState sstSup) (\<lambda>p.
     seq (reads (asid_of sstSup)) (\<lambda>asid.
     seq (writes (\<lambda>w. map_option (\<lambda>u. w\<lparr>uproc := u\<rparr>) (upd_opt (uproc w) (asid - 1) p))) (\<lambda>_.
     Ret sstSup))))))"

text \<open>One round of the \<^verbatim>\<open>while (1)\<close>.\<close>

definition SST_round :: "locals \<Rightarrow> ptr \<Rightarrow> unit prog" where
  "SST_round lv sstSup =
     seq (SYSCALL RECEIVEMESSAGE ANYMESSAGE (lv V_sst_payload)) (\<lambda>senderAddr.
     seq (reads (\<lambda>w. ssi_payloads (nuc w) (mem (nuc w) (lv V_sst_payload)))) (\<lambda>sstpyld.
     seq (reads (asid_of sstSup)) (\<lambda>asid.
     seq (SSTRequest lv senderAddr (service_code sstpyld) (arg sstpyld) (asid - 1)) (\<lambda>result.
     seq (SYSCALL SENDMESSAGE senderAddr result) (\<lambda>_.
     Ret ())))))"

end
