(* ===== verification/Init_Proc.thy ===== *)
theory Init_Proc
  imports Sst
begin

text \<open>
  \<^verbatim>\<open>src/phase3/initProc.c\<close>: the tables of the support level and the processes
  \<^verbatim>\<open>test\<close> starts.  The addresses of the functions are the parameter \<open>code\<close>.
\<close>

section \<open>States and support structures\<close>

definition upd_state :: "ptr \<Rightarrow> (state_t \<Rightarrow> state_t) \<Rightarrow> world \<Rightarrow> world option" where
  "upd_state p f w = do {
     x \<leftarrow> states (nuc w) p;
     Some (w\<lparr>nuc := (nuc w)\<lparr>states := (states (nuc w))(p \<mapsto> f x)\<rparr>\<rparr>)
   }"

definition upd_sup :: "ptr \<Rightarrow> (support_t \<Rightarrow> support_t) \<Rightarrow> world \<Rightarrow> world option" where
  "upd_sup p f w = map_option (\<lambda>s. w\<lparr>nuc := s\<rparr>) (upd_support p f (nuc w))"

text \<open>\<^verbatim>\<open>(asid + 1) << ASIDSHIFT\<close>.\<close>

definition asid_field :: "nat \<Rightarrow> u32" where
  "asid_field asid = push_bit ASIDSHIFT (of_nat (asid + 1))"

definition user_state :: "nat \<Rightarrow> state_t \<Rightarrow> state_t" where
  "user_state asid x = x\<lparr>pc_epc := UPROCSTARTADDR,
     gpr := (gpr x)(reg_t9 := UPROCSTARTADDR, reg_sp := USERSTACKTOP),
     status := ALLOFF OR USERPON OR IEPON OR IMON OR TEBITON, entry_hi := asid_field asid\<rparr>"

definition initUProc :: "unit prog" where
  "initUProc = for_each [0..<UPROCMAX] (\<lambda>asid.
     seq (reads (\<lambda>w. nth_opt (uProcState w) (int asid))) (\<lambda>p.
     writes (upd_state p (user_state asid))))"

section \<open>Support structures\<close>

definition kernel_context :: "u32 \<Rightarrow> u32 \<Rightarrow> context_t" where
  "kernel_context sp pc = \<lparr>stackPtr = sp, c_status = ALLOFF OR IEPON OR IMON OR TEBITON, c_pc = pc\<rparr>"

definition set_context :: "nat \<Rightarrow> context_t \<Rightarrow> support_t \<Rightarrow> support_t" where
  "set_context k c u = u\<lparr>sup_exceptContext := (sup_exceptContext u)(k := c)\<rparr>"

definition set_pte :: "nat \<Rightarrow> u32 \<Rightarrow> u32 \<Rightarrow> support_t \<Rightarrow> support_t" where
  "set_pte i eh el u = u\<lparr>sup_privatePgTbl := (sup_privatePgTbl u)(i := \<lparr>pte_entryHI = eh, pte_entryLO = el\<rparr>)\<rparr>"

text \<open>The inner loop over the pages, and the last page, the stack.\<close>

primrec page_loop :: "nat list \<Rightarrow> nat \<Rightarrow> support_t \<Rightarrow> support_t" where
  "page_loop [] asid u = u"
| "page_loop (i # is) asid u =
     page_loop is asid (set_pte i (KUSEG + push_bit VPNSHIFT (of_nat i) + asid_field asid) DIRTYON u)"

definition page_table :: "nat \<Rightarrow> support_t \<Rightarrow> support_t" where
  "page_table asid u = set_pte (MAXPAGES - 1) ((GETSHAREFLAG - PAGESIZE) + asid_field asid) DIRTYON
     (page_loop [0..<MAXPAGES - 1] asid u)"

definition new_stack :: "world \<Rightarrow> world option" where
  "new_stack w = Some (w\<lparr>ramtop := ramtop w - PAGESIZE\<rparr>)"

definition init_support :: "(entry_point \<Rightarrow> u32) \<Rightarrow> nat \<Rightarrow> unit prog" where
  "init_support code asid =
     seq (reads (\<lambda>w. nth_opt (supStruct w) (int asid))) (\<lambda>p.
     seq (writes (upd_sup p (\<lambda>u. u\<lparr>sup_asid := of_nat (asid + 1)\<rparr>))) (\<lambda>_.
     seq (writes (\<lambda>w. upd_sup p (set_context PGFAULTEXCEPT (kernel_context (ramtop w) (code E_pager))) w)) (\<lambda>_.
     seq (writes new_stack) (\<lambda>_.
     seq (writes (\<lambda>w. upd_sup p (set_context GENERALEXCEPT
            (kernel_context (ramtop w) (code E_supExceptionHandler))) w)) (\<lambda>_.
     seq (writes new_stack) (\<lambda>_.
     writes (upd_sup p (page_table asid))))))))"

definition initSupportStruct :: "(entry_point \<Rightarrow> u32) \<Rightarrow> unit prog" where
  "initSupportStruct code = for_each [0..<UPROCMAX] (init_support code)"

section \<open>Processes\<close>

definition kernel_state :: "u32 \<Rightarrow> u32 \<Rightarrow> nat \<Rightarrow> state_t \<Rightarrow> state_t" where
  "kernel_state pc sp asid x = x\<lparr>pc_epc := pc, gpr := (gpr x)(reg_sp := sp),
     status := ALLOFF OR IEPON OR IMON OR TEBITON, entry_hi := asid_field asid\<rparr>"

definition set_at :: "((ptr list \<Rightarrow> ptr list) \<Rightarrow> world \<Rightarrow> world) \<Rightarrow> (world \<Rightarrow> ptr list) \<Rightarrow> int \<Rightarrow> ptr \<Rightarrow> world \<Rightarrow> world option" where
  "set_at upd get i p w = map_option (\<lambda>xs. upd (\<lambda>_. xs) w) (upd_opt (get w) i p)"

text \<open>A process whose state is an element of an array of states and that gets the next stack.\<close>

definition start_process ::
  "locals \<Rightarrow> (world \<Rightarrow> ptr list) \<Rightarrow> ((ptr list \<Rightarrow> ptr list) \<Rightarrow> world \<Rightarrow> world) \<Rightarrow> (world \<Rightarrow> ptr list)
   \<Rightarrow> u32 \<Rightarrow> nat \<Rightarrow> unit prog" where
  "start_process lv states_of upd get pc asid =
     seq (reads (\<lambda>w. nth_opt (states_of w) (int asid))) (\<lambda>st.
     seq (writes (\<lambda>w. upd_state st (kernel_state pc (ramtop w) asid) w)) (\<lambda>_.
     seq (reads (\<lambda>w. nth_opt (supStruct w) (int asid))) (\<lambda>spt.
     seq (create_process lv st spt) (\<lambda>p.
     writes (set_at upd get (int asid) p)))))"

definition peripheral_entry :: "(nat \<Rightarrow> entry_point) \<Rightarrow> (entry_point \<Rightarrow> u32) \<Rightarrow> nat \<Rightarrow> u32" where
  "peripheral_entry e code asid = (if asid < 8 then code (e asid) else 0)"

text \<open>The functions \<^verbatim>\<open>printer0\<close> to \<^verbatim>\<open>terminal7\<close>; the loop of
  \<^verbatim>\<open>printDevice\<close> they call does not come back, one round of it is given.\<close>

fun peripheral_body :: "nat \<Rightarrow> locals \<Rightarrow> entry_point \<Rightarrow> unit prog option" where
  "peripheral_body n lv (E_printer k) = (if k < 8 then Some (printDevice n lv (int k) IL_PRINTER) else None)"
| "peripheral_body n lv (E_terminal k) = (if k < 8 then Some (printDevice n lv (int k) IL_TERMINAL) else None)"
| "peripheral_body n lv _ = None"

definition initPeripheralProc :: "(entry_point \<Rightarrow> u32) \<Rightarrow> locals \<Rightarrow> nat \<Rightarrow> u32 \<Rightarrow> unit prog" where
  "initPeripheralProc code lv asid devNo =
     seq (if devNo = IL_PRINTER then
            start_process lv printerState printerPcbs_update printerPcbs (peripheral_entry E_printer code asid) asid
          else if devNo = IL_TERMINAL then
            start_process lv terminalState terminalPcbs_update terminalPcbs (peripheral_entry E_terminal code asid) asid
          else Ret ()) (\<lambda>_.
     writes new_stack)"

definition initSST :: "(entry_point \<Rightarrow> u32) \<Rightarrow> locals \<Rightarrow> unit prog" where
  "initSST code lv = for_each [0..<UPROCMAX] (\<lambda>i.
     seq (start_process lv sstProcState sstPcbs_update sstPcbs (code E_SST) i) (\<lambda>_.
     writes new_stack))"

section \<open>test\<close>

text \<open>The local \<^verbatim>\<open>mutexState\<close> is not initialised before its fields are set; the status of
  the mutex process has \<^verbatim>\<open>IECON\<close> where every other one has \<^verbatim>\<open>IEPON\<close>.\<close>

definition start_mutex :: "(entry_point \<Rightarrow> u32) \<Rightarrow> locals \<Rightarrow> unit prog" where
  "start_mutex code lv =
     seq (writes (upd_state (lv V_mutexState) (\<lambda>x. x\<lparr>pc_epc := code E_mutex\<rparr>))) (\<lambda>_.
     seq (writes (\<lambda>w. upd_state (lv V_mutexState) (\<lambda>x. x\<lparr>gpr := (gpr x)(reg_sp := ramtop w)\<rparr>) w)) (\<lambda>_.
     seq (writes (upd_state (lv V_mutexState) (\<lambda>x. x\<lparr>status := ALLOFF OR IECON OR IMON OR TEBITON\<rparr>))) (\<lambda>_.
     seq (writes new_stack) (\<lambda>_.
     seq (create_process lv (lv V_mutexState) NULL) (\<lambda>p.
     writes (\<lambda>w. Some (w\<lparr>mutexSender := p\<rparr>)))))))"

definition reap_sst :: "nat \<Rightarrow> unit prog" where
  "reap_sst i =
     seq (reads (\<lambda>w. nth_opt (sstPcbs w) (int i))) (\<lambda>p.
     seq (SYSCALL RECEIVEMESSAGE p 0) (\<lambda>_.
     seq (reads (\<lambda>w. nth_opt (sstPcbs w) (int i))) (\<lambda>p.
     seq (on_nuc (\<lambda>s. map_option snd (outProcQ readyQueue p s))) (\<lambda>_.
     on_nuc (freePcb p)))))"

text \<open>The tables and the mutex, before the threads.\<close>

definition setup_tables :: "(entry_point \<Rightarrow> u32) \<Rightarrow> locals \<Rightarrow> unit prog" where
  "setup_tables code lv =
     seq (writes (\<lambda>w. Some (w\<lparr>testPcb := current_process (nuc w)\<rparr>))) (\<lambda>_.
     seq (writes (\<lambda>w. Some (w\<lparr>ramtop := RAMTOP (nuc w)\<rparr>))) (\<lambda>_.
     seq (writes (\<lambda>w. Some (w\<lparr>ramtop := ramtop w - 3 * PAGESIZE\<rparr>))) (\<lambda>_.
     seq (for_each [0..<POOLSIZE] (\<lambda>i. writes (initSwapStructs (int i)))) (\<lambda>_.
     seq (start_mutex code lv) (\<lambda>_.
     seq initUProc (\<lambda>_.
     initSupportStruct code))))))"

definition test_setup :: "(entry_point \<Rightarrow> u32) \<Rightarrow> locals \<Rightarrow> unit prog" where
  "test_setup code lv =
     seq (setup_tables code lv) (\<lambda>_.
     seq (initSST code lv) (\<lambda>_.
     for_each [0..<UPROCMAX] (\<lambda>i.
       seq (initPeripheralProc code lv i IL_PRINTER) (\<lambda>_.
       initPeripheralProc code lv i IL_TERMINAL))))"

definition test :: "(entry_point \<Rightarrow> u32) \<Rightarrow> locals \<Rightarrow> unit prog" where
  "test code lv =
     seq (test_setup code lv) (\<lambda>_.
     seq (for_each [0..<UPROCMAX] reap_sst) (\<lambda>_.
     sendKillReq lv NULL))"

end
