(* ===== verification/Calls.thy ===== *)
theory Calls
  imports Swap_Correct Init_Proc
begin

text \<open>
  What a process asks of the nucleus: the system calls of a run in order, each with the state it is made
  in, and the rules that compute them for the code of the support level.
\<close>

section \<open>The calls of a run\<close>

type_synonym call = "(u32 \<times> u32 \<times> u32) \<times> world"

primrec calls :: "'a prog \<Rightarrow> env \<Rightarrow> world \<Rightarrow> call list" where
  "calls (Ret a) E w = []"
| "calls (Act f) E w = (case map_option (map_prod (\<lambda>p. calls p E) (\<lambda>w. w)) (f w) of
     None \<Rightarrow> [] | Some (r, w') \<Rightarrow> r w')"
| "calls (Syscall a b c f) E w = ((a, b, c), w) # (case E (a, b, c) w of
     None \<Rightarrow> [] | Some (v, w') \<Rightarrow> calls (f v) E w')"
| "calls (Jump c) E w = []"

lemma calls_seq: "calls (seq p k) E w = calls p E w @ (case run p E w of
    (Done a, w') \<Rightarrow> calls (k a) E w' | (Left c, w') \<Rightarrow> [] | (Fault, w') \<Rightarrow> [] | (Never, w') \<Rightarrow> [])"
proof (induction p arbitrary: w)
  case (Act f)
  show ?case
  proof (cases "f w")
    case (Some r)
    obtain p w' where r: "r = (p, w')" by fastforce
    have "calls (seq p k) E w' = calls p E w' @ (case run p E w' of
      (Done a, w') \<Rightarrow> calls (k a) E w' | (Left c, w') \<Rightarrow> [] | (Fault, w') \<Rightarrow> [] | (Never, w') \<Rightarrow> [])"
      by (rule Act.IH [OF rangeI [of f w]]) (auto simp: Some r intro: fsts.intros)
    then show ?thesis using Some r by simp
  qed simp
qed (auto split: option.split)

lemma calls_simps [simp]:
  "calls (reads f) E w = []"
  "calls (writes g) E w = []"
  "calls (on_nuc h) E w = []"
  "calls (SYSCALL a b c) E w = [((a, b, c), w)]"
  by (auto simp: reads_def writes_def on_nuc_def SYSCALL_def split: option.split)

text \<open>A loop whose body only writes.\<close>

primrec each :: "('b \<Rightarrow> world \<Rightarrow> world option) \<Rightarrow> 'b list \<Rightarrow> world \<Rightarrow> world option" where
  "each g [] w = Some w"
| "each g (x # xs) w = Option.bind (g x w) (each g xs)"

lemma run_for_each_writes:
  "each g xs w = Some w' \<Longrightarrow> run (for_each xs (\<lambda>x. writes (g x))) E w = (Done (), w')"
  by (induction xs arbitrary: w) (auto simp: run_seq split: bind_splits)

lemma calls_for_each_writes [simp]: "calls (for_each xs (\<lambda>x. writes (g x))) E w = []"
  by (induction xs arbitrary: w) (auto simp: calls_seq split: option.split)

section \<open>Requests\<close>

text \<open>The environment lets every call return and leaves some part of the state alone.\<close>

definition answers :: "env \<Rightarrow> bool" where
  "answers E \<longleftrightarrow> (\<forall>c w. E c w \<noteq> None)"

definition leaves :: "(world \<Rightarrow> 'a) \<Rightarrow> env \<Rightarrow> bool" where
  "leaves f E \<longleftrightarrow> (\<forall>c w v w'. E c w = Some (v, w') \<longrightarrow> f w' = f w)"

lemma answersE: "answers E \<Longrightarrow> (\<And>v w'. E c w = Some (v, w') \<Longrightarrow> P) \<Longrightarrow> P"
  unfolding answers_def by (metis option.exhaust surj_pair)

lemma leavesD: "leaves f E \<Longrightarrow> E c w = Some (v, w') \<Longrightarrow> f w' = f w"
  unfolding leaves_def by blast

lemma run_ask_answers:
  assumes "answers E" "leaves f E"
  shows "\<exists>w' v1 w1. run (ask_ssi payload answer) E w = (Done (), w') \<and> f w' = f w \<and>
    E (SENDMESSAGE, ssi_pcb (nuc w), payload) w = Some (v1, w1) \<and>
    calls (ask_ssi payload answer) E w =
      [((SENDMESSAGE, ssi_pcb (nuc w), payload), w), ((RECEIVEMESSAGE, ssi_pcb (nuc w1), answer), w1)]"
proof -
  obtain v1 w1 where 1: "E (SENDMESSAGE, ssi_pcb (nuc w), payload) w = Some (v1, w1)" by (rule answersE [OF assms(1)])
  obtain v2 w2 where 2: "E (RECEIVEMESSAGE, ssi_pcb (nuc w1), answer) w1 = Some (v2, w2)" by (rule answersE [OF assms(1)])
  have "f w2 = f w" using leavesD [OF assms(2) 1] leavesD [OF assms(2) 2] by simp
  then show ?thesis using 1 2 by (simp add: ask_ssi_def run_seq calls_seq)
qed

text \<open>A request that is never answered, because the caller is killed.\<close>

lemma run_kill_never:
  assumes "E (SENDMESSAGE, ssi_pcb (nuc w), lv V_kill_payload) w' = None"
    and "w' = w\<lparr>nuc := (nuc w)\<lparr>ssi_payloads := (ssi_payloads (nuc w))(lv V_kill_payload \<mapsto> \<lparr>service_code = TERMPROCESS, arg = p\<rparr>)\<rparr>\<rparr>"
  shows "run (sendKillReq lv p) E w = (Never, w')"
    and "calls (sendKillReq lv p) E w = [((SENDMESSAGE, ssi_pcb (nuc w), lv V_kill_payload), w')]"
  using assms by (simp_all add: sendKillReq_def put_payload_def ask_ssi_def run_seq calls_seq)

section \<open>The pool given back\<close>

definition freed :: "u32 \<Rightarrow> swap_t \<Rightarrow> swap_t" where
  "freed asid e = (if sw_asid e = asid then e\<lparr>sw_asid := NOASID\<rparr> else e)"

lemma release_frame_eq:
  "i < length (swapPoolTable w) \<Longrightarrow>
     release_frame asid i w = Some (w\<lparr>swapPoolTable := (swapPoolTable w)[i := freed asid (swapPoolTable w ! i)]\<rparr>)"
  by (simp add: release_frame_def freed_def)

lemma each_release:
  "distinct is \<Longrightarrow> set is \<subseteq> {..<length (swapPoolTable w)} \<Longrightarrow>
   \<exists>t. each (release_frame asid) is w = Some (w\<lparr>swapPoolTable := t\<rparr>) \<and> length t = length (swapPoolTable w) \<and>
     (\<forall>i < length t. t ! i = (if i \<in> set is then freed asid (swapPoolTable w ! i) else swapPoolTable w ! i))"
proof (induction "is" arbitrary: w)
  case (Cons i "is")
  let ?w = "w\<lparr>swapPoolTable := (swapPoolTable w)[i := freed asid (swapPoolTable w ! i)]\<rparr>"
  have i: "i < length (swapPoolTable w)" using Cons.prems by simp
  from Cons.IH [of ?w] Cons.prems obtain t where
    t: "each (release_frame asid) is ?w = Some (?w\<lparr>swapPoolTable := t\<rparr>)" "length t = length (swapPoolTable w)"
    "\<forall>j < length t. t ! j = (if j \<in> set is then freed asid (swapPoolTable ?w ! j) else swapPoolTable ?w ! j)" by auto
  then show ?case using Cons.prems i by (intro exI [of _ t]) (auto simp: release_frame_eq nth_list_update)
next
  case Nil
  show ?case by (rule exI [of _ "swapPoolTable w"]) simp
qed

lemma release_all:
  assumes "pool_ok w"
  shows "each (release_frame asid) [0..<16] w = Some (w\<lparr>swapPoolTable := map (freed asid) (swapPoolTable w)\<rparr>)"
proof -
  have len: "length (swapPoolTable w) = 16" using assms by (simp add: pool_ok_def)
  have s: "set [0..<16] \<subseteq> {..<length (swapPoolTable w)}" by (simp add: len atLeast0LessThan)
  obtain t where t: "each (release_frame asid) [0..<16] w = Some (w\<lparr>swapPoolTable := t\<rparr>)" "length t = 16"
    "\<forall>i < 16. t ! i = freed asid (swapPoolTable w ! i)"
    using each_release [OF distinct_upt s, of asid] len by (auto simp del: upt_Suc)
  have "t = map (freed asid) (swapPoolTable w)" by (rule nth_equalityI) (use t len in simp_all)
  then show ?thesis using t(1) by simp
qed

lemma freed_asid: "asid \<noteq> NOASID \<Longrightarrow> sw_asid (freed asid e) \<noteq> asid"
  by (simp add: freed_def)

end
