(* ===== verification/Startup.thy ===== *)
theory Startup
  imports Calls
begin

text \<open>
  What \<^verbatim>\<open>test\<close> sets up before it starts a process: an empty swap pool and eight address
  spaces with fresh page tables.
\<close>

section \<open>The swap pool\<close>

definition free_frame :: swap_t where
  "free_frame = \<lparr>sw_asid = NOASID, sw_pageNo = NOPAGE, sw_pte = PTE_NULL\<rparr>"

lemma initSwapStructs_eq:
  "i < length (swapPoolTable w) \<Longrightarrow>
     initSwapStructs (int i) w = Some (w\<lparr>swapPoolTable := (swapPoolTable w)[i := free_frame]\<rparr>)"
  by (simp add: initSwapStructs_def free_frame_def)

lemma each_init_swap:
  "distinct is \<Longrightarrow> set is \<subseteq> {..<length (swapPoolTable w)} \<Longrightarrow>
   \<exists>t. each (\<lambda>i. initSwapStructs (int i)) is w = Some (w\<lparr>swapPoolTable := t\<rparr>) \<and> length t = length (swapPoolTable w) \<and>
     (\<forall>i \<in> set is. t ! i = free_frame) \<and> (\<forall>i. i \<notin> set is \<longrightarrow> t ! i = swapPoolTable w ! i)"
proof (induction "is" arbitrary: w)
  case (Cons i "is")
  let ?w = "w\<lparr>swapPoolTable := (swapPoolTable w)[i := free_frame]\<rparr>"
  have i: "i < length (swapPoolTable w)" using Cons.prems by simp
  from Cons.IH [of ?w] Cons.prems obtain t where
    t: "each (\<lambda>i. initSwapStructs (int i)) is ?w = Some (?w\<lparr>swapPoolTable := t\<rparr>)" "length t = length (swapPoolTable w)"
    "\<forall>i \<in> set is. t ! i = free_frame" "\<forall>j. j \<notin> set is \<longrightarrow> t ! j = swapPoolTable ?w ! j" by auto
  then show ?case using Cons.prems i
    by (intro exI [of _ t]) (auto simp: initSwapStructs_eq)
next
  case Nil
  show ?case by (rule exI [of _ "swapPoolTable w"]) simp
qed

lemma init_pool:
  assumes "pool_ok w"
  shows "each (\<lambda>i. initSwapStructs (int i)) [0..<16] w = Some (w\<lparr>swapPoolTable := replicate 16 free_frame\<rparr>)"
proof -
  have len: "length (swapPoolTable w) = 16" using assms by (simp add: pool_ok_def)
  have s: "set [0..<16] \<subseteq> {..<length (swapPoolTable w)}" by (simp add: len atLeast0LessThan)
  obtain t where t: "each (\<lambda>i. initSwapStructs (int i)) [0..<16] w = Some (w\<lparr>swapPoolTable := t\<rparr>)"
    "length t = 16" "\<forall>i < 16. t ! i = free_frame"
    using each_init_swap [OF distinct_upt s] len by (auto simp del: upt_Suc)
  have "t = replicate 16 free_frame" by (rule nth_equalityI) (use t in simp_all)
  then show ?thesis using t(1) by simp
qed

section \<open>Page tables\<close>

text \<open>The tag of page \<open>j\<close> of the \<open>k\<close>-th address space.\<close>

definition fresh_tag :: "nat \<Rightarrow> nat \<Rightarrow> u32" where
  "fresh_tag k j = (if j = 31 then GETSHAREFLAG - PAGESIZE else KUSEG + push_bit VPNSHIFT (of_nat j)) + asid_field k"

lemma page_loop_table:
  "sup_privatePgTbl (page_loop is k u) j =
     (if j \<in> set is then \<lparr>pte_entryHI = KUSEG + push_bit VPNSHIFT (of_nat j) + asid_field k, pte_entryLO = DIRTYON\<rparr>
      else sup_privatePgTbl u j)"
  "sup_asid (page_loop is k u) = sup_asid u" "sup_exceptState (page_loop is k u) = sup_exceptState u"
  "sup_exceptContext (page_loop is k u) = sup_exceptContext u"
  by (induction "is" arbitrary: u) (auto simp: set_pte_def)

lemma page_table_table:
  "j < 32 \<Longrightarrow> sup_privatePgTbl (page_table k u) j = \<lparr>pte_entryHI = fresh_tag k j, pte_entryLO = DIRTYON\<rparr>"
  "sup_asid (page_table k u) = sup_asid u" "sup_exceptState (page_table k u) = sup_exceptState u"
  "sup_exceptContext (page_table k u) = sup_exceptContext u"
  by (auto simp: page_table_def set_pte_def page_loop_table fresh_tag_def less_Suc_eq_le)

text \<open>The tags of the pages of the eight address spaces are different.\<close>

definition tag_nat :: "nat \<Rightarrow> nat \<Rightarrow> nat" where
  "tag_nat k j = 0x80000000 + 4096 * (if j = 31 then 0x3FFFF else j) + 64 * (k + 1)"

lemma unat_fresh_tag:
  assumes "k < 8" "j < 32"
  shows "unat (fresh_tag k j) = tag_nat k j"
proof -
  have "fresh_tag k j = of_nat (tag_nat k j)"
    by (simp add: fresh_tag_def tag_nat_def asid_field_def push_bit_eq_mult algebra_simps)
  moreover have "tag_nat k j < 2 ^ 32" using assms by (simp add: tag_nat_def)
  ultimately show ?thesis by (simp add: unat_of_nat take_bit_nat_eq_self)
qed

lemma tag_nat_inj:
  assumes "k < 8" "j < 32" "k' < 8" "j' < 32" "tag_nat k j = tag_nat k' j'"
  shows "k = k' \<and> j = j'"
proof -
  define m where "m = (\<lambda>j :: nat. if j = 31 then 0x3FFFF else j)"
  have t: "tag_nat k j = 0x80000040 + 64 * (k + 64 * m j)" for k j by (simp add: tag_nat_def m_def)
  have e: "k + 64 * m j = k' + 64 * m j'" proof -
    have "64 * (k + 64 * m j) = 64 * (k' + 64 * m j')" using assms(5) unfolding t by (simp only: add_left_cancel)
    then show ?thesis by (simp only: mult_cancel1) simp
  qed
  have "(k + 64 * m j) mod 64 = k" "(k' + 64 * m j') mod 64 = k'" using assms(1,3) by simp_all
  then have k: "k = k'" using e by metis
  then have "m j = m j'" using e by simp
  then show ?thesis using k assms(2,4) by (simp add: m_def split: if_splits)
qed

lemma fresh_tag_inj:
  "k < 8 \<Longrightarrow> j < 32 \<Longrightarrow> k' < 8 \<Longrightarrow> j' < 32 \<Longrightarrow> fresh_tag k j = fresh_tag k' j' \<Longrightarrow> k = k' \<and> j = j'"
  using tag_nat_inj unat_fresh_tag by metis

lemma fresh_tag_kuseg: "k < 8 \<Longrightarrow> j < 32 \<Longrightarrow> KUSEG \<le> fresh_tag k j"
  by (simp add: word_le_nat_alt unat_fresh_tag) (simp add: tag_nat_def)

section \<open>Support structures\<close>

definition built :: "(entry_point \<Rightarrow> u32) \<Rightarrow> u32 \<Rightarrow> nat \<Rightarrow> support_t \<Rightarrow> support_t" where
  "built code sp k u = page_table k (set_context GENERALEXCEPT (kernel_context (sp - PAGESIZE) (code E_supExceptionHandler))
     (set_context PGFAULTEXCEPT (kernel_context sp (code E_pager)) (u\<lparr>sup_asid := of_nat (k + 1)\<rparr>)))"

definition with_support :: "ptr \<Rightarrow> support_t \<Rightarrow> world \<Rightarrow> world" where
  "with_support p u w = w\<lparr>nuc := (nuc w)\<lparr>supports := (supports (nuc w))(p \<mapsto> u)\<rparr>\<rparr>"

lemma run_upd_sup:
  "supports (nuc w) p = Some u \<Longrightarrow> run (writes (upd_sup p f)) E w = (Done (), with_support p (f u) w)"
  by (simp add: upd_sup_def upd_support_def with_support_def)

lemma with_support_simps [simp]:
  "supports (nuc (with_support p u w)) = (supports (nuc w))(p \<mapsto> u)"
  "supStruct (with_support p u w) = supStruct w" "ramtop (with_support p u w) = ramtop w"
  "swapPoolTable (with_support p u w) = swapPoolTable w" "tlb (nuc (with_support p u w)) = tlb (nuc w)"
  "pick_counter (with_support p u w) = pick_counter w" "ssi_pcb (nuc (with_support p u w)) = ssi_pcb (nuc w)"
  "with_support p u' (with_support p u w) = with_support p u' w"
  "(with_support p u w)\<lparr>ramtop := r\<rparr> = with_support p u (w\<lparr>ramtop := r\<rparr>)"
  by (simp_all add: with_support_def)

lemma run_init_support:
  assumes "k < length (supStruct w)" "supports (nuc w) (supStruct w ! k) = Some u"
  shows "run (init_support code k) E w = (Done (), with_support (supStruct w ! k) (built code (ramtop w) k u)
     (w\<lparr>ramtop := ramtop w - 2 * PAGESIZE\<rparr>))"
  using assms
  by (simp add: init_support_def run_seq upd_sup_def upd_support_def with_support_def new_stack_def built_def)

text \<open>The address space of a support structure is the \<open>k\<close>-th, with no page in memory.\<close>

definition fresh_space :: "nat \<Rightarrow> support_t \<Rightarrow> bool" where
  "fresh_space k u \<longleftrightarrow> sup_asid u = of_nat (k + 1) \<and>
     (\<forall>j < 32. sup_privatePgTbl u j = \<lparr>pte_entryHI = fresh_tag k j, pte_entryLO = DIRTYON\<rparr>)"

lemma fresh_built: "fresh_space k (built code sp k u)"
  by (simp add: fresh_space_def built_def page_table_table set_context_def)

lemma built_states: "sup_exceptState (built code sp k u) = sup_exceptState u"
  by (simp add: built_def page_table_table set_context_def)

definition loop_done :: "world \<Rightarrow> nat list \<Rightarrow> world \<Rightarrow> bool" where
  "loop_done w ks w' \<longleftrightarrow> supStruct w' = supStruct w \<and> swapPoolTable w' = swapPoolTable w \<and> tlb (nuc w') = tlb (nuc w) \<and>
     pick_counter w' = pick_counter w \<and> dom (supports (nuc w')) = dom (supports (nuc w)) \<and>
     (\<forall>k \<in> set ks. \<exists>u u'. supports (nuc w) (supStruct w ! k) = Some u \<and> supports (nuc w') (supStruct w ! k) = Some u' \<and>
        fresh_space k u' \<and> sup_exceptState u' = sup_exceptState u) \<and>
     (\<forall>p. p \<notin> (!) (supStruct w) ` set ks \<longrightarrow> supports (nuc w') p = supports (nuc w) p)"

lemma loop_done_other:
  "loop_done w ks w' \<Longrightarrow> p \<notin> (!) (supStruct w) ` set ks \<Longrightarrow> supports (nuc w') p = supports (nuc w) p"
  unfolding loop_done_def by (elim conjE) (erule allE, erule mp)

lemma loop_done_in:
  "loop_done w ks w' \<Longrightarrow> k \<in> set ks \<Longrightarrow> \<exists>u u'. supports (nuc w) (supStruct w ! k) = Some u \<and>
     supports (nuc w') (supStruct w ! k) = Some u' \<and> fresh_space k u' \<and> sup_exceptState u' = sup_exceptState u"
  unfolding loop_done_def by (elim conjE) (erule (1) bspec)

lemma run_support_loop:
  assumes d: "distinct (supStruct w)"
  shows "distinct ks \<Longrightarrow> set ks \<subseteq> {..<length (supStruct w)} \<Longrightarrow> set (supStruct w) \<subseteq> dom (supports (nuc w)) \<Longrightarrow>
    \<exists>w'. run (for_each ks (init_support code)) E w = (Done (), w') \<and> loop_done w ks w'"
  using d
proof (induction ks arbitrary: w)
  case (Cons k ks)
  let ?p = "supStruct w ! k"
  have k: "k < length (supStruct w)" using Cons.prems by simp
  obtain u where u: "supports (nuc w) ?p = Some u" using Cons.prems(3) nth_mem [OF k] by blast
  let ?w = "with_support ?p (built code (ramtop w) k u) (w\<lparr>ramtop := ramtop w - 2 * PAGESIZE\<rparr>)"
  have w: "supStruct ?w = supStruct w" by simp
  have "set (supStruct w) \<subseteq> dom (supports (nuc ?w))" using Cons.prems(3) by auto
  with Cons.IH [of ?w, unfolded w] Cons.prems obtain w' where
    w': "run (for_each ks (init_support code)) E ?w = (Done (), w')" "loop_done ?w ks w'"
    unfolding distinct.simps list.set insert_subset by blast
  have r: "run (for_each (k # ks) (init_support code)) E w = (Done (), w')"
    using run_init_support [OF k u] w'(1) by (simp add: run_seq)
  have ne: "supStruct w ! i \<noteq> ?p" if "i \<in> set ks" for i
    using that Cons.prems k by (auto simp: nth_eq_iff_index_eq)
  have "?p \<notin> (!) (supStruct ?w) ` set ks" unfolding w using ne by (metis imageE)
  from loop_done_other [OF w'(2) this] have at: "supports (nuc w') ?p = Some (built code (ramtop w) k u)" by simp
  have dm: "dom (supports (nuc w')) = dom (supports (nuc w))"
    using w'(2) u unfolding loop_done_def by auto
  have fr: "\<forall>i \<in> set (k # ks). \<exists>u u'. supports (nuc w) (supStruct w ! i) = Some u \<and>
      supports (nuc w') (supStruct w ! i) = Some u' \<and> fresh_space i u' \<and> sup_exceptState u' = sup_exceptState u"
  proof
    fix i assume i: "i \<in> set (k # ks)"
    show "\<exists>u u'. supports (nuc w) (supStruct w ! i) = Some u \<and>
      supports (nuc w') (supStruct w ! i) = Some u' \<and> fresh_space i u' \<and> sup_exceptState u' = sup_exceptState u"
    proof (cases "i = k")
      case True
      then show ?thesis using u at fresh_built built_states by blast
    next
      case False
      then have i': "i \<in> set ks" using i by simp
      from loop_done_in [OF w'(2) i'] show ?thesis using ne [OF i'] by simp
    qed
  qed
  have "\<forall>p. p \<notin> (!) (supStruct w) ` set (k # ks) \<longrightarrow> supports (nuc w') p = supports (nuc w) p"
  proof (intro allI impI)
    fix p assume p: "p \<notin> (!) (supStruct w) ` set (k # ks)"
    then have "p \<notin> (!) (supStruct ?w) ` set ks" unfolding w by auto
    from loop_done_other [OF w'(2) this] show "supports (nuc w') p = supports (nuc w) p" using p by auto
  qed
  then have "loop_done w (k # ks) w'"
    using w'(2) dm fr unfolding loop_done_def by simp
  then show ?case using r by blast
qed (simp add: loop_done_def)

section \<open>The invariant of the pager holds at the start\<close>

lemma fresh_spaces_ok:
  assumes len: "length (supStruct w) = 8" and d: "distinct (supStruct w)"
    and dm: "dom (supports (nuc w)) = set (supStruct w)"
    and fresh: "\<forall>k < 8. \<exists>u. supports (nuc w) (supStruct w ! k) = Some u \<and> fresh_space k u"
    and pool: "swapPoolTable w = replicate 16 free_frame"
    and tlb: "\<forall>s < tlb_size hw. fst (tlb (nuc w) s) < KUSEG"
  shows "vm_inv hw w"
proof -
  have sp: "\<exists>k < 8. p = supStruct w ! k \<and> (\<forall>j < 32. g j = \<lparr>pte_entryHI = fresh_tag k j, pte_entryLO = DIRTYON\<rparr>)"
    if V: "spaces_of w p = Some (a, g)" for p a g
  proof -
    obtain u where u: "supports (nuc w) p = Some u" "g = sup_privatePgTbl u" using V by (auto simp: spaces_of_def)
    then have "p \<in> set (supStruct w)" using dm by blast
    then obtain k where k: "k < 8" "p = supStruct w ! k" unfolding in_set_conv_nth len by blast
    then have "fresh_space k u" using fresh u(1) by force
    then show ?thesis using k u(2) unfolding fresh_space_def by blast
  qed
  have tag: "KUSEG \<le> pte_entryHI (g j)" if "spaces_of w p = Some (a, g)" "j < 32" for p a g j
    using sp [OF that(1)] fresh_tag_kuseg that(2) by force
  have "refs_ok (swapPoolTable w) (spaces_of w)"
    unfolding refs_ok_def pool by (simp add: free_frame_def)
  moreover have "pages_distinct (spaces_of w)"
    unfolding pages_distinct_def
  proof (intro allI impI)
    fix p a g j q b h i
    assume *: "spaces_of w p = Some (a, g)" "spaces_of w q = Some (b, h)" "j < (32 :: nat)" "i < (32 :: nat)"
      "pte_entryHI (g j) = pte_entryHI (h i)"
    obtain k k' where k: "k < 8" "p = supStruct w ! k" "pte_entryHI (g j) = fresh_tag k j"
      "k' < 8" "q = supStruct w ! k'" "pte_entryHI (h i) = fresh_tag k' i"
      using sp [OF *(1)] sp [OF *(2)] *(3,4) by force
    have "k = k' \<and> j = i" using fresh_tag_inj [OF k(1) *(3) k(4) *(4)] k(3,6) *(5) by simp
    then show "p = q \<and> j = i" using k by simp
  qed
  moreover have "isolated (swapPoolTable w) (spaces_of w)"
    unfolding isolated_def
  proof (intro allI impI)
    fix p a g j assume *: "spaces_of w p = Some (a, g)" "j < (32 :: nat)" "valid_entry (g j)"
    then have "pte_entryLO (g j) = DIRTYON" using sp [OF *(1)] by force
    then have False using *(3) by (simp add: valid_entry_def bit_numeral_rec)
    then show "\<exists>f < 16. sw_asid (swapPoolTable w ! f) \<noteq> NOASID \<and> sw_pte (swapPoolTable w ! f) = PTE_AT p j \<and>
      entry_frame (g j) = frame_addr (int f)" ..
  qed
  moreover have "\<not> page_tag (spaces_of w) (fst (tlb (nuc w) s))" if "s < tlb_size hw" for s
    using tlb that tag unfolding page_tag_def by (metis linorder_not_less)
  then have "tlb_ok hw w"
    unfolding tlb_ok_def tags_unique_def tlb_coherent_def page_tag_def by metis
  ultimately show ?thesis by (simp add: vm_inv_def pool_ok_def pool)
qed

text \<open>The parts of the state the start depends on, which the calls made meanwhile leave alone.\<close>

definition tables :: "world \<Rightarrow> (swap_t list \<times> ptr list \<times> ptr list) \<times> (ptr \<Rightarrow> support_t option) \<times> (nat \<Rightarrow> u32 \<times> u32) \<times> ptr set" where
  "tables w = ((swapPoolTable w, supStruct w, uProcState w), supports (nuc w), tlb (nuc w), dom (states (nuc w)))"

lemma run_create:
  assumes "answers E" "leaves tables E"
  shows "\<exists>w' p. run (create_process lv st spt) E w = (Done p, w') \<and> tables w' = tables w"
proof -
  let ?w = "w\<lparr>nuc := (nuc w)\<lparr>ssi_create_processes := (ssi_create_processes (nuc w))(lv V_create_arg \<mapsto> \<lparr>scp_state = st, scp_support = spt\<rparr>),
     ssi_payloads := (ssi_payloads (nuc w))(lv V_create_payload \<mapsto> \<lparr>service_code = CREATEPROCESS, arg = lv V_create_arg\<rparr>)\<rparr>\<rparr>"
  from run_ask_answers [OF assms, of "lv V_create_payload" "lv V_create_p" ?w] obtain w' where
    w': "run (ask_ssi (lv V_create_payload) (lv V_create_p)) E ?w = (Done (), w')" "tables w' = tables ?w" by blast
  have "run (create_process lv st spt) E w = (Done (mem (nuc w') (lv V_create_p)), w')"
    using w'(1) by (simp add: create_process_def put_payload_def run_seq)
  then show ?thesis using w'(2) by (simp add: tables_def)
qed

lemma run_start_mutex:
  assumes E: "answers E" "leaves tables E" and st: "lv V_mutexState \<in> dom (states (nuc w))"
  shows "\<exists>w'. run (start_mutex code lv) E w = (Done (), w') \<and> tables w' = tables w"
proof -
  obtain x where x: "states (nuc w) (lv V_mutexState) = Some x" using st by blast
  define v where "v = w\<lparr>nuc := (nuc w)\<lparr>states := (states (nuc w))(lv V_mutexState \<mapsto>
     x\<lparr>pc_epc := code E_mutex, gpr := (gpr x)(reg_sp := ramtop w), status := ALLOFF OR IECON OR IMON OR TEBITON\<rparr>)\<rparr>,
     ramtop := ramtop w - PAGESIZE\<rparr>"
  have t: "tables v = tables w" using x by (auto simp: tables_def v_def)
  from run_create [OF E, of lv "lv V_mutexState" NULL v] obtain w' p where
    w': "run (create_process lv (lv V_mutexState) NULL) E v = (Done p, w')" "tables w' = tables v" by blast
  have "run (start_mutex code lv) E w = (Done (), w'\<lparr>mutexSender := p\<rparr>)"
    using x w'(1) by (simp add: start_mutex_def run_seq upd_state_def new_stack_def v_def)
  moreover have "tables (w'\<lparr>mutexSender := p\<rparr>) = tables w" using w'(2) t by (simp add: tables_def)
  ultimately show ?thesis by blast
qed

lemma upd_state_Some:
  "states (nuc w) p = Some x \<Longrightarrow> upd_state p f w = Some (w\<lparr>nuc := (nuc w)\<lparr>states := (states (nuc w))(p \<mapsto> f x)\<rparr>\<rparr>)"
  by (simp add: upd_state_def)

lemma run_initUProc_loop:
  "length (uProcState w) = 8 \<Longrightarrow> set (uProcState w) \<subseteq> dom (states (nuc w)) \<Longrightarrow> set ks \<subseteq> {..<8} \<Longrightarrow>
   \<exists>w'. run (for_each ks (\<lambda>asid. seq (reads (\<lambda>w. nth_opt (uProcState w) (int asid))) (\<lambda>p.
     writes (upd_state p (user_state asid))))) E w = (Done (), w') \<and> tables w' = tables w"
proof (induction ks arbitrary: w)
  case (Cons k ks)
  have "uProcState w ! k \<in> set (uProcState w)" using Cons.prems(1,3) by simp
  then obtain x where x: "states (nuc w) (uProcState w ! k) = Some x" using Cons.prems(2) by blast
  let ?v = "w\<lparr>nuc := (nuc w)\<lparr>states := (states (nuc w))(uProcState w ! k \<mapsto> user_state k x)\<rparr>\<rparr>"
  have t: "tables ?v = tables w" using x by (auto simp: tables_def)
  have "length (uProcState ?v) = 8" "set (uProcState ?v) \<subseteq> dom (states (nuc ?v))" "set ks \<subseteq> {..<8}"
    using Cons.prems by auto
  from Cons.IH [OF this] obtain w' where
    w': "run (for_each ks (\<lambda>asid. seq (reads (\<lambda>w. nth_opt (uProcState w) (int asid))) (\<lambda>p.
     writes (upd_state p (user_state asid))))) E ?v = (Done (), w')" "tables w' = tables ?v" by blast
  then show ?case using x t Cons.prems by (auto simp: run_seq upd_state_Some)
qed simp

lemma tables_eq:
  "tables w' = tables w \<longleftrightarrow> swapPoolTable w' = swapPoolTable w \<and> supStruct w' = supStruct w \<and> uProcState w' = uProcState w \<and>
     supports (nuc w') = supports (nuc w) \<and> tlb (nuc w') = tlb (nuc w) \<and> dom (states (nuc w')) = dom (states (nuc w))"
  by (auto simp: tables_def)

section \<open>The first part of \<^verbatim>\<open>test\<close>\<close>

lemma setup_tables_full:
  assumes E: "answers E" "leaves tables E" and p: "pool_ok w"
    and arr: "length (supStruct w) = 8" "distinct (supStruct w)" "dom (supports (nuc w)) = set (supStruct w)"
    and st: "length (uProcState w) = 8" "set (uProcState w) \<subseteq> dom (states (nuc w))" "lv V_mutexState \<in> dom (states (nuc w))"
    and tlb: "\<forall>s < tlb_size hw. fst (tlb (nuc w) s) < KUSEG"
  shows "\<exists>w'. run (setup_tables code lv) E w = (Done (), w') \<and> vm_inv hw w' \<and>
    swapPoolTable w' = replicate 16 free_frame \<and> supStruct w' = supStruct w \<and>
    dom (supports (nuc w')) = set (supStruct w) \<and>
    (\<forall>k < 8. \<exists>u u'. supports (nuc w) (supStruct w ! k) = Some u \<and> supports (nuc w') (supStruct w ! k) = Some u' \<and>
       fresh_space k u' \<and> sup_exceptState u' = sup_exceptState u)"
proof -
  let ?w0 = "w\<lparr>testPcb := current_process (nuc w), ramtop := RAMTOP (nuc w) - 3 * PAGESIZE\<rparr>"
  let ?w1 = "?w0\<lparr>swapPoolTable := replicate 16 free_frame\<rparr>"
  have "pool_ok ?w0" using p by (simp add: pool_ok_def)
  then have r1: "run (for_each [0..<16] (\<lambda>i. writes (initSwapStructs (int i)))) E ?w0 = (Done (), ?w1)"
    by (intro run_for_each_writes init_pool)
  have "lv V_mutexState \<in> dom (states (nuc ?w1))" using st(3) by simp
  from run_start_mutex [where w = ?w1 and lv = lv and code = code, OF E this] obtain w2 where
    w2: "run (start_mutex code lv) E ?w1 = (Done (), w2)" "tables w2 = tables ?w1" by blast
  then have t2: "swapPoolTable w2 = replicate 16 free_frame" "supStruct w2 = supStruct w" "uProcState w2 = uProcState w"
    "supports (nuc w2) = supports (nuc w)" "tlb (nuc w2) = tlb (nuc w)" "dom (states (nuc w2)) = dom (states (nuc w))"
    by (simp_all add: tables_eq)
  from run_initUProc_loop [of w2 "[0..<8]" E] st t2 obtain w3 where
    w3: "run initUProc E w2 = (Done (), w3)" "tables w3 = tables w2"
    by (auto simp: initUProc_def atLeast0LessThan simp del: upt_Suc)
  then have t3: "swapPoolTable w3 = replicate 16 free_frame" "supStruct w3 = supStruct w"
    "supports (nuc w3) = supports (nuc w)" "tlb (nuc w3) = tlb (nuc w)" using t2 by (simp_all add: tables_eq)
  have "set [0..<8] \<subseteq> {..<length (supStruct w3)}" "set (supStruct w3) \<subseteq> dom (supports (nuc w3))" "distinct (supStruct w3)"
    using arr t3 by (simp_all add: atLeast0LessThan)
  from run_support_loop [OF this(3) distinct_upt this(1,2), of code E] obtain w4 where
    w4: "run (initSupportStruct code) E w3 = (Done (), w4)" "loop_done w3 [0..<8] w4"
    unfolding initSupportStruct_def by blast
  have t4: "swapPoolTable w4 = replicate 16 free_frame" "supStruct w4 = supStruct w" "tlb (nuc w4) = tlb (nuc w)"
    "dom (supports (nuc w4)) = set (supStruct w4)"
    using w4(2) t3 arr(3) unfolding loop_done_def by simp_all
  have fr: "\<forall>k < 8. \<exists>u u'. supports (nuc w) (supStruct w ! k) = Some u \<and> supports (nuc w4) (supStruct w ! k) = Some u' \<and>
       fresh_space k u' \<and> sup_exceptState u' = sup_exceptState u"
    using loop_done_in [OF w4(2)] t3(2,3) by (simp del: upt_Suc)
  have "vm_inv hw w4"
    by (rule fresh_spaces_ok) (use t4 arr tlb fr in \<open>auto simp del: upt_Suc\<close>)
  moreover have "run (setup_tables code lv) E w = (Done (), w4)"
    using r1 w2(1) w3(1) w4(1) by (simp add: setup_tables_def run_seq del: upt_Suc)
  ultimately show ?thesis using t4 fr by auto
qed

end
