(* ===== verification/Paged.thy ===== *)
theory Paged
  imports Startup
begin

text \<open>
  The states the pager and the rest of the system lead to: the tables as \<^verbatim>\<open>test\<close> sets
  them up, page faults served to their end, TLB misses served by
  \<^verbatim>\<open>uTLB_RefillHandler\<close>, and whatever touches neither the swap pool nor the page
  tables nor the TLB.  Frames that are released at the end of a process
  (\<^verbatim>\<open>terminate\<close>, \<^verbatim>\<open>programTrapHandler\<close>) are not among the steps:
  the page tables still name a released frame.
\<close>

section \<open>The rest of the system\<close>

text \<open>A TLB miss is a reference to a page whose tag is in no slot.\<close>

inductive background :: "machine \<Rightarrow> world \<Rightarrow> world \<Rightarrow> bool" for hw where
  nothing: "background hw w w"
| other: "background hw w v \<Longrightarrow> swapPoolTable v' = swapPoolTable v \<Longrightarrow> spaces_of v' = spaces_of v \<Longrightarrow>
    pick_counter v' = pick_counter v \<Longrightarrow> tlb (nuc v') = tlb (nuc v) \<Longrightarrow> background hw w v'"
| refill: "background hw w v \<Longrightarrow> uTLB_RefillHandler (get_vpn hw) (nuc v) = Some (c, s) \<Longrightarrow>
    tlb_random (nuc v) < tlb_size hw \<Longrightarrow> (\<forall>i < tlb_size hw. fst (tlb (nuc v) i) \<noteq> cp0_entryhi s) \<Longrightarrow>
    background hw w (v\<lparr>nuc := s\<rparr>)"

lemma refill_effect:
  assumes "uTLB_RefillHandler gv (nuc v) = Some (c, s)"
  shows "\<exists>q a g p. spaces_of v q = Some (a, g) \<and> p < 32 \<and> cp0_entryhi s = pte_entryHI (g p) \<and>
    tlb s = (tlb (nuc v))(tlb_random (nuc v) := (pte_entryHI (g p), pte_entryLO (g p)))"
    and "spaces_of (v\<lparr>nuc := s\<rparr>) = spaces_of v"
proof -
  note def = uTLB_RefillHandler_def Let_def
  obtain p where p1: "page_index gv (entry_hi (exception_state (nuc v))) = Some p"
    using assms by (cases "page_index gv (entry_hi (exception_state (nuc v)))") (simp_all add: def)
  obtain x where x: "pcbs (nuc v) (current_process (nuc v)) = Some x"
    using assms p1 by (cases "pcbs (nuc v) (current_process (nuc v))") (simp_all add: def)
  obtain u where p2: "supports (nuc v) (p_supportStruct x) = Some u"
    using assms p1 x by (cases "supports (nuc v) (p_supportStruct x)") (simp_all add: def)
  have p3: "s = TLBWR ((nuc v)\<lparr>cp0_entryhi := pte_entryHI (sup_privatePgTbl u p), cp0_entrylo := pte_entryLO (sup_privatePgTbl u p)\<rparr>)"
    using assms p1 x p2 by (simp add: def)
  note p = p1 p2 p3
  have "p < 32" by (rule page_index_less [OF p(1)])
  moreover have "spaces_of v (p_supportStruct x) = Some (sup_asid u, sup_privatePgTbl u)" using p(2) by (simp add: spaces_of_def)
  moreover have "cp0_entryhi s = pte_entryHI (sup_privatePgTbl u p)"
    "tlb s = (tlb (nuc v))(tlb_random (nuc v) := (pte_entryHI (sup_privatePgTbl u p), pte_entryLO (sup_privatePgTbl u p)))"
    by (simp_all add: p(3) TLBWR_def)
  ultimately show "\<exists>q a g p. spaces_of v q = Some (a, g) \<and> p < 32 \<and> cp0_entryhi s = pte_entryHI (g p) \<and>
    tlb s = (tlb (nuc v))(tlb_random (nuc v) := (pte_entryHI (g p), pte_entryLO (g p)))" by blast
  show "spaces_of (v\<lparr>nuc := s\<rparr>) = spaces_of v" by (simp add: p(3) TLBWR_def spaces_of_def fun_eq_iff)
qed

text \<open>A slot that gets a page that was in no slot keeps the TLB as it should be.\<close>

lemma refill_tlb_ok:
  assumes ok: "tags_unique hw t V" "tlb_coherent hw t V" and d: "pages_distinct V"
    and p: "V q = Some (a, g)" "p < 32" and miss: "\<forall>i < tlb_size hw. fst (t i) \<noteq> pte_entryHI (g p)"
  shows "tags_unique hw (t(r := (pte_entryHI (g p), pte_entryLO (g p)))) V \<and>
    tlb_coherent hw (t(r := (pte_entryHI (g p), pte_entryLO (g p)))) V"
proof
  show "tags_unique hw (t(r := (pte_entryHI (g p), pte_entryLO (g p)))) V"
    using ok(1) miss unfolding tags_unique_def by (auto; metis)
  show "tlb_coherent hw (t(r := (pte_entryHI (g p), pte_entryLO (g p)))) V"
  proof (unfold tlb_coherent_def, intro allI impI)
    fix s q' a' g' j
    assume h: "s < tlb_size hw" "V q' = Some (a', g')" "j < 32"
      "fst ((t(r := (pte_entryHI (g p), pte_entryLO (g p)))) s) = pte_entryHI (g' j)"
    show "snd ((t(r := (pte_entryHI (g p), pte_entryLO (g p)))) s) = pte_entryLO (g' j)"
    proof (cases "s = r")
      case True
      then have "pte_entryHI (g p) = pte_entryHI (g' j)" using h(4) by simp
      then have "q = q' \<and> p = j" using d p h(2,3) unfolding pages_distinct_def by metis
      then show ?thesis using True p(1) h(2) by simp
    next
      case False
      then have "fst (t s) = pte_entryHI (g' j)" using h(4) by simp
      then have "snd (t s) = pte_entryLO (g' j)" using ok(2) h(1-3) unfolding tlb_coherent_def by blast
      then show ?thesis using False by simp
    qed
  qed
qed

lemma background_keeps:
  "background hw w v \<Longrightarrow> same_vm w v \<and> (pages_distinct (spaces_of w) \<longrightarrow> tlb_ok hw w \<longrightarrow> tlb_ok hw v)"
proof (induction rule: background.induct)
  case (refill w v c s)
  obtain q a g p where e: "spaces_of v q = Some (a, g)" "p < 32" "cp0_entryhi s = pte_entryHI (g p)"
    "tlb s = (tlb (nuc v))(tlb_random (nuc v) := (pte_entryHI (g p), pte_entryLO (g p)))" and sp: "spaces_of (v\<lparr>nuc := s\<rparr>) = spaces_of v"
    using refill_effect [OF refill.hyps(2)] by blast
  have "same_vm w (v\<lparr>nuc := s\<rparr>)" using refill.IH sp by (simp add: same_vm_def)
  moreover have "tlb_ok hw (v\<lparr>nuc := s\<rparr>)" if d: "pages_distinct (spaces_of w)" "tlb_ok hw w"
  proof -
    have "tlb_ok hw v" "pages_distinct (spaces_of v)" using refill.IH d by (simp_all add: same_vm_def)
    then show ?thesis
      using refill_tlb_ok [of hw "tlb (nuc v)" "spaces_of v" q a g p "tlb_random (nuc v)"] e refill.hyps(4)
      by (simp add: tlb_ok_def sp)
  qed
  ultimately show ?case by blast
next
  case (other w v v')
  then have "tlb_ok hw v' = tlb_ok hw v" by (simp add: tlb_ok_def)
  then show ?case using other by (simp add: same_vm_def)
qed simp_all

lemma background_quiet: "(\<forall>c w v w'. E c w = Some (v, w') \<longrightarrow> background hw w w') \<Longrightarrow> quiet hw E"
  unfolding quiet_def using background_keeps by blast

section \<open>States of the swap pool\<close>

inductive paged :: "machine \<Rightarrow> (entry_point \<Rightarrow> u32) \<Rightarrow> locals \<Rightarrow> world \<Rightarrow> bool" for hw code lv where
  started: "paged hw code lv w'" if "run (setup_tables code lv) E w = (Done (), w')"
    and "answers E" "leaves tables E" "pool_ok w"
    and "length (supStruct w) = 8" "distinct (supStruct w)" "dom (supports (nuc w)) = set (supStruct w)"
    and "length (uProcState w) = 8" "set (uProcState w) \<subseteq> dom (states (nuc w))" "lv V_mutexState \<in> dom (states (nuc w))"
    and "\<forall>s < tlb_size hw. fst (tlb (nuc w) s) < KUSEG"
| goes_on: "paged hw code lv w'" if "paged hw code lv w" "background hw w w'"
| counted: "paged hw code lv (w\<lparr>pick_counter := c\<rparr>)" if "paged hw code lv w"
| faulted: "paged hw code lv w'" if "paged hw code lv w" "run (serve_fault hw lv spt) E w = (Done (), w')"
    and "\<forall>c w v w'. E c w = Some (v, w') \<longrightarrow> background hw w w'" "flash_works E lv"

definition asids_ok :: "world \<Rightarrow> bool" where
  "asids_ok w \<longleftrightarrow> (\<forall>q a g. spaces_of w q = Some (a, g) \<longrightarrow> a \<noteq> NOASID)"

lemma asids_ok_fst: "(\<forall>q. map_option fst (spaces_of w' q) = map_option fst (spaces_of w q)) \<Longrightarrow> asids_ok w \<Longrightarrow> asids_ok w'"
proof (unfold asids_ok_def, intro allI impI)
  fix q a g
  assume h: "\<forall>q. map_option fst (spaces_of w' q) = map_option fst (spaces_of w q)" "spaces_of w' q = Some (a, g)"
    and ok: "\<forall>q a g. spaces_of w q = Some (a, g) \<longrightarrow> a \<noteq> NOASID"
  have "map_option fst (spaces_of w q) = Some a" using h(1) [rule_format, of q] h(2) by simp
  then obtain g' where "spaces_of w q = Some (a, g')" by auto
  then show "a \<noteq> NOASID" using ok by blast
qed

text \<open>A fault that is served to its end had an address space, a page and a frame of the pool.\<close>

lemma serve_fault_Done:
  assumes "run (serve_fault hw lv spt) E w = (Done (), w')" "pool_ok w"
  shows "\<exists>u p f w1. supports (nuc w) spt = Some u \<and>
    page_index (get_vpn hw) (entry_hi (sup_exceptState u PGFAULTEXCEPT)) = Some p \<and> pick_frame w = Some (int f, w1) \<and> f < 16"
proof -
  note def = serve_fault_def run_seq
  have "supports (nuc w) spt \<noteq> None"
  proof
    assume "supports (nuc w) spt = None"
    then show False using assms(1) by (simp add: def exc_state_of_def)
  qed
  then obtain u where u: "supports (nuc w) spt = Some u" by blast
  have es: "exc_state_of PGFAULTEXCEPT spt w = Some (sup_exceptState u PGFAULTEXCEPT)" using u by (simp add: exc_state_of_def)
  have "page_index (get_vpn hw) (entry_hi (sup_exceptState u PGFAULTEXCEPT)) \<noteq> None"
  proof
    assume "page_index (get_vpn hw) (entry_hi (sup_exceptState u PGFAULTEXCEPT)) = None"
    then show False using assms(1) es by (simp add: def)
  qed
  then obtain p where p: "page_index (get_vpn hw) (entry_hi (sup_exceptState u PGFAULTEXCEPT)) = Some p" by blast
  have "pick_frame w \<noteq> None"
  proof
    assume "pick_frame w = None"
    then show False using assms(1) es p by (simp add: def)
  qed
  then obtain i w1 where f: "pick_frame w = Some (i, w1)" by fast
  have t: "swapPoolTable w1 = swapPoolTable w"
    using f by (auto simp: pick_frame_def split: bind_splits option.splits if_splits)
  have "isFrameFree i w1 \<noteq> None"
  proof
    assume "isFrameFree i w1 = None"
    then show False using assms(1) es p f by (simp add: def)
  qed
  then have "0 \<le> i \<and> i < 16" using assms(2) t by (auto simp: isFrameFree_def nth_opt_def pool_ok_def split: if_splits)
  then have "pick_frame w = Some (int (nat i), w1)" "nat i < 16" using f by auto
  then show ?thesis using u p by blast
qed

lemma paged_inv:
  assumes hw: "probe_ok hw"
  shows "paged hw code lv w \<Longrightarrow> vm_inv hw w \<and> asids_ok w"
proof (induction rule: paged.induct)
  case (started E w w')
  from setup_tables_full [where w = w and lv = lv and hw = hw and code = code, OF started(2-)] started(1) have
    s: "vm_inv hw w'" "dom (supports (nuc w')) = set (supStruct w)"
    "\<forall>k < 8. \<exists>u u'. supports (nuc w) (supStruct w ! k) = Some u \<and> supports (nuc w') (supStruct w ! k) = Some u' \<and>
       fresh_space k u' \<and> sup_exceptState u' = sup_exceptState u" by auto
  have "a \<noteq> NOASID" if q: "spaces_of w' q = Some (a, g)" for q a g
  proof -
    have "q \<in> set (supStruct w)" using q s(2) by (auto simp: spaces_of_def)
    then obtain k where k: "k < 8" "q = supStruct w ! k" using started(5) by (metis in_set_conv_nth)
    then obtain u where "supports (nuc w') q = Some u" "fresh_space k u" using s(3) by blast
    then have "a = of_nat (k + 1)" using q by (auto simp: spaces_of_def fresh_space_def)
    moreover have "list_all (\<lambda>k. (of_nat (k + 1) :: u32) \<noteq> NOASID) [0..<8]" by code_simp
    ultimately show ?thesis using k(1) by (auto simp: list_all_iff)
  qed
  then show ?case using s(1) by (simp add: asids_ok_def)
next
  case (goes_on w w')
  have "same_vm w w'" "pages_distinct (spaces_of w) \<longrightarrow> tlb_ok hw w \<longrightarrow> tlb_ok hw w'"
    using background_keeps [OF goes_on(2)] by blast+
  then show ?case using goes_on.IH by (auto simp: vm_inv_def same_vm_def pool_ok_def asids_ok_def)
next
  case (counted w c)
  have "spaces_of (w\<lparr>pick_counter := c\<rparr>) = spaces_of w" by (simp add: spaces_of_def fun_eq_iff)
  then show ?case using counted.IH by (simp add: vm_inv_def pool_ok_def tlb_ok_def asids_ok_def)
next
  case (faulted w spt E w')
  have inv: "vm_inv hw w" "asids_ok w" "pool_ok w" using faulted.IH by (simp_all add: vm_inv_def)
  obtain u p f w1 where d: "supports (nuc w) spt = Some u"
    "page_index (get_vpn hw) (entry_hi (sup_exceptState u PGFAULTEXCEPT)) = Some p" "pick_frame w = Some (int f, w1)" "f < 16"
    using serve_fault_Done [OF faulted(2) inv(3)] by blast
  have a: "sup_asid u \<noteq> NOASID" using inv(2) d(1) by (auto simp: asids_ok_def spaces_of_def)
  from serve_fault_serves [OF inv(1) hw background_quiet [OF faulted(3)] faulted(4) d(1) a d(2-4)] faulted(2)
  have "vm_inv hw w'" "\<forall>q. map_option fst (spaces_of w' q) = map_option fst (spaces_of w q)" by auto
  then show ?case using asids_ok_fst inv(2) by blast
qed

end
