(* ===== verification/Vm_Props.thy ===== *)
theory Vm_Props
  imports Paged Demo
begin

text \<open>
  The properties of address translation, \<^verbatim>\<open>src/phase3/vmSupport.c\<close>, and the concrete machine
  they are applied on: sixteen TLB slots, a system that answers every request with success.
\<close>

section \<open>A machine\<close>

definition demo_hw :: machine where
  "demo_hw = \<lparr>get_vpn = (\<lambda>x. drop_bit 12 (x AND 0x3FFFF000)), get_exccode = (\<lambda>x. drop_bit 2 (x AND 0x7C)),
     tlb_probe = (\<lambda>t h. case find (\<lambda>i. fst (t i) = h) [0..<16] of Some i \<Rightarrow> of_nat i | None \<Rightarrow> PRESENTFLAG),
     index_slot = unat, tlb_size = 16\<rparr>"

lemma demo_probe: "probe_ok demo_hw"
proof -
  have s: "(of_nat i :: u32) AND PRESENTFLAG = 0 \<and> unat (of_nat i :: u32) = i" if "i < 16" for i
  proof -
    have "list_all (\<lambda>i. (of_nat i :: u32) AND PRESENTFLAG = 0 \<and> unat (of_nat i :: u32) = i) [0..<16]" by code_simp
    then show ?thesis using that by (simp add: list_all_iff)
  qed
  have "if tlb_probe demo_hw t h AND PRESENTFLAG = 0
     then index_slot demo_hw (tlb_probe demo_hw t h) < tlb_size demo_hw \<and> fst (t (index_slot demo_hw (tlb_probe demo_hw t h))) = h
     else (\<forall>i < tlb_size demo_hw. fst (t i) \<noteq> h)" for t h
  proof (cases "find (\<lambda>i. fst (t i) = h) [0..<16]")
    case None
    then have "\<forall>i < 16. fst (t i) \<noteq> h" by (auto simp: find_None_iff)
    then show ?thesis using None by (simp add: demo_hw_def del: upt_Suc)
  next
    case (Some i)
    then have "i < 16" "fst (t i) = h" by (auto simp: find_Some_iff simp del: upt_Suc)
    then show ?thesis using Some s [of i] by (simp add: demo_hw_def del: upt_Suc)
  qed
  then show ?thesis unfolding probe_ok_def by blast
qed

definition demo_lv :: locals where
  "demo_lv v = (case v of V_create_arg \<Rightarrow> 0x20038000 | V_create_payload \<Rightarrow> 0x20038008 | V_create_p \<Rightarrow> 0x20038010
     | V_getsup_payload \<Rightarrow> 0x20038014 | V_getsup_sup \<Rightarrow> 0x2003801C | V_kill_payload \<Rightarrow> 0x20038020
     | V_flash_io \<Rightarrow> 0x20038028 | V_flash_payload \<Rightarrow> 0x20038030 | V_flash_s \<Rightarrow> 0x20038038
     | V_print_msg \<Rightarrow> 0x2003803C | V_print_io \<Rightarrow> 0x20038040 | V_print_payload \<Rightarrow> 0x20038048
     | V_print_status \<Rightarrow> 0x20038050 | V_sst_payload \<Rightarrow> 0x20038054 | V_mutexState \<Rightarrow> 0x20038058)"

definition demo_supports :: "ptr list" where
  "demo_supports = [0x20030000, 0x20030800, 0x20031000, 0x20031800, 0x20032000, 0x20032800, 0x20033000, 0x20033800]"

definition demo_states :: "ptr list" where
  "demo_states = [0x20034000, 0x20034100, 0x20034200, 0x20034300, 0x20034400, 0x20034500, 0x20034600, 0x20034700]"

text \<open>Support structures as a fault of page 3 of the first address space finds them.\<close>

definition demo_support :: support_t where
  "demo_support = \<lparr>sup_asid = 0, sup_exceptState = (\<lambda>_. zero_state\<lparr>entry_hi := 0x80003040\<rparr>),
     sup_exceptContext = (\<lambda>_. \<lparr>stackPtr = 0, c_status = 0, c_pc = 0\<rparr>),
     sup_privatePgTbl = (\<lambda>_. \<lparr>pte_entryHI = 0, pte_entryLO = 0\<rparr>)\<rparr>"

definition demo_world :: world where
  "demo_world = \<lparr>nuc = demo_image\<lparr>
       states := (\<lambda>p. if p \<in> insert (demo_lv V_mutexState) (set demo_states) then Some zero_state else None),
       supports := (\<lambda>p. if p \<in> set demo_supports then Some demo_support else None)\<rparr>,
     uProcState = demo_states, supStruct = demo_supports, sstProcState = [], printerState = [], terminalState = [],
     swapPoolTable = replicate 16 \<lparr>sw_asid = 0, sw_pageNo = 0, sw_pte = PTE_NULL\<rparr>,
     mutexSender = 0, mutexRecv = 0, printerPcbs = replicate 8 0, terminalPcbs = replicate 8 0, sstPcbs = replicate 8 0,
     uproc = replicate 8 0, testPcb = 0, ramtop = 0x20040000, pick_counter = - 1, cp0_index = 0,
     bytes = (\<lambda>_. EOS), sst_prints = Map.empty\<rparr>"

definition demo_env :: env where
  "demo_env c w = (case c of (a, b, p) \<Rightarrow> Some (READY, w\<lparr>nuc := store p READY (nuc w)\<rparr>))"

lemma spaces_of_mem [simp]: "spaces_of (w\<lparr>nuc := (nuc w)\<lparr>mem := m\<rparr>\<rparr>) = spaces_of w"
  by (simp add: spaces_of_def fun_eq_iff)

lemma demo_env_facts:
  "answers demo_env" "leaves tables demo_env" "quiet hw demo_env" "flash_works demo_env lv"
  unfolding answers_def leaves_def quiet_def flash_works_def
  by (auto simp: demo_env_def store_def tables_def same_vm_def spaces_of_def tlb_ok_def split: prod.splits)

lemma demo_started:
  "\<exists>w. run (setup_tables demo_code demo_lv) demo_env demo_world = (Done (), w) \<and> vm_inv demo_hw w \<and>
     swapPoolTable w = replicate 16 free_frame \<and> supStruct w = demo_supports \<and> dom (supports (nuc w)) = set demo_supports \<and>
     (\<forall>k < 8. \<exists>u u'. supports (nuc demo_world) (demo_supports ! k) = Some u \<and>
        supports (nuc w) (demo_supports ! k) = Some u' \<and> fresh_space k u' \<and> sup_exceptState u' = sup_exceptState u)"
proof -
  have d: "supStruct demo_world = demo_supports" by (simp add: demo_world_def)
  show ?thesis unfolding d [symmetric]
    by (rule setup_tables_full [OF demo_env_facts(1,2)])
      (auto simp: demo_world_def demo_supports_def demo_states_def pool_ok_def demo_image_def demo_hw_def split: if_splits)
qed

section \<open>Start\<close>



section \<open>A page fault\<close>

text \<open>The frame a fault gets: the first free one, or the next in turn.\<close>

definition victim :: "world \<Rightarrow> nat" where
  "victim w = (if \<exists>i < 16. \<not> occupied w i then LEAST i. \<not> occupied w i else nat (pick_counter w mod 16))"

lemma pick_victim:
  assumes p: "pool_ok w" and c: "(\<exists>i < 16. \<not> occupied w i) \<or> 0 \<le> pick_counter w \<and> pick_counter w < 2 ^ 31 - 1"
  shows "\<exists>w1. pick_frame w = Some (int (victim w), w1)" "victim w < 16"
proof -
  have "(\<exists>w1. pick_frame w = Some (int (victim w), w1)) \<and> victim w < 16"
  proof (cases "\<exists>i < 16. \<not> occupied w i")
    case True
    then obtain j where "j < 16" "\<not> occupied w j" by blast
    then have "(LEAST i. \<not> occupied w i) < 16" using Least_le [of "\<lambda>i. \<not> occupied w i" j] by simp
    then show ?thesis using True pick_frame_free [OF p True] by (simp add: victim_def)
  next
    case False
    then have "pick_frame w = Some (pick_counter w smod 16, w\<lparr>pick_counter := pick_counter w + 1\<rparr>)"
      using c by (intro pick_frame_full [OF p]) auto
    moreover have "nat (pick_counter w mod 16) < 16" by (simp add: nat_less_iff)
    moreover have "victim w = nat (pick_counter w mod 16)" unfolding victim_def by (rule if_not_P [OF False])
    moreover have "0 \<le> pick_counter w" using False c by blast
    ultimately show ?thesis using smod_nonneg [of "pick_counter w"] by simp
  qed
  then show "\<exists>w1. pick_frame w = Some (int (victim w), w1)" "victim w < 16" by simp_all
qed

text \<open>C8.  A page fault is served.  Let the tables be consistent, let the system meanwhile leave the
  swap pool and the page tables alone and the TLB consistent, let the flash device answer every request
  with READY, and let a frame be free or the pool be full with the counter of
  \<^verbatim>\<open>pick_frame\<close> not negative.  (The counter starts at -1, so the first eviction is
  not served; see \<^verbatim>\<open>first_eviction_faults\<close>.  It leaves the counter at 0.)  The
  pager takes the first free frame or evicts the next one in turn, and ends with the page of the
  faulting address valid and mapped to that frame, the swap pool entry naming the page, and the TLB, the
  pool and all page tables consistent.\<close>

theorem page_fault_served:
  assumes "vm_inv hw w" "probe_ok hw" "quiet hw E" "flash_works E lv"
    and "supports (nuc w) spt = Some u" "sup_asid u \<noteq> NOASID"
    and "page_index (get_vpn hw) (entry_hi (sup_exceptState u PGFAULTEXCEPT)) = Some p"
    and "(\<exists>i < 16. \<not> occupied w i) \<or> 0 \<le> pick_counter w \<and> pick_counter w < 2 ^ 31 - 1"
  shows "\<exists>w' g. run (serve_fault hw lv spt) E w = (Done (), w') \<and> vm_inv hw w' \<and>
    spaces_of w' spt = Some (sup_asid u, g) \<and> valid_entry (g p) \<and>
    entry_frame (g p) = frame_addr (int (victim w)) \<and>
    swapPoolTable w' = (swapPoolTable w)[victim w := \<lparr>sw_asid = sup_asid u, sw_pageNo = of_nat p, sw_pte = PTE_AT spt p\<rparr>]"
proof -
  have "pool_ok w" using assms(1) by (simp add: vm_inv_def)
  from pick_victim [OF this assms(8)] obtain w1 where "pick_frame w = Some (int (victim w), w1)" "victim w < 16" by blast
  from serve_fault_serves [OF assms(1-7) this] show ?thesis by blast
qed

text \<open>The demonstration: the tables of the eight address spaces, with faults at chosen pages.\<close>

definition fault_at :: "ptr \<Rightarrow> nat \<Rightarrow> world \<Rightarrow> world" where
  "fault_at spt n w = w\<lparr>nuc := (nuc w)\<lparr>supports := (supports (nuc w))(spt := map_option
     (\<lambda>u. u\<lparr>sup_exceptState := (\<lambda>_. zero_state\<lparr>entry_hi := KUSEG + of_nat n * PAGESIZE\<rparr>)\<rparr>) (supports (nuc w) spt))\<rparr>\<rparr>"

lemma fault_at_simps [simp]:
  "swapPoolTable (fault_at spt n w) = swapPoolTable w" "spaces_of (fault_at spt n w) = spaces_of w"
  "pick_counter (fault_at spt n w) = pick_counter w" "tlb (nuc (fault_at spt n w)) = tlb (nuc w)"
  by (auto simp: fault_at_def spaces_of_def fun_eq_iff option.map_comp comp_def)

lemma paged_fault_at: "paged hw code lv w \<Longrightarrow> paged hw code lv (fault_at spt n w)"
  by (erule paged.goes_on) (rule background.other [OF background.nothing], simp_all)

lemma demo_page: "page_index (get_vpn demo_hw) 0x80003040 = Some 3"
  by (simp add: page_index_def demo_hw_def)

lemma fault_page: "n < 17 \<Longrightarrow> page_index (get_vpn demo_hw) (KUSEG + of_nat n * PAGESIZE) = Some n"
proof -
  have "list_all (\<lambda>n. page_index (get_vpn demo_hw) (KUSEG + of_nat n * PAGESIZE) = Some n) [0..<17]" by code_simp
  then show "n < 17 \<Longrightarrow> ?thesis" by (simp add: list_all_iff del: upt_Suc)
qed

lemma demo_env_background: "\<forall>c w v w'. demo_env c w = Some (v, w') \<longrightarrow> background hw w w'"
proof (intro allI impI)
  fix c w v w' assume "demo_env c w = Some (v, w')"
  then obtain p where w': "w' = w\<lparr>nuc := store p READY (nuc w)\<rparr>" by (auto simp: demo_env_def split: prod.splits)
  show "background hw w w'"
    by (rule background.other [OF background.nothing]) (simp_all add: w' store_def spaces_of_def fun_eq_iff)
qed

lemma demo_paged:
  "\<exists>w. paged demo_hw demo_code demo_lv w \<and> run (setup_tables demo_code demo_lv) demo_env demo_world = (Done (), w) \<and>
     (\<forall>i < 16. \<not> occupied w i) \<and> (\<exists>g. spaces_of w 0x20030000 = Some (1, g)) \<and> (\<exists>g. spaces_of w 0x20030800 = Some (2, g))"
proof -
  obtain w where w: "run (setup_tables demo_code demo_lv) demo_env demo_world = (Done (), w)"
    "swapPoolTable w = replicate 16 free_frame"
    "\<forall>k < 8. \<exists>u u'. supports (nuc demo_world) (demo_supports ! k) = Some u \<and>
        supports (nuc w) (demo_supports ! k) = Some u' \<and> fresh_space k u' \<and> sup_exceptState u' = sup_exceptState u"
    using demo_started by blast
  have "paged demo_hw demo_code demo_lv w"
    by (rule paged.started [OF w(1) demo_env_facts(1,2)])
      (auto simp: demo_world_def demo_supports_def demo_states_def pool_ok_def demo_image_def demo_hw_def split: if_splits)
  moreover have "\<forall>i < 16. \<not> occupied w i" by (simp add: occupied_def w(2) free_frame_def)
  moreover have "demo_supports ! 0 = 0x20030000" "demo_supports ! 1 = 0x20030800" by (simp_all add: demo_supports_def)
  then have "\<exists>g. spaces_of w 0x20030000 = Some (1, g)" "\<exists>g. spaces_of w 0x20030800 = Some (2, g)"
    using w(3) [rule_format, of 0] w(3) [rule_format, of 1] by (auto simp: spaces_of_def fresh_space_def)
  ultimately show ?thesis using w(1) by blast
qed

text \<open>A fault of the demonstration, and how it is served.\<close>

lemma demo_fault:
  assumes w: "paged demo_hw demo_code demo_lv w" "spaces_of w spt = Some (a, g)" and n: "n < 17"
  obtains u where "supports (nuc (fault_at spt n w)) spt = Some u" "sup_asid u = a" "sup_asid u \<noteq> NOASID"
    "page_index (get_vpn demo_hw) (entry_hi (sup_exceptState u PGFAULTEXCEPT)) = Some n" "vm_inv demo_hw (fault_at spt n w)"
proof -
  let ?w = "fault_at spt n w"
  from paged_inv [OF demo_probe paged_fault_at [OF w(1)]] have inv: "vm_inv demo_hw ?w" "asids_ok ?w" by simp_all
  obtain u where u: "supports (nuc w) spt = Some u" "sup_asid u = a" using w(2) by (auto simp: spaces_of_def)
  let ?u = "u\<lparr>sup_exceptState := (\<lambda>_. zero_state\<lparr>entry_hi := KUSEG + of_nat n * PAGESIZE\<rparr>)\<rparr>"
  show thesis
  proof (rule that [of ?u])
    show "supports (nuc ?w) spt = Some ?u" by (simp add: fault_at_def u)
    show "page_index (get_vpn demo_hw) (entry_hi (sup_exceptState ?u PGFAULTEXCEPT)) = Some n" using fault_page [OF n] by simp
    show "sup_asid ?u \<noteq> NOASID" using inv(2) w(2) u(2) by (auto simp: asids_ok_def)
  qed (use u(2) inv(1) in simp_all)
qed

lemma demo_serves:
  assumes w: "paged demo_hw demo_code demo_lv w" "spaces_of w spt = Some (a, g)" and n: "n < 17"
    and pick: "pick_frame (fault_at spt n w) = Some (int f, w1)" "f < 16"
  shows "\<exists>w' g. run (serve_fault demo_hw demo_lv spt) demo_env (fault_at spt n w) = (Done (), w') \<and>
    paged demo_hw demo_code demo_lv w' \<and> spaces_of w' spt = Some (a, g) \<and> valid_entry (g n) \<and>
    entry_frame (g n) = frame_addr (int f) \<and>
    swapPoolTable w' = (swapPoolTable w)[f := \<lparr>sw_asid = a, sw_pageNo = of_nat n, sw_pte = PTE_AT spt n\<rparr>] \<and>
    (\<forall>q. map_option fst (spaces_of w' q) = map_option fst (spaces_of w q)) \<and> a \<noteq> NOASID \<and>
    (\<not> occupied w f \<longrightarrow> (\<forall>q. q \<noteq> spt \<longrightarrow> spaces_of w' q = spaces_of w q))"
proof -
  let ?w = "fault_at spt n w"
  have p: "paged demo_hw demo_code demo_lv ?w" by (rule paged_fault_at [OF w(1)])
  obtain u where u: "supports (nuc ?w) spt = Some u" "sup_asid u = a" "sup_asid u \<noteq> NOASID"
    "page_index (get_vpn demo_hw) (entry_hi (sup_exceptState u PGFAULTEXCEPT)) = Some n" "vm_inv demo_hw ?w"
    by (rule demo_fault [OF w n])
  from serve_fault_serves [where E = demo_env and lv = demo_lv, OF u(5) demo_probe demo_env_facts(3,4) u(1,3,4) pick]
  obtain w' g where w': "run (serve_fault demo_hw demo_lv spt) demo_env ?w = (Done (), w')"
    "spaces_of w' spt = Some (a, g)" "valid_entry (g n)" "entry_frame (g n) = frame_addr (int f)"
    "swapPoolTable w' = (swapPoolTable ?w)[f := \<lparr>sw_asid = a, sw_pageNo = of_nat n, sw_pte = PTE_AT spt n\<rparr>]"
    "\<forall>q. map_option fst (spaces_of w' q) = map_option fst (spaces_of ?w q)"
    "\<not> occupied ?w f \<longrightarrow> (\<forall>q. q \<noteq> spt \<longrightarrow> spaces_of w' q = spaces_of ?w q)" unfolding u(2) by blast
  have "paged demo_hw demo_code demo_lv w'"
    by (rule paged.faulted [OF p w'(1) demo_env_background demo_env_facts(4)])
  moreover have "occupied ?w f = occupied w f" by (simp add: occupied_def)
  ultimately show ?thesis using w' u(2,3) by auto
qed

lemma demo_picks:
  assumes w: "paged demo_hw demo_code demo_lv w" and occ: "\<forall>i < 16. occupied w i \<longleftrightarrow> i < n" and n: "n < 16"
  shows "pick_frame (fault_at spt k w) = Some (int n, fault_at spt k w)"
proof -
  let ?w = "fault_at spt k w"
  have e: "occupied ?w i \<longleftrightarrow> occupied w i" for i by (simp add: occupied_def)
  have "(LEAST i. \<not> occupied ?w i) = n"
  proof (rule Least_equality)
    show "\<not> occupied ?w n" using occ n e by simp
    show "n \<le> i" if "\<not> occupied ?w i" for i using that occ e n by (cases "i < 16") auto
  qed
  moreover have "pool_ok ?w" using paged_inv [OF demo_probe w] by (simp add: vm_inv_def pool_ok_def)
  moreover have "\<exists>i < 16. \<not> occupied ?w i" using occ n e by (intro exI [of _ n]) simp
  ultimately show ?thesis using pick_frame_free [of ?w] by simp
qed

text \<open>Sixteen faults fill the pool.\<close>

lemma demo_fills:
  "n \<le> 16 \<Longrightarrow> \<exists>w. paged demo_hw demo_code demo_lv w \<and> (\<forall>i < 16. occupied w i \<longleftrightarrow> i < n) \<and> (\<exists>g. spaces_of w 0x20030000 = Some (1, g))"
proof (induction n)
  case 0
  show ?case using demo_paged by auto
next
  case (Suc n)
  then obtain w g where w: "paged demo_hw demo_code demo_lv w" "\<forall>i < 16. occupied w i \<longleftrightarrow> i < n" "spaces_of w 0x20030000 = Some (1, g)"
    by auto
  let ?w = "fault_at 0x20030000 n w"
  have po: "length (swapPoolTable w) = 16" using paged_inv [OF demo_probe w(1)] by (simp add: vm_inv_def pool_ok_def)
  have "pick_frame ?w = Some (int n, ?w)" using demo_picks [OF w(1,2)] Suc.prems by simp
  then obtain w' g where w': "paged demo_hw demo_code demo_lv w'" "spaces_of w' 0x20030000 = Some (1, g)"
    "swapPoolTable w' = (swapPoolTable w)[n := \<lparr>sw_asid = 1, sw_pageNo = of_nat n, sw_pte = PTE_AT 0x20030000 n\<rparr>]"
    using demo_serves [OF w(1,3), of n n ?w] Suc.prems by auto
  have "\<forall>i < 16. occupied w' i \<longleftrightarrow> i < Suc n"
    using w(2) po Suc.prems by (auto simp: occupied_def w'(3) nth_list_update less_Suc_eq)
  then show ?case using w' by blast
qed

theorem page_fault_served_witness:
  "\<exists>w w' g v v' h. run (setup_tables demo_code demo_lv) demo_env demo_world = (Done (), w) \<and>
     run (serve_fault demo_hw demo_lv 0x20030000) demo_env (fault_at 0x20030000 3 w) = (Done (), w') \<and>
     spaces_of w' 0x20030000 = Some (1, g) \<and> valid_entry (g 3) \<and>
     paged demo_hw demo_code demo_lv v \<and> (\<forall>i < 16. occupied v i) \<and> pick_counter v = 0 \<and>
     run (serve_fault demo_hw demo_lv 0x20030000) demo_env (fault_at 0x20030000 16 v) = (Done (), v') \<and>
     spaces_of v' 0x20030000 = Some (1, h) \<and> valid_entry (h 16) \<and> entry_frame (h 16) = frame_addr 0 \<and>
     swapPoolTable v' = (swapPoolTable v)[0 := \<lparr>sw_asid = 1, sw_pageNo = 16, sw_pte = PTE_AT 0x20030000 16\<rparr>]"
proof -
  obtain w g0 where w: "paged demo_hw demo_code demo_lv w" "spaces_of w 0x20030000 = Some (1, g0)"
    "run (setup_tables demo_code demo_lv) demo_env demo_world = (Done (), w)" "\<forall>i < 16. \<not> occupied w i"
    using demo_paged by auto
  obtain u where u: "supports (nuc (fault_at 0x20030000 3 w)) 0x20030000 = Some u" "sup_asid u = 1" "sup_asid u \<noteq> NOASID"
    "page_index (get_vpn demo_hw) (entry_hi (sup_exceptState u PGFAULTEXCEPT)) = Some 3" "vm_inv demo_hw (fault_at 0x20030000 3 w)"
    by (rule demo_fault [OF w(1,2), of 3]) simp
  have "\<exists>i < 16. \<not> occupied (fault_at 0x20030000 3 w) i" using w(4) by (intro exI [of _ 0]) (simp add: occupied_def)
  with page_fault_served [where E = demo_env and lv = demo_lv, OF u(5) demo_probe demo_env_facts(3,4) u(1,3,4)] obtain w' g where
    w': "run (serve_fault demo_hw demo_lv 0x20030000) demo_env (fault_at 0x20030000 3 w) = (Done (), w')"
    "spaces_of w' 0x20030000 = Some (1, g)" "valid_entry (g 3)" unfolding u(2) by blast
  obtain v0 h0 where v0: "paged demo_hw demo_code demo_lv v0" "\<forall>i < 16. occupied v0 i" "spaces_of v0 0x20030000 = Some (1, h0)"
    using demo_fills [of 16] by auto
  let ?v = "v0\<lparr>pick_counter := 0\<rparr>"
  have sp: "spaces_of ?v = spaces_of v0" by (simp add: spaces_of_def fun_eq_iff)
  have v: "paged demo_hw demo_code demo_lv ?v" by (rule paged.counted [OF v0(1)])
  have occ: "\<forall>i < 16. occupied ?v i" "\<forall>i < 16. occupied (fault_at 0x20030000 16 ?v) i" using v0(2) by (simp_all add: occupied_def)
  obtain x where x: "supports (nuc (fault_at 0x20030000 16 ?v)) 0x20030000 = Some x" "sup_asid x = 1" "sup_asid x \<noteq> NOASID"
    "page_index (get_vpn demo_hw) (entry_hi (sup_exceptState x PGFAULTEXCEPT)) = Some 16" "vm_inv demo_hw (fault_at 0x20030000 16 ?v)"
    by (rule demo_fault [OF v, of "0x20030000" 1 h0 16]) (use v0(3) sp in simp_all)
  have vic: "victim (fault_at 0x20030000 16 ?v) = 0" using occ(2) by (auto simp: victim_def)
  have "0 \<le> pick_counter (fault_at 0x20030000 16 ?v) \<and> pick_counter (fault_at 0x20030000 16 ?v) < 2 ^ 31 - 1" by simp
  with page_fault_served [where E = demo_env and lv = demo_lv, OF x(5) demo_probe demo_env_facts(3,4) x(1,3,4)] obtain v' h where
    v': "run (serve_fault demo_hw demo_lv 0x20030000) demo_env (fault_at 0x20030000 16 ?v) = (Done (), v')"
    "spaces_of v' 0x20030000 = Some (1, h)" "valid_entry (h 16)" "entry_frame (h 16) = frame_addr 0"
    "swapPoolTable v' = (swapPoolTable ?v)[0 := \<lparr>sw_asid = 1, sw_pageNo = 16, sw_pte = PTE_AT 0x20030000 16\<rparr>]"
    unfolding x(2) vic fault_at_simps by auto
  show ?thesis
    by (intro exI [of _ w] exI [of _ w'] exI [of _ g] exI [of _ ?v] exI [of _ v'] exI [of _ h] conjI)
      (use w(3) w' v occ(1) v' in simp_all)
qed

section \<open>Isolation\<close>



text \<open>C38.  The first eviction is lost: the counter of \<^verbatim>\<open>pick_frame\<close> starts at -1, so when the
  pool is full for the first time the frame asked for is -1 and the pager reads outside the swap pool
  table.\<close>

theorem first_eviction_faults:
  assumes "pool_ok w" "\<forall>i < 16. occupied w i" "pick_counter w = - 1"
    and "supports (nuc w) spt = Some u"
    and "page_index (get_vpn hw) (entry_hi (sup_exceptState u PGFAULTEXCEPT)) = Some p"
  shows "pick_frame w = Some (- 1, w\<lparr>pick_counter := 0\<rparr>) \<and>
    run (serve_fault hw lv spt) E w = (Fault, w\<lparr>pick_counter := 0\<rparr>)"
proof -
  have "pick_frame w = Some (- 1 smod 16, w\<lparr>pick_counter := 0\<rparr>)"
    using pick_frame_full [OF assms(1,2)] assms(3) by simp
  then have pf: "pick_frame w = Some (- 1, w\<lparr>pick_counter := 0\<rparr>)" by (simp only: smod_start)
  have "exc_state_of PGFAULTEXCEPT spt w = Some (sup_exceptState u PGFAULTEXCEPT)"
    using assms(4) by (simp add: exc_state_of_def)
  then show ?thesis
    using pf assms(5) by (simp add: serve_fault_def run_seq isFrameFree_def nth_opt_def)
qed

theorem first_eviction_faults_witness:
  "run (serve_fault demo_hw demo_lv 0x20030000) demo_env demo_world = (Fault, demo_world\<lparr>pick_counter := 0\<rparr>)"
proof -
  have "page_index (get_vpn demo_hw) (entry_hi (sup_exceptState demo_support PGFAULTEXCEPT)) = Some 3"
    using demo_page by (simp add: demo_support_def)
  then show ?thesis
    using first_eviction_faults [where w = demo_world and spt = "0x20030000" and u = demo_support and hw = demo_hw and p = 3]
    by (simp add: pool_ok_def occupied_def demo_world_def demo_supports_def)
qed

section \<open>Devices\<close>

text \<open>The requests of the support level reach the right device: the command registers the
  printer and terminal processes and the flash operations of address space \<open>k + 1\<close> use are the ones for
  which \<^verbatim>\<open>doio\<close> blocks the caller on the queue of that device with number \<open>k\<close>.\<close>

theorem requests_routed:
  "list_all (\<lambda>k. device_queue (device_command IL_PRINTER (int k)) = Some (blockedPrinterQueue, of_nat k) \<and>
     device_queue (device_command IL_TERMINAL (int k)) = Some (blockedTerminalTransmQueue, of_nat k) \<and>
     device_queue (DEV_REG_ADDR IL_FLASH (of_nat (k + 1) - 1) + dtp_command) = Some (blockedFlashQueue, of_nat k)) [0..<8]"
  by code_simp

end
