(* ===== verification/Sst_Props.thy ===== *)
theory Sst_Props
  imports Vm_Props
begin

text \<open>
  The properties of the processes of the support level: what printers and terminals print, what a user
  trap and a terminating thread give back, what a service thread asks and replies.
\<close>

section \<open>Characters\<close>

lemma take_bit_scast: "take_bit 8 (scast (x :: 8 word) :: u32) = ucast x"
proof (rule bit_word_eqI)
  fix n :: nat assume n: "n < LENGTH(32)"
  have "n < 8" if "bit x n" using bit_imp_le_length [OF that] by simp
  moreover have "min 7 n = n" if "n < 8" using that by simp
  ultimately show "bit (take_bit 8 (scast x :: u32)) n = bit (ucast x :: u32) n"
    using n by (auto simp: bit_take_bit_iff bit_signed_iff bit_unsigned_iff)
qed

lemma char_of_low:
  assumes "take_bit 8 x = (ucast (of_char c :: 8 word) :: u32)"
  shows "char_of (unat x) = c"
proof -
  have "take_bit 8 (unat x) = unat (take_bit 8 x)" by (rule unsigned_take_bit_eq [symmetric])
  also have "\<dots> = unat (of_char c :: 8 word)" unfolding assms
    using unsigned_less [of "of_char c :: 8 word", where 'a = nat] by (simp add: unsigned_ucast_eq take_bit_nat_eq_self)
  also have "\<dots> = unat (of_nat (of_char c) :: 8 word)" by (simp only: of_nat_of_char)
  also have "\<dots> = of_char c mod 256" by (simp only: unat_of_nat take_bit_eq_mod) simp
  also have "\<dots> = of_char c" by simp
  finally show ?thesis by (simp add: char_of_eq_iff)
qed

lemma char_of_word: "char_of (unat (char_word c)) = c"
  by (rule char_of_low) (simp add: char_word_def take_bit_scast)

lemma char_of_command: "char_of (unat (drop_bit 8 (push_bit 8 (char_word c)))) = c"
proof (rule char_of_low)
  have "take_bit 8 (drop_bit 8 (push_bit 8 (char_word c))) = take_bit 8 (char_word c)"
    by (rule bit_word_eqI) (auto simp: bit_take_bit_iff bit_drop_bit_eq bit_push_bit_iff)
  then show "take_bit 8 (drop_bit 8 (push_bit 8 (char_word c))) = (ucast (of_char c :: 8 word) :: u32)"
    by (simp add: char_word_def take_bit_scast)
qed

section \<open>What a device prints\<close>

text \<open>The character a printer or terminal prints for a call of the driver: the call is a request to the
  SSI to write the command of the device, and the character is in the device's data register, or in the
  command itself.\<close>

definition request_of :: "call \<Rightarrow> ssi_do_io_t option" where
  "request_of c = (case c of ((a, b, p), w) \<Rightarrow>
     if a = SENDMESSAGE \<and> b = ssi_pcb (nuc w) then
       Option.bind (ssi_payloads (nuc w) p) (\<lambda>pl. if service_code pl = DOIO then ssi_do_ios (nuc w) (arg pl) else None)
     else None)"

definition printed :: "u32 \<Rightarrow> int \<Rightarrow> call \<Rightarrow> char option" where
  "printed devType asid c = Option.bind (request_of c) (\<lambda>io.
     if commandAddr io = device_command devType asid \<and> commandValue io AND 0xFF = PRINTCHR then
       Some (char_of (unat (if devType = IL_PRINTER then mem (nuc (snd c)) (device_data0 devType asid)
         else drop_bit 8 (commandValue io))))
     else None)"

definition device_text :: "u32 \<Rightarrow> int \<Rightarrow> call list \<Rightarrow> string" where
  "device_text devType asid cs = List.map_filter (printed devType asid) cs"

lemma output_simps [simp]:
  "device_text d k [] = []"
  "device_text d k (c # cs) = (case printed d k c of None \<Rightarrow> [] | Some x \<Rightarrow> [x]) @ device_text d k cs"
  "device_text d k (cs @ ds) = device_text d k cs @ device_text d k ds"
  by (auto simp: device_text_def map_filter_simps map_filter_def split: option.split)

lemma command_low: "(PRINTCHR OR push_bit 8 (x :: u32)) AND 0xFF = PRINTCHR"
proof (rule bit_word_eqI)
  fix n :: nat assume "n < LENGTH(32)"
  have m: "bit (0xFF :: u32) n \<longleftrightarrow> n < 8"
  proof -
    have "bit (mask 8 :: u32) n \<longleftrightarrow> n < 8" unfolding bit_mask_iff by auto
    moreover have "(mask 8 :: u32) = 0xFF" by (simp add: mask_eq_exp_minus_1)
    ultimately show ?thesis by (simp only:)
  qed
  have "bit (2 :: u32) n \<longleftrightarrow> n = 1" by (cases n) (auto simp: bit_numeral_rec bit_1_iff)
  then show "bit ((PRINTCHR OR push_bit 8 x) AND 0xFF) n = bit (PRINTCHR :: u32) n"
    using m by (auto simp: bit_and_iff bit_or_iff bit_push_bit_iff)
qed

lemma run_print_char:
  assumes E: "answers E" "leaves bytes E" and d: "devType = IL_PRINTER \<or> devType = IL_TERMINAL"
  shows "\<exists>w'. run (print_char lv asid devType c) E w = (Done (), w') \<and> bytes w' = bytes w \<and>
    device_text devType asid (calls (print_char lv asid devType c) E w) = [c]"
proof -
  let ?s = "if devType = IL_PRINTER then store (device_data0 devType asid) (char_word c) (nuc w) else nuc w"
  let ?io = "\<lparr>commandAddr = device_command devType asid, commandValue = (if devType = IL_PRINTER then PRINTCHR
     else PRINTCHR OR push_bit BYTELENGTH (char_word c))\<rparr>"
  let ?w = "w\<lparr>nuc := ?s\<lparr>ssi_do_ios := (ssi_do_ios ?s)(lv V_print_io \<mapsto> ?io),
     ssi_payloads := (ssi_payloads ?s)(lv V_print_payload \<mapsto> \<lparr>service_code = DOIO, arg = lv V_print_io\<rparr>)\<rparr>\<rparr>"
  from run_ask_answers [OF E, of "lv V_print_payload" "lv V_print_status" ?w] obtain w' v1 w1 where
    r: "run (ask_ssi (lv V_print_payload) (lv V_print_status)) E ?w = (Done (), w')" "bytes w' = bytes ?w"
    "calls (ask_ssi (lv V_print_payload) (lv V_print_status)) E ?w =
       [((SENDMESSAGE, ssi_pcb (nuc ?w), lv V_print_payload), ?w), ((RECEIVEMESSAGE, ssi_pcb (nuc w1), lv V_print_status), w1)]"
    by blast
  have "run (print_char lv asid devType c) E w = (Done (), w')"
    using r(1) by (simp add: print_char_def put_payload_def run_seq)
  moreover have "calls (print_char lv asid devType c) E w =
       [((SENDMESSAGE, ssi_pcb (nuc ?w), lv V_print_payload), ?w), ((RECEIVEMESSAGE, ssi_pcb (nuc w1), lv V_print_status), w1)]"
    using r(3) by (simp add: print_char_def put_payload_def calls_seq)
  moreover have "printed devType asid ((SENDMESSAGE, ssi_pcb (nuc ?w), lv V_print_payload), ?w) = Some c"
    using d by (auto simp: printed_def request_of_def store_def char_of_word char_of_command command_low)
  moreover have "printed devType asid ((RECEIVEMESSAGE, ssi_pcb (nuc w1), lv V_print_status), w1) = None"
    by (simp add: printed_def request_of_def)
  ultimately show ?thesis using r(2) by simp
qed

text \<open>A string in memory.\<close>

primrec string_at :: "(u32 \<Rightarrow> char) \<Rightarrow> ptr \<Rightarrow> string \<Rightarrow> bool" where
  "string_at b p [] \<longleftrightarrow> b p = EOS"
| "string_at b p (c # cs) \<longleftrightarrow> b p = c \<and> c \<noteq> EOS \<and> string_at b (p + 1) cs"

lemma run_print_string:
  assumes E: "answers E" "leaves bytes E" and d: "devType = IL_PRINTER \<or> devType = IL_TERMINAL"
  shows "length str \<le> n \<Longrightarrow> string_at (bytes w) msg str \<Longrightarrow>
    \<exists>w'. run (print_string n lv asid devType msg) E w = (Done (), w') \<and>
      device_text devType asid (calls (print_string n lv asid devType msg) E w) = str"
proof (induction str arbitrary: n w msg)
  case Nil
  then show ?case by (cases n) (simp_all add: run_seq calls_seq)
next
  case (Cons c cs)
  then obtain m where m: "n = Suc m" "length cs \<le> m" by (cases n) auto
  from run_print_char [OF E d, of lv asid c w] obtain w1 where
    1: "run (print_char lv asid devType c) E w = (Done (), w1)" "bytes w1 = bytes w"
    "device_text devType asid (calls (print_char lv asid devType c) E w) = [c]" by blast
  have "string_at (bytes w1) (msg + 1) cs" using Cons.prems(2) 1(2) by simp
  from Cons.IH [OF m(2) this] obtain w2 where
    2: "run (print_string m lv asid devType (msg + 1)) E w1 = (Done (), w2)"
    "device_text devType asid (calls (print_string m lv asid devType (msg + 1)) E w1) = cs" by blast
  then show ?case using Cons.prems(2) 1 by (simp add: m(1) run_seq calls_seq)
qed

lemma device_prints:
  assumes E: "answers E" "leaves bytes E" and d: "devType = IL_PRINTER \<or> devType = IL_TERMINAL"
    and r: "E (RECEIVEMESSAGE, ANYMESSAGE, lv V_print_msg) w = Some (sender, w1)"
    and str: "string_at (bytes w) (mem (nuc w1) (lv V_print_msg)) str" "length str \<le> n"
  shows "\<exists>w' w2 cs. run (printDevice n lv asid devType) E w = (Done (), w') \<and>
    calls (printDevice n lv asid devType) E w =
      ((RECEIVEMESSAGE, ANYMESSAGE, lv V_print_msg), w) # cs @ [((SENDMESSAGE, sender, 0), w2)] \<and>
    device_text devType asid cs = str"
proof -
  let ?msg = "mem (nuc w1) (lv V_print_msg)"
  have "string_at (bytes w1) ?msg str" using str(1) leavesD [OF E(2) r] by simp
  from run_print_string [OF E d str(2) this, of lv asid] obtain w2 where
    p: "run (print_string n lv asid devType ?msg) E w1 = (Done (), w2)"
    "device_text devType asid (calls (print_string n lv asid devType ?msg) E w1) = str" by blast
  obtain v3 w3 where "E (SENDMESSAGE, sender, 0) w2 = Some (v3, w3)" by (rule answersE [OF E(1)])
  then show ?thesis
    using p by (intro exI [of _ w3] exI [of _ w2] exI [of _ "calls (print_string n lv asid devType ?msg) E w1"])
      (simp add: printDevice_def run_seq calls_seq r)
qed

text \<open>A printer or terminal process transmits the string of the message it receives, character by
  character and in order, to the device of its address space, with enough fuel for the length of the
  string, and then answers the sender.\<close>

theorem string_printed:
  assumes E: "answers E" "leaves bytes E" and d: "devType = IL_PRINTER \<or> devType = IL_TERMINAL"
    and r: "E (RECEIVEMESSAGE, ANYMESSAGE, lv V_print_msg) w = Some (sender, w1)"
    and str: "string_at (bytes w) (mem (nuc w1) (lv V_print_msg)) str" "length str \<le> n"
  shows "\<exists>w' w2 cs. run (printDevice n lv asid devType) E w = (Done (), w') \<and>
    calls (printDevice n lv asid devType) E w =
      ((RECEIVEMESSAGE, ANYMESSAGE, lv V_print_msg), w) # cs @ [((SENDMESSAGE, sender, 0), w2)] \<and>
    device_text devType asid cs = str"
  by (rule device_prints [where lv = lv and w = w and ?w1.0 = w1, OF assms])

text \<open>A printer process that receives a message with the address of a string.\<close>

definition printer_env :: env where
  "printer_env c w = (case c of (a, b, p) \<Rightarrow>
     Some (0x20010000, w\<lparr>nuc := store p (if a = RECEIVEMESSAGE \<and> b = ANYMESSAGE then 0x80001000 else READY) (nuc w)\<rparr>))"

definition hello_world :: world where
  "hello_world = demo_world\<lparr>bytes := (\<lambda>_. EOS)(0x80001000 := CHR ''h'', 0x80001001 := CHR ''i'', 0x80001002 := CHR 0xE9)\<rparr>"

theorem string_printed_witness:
  "\<exists>w' w2 cs. run (printDevice 10 demo_lv 2 IL_PRINTER) printer_env hello_world = (Done (), w') \<and>
    calls (printDevice 10 demo_lv 2 IL_PRINTER) printer_env hello_world =
      ((RECEIVEMESSAGE, ANYMESSAGE, demo_lv V_print_msg), hello_world) # cs @ [((SENDMESSAGE, 0x20010000, 0), w2)] \<and>
    device_text IL_PRINTER 2 cs = [CHR ''h'', CHR ''i'', CHR 0xE9]"
  by (rule string_printed)
    (auto simp: answers_def leaves_def printer_env_def hello_world_def store_def split: prod.splits)

section \<open>Frames given back\<close>

text \<open>The SSI kills a process that asks for its own termination, so the request is not answered.\<close>

definition suicide :: "locals \<Rightarrow> world \<Rightarrow> bool" where
  "suicide lv w \<longleftrightarrow> ssi_payloads (nuc w) (lv V_kill_payload) = Some \<lparr>service_code = TERMPROCESS, arg = NULL\<rparr>"

definition kills_caller :: "locals \<Rightarrow> env \<Rightarrow> bool" where
  "kills_caller lv E \<longleftrightarrow> (\<forall>w. suicide lv w \<longrightarrow> E (SENDMESSAGE, ssi_pcb (nuc w), lv V_kill_payload) w = None)"

lemma run_suicide:
  assumes "kills_caller lv E"
  shows "\<exists>w'. run (sendKillReq lv NULL) E w = (Never, w') \<and> suicide lv w' \<and> swapPoolTable w' = swapPoolTable w \<and>
    calls (sendKillReq lv NULL) E w = [((SENDMESSAGE, ssi_pcb (nuc w), lv V_kill_payload), w')]"
proof -
  let ?w' = "w\<lparr>nuc := (nuc w)\<lparr>ssi_payloads := (ssi_payloads (nuc w))(lv V_kill_payload \<mapsto> \<lparr>service_code = TERMPROCESS, arg = NULL\<rparr>)\<rparr>\<rparr>"
  have s: "suicide lv ?w'" by (simp add: suicide_def)
  then have "E (SENDMESSAGE, ssi_pcb (nuc ?w'), lv V_kill_payload) ?w' = None" using assms unfolding kills_caller_def by blast
  then have "E (SENDMESSAGE, ssi_pcb (nuc w), lv V_kill_payload) ?w' = None" by simp
  from run_kill_never [where w = w and lv = lv and p = NULL and E = E, OF this refl] s show ?thesis by (intro exI [of _ ?w']) simp
qed

lemma frames_loop:
  assumes "pool_ok w" "current_pcb w = Some x" "supports (nuc w) (p_supportStruct x) = Some u"
  shows "each (\<lambda>i w. do { x \<leftarrow> current_pcb w; u \<leftarrow> supports (nuc w) (p_supportStruct x); release_frame (sup_asid u) i w })
    [0..<16] w = Some (w\<lparr>swapPoolTable := map (freed (sup_asid u)) (swapPoolTable w)\<rparr>)"
proof -
  have "each (\<lambda>i w. do { x \<leftarrow> current_pcb w; u \<leftarrow> supports (nuc w) (p_supportStruct x); release_frame (sup_asid u) i w }) is v =
      each (release_frame (sup_asid u)) is v"
    if "current_pcb v = Some x" "supports (nuc v) (p_supportStruct x) = Some u" for v and "is" :: "nat list"
    using that
  proof (induction "is" arbitrary: v)
    case (Cons i "is")
    have "current_pcb v' = Some x \<and> supports (nuc v') (p_supportStruct x) = Some u"
      if "release_frame (sup_asid u) i v = Some v'" for v'
      using that Cons.prems by (auto simp: release_frame_def current_pcb_def split: bind_splits if_splits)
    then show ?case using Cons by (cases "release_frame (sup_asid u) i v") auto
  qed simp
  then show ?thesis using release_all [OF assms(1)] assms(2,3) by simp
qed

text \<open>C31.  A program trap of a user process gives back every frame of its address space, then the mutex of
  the swap pool exactly when the global \<^verbatim>\<open>mutexRecv\<close> names it, which it still does after the process has
  released the mutex and nobody has taken it since; and then it asks the SSI to end the caller, which never
  comes back.\<close>

theorem trap_releases:
  assumes "pool_ok w" "current_pcb w = Some x" "supports (nuc w) (p_supportStruct x) = Some u" "sup_asid u \<noteq> NOASID"
    and "kills_caller lv E" "E (SENDMESSAGE, mutexSender w, 0) (w\<lparr>swapPoolTable := map (freed (sup_asid u)) (swapPoolTable w)\<rparr>) \<noteq> None"
  shows "\<exists>w1 w' k. run (programTrapHandler lv) E w = (Never, w') \<and> suicide lv w' \<and>
    w1 = w\<lparr>swapPoolTable := map (freed (sup_asid u)) (swapPoolTable w)\<rparr> \<and>
    (\<forall>e \<in> set (swapPoolTable w1). sw_asid e \<noteq> sup_asid u) \<and>
    calls (programTrapHandler lv) E w =
      (if current_process (nuc w) = mutexRecv w then [((SENDMESSAGE, mutexSender w, 0), w1)] else []) @
      [((SENDMESSAGE, k, lv V_kill_payload), w')] \<and>
    (current_process (nuc w) \<noteq> mutexRecv w \<longrightarrow> k = ssi_pcb (nuc w) \<and> swapPoolTable w' = swapPoolTable w1)"
proof -
  let ?w1 = "w\<lparr>swapPoolTable := map (freed (sup_asid u)) (swapPoolTable w)\<rparr>"
  let ?loop = "for_each [0..<16] (\<lambda>i. writes (\<lambda>w. do {
            x \<leftarrow> current_pcb w; u \<leftarrow> supports (nuc w) (p_supportStruct x); release_frame (sup_asid u) i w }))"
  have l: "run ?loop E w = (Done (), ?w1)" by (rule run_for_each_writes [OF frames_loop [OF assms(1-3)]])
  have c: "calls ?loop E w = []" by (rule calls_for_each_writes)
  have fr: "\<forall>e \<in> set (swapPoolTable ?w1). sw_asid e \<noteq> sup_asid u" using freed_asid [OF assms(4)] by simp
  show ?thesis
  proof (cases "current_process (nuc w) = mutexRecv w")
    case True
    obtain v2 w2 where 2: "E (SENDMESSAGE, mutexSender w, 0) ?w1 = Some (v2, w2)" using assms(6) by auto
    from run_suicide [OF assms(5), of w2] obtain w' where
      k: "run (sendKillReq lv NULL) E w2 = (Never, w')" "suicide lv w'"
      "calls (sendKillReq lv NULL) E w2 = [((SENDMESSAGE, ssi_pcb (nuc w2), lv V_kill_payload), w')]" by blast
    show ?thesis
      by (intro exI [of _ ?w1] exI [of _ w'] exI [of _ "ssi_pcb (nuc w2)"])
        (use l c True 2 k fr in \<open>simp add: programTrapHandler_def run_seq calls_seq del: upt_Suc\<close>)
  next
    case False
    from run_suicide [OF assms(5), of ?w1] obtain w' where
      k: "run (sendKillReq lv NULL) E ?w1 = (Never, w')" "suicide lv w'" "swapPoolTable w' = swapPoolTable ?w1"
      "calls (sendKillReq lv NULL) E ?w1 = [((SENDMESSAGE, ssi_pcb (nuc ?w1), lv V_kill_payload), w')]" by blast
    show ?thesis
      by (intro exI [of _ ?w1] exI [of _ w'] exI [of _ "ssi_pcb (nuc w)"])
        (use l c False k fr in \<open>simp add: programTrapHandler_def run_seq calls_seq del: upt_Suc\<close>)
  qed
qed

text \<open>The state of a user process of address space 3 that holds frames and the mutex.\<close>

definition trap_world :: world where
  "trap_world = demo_world\<lparr>
     nuc := (nuc demo_world)\<lparr>current_process := 0x20010000,
       pcbs := (pcbs (nuc demo_world))(0x20010000 \<mapsto> blank_pcb\<lparr>p_supportStruct := 0x20031000\<rparr>),
       supports := (supports (nuc demo_world))(0x20031000 \<mapsto> demo_support\<lparr>sup_asid := 3\<rparr>)\<rparr>,
     swapPoolTable := (replicate 16 free_frame)[4 := \<lparr>sw_asid = 3, sw_pageNo = 7, sw_pte = PTE_AT 0x20031000 7\<rparr>,
       5 := \<lparr>sw_asid = 2, sw_pageNo = 1, sw_pte = PTE_AT 0x20030800 1\<rparr>],
     mutexRecv := 0x20010000, mutexSender := 0x20010100, testPcb := 0x20010200\<rparr>"

definition killing_env :: env where
  "killing_env c w = (case c of (a, b, p) \<Rightarrow> if suicide demo_lv w \<and> p = demo_lv V_kill_payload then None else Some (READY, w))"

lemma killing_env_facts: "kills_caller demo_lv killing_env"
  by (simp add: kills_caller_def killing_env_def)

theorem trap_releases_witness:
  "\<exists>w'. run (programTrapHandler demo_lv) killing_env trap_world = (Never, w') \<and> suicide demo_lv w'"
proof -
  have f: "pool_ok trap_world" "current_pcb trap_world = Some (blank_pcb\<lparr>p_supportStruct := 0x20031000\<rparr>)"
    "supports (nuc trap_world) 0x20031000 = Some (demo_support\<lparr>sup_asid := 3\<rparr>)"
    by (simp_all add: trap_world_def pool_ok_def current_pcb_def)
  have s: "supports (nuc trap_world) (p_supportStruct (blank_pcb\<lparr>p_supportStruct := 0x20031000\<rparr>)) = Some (demo_support\<lparr>sup_asid := 3\<rparr>)"
    using f(3) by simp
  have n: "sup_asid (demo_support\<lparr>sup_asid := 3\<rparr>) \<noteq> NOASID" by simp
  have e: "killing_env (SENDMESSAGE, mutexSender trap_world, 0) w \<noteq> None" for w
    by (simp add: killing_env_def demo_lv_def)
  from trap_releases [OF f(1,2) s n killing_env_facts e] show ?thesis by blast
qed

text \<open>C39.  A service thread that is asked for \<^verbatim>\<open>TERMINATE\<close> gives back the wrong frames: the swap
  pool numbers address spaces from 1 and \<^verbatim>\<open>terminate\<close> is given the number minus 1, so the
  frames of the thread's own address space stay occupied and those of the one before it are taken.\<close>

theorem terminate_takes_neighbour:
  assumes "pool_ok w" "supports (nuc w) spt = Some u" "sup_asid u \<noteq> NOASID"
  shows "\<exists>w1 cs. calls (seq (reads (asid_of spt)) (\<lambda>asid. SSTRequest lv sender TERMINATE a (asid - 1))) E w =
      ((SENDMESSAGE, testPcb w, 0), w1) # cs \<and>
    swapPoolTable w1 = map (freed (sup_asid u - 1)) (swapPoolTable w) \<and>
    (\<forall>i < 16. sw_asid (swapPoolTable w ! i) = sup_asid u \<longrightarrow> swapPoolTable w1 ! i = swapPoolTable w ! i) \<and>
    (\<forall>i < 16. sw_asid (swapPoolTable w ! i) = sup_asid u - 1 \<longrightarrow> sw_asid (swapPoolTable w1 ! i) = NOASID)"
proof -
  let ?w1 = "w\<lparr>swapPoolTable := map (freed (sup_asid u - 1)) (swapPoolTable w)\<rparr>"
  have len: "length (swapPoolTable w) = 16" using assms(1) by (simp add: pool_ok_def)
  have a: "asid_of spt w = Some (sint (sup_asid u))" using assms(2) by (simp add: asid_of_def)
  have n: "word_of_int (sint (sup_asid u) - 1) = sup_asid u - 1" by (simp add: wi_hom_sub)
  have l: "run (for_each [0..<16] (\<lambda>i. writes (release_frame (sup_asid u - 1) i))) E w = (Done (), ?w1)"
    by (rule run_for_each_writes [OF release_all [OF assms(1)]])
  have c: "calls (for_each [0..<16] (\<lambda>i. writes (release_frame (sup_asid u - 1) i))) E w = []" by (rule calls_for_each_writes)
  have "\<exists>cs. calls (seq (reads (asid_of spt)) (\<lambda>asid. SSTRequest lv sender TERMINATE a (asid - 1))) E w =
      ((SENDMESSAGE, testPcb w, 0), ?w1) # cs"
    using a n l c by (simp add: SSTRequest_def terminate_def run_seq calls_seq del: upt_Suc)
  moreover have "sup_asid u - 1 \<noteq> sup_asid u" by simp
  then have "\<forall>i < 16. sw_asid (swapPoolTable w ! i) = sup_asid u \<longrightarrow> swapPoolTable ?w1 ! i = swapPoolTable w ! i"
    using len by (auto simp: freed_def)
  moreover have "\<forall>i < 16. sw_asid (swapPoolTable w ! i) = sup_asid u - 1 \<longrightarrow> sw_asid (swapPoolTable ?w1 ! i) = NOASID"
    using len by (auto simp: freed_def)
  ultimately show ?thesis by (auto intro!: exI [of _ ?w1])
qed

theorem terminate_takes_neighbour_witness:
  "\<exists>w1 cs. calls (seq (reads (asid_of 0x20031000)) (\<lambda>asid. SSTRequest demo_lv 0 TERMINATE 0 (asid - 1))) killing_env trap_world =
      ((SENDMESSAGE, 0x20010200, 0), w1) # cs \<and>
    sw_asid (swapPoolTable w1 ! 4) = 3 \<and> sw_asid (swapPoolTable w1 ! 5) = NOASID"
proof -
  have f: "pool_ok trap_world" "supports (nuc trap_world) 0x20031000 = Some (demo_support\<lparr>sup_asid := 3\<rparr>)"
    "sup_asid (demo_support\<lparr>sup_asid := 3\<rparr>) \<noteq> NOASID" "testPcb trap_world = 0x20010200"
    "sw_asid (swapPoolTable trap_world ! 4) = 3" "sw_asid (swapPoolTable trap_world ! 5) = 2"
    by (simp_all add: trap_world_def pool_ok_def)
  from terminate_takes_neighbour [OF f(1-3), of demo_lv 0 0 killing_env] obtain w1 cs where
    r: "calls (seq (reads (asid_of 0x20031000)) (\<lambda>asid. SSTRequest demo_lv 0 TERMINATE 0 (asid - 1))) killing_env trap_world =
      ((SENDMESSAGE, testPcb trap_world, 0), w1) # cs"
    "sw_asid (swapPoolTable trap_world ! 4) = sup_asid (demo_support\<lparr>sup_asid := 3\<rparr>) \<Longrightarrow> swapPoolTable w1 ! 4 = swapPoolTable trap_world ! 4"
    "sw_asid (swapPoolTable trap_world ! 5) = sup_asid (demo_support\<lparr>sup_asid := 3\<rparr>) - 1 \<Longrightarrow> sw_asid (swapPoolTable w1 ! 5) = NOASID"
    by (elim exE conjE) auto
  then show ?thesis using f(4-6) by simp
qed

section \<open>The round of a service thread\<close>

lemma write_round:
  assumes E: "answers E" "leaves (\<lambda>w. (printerPcbs w, terminalPcbs w)) E"
    and s: "service = WRITEPRINTER \<or> service = WRITETERMINAL"
    and r: "E (RECEIVEMESSAGE, ANYMESSAGE, lv V_sst_payload) w = Some (sender, w1)"
    and pl: "ssi_payloads (nuc w1) (mem (nuc w1) (lv V_sst_payload)) = Some \<lparr>service_code = service, arg = a\<rparr>"
    and u: "supports (nuc w1) spt = Some u" "sup_asid u = of_nat (k + 1)" "k < 8"
    and arr: "length (printerPcbs w) = 8" "length (terminalPcbs w) = 8"
    and pr: "sst_prints w1 a = Some pr" and dev: "dev = (if service = WRITEPRINTER then printerPcbs w else terminalPcbs w) ! k"
  shows "\<exists>w' w2 w3. run (SST_round lv spt) E w = (Done (), w') \<and>
    calls (SST_round lv spt) E w =
      [((RECEIVEMESSAGE, ANYMESSAGE, lv V_sst_payload), w), ((SENDMESSAGE, dev, string_of pr), w1), ((RECEIVEMESSAGE, dev, 0), w2),
       ((SENDMESSAGE, sender, ON), w3)]"
proof -
  define sel :: "world \<Rightarrow> ptr list" where "sel = (if service = WRITEPRINTER then printerPcbs else terminalPcbs)"
  have keep: "sel w' = sel v" if "E c v = Some (x, w')" for c v x w'
    using leavesD [OF E(2) that] by (simp add: sel_def)
  have at: "length (sel w) = 8" "dev = sel w ! k" using arr dev by (simp_all add: sel_def)
  have "list_all (\<lambda>k. sint (of_nat (k + 1) :: u32) = int k + 1) [0..<8]" by code_simp
  then have si: "sint (sup_asid u) = int k + 1"
    unfolding u(2) list_all_iff using u(3) by (simp del: upt_Suc of_nat_add)
  have as: "asid_of spt w1 = Some (int k + 1)" using u(1) si by (simp add: asid_of_def)
  have req: "SSTRequest lv sender service a (int k) = seq (write_to sel (int k) a) (\<lambda>_. Ret ON)"
    using s by (auto simp: SSTRequest_def sel_def writePrinter_def writeTerminal_def)
  obtain v2 w2 where 2: "E (SENDMESSAGE, dev, string_of pr) w1 = Some (v2, w2)" by (rule answersE [OF E(1)])
  obtain v3 w3 where 3: "E (RECEIVEMESSAGE, dev, 0) w2 = Some (v3, w3)" by (rule answersE [OF E(1)])
  obtain v4 w4 where 4: "E (SENDMESSAGE, sender, ON) w3 = Some (v4, w4)" by (rule answersE [OF E(1)])
  have n: "nth_opt (sel w1) (int k) = Some dev" "nth_opt (sel w2) (int k) = Some dev"
    using at u(3) keep [OF r] keep [OF 2] by simp_all
  have wr: "run (write_to sel (int k) a) E w1 = (Done (), w3)"
    "calls (write_to sel (int k) a) E w1 = [((SENDMESSAGE, dev, string_of pr), w1), ((RECEIVEMESSAGE, dev, 0), w2)]"
    using n pr 2 3 by (simp_all add: write_to_def run_seq calls_seq del: nth_opt_nat)
  show ?thesis
    using r pl as req wr 4 by (simp add: SST_round_def run_seq calls_seq)
qed

text \<open>A service thread that is asked to write takes the address of the string from the request, sends
  it to the printer or terminal process of its own address space, waits for that process and only then
  answers the sender with \<^verbatim>\<open>ON\<close>.\<close>

theorem write_served:
  assumes E: "answers E" "leaves (\<lambda>w. (printerPcbs w, terminalPcbs w)) E"
    and s: "service = WRITEPRINTER \<or> service = WRITETERMINAL"
    and r: "E (RECEIVEMESSAGE, ANYMESSAGE, lv V_sst_payload) w = Some (sender, w1)"
    and pl: "ssi_payloads (nuc w1) (mem (nuc w1) (lv V_sst_payload)) = Some \<lparr>service_code = service, arg = a\<rparr>"
    and u: "supports (nuc w1) spt = Some u" "sup_asid u = of_nat (k + 1)" "k < 8"
    and arr: "length (printerPcbs w) = 8" "length (terminalPcbs w) = 8"
    and pr: "sst_prints w1 a = Some pr" and dev: "dev = (if service = WRITEPRINTER then printerPcbs w else terminalPcbs w) ! k"
  shows "\<exists>w'. run (SST_round lv spt) E w = (Done (), w') \<and>
    map fst (calls (SST_round lv spt) E w) =
      [(RECEIVEMESSAGE, ANYMESSAGE, lv V_sst_payload), (SENDMESSAGE, dev, string_of pr), (RECEIVEMESSAGE, dev, 0),
       (SENDMESSAGE, sender, ON)]"
  using write_round [where lv = lv and w = w and ?w1.0 = w1 and u = u and pr = pr and k = k, OF assms] by fastforce

text \<open>The service thread of address space 1, asked to write a string to its terminal.\<close>

definition sst_world :: world where
  "sst_world = demo_world\<lparr>
     nuc := (nuc demo_world)\<lparr>supports := (supports (nuc demo_world))(0x20030000 \<mapsto> demo_support\<lparr>sup_asid := 1\<rparr>),
       ssi_payloads := (ssi_payloads (nuc demo_world))(0x80002000 \<mapsto> \<lparr>service_code = WRITETERMINAL, arg = 0x80002010\<rparr>)\<rparr>,
     terminalPcbs := (replicate 8 0)[0 := 0x20010300],
     sst_prints := (sst_prints demo_world)(0x80002010 \<mapsto> \<lparr>length_of = 2, string_of = 0x80001000\<rparr>)\<rparr>"

definition user_env :: env where
  "user_env c w = (case c of (a, b, p) \<Rightarrow>
     Some (0x20010000, w\<lparr>nuc := store p (if a = RECEIVEMESSAGE \<and> b = ANYMESSAGE then 0x80002000 else READY) (nuc w)\<rparr>))"

lemma user_env_facts: "answers user_env" "leaves (\<lambda>w. (printerPcbs w, terminalPcbs w)) user_env"
  by (auto simp: answers_def leaves_def user_env_def split: prod.splits)

theorem write_served_witness:
  "\<exists>w'. run (SST_round demo_lv 0x20030000) user_env sst_world = (Done (), w') \<and>
    map fst (calls (SST_round demo_lv 0x20030000) user_env sst_world) =
      [(RECEIVEMESSAGE, ANYMESSAGE, demo_lv V_sst_payload), (SENDMESSAGE, 0x20010300, 0x80001000),
       (RECEIVEMESSAGE, 0x20010300, 0), (SENDMESSAGE, 0x20010000, ON)]"
proof -
  let ?w1 = "sst_world\<lparr>nuc := store (demo_lv V_sst_payload) 0x80002000 (nuc sst_world)\<rparr>"
  let ?u = "demo_support\<lparr>sup_asid := 1\<rparr>" and ?pr = "\<lparr>length_of = 2, string_of = 0x80001000\<rparr>"
  have r: "user_env (RECEIVEMESSAGE, ANYMESSAGE, demo_lv V_sst_payload) sst_world = Some (0x20010000, ?w1)"
    by (simp add: user_env_def)
  have pl: "ssi_payloads (nuc ?w1) (mem (nuc ?w1) (demo_lv V_sst_payload)) = Some \<lparr>service_code = WRITETERMINAL, arg = 0x80002010\<rparr>"
    by (simp add: sst_world_def store_def)
  have u: "supports (nuc ?w1) 0x20030000 = Some ?u" "sup_asid ?u = of_nat (0 + 1)" "(0 :: nat) < 8"
    by (simp_all add: sst_world_def store_def)
  have arr: "length (printerPcbs sst_world) = 8" "length (terminalPcbs sst_world) = 8"
    and dev: "0x20010300 = (if WRITETERMINAL = WRITEPRINTER then printerPcbs sst_world else terminalPcbs sst_world) ! 0"
    by (simp_all add: sst_world_def demo_world_def)
  have pr: "sst_prints ?w1 0x80002010 = Some ?pr" by (simp add: sst_world_def)
  from write_served [where w = sst_world and lv = demo_lv and ?w1.0 = ?w1 and u = ?u and pr = ?pr and k = 0, OF user_env_facts disjI2 [OF refl] r pl u arr pr dev] show ?thesis by simp
qed

section \<open>System calls of user processes\<close>

text \<open>A user process that receives through the support level does not learn who the sender is: the
  handler makes the call of the nucleus in its place and restores the state that was saved, in which only
  the program counter has moved to the next instruction.\<close>

theorem user_receive_forgets_sender:
  assumes E: "answers E" "leaves (\<lambda>w. supports (nuc w)) E"
    and spt: "\<And>v w'. E (RECEIVEMESSAGE, ssi_pcb (nuc w'), lv V_getsup_sup) w' = Some v \<Longrightarrow> mem (nuc (snd v)) (lv V_getsup_sup) = spt"
    and u: "supports (nuc w) spt = Some u" and x: "x = sup_exceptState u GENERALEXCEPT"
    and c: "get_exccode hw (cause x) = SYSEXCEPTION" "gpr x reg_a0 = RECEIVEMSG"
  shows "\<exists>w' w1 cs. run (supExceptionHandler hw lv) E w = (Left (LDST (x\<lparr>pc_epc := pc_epc x + WORDLEN\<rparr>)), w') \<and>
    calls (supExceptionHandler hw lv) E w = cs @ [((RECEIVEMESSAGE, gpr x reg_a1, gpr x reg_a2), w1)] \<and> length cs = 2"
proof -
  let ?w = "w\<lparr>nuc := (nuc w)\<lparr>ssi_payloads := (ssi_payloads (nuc w))(lv V_getsup_payload \<mapsto> \<lparr>service_code = GETSUPPORTPTR, arg = NULL\<rparr>)\<rparr>\<rparr>"
  obtain v1 w1 where 1: "E (SENDMESSAGE, ssi_pcb (nuc ?w), lv V_getsup_payload) ?w = Some (v1, w1)" by (rule answersE [OF E(1)])
  obtain v2 w2 where 2: "E (RECEIVEMESSAGE, ssi_pcb (nuc w1), lv V_getsup_sup) w1 = Some (v2, w2)" by (rule answersE [OF E(1)])
  obtain v3 w3 where 3: "E (RECEIVEMESSAGE, gpr x reg_a1, gpr x reg_a2) w2 = Some (v3, w3)" by (rule answersE [OF E(1)])
  have u2: "supports (nuc w2) spt = Some u" and u3: "supports (nuc w3) spt = Some u"
    using leavesD [OF E(2) 1] leavesD [OF E(2) 2] leavesD [OF E(2) 3] u by simp_all
  have sp: "mem (nuc w2) (lv V_getsup_sup) = spt" using spt [OF 2] by simp
  have g: "run (getSupStruct lv) E w = (Done spt, w2)"
    "calls (getSupStruct lv) E w = [((SENDMESSAGE, ssi_pcb (nuc w), lv V_getsup_payload), ?w),
       ((RECEIVEMESSAGE, ssi_pcb (nuc w1), lv V_getsup_sup), w1)]"
    using 1 2 sp by (simp_all add: getSupStruct_def put_payload_def ask_ssi_def run_seq calls_seq)
  have h: "run (supSyscallHandler x) E w2 = (Done (), w3)"
    "calls (supSyscallHandler x) E w2 = [((RECEIVEMESSAGE, gpr x reg_a1, gpr x reg_a2), w2)]"
    using c(2) 3 by (simp_all add: supSyscallHandler_def run_seq calls_seq)
  have x': "sup_exceptState u (Suc 0) = x" using x by simp
  let ?w3 = "w3\<lparr>nuc := (nuc w3)\<lparr>supports := (supports (nuc w3))(spt \<mapsto> u\<lparr>sup_exceptState :=
     (sup_exceptState u)(Suc 0 := x\<lparr>pc_epc := pc_epc x + WORDLEN\<rparr>)\<rparr>)\<rparr>\<rparr>"
  have "run (supExceptionHandler hw lv) E w = (Left (LDST (x\<lparr>pc_epc := pc_epc x + WORDLEN\<rparr>)), ?w3)"
    using g(1) h(1) c(1) u2 u3 x' by (simp add: supExceptionHandler_def run_seq exc_state_of_def upd_support_def)
  moreover have "calls (supExceptionHandler hw lv) E w =
      calls (getSupStruct lv) E w @ [((RECEIVEMESSAGE, gpr x reg_a1, gpr x reg_a2), w2)]"
    using g(1) h c(1) u2 u3 x' by (simp add: supExceptionHandler_def run_seq calls_seq exc_state_of_def upd_support_def)
  moreover have "length (calls (getSupStruct lv) E w) = 2" using g(2) by simp
  ultimately show ?thesis by blast
qed

definition receiving_support :: support_t where
  "receiving_support = demo_support\<lparr>sup_exceptState := (\<lambda>_. zero_state\<lparr>cause := 0x20, pc_epc := 0x80000100,
     gpr := (gpr zero_state)(reg_a0 := RECEIVEMSG, reg_a1 := 0x20010300, reg_a2 := 0x80001000)\<rparr>)\<rparr>"

definition receiving_world :: world where
  "receiving_world = demo_world\<lparr>nuc := (nuc demo_world)\<lparr>supports := [0x20030000 \<mapsto> receiving_support]\<rparr>\<rparr>"

definition receiving_env :: env where
  "receiving_env c w = (case c of (a, b, p) \<Rightarrow>
     Some (0x20010300, w\<lparr>nuc := store p (if p = demo_lv V_getsup_sup then 0x20030000 else READY) (nuc w)\<rparr>))"

theorem user_receive_forgets_sender_witness:
  "\<exists>x w'. run (supExceptionHandler demo_hw demo_lv) receiving_env receiving_world = (Left (LDST x), w') \<and>
     pc_epc x = 0x80000104 \<and> gpr x reg_v0 = 0"
proof -
  have E: "answers receiving_env" "leaves (\<lambda>w. supports (nuc w)) receiving_env"
    by (auto simp: answers_def leaves_def receiving_env_def store_def split: prod.splits)
  have s: "receiving_env (RECEIVEMESSAGE, ssi_pcb (nuc w'), demo_lv V_getsup_sup) w' = Some v \<Longrightarrow>
      mem (nuc (snd v)) (demo_lv V_getsup_sup) = 0x20030000" for v w'
    by (auto simp: receiving_env_def store_def)
  have u: "supports (nuc receiving_world) 0x20030000 = Some receiving_support" by (simp add: receiving_world_def)
  have c: "get_exccode demo_hw (cause (sup_exceptState receiving_support GENERALEXCEPT)) = SYSEXCEPTION"
    "gpr (sup_exceptState receiving_support GENERALEXCEPT) reg_a0 = RECEIVEMSG"
    by (simp_all add: receiving_support_def demo_hw_def)
  have z: "gpr (sup_exceptState receiving_support GENERALEXCEPT) reg_v0 = 0"
    "pc_epc (sup_exceptState receiving_support GENERALEXCEPT) = 0x80000100"
    by (simp_all add: receiving_support_def zero_state_def)
  from user_receive_forgets_sender [where w = receiving_world and lv = demo_lv and hw = demo_hw and u = receiving_support, OF E s u refl c] z show ?thesis by fastforce
qed

end
