(* ===== verification/Threads.thy ===== *)
theory Threads
  imports Sst_Props
begin

text \<open>
  Processes of the support level side by side.  Every process runs its code up to a system call; at a call
  any other process may go on.  Messages wait in inboxes as the nucleus keeps them: \<^verbatim>\<open>send\<close>
  appends, \<^verbatim>\<open>recv\<close> takes the first message it accepts.  The trace records the calls.
\<close>

section \<open>A process up to its next system call\<close>

primrec settle :: "'a prog \<Rightarrow> world \<Rightarrow> ('a prog \<times> world) option" where
  "settle (Ret a) w = Some (Ret a, w)"
| "settle (Act f) w = (case map_option (map_prod settle (\<lambda>w. w)) (f w) of
     None \<Rightarrow> None | Some (r, w') \<Rightarrow> r w')"
| "settle (Syscall a b c k) w = Some (Syscall a b c k, w)"
| "settle (Jump c) w = Some (Jump c, w)"

primrec is_settled :: "'a prog \<Rightarrow> bool" where
  "is_settled (Ret a) \<longleftrightarrow> True"
| "is_settled (Act f) \<longleftrightarrow> False"
| "is_settled (Syscall a b c k) \<longleftrightarrow> True"
| "is_settled (Jump c) \<longleftrightarrow> True"

lemma settle_settled: "settle q w = Some (q', w') \<Longrightarrow> is_settled q'"
proof (induction q arbitrary: w)
  case (Act f)
  then obtain q w1 where f: "f w = Some (q, w1)" and s: "settle q w1 = Some (q', w')"
    by (auto split: option.splits)
  show ?case by (rule Act.IH [OF rangeI [of f w] _ _ s]) (auto simp: f)
qed auto

text \<open>A request to end the caller is not answered: the process is gone.\<close>

fun is_kill :: "'a prog \<Rightarrow> world \<Rightarrow> bool" where
  "is_kill (Syscall a b c k) w \<longleftrightarrow> a = SENDMESSAGE \<and> b = ssi_pcb (nuc w) \<and>
     ssi_payloads (nuc w) c = Some \<lparr>service_code = TERMPROCESS, arg = NULL\<rparr>"
| "is_kill _ w \<longleftrightarrow> False"

section \<open>Systems of processes\<close>

datatype event = Sent ptr ptr | Got ptr ptr

record system =
  shared :: world
  threads :: "ptr \<Rightarrow> unit prog option"
  inbox :: "ptr \<Rightarrow> (ptr \<times> u32) list"
  trace :: "event list"

definition running :: "ptr \<Rightarrow> world \<Rightarrow> world" where
  "running p w = w\<lparr>nuc := (nuc w)\<lparr>current_process := p\<rparr>\<rparr>"

definition resume :: "ptr \<Rightarrow> unit prog \<Rightarrow> world \<Rightarrow> system \<Rightarrow> system option" where
  "resume p q w \<sigma> = map_option (\<lambda>(q', w'). \<sigma>\<lparr>shared := w', threads := (threads \<sigma>)(p := if is_kill q' w' then None else Some q')\<rparr>)
     (settle q (running p w))"

definition accepts :: "ptr \<Rightarrow> ptr \<Rightarrow> bool" where
  "accepts s t \<longleftrightarrow> s = ANYMESSAGE \<or> s = t"

definition stored :: "ptr \<Rightarrow> u32 \<Rightarrow> world \<Rightarrow> world" where
  "stored a v w = (if a = 0 then w else w\<lparr>nuc := store a v (nuc w)\<rparr>)"

text \<open>
  \<open>H p\<close> is what process \<open>p\<close> may start when it has nothing left to do: the handler of an exception for
  a user process, the next round of its loop for a server.  \<open>R\<close> is what the rest of the machine may do to
  the state at any time.  The SSI answers processes that have asked it something, and ends user processes
  when their service threads ask it to, wherever they are.  A call of
  \<^verbatim>\<open>send\<close> may fail for want of messages.
\<close>

inductive system_step :: "(ptr \<Rightarrow> unit prog set) \<Rightarrow> (world \<Rightarrow> world \<Rightarrow> bool) \<Rightarrow> system \<Rightarrow> system \<Rightarrow> bool" for H R where
  sends: "threads \<sigma> p = Some (Syscall SENDMESSAGE d v k) \<Longrightarrow> threads \<sigma> d \<noteq> None \<or> d = ssi_pcb (nuc (shared \<sigma>)) \<Longrightarrow>
    resume p (k 0) (shared \<sigma>) (\<sigma>\<lparr>inbox := (inbox \<sigma>)(d := inbox \<sigma> d @ [(p, v)]), trace := Sent p d # trace \<sigma>\<rparr>) = Some \<sigma>' \<Longrightarrow>
    system_step H R \<sigma> \<sigma>'"
| send_fails: "threads \<sigma> p = Some (Syscall SENDMESSAGE d v k) \<Longrightarrow> r \<in> {MSGNOGOOD, DEST_NOT_EXIST} \<Longrightarrow>
    resume p (k r) (shared \<sigma>) (\<sigma>\<lparr>trace := Sent p d # trace \<sigma>\<rparr>) = Some \<sigma>' \<Longrightarrow>
    system_step H R \<sigma> \<sigma>'"
| receives: "threads \<sigma> p = Some (Syscall RECEIVEMESSAGE s a k) \<Longrightarrow> inbox \<sigma> p = xs @ (t, v) # ys \<Longrightarrow> accepts s t \<Longrightarrow>
    \<forall>m \<in> set xs. \<not> accepts s (fst m) \<Longrightarrow>
    resume p (k t) (stored a v (shared \<sigma>)) (\<sigma>\<lparr>inbox := (inbox \<sigma>)(p := xs @ ys), trace := Got p t # trace \<sigma>\<rparr>) = Some \<sigma>' \<Longrightarrow>
    system_step H R \<sigma> \<sigma>'"
| answered: "Sent p (ssi_pcb (nuc (shared \<sigma>))) \<in> set (trace \<sigma>) \<Longrightarrow>
    system_step H R \<sigma> (\<sigma>\<lparr>inbox := (inbox \<sigma>)(p := inbox \<sigma> p @ [(ssi_pcb (nuc (shared \<sigma>)), v)])\<rparr>)"
| starts: "threads \<sigma> p = Some q \<Longrightarrow> q = Ret () \<or> (\<exists>c. q = Jump c) \<Longrightarrow> h \<in> H p \<Longrightarrow>
    resume p h (shared \<sigma>) \<sigma> = Some \<sigma>' \<Longrightarrow> system_step H R \<sigma> \<sigma>'"
| killed: "p \<noteq> mutexSender (shared \<sigma>) \<Longrightarrow> system_step H R \<sigma> (\<sigma>\<lparr>threads := (threads \<sigma>)(p := None)\<rparr>)"
| outside: "R (shared \<sigma>) w' \<Longrightarrow> system_step H R \<sigma> (\<sigma>\<lparr>shared := w'\<rparr>)"

inductive runs_to :: "(ptr \<Rightarrow> unit prog set) \<Rightarrow> (world \<Rightarrow> world \<Rightarrow> bool) \<Rightarrow> system \<Rightarrow> system \<Rightarrow> bool" for H R \<sigma>\<^sub>0 where
  start: "runs_to H R \<sigma>\<^sub>0 \<sigma>\<^sub>0"
| more: "runs_to H R \<sigma>\<^sub>0 \<sigma> \<Longrightarrow> system_step H R \<sigma> \<sigma>' \<Longrightarrow> runs_to H R \<sigma>\<^sub>0 \<sigma>'"

lemma resumeE:
  assumes "resume p q w \<sigma> = Some \<sigma>'"
  obtains q' w' where "settle q (running p w) = Some (q', w')"
    "\<sigma>' = \<sigma>\<lparr>shared := w', threads := (threads \<sigma>)(p := if is_kill q' w' then None else Some q')\<rparr>"
  using assms by (auto simp: resume_def)

section \<open>The protocol of the mutex\<close>

text \<open>Where a process stands with the mutex process \<open>M\<close>, from the calls it has made: it sends to
  \<open>M\<close> to ask, receives from \<open>M\<close> when it is granted, and sends again to release.\<close>

datatype phase = Idle | Asking | Inside

fun phase_of :: "ptr \<Rightarrow> ptr \<Rightarrow> event list \<Rightarrow> phase" where
  "phase_of M p [] = Idle"
| "phase_of M p (Sent q d # tr) = (if q = p \<and> d = M then (if phase_of M p tr = Inside then Idle else Asking)
     else phase_of M p tr)"
| "phase_of M p (Got q s # tr) = (if q = p \<and> s = M then Inside else phase_of M p tr)"

text \<open>What programs rely on and keep: who the mutex process and the SSI are, that a process inside is the
  one the mutex was given to last, and that no user process names the mutex process in a system call of its
  own.\<close>

definition polite :: "ptr \<Rightarrow> world \<Rightarrow> bool" where
  "polite M w \<longleftrightarrow> (\<forall>p u k. supports (nuc w) p = Some u \<longrightarrow> gpr (sup_exceptState u k) reg_a1 \<noteq> M) \<and>
     (\<forall>p x. pcbs (nuc w) p = Some x \<longrightarrow> p_parent x \<noteq> M)"

definition ok :: "ptr \<Rightarrow> ptr \<Rightarrow> ptr \<Rightarrow> phase \<Rightarrow> world \<Rightarrow> bool" where
  "ok M S p ph w \<longleftrightarrow> mutexSender w = M \<and> ssi_pcb (nuc w) = S \<and> current_process (nuc w) = p \<and>
     (ph = Inside \<longrightarrow> mutexRecv w = p) \<and> polite M w"

definition keeps :: "ptr \<Rightarrow> world \<Rightarrow> world \<Rightarrow> bool" where
  "keeps M w w' \<longleftrightarrow> mutexSender w' = mutexSender w \<and> mutexRecv w' = mutexRecv w \<and> ssi_pcb (nuc w') = ssi_pcb (nuc w) \<and>
     current_process (nuc w') = current_process (nuc w) \<and> (polite M w \<longrightarrow> polite M w')"

text \<open>
  A program of process \<open>p\<close> follows the protocol from a phase on; where it ends with a result,
  \<open>Q\<close> holds of the phase, the result and the state.
\<close>

inductive follows :: "ptr \<Rightarrow> ptr \<Rightarrow> ptr \<Rightarrow> (phase \<Rightarrow> 'a \<Rightarrow> world \<Rightarrow> bool) \<Rightarrow> phase \<Rightarrow> 'a prog \<Rightarrow> world \<Rightarrow> bool" for M S p Q where
  f_ret: "Q ph a w \<Longrightarrow> follows M S p Q ph (Ret a) w"
| f_jump: "follows M S p Q Idle (Jump c) w"
| f_act: "(\<And>q w'. f w = Some (q, w') \<Longrightarrow> keeps M w w' \<and> follows M S p Q ph q w') \<Longrightarrow> follows M S p Q ph (Act f) w"
| f_kill: "is_kill (Syscall a d v k) w \<Longrightarrow> follows M S p Q ph (Syscall a d v k) w"
| f_send: "d \<noteq> M \<Longrightarrow> (\<And>r w'. ok M S p ph w' \<Longrightarrow> follows M S p Q ph (k r) w') \<Longrightarrow>
    follows M S p Q ph (Syscall SENDMESSAGE d v k) w"
| f_ask: "(\<And>r w'. ok M S p Asking w' \<Longrightarrow> follows M S p Q Asking (k r) w') \<Longrightarrow>
    follows M S p Q Idle (Syscall SENDMESSAGE M v k) w"
| f_release: "(\<And>r w'. ok M S p Idle w' \<Longrightarrow> follows M S p Q Idle (k r) w') \<Longrightarrow>
    follows M S p Q Inside (Syscall SENDMESSAGE M v k) w"
| f_recv: "ph \<noteq> Asking \<Longrightarrow> (\<And>t w'. ok M S p ph w' \<Longrightarrow> follows M S p Q ph (k t) w') \<Longrightarrow>
    follows M S p Q ph (Syscall RECEIVEMESSAGE s a k) w"
| f_enter: "M \<noteq> ANYMESSAGE \<Longrightarrow> (\<And>t w'. ok M S p Inside w' \<Longrightarrow> follows M S p Q Inside (k t) w') \<Longrightarrow>
    follows M S p Q Asking (Syscall RECEIVEMESSAGE M a k) w"

inductive_cases follows_syscallE: "follows M S p Q ph (Syscall a d v k) w"
inductive_cases follows_retE: "follows M S p Q ph (Ret r) w"
inductive_cases follows_jumpE: "follows M S p Q ph (Jump c) w"
inductive_cases follows_actE: "follows M S p Q ph (Act f) w"

lemma follows_seq:
  assumes "follows M S p Q ph q w" "\<And>ph a w. Q ph a w \<Longrightarrow> follows M S p R ph (k a) w"
  shows "follows M S p R ph (seq q k) w"
  using assms(1)
proof induction
  case (f_act f w ph)
  show ?case unfolding seq.simps by (rule follows.f_act) (use f_act in auto)
next
  case (f_kill a d v k w ph)
  then show ?case by (simp add: follows.f_kill)
qed (auto intro: follows.intros assms(2) simp: follows.f_enter)

lemma follows_reads: "(\<And>a. f w = Some a \<Longrightarrow> Q ph a w) \<Longrightarrow> follows M S p Q ph (reads f) w"
  unfolding reads_def by (rule f_act) (auto simp: keeps_def intro: f_ret)

lemma follows_writes: "(\<And>w'. f w = Some w' \<Longrightarrow> keeps M w w' \<and> Q ph () w') \<Longrightarrow> follows M S p Q ph (writes f) w"
  unfolding writes_def by (rule f_act) (auto intro: f_ret)

lemma ok_keeps: "ok M S p ph w \<Longrightarrow> keeps M w w' \<Longrightarrow> ok M S p ph w'"
  by (auto simp: ok_def keeps_def)

end
