(* ===== verification/Protocol.thy ===== *)
theory Protocol
  imports Threads
begin

text \<open>
  The programs of the support level follow the protocol of the mutex: the pager asks, works inside and
  releases, a trap inside releases before the process is ended, and the other handlers stay outside.
\<close>

section \<open>Rules\<close>

lemma follows_then:
  "follows M S p (\<lambda>ph a w. follows M S p Q ph (k a) w) ph q w \<Longrightarrow> follows M S p Q ph (seq q k) w"
  by (rule follows_seq)

lemma follows_mono: "follows M S p Q ph q w \<Longrightarrow> (\<And>ph a w. Q ph a w \<Longrightarrow> R ph a w) \<Longrightarrow> follows M S p R ph q w"
proof (induction rule: follows.induct)
  case (f_act f w ph)
  then show ?case by (intro follows.f_act) blast
next
  case (f_kill a d v k w ph)
  show ?case by (rule follows.f_kill) (rule f_kill(1))
qed (auto intro: follows.intros simp: follows.f_enter)

lemma follows_SYSCALL_send:
  "d \<noteq> M \<Longrightarrow> (\<And>r w'. ok M S p ph w' \<Longrightarrow> Q ph r w') \<Longrightarrow> follows M S p Q ph (SYSCALL SENDMESSAGE d v) w"
  unfolding SYSCALL_def by (rule f_send) (auto intro: f_ret)

lemma follows_SYSCALL_recv:
  "ph \<noteq> Asking \<Longrightarrow> (\<And>t w'. ok M S p ph w' \<Longrightarrow> Q ph t w') \<Longrightarrow> follows M S p Q ph (SYSCALL RECEIVEMESSAGE s a) w"
  unfolding SYSCALL_def by (rule f_recv) (auto intro: f_ret)

lemma follows_read_ok:
  "ok M S p ph w \<Longrightarrow> (\<And>a. f w = Some a \<Longrightarrow> ok M S p ph w \<Longrightarrow> Q ph a w) \<Longrightarrow> follows M S p Q ph (reads f) w"
  by (rule follows_reads)

lemma follows_write_ok:
  "ok M S p ph w \<Longrightarrow> (\<And>w'. f w = Some w' \<Longrightarrow> keeps M w w') \<Longrightarrow>
    (\<And>w'. f w = Some w' \<Longrightarrow> ok M S p ph w' \<Longrightarrow> Q ph () w') \<Longrightarrow> follows M S p Q ph (writes f) w"
  by (rule follows_writes) (blast intro: ok_keeps)

text \<open>What is kept by the writes of the support level.\<close>

named_theorems keeping

lemma keeps_refl [keeping]: "keeps M w w"
  by (simp add: keeps_def)

lemma keeps_trans: "keeps M a b \<Longrightarrow> keeps M b c \<Longrightarrow> keeps M a c"
  by (auto simp: keeps_def)

lemma keeps_same:
  "mutexSender w' = mutexSender w \<Longrightarrow> mutexRecv w' = mutexRecv w \<Longrightarrow> ssi_pcb (nuc w') = ssi_pcb (nuc w) \<Longrightarrow>
   current_process (nuc w') = current_process (nuc w) \<Longrightarrow> supports (nuc w') = supports (nuc w) \<Longrightarrow>
   pcbs (nuc w') = pcbs (nuc w) \<Longrightarrow> keeps M w w'"
  by (simp add: keeps_def polite_def)

lemma keeps_nuc:
  "ssi_pcb s = ssi_pcb (nuc w) \<Longrightarrow> current_process s = current_process (nuc w) \<Longrightarrow> supports s = supports (nuc w) \<Longrightarrow>
   pcbs s = pcbs (nuc w) \<Longrightarrow> keeps M w (w\<lparr>nuc := s\<rparr>)"
  by (simp add: keeps_def polite_def)

lemma keeps_support:
  assumes "supports (nuc w) q = Some u" "\<And>k. gpr (sup_exceptState u' k) reg_a1 = gpr (sup_exceptState u k) reg_a1"
  shows "keeps M w (w\<lparr>nuc := (nuc w)\<lparr>supports := (supports (nuc w))(q \<mapsto> u')\<rparr>\<rparr>)"
  using assms by (auto simp: keeps_def polite_def split: if_splits)

lemma keeps_on_nuc:
  "(\<And>s. f (nuc w) = Some s \<Longrightarrow> keeps M w (w\<lparr>nuc := s\<rparr>)) \<Longrightarrow> ok M S p ph w \<Longrightarrow>
    (\<And>w'. ok M S p ph w' \<Longrightarrow> Q ph () w') \<Longrightarrow> follows M S p Q ph (on_nuc f) w"
  unfolding on_nuc_def by (rule follows_writes) (auto intro: ok_keeps)

lemma keeps_pool: "keeps M w (w\<lparr>swapPoolTable := t\<rparr>)"
  by (simp add: keeps_def polite_def)

section \<open>Requests to the SSI\<close>

lemma follows_ask_ssi:
  assumes "S \<noteq> M" "ph \<noteq> Asking" "ok M S p ph w" "\<And>w'. ok M S p ph w' \<Longrightarrow> Q ph () w'"
  shows "follows M S p Q ph (ask_ssi payload answer) w"
  unfolding ask_ssi_def
  by (intro follows_then follows_read_ok follows_SYSCALL_send follows_SYSCALL_recv f_ret assms(2-4))
    (use assms(1) in \<open>auto simp: ok_def\<close>)

lemma follows_put_payload:
  "ok M S p ph w \<Longrightarrow> (\<And>w'. ok M S p ph w' \<Longrightarrow> Q ph () w') \<Longrightarrow> follows M S p Q ph (put_payload v code a) w"
  unfolding put_payload_def by (rule keeps_on_nuc) (auto intro!: keeps_nuc)

lemma follows_getSupStruct:
  assumes "S \<noteq> M" "ph \<noteq> Asking" "ok M S p ph w" "\<And>a w'. ok M S p ph w' \<Longrightarrow> Q ph a w'"
  shows "follows M S p Q ph (getSupStruct lv) w"
  unfolding getSupStruct_def
  by (intro follows_then follows_put_payload follows_ask_ssi follows_read_ok assms)

text \<open>A process that asks for its own end makes no further call.\<close>

lemma follows_kill:
  assumes "ok M S p ph w"
  shows "follows M S p Q ph (sendKillReq lv NULL) w"
proof -
  let ?w' = "w\<lparr>nuc := (nuc w)\<lparr>ssi_payloads := (ssi_payloads (nuc w))(lv V_kill_payload \<mapsto> \<lparr>service_code = TERMPROCESS, arg = NULL\<rparr>)\<rparr>\<rparr>"
  have k: "keeps M w ?w'" by (rule keeps_nuc) simp_all
  have "follows M S p Q ph (ask_ssi (lv V_kill_payload) 0) ?w'"
    unfolding ask_ssi_def SYSCALL_def seq.simps
    by (rule follows_then, rule follows_reads, clarsimp) (rule f_kill, simp)
  then show ?thesis
    unfolding sendKillReq_def put_payload_def on_nuc_def
    by (intro follows_then follows_writes) (auto simp: k)
qed

section \<open>Traps and system calls\<close>

lemma follows_each_writes:
  "(\<And>i w w'. g i w = Some w' \<Longrightarrow> keeps M w w') \<Longrightarrow> ok M S p ph w \<Longrightarrow> (\<And>w'. ok M S p ph w' \<Longrightarrow> Q ph () w') \<Longrightarrow>
   follows M S p Q ph (for_each xs (\<lambda>i. writes (g i))) w"
proof (induction xs arbitrary: w)
  case (Cons x xs)
  show ?case unfolding for_each.simps
    by (intro follows_then follows_write_ok [OF Cons.prems(2)]) (use Cons in blast)+
qed (auto intro: f_ret)

lemma keeps_release: "release_frame asid i w = Some w' \<Longrightarrow> keeps M w w'"
  by (auto simp: release_frame_def keeps_pool keeps_refl split: bind_splits if_splits)

lemma follows_trap:
  assumes S: "S \<noteq> M" and ph: "ph \<noteq> Asking" and o: "ok M S p ph w"
  shows "follows M S p Q ph (programTrapHandler lv) w"
proof -
  have give: "follows M S p (\<lambda>ph a w. ok M S p ph w) ph (seq (reads (\<lambda>w. Some (mutexSender w))) (\<lambda>m.
            seq (SYSCALL SENDMESSAGE m 0) (\<lambda>_. Ret ()))) w" if o: "ok M S p ph w" for w
  proof (intro follows_then follows_read_ok [OF o])
    fix m assume "Some (mutexSender w) = Some m"
    then have m: "m = M" using o by (simp add: ok_def)
    show "follows M S p (\<lambda>ph' a w. follows M S p (\<lambda>ph a w. ok M S p ph w) ph' (Ret ()) w) ph (SYSCALL SENDMESSAGE m 0) w"
      unfolding m SYSCALL_def using ph by (cases ph) (auto intro!: f_ask f_release f_ret)
  qed
  show ?thesis
    unfolding programTrapHandler_def
    by (intro follows_then follows_each_writes [OF _ o] follows_read_ok)
      (auto split: bind_splits intro: keeps_release follows_mono [OF give] follows_kill f_ret)
qed

lemma follows_user_call:
  assumes M: "M \<noteq> NULL" and o: "ok M S p Idle w" and x: "supports (nuc w) q = Some u" "x = sup_exceptState u k"
    and Q: "\<And>w'. ok M S p Idle w' \<Longrightarrow> Q Idle () w'"
  shows "follows M S p Q Idle (supSyscallHandler x) w"
proof -
  have a1: "gpr x reg_a1 \<noteq> M" using o x by (auto simp: ok_def polite_def)
  have par: "current_pcb w = Some z \<Longrightarrow> p_parent z \<noteq> M" for z
    using o by (auto simp: ok_def polite_def current_pcb_def)
  show ?thesis
    unfolding supSyscallHandler_def Let_def
    using a1 by (auto intro!: follows_then follows_reads [of _ w] follows_SYSCALL_send follows_SYSCALL_recv f_ret f_jump Q dest!: par)
qed

section \<open>The pager\<close>

lemma follows_flashOp:
  assumes "S \<noteq> M" "ph \<noteq> Asking" "ok M S p ph w" "\<And>a w'. ok M S p ph w' \<Longrightarrow> Q ph a w'"
  shows "follows M S p Q ph (flashOp lv asid block addr op) w"
  unfolding flashOp_def Let_def
  by (intro follows_then keeps_on_nuc follows_put_payload follows_ask_ssi follows_read_ok assms)
    (auto intro!: keeps_nuc simp: store_def)

lemma keeps_pte: "set_pteLO r f w = Some w' \<Longrightarrow> keeps M w w'"
  by (auto simp: set_pteLO_def upd_support_def split: pte_ref.splits bind_splits intro!: keeps_support)

lemma keeps_TLB: "updateTLB hw pte w = Some w' \<Longrightarrow> keeps M w w'"
  by (auto simp: updateTLB_eq tlb_updated_def Let_def intro!: keeps_same split: if_splits)

lemma keeps_interrupts: "interrupts_off w = Some w' \<Longrightarrow> keeps M w w'" "interrupts_on w = Some w' \<Longrightarrow> keeps M w w'"
  by (auto simp: interrupts_off_def interrupts_on_def intro!: keeps_nuc)

lemma keeps_claim: "claim_frame f spt pg w = Some w' \<Longrightarrow> keeps M w w'"
  by (auto simp: claim_frame_def keeps_pool split: bind_splits)

lemmas keeps_pager = keeps_pte keeps_TLB keeps_interrupts keeps_claim

lemma follows_evict:
  assumes "S \<noteq> M" "ok M S p Inside w" "\<And>w'. ok M S p Inside w' \<Longrightarrow> Q Inside () w'"
  shows "follows M S p Q Inside (evict hw lv f) w"
  unfolding evict_def
  by (intro follows_then follows_write_ok follows_read_ok follows_flashOp assms(1,2) follows_trap f_ret)
    (auto intro: keeps_pager follows_trap [OF assms(1)] f_ret assms)

lemma follows_map_page:
  assumes "ok M S p Inside w" "\<And>w'. ok M S p Inside w' \<Longrightarrow> Q Inside () w'"
  shows "follows M S p Q Inside (map_page hw f spt pg) w"
  unfolding map_page_def
  by (intro follows_then follows_write_ok follows_read_ok assms keeps_pager) assumption+

lemma follows_serve_fault:
  assumes S: "S \<noteq> M" and o: "ok M S p Inside w" and Q: "\<And>w'. ok M S p Inside w' \<Longrightarrow> Q Inside () w'"
  shows "follows M S p Q Inside (serve_fault hw lv spt) w"
proof -
  have pick: "follows M S p Q Inside (Act (\<lambda>w. map_option (\<lambda>(f, w'). (Ret f, w')) (pick_frame w))) w"
    if "ok M S p Inside w" "\<And>f w'. ok M S p Inside w' \<Longrightarrow> Q Inside f w'" for Q :: "phase \<Rightarrow> int \<Rightarrow> world \<Rightarrow> bool" and w
  proof (rule f_act)
    fix q w' assume "map_option (\<lambda>(f, w'). (Ret f, w')) (pick_frame w) = Some (q, w')"
    then obtain f where f: "pick_frame w = Some (f, w')" "q = Ret f" by auto
    then have k: "keeps M w w'" by (auto simp: pick_frame_def intro!: keeps_same split: bind_splits option.splits if_splits)
    then show "keeps M w w' \<and> follows M S p Q Inside q w'"
      unfolding f(2) using ok_keeps [OF that(1) k] that(2) by (auto intro: f_ret)
  qed
  have rest: "follows M S p Q Inside (seq (reads (\<lambda>w. map_option sup_asid (supports (nuc w) spt))) (\<lambda>asid.
     seq (flashOp lv asid (of_nat n) (frame_addr f) FLASHREAD) (\<lambda>r.
     seq (if r \<noteq> READY then programTrapHandler lv else Ret ()) (\<lambda>_.
     seq (writes (claim_frame f spt n)) (\<lambda>_.
     map_page hw f spt n))))) w" if o: "ok M S p Inside w" for w n f
  proof -
    have "follows M S p Q Inside (seq (writes (claim_frame f spt n)) (\<lambda>_. map_page hw f spt n)) w"
      if "ok M S p Inside w" for w
      by (intro follows_then follows_write_ok follows_map_page that keeps_claim Q) assumption+
    then have "follows M S p Q Inside (seq (if r \<noteq> READY then programTrapHandler lv else Ret ()) (\<lambda>_.
        seq (writes (claim_frame f spt n)) (\<lambda>_. map_page hw f spt n))) w" if "ok M S p Inside w" for w r
      using that by (cases "r = READY") (simp_all add: follows_then [OF follows_trap [OF S]])
    then show ?thesis
      by - (rule follows_then, rule follows_reads, rule follows_then, rule follows_flashOp [OF S _ o], simp, blast)
  qed
  have load: "follows M S p Q Inside (seq (if \<not> free then evict hw lv f else Ret ()) (\<lambda>_.
      seq (reads (\<lambda>w. map_option sup_asid (supports (nuc w) spt))) (\<lambda>asid.
      seq (flashOp lv asid (of_nat n) (frame_addr f) FLASHREAD) (\<lambda>r.
      seq (if r \<noteq> READY then programTrapHandler lv else Ret ()) (\<lambda>_.
      seq (writes (claim_frame f spt n)) (\<lambda>_.
      map_page hw f spt n)))))) w" if "ok M S p Inside w" for w n f free
  proof (cases free)
    case False
    show ?thesis unfolding if_P [OF False]
      by (rule follows_then, rule follows_evict [OF S that], rule rest)
  qed (use rest [OF that] in simp)
  show ?thesis
    unfolding serve_fault_def
    by (rule follows_then, rule follows_reads, rule follows_then, rule follows_reads, rule follows_then, rule pick [OF o],
      rule follows_then, rule follows_reads, rule load, assumption)
qed

lemma follows_askMutex:
  assumes "M \<noteq> ANYMESSAGE" "ok M S p Idle w" "\<And>w'. ok M S p Inside w' \<Longrightarrow> Q Inside () w'"
  shows "follows M S p Q Idle askMutex w"
proof -
  have 1: "mutexSender w = M" using assms(2) by (simp add: ok_def)
  have 2: "mutexSender w = M" if "ok M S p Asking w" for w using that by (simp add: ok_def)
  show ?thesis
    unfolding askMutex_def SYSCALL_def
    by (intro follows_then follows_reads) (auto simp: 1 2 intro!: f_ask f_enter f_ret follows_then follows_reads assms(1,3))
qed

lemma follows_pager:
  assumes M: "M \<noteq> ANYMESSAGE" and S: "S \<noteq> M" and o: "ok M S p Idle w"
  shows "follows M S p Q Idle (pager hw lv) w"
proof -
  have release: "follows M S p Q Inside (seq (reads (\<lambda>w. Some (mutexSender w))) (\<lambda>m.
     seq (SYSCALL SENDMESSAGE m 0) (\<lambda>_.
     seq (reads (exc_state_of PGFAULTEXCEPT spt)) (\<lambda>supState. Jump (LDST supState))))) w" if "ok M S p Inside w" for w spt
  proof -
    have m: "mutexSender w = M" using that by (simp add: ok_def)
    show ?thesis unfolding SYSCALL_def
      by (intro follows_then follows_reads) (auto simp: m intro!: f_release f_ret follows_then follows_reads f_jump)
  qed
  have work: "follows M S p Q Idle (seq askMutex (\<lambda>_. seq (serve_fault hw lv spt) (\<lambda>_.
     seq (reads (\<lambda>w. Some (mutexSender w))) (\<lambda>m. seq (SYSCALL SENDMESSAGE m 0) (\<lambda>_.
     seq (reads (exc_state_of PGFAULTEXCEPT spt)) (\<lambda>supState. Jump (LDST supState))))))) w" if "ok M S p Idle w" for w spt
    by (intro follows_then follows_askMutex [OF M] follows_serve_fault [OF S] release that) assumption+
  have trap: "follows M S p Q Idle (seq (if c then programTrapHandler lv else Ret ()) (\<lambda>_.
     seq askMutex (\<lambda>_. seq (serve_fault hw lv spt) (\<lambda>_.
     seq (reads (\<lambda>w. Some (mutexSender w))) (\<lambda>m. seq (SYSCALL SENDMESSAGE m 0) (\<lambda>_.
     seq (reads (exc_state_of PGFAULTEXCEPT spt)) (\<lambda>supState. Jump (LDST supState)))))))) w" if "ok M S p Idle w" for w spt c
    using work that by (cases c) (simp_all add: follows_then [OF follows_trap [OF S]])
  show ?thesis
    unfolding pager_def
    by (rule follows_then, rule follows_getSupStruct [OF S _ o], simp, rule follows_then, rule follows_reads, rule trap, assumption)
qed

lemma follows_supExceptionHandler:
  assumes M: "M \<noteq> NULL" and S: "S \<noteq> M" and o: "ok M S p Idle w"
  shows "follows M S p Q Idle (supExceptionHandler hw lv) w"
proof -
  have upd: "upd_support spt (\<lambda>u. u\<lparr>sup_exceptState := (sup_exceptState u)(GENERALEXCEPT :=
            (sup_exceptState u GENERALEXCEPT)\<lparr>pc_epc := pc_epc (sup_exceptState u GENERALEXCEPT) + WORDLEN\<rparr>)\<rparr>) (nuc w) = Some s
      \<Longrightarrow> keeps M w (w\<lparr>nuc := s\<rparr>)" for spt s w
    by (auto simp: upd_support_def intro!: keeps_support split: bind_splits)
  have resume_user: "follows M S p Q Idle (seq (on_nuc (upd_support spt (\<lambda>u. u\<lparr>sup_exceptState := (sup_exceptState u)(GENERALEXCEPT :=
            (sup_exceptState u GENERALEXCEPT)\<lparr>pc_epc := pc_epc (sup_exceptState u GENERALEXCEPT) + WORDLEN\<rparr>)\<rparr>))) (\<lambda>_.
     seq (reads (exc_state_of GENERALEXCEPT spt)) (\<lambda>excState. Jump (LDST excState)))) w"
    if "ok M S p Idle w" for w spt
    by (intro follows_then keeps_on_nuc [OF upd that] follows_read_ok f_jump) assumption+
  have call: "follows M S p Q Idle (seq (reads (exc_state_of GENERALEXCEPT spt)) (\<lambda>excState.
     seq (if get_exccode hw (cause excState) = SYSEXCEPTION then supSyscallHandler excState
          else programTrapHandler lv) (\<lambda>_.
     seq (on_nuc (upd_support spt (\<lambda>u. u\<lparr>sup_exceptState := (sup_exceptState u)(GENERALEXCEPT :=
            (sup_exceptState u GENERALEXCEPT)\<lparr>pc_epc := pc_epc (sup_exceptState u GENERALEXCEPT) + WORDLEN\<rparr>)\<rparr>))) (\<lambda>_.
     seq (reads (exc_state_of GENERALEXCEPT spt)) (\<lambda>excState. Jump (LDST excState)))))) w"
    if o: "ok M S p Idle w" for w spt
  proof (rule follows_then, rule follows_reads)
    fix x assume "exc_state_of GENERALEXCEPT spt w = Some x"
    then obtain u where u: "supports (nuc w) spt = Some u" "x = sup_exceptState u GENERALEXCEPT"
      by (auto simp: exc_state_of_def)
    show "follows M S p Q Idle (seq (if get_exccode hw (cause x) = SYSEXCEPTION then supSyscallHandler x
          else programTrapHandler lv) (\<lambda>_.
     seq (on_nuc (upd_support spt (\<lambda>u. u\<lparr>sup_exceptState := (sup_exceptState u)(GENERALEXCEPT :=
            (sup_exceptState u GENERALEXCEPT)\<lparr>pc_epc := pc_epc (sup_exceptState u GENERALEXCEPT) + WORDLEN\<rparr>)\<rparr>))) (\<lambda>_.
     seq (reads (exc_state_of GENERALEXCEPT spt)) (\<lambda>excState. Jump (LDST excState))))) w"
      by (cases "get_exccode hw (cause x) = SYSEXCEPTION")
        (auto intro!: follows_then follows_user_call [OF M o u] resume_user [unfolded One_nat_def] follows_trap [OF S _ o])
  qed
  show ?thesis
    unfolding supExceptionHandler_def
    by (rule follows_then, rule follows_getSupStruct [OF S _ o], simp, rule call, assumption)
qed

end
