(* ===== verification/Mutex.thy ===== *)
theory Mutex
  imports Protocol
begin

text \<open>
  The mutex of the swap pool: whatever the interleaving, at most one process is between the grant it got
  from the mutex process and its release.
\<close>

section \<open>The mutex process\<close>

definition await :: "ptr \<Rightarrow> unit prog" where
  "await s = Syscall RECEIVEMESSAGE s 0 (\<lambda>_. Ret ())"

definition granted :: "ptr \<Rightarrow> unit prog" where
  "granted s = Syscall SENDMESSAGE s 0 (\<lambda>_. await s)"

definition grant :: "ptr \<Rightarrow> unit prog" where
  "grant s = Act (\<lambda>w. Some (granted s, w\<lparr>mutexRecv := s\<rparr>))"

lemma mutex_eq: "mutex = Syscall RECEIVEMESSAGE ANYMESSAGE 0 grant"
  by (simp add: mutex_def SYSCALL_def writes_def grant_def granted_def await_def fun_eq_iff)

lemma settle_mutex [simp]:
  "settle (grant s) w = Some (granted s, w\<lparr>mutexRecv := s\<rparr>)" "settle (granted s) w = Some (granted s, w)"
  "settle (await s) w = Some (await s, w)"
  by (simp_all add: grant_def granted_def await_def)

text \<open>Whom it serves: nobody, a process it is about to grant the mutex, or one it waits for.\<close>

datatype serving = Free | Granting ptr | Waiting ptr

fun mutex_at :: "serving \<Rightarrow> unit prog \<Rightarrow> bool" where
  "mutex_at Free q \<longleftrightarrow> q = Ret () \<or> q = mutex"
| "mutex_at (Granting s) q \<longleftrightarrow> q = granted s"
| "mutex_at (Waiting s) q \<longleftrightarrow> q = await s"

fun served :: "serving \<Rightarrow> ptr option" where
  "served Free = None"
| "served (Granting s) = Some s"
| "served (Waiting s) = Some s"

section \<open>The invariant\<close>

definition messages_from :: "ptr \<Rightarrow> (ptr \<times> u32) list \<Rightarrow> nat" where
  "messages_from p ms = length (filter (\<lambda>m. fst m = p) ms)"

lemma messages_from_simps [simp]:
  "messages_from p [] = 0"
  "messages_from p ((t, v) # ms) = (if t = p then 1 else 0) + messages_from p ms"
  "messages_from p (xs @ ys) = messages_from p xs + messages_from p ys"
  by (simp_all add: messages_from_def)

text \<open>The phase of a process, its messages in the inbox of the mutex process and the grants in its own.\<close>

definition rel :: "serving \<Rightarrow> ptr \<Rightarrow> phase \<Rightarrow> nat \<Rightarrow> nat \<Rightarrow> bool" where
  "rel pos p ph c g \<longleftrightarrow>
     (if pos = Granting p then ph = Asking \<and> c = 0 \<and> g = 0
      else if pos = Waiting p then (ph = Inside \<and> c = 0 \<and> g = 0) \<or> (ph = Asking \<and> c = 0 \<and> g \<le> 1) \<or>
        (ph = Idle \<and> c \<le> 1 \<and> g = 0) \<or> (ph = Asking \<and> c \<le> 2 \<and> g = 0)
      else ph \<noteq> Inside \<and> g = 0 \<and> c \<le> 1 \<and> (ph = Idle \<longrightarrow> c = 0))"

definition good :: "ptr \<Rightarrow> ptr \<Rightarrow> ptr \<Rightarrow> phase \<Rightarrow> unit prog \<Rightarrow> bool" where
  "good M S p ph q \<longleftrightarrow> is_settled q \<and> (\<exists>w. follows M S p (\<lambda>ph _ _. ph = Idle) ph q w \<and> \<not> is_kill q w)"

definition setting :: "ptr \<Rightarrow> ptr \<Rightarrow> world \<Rightarrow> bool" where
  "setting M S w \<longleftrightarrow> mutexSender w = M \<and> ssi_pcb (nuc w) = S \<and> polite M w"

definition mutex_inv :: "ptr \<Rightarrow> ptr \<Rightarrow> serving \<Rightarrow> system \<Rightarrow> bool" where
  "mutex_inv M S pos \<sigma> \<longleftrightarrow>
     setting M S (shared \<sigma>) \<and> threads \<sigma> S = None \<and> threads \<sigma> NULL = None \<and> Sent M S \<notin> set (trace \<sigma>) \<and>
     (\<exists>q. threads \<sigma> M = Some q \<and> mutex_at pos q) \<and>
     (\<forall>s. served pos = Some s \<longrightarrow> s \<noteq> M \<and> s \<noteq> S \<and> s \<noteq> NULL \<and> mutexRecv (shared \<sigma>) = s) \<and>
     (\<forall>m \<in> set (inbox \<sigma> M). fst m \<noteq> M \<and> fst m \<noteq> S \<and> fst m \<noteq> NULL) \<and>
     (\<forall>p q. p \<noteq> M \<longrightarrow> threads \<sigma> p = Some q \<longrightarrow> good M S p (phase_of M p (trace \<sigma>)) q) \<and>
     (\<forall>p. p \<noteq> M \<longrightarrow> rel pos p (phase_of M p (trace \<sigma>)) (messages_from p (inbox \<sigma> M)) (messages_from M (inbox \<sigma> p)))"

section \<open>Steps of a client\<close>

lemma settle_follows:
  "follows M S p Q ph q w \<Longrightarrow> settle q w = Some (q', w') \<Longrightarrow> follows M S p Q ph q' w' \<and> keeps M w w'"
proof (induction arbitrary: q' w' rule: follows.induct)
  case (f_act f w ph)
  then obtain q1 w1 where 1: "f w = Some (q1, w1)" "settle q1 w1 = Some (q', w')" by (auto split: option.splits)
  then show ?case using f_act(1) [OF 1(1)] keeps_trans by blast
qed (auto intro: follows.intros keeps_refl)

lemma running_simps [simp]:
  "polite M (running p w) = polite M w" "mutexSender (running p w) = mutexSender w" "mutexRecv (running p w) = mutexRecv w"
  "ssi_pcb (nuc (running p w)) = ssi_pcb (nuc w)" "current_process (nuc (running p w)) = p"
  by (simp_all add: running_def polite_def)

lemma running_ok: "ok M S p ph (running p w) \<longleftrightarrow> setting M S w \<and> (ph = Inside \<longrightarrow> mutexRecv w = p)"
  by (auto simp: ok_def setting_def)

lemma resume_client:
  assumes r: "resume p q w \<sigma> = Some \<sigma>'" and f: "\<And>w. ok M S p ph w \<Longrightarrow> follows M S p (\<lambda>ph _ _. ph = Idle) ph q w"
    and w: "setting M S w" "ph = Inside \<longrightarrow> mutexRecv w = p"
  shows "\<exists>th w'. \<sigma>' = \<sigma>\<lparr>shared := w', threads := (threads \<sigma>)(p := th)\<rparr> \<and> setting M S w' \<and> mutexRecv w' = mutexRecv w \<and>
    (\<forall>q'. th = Some q' \<longrightarrow> good M S p ph q')"
proof -
  from r obtain q' w' where s: "settle q (running p w) = Some (q', w')"
    "\<sigma>' = \<sigma>\<lparr>shared := w', threads := (threads \<sigma>)(p := if is_kill q' w' then None else Some q')\<rparr>" by (rule resumeE)
  have o: "ok M S p ph (running p w)" using w by (simp add: running_ok)
  from settle_follows [OF f [OF o] s(1)] have f': "follows M S p (\<lambda>ph _ _. ph = Idle) ph q' w'" "keeps M (running p w) w'" by auto
  have "setting M S w'" "mutexRecv w' = mutexRecv w"
    using f'(2) w(1) by (simp_all add: keeps_def setting_def)
  moreover have "\<forall>q''. (if is_kill q' w' then None else Some q') = Some q'' \<longrightarrow> good M S p ph q''"
    using f'(1) settle_settled [OF s(1)] by (auto simp: good_def)
  ultimately show ?thesis using s(2) by blast
qed

definition after_send :: "ptr \<Rightarrow> ptr \<Rightarrow> phase \<Rightarrow> phase" where
  "after_send M d ph = (if d = M then if ph = Inside then Idle else Asking else ph)"

lemma good_send:
  assumes "good M S p ph (Syscall SENDMESSAGE d v k)"
  shows "d = M \<longrightarrow> ph \<noteq> Asking"
    and "ok M S p (after_send M d ph) w \<Longrightarrow> follows M S p (\<lambda>ph _ _. ph = Idle) (after_send M d ph) (k r) w"
  using assms by (auto simp: good_def after_send_def elim!: follows_syscallE)

lemma good_recv:
  assumes "good M S p ph (Syscall RECEIVEMESSAGE s a k)"
  shows "ph = Asking \<Longrightarrow> s = M \<and> M \<noteq> ANYMESSAGE"
    and "ok M S p (if ph = Asking then Inside else ph) w \<Longrightarrow>
      follows M S p (\<lambda>ph _ _. ph = Idle) (if ph = Asking then Inside else ph) (k t) w"
  using assms by (auto simp: good_def elim!: follows_syscallE)

lemma good_idle: "good M S p ph q \<Longrightarrow> q = Ret () \<or> (\<exists>c. q = Jump c) \<Longrightarrow> ph = Idle"
  by (auto simp: good_def elim!: follows_retE follows_jumpE)

lemma rel_send:
  "rel pos p ph c g \<Longrightarrow> (d = M \<longrightarrow> ph \<noteq> Asking) \<Longrightarrow>
     rel pos p (after_send M d ph) (if d = M then c + 1 else c) g \<and> rel pos p (after_send M d ph) c g"
  by (cases ph) (auto simp: rel_def after_send_def split: if_splits)

text \<open>Updates that leave one client's part to be shown.\<close>

lemma mutex_inv_client:
  assumes inv: "mutex_inv M S pos \<sigma>" and p: "p \<noteq> M" "p \<noteq> S" "p \<noteq> NULL"
    and \<sigma>': "threads \<sigma>' = (threads \<sigma>)(p := th)" "trace \<sigma>' = ev @ trace \<sigma>"
    and ev: "\<forall>e \<in> set ev. (\<exists>d. e = Sent p d) \<or> (\<exists>t. e = Got p t)"
    and w: "setting M S (shared \<sigma>')" "mutexRecv (shared \<sigma>') = mutexRecv (shared \<sigma>)"
    and th: "\<And>q. th = Some q \<Longrightarrow> good M S p (phase_of M p (trace \<sigma>')) q"
    and box: "\<And>m. m \<in> set (inbox \<sigma>' M) \<Longrightarrow> m \<in> set (inbox \<sigma> M) \<or> fst m = p"
    and others: "\<And>q. q \<noteq> p \<Longrightarrow> q \<noteq> M \<Longrightarrow> messages_from q (inbox \<sigma>' M) = messages_from q (inbox \<sigma> M) \<and>
       messages_from M (inbox \<sigma>' q) = messages_from M (inbox \<sigma> q)"
    and r: "rel pos p (phase_of M p (trace \<sigma>')) (messages_from p (inbox \<sigma>' M)) (messages_from M (inbox \<sigma>' p))"
  shows "mutex_inv M S pos \<sigma>'"
proof -
  have tr: "phase_of M q (trace \<sigma>') = phase_of M q (trace \<sigma>)" if "q \<noteq> p" for q
    unfolding \<sigma>'(2) using ev that by (induction ev) auto
  have ns: "Sent M S \<notin> set (trace \<sigma>')" using inv ev p by (auto simp: \<sigma>'(2) mutex_inv_def)
  have b: "\<forall>m \<in> set (inbox \<sigma>' M). fst m \<noteq> M \<and> fst m \<noteq> S \<and> fst m \<noteq> NULL" using inv box p unfolding mutex_inv_def by blast
  have t: "threads \<sigma>' S = None" "threads \<sigma>' NULL = None" "threads \<sigma>' M = threads \<sigma> M" using inv p by (auto simp: \<sigma>'(1) mutex_inv_def)
  have g: "good M S q (phase_of M q (trace \<sigma>')) x" if "q \<noteq> M" "threads \<sigma>' q = Some x" for q x
    using inv that th tr [of q] unfolding \<sigma>'(1) mutex_inv_def by (cases "q = p") auto
  have rr: "rel pos q (phase_of M q (trace \<sigma>')) (messages_from q (inbox \<sigma>' M)) (messages_from M (inbox \<sigma>' q))" if "q \<noteq> M" for q
    using inv that r tr [of q] others [of q] unfolding mutex_inv_def by (cases "q = p") auto
  show ?thesis using inv w ns b t g rr unfolding mutex_inv_def by simp
qed

lemma inside_served:
  assumes "mutex_inv M S pos \<sigma>" "p \<noteq> M" "phase_of M p (trace \<sigma>) = Inside"
  shows "pos = Waiting p" "mutexRecv (shared \<sigma>) = p"
proof -
  have "rel pos p Inside (messages_from p (inbox \<sigma> M)) (messages_from M (inbox \<sigma> p))"
    using assms unfolding mutex_inv_def by metis
  then show "pos = Waiting p" by (auto simp: rel_def split: if_splits)
  then show "mutexRecv (shared \<sigma>) = p" using assms(1) by (simp add: mutex_inv_def)
qed

lemma client_sends:
  assumes inv: "mutex_inv M S pos \<sigma>" and p: "p \<noteq> M" and th: "threads \<sigma> p = Some (Syscall SENDMESSAGE d v k)"
    and box: "box = inbox \<sigma> \<or> box = (inbox \<sigma>)(d := inbox \<sigma> d @ [(p, v)])"
    and r: "resume p (k r) (shared \<sigma>) (\<sigma>\<lparr>inbox := box, trace := Sent p d # trace \<sigma>\<rparr>) = Some \<sigma>'"
  shows "mutex_inv M S pos \<sigma>'"
proof -
  let ?ph = "phase_of M p (trace \<sigma>)"
  have g: "good M S p ?ph (Syscall SENDMESSAGE d v k)" and pS: "p \<noteq> S" "p \<noteq> NULL" and set: "setting M S (shared \<sigma>)"
    and rl: "rel pos p ?ph (messages_from p (inbox \<sigma> M)) (messages_from M (inbox \<sigma> p))"
    using inv th p unfolding mutex_inv_def by auto
  have ph: "phase_of M p (Sent p d # trace \<sigma>) = after_send M d ?ph" by (simp add: after_send_def)
  have "after_send M d ?ph = Inside \<longrightarrow> mutexRecv (shared \<sigma>) = p"
    using inside_served [OF inv p] by (auto simp: after_send_def split: if_splits)
  from resume_client [OF r good_send(2) [OF g] set this] obtain th' w' where
    \<sigma>': "\<sigma>' = \<sigma>\<lparr>inbox := box, trace := Sent p d # trace \<sigma>, shared := w', threads := (threads \<sigma>)(p := th')\<rparr>" and
    w': "setting M S w'" "mutexRecv w' = mutexRecv (shared \<sigma>)"
    "\<forall>q'. th' = Some q' \<longrightarrow> good M S p (after_send M d ?ph) q'" by auto
  note rs = rel_send [OF rl good_send(1) [OF g]]
  have rl': "rel pos p (after_send M d ?ph) (messages_from p (box M)) (messages_from M (box p))"
    using rs box p by (auto split: if_splits)
  have b: "m \<in> set (box M) \<Longrightarrow> m \<in> set (inbox \<sigma> M) \<or> fst m = p" for m using box by (auto split: if_splits)
  have o: "messages_from q (box M) = messages_from q (inbox \<sigma> M) \<and> messages_from M (box q) = messages_from M (inbox \<sigma> q)"
    if "q \<noteq> p" "q \<noteq> M" for q using box that p by (auto split: if_splits)
  show ?thesis
    by (rule mutex_inv_client [OF inv p pS, where th = th' and ev = "[Sent p d]"])
      (use \<sigma>' w' rl' b o ph in auto)
qed

lemma client_receives:
  assumes inv: "mutex_inv M S pos \<sigma>" and p: "p \<noteq> M" and th: "threads \<sigma> p = Some (Syscall RECEIVEMESSAGE s a k)"
    and box: "inbox \<sigma> p = xs @ (t, v) # ys" "accepts s t"
    and r: "resume p (k t) (stored a v (shared \<sigma>)) (\<sigma>\<lparr>inbox := (inbox \<sigma>)(p := xs @ ys), trace := Got p t # trace \<sigma>\<rparr>) = Some \<sigma>'"
  shows "mutex_inv M S pos \<sigma>'"
proof -
  let ?ph = "phase_of M p (trace \<sigma>)" and ?b = "(inbox \<sigma>)(p := xs @ ys)" and ?w = "stored a v (shared \<sigma>)"
  let ?ph' = "if ?ph = Asking then Inside else ?ph"
  have g: "good M S p ?ph (Syscall RECEIVEMESSAGE s a k)" and pS: "p \<noteq> S" "p \<noteq> NULL" and set: "setting M S (shared \<sigma>)"
    and rl: "rel pos p ?ph (messages_from p (inbox \<sigma> M)) (messages_from M (inbox \<sigma> p))"
    using inv th p unfolding mutex_inv_def by auto
  have t: "t = M \<longleftrightarrow> ?ph = Asking"
  proof
    assume "t = M"
    then have "1 \<le> messages_from M (inbox \<sigma> p)" using box(1) by simp
    then show "?ph = Asking" using rl by (auto simp: rel_def split: if_splits)
  next
    assume "?ph = Asking"
    then show "t = M" using good_recv(1) [OF g] box(2) by (auto simp: accepts_def)
  qed
  have ph: "phase_of M p (Got p t # trace \<sigma>) = ?ph'" using t by simp
  have pos: "?ph' = Inside \<Longrightarrow> pos = Waiting p"
  proof (cases "?ph = Asking")
    case True
    then have "1 \<le> messages_from M (inbox \<sigma> p)" using box(1) t by simp
    then show "pos = Waiting p" using rl True by (auto simp: rel_def split: if_splits)
  next
    case False
    assume "?ph' = Inside"
    then show "pos = Waiting p" using False inside_served(1) [OF inv p] by simp
  qed
  have set': "setting M S ?w" and rcv: "mutexRecv ?w = mutexRecv (shared \<sigma>)"
    using set by (simp_all add: setting_def stored_def store_def polite_def)
  have "?ph' = Inside \<longrightarrow> mutexRecv ?w = p" using pos inv rcv by (auto simp: mutex_inv_def)
  from resume_client [OF r good_recv(2) [OF g] set' this] obtain th' w' where
    \<sigma>': "\<sigma>' = \<sigma>\<lparr>inbox := ?b, trace := Got p t # trace \<sigma>, shared := w', threads := (threads \<sigma>)(p := th')\<rparr>" and
    w': "setting M S w'" "mutexRecv w' = mutexRecv (shared \<sigma>)"
    "\<forall>q'. th' = Some q' \<longrightarrow> good M S p ?ph' q'" using rcv by auto
  have rl': "rel pos p ?ph' (messages_from p (?b M)) (messages_from M (?b p))"
  proof (cases "?ph = Asking")
    case True
    then have w: "pos = Waiting p" "t = M" using pos t by auto
    have b: "messages_from p (?b M) = messages_from p (inbox \<sigma> M)"
      "messages_from M (inbox \<sigma> p) = 1 + messages_from M (?b p)" using box(1) p w(2) by simp_all
    show ?thesis using rl unfolding b(1) b(2) w(1) True by (simp add: rel_def)
  next
    case False
    then have "messages_from M (?b p) = messages_from M (inbox \<sigma> p)" "messages_from p (?b M) = messages_from p (inbox \<sigma> M)"
      using box(1) p t by simp_all
    then show ?thesis using rl False by simp
  qed
  show ?thesis
    by (rule mutex_inv_client [OF inv p pS, where th = th' and ev = "[Got p t]"])
      (use \<sigma>' w' rl' ph p in auto)
qed

lemma client_starts:
  assumes inv: "mutex_inv M S pos \<sigma>" and p: "p \<noteq> M" and th: "threads \<sigma> p = Some q" "q = Ret () \<or> (\<exists>c. q = Jump c)"
    and h: "\<And>w. ok M S p Idle w \<Longrightarrow> follows M S p (\<lambda>ph _ _. ph = Idle) Idle h w"
    and r: "resume p h (shared \<sigma>) \<sigma> = Some \<sigma>'"
  shows "mutex_inv M S pos \<sigma>'"
proof -
  let ?ph = "phase_of M p (trace \<sigma>)"
  have g: "good M S p ?ph q" and pS: "p \<noteq> S" "p \<noteq> NULL" and set: "setting M S (shared \<sigma>)"
    and rl: "rel pos p ?ph (messages_from p (inbox \<sigma> M)) (messages_from M (inbox \<sigma> p))"
    using inv th(1) p unfolding mutex_inv_def by auto
  have ph: "?ph = Idle" by (rule good_idle [OF g th(2)])
  from resume_client [OF r h set] obtain th' w' where
    \<sigma>': "\<sigma>' = \<sigma>\<lparr>shared := w', threads := (threads \<sigma>)(p := th')\<rparr>" and
    w': "setting M S w'" "mutexRecv w' = mutexRecv (shared \<sigma>)" "\<forall>q'. th' = Some q' \<longrightarrow> good M S p Idle q'" by auto
  show ?thesis
    by (rule mutex_inv_client [OF inv p pS, where th = th' and ev = "[]"]) (use \<sigma>' w' rl ph in auto)
qed

section \<open>Steps of the mutex process\<close>

lemma rel_served:
  "rel pos p ph c g \<Longrightarrow> served pos \<noteq> Some p \<Longrightarrow> served pos' \<noteq> Some p \<Longrightarrow> rel pos' p ph c g"
  by (cases pos; cases pos') (auto simp: rel_def)

lemma mutex_inv_server:
  assumes inv: "mutex_inv M S pos \<sigma>"
    and \<sigma>': "threads \<sigma>' = (threads \<sigma>)(M := Some q)" "trace \<sigma>' = ev @ trace \<sigma>"
    and ev: "\<forall>e \<in> set ev. (\<exists>d. e = Sent M d \<and> d \<noteq> S) \<or> (\<exists>t. e = Got M t)"
    and w: "setting M S (shared \<sigma>')" and q: "mutex_at pos' q"
    and s: "\<And>s. served pos' = Some s \<Longrightarrow> s \<noteq> M \<and> s \<noteq> S \<and> s \<noteq> NULL \<and> mutexRecv (shared \<sigma>') = s"
    and box: "set (inbox \<sigma>' M) \<subseteq> set (inbox \<sigma> M)"
    and others: "\<And>p. p \<noteq> M \<Longrightarrow> served pos \<noteq> Some p \<Longrightarrow> served pos' \<noteq> Some p \<Longrightarrow>
       messages_from p (inbox \<sigma>' M) = messages_from p (inbox \<sigma> M) \<and> messages_from M (inbox \<sigma>' p) = messages_from M (inbox \<sigma> p)"
    and r: "\<And>p. p \<noteq> M \<Longrightarrow> served pos = Some p \<or> served pos' = Some p \<Longrightarrow>
       rel pos' p (phase_of M p (trace \<sigma>)) (messages_from p (inbox \<sigma>' M)) (messages_from M (inbox \<sigma>' p))"
  shows "mutex_inv M S pos' \<sigma>'"
proof -
  have tr: "phase_of M p (trace \<sigma>') = phase_of M p (trace \<sigma>)" if "p \<noteq> M" for p
    unfolding \<sigma>'(2) using ev that by (induction ev) auto
  have "threads \<sigma> M \<noteq> None" "threads \<sigma> S = None" "threads \<sigma> NULL = None" using inv by (auto simp: mutex_inv_def)
  then have SM: "S \<noteq> M" "NULL \<noteq> M" by metis+
  have ns: "Sent M S \<notin> set (trace \<sigma>')" using inv ev by (auto simp: \<sigma>'(2) mutex_inv_def)
  have b: "\<forall>m \<in> set (inbox \<sigma>' M). fst m \<noteq> M \<and> fst m \<noteq> S \<and> fst m \<noteq> NULL" using inv box unfolding mutex_inv_def by blast
  have t: "threads \<sigma>' S = None" "threads \<sigma>' NULL = None" "threads \<sigma>' M = Some q" using inv SM by (auto simp: \<sigma>'(1) mutex_inv_def)
  have g: "good M S p (phase_of M p (trace \<sigma>')) x" if "p \<noteq> M" "threads \<sigma>' p = Some x" for p x
    using inv that tr [of p] unfolding \<sigma>'(1) mutex_inv_def by auto
  have rr: "rel pos' p (phase_of M p (trace \<sigma>')) (messages_from p (inbox \<sigma>' M)) (messages_from M (inbox \<sigma>' p))" if p: "p \<noteq> M" for p
  proof (cases "served pos = Some p \<or> served pos' = Some p")
    case True
    then show ?thesis using r [OF p] tr [OF p] by simp
  next
    case False
    have "rel pos p (phase_of M p (trace \<sigma>)) (messages_from p (inbox \<sigma> M)) (messages_from M (inbox \<sigma> p))"
      using inv p unfolding mutex_inv_def by blast
    then show ?thesis using rel_served [of pos p _ _ _ pos'] False others [OF p] tr [OF p] by simp
  qed
  show ?thesis using w ns b t g rr q s unfolding mutex_inv_def by simp
qed

lemma mutex_served_ne: "mutex_inv M S pos \<sigma> \<Longrightarrow> served pos = Some s \<Longrightarrow> s \<noteq> M \<and> s \<noteq> S \<and> s \<noteq> NULL \<and> mutexRecv (shared \<sigma>) = s"
  unfolding mutex_inv_def by blast

lemma server_sends:
  assumes inv: "mutex_inv M S pos \<sigma>" and th: "threads \<sigma> M = Some (Syscall SENDMESSAGE d v k)"
    and box: "box = inbox \<sigma> \<or> box = (inbox \<sigma>)(d := inbox \<sigma> d @ [(M, v)])"
    and r: "resume M (k r) (shared \<sigma>) (\<sigma>\<lparr>inbox := box, trace := Sent M d # trace \<sigma>\<rparr>) = Some \<sigma>'"
  shows "mutex_inv M S (Waiting d) \<sigma>'"
proof -
  have "mutex_at pos (Syscall SENDMESSAGE d v k)" using inv th unfolding mutex_inv_def by auto
  then have pos: "pos = Granting d" "k r = await d" by (cases pos; auto simp: granted_def await_def mutex_eq)+
  note d = mutex_served_ne [OF inv, of d]
  have set: "setting M S (shared \<sigma>)" using inv by (simp add: mutex_inv_def)
  from r have \<sigma>': "\<sigma>' = \<sigma>\<lparr>inbox := box, trace := Sent M d # trace \<sigma>, shared := running M (shared \<sigma>),
      threads := (threads \<sigma>)(M := Some (await d))\<rparr>"
    unfolding pos(2) by (auto simp: resume_def await_def)
  have rl: "rel pos d (phase_of M d (trace \<sigma>)) (messages_from d (inbox \<sigma> M)) (messages_from M (inbox \<sigma> d))"
    using inv d pos unfolding mutex_inv_def by auto
  have "rel (Waiting d) d (phase_of M d (trace \<sigma>)) (messages_from d (box M)) (messages_from M (box d))"
    using rl box d pos by (auto simp: rel_def)
  then show ?thesis
    using d pos box set
    by (intro mutex_inv_server [OF inv, where q = "await d" and ev = "[Sent M d]"])
      (auto simp: \<sigma>' setting_def)
qed

lemma server_receives:
  assumes inv: "mutex_inv M S pos \<sigma>" and th: "threads \<sigma> M = Some (Syscall RECEIVEMESSAGE s a k)"
    and box: "inbox \<sigma> M = xs @ (t, v) # ys" "accepts s t" "\<forall>m \<in> set xs. \<not> accepts s (fst m)"
    and r: "resume M (k t) (stored a v (shared \<sigma>)) (\<sigma>\<lparr>inbox := (inbox \<sigma>)(M := xs @ ys), trace := Got M t # trace \<sigma>\<rparr>) = Some \<sigma>'"
  shows "\<exists>pos'. mutex_inv M S pos' \<sigma>'"
proof -
  have m: "mutex_at pos (Syscall RECEIVEMESSAGE s a k)" using inv th unfolding mutex_inv_def by auto
  have set: "setting M S (shared \<sigma>)" using inv by (simp add: mutex_inv_def)
  have t: "t \<noteq> M" "t \<noteq> S" "t \<noteq> NULL" using inv box(1) unfolding mutex_inv_def by auto
  have rl: "rel pos t (phase_of M t (trace \<sigma>)) (messages_from t (inbox \<sigma> M)) (messages_from M (inbox \<sigma> t))"
    using inv t unfolding mutex_inv_def by auto
  have c: "messages_from t (inbox \<sigma> M) = 1 + messages_from t (xs @ ys)" using box(1) by simp
  have o: "messages_from p (xs @ ys) = messages_from p (inbox \<sigma> M)" if "p \<noteq> t" for p using box(1) that by simp
  from m consider (free) "pos = Free" "a = 0" "k = grant" | (waiting) "pos = Waiting s" "a = 0" "k t = Ret ()"
    by (cases pos) (auto simp: mutex_eq granted_def await_def)
  then show ?thesis
  proof cases
    case free
    have "\<not> is_kill (granted t) ((running M (shared \<sigma>))\<lparr>mutexRecv := t\<rparr>)"
      using t set by (simp add: granted_def setting_def)
    with r have \<sigma>': "\<sigma>' = \<sigma>\<lparr>inbox := (inbox \<sigma>)(M := xs @ ys), trace := Got M t # trace \<sigma>,
        shared := (running M (shared \<sigma>))\<lparr>mutexRecv := t\<rparr>, threads := (threads \<sigma>)(M := Some (granted t))\<rparr>"
      unfolding free by (simp add: resume_def stored_def)
    have "rel (Granting t) t (phase_of M t (trace \<sigma>)) (messages_from t (xs @ ys)) (messages_from M (inbox \<sigma> t))"
      using rl c free(1) by (cases "phase_of M t (trace \<sigma>)") (auto simp: rel_def)
    moreover have "setting M S ((running M (shared \<sigma>))\<lparr>mutexRecv := t\<rparr>)" using set by (simp add: setting_def running_def polite_def)
    ultimately have "mutex_inv M S (Granting t) \<sigma>'"
      using t o box(1) free
      by (intro mutex_inv_server [OF inv, where q = "granted t" and ev = "[Got M t]"]) (auto simp: \<sigma>')
    then show ?thesis ..
  next
    case waiting
    note s = mutex_served_ne [OF inv, of s]
    have "s \<noteq> ANYMESSAGE" using s waiting(1) by simp
    then have st: "s = t" using box(2) by (simp add: accepts_def)
    have \<sigma>': "\<sigma>' = \<sigma>\<lparr>inbox := (inbox \<sigma>)(M := xs @ ys), trace := Got M t # trace \<sigma>,
        shared := running M (shared \<sigma>), threads := (threads \<sigma>)(M := Some (Ret ()))\<rparr>"
      using r unfolding waiting by (simp add: resume_def stored_def)
    have "rel Free t (phase_of M t (trace \<sigma>)) (messages_from t (xs @ ys)) (messages_from M (inbox \<sigma> t))"
      using rl c waiting(1) st by (auto simp: rel_def)
    then have "mutex_inv M S Free \<sigma>'"
      using t o box(1) waiting(1) st set
      by (intro mutex_inv_server [OF inv, where q = "Ret ()" and ev = "[Got M t]"]) (auto simp: \<sigma>' setting_def)
    then show ?thesis ..
  qed
qed

lemma server_starts:
  assumes inv: "mutex_inv M S pos \<sigma>" and th: "threads \<sigma> M = Some q" "q = Ret () \<or> (\<exists>c. q = Jump c)"
    and r: "resume M mutex (shared \<sigma>) \<sigma> = Some \<sigma>'"
  shows "mutex_inv M S Free \<sigma>'"
proof -
  have m: "mutex_at pos q" using inv th(1) unfolding mutex_inv_def by auto
  have pos: "pos = Free" using m th(2) by (cases pos) (auto simp: granted_def await_def)
  have set: "setting M S (shared \<sigma>)" using inv by (simp add: mutex_inv_def)
  have \<sigma>': "\<sigma>' = \<sigma>\<lparr>shared := running M (shared \<sigma>), threads := (threads \<sigma>)(M := Some mutex)\<rparr>"
    using r by (simp add: resume_def mutex_eq)
  show ?thesis
    using set pos by (intro mutex_inv_server [OF inv, where q = mutex and ev = "[]"]) (auto simp: \<sigma>' setting_def)
qed

section \<open>Every runs_to state\<close>

text \<open>The code the processes run: the mutex process its loop, the others programs that follow the
  protocol.  The rest of the machine leaves the mutex alone and lets no user process name the mutex
  process.\<close>

definition disciplined :: "ptr \<Rightarrow> ptr \<Rightarrow> (ptr \<Rightarrow> unit prog set) \<Rightarrow> bool" where
  "disciplined M S H \<longleftrightarrow> H M = {mutex} \<and>
     (\<forall>p h w. p \<noteq> M \<longrightarrow> h \<in> H p \<longrightarrow> ok M S p Idle w \<longrightarrow> follows M S p (\<lambda>ph _ _. ph = Idle) Idle h w)"

definition aloof :: "ptr \<Rightarrow> (world \<Rightarrow> world \<Rightarrow> bool) \<Rightarrow> bool" where
  "aloof M R \<longleftrightarrow> (\<forall>w w'. R w w' \<longrightarrow> mutexSender w' = mutexSender w \<and> mutexRecv w' = mutexRecv w \<and>
     ssi_pcb (nuc w') = ssi_pcb (nuc w) \<and> (polite M w \<longrightarrow> polite M w'))"

lemma mutex_inv_step:
  assumes st: "system_step H R \<sigma> \<sigma>'" and inv: "mutex_inv M S pos \<sigma>" and H: "disciplined M S H" and R: "aloof M R"
  shows "\<exists>pos'. mutex_inv M S pos' \<sigma>'"
  using st inv
proof cases
  case (sends p d v k)
  let ?b = "(inbox \<sigma>)(d := inbox \<sigma> d @ [(p, v)])"
  show ?thesis
    using server_sends [OF inv, of d v k ?b 0] client_sends [OF inv _ sends(1) _ sends(3)] sends(1,3)
    by (cases "p = M") blast+
next
  case (send_fails p d v k r)
  have "resume p (k r) (shared \<sigma>) (\<sigma>\<lparr>inbox := inbox \<sigma>, trace := Sent p d # trace \<sigma>\<rparr>) = Some \<sigma>'" using send_fails(3) by simp
  then show ?thesis
    using server_sends [OF inv, of d v k "inbox \<sigma>" r] client_sends [OF inv _ send_fails(1), of "inbox \<sigma>" r] send_fails(1)
    by (cases "p = M") blast+
next
  case (receives p s a k xs t v ys)
  show ?thesis
    using server_receives [OF inv, of s a k xs t v ys] client_receives [OF inv _ receives(1-3)] receives by (cases "p = M") auto
next
  case (answered p v)
  have S: "ssi_pcb (nuc (shared \<sigma>)) = S" using inv by (simp add: mutex_inv_def setting_def)
  then have p: "p \<noteq> M" using answered(2) inv by (auto simp: mutex_inv_def)
  have "S \<noteq> M" using inv unfolding mutex_inv_def by fastforce
  then have "mutex_inv M S pos \<sigma>'"
    using inv p unfolding answered(1) S mutex_inv_def by simp
  then show ?thesis ..
next
  case (starts p q h)
  have h: "p \<noteq> M \<Longrightarrow> ok M S p Idle w \<Longrightarrow> follows M S p (\<lambda>ph _ _. ph = Idle) Idle h w" for w
    using H starts(3) unfolding disciplined_def by blast
  show ?thesis
    using server_starts [OF inv, of q] client_starts [OF inv _ starts(1,2) h starts(4)] starts H
    by (cases "p = M") (auto simp: disciplined_def)
next
  case (killed p)
  have "p \<noteq> M" using killed(2) inv by (simp add: mutex_inv_def setting_def)
  then have "mutex_inv M S pos \<sigma>'" using inv unfolding killed(1) mutex_inv_def
    by (auto split: if_splits)
  then show ?thesis ..
next
  case (outside w')
  have "setting M S w'" "mutexRecv w' = mutexRecv (shared \<sigma>)"
    using R outside(2) inv unfolding aloof_def mutex_inv_def setting_def by metis+
  then have "mutex_inv M S pos \<sigma>'" using inv unfolding outside(1) mutex_inv_def by simp
  then show ?thesis ..
qed

lemma mutex_inv_reachable:
  assumes "runs_to H R \<sigma>\<^sub>0 \<sigma>" "mutex_inv M S Free \<sigma>\<^sub>0" "disciplined M S H" "aloof M R"
  shows "\<exists>pos. mutex_inv M S pos \<sigma>"
  using assms(1)
proof induction
  case start
  show ?case using assms(2) by blast
next
  case (more \<sigma> \<sigma>')
  then show ?case using mutex_inv_step assms(3,4) by blast
qed

text \<open>The state in which nothing has been said: the user processes run user code, the mutex process is at
  the start of its loop.\<close>

definition quiescent :: "ptr \<Rightarrow> ptr \<Rightarrow> system \<Rightarrow> bool" where
  "quiescent M S \<sigma> \<longleftrightarrow> setting M S (shared \<sigma>) \<and> threads \<sigma> S = None \<and> threads \<sigma> NULL = None \<and> threads \<sigma> M = Some (Ret ()) \<and>
     (\<forall>p q. p \<noteq> M \<longrightarrow> threads \<sigma> p = Some q \<longrightarrow> (\<exists>c. q = Jump c)) \<and> (\<forall>p. inbox \<sigma> p = []) \<and> trace \<sigma> = []"

lemma good_jump: "good M S p Idle (Jump c)"
  by (auto simp: good_def intro: f_jump)

lemma quiescent_inv: "quiescent M S \<sigma> \<Longrightarrow> mutex_inv M S Free \<sigma>"
  using good_jump by (fastforce simp: quiescent_def mutex_inv_def rel_def)

end
