(* ===== verification/Mutex_Runs.thy ===== *)
theory Mutex_Runs
  imports Mutex
begin

text \<open>
  Runs of a system of user processes and the mutex process: a process that faults gets the mutex, and a
  process that held it and traps later takes it away for good.
\<close>

section \<open>The code of user processes and of the mutex process\<close>

definition user_code :: "machine \<Rightarrow> (ptr \<Rightarrow> locals) \<Rightarrow> ptr \<Rightarrow> ptr \<Rightarrow> unit prog set" where
  "user_code hw L M p = (if p = M then {mutex} else {pager hw (L p), supExceptionHandler hw (L p)})"

lemma user_code_disciplined: "M \<noteq> NULL \<Longrightarrow> S \<noteq> M \<Longrightarrow> disciplined M S (user_code hw L M)"
  unfolding disciplined_def user_code_def
  by (auto intro: follows_pager follows_supExceptionHandler)

section \<open>Programs up to their calls\<close>

lemma seq_assoc: "seq (seq p q) r = seq p (\<lambda>x. seq (q x) r)"
proof (induction p)
  case (Act f)
  have "map_option (map_prod (\<lambda>p. seq p r) (\<lambda>w. w)) (map_option (map_prod (\<lambda>p. seq p q) (\<lambda>w. w)) (f w)) =
      map_option (map_prod (\<lambda>p. seq p (\<lambda>x. seq (q x) r)) (\<lambda>w. w)) (f w)" for w
  proof (cases "f w")
    case (Some x)
    obtain p w' where x: "x = (p, w')" by fastforce
    have "seq (seq p q) r = seq p (\<lambda>x. seq (q x) r)"
      by (rule Act.IH [OF rangeI [of f w]]) (auto simp: Some x intro: fsts.intros)
    then show ?thesis by (simp add: Some x)
  qed simp
  then show ?case by simp
qed simp_all

lemma settle_simps [simp]:
  "settle (seq (reads f) k) w = (case f w of None \<Rightarrow> None | Some a \<Rightarrow> settle (k a) w)"
  "settle (seq (writes g) u) w = (case g w of None \<Rightarrow> None | Some w' \<Rightarrow> settle (u ()) w')"
  "settle (seq (on_nuc h) u) w = (case h (nuc w) of None \<Rightarrow> None | Some s \<Rightarrow> settle (u ()) (w\<lparr>nuc := s\<rparr>))"
  "settle (seq (SYSCALL a b c) v) w = Some (Syscall a b c v, w)"
  by (auto simp: reads_def writes_def on_nuc_def SYSCALL_def split: option.split)

definition getsup_waits :: "locals \<Rightarrow> (ptr \<Rightarrow> 'a prog) \<Rightarrow> 'a prog" where
  "getsup_waits lv k = seq (reads (\<lambda>w. Some (ssi_pcb (nuc w)))) (\<lambda>ssi. seq (SYSCALL RECEIVEMESSAGE ssi (lv V_getsup_sup)) (\<lambda>_.
     seq (reads (\<lambda>w. Some (mem (nuc w) (lv V_getsup_sup)))) k))"

definition getsup_payload :: "locals \<Rightarrow> world \<Rightarrow> world" where
  "getsup_payload lv w = w\<lparr>nuc := (nuc w)\<lparr>ssi_payloads := (ssi_payloads (nuc w))(lv V_getsup_payload \<mapsto>
     \<lparr>service_code = GETSUPPORTPTR, arg = NULL\<rparr>)\<rparr>\<rparr>"

lemma getsup_payload_simps [simp]:
  "ssi_pcb (nuc (getsup_payload lv w)) = ssi_pcb (nuc w)" "current_process (nuc (getsup_payload lv w)) = current_process (nuc w)"
  "mutexRecv (getsup_payload lv w) = mutexRecv w"
  by (simp_all add: getsup_payload_def)

lemma stored_simps [simp]:
  "current_process (nuc (stored a v w)) = current_process (nuc w)" "mutexRecv (stored a v w) = mutexRecv w"
  "mutexSender (stored a v w) = mutexSender w" "ssi_pcb (nuc (stored a v w)) = ssi_pcb (nuc w)"
  by (simp_all add: stored_def store_def)

lemma settle_getsup:
  "settle (seq (getSupStruct lv) k) w =
     Some (Syscall SENDMESSAGE (ssi_pcb (nuc w)) (lv V_getsup_payload) (\<lambda>_. getsup_waits lv k), getsup_payload lv w)"
  by (simp add: getSupStruct_def put_payload_def ask_ssi_def seq_assoc getsup_waits_def getsup_payload_def)

lemma settle_getsup_waits:
  "settle (getsup_waits lv k) w = Some (Syscall RECEIVEMESSAGE (ssi_pcb (nuc w)) (lv V_getsup_sup)
     (\<lambda>_. seq (reads (\<lambda>w. Some (mem (nuc w) (lv V_getsup_sup)))) k), w)"
  by (simp add: getsup_waits_def)

text \<open>What later steps need of the state.\<close>

definition same_spaces :: "world \<Rightarrow> world \<Rightarrow> bool" where
  "same_spaces w w' \<longleftrightarrow> supports (nuc w') = supports (nuc w) \<and> pcbs (nuc w') = pcbs (nuc w) \<and> swapPoolTable w' = swapPoolTable w \<and>
     mutexSender w' = mutexSender w \<and> ssi_pcb (nuc w') = ssi_pcb (nuc w)"

lemma same_spaces_simps [simp]:
  "same_spaces w w" "same_spaces w (running p w') = same_spaces w w'" "same_spaces w (getsup_payload lv w') = same_spaces w w'"
  "same_spaces w (stored a v w') = same_spaces w w'" "same_spaces w (w'\<lparr>mutexRecv := r\<rparr>) = same_spaces w w'"
  by (simp_all add: same_spaces_def running_def getsup_payload_def stored_def store_def)

section \<open>Runs\<close>

lemma runs_trans: "runs_to H R b c \<Longrightarrow> runs_to H R a b \<Longrightarrow> runs_to H R a c"
  by (induction rule: runs_to.induct) (auto intro: runs_to.intros)

lemma runs_step: "system_step H R a b \<Longrightarrow> runs_to H R a b"
  by (blast intro: runs_to.intros)

lemma resume_eq:
  "settle q (running p w) = Some (q', w') \<Longrightarrow>
     resume p q w \<sigma> = Some (\<sigma>\<lparr>shared := w', threads := (threads \<sigma>)(p := if is_kill q' w' then None else Some q')\<rparr>)"
  by (simp add: resume_def)

text \<open>A handler that first asks for its support structure gets it from the SSI.\<close>

lemma run_getsup:
  assumes th: "threads \<sigma> p = Some q" "q = Ret () \<or> (\<exists>c. q = Jump c)" and h: "seq (getSupStruct lv) k \<in> H p"
    and p: "inbox \<sigma> p = []" "p \<noteq> S" "S = ssi_pcb (nuc (shared \<sigma>))" "lv V_getsup_sup \<noteq> 0" "S \<noteq> NULL"
    and k: "\<And>w. same_spaces (shared \<sigma>) w \<Longrightarrow> current_process (nuc w) = p \<Longrightarrow> mutexRecv w = mutexRecv (shared \<sigma>) \<Longrightarrow>
       \<exists>q' w'. settle (k spt) w = Some (q', w') \<and> G q' w'"
  shows "\<exists>\<sigma>' q' w'. runs_to H R \<sigma> \<sigma>' \<and> G q' w' \<and> shared \<sigma>' = w' \<and>
    threads \<sigma>' = (threads \<sigma>)(p := if is_kill q' w' then None else Some q') \<and>
    (\<forall>r. r \<noteq> S \<longrightarrow> inbox \<sigma>' r = inbox \<sigma> r) \<and> trace \<sigma>' = Got p S # Sent p S # trace \<sigma>"
proof -
  let ?k2 = "getsup_waits lv k" and ?k3 = "seq (reads (\<lambda>w. Some (mem (nuc w) (lv V_getsup_sup)))) k"
  let ?w1 = "getsup_payload lv (running p (shared \<sigma>))"
  let ?\<sigma>1 = "\<sigma>\<lparr>shared := ?w1, threads := (threads \<sigma>)(p := Some (Syscall SENDMESSAGE S (lv V_getsup_payload) (\<lambda>_. ?k2)))\<rparr>"
  have "resume p (seq (getSupStruct lv) k) (shared \<sigma>) \<sigma> = Some ?\<sigma>1"
    unfolding resume_eq [OF settle_getsup] by (simp add: p(3) running_def getsup_payload_def)
  then have 1: "system_step H R \<sigma> ?\<sigma>1" by (rule system_step.starts [where H = H and p = p, OF th h])
  have S1: "ssi_pcb (nuc ?w1) = S" by (simp add: p(3) running_def getsup_payload_def)
  let ?w2 = "running p ?w1"
  let ?\<sigma>2 = "?\<sigma>1\<lparr>inbox := (inbox \<sigma>)(S := inbox \<sigma> S @ [(p, lv V_getsup_payload)]), trace := Sent p S # trace \<sigma>, shared := ?w2,
     threads := (threads \<sigma>)(p := Some (Syscall RECEIVEMESSAGE S (lv V_getsup_sup) (\<lambda>_. ?k3)))\<rparr>"
  have 2: "system_step H R ?\<sigma>1 ?\<sigma>2"
    by (rule system_step.sends [where p = p and d = S and v = "lv V_getsup_payload" and k = "\<lambda>_. ?k2"])
      (simp_all add: p(3) [symmetric] resume_eq [OF settle_getsup_waits])
  have S2: "ssi_pcb (nuc ?w2) = S" by (simp add: p(3) running_def getsup_payload_def)
  let ?\<sigma>3 = "?\<sigma>2\<lparr>inbox := (inbox ?\<sigma>2)(p := [(S, spt)])\<rparr>"
  have 3: "system_step H R ?\<sigma>2 ?\<sigma>3"
    using system_step.answered [of p ?\<sigma>2 H R spt] p(1,2) by (simp add: p(3) [symmetric])
  let ?w3 = "running p (stored (lv V_getsup_sup) spt ?w2)"
  have "same_spaces (shared \<sigma>) ?w3" "current_process (nuc ?w3) = p" "mutexRecv ?w3 = mutexRecv (shared \<sigma>)"
    by simp_all
  from k [OF this] obtain q' w' where q': "settle (k spt) ?w3 = Some (q', w')" "G q' w'" by blast
  have "mem (nuc ?w3) (lv V_getsup_sup) = spt" using p(4) by (simp add: stored_def store_def running_def)
  then have s3: "settle ?k3 (running p (stored (lv V_getsup_sup) spt ?w2)) = Some (q', w')" using q'(1) by simp
  let ?\<sigma>4 = "?\<sigma>3\<lparr>inbox := (inbox ?\<sigma>3)(p := []), trace := Got p S # Sent p S # trace \<sigma>, shared := w',
     threads := (threads \<sigma>)(p := if is_kill q' w' then None else Some q')\<rparr>"
  have 4: "system_step H R ?\<sigma>3 ?\<sigma>4"
    by (rule system_step.receives [where p = p and s = S and a = "lv V_getsup_sup" and k = "\<lambda>_. ?k3" and xs = "[]" and ys = "[]" and t = S and v = spt])
      (use p(2) in \<open>simp_all add: accepts_def resume_eq [OF s3]\<close>)
  have "runs_to H R \<sigma> ?\<sigma>4"
    using runs_step [OF 1] runs_to.more [OF runs_to.more [OF runs_to.more [OF _ 2] 3] 4] by blast
  moreover have "\<forall>r. r \<noteq> S \<longrightarrow> inbox ?\<sigma>4 r = inbox \<sigma> r" using p(1) by simp
  ultimately show ?thesis using q'(2) by (intro exI [of _ ?\<sigma>4] exI [of _ q'] exI [of _ w']) simp
qed

text \<open>The mutex process takes the only request there is and grants the mutex, to a process that may be
  gone.\<close>

lemma run_mutex:
  assumes M: "threads \<sigma> M = Some (Ret ())" "mutex \<in> H M" "inbox \<sigma> M = [(p, v)]" "p \<noteq> M" "p \<noteq> NULL"
    and S: "p \<noteq> ssi_pcb (nuc (shared \<sigma>))"
  shows "\<exists>\<sigma>'. runs_to H R \<sigma> \<sigma>' \<and> shared \<sigma>' = (running M (shared \<sigma>))\<lparr>mutexRecv := p\<rparr> \<and>
    threads \<sigma>' = (threads \<sigma>)(M := Some (await p)) \<and>
    inbox \<sigma>' = (if threads \<sigma> p = None then (inbox \<sigma>)(M := []) else (inbox \<sigma>)(M := [], p := inbox \<sigma> p @ [(M, 0)])) \<and>
    trace \<sigma>' = Sent M p # Got M p # trace \<sigma>"
proof -
  let ?w1 = "running M (shared \<sigma>)" and ?w2 = "(running M (shared \<sigma>))\<lparr>mutexRecv := p\<rparr>"
  have rr: "running M (running M w) = running M w" "running M ((running M w)\<lparr>mutexRecv := p\<rparr>) = (running M w)\<lparr>mutexRecv := p\<rparr>" for w
    by (simp_all add: running_def)
  let ?\<sigma>1 = "\<sigma>\<lparr>shared := ?w1, threads := (threads \<sigma>)(M := Some mutex)\<rparr>"
  have "resume M mutex (shared \<sigma>) \<sigma> = Some ?\<sigma>1" by (simp add: resume_def mutex_eq)
  then have 1: "system_step H R \<sigma> ?\<sigma>1" using system_step.starts [where H = H and p = M, OF M(1) _ M(2)] by simp
  let ?\<sigma>2 = "?\<sigma>1\<lparr>inbox := (inbox \<sigma>)(M := []), trace := Got M p # trace \<sigma>, shared := ?w2, threads := (threads \<sigma>)(M := Some (granted p))\<rparr>"
  have nk: "\<not> is_kill (granted p) ?w2" using S by (simp add: granted_def)
  have 2: "system_step H R ?\<sigma>1 ?\<sigma>2"
    by (rule system_step.receives [where p = M and s = ANYMESSAGE and a = 0 and k = grant and xs = "[]" and ys = "[]" and t = p and v = v])
      (use nk M(3) in \<open>simp_all add: accepts_def resume_def stored_def mutex_eq rr\<close>)
  let ?box = "if threads \<sigma> p = None then (inbox \<sigma>)(M := []) else (inbox \<sigma>)(M := [], p := inbox \<sigma> p @ [(M, 0)])"
  let ?\<sigma>3 = "?\<sigma>2\<lparr>inbox := ?box, trace := Sent M p # Got M p # trace \<sigma>, shared := ?w2, threads := (threads \<sigma>)(M := Some (await p))\<rparr>"
  have g: "resume M (await p) ?w2 \<tau> = Some (\<tau>\<lparr>shared := ?w2, threads := (threads \<tau>)(M := Some (await p))\<rparr>)" for \<tau>
    by (simp add: resume_def rr) (simp add: await_def)
  have 3: "system_step H R ?\<sigma>2 ?\<sigma>3"
  proof (cases "threads \<sigma> p = None")
    case True
    show ?thesis
      by (rule system_step.send_fails [where p = M and d = p and v = 0 and k = "\<lambda>_. await p" and r = DEST_NOT_EXIST])
        (use True g in \<open>simp_all add: granted_def\<close>)
  next
    case False
    then obtain y where y: "threads \<sigma> p = Some y" by blast
    show ?thesis
      by (rule system_step.sends [where p = M and d = p and v = 0 and k = "\<lambda>_. await p"])
        (use y g M(4) in \<open>simp_all add: granted_def\<close>)
  qed
  have "runs_to H R \<sigma> ?\<sigma>3" using runs_to.more [OF runs_to.more [OF runs_step [OF 1] 2] 3] .
  then show ?thesis by (rule exI [of _ ?\<sigma>3, OF conjI]) simp
qed

text \<open>The pager of a process up to its request for the mutex, and the rest.\<close>

definition fault_work :: "machine \<Rightarrow> locals \<Rightarrow> ptr \<Rightarrow> unit prog" where
  "fault_work hw lv spt = seq (serve_fault hw lv spt) (\<lambda>_. seq (reads (\<lambda>w. Some (mutexSender w))) (\<lambda>m.
     seq (SYSCALL SENDMESSAGE m 0) (\<lambda>_. seq (reads (exc_state_of PGFAULTEXCEPT spt)) (\<lambda>supState. Jump (LDST supState)))))"

definition mutex_waits :: "machine \<Rightarrow> locals \<Rightarrow> ptr \<Rightarrow> unit prog" where
  "mutex_waits hw lv spt = seq (reads (\<lambda>w. Some (mutexSender w))) (\<lambda>m. seq (SYSCALL RECEIVEMESSAGE m 0) (\<lambda>_. fault_work hw lv spt))"

definition pager_asks :: "machine \<Rightarrow> locals \<Rightarrow> ptr \<Rightarrow> unit prog" where
  "pager_asks hw lv spt = seq (reads (exc_state_of PGFAULTEXCEPT spt)) (\<lambda>supState.
     seq (if get_exccode hw (cause supState) = TLBINVLDM then programTrapHandler lv else Ret ()) (\<lambda>_.
     seq (reads (\<lambda>w. Some (mutexSender w))) (\<lambda>m. seq (SYSCALL SENDMESSAGE m 0) (\<lambda>_. mutex_waits hw lv spt))))"

lemma pager_eq: "pager hw lv = seq (getSupStruct lv) (pager_asks hw lv)"
  by (simp add: pager_def pager_asks_def [abs_def] mutex_waits_def fault_work_def askMutex_def seq_assoc)

lemma settle_pager_asks:
  assumes "supports (nuc w) spt = Some u" "get_exccode hw (cause (sup_exceptState u PGFAULTEXCEPT)) \<noteq> TLBINVLDM"
  shows "settle (pager_asks hw lv spt) w = Some (Syscall SENDMESSAGE (mutexSender w) 0 (\<lambda>_. mutex_waits hw lv spt), w)"
  using assms by (simp add: pager_asks_def exc_state_of_def)

lemma settle_mutex_waits:
  "settle (mutex_waits hw lv spt) w = Some (Syscall RECEIVEMESSAGE (mutexSender w) 0 (\<lambda>_. fault_work hw lv spt), w)"
  by (simp add: mutex_waits_def)

lemma settle_fault_work:
  assumes "supports (nuc w) spt = Some u" "page_index (get_vpn hw) (entry_hi (sup_exceptState u PGFAULTEXCEPT)) = Some n"
    and "pool_ok w" "i < 16" "\<not> occupied w i"
  shows "\<exists>q w'. settle (fault_work hw lv spt) w = Some (q, w')"
proof -
  have "\<exists>i < 16. \<not> occupied w i" using assms(4,5) by blast
  note pk = pick_frame_free [OF assms(3) this]
  let ?i = "LEAST i. \<not> occupied w i"
  have l: "\<not> occupied w ?i" "?i < 16" using LeastI [of "\<lambda>i. \<not> occupied w i", OF assms(5)] Least_le [of "\<lambda>i. \<not> occupied w i", OF assms(5)] assms(4) by auto
  then have f: "isFrameFree (int ?i) w = Some True" using assms(3) by (simp add: isFrameFree_def pool_ok_def occupied_def)
  show ?thesis
    using assms(1,2) pk f
    by (simp add: fault_work_def serve_fault_def seq_assoc exc_state_of_def flashOp_def put_payload_def ask_ssi_def Let_def)
qed

text \<open>A process that faults while nothing else happens gets the mutex.\<close>

lemma run_fault:
  assumes qu: "quiescent M S \<sigma>" and th: "threads \<sigma> p = Some (Jump c)" and p: "p \<noteq> M" "S \<noteq> NULL" "L p V_getsup_sup \<noteq> 0"
    and u: "supports (nuc (shared \<sigma>)) spt = Some u" "get_exccode hw (cause (sup_exceptState u PGFAULTEXCEPT)) \<noteq> TLBINVLDM"
      "page_index (get_vpn hw) (entry_hi (sup_exceptState u PGFAULTEXCEPT)) = Some n"
    and pool: "pool_ok (shared \<sigma>)" "i < 16" "\<not> occupied (shared \<sigma>) i"
  shows "\<exists>\<sigma>'. runs_to (user_code hw L M) R \<sigma> \<sigma>' \<and> phase_of M p (trace \<sigma>') = Inside"
proof -
  let ?H = "user_code hw L M" and ?lv = "L p" and ?w = "shared \<sigma>"
  have qs: "mutexSender ?w = M" "ssi_pcb (nuc ?w) = S" "threads \<sigma> S = None" "threads \<sigma> NULL = None" "threads \<sigma> M = Some (Ret ())"
    "trace \<sigma> = []" and inb: "\<And>r. inbox \<sigma> r = []"
    using qu by (simp_all add: quiescent_def setting_def)
  have pS: "p \<noteq> S" "p \<noteq> NULL" "M \<noteq> S" "M \<noteq> NULL" using th qs by auto
  have H: "seq (getSupStruct ?lv) (pager_asks hw ?lv) \<in> ?H p" using p(1) by (simp add: user_code_def pager_eq)
  let ?G = "\<lambda>q' w'. q' = Syscall SENDMESSAGE M 0 (\<lambda>_. mutex_waits hw ?lv spt) \<and> same_spaces ?w w'"
  have k: "\<exists>q' w'. settle (pager_asks hw ?lv spt) w = Some (q', w') \<and> ?G q' w'"
    if "same_spaces ?w w" "current_process (nuc w) = p" "mutexRecv w = mutexRecv ?w" for w
    using settle_pager_asks [of w spt u hw ?lv] that(1) u qs(1) by (simp add: same_spaces_def)
  obtain \<sigma>1 q1 w1 where r1: "runs_to ?H R \<sigma> \<sigma>1" "q1 = Syscall SENDMESSAGE M 0 (\<lambda>_. mutex_waits hw ?lv spt)" "same_spaces ?w w1"
    "shared \<sigma>1 = w1" "threads \<sigma>1 = (threads \<sigma>)(p := if is_kill q1 w1 then None else Some q1)"
    "\<forall>r. r \<noteq> S \<longrightarrow> inbox \<sigma>1 r = inbox \<sigma> r" "trace \<sigma>1 = Got p S # Sent p S # trace \<sigma>"
    using run_getsup [where G = ?G and H = ?H and R = R and k = "pager_asks hw ?lv" and p = p and spt = spt,
      OF th disjI2 [OF exI [of _ c, OF refl]] H inb pS(1) qs(2) [symmetric] p(3,2) k] by blast
  have w1: "mutexSender w1 = M" "ssi_pcb (nuc w1) = S" using r1(3) qs by (simp_all add: same_spaces_def)
  then have t1: "threads \<sigma>1 = (threads \<sigma>)(p := Some q1)" using r1(2,5) pS(3) by simp
  let ?w2 = "running p w1"
  let ?\<sigma>2 = "\<sigma>1\<lparr>inbox := (inbox \<sigma>1)(M := [(p, 0)]), trace := Sent p M # trace \<sigma>1, shared := ?w2,
     threads := (threads \<sigma>1)(p := Some (Syscall RECEIVEMESSAGE M 0 (\<lambda>_. fault_work hw ?lv spt)))\<rparr>"
  have "inbox \<sigma>1 M = []" using r1(6) pS(3) inb by simp
  then have 2: "system_step ?H R \<sigma>1 ?\<sigma>2"
    using w1 qs p(1) r1(2,4)
    by (intro system_step.sends [where p = p and d = M and v = 0 and k = "\<lambda>_. mutex_waits hw ?lv spt"])
      (simp_all add: t1 resume_eq [OF settle_mutex_waits])
  have "threads ?\<sigma>2 M = Some (Ret ())" "mutex \<in> ?H M" "inbox ?\<sigma>2 M = [(p, 0)]" "p \<noteq> ssi_pcb (nuc (shared ?\<sigma>2))"
    using t1 qs p(1) w1 pS by (simp_all add: user_code_def)
  from run_mutex [where \<sigma> = ?\<sigma>2 and M = M and H = ?H and R = R, OF this(1,2,3) p(1) pS(2) this(4)] obtain \<sigma>3 where
    r3: "runs_to ?H R ?\<sigma>2 \<sigma>3" "shared \<sigma>3 = (running M ?w2)\<lparr>mutexRecv := p\<rparr>" "threads \<sigma>3 = (threads ?\<sigma>2)(M := Some (await p))"
    "inbox \<sigma>3 p = inbox ?\<sigma>2 p @ [(M, 0)]" "trace \<sigma>3 = Sent M p # Got M p # trace ?\<sigma>2"
    using p(1) by auto
  have i3: "inbox \<sigma>3 p = [(M, 0)]" using r3(4) p(1) r1(6) pS(1) inb by simp
  let ?w4 = "running p (stored 0 0 (shared \<sigma>3))"
  have "same_spaces ?w ?w4" using r1(3) by (simp add: r3(2) same_spaces_def running_def stored_def)
  then have "supports (nuc ?w4) spt = Some u" "pool_ok ?w4" "\<not> occupied ?w4 i"
    using u(1) pool by (simp_all add: same_spaces_def pool_ok_def occupied_def)
  from settle_fault_work [OF this(1) u(3) this(2) pool(2) this(3), of ?lv] obtain q4 w4 where
    4: "settle (fault_work hw ?lv spt) ?w4 = Some (q4, w4)" by blast
  let ?\<sigma>4 = "\<sigma>3\<lparr>inbox := (inbox \<sigma>3)(p := []), trace := Got p M # trace \<sigma>3, shared := w4,
     threads := (threads \<sigma>3)(p := if is_kill q4 w4 then None else Some q4)\<rparr>"
  have "system_step ?H R \<sigma>3 ?\<sigma>4"
    by (rule system_step.receives [where p = p and s = M and a = 0 and k = "\<lambda>_. fault_work hw ?lv spt" and xs = "[]" and ys = "[]" and t = M and v = 0])
      (use p(1) i3 in \<open>simp_all add: r3(3) accepts_def resume_eq [OF 4]\<close>)
  then have "runs_to ?H R \<sigma> ?\<sigma>4"
    using runs_to.more [OF runs_trans [OF r3(1) runs_to.more [OF r1(1) 2]]] by blast
  moreover have "phase_of M p (trace ?\<sigma>4) = Inside" by simp
  ultimately show ?thesis by blast
qed

section \<open>A trap after the release\<close>

lemma settle_each:
  "each g xs w = Some w' \<Longrightarrow> settle (seq (for_each xs (\<lambda>x. writes (g x))) k) w = settle (k ()) w'"
  by (induction xs arbitrary: w) (auto simp: seq_assoc split: bind_splits)

definition trap_ends :: "locals \<Rightarrow> (unit \<Rightarrow> unit prog) \<Rightarrow> unit prog" where
  "trap_ends lv k = seq (sendKillReq lv NULL) k"

definition sup_rest :: "machine \<Rightarrow> locals \<Rightarrow> ptr \<Rightarrow> unit prog" where
  "sup_rest hw lv spt =
     seq (reads (exc_state_of GENERALEXCEPT spt)) (\<lambda>excState.
     seq (if get_exccode hw (cause excState) = SYSEXCEPTION then supSyscallHandler excState
          else programTrapHandler lv) (\<lambda>_.
     seq (on_nuc (upd_support spt (\<lambda>u. u\<lparr>sup_exceptState := (sup_exceptState u)(GENERALEXCEPT :=
            (sup_exceptState u GENERALEXCEPT)\<lparr>pc_epc := pc_epc (sup_exceptState u GENERALEXCEPT) + WORDLEN\<rparr>)\<rparr>))) (\<lambda>_.
     seq (reads (exc_state_of GENERALEXCEPT spt)) (\<lambda>excState.
     Jump (LDST excState)))))"

lemma sup_eq: "supExceptionHandler hw lv = seq (getSupStruct lv) (sup_rest hw lv)"
  by (simp add: supExceptionHandler_def sup_rest_def [abs_def])

lemma settle_sup_trap:
  assumes "supports (nuc w) spt = Some u" "get_exccode hw (cause (sup_exceptState u GENERALEXCEPT)) \<noteq> SYSEXCEPTION"
    and "pool_ok w" "current_pcb w = Some x" "supports (nuc w) (p_supportStruct x) = Some u'" "mutexRecv w = current_process (nuc w)"
  shows "\<exists>k. settle (sup_rest hw lv spt) w = Some (Syscall SENDMESSAGE (mutexSender w) 0 (\<lambda>_. trap_ends lv k),
     w\<lparr>swapPoolTable := map (freed (sup_asid u')) (swapPoolTable w)\<rparr>)"
proof -
  note fl = settle_each [OF frames_loop [OF assms(3-5)]]
  show ?thesis
    using assms(1,2,6) by (auto simp: sup_rest_def programTrapHandler_def exc_state_of_def seq_assoc fl trap_ends_def simp del: upt_Suc)
qed

lemma settle_trap_ends:
  "\<exists>q w'. settle (trap_ends lv k) w = Some (q, w') \<and> is_kill q w' \<and> same_spaces w w' \<and> mutexRecv w' = mutexRecv w"
  by (simp add: trap_ends_def sendKillReq_def put_payload_def ask_ssi_def seq_assoc same_spaces_def)

definition stuck :: "ptr \<Rightarrow> ptr \<Rightarrow> ptr \<Rightarrow> system \<Rightarrow> bool" where
  "stuck M S p \<sigma> \<longleftrightarrow> mutex_inv M S (Waiting p) \<sigma> \<and> threads \<sigma> p = None \<and> messages_from p (inbox \<sigma> M) = 0 \<and>
     phase_of M p (trace \<sigma>) \<noteq> Inside"

lemma resume_others: "resume p q w \<sigma> = Some \<sigma>' \<Longrightarrow> r \<noteq> p \<Longrightarrow> threads \<sigma>' r = threads \<sigma> r"
  by (auto simp: resume_def)

lemma resume_keeps: "resume p q w \<sigma> = Some \<sigma>' \<Longrightarrow> inbox \<sigma>' = inbox \<sigma> \<and> trace \<sigma>' = trace \<sigma>"
  by (auto simp: resume_def)

lemma no_message: "messages_from p (xs @ (t, v) # ys) = 0 \<Longrightarrow> t \<noteq> p"
  by auto

lemma stuck_step:
  assumes st: "system_step H R \<sigma> \<sigma>'" and s: "stuck M S p \<sigma>" and H: "disciplined M S H" and R: "aloof M R"
  shows "stuck M S p \<sigma>'"
proof -
  have inv: "mutex_inv M S (Waiting p) \<sigma>" and d: "threads \<sigma> p = None" "messages_from p (inbox \<sigma> M) = 0" "phase_of M p (trace \<sigma>) \<noteq> Inside"
    using s by (auto simp: stuck_def)
  have M: "threads \<sigma> M = Some (await p)" and p: "p \<noteq> M" "p \<noteq> S" "p \<noteq> NULL" and S: "ssi_pcb (nuc (shared \<sigma>)) = S"
    using inv by (auto simp: mutex_inv_def setting_def)
  have "threads \<sigma>' M = Some (await p) \<and> threads \<sigma>' p = None \<and> messages_from p (inbox \<sigma>' M) = 0 \<and> phase_of M p (trace \<sigma>') \<noteq> Inside"
    using st
  proof cases
    case (sends q d v k)
    then have "q \<noteq> p" "q \<noteq> M" using d(1) M by (auto simp: await_def)
    then show ?thesis using resume_others [OF sends(3)] resume_keeps [OF sends(3)] d M by auto
  next
    case (send_fails q d v k r)
    then have "q \<noteq> p" "q \<noteq> M" using d(1) M by (auto simp: await_def)
    then show ?thesis using resume_others [OF send_fails(3)] resume_keeps [OF send_fails(3)] d M by auto
  next
    case (receives q s a k xs t v ys)
    have q: "q \<noteq> p" using receives(1) d(1) by auto
    have "q \<noteq> M"
    proof
      assume qM: "q = M"
      then have "s = p" using receives(1) M by (simp add: await_def)
      then have "t = p" using receives(3) p by (simp add: accepts_def)
      moreover have "messages_from p (xs @ (t, v) # ys) = 0" using d(2) receives(2) unfolding qM by metis
      ultimately show False using no_message by blast
    qed
    then show ?thesis using q resume_others [OF receives(5)] resume_keeps [OF receives(5)] d M by auto
  next
    case (answered q v)
    then show ?thesis using d M p S by auto
  next
    case (starts q r h)
    then have "q \<noteq> p" "q \<noteq> M" using d(1) M by (auto simp: await_def)
    then show ?thesis using resume_others [OF starts(4)] resume_keeps [OF starts(4)] d M by auto
  next
    case (killed q)
    have "q \<noteq> M" using killed(2) inv by (simp add: mutex_inv_def setting_def)
    then show ?thesis unfolding killed(1) using d M by simp
  next
    case (outside w')
    then show ?thesis using d M by simp
  qed
  moreover obtain pos where pos: "mutex_inv M S pos \<sigma>'" using mutex_inv_step [OF st inv H R] by blast
  moreover have "pos = Waiting p"
    using pos calculation(1) p(3) unfolding mutex_inv_def by (cases pos) (auto simp: await_def granted_def mutex_eq)
  ultimately show ?thesis by (simp add: stuck_def)
qed

lemma stuck_for_ever:
  "runs_to H R \<sigma> \<sigma>' \<Longrightarrow> stuck M S p \<sigma> \<Longrightarrow> disciplined M S H \<Longrightarrow> aloof M R \<Longrightarrow> stuck M S p \<sigma>'"
  by (induction rule: runs_to.induct) (auto intro: stuck_step)

lemma stuck_thread: "stuck M S p \<sigma> \<Longrightarrow> threads \<sigma> M = Some (await p) \<and> threads \<sigma> p = None"
  by (auto simp: stuck_def mutex_inv_def)

lemma stuck_nobody: "stuck M S p \<sigma> \<Longrightarrow> q \<noteq> M \<Longrightarrow> phase_of M q (trace \<sigma>) \<noteq> Inside"
  using inside_served(1) [of M S "Waiting p" \<sigma> q] by (auto simp: stuck_def)

text \<open>A process that was the last to hold the mutex traps while it is free.\<close>

lemma run_stale:
  assumes inv: "mutex_inv M S Free \<sigma>" and qu: "threads \<sigma> M = Some (Ret ())" "inbox \<sigma> M = []" "inbox \<sigma> p = []"
    and th: "threads \<sigma> p = Some (Jump c)" and p: "p \<noteq> M" "S \<noteq> NULL" "L p V_getsup_sup \<noteq> 0" and last: "mutexRecv (shared \<sigma>) = p"
    and u: "supports (nuc (shared \<sigma>)) spt = Some u" "get_exccode hw (cause (sup_exceptState u GENERALEXCEPT)) \<noteq> SYSEXCEPTION"
    and x: "pcbs (nuc (shared \<sigma>)) p = Some x" "p_supportStruct x = spt" and pool: "pool_ok (shared \<sigma>)"
    and R: "aloof M R"
  shows "\<exists>\<sigma>'. runs_to (user_code hw L M) R \<sigma> \<sigma>' \<and> stuck M S p \<sigma>'"
proof -
  let ?H = "user_code hw L M" and ?lv = "L p" and ?w = "shared \<sigma>"
  have qs: "mutexSender ?w = M" "ssi_pcb (nuc ?w) = S" "threads \<sigma> S = None" "threads \<sigma> NULL = None"
    using inv by (auto simp: mutex_inv_def setting_def)
  have pS: "p \<noteq> S" "p \<noteq> NULL" "M \<noteq> S" "M \<noteq> NULL" using th qs qu(1) by auto
  have H: "seq (getSupStruct ?lv) (sup_rest hw ?lv) \<in> ?H p" using p(1) by (simp add: user_code_def sup_eq)
  let ?G = "\<lambda>q' w'. \<exists>k. q' = Syscall SENDMESSAGE M 0 (\<lambda>_. trap_ends ?lv k) \<and> mutexSender w' = M \<and> ssi_pcb (nuc w') = S"
  have k: "\<exists>q' w'. settle (sup_rest hw ?lv spt) w = Some (q', w') \<and> ?G q' w'"
    if "same_spaces ?w w" "current_process (nuc w) = p" "mutexRecv w = mutexRecv ?w" for w
  proof -
    have "current_pcb w = Some x" "supports (nuc w) spt = Some u" "supports (nuc w) (p_supportStruct x) = Some u"
      "pool_ok w" "mutexRecv w = current_process (nuc w)"
      using that x u pool last by (simp_all add: same_spaces_def current_pcb_def pool_ok_def)
    from settle_sup_trap [OF this(2) u(2) this(4,1,3,5), of ?lv] that(1) qs show ?thesis by (auto simp: same_spaces_def)
  qed
  obtain \<sigma>1 q1 w1 k1 where r1: "runs_to ?H R \<sigma> \<sigma>1" "q1 = Syscall SENDMESSAGE M 0 (\<lambda>_. trap_ends ?lv k1)"
    "mutexSender w1 = M" "ssi_pcb (nuc w1) = S"
    "shared \<sigma>1 = w1" "threads \<sigma>1 = (threads \<sigma>)(p := if is_kill q1 w1 then None else Some q1)"
    "\<forall>r. r \<noteq> S \<longrightarrow> inbox \<sigma>1 r = inbox \<sigma> r"
    using run_getsup [where G = ?G and H = ?H and R = R and k = "sup_rest hw ?lv" and p = p and spt = spt,
      OF th disjI2 [OF exI [of _ c, OF refl]] H qu(3) pS(1) qs(2) [symmetric] p(3,2) k] by blast
  have t1: "threads \<sigma>1 = (threads \<sigma>)(p := Some q1)" using r1(2,4,6) pS(3) by simp
  from settle_trap_ends [of ?lv k1 "running p w1"] obtain q2 w2 where
    2: "settle (trap_ends ?lv k1) (running p w1) = Some (q2, w2)" "is_kill q2 w2" "same_spaces (running p w1) w2" by blast
  have w2: "mutexSender w2 = M" "ssi_pcb (nuc w2) = S" using 2(3) r1(3,4) by (simp_all add: same_spaces_def)
  let ?\<sigma>2 = "\<sigma>1\<lparr>inbox := (inbox \<sigma>1)(M := [(p, 0)]), trace := Sent p M # trace \<sigma>1, shared := w2, threads := (threads \<sigma>1)(p := None)\<rparr>"
  have "inbox \<sigma>1 M = []" using r1(7) pS(3) qu(2) by simp
  then have s2: "system_step ?H R \<sigma>1 ?\<sigma>2"
    using 2(2) qu(1) p(1) r1(2)
    by (intro system_step.sends [where p = p and d = M and v = 0 and k = "\<lambda>_. trap_ends ?lv k1"])
      (simp_all add: t1 r1(5) resume_eq [OF 2(1)])
  have "threads ?\<sigma>2 M = Some (Ret ())" "mutex \<in> ?H M" "inbox ?\<sigma>2 M = [(p, 0)]" "p \<noteq> ssi_pcb (nuc (shared ?\<sigma>2))"
    using t1 qu(1) p(1) w2 pS by (simp_all add: user_code_def)
  from run_mutex [where \<sigma> = ?\<sigma>2 and M = M and H = ?H and R = R, OF this(1,2,3) p(1) pS(2) this(4)] obtain \<sigma>3 where
    r3: "runs_to ?H R ?\<sigma>2 \<sigma>3" "threads \<sigma>3 = (threads ?\<sigma>2)(M := Some (await p))" "inbox \<sigma>3 = (inbox ?\<sigma>2)(M := [])"
    "trace \<sigma>3 = Sent M p # Got M p # trace ?\<sigma>2" by auto
  have reach: "runs_to ?H R \<sigma> \<sigma>3" by (rule runs_trans [OF r3(1) runs_to.more [OF r1(1) s2]])
  obtain pos where pos: "mutex_inv M S pos \<sigma>3"
    using mutex_inv_reachable [OF reach inv user_code_disciplined [OF pS(4)] R] pS(3) by metis
  have th3: "threads \<sigma>3 M = Some (await p)" "threads \<sigma>3 p = None" using r3(2) p(1) by auto
  have "pos = Waiting p"
    using pos th3(1) pS(2) unfolding mutex_inv_def by (cases pos) (auto simp: await_def granted_def mutex_eq)
  moreover have "phase_of M p (trace \<sigma>3) \<noteq> Inside" using p(1) by (simp add: r3(4))
  ultimately have "stuck M S p \<sigma>3" using pos th3(2) r3(3) by (simp add: stuck_def)
  then show ?thesis using reach by blast
qed

end
