(* ===== verification/Mutex_Props.thy ===== *)
theory Mutex_Props
  imports Mutex_Runs
begin

text \<open>
  The properties of the mutex of the swap pool: the handlers of user processes follow its protocol, at most
  one process holds it, a process that faults gets it, and a process that traps after having held it takes
  it away.
\<close>

section \<open>A system of one user process\<close>

abbreviation (input) uP :: ptr where "uP \<equiv> 0x20010200"
abbreviation (input) mP :: ptr where "mP \<equiv> 0x20010300"
abbreviation (input) sP :: ptr where "sP \<equiv> 0x20010000"

definition user_world :: world where
  "user_world = demo_world\<lparr>
     nuc := (nuc demo_world)\<lparr>ssi_pcb := sP, current_process := uP,
       pcbs := (pcbs (nuc demo_world))(uP \<mapsto> blank_pcb\<lparr>p_supportStruct := 0x20030000\<rparr>)\<rparr>,
     swapPoolTable := replicate 16 free_frame, mutexSender := mP, mutexRecv := uP\<rparr>"

definition user_system :: system where
  "user_system = \<lparr>shared = user_world, threads = [uP \<mapsto> Jump (LDST zero_state), mP \<mapsto> Ret ()],
     inbox = (\<lambda>_. []), trace = []\<rparr>"

lemma user_polite: "polite mP user_world"
  by (auto simp: polite_def user_world_def demo_world_def demo_image_def demo_support_def zero_state_def blank_pcb_def split: if_splits)

lemma user_quiescent: "quiescent mP sP user_system"
  using user_polite by (auto simp: quiescent_def user_system_def setting_def) (simp_all add: user_world_def)

lemma user_world_facts:
  "supports (nuc user_world) 0x20030000 = Some demo_support" "pcbs (nuc user_world) uP = Some (blank_pcb\<lparr>p_supportStruct := 0x20030000\<rparr>)"
  "pool_ok user_world" "\<not> occupied user_world 0" "mutexRecv user_world = uP"
  by (simp_all add: user_world_def demo_world_def demo_supports_def pool_ok_def occupied_def free_frame_def)

lemma user_codes: "get_exccode demo_hw (cause (sup_exceptState demo_support k)) = 0"
  by (simp add: demo_hw_def demo_support_def zero_state_def)

lemma user_entry: "page_index (get_vpn demo_hw) (entry_hi (sup_exceptState demo_support PGFAULTEXCEPT)) = Some 3"
  using demo_page by (simp add: demo_support_def)

section \<open>The protocol\<close>

text \<open>C10.  Seen from the mutex process, the pager and the handler of the other exceptions are protocols: on every
  path, whatever its calls return and whatever happens to the state between them, the process asks, waits
  for the grant before it goes on, releases once, and ends or hands back the processor outside, unless it is
  the process itself that is ended.  The process is \<open>polite\<close>: it does not name the mutex process in a system
  call of its own.\<close>

theorem handlers_follow_protocol:
  assumes "M \<noteq> NULL" "S \<noteq> M" "ok M S p Idle w"
  shows "follows M S p (\<lambda>_ _ _. False) Idle (pager hw lv) w \<and> follows M S p (\<lambda>_ _ _. False) Idle (supExceptionHandler hw lv) w"
  using follows_pager follows_supExceptionHandler assms by blast

theorem handlers_follow_protocol_witness:
  "follows mP sP uP (\<lambda>_ _ _. False) Idle (pager demo_hw demo_lv) user_world \<and>
   follows mP sP uP (\<lambda>_ _ _. False) Idle (supExceptionHandler demo_hw demo_lv) user_world"
proof (rule handlers_follow_protocol)
  show "ok mP sP uP Idle user_world" using user_polite by (simp add: ok_def user_world_def)
qed simp_all

section \<open>Mutual exclusion\<close>

text \<open>C9.  In every state that user processes and the mutex process reach, in whatever order their calls are
  served, the only process that may be between its grant and its release is the one the mutex process has
  recorded, and it is then waiting for that process.  The user processes are \<open>polite\<close>: none names the mutex
  process in a system call of its own, which the support level would pass on.\<close>

theorem mutual_exclusion:
  assumes "quiescent M S \<sigma>\<^sub>0" "aloof M R" "runs_to (user_code hw L M) R \<sigma>\<^sub>0 \<sigma>" "M \<noteq> NULL" "S \<noteq> M"
  shows "{q. q \<noteq> M \<and> phase_of M q (trace \<sigma>) = Inside} \<subseteq> {mutexRecv (shared \<sigma>)} \<and>
    (\<forall>q. q \<noteq> M \<and> phase_of M q (trace \<sigma>) = Inside \<longrightarrow> threads \<sigma> M = Some (await q))"
proof -
  obtain pos where inv: "mutex_inv M S pos \<sigma>"
    using mutex_inv_reachable [OF assms(3) quiescent_inv [OF assms(1)] user_code_disciplined [OF assms(4,5)] assms(2)] by blast
  have "threads \<sigma> M = Some (await q) \<and> mutexRecv (shared \<sigma>) = q" if "q \<noteq> M" "phase_of M q (trace \<sigma>) = Inside" for q
    using inside_served [OF inv that] inv unfolding mutex_inv_def by fastforce
  then show ?thesis by blast
qed

lemma user_fault_runs: "\<exists>\<sigma>. runs_to (user_code demo_hw (\<lambda>_. demo_lv) mP) (\<lambda>w w'. w' = w) user_system \<sigma> \<and> phase_of mP uP (trace \<sigma>) = Inside"
  using run_fault [where M = mP and S = sP and \<sigma> = user_system and p = uP and L = "\<lambda>_. demo_lv" and hw = demo_hw and i = 0 and n = 3
      and spt = "0x20030000" and u = demo_support and R = "\<lambda>w w'. w' = w" and c = "LDST zero_state",
      OF user_quiescent] user_world_facts user_codes user_entry
  by (simp add: user_system_def demo_lv_def)

lemma sole_member: "A \<subseteq> {x} \<Longrightarrow> u \<in> A \<Longrightarrow> A = {u}"
  by auto

theorem mutual_exclusion_witness:
  "\<exists>\<sigma>. runs_to (user_code demo_hw (\<lambda>_. demo_lv) mP) (\<lambda>w w'. w' = w) user_system \<sigma> \<and>
     {q. q \<noteq> mP \<and> phase_of mP q (trace \<sigma>) = Inside} = {uP} \<and> threads \<sigma> mP = Some (await uP)"
proof -
  from user_fault_runs obtain \<sigma> where s: "runs_to (user_code demo_hw (\<lambda>_. demo_lv) mP) (\<lambda>w w'. w' = w) user_system \<sigma>"
    "phase_of mP uP (trace \<sigma>) = Inside" by blast
  let ?I = "{q. q \<noteq> mP \<and> phase_of mP q (trace \<sigma>) = Inside}"
  have m: "?I \<subseteq> {mutexRecv (shared \<sigma>)} \<and>
    (\<forall>q. q \<noteq> mP \<and> phase_of mP q (trace \<sigma>) = Inside \<longrightarrow> threads \<sigma> mP = Some (await q))"
    by (rule mutual_exclusion [where S = sP, OF user_quiescent _ s(1)]) (simp_all add: aloof_def)
  have "uP \<in> ?I" using s(2) by simp
  from sole_member [OF conjunct1 [OF m] this] have "?I = {uP}" .
  moreover have "threads \<sigma> mP = Some (await uP)" using conjunct2 [OF m] s(2) by simp
  ultimately show ?thesis using s(1) by (intro exI [of _ \<sigma>] conjI)
qed

section \<open>Progress\<close>

text \<open>C11.  From a state in which nothing has been said, a process whose page fault is pending, with a frame
  free, can always be taken through its requests up to the grant of the mutex: it finds its support
  structure, asks, and the mutex process grants.\<close>

theorem faulting_process_gets_mutex:
  assumes "quiescent M S \<sigma>" "threads \<sigma> p = Some (Jump c)" "p \<noteq> M" "S \<noteq> NULL" "L p V_getsup_sup \<noteq> 0"
    "supports (nuc (shared \<sigma>)) spt = Some u" "get_exccode hw (cause (sup_exceptState u PGFAULTEXCEPT)) \<noteq> TLBINVLDM"
    "page_index (get_vpn hw) (entry_hi (sup_exceptState u PGFAULTEXCEPT)) = Some n"
    "pool_ok (shared \<sigma>)" "i < 16" "\<not> occupied (shared \<sigma>) i"
  shows "\<exists>\<sigma>'. runs_to (user_code hw L M) R \<sigma> \<sigma>' \<and> phase_of M p (trace \<sigma>') = Inside"
  by (rule run_fault) (rule assms)+

theorem faulting_process_gets_mutex_witness:
  "\<exists>\<sigma>. runs_to (user_code demo_hw (\<lambda>_. demo_lv) mP) (\<lambda>_ _. False) user_system \<sigma> \<and> phase_of mP uP (trace \<sigma>) = Inside"
  using faulting_process_gets_mutex [where M = mP and S = sP and \<sigma> = user_system and p = uP and L = "\<lambda>_. demo_lv" and hw = demo_hw
      and i = 0 and n = 3 and spt = "0x20030000" and u = demo_support and R = "\<lambda>_ _. False" and c = "LDST zero_state",
      OF user_quiescent] user_world_facts user_codes user_entry
  by (simp add: user_system_def demo_lv_def)

text \<open>C12.  \<^verbatim>\<open>mutexRecv\<close> keeps the last holder after its release.  If that process then traps while the mutex
  is free, it releases what it does not hold: the mutex process takes the message for a request, grants it
  and waits for ever for a process that is gone.  From then on no process ever gets the mutex.\<close>

theorem mutex_lost_after_trap:
  assumes "quiescent M S \<sigma>\<^sub>0" "aloof M R" "runs_to (user_code hw L M) R \<sigma>\<^sub>0 \<sigma>" "S \<noteq> NULL"
    and "threads \<sigma> M = Some (Ret ())" "inbox \<sigma> M = []" "inbox \<sigma> p = []"
    and "threads \<sigma> p = Some (Jump c)" "p \<noteq> M" "L p V_getsup_sup \<noteq> 0" "mutexRecv (shared \<sigma>) = p"
    and "supports (nuc (shared \<sigma>)) spt = Some u" "get_exccode hw (cause (sup_exceptState u GENERALEXCEPT)) \<noteq> SYSEXCEPTION"
    and "pcbs (nuc (shared \<sigma>)) p = Some x" "p_supportStruct x = spt" "pool_ok (shared \<sigma>)"
  shows "\<exists>\<sigma>'. runs_to (user_code hw L M) R \<sigma> \<sigma>' \<and> (\<forall>\<sigma>''. runs_to (user_code hw L M) R \<sigma>' \<sigma>'' \<longrightarrow>
    threads \<sigma>'' M = Some (await p) \<and> threads \<sigma>'' p = None \<and> (\<forall>q. q \<noteq> M \<longrightarrow> phase_of M q (trace \<sigma>'') \<noteq> Inside))"
proof -
  let ?H = "user_code hw L M"
  have M: "M \<noteq> NULL" "S \<noteq> M" using assms(1) by (auto simp: quiescent_def)
  note H = user_code_disciplined [OF M, of hw L]
  obtain pos where "mutex_inv M S pos \<sigma>"
    using mutex_inv_reachable [OF assms(3) quiescent_inv [OF assms(1)] H assms(2)] by blast
  then have "mutex_inv M S Free \<sigma>"
    using assms(5) by (cases pos) (auto simp: mutex_inv_def granted_def await_def)
  from run_stale [where \<sigma> = \<sigma> and M = M and S = S and p = p and L = L and hw = hw and R = R, OF this assms(5-9,4,10-16,2)] obtain \<sigma>' where s: "runs_to ?H R \<sigma> \<sigma>'" "stuck M S p \<sigma>'" by blast
  have "threads \<sigma>'' M = Some (await p) \<and> threads \<sigma>'' p = None \<and> (\<forall>q. q \<noteq> M \<longrightarrow> phase_of M q (trace \<sigma>'') \<noteq> Inside)"
    if "runs_to ?H R \<sigma>' \<sigma>''" for \<sigma>''
  proof -
    have "stuck M S p \<sigma>''" by (rule stuck_for_ever [OF that s(2) H assms(2)])
    from stuck_thread [OF this] stuck_nobody [OF this] show ?thesis by blast
  qed
  then show ?thesis using s(1) by blast
qed

theorem mutex_lost_after_trap_witness:
  "\<exists>\<sigma>'. runs_to (user_code demo_hw (\<lambda>_. demo_lv) mP) (\<lambda>_ _. False) user_system \<sigma>' \<and>
    (\<forall>\<sigma>''. runs_to (user_code demo_hw (\<lambda>_. demo_lv) mP) (\<lambda>_ _. False) \<sigma>' \<sigma>'' \<longrightarrow>
      threads \<sigma>'' mP = Some (await uP) \<and> threads \<sigma>'' uP = None \<and> (\<forall>q. q \<noteq> mP \<longrightarrow> phase_of mP q (trace \<sigma>'') \<noteq> Inside))"
proof (rule mutex_lost_after_trap [where M = mP and S = sP and p = uP and L = "\<lambda>_. demo_lv" and hw = demo_hw and R = "\<lambda>_ _. False"
      and spt = "0x20030000" and u = demo_support and c = "LDST zero_state" and x = "blank_pcb\<lparr>p_supportStruct := 0x20030000\<rparr>",
      OF user_quiescent _ runs_to.start])
qed (use user_world_facts user_codes in \<open>simp_all add: user_system_def demo_lv_def aloof_def\<close>)

end
