(* ===== verification/P2test.thy ===== *)
theory P2test
  imports Calls
begin

text \<open>
  \<^verbatim>\<open>src/phase2/p2test.c\<close>: the processes that exercise the nucleus.  Each is a program of the
  support level's language.  Global variables are words of memory at the addresses the linker gives them,
  the processor states and the support structure of p5 are structures at theirs; variables of a process
  whose addresses it passes on are at the addresses of its frame.  Empty delay loops are left out.
\<close>

abbreviation (input) SELF :: ptr where "SELF \<equiv> NULL"
abbreviation (input) START :: u32 where "START \<equiv> 0"
abbreviation (input) QPAGE :: u32 where "QPAGE \<equiv> 1024"
abbreviation (input) RECVD :: u32 where "RECVD \<equiv> 5"
abbreviation (input) TERMSTATMASK :: u32 where "TERMSTATMASK \<equiv> 0xFF"
abbreviation (input) CAUSEMASK :: u32 where "CAUSEMASK \<equiv> 0xFF"
abbreviation (input) IEPBITON :: u32 where "IEPBITON \<equiv> 0x4"
abbreviation (input) KUPBITON :: u32 where "KUPBITON \<equiv> 0x8"
abbreviation (input) KUPBITOFF :: u32 where "KUPBITOFF \<equiv> 0xFFFFFFF7"
abbreviation (input) CAUSEINTMASK :: u32 where "CAUSEINTMASK \<equiv> 0xFD00"
abbreviation (input) BUSERROR :: u32 where "BUSERROR \<equiv> 6"
abbreviation (input) RESVINSTR :: u32 where "RESVINSTR \<equiv> 10"
abbreviation (input) ADDRERROR :: u32 where "ADDRERROR \<equiv> 4"
abbreviation (input) SYSCALLEXCPT :: u32 where "SYSCALLEXCPT \<equiv> 8"
abbreviation (input) MINLOOPTIME :: int where "MINLOOPTIME \<equiv> 30000"
abbreviation (input) CLOCKINTERVAL :: u32 where "CLOCKINTERVAL \<equiv> 100000"
abbreviation (input) CLOCKLOOP :: nat where "CLOCKLOOP \<equiv> 10"
abbreviation (input) MINCLOCKLOOP :: int where "MINCLOCKLOOP \<equiv> 3000"
abbreviation (input) BADADDR :: ptr where "BADADDR \<equiv> 0xFFFFFFFF"
abbreviation (input) NOLEAVES :: nat where "NOLEAVES \<equiv> 4"

section \<open>Variables\<close>

datatype test_var =
    p2state | p3state | p4state | p5state | p6state | p7state | p8state | p8rootstate
  | child1state | child2state | gchild1state | gchild2state | gchild3state | gchild4state
  | p9state | p10state | hp_p1state | hp_p2state | printstate
  | p2pid | p3pid | p4pid | p8pid | p9pid
  | pFiveSupport | p5Stack | p1p2sync | p4inc | p5MemLocation
  | test_pcb | print_pcb | p2_pcb | p3_pcb | p4_pcb_v1 | p4_pcb_v2 | p5_pcb | p6_pcb | p7_pcb | p8_pcb
  | p8root_pcb | child1_pcb | child2_pcb | gchild1_pcb | gchild2_pcb | gchild3_pcb | gchild4_pcb
  | p9_pcb | p10_pcb
  | p4_ssi_create_process | p4_payload

datatype test_local =
    L_msg | L_do_io | L_io_payload | L_status | L_clock_payload | L_term_payload
  | L_create_arg | L_create_payload | L_create_p | L_pid_payload | L_pid | L_time_payload
  | L_cpu_t1 | L_cpu_t2 | L_sup_payload | L_sup | L_p5_create | L_p5_payload

datatype test_proc =
    F_print | F_hp_p1 | F_hp_p2 | F_p2 | F_p3 | F_p4 | F_p5 | F_p5a | F_p5b | F_p5gen | F_p5mm | F_p6 | F_p7
  | F_p8 | F_p8root | F_child1 | F_child2 | F_p8leaf1 | F_p8leaf2 | F_p8leaf3 | F_p8leaf4 | F_p9 | F_p10

text \<open>What the linker and the machine decide: where the variables, the string literals and the functions
  are, the processor state that \<^verbatim>\<open>STST\<close> stores, and which addresses trap.\<close>

record test_image =
  var :: "test_var \<Rightarrow> ptr"
  lit :: "string \<Rightarrow> ptr"
  code_of :: "test_proc \<Rightarrow> u32"
  cpu :: "world \<Rightarrow> state_t"
  traps :: "world \<Rightarrow> ptr \<Rightarrow> bool"

type_synonym frame = "test_local \<Rightarrow> ptr"

text \<open>The static data.\<close>

definition test_data :: "test_image \<Rightarrow> world \<Rightarrow> bool" where
  "test_data T w \<longleftrightarrow> mem (nuc w) (var T p1p2sync) = 0 \<and> mem (nuc w) (var T p4inc) = 1 \<and>
     mem (nuc w) (var T p5MemLocation) = 0 \<and>
     ssi_create_processes (nuc w) (var T p4_ssi_create_process) = Some \<lparr>scp_state = var T p4state, scp_support = NULL\<rparr> \<and>
     ssi_payloads (nuc w) (var T p4_payload) = Some \<lparr>service_code = CREATEPROCESS, arg = var T p4_ssi_create_process\<rparr>"

section \<open>Statements\<close>

primrec steps :: "unit prog list \<Rightarrow> unit prog" where
  "steps [] = Ret ()"
| "steps (p # ps) = seq p (\<lambda>_. steps ps)"

definition only_if :: "bool \<Rightarrow> unit prog \<Rightarrow> unit prog" where
  "only_if b p = (if b then p else Ret ())"

definition word_at :: "ptr \<Rightarrow> u32 prog" where
  "word_at a = reads (\<lambda>w. Some (mem (nuc w) a))"

definition set_word :: "ptr \<Rightarrow> u32 \<Rightarrow> unit prog" where
  "set_word a v = on_nuc (\<lambda>s. Some (store a v s))"

definition get_var :: "test_image \<Rightarrow> test_var \<Rightarrow> u32 prog" where
  "get_var T x = word_at (var T x)"

definition set_var :: "test_image \<Rightarrow> test_var \<Rightarrow> u32 \<Rightarrow> unit prog" where
  "set_var T x v = set_word (var T x) v"

text \<open>A system call on the process a variable names, whose result is not used.\<close>

definition syscall_on :: "test_image \<Rightarrow> u32 \<Rightarrow> test_var \<Rightarrow> u32 \<Rightarrow> unit prog" where
  "syscall_on T a x c = seq (get_var T x) (\<lambda>b. seq (SYSCALL a b c) (\<lambda>_. Ret ()))"

definition syscall_any :: "u32 \<Rightarrow> unit prog" where
  "syscall_any a = seq (SYSCALL a ANYMESSAGE 0) (\<lambda>_. Ret ())"

text \<open>\<^verbatim>\<open>STCK\<close>.\<close>

definition STCK :: "u32 prog" where
  "STCK = seq (reads (\<lambda>w. Some (fst (getTOD (nuc w))))) (\<lambda>t. seq (on_nuc (\<lambda>s. Some (snd (getTOD s)))) (\<lambda>_. Ret t))"

section \<open>Printing and requests\<close>

definition test_print_char :: "frame \<Rightarrow> char \<Rightarrow> unit prog" where
  "test_print_char fr c = steps [
     on_nuc (\<lambda>s. Some (s\<lparr>ssi_do_ios := (ssi_do_ios s)(fr L_do_io \<mapsto>
       \<lparr>commandAddr = TERM0ADDR + 4 * 3, commandValue = PRINTCHR OR push_bit 8 (char_word c)\<rparr>)\<rparr>)),
     put_payload (fr L_io_payload) DOIO (fr L_do_io),
     ask_ssi (fr L_io_payload) (fr L_status),
     seq (word_at (fr L_status)) (\<lambda>st. only_if (st AND TERMSTATMASK \<noteq> RECVD) (Jump PANIC))]"

primrec test_print_string :: "nat \<Rightarrow> frame \<Rightarrow> ptr \<Rightarrow> unit prog" where
  "test_print_string 0 fr s = reads (\<lambda>w. if bytes w s = EOS then Some () else None)"
| "test_print_string (Suc n) fr s = seq (reads (\<lambda>w. Some (bytes w s))) (\<lambda>c.
     if c = EOS then Ret () else seq (test_print_char fr c) (\<lambda>_. test_print_string n fr (s + 1)))"

text \<open>One round of the endless loop of the process that prints.\<close>

definition print_p2test :: "nat \<Rightarrow> frame \<Rightarrow> unit prog" where
  "print_p2test n fr =
     seq (SYSCALL RECEIVEMESSAGE ANYMESSAGE (fr L_msg)) (\<lambda>sender.
     seq (word_at (fr L_msg)) (\<lambda>s.
     seq (test_print_string n fr s) (\<lambda>_.
     seq (SYSCALL SENDMESSAGE sender 0) (\<lambda>_. Ret ()))))"

definition print_term0 :: "test_image \<Rightarrow> string \<Rightarrow> unit prog" where
  "print_term0 T s = steps [
     syscall_on T SENDMESSAGE print_pcb (lit T s),
     syscall_on T RECEIVEMESSAGE print_pcb 0]"

definition clockwait_process :: "frame \<Rightarrow> unit prog" where
  "clockwait_process fr = steps [
     put_payload (fr L_clock_payload) CLOCKWAIT NULL,
     ask_ssi (fr L_clock_payload) 0]"

definition terminate_process :: "frame \<Rightarrow> ptr \<Rightarrow> unit prog" where
  "terminate_process fr p = steps [
     put_payload (fr L_term_payload) TERMPROCESS p,
     ask_ssi (fr L_term_payload) 0]"

definition create_process_p2test :: "frame \<Rightarrow> ptr \<Rightarrow> ptr prog" where
  "create_process_p2test fr s =
     seq (on_nuc (\<lambda>n. Some (n\<lparr>ssi_create_processes := (ssi_create_processes n)
            (fr L_create_arg \<mapsto> \<lparr>scp_state = s, scp_support = NULL\<rparr>)\<rparr>))) (\<lambda>_.
     seq (put_payload (fr L_create_payload) CREATEPROCESS (fr L_create_arg)) (\<lambda>_.
     seq (ask_ssi (fr L_create_payload) (fr L_create_p)) (\<lambda>_.
     word_at (fr L_create_p))))"

text \<open>\<^verbatim>\<open>x_pcb = create_process(&xstate)\<close>.\<close>

definition create_into :: "test_image \<Rightarrow> frame \<Rightarrow> test_var \<Rightarrow> test_var \<Rightarrow> unit prog" where
  "create_into T fr p st = seq (create_process_p2test fr (var T st)) (\<lambda>v. set_var T p v)"

text \<open>A request with an argument whose answer is stored at \<open>ans\<close>.\<close>

definition request :: "ptr \<Rightarrow> u32 \<Rightarrow> u32 \<Rightarrow> ptr \<Rightarrow> unit prog" where
  "request payload code a ans = steps [put_payload payload code a, ask_ssi payload ans]"

end
