(* ===== verification/P2test_Processes.thy ===== *)
theory P2test_Processes
  imports P2test
begin

text \<open>
  The processes of \<^verbatim>\<open>src/phase2/p2test.c\<close>: the root process, which creates the others and
  checks what they leave, and the processes p2 to p10 with their subtrees and the handlers of p5.
\<close>

section \<open>The states of the processes\<close>

definition STST :: "test_image \<Rightarrow> test_var \<Rightarrow> unit prog" where
  "STST T x = writes (\<lambda>w. do {
     st \<leftarrow> states (nuc w) (var T x);
     Some (w\<lparr>nuc := (nuc w)\<lparr>states := (states (nuc w))(var T x \<mapsto> cpu T w)\<rparr>\<rparr>) })"

text \<open>\<^verbatim>\<open>x.reg_sp = y.reg_sp - k; x.pc_epc = f; x.status |= IEPBITON | CAUSEINTMASK | TEBITON;\<close>\<close>

definition start_at :: "test_image \<Rightarrow> test_var \<Rightarrow> test_var \<Rightarrow> u32 \<Rightarrow> test_proc \<Rightarrow> unit prog" where
  "start_at T x y k f = writes (\<lambda>w. do {
     sx \<leftarrow> states (nuc w) (var T x);
     sy \<leftarrow> states (nuc w) (var T y);
     Some (w\<lparr>nuc := (nuc w)\<lparr>states := (states (nuc w))(var T x \<mapsto>
       sx\<lparr>gpr := (gpr sx)(reg_sp := gpr sy reg_sp - k), pc_epc := code_of T f,
          status := status sx OR (IEPBITON OR CAUSEINTMASK OR TEBITON)\<rparr>)\<rparr>\<rparr>) })"

definition set_up :: "test_image \<Rightarrow> test_var \<Rightarrow> test_var \<Rightarrow> u32 \<Rightarrow> test_proc \<Rightarrow> unit prog" where
  "set_up T x y k f = steps [STST T x, start_at T x y k f]"

text \<open>\<^verbatim>\<open>p5Stack = p5state.reg_sp\<close>.\<close>

definition note_p5_stack :: "test_image \<Rightarrow> unit prog" where
  "note_p5_stack T = writes (\<lambda>w. do {
     st \<leftarrow> states (nuc w) (var T p5state);
     Some (w\<lparr>nuc := store (var T p5Stack) (gpr st reg_sp) (nuc w)\<rparr>) })"

definition set_up_states :: "test_image \<Rightarrow> unit prog" where
  "set_up_states T = steps [
     set_up T hp_p1state printstate QPAGE F_hp_p1,
     set_up T hp_p2state hp_p1state QPAGE F_hp_p2,
     set_up T p2state hp_p2state QPAGE F_p2,
     set_up T p3state p2state QPAGE F_p3,
     set_up T p4state p3state QPAGE F_p4,
     set_up T p5state p4state (2 * QPAGE) F_p5,
     note_p5_stack T,
     set_up T p6state p5state (2 * QPAGE) F_p6,
     set_up T p7state p6state QPAGE F_p7,
     set_up T p8state p7state QPAGE F_p8,
     set_up T p8rootstate p8state QPAGE F_p8root,
     set_up T child1state p8rootstate QPAGE F_child1,
     set_up T child2state child1state QPAGE F_child2,
     set_up T gchild1state child2state QPAGE F_p8leaf1,
     set_up T gchild2state gchild1state QPAGE F_p8leaf2,
     set_up T gchild3state gchild2state QPAGE F_p8leaf3,
     set_up T gchild4state gchild3state QPAGE F_p8leaf4,
     set_up T p9state gchild4state QPAGE F_p9,
     set_up T p10state p9state QPAGE F_p10]"

section \<open>The root process\<close>

text \<open>To the end of the first check, then the process that prints.\<close>

definition test_self :: "test_image \<Rightarrow> unit prog" where
  "test_self T =
     seq (reads (\<lambda>w. Some (current_process (nuc w)))) (\<lambda>p. steps [
     set_var T test_pcb p,
     syscall_on T SENDMESSAGE test_pcb 0,
     seq (SYSCALL RECEIVEMESSAGE ANYMESSAGE 0) (\<lambda>sender.
       seq (get_var T test_pcb) (\<lambda>t. only_if (sender \<noteq> t) (Jump PANIC)))])"

definition test_print :: "test_image \<Rightarrow> frame \<Rightarrow> unit prog" where
  "test_print T fr = steps [
     STST T printstate,
     start_at T printstate printstate QPAGE F_print,
     create_into T fr print_pcb printstate,
     seq (get_var T print_pcb) (\<lambda>p. only_if (p = NOPROC) (Jump PANIC)),
     print_term0 T ''Don't Panic.\<newline>'']"

text \<open>\<^verbatim>\<open>xpid = x_pcb->p_pid\<close>.\<close>

definition note_pid :: "test_image \<Rightarrow> test_var \<Rightarrow> test_var \<Rightarrow> unit prog" where
  "note_pid T pid p = writes (\<lambda>w. do {
     x \<leftarrow> pcbs (nuc w) (mem (nuc w) (var T p));
     Some (w\<lparr>nuc := store (var T pid) (p_pid x) (nuc w)\<rparr>) })"

definition test_p2 :: "test_image \<Rightarrow> frame \<Rightarrow> unit prog" where
  "test_p2 T fr = steps [
     create_into T fr p2_pcb p2state,
     note_pid T p2pid p2_pcb,
     seq (get_var T p2pid) (\<lambda>i. only_if (i \<noteq> 4) (print_term0 T ''ERROR: wrong p2 pid\<newline>'')),
     syscall_on T SENDMESSAGE p2_pcb START,
     syscall_on T RECEIVEMESSAGE p2_pcb 0,
     seq (get_var T p1p2sync) (\<lambda>v.
       if v = 0 then print_term0 T ''ERROR: p1/p2 synchronization bad\<newline>''
       else print_term0 T ''p1 knows p2 ended\<newline>'')]"

definition test_p3 :: "test_image \<Rightarrow> frame \<Rightarrow> unit prog" where
  "test_p3 T fr = steps [
     create_into T fr p3_pcb p3state,
     note_pid T p3pid p3_pcb,
     syscall_on T SENDMESSAGE p3_pcb START,
     syscall_on T RECEIVEMESSAGE p3_pcb 0,
     print_term0 T ''p1 knows p3 ended\<newline>'']"

text \<open>A request whose payload and answer are global variables.\<close>

definition test_p4 :: "test_image \<Rightarrow> frame \<Rightarrow> unit prog" where
  "test_p4 T fr = steps [
     seq (create_process_p2test fr (var T hp_p1state)) (\<lambda>_. Ret ()),
     seq (create_process_p2test fr (var T hp_p2state)) (\<lambda>_. Ret ()),
     ask_ssi (var T p4_payload) (var T p4_pcb_v1),
     syscall_on T RECEIVEMESSAGE p4_pcb_v1 0,
     print_term0 T ''p1 knows p4's first incarnation ended\<newline>'',
     seq (get_var T p4_pcb_v2) (\<lambda>p. seq (SYSCALL SENDMESSAGE p 0) (\<lambda>reply.
       if reply = DEST_NOT_EXIST then print_term0 T ''p1 knows p4's second incarnation ended\<newline>''
       else print_term0 T ''ERROR: p4's second incarnation still alive\<newline>''))]"

text \<open>The support structure of p5.\<close>

definition on_p5_support :: "test_image \<Rightarrow> (world \<Rightarrow> support_t \<Rightarrow> support_t) \<Rightarrow> unit prog" where
  "on_p5_support T f = writes (\<lambda>w. do {
     u \<leftarrow> supports (nuc w) (var T pFiveSupport);
     Some (w\<lparr>nuc := (nuc w)\<lparr>supports := (supports (nuc w))(var T pFiveSupport \<mapsto> f w u)\<rparr>\<rparr>) })"

definition p5_context :: "nat \<Rightarrow> u32 \<Rightarrow> u32 \<Rightarrow> support_t \<Rightarrow> support_t" where
  "p5_context e sp f u = u\<lparr>sup_exceptContext := (sup_exceptContext u)(e :=
     \<lparr>stackPtr = sp, c_status = c_status (sup_exceptContext u e) OR (IEPBITON OR CAUSEINTMASK OR TEBITON), c_pc = f\<rparr>)\<rparr>"

definition test_p5 :: "test_image \<Rightarrow> frame \<Rightarrow> unit prog" where
  "test_p5 T fr = steps [
     on_p5_support T (\<lambda>w. p5_context GENERALEXCEPT (mem (nuc w) (var T p5Stack)) (code_of T F_p5gen)),
     on_p5_support T (\<lambda>w. p5_context PGFAULTEXCEPT (mem (nuc w) (var T p5Stack)) (code_of T F_p5mm)),
     on_nuc (\<lambda>s. Some (s\<lparr>ssi_create_processes := (ssi_create_processes s)
       (fr L_p5_create \<mapsto> \<lparr>scp_state = var T p5state, scp_support = var T pFiveSupport\<rparr>)\<rparr>)),
     put_payload (fr L_p5_payload) CREATEPROCESS (fr L_p5_create),
     ask_ssi (fr L_p5_payload) (var T p5_pcb),
     syscall_on T SENDMESSAGE p5_pcb START]"

definition test_p6_p7_p8 :: "test_image \<Rightarrow> frame \<Rightarrow> unit prog" where
  "test_p6_p7_p8 T fr = steps [
     create_into T fr p6_pcb p6state,
     syscall_on T SENDMESSAGE p6_pcb START,
     create_into T fr p7_pcb p7state,
     syscall_on T SENDMESSAGE p7_pcb START,
     create_into T fr p8_pcb p8state,
     syscall_on T SENDMESSAGE p8_pcb START,
     syscall_on T RECEIVEMESSAGE p8_pcb 0,
     print_term0 T ''check p8 root and leaf\<newline>'']"

text \<open>\<^verbatim>\<open>ret = SYSCALL(SENDMESSAGE, x_pcb, 0, 0); if (ret != DEST_NOT_EXIST) print_term0(...)\<close>.\<close>

definition check_dead :: "test_image \<Rightarrow> test_var \<Rightarrow> string \<Rightarrow> unit prog" where
  "check_dead T p s = seq (get_var T p) (\<lambda>d. seq (SYSCALL SENDMESSAGE d 0) (\<lambda>ret.
     only_if (ret \<noteq> DEST_NOT_EXIST) (print_term0 T s)))"

definition test_p8root :: "test_image \<Rightarrow> frame \<Rightarrow> unit prog" where
  "test_p8root T fr = steps [
     create_into T fr p8root_pcb p8rootstate,
     note_pid T p8pid p8root_pcb,
     syscall_on T SENDMESSAGE p8root_pcb START,
     syscall_on T RECEIVEMESSAGE p8root_pcb 0,
     for_each [0..<10] (\<lambda>_. clockwait_process fr),
     check_dead T child1_pcb ''ERROR: first child should be dead\<newline>'',
     check_dead T child2_pcb ''ERROR: second child should be dead\<newline>'',
     check_dead T gchild1_pcb ''ERROR: first grandchild should be dead\<newline>'',
     check_dead T gchild2_pcb ''ERROR: second grandchild should be dead\<newline>'',
     check_dead T gchild3_pcb ''ERROR: third grandchild should be dead\<newline>'',
     check_dead T gchild4_pcb ''ERROR: fourth grandchild should be dead\<newline>'']"

text \<open>\<^verbatim>\<open>list_for_each(pos, &test_pcb->p_child) c++;\<close> with at most \<open>n\<close> nodes.\<close>

primrec count_nodes :: "nat \<Rightarrow> lh \<Rightarrow> lh \<Rightarrow> list_head \<Rightarrow> nat option" where
  "count_nodes 0 pos q h = (if pos = q then Some 0 else None)"
| "count_nodes (Suc n) pos q h = (if pos = q then Some 0 else map_option Suc (count_nodes n (nxt h pos) q h))"

definition count_children :: "ptr \<Rightarrow> sys \<Rightarrow> nat option" where
  "count_children p s = (if lh_valid s (P_CHILD p) then
     count_nodes MAXPROC (nxt (lh_mem s) (P_CHILD p)) (P_CHILD p) (lh_mem s) else None)"

definition test_p9 :: "test_image \<Rightarrow> frame \<Rightarrow> unit prog" where
  "test_p9 T fr = steps [
     create_into T fr p9_pcb p9state,
     note_pid T p9pid p9_pcb,
     syscall_on T SENDMESSAGE p9_pcb START,
     syscall_on T RECEIVEMESSAGE p9_pcb 0,
     syscall_on T RECEIVEMESSAGE p10_pcb 0,
     seq (get_var T p9_pcb) (terminate_process fr)]"

definition test_end :: "test_image \<Rightarrow> frame \<Rightarrow> unit prog" where
  "test_end T fr = steps [
     seq (reads (\<lambda>w. count_children (mem (nuc w) (var T test_pcb)) (nuc w))) (\<lambda>c.
       only_if (c > 1) (print_term0 T ''ERROR: all process child should be dead!\<newline>'')),
     print_term0 T ''A towel, it says, is about the most massively useful thing an interstellar hitchhiker can have.\<newline>'',
     terminate_process fr SELF,
     print_term0 T ''ERROR: p1 still alive after terminate\<newline>'',
     Jump PANIC]"

definition test_p2test :: "test_image \<Rightarrow> frame \<Rightarrow> unit prog" where
  "test_p2test T fr = steps [
     test_self T, test_print T fr, set_up_states T, test_p2 T fr, test_p3 T fr, test_p4 T fr, test_p5 T fr,
     test_p6_p7_p8 T fr, for_each [0..<2] (\<lambda>_. test_p8root T fr), test_p9 T fr, test_end T fr]"

section \<open>p2: synchronisation and processor time\<close>

text \<open>The scale of the clock, a signed number the code divides by.\<close>

definition over_timescale :: "int \<Rightarrow> u32 prog" where
  "over_timescale n = reads (\<lambda>w. let d = sint (mem (nuc w) TIMESCALEADDR) in
     if d = 0 then None else Some (word_of_int (sgn n * sgn d * (\<bar>n\<bar> div \<bar>d\<bar>))))"

definition p2_verdict :: "test_image \<Rightarrow> u32 \<Rightarrow> u32 \<Rightarrow> unit prog" where
  "p2_verdict T real spent =
     seq (over_timescale MINLOOPTIME) (\<lambda>least.
     if sint real \<ge> sint spent \<and> sint spent \<ge> sint least then print_term0 T ''p2 is OK\<newline>''
     else steps [
       only_if (sint real < sint spent) (print_term0 T ''ERROR: more cpu time than real time\<newline>''),
       only_if (sint spent < sint least) (print_term0 T ''ERROR: not enough cpu time went by\<newline>''),
       print_term0 T ''p2 blew it!\<newline>''])"

definition p2_times :: "test_image \<Rightarrow> frame \<Rightarrow> unit prog" where
  "p2_times T fr =
     seq STCK (\<lambda>now1.
     seq (request (fr L_time_payload) GETTIME NULL (fr L_cpu_t1)) (\<lambda>_.
     seq (ask_ssi (fr L_time_payload) (fr L_cpu_t2)) (\<lambda>_.
     seq STCK (\<lambda>now2.
     seq (word_at (fr L_cpu_t1)) (\<lambda>t1.
     seq (word_at (fr L_cpu_t2)) (\<lambda>t2.
     p2_verdict T (now2 - now1) (t2 - t1)))))))"

definition check_pid :: "test_image \<Rightarrow> frame \<Rightarrow> u32 \<Rightarrow> test_var \<Rightarrow> (bool \<Rightarrow> unit prog) \<Rightarrow> unit prog" where
  "check_pid T fr a x k =
     seq (request (fr L_pid_payload) GETPROCESSID a (fr L_pid)) (\<lambda>_.
     seq (word_at (fr L_pid)) (\<lambda>pid.
     seq (get_var T x) (\<lambda>v. k (pid = v))))"

definition finish :: "test_image \<Rightarrow> frame \<Rightarrow> string \<Rightarrow> unit prog" where
  "finish T fr s = steps [terminate_process fr SELF, print_term0 T s, Jump PANIC]"

definition p2_code :: "test_image \<Rightarrow> frame \<Rightarrow> unit prog" where
  "p2_code T fr = steps [
     syscall_on T RECEIVEMESSAGE test_pcb 0,
     print_term0 T ''p2 started correctly\<newline>'',
     check_pid T fr NULL p2pid (\<lambda>same.
       if same then print_term0 T ''p2 get pid successfully\<newline>''
       else print_term0 T ''Inconsistent process id for p2!\<newline>''),
     p2_times T fr,
     set_var T p1p2sync 1,
     syscall_on T SENDMESSAGE test_pcb 0,
     finish T fr ''ERROR: p2 didn't terminate\<newline>'']"

section \<open>p3: the clock\<close>

text \<open>\<^verbatim>\<open>while (time2 - time1 < (CLOCKINTERVAL >> 1))\<close>, an unsigned comparison, at most \<open>n\<close>
  rounds.\<close>

primrec p3_delay :: "nat \<Rightarrow> frame \<Rightarrow> u32 \<Rightarrow> u32 \<Rightarrow> unit prog" where
  "p3_delay 0 fr time1 time2 =
     (if time2 - time1 < drop_bit 1 CLOCKINTERVAL then reads (\<lambda>_. None) else Ret ())"
| "p3_delay (Suc n) fr time1 time2 =
     (if time2 - time1 < drop_bit 1 CLOCKINTERVAL then
        seq STCK (\<lambda>t1. seq (clockwait_process fr) (\<lambda>_. seq STCK (\<lambda>t2. p3_delay n fr t1 t2)))
      else Ret ())"

definition p3_times :: "test_image \<Rightarrow> frame \<Rightarrow> unit prog" where
  "p3_times T fr =
     seq (request (fr L_time_payload) GETTIME NULL (fr L_cpu_t1)) (\<lambda>_.
     seq (for_each [0..<CLOCKLOOP] (\<lambda>_. clockwait_process fr)) (\<lambda>_.
     seq (ask_ssi (fr L_time_payload) (fr L_cpu_t2)) (\<lambda>_.
     seq (word_at (fr L_cpu_t1)) (\<lambda>t1.
     seq (word_at (fr L_cpu_t2)) (\<lambda>t2.
     seq (over_timescale MINCLOCKLOOP) (\<lambda>least.
     if sint (t2 - t1) < sint least then print_term0 T ''ERROR: p3 - CPU time incorrectly maintained\<newline>''
     else print_term0 T ''p3 - CPU time correctly maintained\<newline>''))))))"

definition p3_code :: "nat \<Rightarrow> test_image \<Rightarrow> frame \<Rightarrow> unit prog" where
  "p3_code n T fr = steps [
     syscall_on T RECEIVEMESSAGE test_pcb 0,
     print_term0 T ''p3 started correctly\<newline>'',
     p3_delay n fr 0 0,
     print_term0 T ''p3 - CLOCKWAIT OK\<newline>'',
     p3_times T fr,
     check_pid T fr NULL p3pid (\<lambda>same. only_if (\<not> same) (print_term0 T ''Inconsistent process id for p3!\<newline>'')),
     syscall_on T SENDMESSAGE test_pcb 0,
     finish T fr ''ERROR: p3 didn't terminate\<newline>'']"

section \<open>p4: termination of a child\<close>

text \<open>\<^verbatim>\<open>p4state.reg_sp -= QPAGE\<close>.\<close>

definition lower_p4_stack :: "test_image \<Rightarrow> unit prog" where
  "lower_p4_stack T = writes (\<lambda>w. do {
     st \<leftarrow> states (nuc w) (var T p4state);
     Some (w\<lparr>nuc := (nuc w)\<lparr>states := (states (nuc w))(var T p4state \<mapsto>
       st\<lparr>gpr := (gpr st)(reg_sp := gpr st reg_sp - QPAGE)\<rparr>)\<rparr>\<rparr>) })"

definition p4_incarnation :: "test_image \<Rightarrow> frame \<Rightarrow> unit prog" where
  "p4_incarnation T fr = seq (get_var T p4inc) (\<lambda>inc.
     if inc = 1 then steps [print_term0 T ''first incarnation of p4 starts\<newline>'',
       seq (get_var T p4inc) (\<lambda>i. set_var T p4inc (i + 1))]
     else if inc = 2 then steps [
       syscall_on T RECEIVEMESSAGE p4_pcb_v1 0,
       print_term0 T ''second incarnation of p4 starts\<newline>'',
       syscall_on T SENDMESSAGE p4_pcb_v1 0,
       syscall_any RECEIVEMESSAGE,
       print_term0 T ''ERROR: second incarnation of p4 didn't terminate\<newline>'',
       Jump PANIC]
     else Ret ())"

definition p4_code :: "test_image \<Rightarrow> frame \<Rightarrow> unit prog" where
  "p4_code T fr = steps [
     p4_incarnation T fr,
     lower_p4_stack T,
     ask_ssi (var T p4_payload) (var T p4_pcb_v2),
     syscall_on T SENDMESSAGE p4_pcb_v2 0,
     syscall_on T RECEIVEMESSAGE p4_pcb_v2 0,
     print_term0 T ''p4 is OK\<newline>'',
     syscall_on T SENDMESSAGE test_pcb 0,
     finish T fr ''ERROR: first incarnation of p4 didn't terminate\<newline>'']"

section \<open>p5 and its handlers\<close>

definition p5_exc :: "nat \<Rightarrow> (state_t \<Rightarrow> state_t) \<Rightarrow> support_t \<Rightarrow> support_t" where
  "p5_exc e f u = u\<lparr>sup_exceptState := (sup_exceptState u)(e := f (sup_exceptState u e))\<rparr>"

definition p5_saved :: "test_image \<Rightarrow> nat \<Rightarrow> state_t prog" where
  "p5_saved T e = reads (\<lambda>w. map_option (\<lambda>u. sup_exceptState u e) (supports (nuc w) (var T pFiveSupport)))"

definition p5_resume :: "test_image \<Rightarrow> nat \<Rightarrow> unit prog" where
  "p5_resume T e = seq (p5_saved T e) (\<lambda>st. Jump (LDST st))"

definition p5sys :: "test_image \<Rightarrow> unit prog" where
  "p5sys T = steps [
     print_term0 T ''p5sys enter\<newline>'',
     seq (p5_saved T GENERALEXCEPT) (\<lambda>st.
       let p5status = drop_bit 31 (push_bit 28 (status st)) in
       if p5status = ON then print_term0 T ''ERROR: high level SYS call from USER mode process (should be in kernel mode)\<newline>''
       else if p5status = OFF then print_term0 T ''High level SYS call from kernel mode process\<newline>''
       else print_term0 T ''ERROR: p5sys cannot recognise the status\<newline>''),
     on_p5_support T (\<lambda>_. p5_exc GENERALEXCEPT (\<lambda>st. st\<lparr>pc_epc := pc_epc st + 4\<rparr>)),
     p5_resume T GENERALEXCEPT]"

definition p5gen :: "test_image \<Rightarrow> unit prog" where
  "p5gen T = seq (p5_saved T GENERALEXCEPT) (\<lambda>st.
     let exeCode = drop_bit 2 (cause st AND CAUSEMASK) in steps [
     if exeCode = BUSERROR then steps [
       print_term0 T ''Bus Error (as expected): Access non-existent memory\<newline>'',
       on_p5_support T (\<lambda>_. p5_exc GENERALEXCEPT (\<lambda>st. st\<lparr>pc_epc := code_of T F_p5a\<rparr>))]
     else if exeCode = RESVINSTR then steps [
       print_term0 T ''privileged instruction\<newline>'',
       on_p5_support T (\<lambda>_. p5_exc GENERALEXCEPT (\<lambda>st. st\<lparr>pc_epc := code_of T F_p5b\<rparr>)),
       on_p5_support T (\<lambda>_. p5_exc GENERALEXCEPT (\<lambda>st. st\<lparr>status := status st AND KUPBITOFF\<rparr>))]
     else if exeCode = ADDRERROR then steps [
       print_term0 T ''Address Error (as expected): non-kuseg access w/KU=1\<newline>'',
       on_p5_support T (\<lambda>_. p5_exc GENERALEXCEPT (\<lambda>st. st\<lparr>status := status st AND KUPBITOFF\<rparr>)),
       on_p5_support T (\<lambda>_. p5_exc GENERALEXCEPT (\<lambda>st. st\<lparr>pc_epc := code_of T F_p5b\<rparr>))]
     else if exeCode = SYSCALLEXCPT then p5sys T
     else steps [print_term0 T ''ERROR: other program trap\<newline>'', Jump PANIC],
     p5_resume T GENERALEXCEPT])"

definition p5mm :: "test_image \<Rightarrow> frame \<Rightarrow> unit prog" where
  "p5mm T fr = steps [
     print_term0 T ''memory management trap\<newline>'',
     request (fr L_sup_payload) GETSUPPORTPTR NULL (fr L_sup),
     seq (word_at (fr L_sup)) (\<lambda>a.
       if a \<noteq> var T pFiveSupport then print_term0 T ''ERROR: support structure addresses are not the same\<newline>''
       else print_term0 T ''Correct Support Structure Address\<newline>''),
     on_p5_support T (\<lambda>_. p5_exc PGFAULTEXCEPT (\<lambda>st. st\<lparr>status := status st OR KUPBITON\<rparr>)),
     on_p5_support T (\<lambda>_. p5_exc PGFAULTEXCEPT (\<lambda>st. st\<lparr>pc_epc := code_of T F_p5b\<rparr>)),
     p5_resume T PGFAULTEXCEPT]"

text \<open>A store to an address that traps does not come back: the handler of the exception decides what
  runs next.\<close>

definition store_at :: "test_image \<Rightarrow> ptr \<Rightarrow> u32 \<Rightarrow> unit prog" where
  "store_at T a v = writes (\<lambda>w. if traps T w a then None else Some (w\<lparr>nuc := store a v (nuc w)\<rparr>))"

definition load_from :: "test_image \<Rightarrow> ptr \<Rightarrow> u32 prog" where
  "load_from T a = reads (\<lambda>w. if traps T w a then None else Some (mem (nuc w) a))"

definition p5_code :: "test_image \<Rightarrow> unit prog" where
  "p5_code T = steps [
     syscall_on T RECEIVEMESSAGE test_pcb 0,
     print_term0 T ''p5 starts\<newline>'',
     seq (get_var T p5MemLocation) (\<lambda>a. seq (load_from T a) (\<lambda>v.
       seq (get_var T p5MemLocation) (\<lambda>a. store_at T a (v + 1))))]"

definition p5a :: "test_image \<Rightarrow> unit prog" where
  "p5a T = steps [
     print_term0 T ''p5a starts\<newline>'',
     set_var T p5MemLocation 0x80000000,
     seq (get_var T p5MemLocation) (\<lambda>a. store_at T a 42)]"

definition p5b :: "test_image \<Rightarrow> frame \<Rightarrow> unit prog" where
  "p5b T fr = steps [
     seq (SYSCALL 1 0 0) (\<lambda>_. Ret ()),
     print_term0 T ''p5 ok\<newline>'',
     finish T fr ''ERROR: p5 didn't terminate\<newline>'']"

section \<open>p6 to p8\<close>

definition p6_code :: "test_image \<Rightarrow> unit prog" where
  "p6_code T = steps [
     syscall_on T RECEIVEMESSAGE test_pcb 0,
     print_term0 T ''p6 starts\<newline>'',
     seq (SYSCALL 1 0 0) (\<lambda>_. Ret ()),
     print_term0 T ''ERROR: p6 alive after SYS9() with no trap vector\<newline>'',
     Jump PANIC]"

definition p7_code :: "test_image \<Rightarrow> unit prog" where
  "p7_code T = steps [
     syscall_on T RECEIVEMESSAGE test_pcb 0,
     print_term0 T ''p7 starts\<newline>'',
     store_at T BADADDR 0,
     print_term0 T ''ERROR: p7 alive after program trap with no trap vector\<newline>'',
     Jump PANIC]"

definition p8_code :: "test_image \<Rightarrow> frame \<Rightarrow> unit prog" where
  "p8_code T fr = steps [
     syscall_any RECEIVEMESSAGE,
     print_term0 T ''p8 starts\<newline>'',
     syscall_on T SENDMESSAGE p8_pcb 0,
     seq (SYSCALL RECEIVEMESSAGE ANYMESSAGE 0) (\<lambda>sender. seq (get_var T p8_pcb) (\<lambda>p.
       only_if (sender \<noteq> p) (print_term0 T ''ERROR: sender not equal to p8\<newline>''))),
     print_term0 T ''p8 ok\<newline>'',
     syscall_on T SENDMESSAGE test_pcb 0,
     finish T fr ''ERROR: p8 didn't terminate\<newline>'']"

definition p8root :: "test_image \<Rightarrow> frame \<Rightarrow> unit prog" where
  "p8root T fr = steps [
     syscall_on T RECEIVEMESSAGE test_pcb 0,
     print_term0 T ''p8root starts\<newline>'',
     create_into T fr child1_pcb child1state,
     create_into T fr child2_pcb child2state,
     for_each [0..<NOLEAVES] (\<lambda>_. syscall_any RECEIVEMESSAGE),
     syscall_on T SENDMESSAGE test_pcb 0,
     finish T fr ''ERROR: p8root didn't terminate\<newline>'']"

definition child1 :: "test_image \<Rightarrow> frame \<Rightarrow> unit prog" where
  "child1 T fr = steps [
     print_term0 T ''child1 starts\<newline>'',
     check_pid T fr 1 p8pid (\<lambda>same. only_if (\<not> same)
       (print_term0 T ''Inconsistent (parent) process id for p8's first child\<newline>'')),
     create_into T fr gchild1_pcb gchild1state,
     create_into T fr gchild2_pcb gchild2state,
     syscall_any RECEIVEMESSAGE]"

definition child2 :: "test_image \<Rightarrow> frame \<Rightarrow> unit prog" where
  "child2 T fr = steps [
     print_term0 T ''child2 starts\<newline>'',
     check_pid T fr 1 p8pid (\<lambda>same. only_if (\<not> same)
       (print_term0 T ''Inconsistent (parent) process id for p8's first child\<newline>'')),
     create_into T fr gchild3_pcb gchild3state,
     create_into T fr gchild4_pcb gchild4state,
     syscall_any RECEIVEMESSAGE]"

definition p8leaf :: "test_image \<Rightarrow> string \<Rightarrow> unit prog" where
  "p8leaf T s = steps [print_term0 T s, syscall_on T SENDMESSAGE p8root_pcb 0, syscall_any RECEIVEMESSAGE]"

definition p8leaf1 :: "test_image \<Rightarrow> unit prog" where
  "p8leaf1 T = p8leaf T ''leaf process (1) starts\<newline>''"

definition p8leaf2 :: "test_image \<Rightarrow> unit prog" where
  "p8leaf2 T = p8leaf T ''leaf process (2) starts\<newline>''"

definition p8leaf3 :: "test_image \<Rightarrow> unit prog" where
  "p8leaf3 T = p8leaf T ''leaf process (3) starts\<newline>''"

definition p8leaf4 :: "test_image \<Rightarrow> unit prog" where
  "p8leaf4 T = p8leaf T ''leaf process (4) starts\<newline>''"

section \<open>p9, p10 and the processes that run beside the others\<close>

definition p9_code :: "test_image \<Rightarrow> frame \<Rightarrow> unit prog" where
  "p9_code T fr = steps [
     syscall_any RECEIVEMESSAGE,
     print_term0 T ''p9 starts\<newline>'',
     create_into T fr p10_pcb p10state,
     syscall_on T SENDMESSAGE test_pcb 0,
     syscall_any RECEIVEMESSAGE]"

definition p10_code :: "test_image \<Rightarrow> frame \<Rightarrow> unit prog" where
  "p10_code T fr = steps [
     print_term0 T ''p10 starts\<newline>'',
     check_pid T fr 1 p9pid (\<lambda>same. only_if (\<not> same) (print_term0 T ''Inconsistent process id for p9!\<newline>'')),
     print_term0 T ''p9 and p10 ok\<newline>'',
     syscall_on T SENDMESSAGE test_pcb 0,
     finish T fr ''ERROR: p10 didn't die with its parent!\<newline>'']"

definition hp_p1 :: "test_image \<Rightarrow> frame \<Rightarrow> unit prog" where
  "hp_p1 T fr = steps [print_term0 T ''hp_p1 starts\<newline>'', finish T fr ''ERROR: hp_p1 didn't die!\<newline>'']"

definition hp_p2 :: "test_image \<Rightarrow> frame \<Rightarrow> unit prog" where
  "hp_p2 T fr = steps [
     print_term0 T ''hp_p2 starts\<newline>'',
     for_each [0..<10] (\<lambda>_. clockwait_process fr),
     finish T fr ''ERROR: hp_p2 didn't die!\<newline>'']"

end
