(* ===== verification/Rendezvous.thy ===== *)
theory Rendezvous
  imports Irq_Props Ssi_Props
begin

text \<open>
  A process and the SSI under the nucleus: what the processor does between the handlers, one round of the
  loop of \<^verbatim>\<open>SSI\<close>, and what a system call of a process returns when the SSI serves it in between.
  No interrupt comes during such a call.
\<close>

section \<open>The processor\<close>

text \<open>The BIOS saves the state of the processor in the BIOS data page and calls the handler.\<close>

definition trap :: "state_t \<Rightarrow> sys \<Rightarrow> sys" where
  "trap st s = s\<lparr>exception_state := st, cp0_cause := cause st\<rparr>"

text \<open>A kernel process at a \<^verbatim>\<open>SYSCALL(a, b, c, 0)\<close>.  A process suspended there has its program
  counter at the instruction and makes the call again when its state is loaded.\<close>

definition at_call :: "u32 \<Rightarrow> u32 \<Rightarrow> u32 \<Rightarrow> state_t \<Rightarrow> bool" where
  "at_call a b c st \<longleftrightarrow> drop_bit CAUSESHIFT (cause st AND GETEXECCODE) = SYSEXCEPTION \<and>
     drop_bit 31 (push_bit 30 (status st)) = 0 \<and> gpr st reg_a0 = a \<and> gpr st reg_a1 = b \<and> gpr st reg_a2 = c"

definition calling :: "state_t \<Rightarrow> u32 \<Rightarrow> u32 \<Rightarrow> u32 \<Rightarrow> state_t" where
  "calling st a b c = st\<lparr>gpr := (gpr st)(reg_a0 := a, reg_a1 := b, reg_a2 := c)\<rparr>"

definition syscall :: "state_t \<Rightarrow> sys \<Rightarrow> (control \<times> sys) option" where
  "syscall st s = exceptionHandler (trap st s)"

lemma at_calling: "at_call a b c st \<Longrightarrow> at_call a' b' c' (calling st a' b' c')"
  by (simp add: at_call_def calling_def)

text \<open>The state a call returns to.\<close>

definition ret_state :: "u32 \<Rightarrow> state_t \<Rightarrow> state_t" where
  "ret_state v st = st\<lparr>gpr := (gpr st)(reg_v0 := v), pc_epc := pc_epc st + WORDLEN\<rparr>"

lemma ret_state_v0 [simp]: "gpr (ret_state v st) reg_v0 = v" "pc_epc (ret_state v st) = pc_epc st + WORDLEN"
  by (simp_all add: ret_state_def)

lemma syscall_send:
  assumes "at_call SENDMESSAGE d v st"
  shows "syscall st s = do { (r, s1) \<leftarrow> send (current_process s) d v (trap st s);
    let s2 = advance_pc (set_exc_reg reg_v0 r s1); Some (LDST (exception_state s2), s2) }"
  using assms by (simp add: syscall_def exceptionHandler_def Let_def trap_def at_call_def syscallHandler_def)

lemma syscall_recv:
  assumes "at_call RECEIVEMESSAGE b c st"
  shows "syscall st s = do { (ctl, s1) \<leftarrow> recv b c (trap st s);
    if ctl = RETURN then let s2 = advance_pc s1 in Some (LDST (exception_state s2), s2) else Some (ctl, s1) }"
  using assms by (simp add: syscall_def exceptionHandler_def Let_def trap_def at_call_def syscallHandler_def)

section \<open>Two processes that talk\<close>

text \<open>\<open>p\<close> runs; \<open>ip\<close>, \<open>iq\<close>, \<open>rq\<close>, \<open>fr\<close> are the inboxes of both, the ready queue and the free
  messages.  Neither is in another queue of processes.\<close>

definition talk :: "sys \<Rightarrow> ptr \<Rightarrow> ptr \<Rightarrow> ptr list \<Rightarrow> ptr list \<Rightarrow> ptr list \<Rightarrow> ptr list \<Rightarrow> bool" where
  "talk s p q ip iq rq fr \<longleftrightarrow> nucleus_ok s \<and> current_process s = p \<and> p \<noteq> q \<and> allocated s p \<and> allocated s q \<and>
     queue s (MSG_INBOX p) = map M_LIST ip \<and> queue s (MSG_INBOX q) = map M_LIST iq \<and>
     queue s readyQueue = map P_LIST rq \<and> queue s msgFree_h = map M_LIST fr \<and>
     (\<forall>h \<in> set proc_heads - {readyQueue}. P_LIST p \<notin> set (queue s h) \<and> P_LIST q \<notin> set (queue s h))"

lemma talkD:
  assumes "talk s p q ip iq rq fr"
  shows "nucleus_ok s" "current_process s = p" "p \<noteq> q" "allocated s p" "allocated s q"
    "queue s (MSG_INBOX p) = map M_LIST ip" "queue s (MSG_INBOX q) = map M_LIST iq"
    "queue s readyQueue = map P_LIST rq" "queue s msgFree_h = map M_LIST fr"
  using assms by (simp_all add: talk_def)

lemma talk_linked: "talk s p q ip iq rq fr \<Longrightarrow> linked s q \<longleftrightarrow> q \<in> set rq"
  by (auto simp: talk_def linked_def proc_heads_def)

lemma talk_kept:
  assumes t: "talk s p q ip iq rq fr" and ok: "nucleus_ok s'" and k: "kept Q s s'" "Q \<inter> set proc_heads \<subseteq> {readyQueue}"
    and d: "dom (pcbs s') = dom (pcbs s)"
  shows "allocated s' p" "allocated s' q" "h \<in> set proc_heads - {readyQueue} \<Longrightarrow> queue s' h = queue s h"
    "MSG_INBOX p \<notin> Q \<Longrightarrow> queue s' (MSG_INBOX p) = map M_LIST ip" "MSG_INBOX q \<notin> Q \<Longrightarrow> queue s' (MSG_INBOX q) = map M_LIST iq"
    "readyQueue \<notin> Q \<Longrightarrow> queue s' readyQueue = map P_LIST rq" "msgFree_h \<notin> Q \<Longrightarrow> queue s' msgFree_h = map M_LIST fr"
proof -
  have q: "queue s' h = queue s h" if "live_head s h" "h \<notin> Q" for h using k(1) that by (simp add: kept_def)
  have g: "live_head s h" if "h \<in> set (msgFree_h # proc_heads)" for h using that by (simp add: live_head_def)
  have f: "queue s' pcbFree_h = queue s pcbFree_h" using k(2) by (intro q g) (auto simp: proc_heads_def)
  have n: "(pcbs s' r = None) = (pcbs s r = None)" for r using d by (metis domIff)
  show "allocated s' p" "allocated s' q" using talkD(4,5) [OF t] by (simp_all add: allocated_def f n)
  show "queue s' h = queue s h" if "h \<in> set proc_heads - {readyQueue}" using k(2) that by (intro q g) auto
  have "live_head s (MSG_INBOX p)" "live_head s (MSG_INBOX q)" using talkD(4,5) [OF t] by (auto simp: live_head_def)
  then show "MSG_INBOX p \<notin> Q \<Longrightarrow> queue s' (MSG_INBOX p) = map M_LIST ip" "MSG_INBOX q \<notin> Q \<Longrightarrow> queue s' (MSG_INBOX q) = map M_LIST iq"
    using q talkD(6,7) [OF t] by simp_all
  show "readyQueue \<notin> Q \<Longrightarrow> queue s' readyQueue = map P_LIST rq" using q [OF g, of readyQueue] talkD(8) [OF t] by (simp add: proc_heads_def)
  show "msgFree_h \<notin> Q \<Longrightarrow> queue s' msgFree_h = map M_LIST fr" using q [OF g, of msgFree_h] talkD(9) [OF t] by simp
qed

text \<open>What such a conversation leaves alone.\<close>

definition same_data :: "sys \<Rightarrow> sys \<Rightarrow> bool" where
  "same_data s s' \<longleftrightarrow> ssi_pcb s' = ssi_pcb s \<and> ssi_payloads s' = ssi_payloads s \<and> supports s' = supports s \<and>
     (\<forall>r. map_option (\<lambda>x. (p_supportStruct x, p_pid x, p_parent x)) (pcbs s' r) =
       map_option (\<lambda>x. (p_supportStruct x, p_pid x, p_parent x)) (pcbs s r))"

lemma same_data_trans: "same_data s s' \<Longrightarrow> same_data s' s'' \<Longrightarrow> same_data s s''"
  by (simp add: same_data_def)

lemma same_data_refl [simp]: "same_data s s"
  by (simp add: same_data_def)

lemma trap_same [simp]:
  "lh_mem (trap st s) = lh_mem s" "pcbs (trap st s) = pcbs s" "msgs (trap st s) = msgs s" "current_process (trap st s) = current_process s"
  "queue (trap st s) = queue s" "exception_state (trap st s) = st" "mem (trap st s) = mem s" "nucleus_ok s \<Longrightarrow> nucleus_ok (trap st s)"
  "allocated (trap st s) r = allocated s r" "linked (trap st s) r = linked s r" "ready (trap st s) r = ready s r"
  "ssi_pcb (trap st s) = ssi_pcb s" "ssi_payloads (trap st s) = ssi_payloads s" "supports (trap st s) = supports s"
proof -
  show l: "lh_mem (trap st s) = lh_mem s" and p: "pcbs (trap st s) = pcbs s" by (simp_all add: trap_def)
  show q: "queue (trap st s) = queue s" by (rule queue_cong [OF l])
  show "nucleus_ok s \<Longrightarrow> nucleus_ok (trap st s)" by (rule nucleus_ok_nondata) (simp_all add: trap_def)
  show "allocated (trap st s) r = allocated s r" "linked (trap st s) r = linked s r" "ready (trap st s) r = ready s r"
    by (simp_all add: allocated_def linked_def ready_def q p)
qed (simp_all add: trap_def)

lemma talk_trap: "talk (trap st s) p q ip iq rq fr = talk s p q ip iq rq fr"
proof -
  have "nucleus_ok s" if "nucleus_ok (trap st s)"
    by (rule nucleus_ok_nondata [OF _ _ _ _ _ _ _ _ that]) (simp_all add: trap_def)
  then show ?thesis by (auto simp: talk_def)
qed

text \<open>\<open>p\<close> sends to \<open>q\<close>, which is waiting.\<close>

lemma talk_send:
  assumes t: "talk s p q ip iq [] (m # fr)" and c: "at_call SENDMESSAGE q v st"
  shows "\<exists>s'. syscall st s = Some (LDST (ret_state 0 st), s') \<and> talk s' p q ip (iq @ [m]) [q] fr \<and> same_data s s' \<and>
    msgs s' = (msgs s)(m \<mapsto> \<lparr>m_sender = p, m_payload = v\<rparr>) \<and> pcbs s' = pcbs s \<and> mem s' = mem s \<and> exception_state s' = ret_state 0 st"
proof -
  let ?t = "trap st s"
  note d = talkD [OF t]
  have u: "talk ?t p q ip iq [] (m # fr)" using t by (simp add: talk_trap)
  have nr: "\<not> ready s q" "\<not> linked s q" using d(8) talk_linked [OF t] by (simp_all add: ready_def)
  have "\<exists>s1. send p q v ?t = Some (0, s1) \<and> nucleus_ok s1 \<and>
      s1 = ?t\<lparr>msgs := (msgs ?t)(m \<mapsto> \<lparr>m_sender = p, m_payload = v\<rparr>), lh_mem := lh_mem s1\<rparr> \<and>
      queue s1 msgFree_h = map M_LIST fr \<and> queue s1 (MSG_INBOX q) = queue ?t (MSG_INBOX q) @ [M_LIST m] \<and>
      queue s1 readyQueue = queue ?t readyQueue @ (if q = current_process ?t \<or> ready ?t q then [] else [P_LIST q]) \<and>
      kept {msgFree_h, MSG_INBOX q, readyQueue} ?t s1"
    by (rule send_delivers_full) (use d nr in simp_all)
  then obtain s1 where s1: "send p q v ?t = Some (0, s1)" "nucleus_ok s1"
      "s1 = ?t\<lparr>msgs := (msgs ?t)(m \<mapsto> \<lparr>m_sender = p, m_payload = v\<rparr>), lh_mem := lh_mem s1\<rparr>"
      "queue s1 msgFree_h = map M_LIST fr" "queue s1 (MSG_INBOX q) = map M_LIST (iq @ [m])" "queue s1 readyQueue = map P_LIST [q]"
      "kept {msgFree_h, MSG_INBOX q, readyQueue} ?t s1" using d nr by auto
  let ?s = "advance_pc (set_exc_reg reg_v0 0 s1)"
  have e: "exception_state ?s = ret_state 0 st" "pcbs ?s = pcbs s" "msgs ?s = (msgs s)(m \<mapsto> \<lparr>m_sender = p, m_payload = v\<rparr>)" "mem ?s = mem s"
    "ssi_pcb ?s = ssi_pcb s" "ssi_payloads ?s = ssi_payloads s" "supports ?s = supports s" "current_process ?s = p" "lh_mem ?s = lh_mem s1"
    by (subst s1(3), simp add: advance_pc_def set_exc_reg_def ret_state_def d(2))+
  have ok: "nucleus_ok ?s" by (rule nucleus_ok_nondata [OF _ _ _ _ _ _ _ _ s1(2)]) (simp_all add: advance_pc_def set_exc_reg_def)
  have q: "queue ?s = queue s1" by (rule queue_cong) (rule e(9))
  have k: "kept {msgFree_h, MSG_INBOX q, readyQueue} ?t ?s" using s1(7) by (simp add: kept_def q)
  have w: "{msgFree_h, MSG_INBOX q, readyQueue} \<inter> set proc_heads \<subseteq> {readyQueue}" by (auto simp: proc_heads_def blocked_heads_def)
  have "dom (pcbs ?s) = dom (pcbs ?t)" by (simp add: e(2))
  note kk = talk_kept [OF u ok k w this]
  have "talk ?s p q ip (iq @ [m]) [q] fr"
    using kk(1,2,4) kk(3) t d(3) s1(4-6) e(8) ok by (simp add: talk_def q)
  moreover have "syscall st s = Some (LDST (ret_state 0 st), ?s)"
    using s1(1) d(2) e(1) by (simp add: syscall_send [OF c] Let_def)
  ultimately show ?thesis using e by (auto simp: same_data_def)
qed

text \<open>\<open>p\<close> waits for a message; \<open>q\<close>, which is ready, goes on.\<close>

lemma talk_pcb: "talk s p q ip iq rq fr \<Longrightarrow> p \<noteq> NULL \<and> (\<exists>x. pcbs s p = Some x) \<and> (\<exists>y. pcbs s q = Some y)"
  by (auto simp: talk_def allocated_def nucleus_ok_def kernel_inv_def pcb_table_ok_def)

lemma talk_waits:
  assumes t: "talk s p q [] iq [q] fr" and c: "at_call RECEIVEMESSAGE b a st" and b: "b = ANYMESSAGE \<or> pcbs s b \<noteq> None"
    and y: "pcbs s q = Some y"
  shows "\<exists>s' x. syscall st s = Some (LDST (p_s y), s') \<and> talk s' q p iq [] [] fr \<and> same_data s s' \<and>
    msgs s' = msgs s \<and> mem s' = mem s \<and> pcbs s' = (pcbs s)(p \<mapsto> x) \<and> p_s x = st"
proof -
  let ?t = "trap st s"
  note d = talkD [OF t]
  have u: "talk ?t p q [] iq [q] fr" using t by (simp add: talk_trap)
  obtain x where x: "pcbs s p = Some x" using talk_pcb [OF t] by blast
  have "recv_guard b ?t" using talk_pcb [OF t] b d(2,6) by (simp add: recv_guard_def)
  from recv_suspends_full [OF talkD(1) [OF u] this, of x a] obtain ctl s1 where
    s1: "recv b a ?t = Some (ctl, s1)" "nucleus_ok s1" "runs_next (suspended x ?t) ctl s1" "\<not> linked s1 p" "queue s1 (MSG_INBOX p) = []"
    using d(2,6) x by auto
  have sq: "queue (suspended x ?t) = queue s" using queue_cong [of "suspended x ?t" ?t] by (simp add: suspended_def)
  have "queue (suspended x ?t) readyQueue = [P_LIST q]" by (simp add: sq d(8))
  with s1(3) obtain z where z: "pcbs (suspended x ?t) q = Some z" "ctl = LDST (p_s z)" "s1 = dispatched q (lh_mem s1) (suspended x ?t)"
    "queue s1 readyQueue = []" "kept {readyQueue} (suspended x ?t) s1" by (auto simp: runs_next_def)
  have "z = y" using z(1) y d(2,3) by (simp add: suspended_def)
  obtain x' where x': "pcbs (suspended x ?t) = (pcbs s)(p \<mapsto> x')" "p_s x' = st" "p_parent x' = p_parent x"
    "p_supportStruct x' = p_supportStruct x" "p_pid x' = p_pid x" using d(2) by (simp add: suspended_def)
  have e: "pcbs s1 = (pcbs s)(p \<mapsto> x')" "msgs s1 = msgs s" "mem s1 = mem s"
    "ssi_pcb s1 = ssi_pcb s" "ssi_payloads s1 = ssi_payloads s" "supports s1 = supports s" "current_process s1 = q"
  proof -
    have "pcbs s1 = pcbs (suspended x ?t)" by (subst z(3)) (simp add: dispatched_def)
    then show "pcbs s1 = (pcbs s)(p \<mapsto> x')" by (simp only: x'(1))
  qed (subst z(3), simp add: dispatched_def suspended_def trap_def)+
  have k: "kept {readyQueue} ?t s1"
  proof -
    have "dom (pcbs (suspended x ?t)) = dom (pcbs ?t)" using x by (auto simp: x'(1))
    moreover have "lh_mem (suspended x ?t) = lh_mem ?t" by (simp add: suspended_def)
    ultimately show ?thesis using z(5) kept_cong [of "suspended x ?t" ?t "{readyQueue}" s1] by blast
  qed
  have w: "{readyQueue} \<inter> set proc_heads \<subseteq> {readyQueue}" by auto
  have "dom (pcbs s1) = dom (pcbs ?t)" using x by (auto simp: e(1))
  note kk = talk_kept [OF u s1(2) k w this]
  have "talk s1 q p iq [] [] fr"
    using kk(1,2,4,5,7) kk(3) t d(3) s1(2) z(4) e(7) by (simp add: talk_def)
  moreover have "same_data s s1" using e x x' by (simp add: same_data_def)
  moreover have "syscall st s = Some (LDST (p_s y), s1)"
    using s1(1) z(2) \<open>z = y\<close> by (simp add: syscall_recv [OF c])
  ultimately show ?thesis using e x'(2) by blast
qed

text \<open>\<open>p\<close> receives the one message in its inbox.\<close>

lemma talk_takes:
  assumes t: "talk s p q [m] iq rq fr" and c: "at_call RECEIVEMESSAGE b a st" and y: "msgs s m = Some y"
    and b: "b = ANYMESSAGE \<or> b = m_sender y" "pcbs s (m_sender y) \<noteq> None"
  shows "\<exists>s'. syscall st s = Some (LDST (ret_state (m_sender y) st), s') \<and> talk s' p q [] iq rq (fr @ [m]) \<and> same_data s s' \<and>
    msgs s' = msgs s \<and> pcbs s' = pcbs s \<and> mem s' = (if a \<noteq> 0 then (mem s)(a := m_payload y) else mem s) \<and>
    exception_state s' = ret_state (m_sender y) st"
proof -
  let ?t = "trap st s"
  note d = talkD [OF t]
  have u: "talk ?t p q [m] iq rq fr" using t by (simp add: talk_trap)
  have g: "recv_guard b ?t" using talk_pcb [OF t] b d(2,6) y by (auto simp: recv_guard_def)
  have f: "find (accepts ?t b) (caller_inbox ?t) = Some (M_LIST m)" using d(2,6) y b by (auto simp: accepts_def)
  have "msgs ?t m = Some y" using y by simp
  from recv_takes_first_full [where a = a, OF talkD(1) [OF u] g f this] obtain s1 where
    s1: "recv b a ?t = Some (RETURN, s1)" "nucleus_ok s1" "queue s1 (MSG_INBOX p) = []" "queue s1 msgFree_h = map M_LIST (fr @ [m])"
    "kept {MSG_INBOX p, msgFree_h} ?t s1" "s1 = received a y (lh_mem s1) ?t"
    using d(2,6,9) by auto
  let ?s = "advance_pc s1"
  have e: "exception_state ?s = ret_state (m_sender y) st" "pcbs ?s = pcbs s" "msgs ?s = msgs s"
    "mem ?s = (if a \<noteq> 0 then (mem s)(a := m_payload y) else mem s)"
    "ssi_pcb ?s = ssi_pcb s" "ssi_payloads ?s = ssi_payloads s" "supports ?s = supports s" "current_process ?s = p" "lh_mem ?s = lh_mem s1"
    by (subst s1(6), simp add: received_def Let_def store_def advance_pc_def set_exc_reg_def ret_state_def d(2))+
  have ok: "nucleus_ok ?s" by (rule nucleus_ok_nondata [OF _ _ _ _ _ _ _ _ s1(2)]) (simp_all add: advance_pc_def)
  have q: "queue ?s = queue s1" by (rule queue_cong) (rule e(9))
  have k: "kept {MSG_INBOX p, msgFree_h} ?t ?s" using s1(5) by (simp add: kept_def q)
  have w: "{MSG_INBOX p, msgFree_h} \<inter> set proc_heads \<subseteq> {readyQueue}" by (auto simp: proc_heads_def blocked_heads_def)
  have "dom (pcbs ?s) = dom (pcbs ?t)" by (simp add: e(2))
  note kk = talk_kept [OF u ok k w this]
  have "talk ?s p q [] iq rq (fr @ [m])"
    using kk(1,2,5,6) kk(3) t d(3) s1(3,4) e(8) ok by (simp add: talk_def q)
  moreover have "syscall st s = Some (LDST (ret_state (m_sender y) st), ?s)"
    using s1(1) e(1) by (simp add: syscall_recv [OF c] Let_def)
  ultimately show ?thesis using e by (auto simp: same_data_def)
qed

section \<open>A call of a process\<close>

text \<open>One round of the loop of \<^verbatim>\<open>SSI\<close>, from the \<^verbatim>\<open>SYSCALL\<close> it waits in to
  the next, with the state \<open>st\<close> saved there; its local \<^verbatim>\<open>payload\<close> is where the call stores.\<close>

definition SSI_turn :: "state_t \<Rightarrow> sys \<Rightarrow> (control \<times> sys) option" where
  "SSI_turn st s = do {
     (c1, s1) \<leftarrow> syscall st s;
     if current_process s1 \<noteq> current_process s then Some (c1, s1)
     else do {
       (answer, s2) \<leftarrow> SSI_body (mem s1 (gpr st reg_a2)) s1;
       case answer of
         None \<Rightarrow> syscall st s2
       | Some (d, r) \<Rightarrow> do { (_, s3) \<leftarrow> syscall (calling st SENDMESSAGE d r) s2; syscall st s3 }
     }
   }"

text \<open>\<^verbatim>\<open>SYSCALL(a, b, c, 0)\<close> of the current process: the word it returns and the state then.  When
  the nucleus gives the processor to the SSI, this has one turn, and then the process must run again; a
  process that is suspended makes its call again.\<close>

definition kernel_call :: "state_t \<Rightarrow> u32 \<times> u32 \<times> u32 \<Rightarrow> sys \<Rightarrow> (u32 \<times> sys) option" where
  "kernel_call st = (\<lambda>(a, b, c) s. do {
     (c1, s1) \<leftarrow> syscall (calling st a b c) s;
     case c1 of LDST st1 \<Rightarrow>
       if current_process s1 = current_process s then Some (gpr st1 reg_v0, s1)
       else if current_process s1 = ssi_pcb s1 then do {
         (c2, s2) \<leftarrow> SSI_turn st1 s1;
         case c2 of LDST st2 \<Rightarrow>
           if current_process s2 = current_process s then do {
             (c3, s3) \<leftarrow> syscall st2 s2;
             case c3 of LDST st3 \<Rightarrow> if current_process s3 = current_process s then Some (gpr st3 reg_v0, s3) else None
             | _ \<Rightarrow> None
           } else None
         | _ \<Rightarrow> None
       } else None
     | _ \<Rightarrow> None
   })"

text \<open>The SSI waits in its \<^verbatim>\<open>SYSCALL(RECEIVEMESSAGE, ANYMESSAGE, &payload, 0)\<close>.\<close>

definition listening :: "sys \<Rightarrow> bool" where
  "listening s \<longleftrightarrow> (\<exists>y buf. pcbs s (ssi_pcb s) = Some y \<and> at_call RECEIVEMESSAGE ANYMESSAGE buf (p_s y) \<and> buf \<noteq> 0)"

text \<open>The services that only read the PCB of the sender.\<close>

definition reads_pcb :: "u32 \<Rightarrow> pcb_t \<Rightarrow> u32 option" where
  "reads_pcb code x = (if code = GETSUPPORTPTR then Some (p_supportStruct x)
     else if code = GETPROCESSID then Some (p_pid x) else None)"

lemma SSIRequest_reads:
  "reads_pcb code x = Some r \<Longrightarrow> pcbs s p = Some x \<Longrightarrow> SSIRequest p code NULL s = Some (r, s)"
  by (auto simp: reads_pcb_def SSIRequest_def getSupportData_def getProcessID_def split: if_splits)

text \<open>The turn of the SSI when the request of \<open>p\<close> is in its inbox.\<close>

lemma SSI_turn_reads:
  assumes t: "talk s q p [m] [] [] fr" and q: "ssi_pcb s = q" and c: "at_call RECEIVEMESSAGE ANYMESSAGE buf st" "buf \<noteq> 0"
    and m: "msgs s m = Some \<lparr>m_sender = p, m_payload = pl\<rparr>" "ssi_payloads s pl = Some \<lparr>service_code = code, arg = NULL\<rparr>"
    and x: "pcbs s p = Some x" "reads_pcb code x = Some r" "r \<noteq> NOPROC"
  shows "\<exists>s' m' fr' z. SSI_turn st s = Some (LDST (p_s x), s') \<and> talk s' p q [m'] [] [] fr' \<and> same_data s s' \<and>
    set (m' # fr') = set (m # fr) \<and> msgs s' m' = Some \<lparr>m_sender = q, m_payload = r\<rparr> \<and>
    pcbs s' = (pcbs s)(q \<mapsto> z) \<and> p_s z = st"
proof -
  obtain y where y: "pcbs s q = Some y" using talk_pcb [OF t] by blast
  obtain s1 where s1: "syscall st s = Some (LDST (ret_state p st), s1)" "talk s1 q p [] [] [] (fr @ [m])" "same_data s s1"
    "msgs s1 = msgs s" "pcbs s1 = pcbs s" "mem s1 buf = pl" "exception_state s1 = ret_state p st"
    using talk_takes [OF t c(1) m(1)] c(2) x(1) by auto
  have a2: "gpr st reg_a2 = buf" using c(1) by (simp add: at_call_def)
  have body: "SSI_body pl s1 = Some (Some (p, r), s1)"
    using SSIRequest_reads [OF x(2), of s1 p] x s1(3,5,7) m(2) by (simp add: SSI_body_def same_data_def)
  obtain m' fr' where f: "fr @ [m] = m' # fr'" by (cases "fr @ [m]") auto
  from talk_send [where v = r, OF s1(2) [unfolded f] at_calling [OF c(1)]] obtain s3 where
    s3: "syscall (calling st SENDMESSAGE p r) s1 = Some (LDST (ret_state 0 (calling st SENDMESSAGE p r)), s3)"
    "talk s3 q p [] [m'] [p] fr'" "same_data s1 s3" "msgs s3 m' = Some \<lparr>m_sender = q, m_payload = r\<rparr>" "pcbs s3 = pcbs s1" by auto
  from talk_waits [OF s3(2) c(1)] x(1) s1(5) s3(5) obtain s4 z where
    s4: "syscall st s3 = Some (LDST (p_s x), s4)" "talk s4 p q [m'] [] [] fr'" "same_data s3 s4" "msgs s4 = msgs s3"
    "pcbs s4 = (pcbs s3)(q \<mapsto> z)" "p_s z = st" by auto
  have "SSI_turn st s = Some (LDST (p_s x), s4)"
    using s1(1,6) s3(1) s4(1) body talkD(2) [OF t] talkD(2) [OF s1(2)] by (simp add: SSI_turn_def a2)
  moreover have "set (m' # fr') = set (m # fr)" using arg_cong [OF f, of set] by auto
  moreover have "same_data s s4" using same_data_trans s1(3) s3(3) s4(3) by blast
  ultimately show ?thesis using s1(5) s3(4,5) s4 by auto
qed

section \<open>Request and reply\<close>

lemma kernel_call_send:
  assumes t: "talk s p q [] [] [] (m # fr)" and c: "at_call a b c st"
  shows "\<exists>s'. kernel_call st (SENDMESSAGE, q, v) s = Some (0, s') \<and> talk s' p q [] [m] [q] fr \<and> same_data s s' \<and>
    msgs s' m = Some \<lparr>m_sender = p, m_payload = v\<rparr> \<and> pcbs s' = pcbs s"
proof -
  from talk_send [where v = v, OF t at_calling [OF c]] obtain s1 where
    s1: "syscall (calling st SENDMESSAGE q v) s = Some (LDST (ret_state 0 (calling st SENDMESSAGE q v)), s1)"
    "talk s1 p q [] [m] [q] fr" "same_data s s1" "msgs s1 m = Some \<lparr>m_sender = p, m_payload = v\<rparr>" "pcbs s1 = pcbs s" by auto
  then show ?thesis using talkD(2) [OF t] talkD(2) [OF s1(2)] by (simp add: kernel_call_def)
qed

lemma kernel_call_receive:
  assumes t: "talk s p q [] [m] [q] fr" and q: "ssi_pcb s = q" "listening s" and c: "at_call a b c st"
    and m: "msgs s m = Some \<lparr>m_sender = p, m_payload = pl\<rparr>" "ssi_payloads s pl = Some \<lparr>service_code = code, arg = NULL\<rparr>"
    and x: "pcbs s p = Some x" "reads_pcb code x = Some r" "r \<noteq> NOPROC" and a: "answer \<noteq> 0"
  shows "\<exists>s' fr'. kernel_call st (RECEIVEMESSAGE, q, answer) s = Some (q, s') \<and> talk s' p q [] [] [] fr' \<and> same_data s s' \<and>
    set fr' = set (m # fr) \<and> mem s' answer = r \<and> listening s'"
proof -
  let ?st = "calling st RECEIVEMESSAGE q answer"
  obtain y buf where y: "pcbs s q = Some y" "at_call RECEIVEMESSAGE ANYMESSAGE buf (p_s y)" "buf \<noteq> 0"
    using q by (auto simp: listening_def)
  have cc: "at_call RECEIVEMESSAGE q answer ?st" by (rule at_calling [OF c])
  from talk_waits [OF t cc _ y(1)] y(1) obtain s1 x1 where
    s1: "syscall ?st s = Some (LDST (p_s y), s1)" "talk s1 q p [m] [] [] fr" "same_data s s1" "msgs s1 = msgs s"
    "pcbs s1 = (pcbs s)(p \<mapsto> x1)" "p_s x1 = ?st" by auto
  have x1: "pcbs s1 p = Some x1" "reads_pcb code x1 = Some r"
  proof -
    show p1: "pcbs s1 p = Some x1" using s1(5) by simp
    have "map_option (\<lambda>x. (p_supportStruct x, p_pid x, p_parent x)) (pcbs s1 p) = map_option (\<lambda>x. (p_supportStruct x, p_pid x, p_parent x)) (pcbs s p)"
      using s1(3) by (simp add: same_data_def)
    then show "reads_pcb code x1 = Some r" using p1 x(1,2) by (auto simp: reads_pcb_def split: if_splits)
  qed
  have q1: "ssi_pcb s1 = q" "ssi_payloads s1 pl = Some \<lparr>service_code = code, arg = NULL\<rparr>" "msgs s1 m = Some \<lparr>m_sender = p, m_payload = pl\<rparr>"
    using s1(3,4) q(1) m by (simp_all add: same_data_def)
  from SSI_turn_reads [OF s1(2) q1(1) y(2,3) q1(3,2) x1 x(3)] obtain s2 m' fr' z where
    s2: "SSI_turn (p_s y) s1 = Some (LDST (p_s x1), s2)" "talk s2 p q [m'] [] [] fr'" "same_data s1 s2" "set (m' # fr') = set (m # fr)"
    "msgs s2 m' = Some \<lparr>m_sender = q, m_payload = r\<rparr>" "pcbs s2 = (pcbs s1)(q \<mapsto> z)" "p_s z = p_s y" by blast
  from talk_takes [OF s2(2) cc s2(5)] s2(6) a obtain s3 where
    s3: "syscall ?st s2 = Some (LDST (ret_state q ?st), s3)" "talk s3 p q [] [] [] (fr' @ [m'])" "same_data s2 s3"
    "pcbs s3 = pcbs s2" "mem s3 answer = r" by auto
  have "kernel_call st (RECEIVEMESSAGE, q, answer) s = Some (q, s3)"
    using s1(1,6) s2(1) s3(1) q1(1) talkD(2,3) [OF t] talkD(2) [OF s1(2)] talkD(2) [OF s2(2)] talkD(2) [OF s3(2)]
    by (simp add: kernel_call_def)
  moreover have "same_data s s3" using same_data_trans s1(3) s2(3) s3(3) by blast
  moreover have "listening s3" using s3(4) s2(6,7) y(2,3) \<open>same_data s s3\<close> q(1) by (auto simp: listening_def same_data_def)
  ultimately show ?thesis using s3(2,5) s2(4) by (intro exI [of _ s3] exI [of _ "fr' @ [m']"]) auto
qed

end
