(* ===== verification/Service_Props.thy ===== *)
theory Service_Props
  imports Rendezvous Sst_Props
begin

text \<open>
  The services of the SSI as a process of the nucleus sees them, and the support level on top: the calls of
  a kernel process are carried out by the nucleus and the SSI.
\<close>

section \<open>A request through the nucleus\<close>

text \<open>The state when no process but \<open>p\<close> wants to run, and the SSI waits for a request.\<close>

definition at_rest :: "sys \<Rightarrow> ptr \<Rightarrow> bool" where
  "at_rest s p \<longleftrightarrow> (\<exists>fr. talk s p (ssi_pcb s) [] [] [] fr \<and> fr \<noteq> []) \<and> listening s"

lemma at_rest_ok: "at_rest s p \<Longrightarrow> nucleus_ok s \<and> current_process s = p"
  using talkD(1,2) by (auto simp: at_rest_def)

lemma request_answered_full:
  assumes s: "at_rest s p" and c: "at_call a b c st" "at_call a' b' c' st'"
    and m: "ssi_payloads s pl = Some \<lparr>service_code = code, arg = NULL\<rparr>"
    and x: "pcbs s p = Some x" "reads_pcb code x = Some r" "r \<noteq> NOPROC" and answer: "answer \<noteq> 0"
  shows "\<exists>s1 s2. kernel_call st (SENDMESSAGE, ssi_pcb s, pl) s = Some (0, s1) \<and>
    kernel_call st' (RECEIVEMESSAGE, ssi_pcb s, answer) s1 = Some (ssi_pcb s, s2) \<and>
    mem s2 answer = r \<and> at_rest s2 p \<and> same_data s s1 \<and> same_data s s2"
proof -
  let ?q = "ssi_pcb s"
  obtain m fr where t: "talk s p ?q [] [] [] (m # fr)" and l: "listening s"
    using s unfolding at_rest_def by (metis neq_Nil_conv)
  from kernel_call_send [where v = pl, OF t c(1)] obtain s1 where
    s1: "kernel_call st (SENDMESSAGE, ?q, pl) s = Some (0, s1)" "talk s1 p ?q [] [m] [?q] fr" "same_data s s1"
    "msgs s1 m = Some \<lparr>m_sender = p, m_payload = pl\<rparr>" "pcbs s1 = pcbs s" by blast
  have q: "ssi_pcb s1 = ?q" "ssi_payloads s1 pl = Some \<lparr>service_code = code, arg = NULL\<rparr>" "listening s1"
    using s1(3,5) m l by (simp_all add: same_data_def listening_def)
  from kernel_call_receive [OF s1(2) q(1,3) c(2) s1(4) q(2) x(1) [folded s1(5)] x(2,3) answer] obtain s2 fr' where
    s2: "kernel_call st' (RECEIVEMESSAGE, ?q, answer) s1 = Some (?q, s2)" "talk s2 p ?q [] [] [] fr'" "same_data s1 s2"
    "set fr' = set (m # fr)" "mem s2 answer = r" "listening s2" by blast
  have d: "same_data s s2" using same_data_trans [OF s1(3) s2(3)] .
  have "fr' \<noteq> []" using s2(4) by auto
  then have "at_rest s2 p" using s2(2,6) d by (auto simp: at_rest_def same_data_def)
  then show ?thesis using s1(1,3) s2(1,5) d by blast
qed

text \<open>C14.  A request of a process goes through the nucleus to the SSI and the reply comes back: the send returns 0,
  the receive blocks the process, the SSI is dispatched, takes the message, serves the request, replies and
  waits again, and the process is dispatched and gets the reply at the address it named, the SSI as sender.
  Then everything rests as before, and the process can ask again.\<close>

theorem request_answered:
  assumes "at_rest s p" "at_call a b c st" "at_call a' b' c' st'"
    and "ssi_payloads s pl = Some \<lparr>service_code = code, arg = NULL\<rparr>"
    and "pcbs s p = Some x" "reads_pcb code x = Some r" "r \<noteq> NOPROC" "answer \<noteq> 0"
  shows "\<exists>s1 s2. kernel_call st (SENDMESSAGE, ssi_pcb s, pl) s = Some (0, s1) \<and>
    kernel_call st' (RECEIVEMESSAGE, ssi_pcb s, answer) s1 = Some (ssi_pcb s, s2) \<and>
    mem s2 answer = r \<and> at_rest s2 p \<and> same_data s s1 \<and> same_data s s2"
  by (rule request_answered_full [OF assms])

text \<open>The demo: the SSI, dispatched after the boot, makes its call and waits; the test process runs.\<close>

definition demo_call :: "u32 \<Rightarrow> u32 \<Rightarrow> u32 \<Rightarrow> state_t" where
  "demo_call a b c = zero_state\<lparr>cause := 32, gpr := (\<lambda>_. 0)(reg_a0 := a, reg_a1 := b, reg_a2 := c)\<rparr>"

lemma demo_at_call: "at_call a b c (demo_call a b c)"
  by (simp add: at_call_def demo_call_def zero_state_def)

lemma demo_start_talk: "talk demo_start p0 p1 [] [] [p1] (rev demo_msgs)"
proof -
  have "P_LIST p0 \<notin> set (queue demo_start h) \<and> P_LIST p1 \<notin> set (queue demo_start h)"
    if h: "h \<in> set proc_heads - {readyQueue}" for h
  proof -
    have "distinct (p0 # p1 # demo_rest)" using demo_tables(1) demo_pcbs_cons by (simp only: demo_image_def sys.simps)
    then have "p0 \<notin> set demo_rest" "p1 \<notin> set demo_rest" by (simp_all only: distinct.simps list.set) blast+
    moreover have "h = pcbFree_h \<or> h \<in> set blocked_heads" using h by (auto simp: proc_heads_def)
    then have "queue demo_start h = (if h = pcbFree_h then map P_LIST demo_rest else [])"
      using demo_queues_at(4) by (auto intro: demo_queue)
    ultimately show ?thesis by auto
  qed
  moreover have "allocated demo_start p0" using current_facts(1) [OF demo_start_main(2)] by (simp add: demo_start_main(3))
  ultimately show ?thesis using demo_ok demo_p1_allocated demo_start_main(3)
    by (simp add: talk_def demo_queue)
qed

lemma demo_rest_state:
  obtains s y where "at_rest s p1" "pcbs s p1 = Some y" "p_supportStruct y = NULL" "p_pid y = 2" "ssi_pcb s = p0"
proof -
  obtain y where y: "pcbs demo_start p1 = Some y" "p_supportStruct y = NULL" "p_pid y = 2"
  proof -
    from main_runs [OF demo_image_static demo_pcbs_cons, of demo_code] obtain t h where
      t: "booted demo_code demo_image p0 p1 t" "main demo_code demo_image = Some (LDST (p_s (the (pcbs t p0))), dispatched p0 h t)" by blast
    then have "pcbs demo_start = pcbs t" by (simp add: demo_start_def dispatched_def)
    moreover have "pcbTable demo_image = demo_pcbs" by (simp add: demo_image_def)
    then have "p1 \<in> set demo_pcbs" using demo_pcbs_cons by (metis list.set_intros)
    then have "pcbs demo_image p1 = Some blank_pcb" by (simp add: demo_image_def)
    ultimately have "\<exists>y. pcbs demo_start p1 = Some y \<and> p_supportStruct y = NULL \<and> p_pid y = 2"
      using t(1) by (simp add: booted_def boot_pcb_def fresh_pcb_def)
    then show ?thesis using that by blast
  qed
  from talk_waits [OF demo_start_talk demo_at_call [of _ ANYMESSAGE "0x20030000"] _ y(1)] obtain s x where
    s: "talk s p1 p0 [] [] [] (rev demo_msgs)" "same_data demo_start s" "pcbs s = (pcbs demo_start)(p0 \<mapsto> x)"
    "p_s x = demo_call RECEIVEMESSAGE ANYMESSAGE 0x20030000" by auto
  have q: "ssi_pcb s = p0" using s(2) demo_start_main(4) by (simp add: same_data_def)
  have "rev demo_msgs \<noteq> []" using demo_tables(6) by auto
  moreover have "listening s" using s(3,4) demo_at_call [of RECEIVEMESSAGE ANYMESSAGE "0x20030000"] by (auto simp: listening_def q)
  ultimately have "at_rest s p1" using s(1) q by (auto simp: at_rest_def)
  then show ?thesis using that q s(3) y by simp
qed

lemma at_rest_data:
  assumes r: "at_rest s p" and e: "\<And>q. map_option p_parent (P q) = map_option p_parent (pcbs s q)" "P (ssi_pcb s) = pcbs s (ssi_pcb s)"
  shows "at_rest (s\<lparr>ssi_payloads := f, pcbs := P\<rparr>) p"
proof -
  let ?s = "s\<lparr>ssi_payloads := f, pcbs := P\<rparr>"
  have q: "queue ?s = queue s" by (rule queue_cong) simp
  have n: "(P q = None) = (pcbs s q = None)" for q using e(1) [of q] by (metis option.map_disc_iff)
  have "nucleus_ok ?s" using at_rest_ok [OF r] kernel_inv_cong [of ?s s] e(1) by (auto simp: nucleus_ok_def)
  then show ?thesis using r e(2) by (auto simp: at_rest_def talk_def allocated_def q listening_def n)
qed

text \<open>The pid of the test process is 2.\<close>

theorem request_answered_witness:
  "\<exists>s s1 s2. kernel_call (demo_call 0 0 0) (SENDMESSAGE, ssi_pcb s, 0x20031000) s = Some (0, s1) \<and>
     kernel_call (demo_call 0 0 0) (RECEIVEMESSAGE, ssi_pcb s, 0x20031010) s1 = Some (p0, s2) \<and> mem s2 0x20031010 = 2"
proof -
  obtain s y where s: "at_rest s p1" "pcbs s p1 = Some y" "p_pid y = 2" "ssi_pcb s = p0" by (rule demo_rest_state)
  obtain t where t: "t = s\<lparr>ssi_payloads := [0x20031000 \<mapsto> \<lparr>service_code = GETPROCESSID, arg = NULL\<rparr>], pcbs := pcbs s\<rparr>" by simp
  have r: "at_rest t p1" unfolding t by (rule at_rest_data [OF s(1)]) simp_all
  have f: "ssi_payloads t 0x20031000 = Some \<lparr>service_code = GETPROCESSID, arg = NULL\<rparr>" "pcbs t p1 = Some y"
      "ssi_pcb t = p0" "reads_pcb GETPROCESSID y = Some 2" using s(2-4) by (simp_all add: t reads_pcb_def)
  have "(2::u32) \<noteq> NOPROC" "(0x20031010::u32) \<noteq> 0" by simp_all
  from request_answered [OF r demo_at_call [of 0 0 0] demo_at_call [of 0 0 0] f(1,2,4) this] obtain s1 s2 where
    "kernel_call (demo_call 0 0 0) (SENDMESSAGE, ssi_pcb t, 0x20031000) t = Some (0, s1)"
    "kernel_call (demo_call 0 0 0) (RECEIVEMESSAGE, ssi_pcb t, 0x20031010) s1 = Some (ssi_pcb t, s2)"
    "mem s2 0x20031010 = 2" by (elim exE conjE) (rule that)
  then show ?thesis unfolding f(3) [symmetric] by (intro exI conjI)
qed

section \<open>The support level on the nucleus\<close>

text \<open>The environment of a process of the support level whose calls the nucleus carries out.\<close>

definition kernel_env :: "state_t \<Rightarrow> env" where
  "kernel_env st = (\<lambda>call w. map_option (\<lambda>(v, s). (v, w\<lparr>nuc := s\<rparr>)) (kernel_call st call (nuc w)))"

lemma at_rest_payload: "at_rest s p \<Longrightarrow> at_rest (s\<lparr>ssi_payloads := f\<rparr>) p"
  using at_rest_data [of s p "pcbs s" f] by simp

text \<open>C15.  \<^verbatim>\<open>getSupStruct\<close> on top of the nucleus: a process of the support level that asks
  for its support structure gets the one in its PCB.\<close>

theorem getSupStruct_served:
  assumes "at_rest (nuc w) p" "at_call a b c st"
    and "pcbs (nuc w) p = Some x" "p_supportStruct x \<noteq> NOPROC" "lv V_getsup_sup \<noteq> 0"
  shows "\<exists>w'. run (getSupStruct lv) (kernel_env st) w = (Done (p_supportStruct x), w') \<and> at_rest (nuc w') p \<and>
    supports (nuc w') = supports (nuc w)"
proof -
  let ?s = "(nuc w)\<lparr>ssi_payloads := (ssi_payloads (nuc w))(lv V_getsup_payload \<mapsto> \<lparr>service_code = GETSUPPORTPTR, arg = NULL\<rparr>)\<rparr>"
  have r: "at_rest ?s p" by (rule at_rest_payload [OF assms(1)])
  have pl: "ssi_payloads ?s (lv V_getsup_payload) = Some \<lparr>service_code = GETSUPPORTPTR, arg = NULL\<rparr>" by simp
  have x: "pcbs ?s p = Some x" "reads_pcb GETSUPPORTPTR x = Some (p_supportStruct x)" using assms(3) by (simp_all add: reads_pcb_def)
  from request_answered_full [OF r assms(2,2) pl x assms(4,5)] obtain s1 s2 where
    s: "kernel_call st (SENDMESSAGE, ssi_pcb (nuc w), lv V_getsup_payload) ?s = Some (0, s1)"
    "kernel_call st (RECEIVEMESSAGE, ssi_pcb (nuc w), lv V_getsup_sup) s1 = Some (ssi_pcb (nuc w), s2)"
    "mem s2 (lv V_getsup_sup) = p_supportStruct x" "at_rest s2 p" "same_data ?s s1" "same_data ?s s2" by auto
  have e: "ssi_pcb s1 = ssi_pcb (nuc w)" "supports s2 = supports (nuc w)" using s(5,6) by (simp_all add: same_data_def)
  show ?thesis using s(1-4) e by (simp add: getSupStruct_def put_payload_def ask_ssi_def run_seq kernel_env_def)
qed

theorem getSupStruct_served_witness:
  "\<exists>w w'. p_supportStruct (the (pcbs (nuc w) p1)) = 0x20030800 \<and>
     run (getSupStruct (\<lambda>_. 0x20031000)) (kernel_env (demo_call 0 0 0)) w = (Done 0x20030800, w')"
proof -
  obtain s y where s: "at_rest s p1" "pcbs s p1 = Some y" "ssi_pcb s = p0" by (rule demo_rest_state)
  obtain w :: world where w: "nuc w = s\<lparr>ssi_payloads := ssi_payloads s,
      pcbs := (pcbs s)(p1 \<mapsto> y\<lparr>p_supportStruct := 0x20030800\<rparr>)\<rparr>" by (metis world.select_convs(1))
  have r: "at_rest (nuc w) p1" unfolding w by (rule at_rest_data [OF s(1)]) (use s(2,3) in auto)
  have f: "pcbs (nuc w) p1 = Some (y\<lparr>p_supportStruct := 0x20030800\<rparr>)" by (simp add: w)
  have g: "p_supportStruct (y\<lparr>p_supportStruct := 0x20030800\<rparr>) \<noteq> NOPROC" "(0x20031000::u32) \<noteq> 0" by simp_all
  from getSupStruct_served [where lv = "\<lambda>_. 0x20031000", OF r demo_at_call [of 0 0 0] f g]
  have "\<exists>w'. run (getSupStruct (\<lambda>_. 0x20031000)) (kernel_env (demo_call 0 0 0)) w = (Done 0x20030800, w')" by auto
  moreover have "p_supportStruct (the (pcbs (nuc w) p1)) = 0x20030800" by (simp add: f)
  ultimately show ?thesis by blast
qed

end
