(* ===== verification/P2test_Props.thy ===== *)
theory P2test_Props
  imports P2test_Processes Service_Props
begin

text \<open>
  The test of the nucleus: its first check, run on the nucleus of this development; when its processes
  panic; and its process that prints, which does what the terminal processes of the support level do.
\<close>

section \<open>Processes that never panic\<close>

definition calm :: "env \<Rightarrow> 'a prog \<Rightarrow> bool" where
  "calm E p \<longleftrightarrow> (\<forall>w. fst (run p E w) \<noteq> Left PANIC)"

definition stops :: "env \<Rightarrow> 'a prog \<Rightarrow> bool" where
  "stops E p \<longleftrightarrow> (\<forall>w a. fst (run p E w) \<noteq> Done a)"

named_theorems calm_rules

lemma calm_seq [calm_rules]: "calm E p \<Longrightarrow> (\<And>a. calm E (k a)) \<Longrightarrow> calm E (seq p k)"
  unfolding calm_def run_seq by (auto split: prod.splits outcome.splits) (metis fst_conv)

lemma calm_stops: "calm E p \<Longrightarrow> stops E p \<Longrightarrow> calm E (seq p k)"
  unfolding calm_def stops_def run_seq by (auto split: prod.splits outcome.splits) (metis fst_conv)+

lemma calm_basic [calm_rules]:
  "calm E (Ret r)" "calm E (reads f)" "calm E (writes g)" "calm E (on_nuc h)" "calm E (SYSCALL a b c)" "calm E (Jump (LDST st))"
  unfolding calm_def by (auto split: option.splits)

lemma calm_if [calm_rules]: "(b \<Longrightarrow> calm E p) \<Longrightarrow> (\<not> b \<Longrightarrow> calm E q) \<Longrightarrow> calm E (if b then p else q)"
  by simp

lemma calm_let: "calm E (f x) \<Longrightarrow> calm E (Let x f)"
  by simp

lemma calm_for_each [calm_rules]: "(\<And>x. calm E (f x)) \<Longrightarrow> calm E (for_each xs f)"
  by (induction xs) (simp_all add: calm_rules)

lemma calm_steps [calm_rules]:
  "calm E (steps [])"
  "calm E p \<Longrightarrow> calm E (steps ps) \<Longrightarrow> calm E (steps (p # ps))"
  by (simp_all add: calm_rules)

lemma calm_steps_stop: "calm E p \<Longrightarrow> stops E p \<Longrightarrow> calm E (steps (p # ps))"
  by (simp add: calm_stops)

lemma calm_helpers [calm_rules]:
  "calm E (syscall_on T a x c)" "calm E (syscall_any a)" "calm E (get_var T x)" "calm E (set_var T x v)" "calm E (word_at a)"
  "calm E (put_payload pl co ar)" "calm E (ask_ssi pl an)" "calm E STCK" "calm E (over_timescale n)" "calm E (p5_saved T e)"
  "calm E (on_p5_support T f)" "calm E (store_at T a v)" "calm E (load_from T a)" "calm E (note_pid T x y)" "calm E (lower_p4_stack T)"
  "calm E (p5_resume T e)" "calm E (note_p5_stack T)" "calm E (STST T x)" "calm E (start_at T x y d ff)"
  unfolding syscall_on_def syscall_any_def get_var_def set_var_def word_at_def set_word_def put_payload_def ask_ssi_def STCK_def
    over_timescale_def p5_saved_def on_p5_support_def store_at_def load_from_def note_pid_def lower_p4_stack_def p5_resume_def
    note_p5_stack_def STST_def start_at_def
  by (intro calm_rules)+

lemma calm_requests [calm_rules]:
  "calm E (print_term0 T s)" "calm E (clockwait_process fr)" "calm E (terminate_process fr p)" "calm E (create_process_p2test fr st)"
  "calm E (request p c a d)" "calm E (create_into T fr x y)"
  unfolding print_term0_def clockwait_process_def terminate_process_def create_process_p2test_def request_def create_into_def
  by (intro calm_rules)+

lemma calm_only_if [calm_rules]: "(b \<Longrightarrow> calm E p) \<Longrightarrow> calm E (only_if b p)"
  by (simp add: only_if_def calm_rules)

lemma calm_check_pid [calm_rules]: "(\<And>b. calm E (k b)) \<Longrightarrow> calm E (check_pid T fr a x k)"
  unfolding check_pid_def by (intro calm_rules)

lemma calm_p2 [calm_rules]: "calm E (p2_verdict T a b)" "calm E (p2_times T fr)"
  unfolding p2_verdict_def p2_times_def by (intro calm_rules)+

lemma calm_p3 [calm_rules]: "calm E (p3_delay n fr a b)" "calm E (p3_times T fr)"
proof -
  show "calm E (p3_delay n fr a b)" by (induction n arbitrary: a b) (auto intro!: calm_rules)
  show "calm E (p3_times T fr)" unfolding p3_times_def by (intro calm_rules)
qed

text \<open>A kernel that ends the process that asks for its own termination.\<close>

definition ends_caller :: "frame \<Rightarrow> env \<Rightarrow> bool" where
  "ends_caller fr E \<longleftrightarrow> (\<forall>w. ssi_payloads (nuc w) (fr L_term_payload) = Some \<lparr>service_code = TERMPROCESS, arg = NULL\<rparr> \<longrightarrow>
     E (SENDMESSAGE, ssi_pcb (nuc w), fr L_term_payload) w = None)"

lemma run_terminate_self:
  assumes "ends_caller fr E"
  shows "\<exists>w'. run (terminate_process fr SELF) E w = (Never, w') \<and>
    calls (terminate_process fr SELF) E w = [((SENDMESSAGE, ssi_pcb (nuc w), fr L_term_payload), w')]"
proof -
  let ?w = "w\<lparr>nuc := (nuc w)\<lparr>ssi_payloads := (ssi_payloads (nuc w))(fr L_term_payload \<mapsto> \<lparr>service_code = TERMPROCESS, arg = NULL\<rparr>)\<rparr>\<rparr>"
  have "E (SENDMESSAGE, ssi_pcb (nuc ?w), fr L_term_payload) ?w = None"
    using assms [unfolded ends_caller_def, THEN spec [of _ ?w]] by simp
  then show ?thesis
    by (intro exI [of _ ?w]) (simp add: terminate_process_def put_payload_def ask_ssi_def run_seq calls_seq)
qed

lemma calm_finish [calm_rules]: "ends_caller fr E \<Longrightarrow> calm E (finish T fr s)"
  unfolding finish_def steps.simps
  by (rule calm_stops [OF calm_requests(3)]) (metis fst_conv outcome.distinct(5) run_terminate_self stops_def)

text \<open>No process of the test reaches its \<^verbatim>\<open>PANIC\<close>, whatever the kernel answers, as long as it ends a
  process that asks for its own termination: the panic after such a request reports that failure and no
  other.  The processes p6 and p7 need that an unknown system call and a bad address do not come back.\<close>

theorem test_panics_only_alive:
  assumes "ends_caller fr E"
    and "p \<in> {p2_code T fr, p3_code n T fr, p5_code T, p5a T, p5b T fr, p5mm T fr, p8_code T fr, p8root T fr, child1 T fr, child2 T fr,
        p8leaf1 T, p8leaf2 T, p8leaf3 T, p8leaf4 T, p9_code T fr, p10_code T fr, hp_p1 T fr, hp_p2 T fr} \<or>
      p = p6_code T \<and> (\<forall>w. E (1, 0, 0) w = None) \<or> p = p7_code T \<and> (\<forall>w. traps T w BADADDR)"
  shows "fst (run p E w) \<noteq> Left PANIC"
proof -
  have 6: "calm E (p6_code T)" if "\<forall>w. E (1, 0, 0) w = None"
  proof -
    have "stops E (seq (SYSCALL 1 0 0) (\<lambda>_. Ret ()))" using that by (simp add: stops_def run_seq)
    from calm_steps_stop [OF _ this] show ?thesis unfolding p6_code_def
      by (rule calm_steps(2) [OF calm_helpers(1) calm_steps(2) [OF calm_requests(1)]]) (intro calm_rules)
  qed
  have 7: "calm E (p7_code T)" if "\<forall>w. traps T w BADADDR"
  proof -
    have "stops E (store_at T BADADDR 0)" using that by (simp add: stops_def store_at_def)
    from calm_steps_stop [OF _ this] show ?thesis unfolding p7_code_def
      by (rule calm_steps(2) [OF calm_helpers(1) calm_steps(2) [OF calm_requests(1)]]) (intro calm_rules)
  qed
  have "calm E p"
    using assms(2) 6 7 calm_finish [OF assms(1)]
    unfolding p2_code_def p3_code_def p5_code_def p5a_def p5b_def p5mm_def p8_code_def p8root_def child1_def child2_def
      p8leaf1_def p8leaf2_def p8leaf3_def p8leaf4_def p8leaf_def p9_code_def p10_code_def hp_p1_def hp_p2_def
    by (elim disjE insertE emptyE conjE; hypsubst?) (intro calm_rules assms(1) | assumption | blast)+
  then show ?thesis by (simp add: calm_def)
qed

section \<open>A concrete image\<close>

text \<open>Variables one word after the other, frames after them, strings by their lengths.\<close>

definition demo_vars :: "test_var list" where
  "demo_vars = [
    p2state, p3state, p4state, p5state, p6state, p7state, p8state, p8rootstate, child1state
    , child2state, gchild1state, gchild2state, gchild3state, gchild4state, p9state, p10state
    , hp_p1state, hp_p2state, printstate, p2pid, p3pid, p4pid, p8pid, p9pid, pFiveSupport, p5Stack
    , p1p2sync, p4inc, p5MemLocation, test_pcb, print_pcb, p2_pcb, p3_pcb, p4_pcb_v1, p4_pcb_v2
    , p5_pcb, p6_pcb, p7_pcb, p8_pcb, p8root_pcb, child1_pcb, child2_pcb, gchild1_pcb, gchild2_pcb
    , gchild3_pcb, gchild4_pcb, p9_pcb, p10_pcb, p4_ssi_create_process, p4_payload]"

definition var_index :: "test_var \<Rightarrow> nat" where
  "var_index x = (case x of
    p2state \<Rightarrow> 0 | p3state \<Rightarrow> 1 | p4state \<Rightarrow> 2
     | p5state \<Rightarrow> 3 | p6state \<Rightarrow> 4 | p7state \<Rightarrow> 5
     | p8state \<Rightarrow> 6 | p8rootstate \<Rightarrow> 7 | child1state \<Rightarrow> 8
     | child2state \<Rightarrow> 9 | gchild1state \<Rightarrow> 10 | gchild2state \<Rightarrow> 11
     | gchild3state \<Rightarrow> 12 | gchild4state \<Rightarrow> 13 | p9state \<Rightarrow> 14
     | p10state \<Rightarrow> 15 | hp_p1state \<Rightarrow> 16 | hp_p2state \<Rightarrow> 17
     | printstate \<Rightarrow> 18 | p2pid \<Rightarrow> 19 | p3pid \<Rightarrow> 20
     | p4pid \<Rightarrow> 21 | p8pid \<Rightarrow> 22 | p9pid \<Rightarrow> 23
     | pFiveSupport \<Rightarrow> 24 | p5Stack \<Rightarrow> 25 | p1p2sync \<Rightarrow> 26
     | p4inc \<Rightarrow> 27 | p5MemLocation \<Rightarrow> 28 | test_pcb \<Rightarrow> 29
     | print_pcb \<Rightarrow> 30 | p2_pcb \<Rightarrow> 31 | p3_pcb \<Rightarrow> 32
     | p4_pcb_v1 \<Rightarrow> 33 | p4_pcb_v2 \<Rightarrow> 34 | p5_pcb \<Rightarrow> 35
     | p6_pcb \<Rightarrow> 36 | p7_pcb \<Rightarrow> 37 | p8_pcb \<Rightarrow> 38
     | p8root_pcb \<Rightarrow> 39 | child1_pcb \<Rightarrow> 40 | child2_pcb \<Rightarrow> 41
     | gchild1_pcb \<Rightarrow> 42 | gchild2_pcb \<Rightarrow> 43 | gchild3_pcb \<Rightarrow> 44
     | gchild4_pcb \<Rightarrow> 45 | p9_pcb \<Rightarrow> 46 | p10_pcb \<Rightarrow> 47
     | p4_ssi_create_process \<Rightarrow> 48 | p4_payload \<Rightarrow> 49)"

definition demo_locals :: "test_local list" where
  "demo_locals = [
    L_msg, L_do_io, L_io_payload, L_status, L_clock_payload, L_term_payload, L_create_arg
    , L_create_payload, L_create_p, L_pid_payload, L_pid, L_time_payload, L_cpu_t1, L_cpu_t2
    , L_sup_payload, L_sup, L_p5_create, L_p5_payload]"

definition local_index :: "test_local \<Rightarrow> nat" where
  "local_index x = (case x of
    L_msg \<Rightarrow> 0 | L_do_io \<Rightarrow> 1 | L_io_payload \<Rightarrow> 2
     | L_status \<Rightarrow> 3 | L_clock_payload \<Rightarrow> 4 | L_term_payload \<Rightarrow> 5
     | L_create_arg \<Rightarrow> 6 | L_create_payload \<Rightarrow> 7 | L_create_p \<Rightarrow> 8
     | L_pid_payload \<Rightarrow> 9 | L_pid \<Rightarrow> 10 | L_time_payload \<Rightarrow> 11
     | L_cpu_t1 \<Rightarrow> 12 | L_cpu_t2 \<Rightarrow> 13 | L_sup_payload \<Rightarrow> 14
     | L_sup \<Rightarrow> 15 | L_p5_create \<Rightarrow> 16 | L_p5_payload \<Rightarrow> 17)"

lemma var_index_bound: "var_index x < 50" and var_index_inv: "demo_vars ! var_index x = x"
  by (cases x; simp add: var_index_def demo_vars_def)+

lemma local_index_bound: "local_index x < 50" and local_index_inv: "demo_locals ! local_index x = x"
  by (cases x; simp add: local_index_def demo_locals_def)+

definition demo_frame :: frame where
  "demo_frame x = word_of_nat (0x20039000 + 4 * local_index x)"

definition demo_test :: test_image where
  "demo_test = \<lparr>var = (\<lambda>x. word_of_nat (0x20038000 + 4 * var_index x)),
     lit = (\<lambda>s. word_of_nat (0x20040000 + 64 * (length s mod 256))),
     code_of = (\<lambda>_. 0x20008000), cpu = (\<lambda>_. zero_state), traps = (\<lambda>_ a. a = BADADDR \<or> a = 0)\<rparr>"

lemma unat_small: "n < 0x40000000 \<Longrightarrow> unat (word_of_nat n :: u32) = n"
  by (simp add: unat_of_nat take_bit_nat_eq_self)

lemma demo_addresses:
  "unat (var demo_test x) = 0x20038000 + 4 * var_index x" "unat (demo_frame y) = 0x20039000 + 4 * local_index y"
  "unat (lit demo_test str) = 0x20040000 + 64 * (length str mod 256)"
proof -
  have "length str mod 256 < 256" by simp
  then show "unat (lit demo_test str) = 0x20040000 + 64 * (length str mod 256)"
    unfolding demo_test_def test_image.simps by (intro unat_small) linarith
  show "unat (var demo_test x) = 0x20038000 + 4 * var_index x"
    unfolding demo_test_def test_image.simps using var_index_bound [of x] by (intro unat_small) linarith
  show "unat (demo_frame y) = 0x20039000 + 4 * local_index y"
    unfolding demo_frame_def using local_index_bound [of y] by (intro unat_small) linarith
qed

lemma apart: "unat a \<noteq> unat b \<Longrightarrow> a \<noteq> b"
  by blast

section \<open>The first check on the nucleus\<close>

text \<open>A call of the running process that returns at once.\<close>

lemma kernel_call_returns:
  assumes "syscall (calling st a b c) s = Some (LDST st', s')" "current_process s' = current_process s"
  shows "kernel_call st (a, b, c) s = Some (gpr st' reg_v0, s')"
  using assms by (simp add: kernel_call_def)

lemma sends_to_self:
  assumes ok: "nucleus_ok s" "current_process s = p" "p \<noteq> NULL" and f: "queue s msgFree_h = map M_LIST (m # fr)"
    and c: "at_call a b c st"
  shows "\<exists>s'. kernel_call st (SENDMESSAGE, p, v) s = Some (0, s') \<and> nucleus_ok s' \<and> current_process s' = p \<and>
    msgs s' = (msgs s)(m \<mapsto> \<lparr>m_sender = p, m_payload = v\<rparr>) \<and> mem s' = mem s \<and> pcbs s' = pcbs s \<and>
    queue s' (MSG_INBOX p) = queue s (MSG_INBOX p) @ [M_LIST m] \<and> queue s' msgFree_h = map M_LIST fr"
proof -
  let ?st = "calling st SENDMESSAGE p v"
  let ?t = "trap ?st s"
  obtain A where "kernel_inv s A" using nucleus_okE [OF ok(1)] by blast
  from current_facts(1) [OF this] ok(2,3) have al: "allocated s p" by simp
  have "\<exists>s1. send p p v ?t = Some (0, s1) \<and> nucleus_ok s1 \<and>
      s1 = ?t\<lparr>msgs := (msgs ?t)(m \<mapsto> \<lparr>m_sender = p, m_payload = v\<rparr>), lh_mem := lh_mem s1\<rparr> \<and>
      queue s1 msgFree_h = map M_LIST fr \<and> queue s1 (MSG_INBOX p) = queue ?t (MSG_INBOX p) @ [M_LIST m] \<and>
      queue s1 readyQueue = queue ?t readyQueue @ (if p = current_process ?t \<or> ready ?t p then [] else [P_LIST p]) \<and>
      kept {msgFree_h, MSG_INBOX p, readyQueue} ?t s1"
    by (rule send_delivers_full) (use ok f al in simp_all)
  then obtain s1 where s1: "send p p v ?t = Some (0, s1)" "nucleus_ok s1"
      "s1 = ?t\<lparr>msgs := (msgs ?t)(m \<mapsto> \<lparr>m_sender = p, m_payload = v\<rparr>), lh_mem := lh_mem s1\<rparr>"
      "queue s1 msgFree_h = map M_LIST fr" "queue s1 (MSG_INBOX p) = queue s (MSG_INBOX p) @ [M_LIST m]" by auto
  let ?s = "advance_pc (set_exc_reg reg_v0 0 s1)"
  have e: "exception_state ?s = ret_state 0 ?st" "pcbs ?s = pcbs s" "msgs ?s = (msgs s)(m \<mapsto> \<lparr>m_sender = p, m_payload = v\<rparr>)"
    "mem ?s = mem s" "current_process ?s = p" "lh_mem ?s = lh_mem s1"
    by (subst s1(3), simp add: advance_pc_def set_exc_reg_def ret_state_def ok(2))+
  have "nucleus_ok ?s" by (rule nucleus_ok_nondata [OF _ _ _ _ _ _ _ _ s1(2)]) (simp_all add: advance_pc_def set_exc_reg_def)
  moreover have "queue ?s = queue s1" by (rule queue_cong) (rule e(6))
  moreover have "syscall ?st s = Some (LDST (ret_state 0 ?st), ?s)"
    using s1(1) ok(2) e(1) by (simp add: syscall_send [OF at_calling [OF c]] Let_def)
  from kernel_call_returns [OF this] e(5) ok(2) have "kernel_call st (SENDMESSAGE, p, v) s = Some (0, ?s)" by simp
  ultimately show ?thesis using e s1(4,5) by auto
qed

lemma receives_first:
  assumes ok: "nucleus_ok s" "current_process s = p" "p \<noteq> NULL" and inb: "queue s (MSG_INBOX p) = map M_LIST (m # ms)"
    and y: "msgs s m = Some y" and f: "queue s msgFree_h = map M_LIST fr" and c: "at_call a b c st"
  shows "\<exists>s'. kernel_call st (RECEIVEMESSAGE, ANYMESSAGE, 0) s = Some (m_sender y, s') \<and> nucleus_ok s' \<and> current_process s' = p \<and>
    mem s' = mem s \<and> queue s' (MSG_INBOX p) = map M_LIST ms \<and> queue s' msgFree_h = map M_LIST (fr @ [m])"
proof -
  let ?st = "calling st RECEIVEMESSAGE ANYMESSAGE 0"
  let ?t = "trap ?st s"
  have g: "recv_guard ANYMESSAGE ?t" using ok(2,3) by (simp add: recv_guard_def)
  have fi: "find (accepts ?t ANYMESSAGE) (caller_inbox ?t) = Some (M_LIST m)" using ok(2) inb y by (simp add: accepts_def)
  have "nucleus_ok ?t" "msgs ?t m = Some y" using ok(1) y by simp_all
  from recv_takes_first_full [where a = 0, OF this(1) g fi this(2)] obtain s1 where
    s1: "recv ANYMESSAGE 0 ?t = Some (RETURN, s1)" "nucleus_ok s1" "queue s1 (MSG_INBOX p) = map M_LIST ms"
    "queue s1 msgFree_h = map M_LIST (fr @ [m])" "s1 = received 0 y (lh_mem s1) ?t" "current_process s1 = p"
    using ok(2) inb f by auto
  let ?s = "advance_pc s1"
  have e: "exception_state ?s = ret_state (m_sender y) ?st" "mem ?s = mem s" "current_process ?s = p" "lh_mem ?s = lh_mem s1"
    by (subst s1(5), simp add: received_def Let_def advance_pc_def set_exc_reg_def ret_state_def ok(2))+
  have "nucleus_ok ?s" by (rule nucleus_ok_nondata [OF _ _ _ _ _ _ _ _ s1(2)]) (simp_all add: advance_pc_def)
  moreover have "queue ?s = queue s1" by (rule queue_cong) (rule e(4))
  moreover have "syscall ?st s = Some (LDST (ret_state (m_sender y) ?st), ?s)"
    using s1(1) e(1) by (simp add: syscall_recv [OF at_calling [OF c]] Let_def)
  from kernel_call_returns [OF this] e(3) ok(2) have "kernel_call st (RECEIVEMESSAGE, ANYMESSAGE, 0) s = Some (m_sender y, ?s)" by simp
  ultimately show ?thesis using e s1(3,4) by auto
qed

lemma inbox_message:
  assumes "nucleus_ok s" "current_process s = p" "p \<noteq> NULL" "queue s (MSG_INBOX p) = map M_LIST inb"
  shows "distinct inb" "m \<in> set inb \<Longrightarrow> \<exists>y. msgs s m = Some y"
proof -
  obtain A where A: "kernel_inv s A" using nucleus_okE [OF assms(1)] by blast
  from current_facts(1) [OF A] assms(2,3) have "allocated s p" by simp
  then obtain ms where ms: "inbox A (MSG_INBOX p) ms" "queue s (MSG_INBOX p) = map M_LIST ms" using inbox_of [OF A] by blast
  have q: "A (MSG_INBOX p) = Some (map M_LIST inb)" using ms assms(4) by simp
  have "distinct (map M_LIST inb)" using represents_dlist [OF kernel_invD(1) [OF A] q] by (simp add: dlist_def)
  then show "distinct inb" by (simp add: distinct_map)
  show "\<exists>y. msgs s m = Some y" if "m \<in> set inb"
    using represents_node [OF kernel_invD(1) [OF A] q, of "M_LIST m"] that by auto
qed

text \<open>C19.  The first check of the root process, its calls carried out by the nucleus.  It sends itself a message
  and receives from anybody.  From any state of the nucleus with a free message in which it runs: when
  its inbox is empty, or the message that has waited longest is its own, the check passes; when that
  message is another's, the root process panics.  Either way it has taken the first message, its own is
  last in its inbox, and the nucleus is well formed.\<close>

theorem self_check_decides:
  assumes "nucleus_ok (nuc w)" "current_process (nuc w) = p" "p \<noteq> NULL" "at_call a b c st"
    and "queue (nuc w) (MSG_INBOX p) = map M_LIST inb" "queue (nuc w) msgFree_h = map M_LIST (m # fr)"
  shows "\<exists>w'. run (test_self T) (kernel_env st) w =
      (if \<forall>m' ms y. inb = m' # ms \<and> msgs (nuc w) m' = Some y \<longrightarrow> m_sender y = p then Done () else Left PANIC, w') \<and>
    mem (nuc w') = (mem (nuc w))(var T test_pcb := p) \<and> nucleus_ok (nuc w') \<and> current_process (nuc w') = p \<and>
    queue (nuc w') (MSG_INBOX p) = map M_LIST (tl (inb @ [m])) \<and> queue (nuc w') msgFree_h = map M_LIST (fr @ [hd (inb @ [m])])"
proof -
  let ?s = "store (var T test_pcb) p (nuc w)"
  have q: "queue ?s = queue (nuc w)" by (rule queue_cong) (simp add: store_def)
  have ok: "nucleus_ok ?s" by (rule nucleus_ok_nondata [OF _ _ _ _ _ _ _ _ assms(1)]) (simp_all add: store_def)
  have cp: "current_process ?s = p" "mem ?s (var T test_pcb) = p" "msgs ?s = msgs (nuc w)" using assms(2) by (simp_all add: store_def)
  have "queue ?s msgFree_h = map M_LIST (m # fr)" using assms(6) q by simp
  from sends_to_self [OF ok cp(1) assms(3) this assms(4), of 0] obtain s1 where
    s1: "kernel_call st (SENDMESSAGE, p, 0) ?s = Some (0, s1)" "nucleus_ok s1" "current_process s1 = p" "mem s1 = mem ?s"
    "msgs s1 = (msgs (nuc w))(m \<mapsto> \<lparr>m_sender = p, m_payload = 0\<rparr>)"
    "queue s1 (MSG_INBOX p) = map M_LIST (inb @ [m])" "queue s1 msgFree_h = map M_LIST fr" using q assms(5) cp(3) by auto
  obtain m' ms where h: "inb @ [m] = m' # ms" by (cases "inb @ [m]") auto
  have "m' \<in> set (inb @ [m])" using h by simp
  from inbox_message(2) [OF s1(2,3) assms(3) s1(6) this] obtain y where y: "msgs s1 m' = Some y" by blast
  from receives_first [OF s1(2,3) assms(3) _ y s1(7) assms(4)] s1(6) obtain s2 where
    s2: "kernel_call st (RECEIVEMESSAGE, ANYMESSAGE, 0) s1 = Some (m_sender y, s2)" "nucleus_ok s2" "current_process s2 = p"
    "mem s2 = mem s1" "queue s2 (MSG_INBOX p) = map M_LIST ms" "queue s2 msgFree_h = map M_LIST (fr @ [m'])" unfolding h by auto
  have v: "mem s2 (var T test_pcb) = p" using s2(4) s1(4) cp(2) by simp
  have r: "run (test_self T) (kernel_env st) w = (if m_sender y = p then Done () else Left PANIC, w\<lparr>nuc := s2\<rparr>)"
    using s1(1) s2(1) v cp(2) assms(2)
    by (simp add: test_self_def set_var_def set_word_def syscall_on_def get_var_def word_at_def only_if_def run_seq kernel_env_def)
  have "(\<forall>m' ms y. inb = m' # ms \<and> msgs (nuc w) m' = Some y \<longrightarrow> m_sender y = p) \<longleftrightarrow> m_sender y = p"
  proof (cases inb)
    case Nil
    then show ?thesis using h y s1(5) by auto
  next
    case (Cons i ns)
    have "m' \<noteq> m" using inbox_message(1) [OF s1(2,3) assms(3) s1(6)] Cons h by auto
    then show ?thesis using Cons h y s1(5) by auto
  qed
  then show ?thesis using r s2 s1(4) h by (intro exI [of _ "w\<lparr>nuc := s2\<rparr>"]) (simp add: store_def)
qed

text \<open>The test process of the booted system runs it with an empty inbox.\<close>

theorem self_check_decides_witness:
  "\<exists>w w'. run (test_self demo_test) (kernel_env (demo_call 0 0 0)) w = (Done (), w') \<and> mem (nuc w') (var demo_test test_pcb) = p1"
proof -
  obtain s where s: "at_rest s p1" by (rule demo_rest_state)
  then obtain fr where f: "talk s p1 (ssi_pcb s) [] [] [] fr" "fr \<noteq> []" by (auto simp: at_rest_def)
  obtain w :: world where w: "nuc w = s" by (metis world.select_convs(1))
  obtain m fr' where "fr = m # fr'" using f(2) by (cases fr) auto
  then have "\<exists>w'. run (test_self demo_test) (kernel_env (demo_call 0 0 0)) w = (Done (), w') \<and> mem (nuc w') = (mem (nuc w))(var demo_test test_pcb := p1)"
    using self_check_decides [where w = w and p = p1 and inb = "[]" and m = m and fr = fr' and T = demo_test, OF _ _ _ demo_at_call [of 0 0 0]]
      talkD(1,2,6,9) [OF f(1)] by (auto simp: w)
  then obtain w' where w': "run (test_self demo_test) (kernel_env (demo_call 0 0 0)) w = (Done (), w')"
    "mem (nuc w') = (mem (nuc w))(var demo_test test_pcb := p1)" by blast
  have "mem (nuc w') (var demo_test test_pcb) = p1" by (simp add: w'(2))
  then show ?thesis using w'(1) by (intro exI conjI)
qed

section \<open>A process that does not panic\<close>

theorem test_panics_only_alive_witness:
  "fst (run (p10_code demo_test demo_frame) (\<lambda>_ _. None) demo_world) \<noteq> Left PANIC"
  by (rule test_panics_only_alive [where fr = demo_frame and T = demo_test]) (simp_all add: ends_caller_def)

section \<open>The process that prints\<close>

text \<open>Every character is acknowledged.\<close>

definition acknowledges :: "frame \<Rightarrow> env \<Rightarrow> bool" where
  "acknowledges fr E \<longleftrightarrow> (\<forall>b w v w'. E (RECEIVEMESSAGE, b, fr L_status) w = Some (v, w') \<longrightarrow>
     mem (nuc w') (fr L_status) AND TERMSTATMASK = RECVD)"

text \<open>Where the terminal process of the support level has the variables of the one of the test.\<close>

definition same_frame :: "frame \<Rightarrow> locals \<Rightarrow> bool" where
  "same_frame fr lv \<longleftrightarrow> lv V_print_msg = fr L_msg \<and> lv V_print_io = fr L_do_io \<and> lv V_print_payload = fr L_io_payload \<and>
     lv V_print_status = fr L_status"

lemma test_print_char_run:
  assumes "acknowledges fr E" "same_frame fr lv"
  shows "run (test_print_char fr c) E w = run (print_char lv 0 IL_TERMINAL c) E w \<and>
    calls (test_print_char fr c) E w = calls (print_char lv 0 IL_TERMINAL c) E w"
proof -
  let ?w = "w\<lparr>nuc := (nuc w)\<lparr>ssi_do_ios := (ssi_do_ios (nuc w))(fr L_do_io \<mapsto> \<lparr>commandAddr = TERM0ADDR + 4 * 3,
      commandValue = PRINTCHR OR push_bit 8 (char_word c)\<rparr>),
     ssi_payloads := (ssi_payloads (nuc w))(fr L_io_payload \<mapsto> \<lparr>service_code = DOIO, arg = fr L_do_io\<rparr>)\<rparr>\<rparr>"
  have e: "run (print_char lv 0 IL_TERMINAL c) E w = run (ask_ssi (fr L_io_payload) (fr L_status)) E ?w"
    "calls (print_char lv 0 IL_TERMINAL c) E w = calls (ask_ssi (fr L_io_payload) (fr L_status)) E ?w"
    using assms(2)
    by (simp_all add: print_char_def put_payload_def run_seq calls_seq same_frame_def device_command_def device_base_def)
  have t: "run (test_print_char fr c) E w = run (seq (ask_ssi (fr L_io_payload) (fr L_status))
      (\<lambda>_. steps [seq (word_at (fr L_status)) (\<lambda>st. only_if (st AND TERMSTATMASK \<noteq> RECVD) (Jump PANIC))])) E ?w"
    "calls (test_print_char fr c) E w = calls (seq (ask_ssi (fr L_io_payload) (fr L_status))
      (\<lambda>_. steps [seq (word_at (fr L_status)) (\<lambda>st. only_if (st AND TERMSTATMASK \<noteq> RECVD) (Jump PANIC))])) E ?w"
    by (simp_all add: test_print_char_def put_payload_def run_seq calls_seq)
  have "mem (nuc w') (fr L_status) AND TERMSTATMASK = RECVD"
    if "run (ask_ssi (fr L_io_payload) (fr L_status)) E ?w = (Done (), w')" for w'
    using that assms(1) by (auto simp: ask_ssi_def run_seq acknowledges_def split: option.splits prod.splits)
  then show ?thesis unfolding e t
    by (auto simp: run_seq calls_seq word_at_def only_if_def split: prod.splits outcome.splits)
qed

lemma test_print_string_run:
  assumes "acknowledges fr E" "same_frame fr lv"
  shows "run (test_print_string n fr s) E w = run (print_string n lv 0 IL_TERMINAL s) E w \<and>
    calls (test_print_string n fr s) E w = calls (print_string n lv 0 IL_TERMINAL s) E w"
proof (induction n arbitrary: s w)
  case 0
  show ?case by simp
next
  case (Suc n)
  then show ?case using test_print_char_run [OF assms]
    by (auto simp: run_seq calls_seq split: prod.splits outcome.splits)
qed

text \<open>As long as the terminal acknowledges every character, the process of the test that prints does
  exactly what the terminal process of the support level does for the first terminal: the same calls in the
  same states with the same outcome.\<close>

theorem test_prints_like_terminal:
  assumes "acknowledges fr E" "same_frame fr lv"
  shows "run (print_p2test n fr) E w = run (printDevice n lv 0 IL_TERMINAL) E w \<and>
    calls (print_p2test n fr) E w = calls (printDevice n lv 0 IL_TERMINAL) E w"
  using test_print_string_run [OF assms] assms(2)
  by (auto simp: print_p2test_def printDevice_def run_seq calls_seq word_at_def same_frame_def split: option.splits prod.splits outcome.splits)

text \<open>The process with a message at hand, on a terminal that acknowledges.\<close>

definition terminal_env :: env where
  "terminal_env c w = (case c of (a, b, p) \<Rightarrow>
     Some (p0, w\<lparr>nuc := store p (if a = RECEIVEMESSAGE \<and> b = ANYMESSAGE \<and> p = demo_frame L_msg then 0x80001000 else RECVD) (nuc w)\<rparr>))"

definition terminal_lv :: locals where
  "terminal_lv v = (case v of V_print_msg \<Rightarrow> demo_frame L_msg | V_print_io \<Rightarrow> demo_frame L_do_io
     | V_print_payload \<Rightarrow> demo_frame L_io_payload | V_print_status \<Rightarrow> demo_frame L_status | _ \<Rightarrow> demo_lv v)"

theorem test_prints_like_terminal_witness:
  "run (print_p2test 10 demo_frame) terminal_env hello_world = run (printDevice 10 terminal_lv 0 IL_TERMINAL) terminal_env hello_world"
proof -
  have "demo_frame L_status \<noteq> demo_frame L_msg"
    by (rule apart) (simp add: demo_addresses local_index_def)
  then have "acknowledges demo_frame terminal_env" by (auto simp: acknowledges_def terminal_env_def store_def)
  from test_prints_like_terminal [OF this, of terminal_lv 10 hello_world] show ?thesis
    by (simp add: same_frame_def terminal_lv_def)
qed

end
