(* ===== verification/P1test.thy ===== *)
theory P1test
  imports Boot Sup_Utils
begin

text \<open>
  \<^verbatim>\<open>src/phase1/p1test.c\<close>: the test of the process control blocks and messages.  The program is
  a list of commands on its global variables and the state of phase 1; \<^verbatim>\<open>qa\<close> and
  \<^verbatim>\<open>qm\<close>, the list heads on the stack of \<^verbatim>\<open>main\<close>, are local heads.
\<close>

abbreviation (input) TRANSMITTED :: u32 where "TRANSMITTED \<equiv> 5"
abbreviation (input) CHAROFFSET :: nat where "CHAROFFSET \<equiv> 8"
abbreviation (input) STATUSMASK :: u32 where "STATUSMASK \<equiv> 0xFF"
abbreviation (input) BUSY :: u32 where "BUSY \<equiv> 3"
abbreviation (input) DEVPERINT :: u32 where "DEVPERINT \<equiv> 8"
abbreviation (input) DEVREGSIZE :: u32 where "DEVREGSIZE \<equiv> 16"
abbreviation (input) TRANSTATUS :: u32 where "TRANSTATUS \<equiv> 2"

abbreviation (input) qa :: lh where "qa \<equiv> LOCAL_HEAD 0"
abbreviation (input) qm :: lh where "qm \<equiv> LOCAL_HEAD 1"

section \<open>State and commands\<close>

record p1vars =
  procp :: "ptr list"
  v_p :: ptr
  v_q :: ptr
  firstproc :: ptr
  lastproc :: ptr
  midproc :: ptr
  msg_arr :: "ptr list"
  v_m :: ptr
  v_n :: ptr
  firstmsg :: ptr
  lastmsg :: ptr
  midmsg :: ptr
  v_o :: ptr

text \<open>\<open>okbuf\<close> is what the buffer holds up to \<^verbatim>\<open>mp\<close>.  \<open>dev_reads\<close> counts the reads of the status
  register of the terminal; the parameter \<open>D\<close> of the program says what each of them returns.\<close>

record p1state =
  kern :: sys
  vars :: p1vars
  okbuf :: string
  errbuf :: string
  dev_reads :: nat

text \<open>A command goes on, or stops: at the panic after an error message, at an access through a bad pointer or
  past a buffer, or waiting for a device that stays busy.\<close>

datatype p1stop = Panicked | Undefined | Waiting

type_synonym cmd = "p1state \<Rightarrow> (p1stop \<times> p1state) + p1state"

primrec run_cmds :: "cmd list \<Rightarrow> cmd" where
  "run_cmds [] t = Inr t"
| "run_cmds (c # cs) t = (case c t of Inl e \<Rightarrow> Inl e | Inr t' \<Rightarrow> run_cmds cs t')"

definition for_cmds :: "nat list \<Rightarrow> (nat \<Rightarrow> cmd list) \<Rightarrow> cmd" where
  "for_cmds is body = run_cmds (map (\<lambda>i. run_cmds (body i)) is)"

definition on_kern :: "(p1vars \<Rightarrow> sys \<Rightarrow> sys option) \<Rightarrow> cmd" where
  "on_kern f t = (case f (vars t) (kern t) of None \<Rightarrow> Inl (Undefined, t) | Some k \<Rightarrow> Inr (t\<lparr>kern := k\<rparr>))"

definition assign :: "(ptr \<Rightarrow> p1vars \<Rightarrow> p1vars) \<Rightarrow> (p1vars \<Rightarrow> sys \<Rightarrow> (ptr \<times> sys) option) \<Rightarrow> cmd" where
  "assign set_to f t = (case f (vars t) (kern t) of None \<Rightarrow> Inl (Undefined, t)
     | Some (r, k) \<Rightarrow> Inr (t\<lparr>kern := k, vars := set_to r (vars t)\<rparr>))"

definition set_vars :: "(p1vars \<Rightarrow> p1vars) \<Rightarrow> cmd" where
  "set_vars f t = Inr (t\<lparr>vars := f (vars t)\<rparr>)"

section \<open>The terminal\<close>

definition termstat :: "(nat \<Rightarrow> u32) \<Rightarrow> p1state \<Rightarrow> u32 \<times> p1state" where
  "termstat D t = (D (dev_reads t) AND STATUSMASK, t\<lparr>dev_reads := Suc (dev_reads t)\<rparr>)"

text \<open>\<^verbatim>\<open>stat = termstat(statusp); while (stat == BUSY) stat = termstat(statusp);\<close> with at most
  \<open>n\<close> further reads.\<close>

primrec wait_idle :: "nat \<Rightarrow> (nat \<Rightarrow> u32) \<Rightarrow> p1state \<Rightarrow> (u32 \<times> p1state) option" where
  "wait_idle 0 D t = (let (stat, t') = termstat D t in if stat = BUSY then None else Some (stat, t'))"
| "wait_idle (Suc n) D t = (let (stat, t') = termstat D t in if stat = BUSY then wait_idle n D t' else Some (stat, t'))"

definition command_addr :: "u32 \<Rightarrow> u32" where
  "command_addr nr = TERM0ADDR + nr * DEVREGSIZE + TRANCOMMAND * DEVREGLEN"

primrec print_loop :: "nat \<Rightarrow> (nat \<Rightarrow> u32) \<Rightarrow> u32 \<Rightarrow> string \<Rightarrow> p1state \<Rightarrow> (bool \<times> p1state) option" where
  "print_loop n D nr [] t = Some (True, t)"
| "print_loop n D nr (c # cs) t =
     (case wait_idle n D (t\<lparr>kern := store (command_addr nr) (push_bit CHAROFFSET (char_word c) OR PRINTCHR) (kern t)\<rparr>) of
        None \<Rightarrow> None
      | Some (stat, t') \<Rightarrow> if stat \<noteq> TRANSMITTED then Some (False, t') else print_loop n D nr cs t')"

definition termprint :: "nat \<Rightarrow> (nat \<Rightarrow> u32) \<Rightarrow> string \<Rightarrow> u32 \<Rightarrow> p1state \<Rightarrow> (bool \<times> p1state) option" where
  "termprint n D str nr t =
     (if nr < DEVPERINT then
        let (stat, t') = termstat D t in
        if stat = READY \<or> stat = TRANSMITTED then print_loop n D nr str t' else Some (False, t')
      else Some (False, t))"

section \<open>Messages\<close>

text \<open>The copy includes the final null character, which the next message overwrites.\<close>

definition addokbuf :: "nat \<Rightarrow> (nat \<Rightarrow> u32) \<Rightarrow> string \<Rightarrow> cmd" where
  "addokbuf n D str t =
     (if length (okbuf t) + length str < 2048 then
        case termprint n D str 0 (t\<lparr>okbuf := okbuf t @ str\<rparr>) of
          None \<Rightarrow> Inl (Waiting, t) | Some (_, t') \<Rightarrow> Inr t'
      else Inl (Undefined, t))"

definition adderrbuf :: "nat \<Rightarrow> (nat \<Rightarrow> u32) \<Rightarrow> string \<Rightarrow> cmd" where
  "adderrbuf n D str t =
     (if length str < 128 then
        case termprint n D str 0 (t\<lparr>errbuf := str\<rparr>) of
          None \<Rightarrow> Inl (Waiting, t) | Some (_, t') \<Rightarrow> Inl (Panicked, t')
      else Inl (Undefined, t))"

text \<open>\<^verbatim>\<open>if (...) adderrbuf(...)\<close>, and the same with a call in the condition.\<close>

definition check :: "nat \<Rightarrow> (nat \<Rightarrow> u32) \<Rightarrow> (p1vars \<Rightarrow> sys \<Rightarrow> bool option) \<Rightarrow> string \<Rightarrow> cmd" where
  "check n D b str t = (case b (vars t) (kern t) of None \<Rightarrow> Inl (Undefined, t)
     | Some e \<Rightarrow> if e then adderrbuf n D str t else Inr t)"

definition check_call :: "nat \<Rightarrow> (nat \<Rightarrow> u32) \<Rightarrow> (p1vars \<Rightarrow> sys \<Rightarrow> (ptr \<times> sys) option) \<Rightarrow> (ptr \<Rightarrow> bool) \<Rightarrow> string \<Rightarrow> cmd" where
  "check_call n D f b str t = (case f (vars t) (kern t) of None \<Rightarrow> Inl (Undefined, t)
     | Some (r, k) \<Rightarrow> if b r then adderrbuf n D str (t\<lparr>kern := k\<rparr>) else Inr (t\<lparr>kern := k\<rparr>))"

definition set_q :: "ptr \<Rightarrow> p1vars \<Rightarrow> p1vars" where "set_q r v = v\<lparr>v_q := r\<rparr>"
definition set_m :: "ptr \<Rightarrow> p1vars \<Rightarrow> p1vars" where "set_m r v = v\<lparr>v_m := r\<rparr>"
definition set_n :: "ptr \<Rightarrow> p1vars \<Rightarrow> p1vars" where "set_n r v = v\<lparr>v_n := r\<rparr>"

section \<open>The test\<close>

text \<open>Allocation.\<close>

definition p1_alloc :: "nat \<Rightarrow> (nat \<Rightarrow> u32) \<Rightarrow> cmd list" where
  "p1_alloc n D = [
     on_kern (\<lambda>v s. Some (initPcbs s)),
     addokbuf n D ''Initialized process control blocks\<newline>'',
     for_cmds [0..<MAXPROC] (\<lambda>i. [
       assign (\<lambda>r v. v\<lparr>procp := (procp v)[i := r]\<rparr>) (\<lambda>v. allocPcb),
       check n D (\<lambda>v s. Some (procp v ! i = NULL)) ''allocPcb: unexpected NULL\<newline>'']),
     check_call n D (\<lambda>v. allocPcb) (\<lambda>r. r \<noteq> NULL) ''allocPcb: allocated more than MAXPROC entries\<newline>'',
     addokbuf n D ''allocPcb ok\<newline>'',
     for_cmds [10..<MAXPROC] (\<lambda>i. [on_kern (\<lambda>v. freePcb (procp v ! i))]),
     addokbuf n D ''freed 10 entries\<newline>'']"

text \<open>\<^verbatim>\<open>switch (i)\<close>.\<close>

definition note_proc :: "nat \<Rightarrow> p1vars \<Rightarrow> p1vars" where
  "note_proc i v = (if i = 0 then v\<lparr>firstproc := v_q v\<rparr> else if i = 5 then v\<lparr>midproc := v_q v\<rparr>
     else if i = 9 then v\<lparr>lastproc := v_q v\<rparr> else v)"

text \<open>Process queues.\<close>

definition p1_insert :: "nat \<Rightarrow> (nat \<Rightarrow> u32) \<Rightarrow> cmd list" where
  "p1_insert n D = [
     on_kern (\<lambda>v s. Some (mkEmptyProcQ qa s)),
     check n D (\<lambda>v s. Some (\<not> emptyProcQ qa s)) ''emptyProcQ: unexpected FALSE\<newline>'',
     addokbuf n D ''Inserting...   \<newline>'',
     for_cmds [0..<10] (\<lambda>i. [
       assign set_q (\<lambda>v. allocPcb),
       check n D (\<lambda>v s. Some (v_q v = NULL)) ''allocPcb: unexpected NULL while insert\<newline>'',
       set_vars (note_proc i),
       on_kern (\<lambda>v. insertProcQ qa (v_q v))]),
     addokbuf n D ''inserted 10 elements\<newline>'',
     check n D (\<lambda>v s. Some (emptyProcQ qa s)) ''emptyProcQ: unexpected TRUE\<newline>'']"

definition p1_out :: "nat \<Rightarrow> (nat \<Rightarrow> u32) \<Rightarrow> cmd list" where
  "p1_out n D = [
     check n D (\<lambda>v s. map_option (\<lambda>r. r \<noteq> firstproc v) (headProcQ qa s)) ''headProcQ failed\<newline>'',
     assign set_q (\<lambda>v. outProcQ qa (firstproc v)),
     check n D (\<lambda>v s. Some (v_q v = NULL \<or> v_q v \<noteq> firstproc v)) ''outProcQ failed on first entry\<newline>'',
     on_kern (\<lambda>v. freePcb (v_q v)),
     assign set_q (\<lambda>v. outProcQ qa (midproc v)),
     check n D (\<lambda>v s. Some (v_q v = NULL \<or> v_q v \<noteq> midproc v)) ''outProcQ failed on middle entry\<newline>'',
     on_kern (\<lambda>v. freePcb (v_q v)),
     check_call n D (\<lambda>v. outProcQ qa (procp v ! 0)) (\<lambda>r. r \<noteq> NULL) ''outProcQ failed on nonexistent entry\<newline>'',
     addokbuf n D ''outProcQ ok   \<newline>'']"

definition p1_remove :: "nat \<Rightarrow> (nat \<Rightarrow> u32) \<Rightarrow> cmd list" where
  "p1_remove n D = [
     addokbuf n D ''Removing...   \<newline>'',
     for_cmds [0..<8] (\<lambda>i. [
       assign set_q (\<lambda>v. removeProcQ qa),
       check n D (\<lambda>v s. Some (v_q v = NULL)) ''removeProcQ: unexpected NULL\<newline>'',
       on_kern (\<lambda>v. freePcb (v_q v))]),
     check n D (\<lambda>v s. Some (v_q v \<noteq> lastproc v)) ''removeProcQ: failed on last entry\<newline>'',
     check_call n D (\<lambda>v. removeProcQ qa) (\<lambda>r. r \<noteq> NULL) ''removeProcQ: removes too many entries\<newline>'',
     check n D (\<lambda>v s. Some (\<not> emptyProcQ qa s)) ''emptyProcQ: unexpected FALSE\<newline>'',
     addokbuf n D ''insertProcQ, removeProcQ and emptyProcQ ok   \<newline>'',
     addokbuf n D ''process queues module ok      \<newline>'']"

text \<open>The process tree.\<close>

definition p1_children :: "nat \<Rightarrow> (nat \<Rightarrow> u32) \<Rightarrow> cmd list" where
  "p1_children n D = [
     addokbuf n D ''checking process trees...\<newline>'',
     check n D (\<lambda>v s. map_option Not (emptyChild (procp v ! 2) s)) ''emptyChild: unexpected FALSE   \<newline>'',
     addokbuf n D ''Inserting...   \<newline>'',
     for_cmds [1..<10] (\<lambda>i. [on_kern (\<lambda>v. insertChild (procp v ! 0) (procp v ! i))]),
     addokbuf n D ''Inserted 9 children   \<newline>'',
     check n D (\<lambda>v s. if lh_valid s (P_CHILD (procp v ! 0)) then Some (nxt (lh_mem s) (P_CHILD (procp v ! 0)) \<noteq> P_SIB (procp v ! 1)) else None)
       ''insertChild: p_child.next should point to the p_sib of the first child   \<newline>'',
     check n D (\<lambda>v. emptyChild (procp v ! 0)) ''emptyChild: unexpected TRUE  \<newline>'',
     assign set_q (\<lambda>v. outChild (procp v ! 1)),
     check n D (\<lambda>v s. Some (v_q v = NULL \<or> v_q v \<noteq> procp v ! 1)) ''outChild failed on first child   \<newline>'',
     assign set_q (\<lambda>v. outChild (procp v ! 4)),
     check n D (\<lambda>v s. Some (v_q v = NULL \<or> v_q v \<noteq> procp v ! 4)) ''outChild failed on middle child   \<newline>'',
     check_call n D (\<lambda>v. outChild (procp v ! 0)) (\<lambda>r. r \<noteq> NULL) ''outChild failed on nonexistent child   \<newline>'',
     addokbuf n D ''outChild ok   \<newline>'']"

definition p1_remove_children :: "nat \<Rightarrow> (nat \<Rightarrow> u32) \<Rightarrow> cmd list" where
  "p1_remove_children n D = [
     addokbuf n D ''Removing...   \<newline>'',
     for_cmds [0..<7] (\<lambda>i. [
       assign set_q (\<lambda>v. removeChild (procp v ! 0)),
       check n D (\<lambda>v s. Some (v_q v = NULL)) ''removeChild: unexpected NULL   \<newline>'']),
     check_call n D (\<lambda>v. removeChild (procp v ! 0)) (\<lambda>r. r \<noteq> NULL) ''removeChild: removes too many children   \<newline>'',
     check n D (\<lambda>v s. map_option Not (emptyChild (procp v ! 0) s)) ''emptyChild: unexpected FALSE   \<newline>'',
     addokbuf n D ''insertChild, removeChild and emptyChild ok   \<newline>'',
     addokbuf n D ''process tree module ok      \<newline>'',
     for_cmds [0..<10] (\<lambda>i. [on_kern (\<lambda>v. freePcb (procp v ! i))])]"

text \<open>Messages.\<close>

definition note_msg :: "nat \<Rightarrow> p1vars \<Rightarrow> p1vars" where
  "note_msg i v = (if i = 0 then v\<lparr>firstmsg := v_m v\<rparr> else if i = 5 then v\<lparr>midmsg := v_m v\<rparr>
     else if i = 9 then v\<lparr>lastmsg := v_m v\<rparr> else v)"

definition p1_messages :: "nat \<Rightarrow> (nat \<Rightarrow> u32) \<Rightarrow> cmd list" where
  "p1_messages n D = [
     on_kern (\<lambda>v s. Some (initMsgs s)),
     addokbuf n D ''Initialized messages   \<newline>'',
     for_cmds [0..<MAXMESSAGES] (\<lambda>i. [
       assign (\<lambda>r v. v\<lparr>msg_arr := (msg_arr v)[i := r]\<rparr>) (\<lambda>v. allocMsg),
       check n D (\<lambda>v s. Some (msg_arr v ! i = NULL)) ''allocMsg: unexpected NULL   \<newline>'']),
     check_call n D (\<lambda>v. allocMsg) (\<lambda>r. r \<noteq> NULL) ''allocMsg: allocated more than MAXMESSAGES entries   \<newline>'',
     addokbuf n D ''allocMsg ok   \<newline>'',
     for_cmds [5..<MAXMESSAGES] (\<lambda>i. [on_kern (\<lambda>v. freeMsg (msg_arr v ! i))]),
     addokbuf n D ''freed 15 entries   \<newline>'']"

definition p1_insert_messages :: "nat \<Rightarrow> (nat \<Rightarrow> u32) \<Rightarrow> cmd list" where
  "p1_insert_messages n D = [
     on_kern (\<lambda>v s. Some (mkEmptyMessageQ qm s)),
     check n D (\<lambda>v s. Some (\<not> emptyMessageQ qm s)) ''emptyMessageQ: unexpected FALSE   \<newline>'',
     addokbuf n D ''Inserting...   \<newline>'',
     for_cmds [0..<10] (\<lambda>i. [
       assign set_m (\<lambda>v. allocMsg),
       check n D (\<lambda>v s. Some (v_m v = NULL)) ''allocMsg: unexpected NULL while insert   \<newline>'',
       set_vars (note_msg i),
       on_kern (\<lambda>v. insertMessage qm (v_m v))]),
     addokbuf n D ''inserted 10 elements   \<newline>'',
     check n D (\<lambda>v s. Some (emptyMessageQ qm s)) ''emptyMessageQ: unexpected TRUE\<newline>'']"

definition p1_pop :: "nat \<Rightarrow> (nat \<Rightarrow> u32) \<Rightarrow> cmd list" where
  "p1_pop n D = [
     check n D (\<lambda>v s. map_option (\<lambda>r. r \<noteq> firstmsg v) (headMessage qm s)) ''headMessage failed   \<newline>'',
     addokbuf n D ''headMessage ok   \<newline>'',
     assign set_n (\<lambda>v. popMessage qm NULL),
     check n D (\<lambda>v s. Some (v_n v = NULL \<or> v_n v \<noteq> firstmsg v)) ''popMessage failed with NULL pcb   \<newline>'',
     on_kern (\<lambda>v. freeMsg (v_n v)),
     addokbuf n D ''popMessage with NULL pcb ok   \<newline>'',
     assign set_n (\<lambda>v. allocMsg),
     on_kern (\<lambda>v. pushMessage qm (v_n v)),
     check n D (\<lambda>v s. map_option (\<lambda>r. r \<noteq> v_n v) (headMessage qm s)) ''pushMessage failed   \<newline>'',
     addokbuf n D ''pushMessage ok   \<newline>'',
     assign set_n (\<lambda>v. allocMsg),
     on_kern (\<lambda>v. insertMessage qm (v_n v)),
     check n D (\<lambda>v s. map_option (\<lambda>r. r \<noteq> v_n v) (container_of_m_list (list_prev qm (lh_mem s)))) ''insertMessage failed  \<newline>'',
     addokbuf n D ''insertMessage ok   \<newline>'']"

definition p1_pop_sender :: "nat \<Rightarrow> (nat \<Rightarrow> u32) \<Rightarrow> cmd list" where
  "p1_pop_sender n D = [
     assign (\<lambda>r v. v\<lparr>v_p := r\<rparr>) (\<lambda>v. allocPcb),
     assign set_m (\<lambda>v. allocMsg),
     on_kern (\<lambda>v. upd_msg (v_m v) (\<lambda>x. x\<lparr>m_sender := v_p v\<rparr>)),
     on_kern (\<lambda>v. insertMessage qm (v_m v)),
     assign set_n (\<lambda>v. allocMsg),
     on_kern (\<lambda>v. upd_msg (v_n v) (\<lambda>x. x\<lparr>m_sender := v_p v\<rparr>)),
     on_kern (\<lambda>v. insertMessage qm (v_n v)),
     assign (\<lambda>r v. v\<lparr>v_o := r\<rparr>) (\<lambda>v. popMessage qm (v_p v)),
     check n D (\<lambda>v s. Some (v_o v = NULL \<or> v_o v \<noteq> v_m v)) ''popMessage failed with pcb   \<newline>'',
     addokbuf n D ''popMessage with pcb ok   \<newline>'',
     addokbuf n D ''messages queue module ok      \<newline>'',
     addokbuf n D ''So long, and thanks for all the fish\<newline>'']"

definition main_p1test :: "nat \<Rightarrow> (nat \<Rightarrow> u32) \<Rightarrow> cmd" where
  "main_p1test n D = run_cmds [
     run_cmds (p1_alloc n D), run_cmds (p1_insert n D), run_cmds (p1_out n D), run_cmds (p1_remove n D),
     run_cmds (p1_children n D), run_cmds (p1_remove_children n D), run_cmds (p1_messages n D),
     run_cmds (p1_insert_messages n D), run_cmds (p1_pop n D), run_cmds (p1_pop_sender n D)]"

end
