(* ===== verification/P1test_Correct.thy ===== *)
theory P1test_Correct
  imports P1test
begin

text \<open>
  What the operations of phase 1 do to the lists the test uses, and rules for the commands of the test.
  The lists are those of one family of queues; a head in a local variable is as good as a global one.
\<close>

section \<open>The lists of the test\<close>

record pools =
  free :: "ptr list"
  queue :: "ptr list option"
  kids :: "ptr \<Rightarrow> ptr list option"
  par :: "ptr \<Rightarrow> ptr option"
  mfree :: "ptr list option"
  mqueue :: "ptr list option"
  senders :: "ptr \<Rightarrow> ptr option"

fun heads :: "pools \<Rightarrow> queues" where
  "heads B pcbFree_h = Some (map P_LIST (free B))"
| "heads B (P_CHILD p) = map_option (map P_SIB) (kids B p)"
| "heads B msgFree_h = map_option (map M_LIST) (mfree B)"
| "heads B (LOCAL_HEAD k) = (if k = 0 then map_option (map P_LIST) (queue B)
     else if k = 1 then map_option (map M_LIST) (mqueue B) else None)"
| "heads B _ = None"

lemma heads_upd [simp]:
  "heads (B\<lparr>free := ps\<rparr>) = (heads B)(pcbFree_h \<mapsto> map P_LIST ps)"
  "heads (B\<lparr>queue := Some ps\<rparr>) = (heads B)(qa \<mapsto> map P_LIST ps)"
  "heads (B\<lparr>kids := (kids B)(p \<mapsto> cs)\<rparr>) = (heads B)(P_CHILD p \<mapsto> map P_SIB cs)"
  "heads (B\<lparr>mfree := Some ms\<rparr>) = (heads B)(msgFree_h \<mapsto> map M_LIST ms)"
  "heads (B\<lparr>mqueue := Some ms\<rparr>) = (heads B)(qm \<mapsto> map M_LIST ms)"
  "heads (B\<lparr>par := f\<rparr>) = heads B" "heads (B\<lparr>senders := g\<rparr>) = heads B"
proof -
  have "heads (B\<lparr>free := ps\<rparr>) l = ((heads B)(pcbFree_h \<mapsto> map P_LIST ps)) l"
    "heads (B\<lparr>queue := Some ps\<rparr>) l = ((heads B)(qa \<mapsto> map P_LIST ps)) l"
    "heads (B\<lparr>kids := (kids B)(p \<mapsto> cs)\<rparr>) l = ((heads B)(P_CHILD p \<mapsto> map P_SIB cs)) l"
    "heads (B\<lparr>mfree := Some ms\<rparr>) l = ((heads B)(msgFree_h \<mapsto> map M_LIST ms)) l"
    "heads (B\<lparr>mqueue := Some ms\<rparr>) l = ((heads B)(qm \<mapsto> map M_LIST ms)) l"
    "heads (B\<lparr>par := f\<rparr>) l = heads B l" "heads (B\<lparr>senders := g\<rparr>) l = heads B l" for l
    by (cases l; simp)+
  then show "heads (B\<lparr>free := ps\<rparr>) = (heads B)(pcbFree_h \<mapsto> map P_LIST ps)"
    "heads (B\<lparr>queue := Some ps\<rparr>) = (heads B)(qa \<mapsto> map P_LIST ps)"
    "heads (B\<lparr>kids := (kids B)(p \<mapsto> cs)\<rparr>) = (heads B)(P_CHILD p \<mapsto> map P_SIB cs)"
    "heads (B\<lparr>mfree := Some ms\<rparr>) = (heads B)(msgFree_h \<mapsto> map M_LIST ms)"
    "heads (B\<lparr>mqueue := Some ms\<rparr>) = (heads B)(qm \<mapsto> map M_LIST ms)"
    "heads (B\<lparr>par := f\<rparr>) = heads B" "heads (B\<lparr>senders := g\<rparr>) = heads B" by blast+
qed

lemma P_LIST_listed: "heads B l = Some xs \<Longrightarrow> P_LIST p \<in> set xs \<Longrightarrow> p \<in> set (free B) \<or> (\<exists>ps. queue B = Some ps \<and> p \<in> set ps)"
  by (cases l) (auto split: if_splits)

lemma P_SIB_listed: "heads B l = Some xs \<Longrightarrow> P_SIB p \<in> set xs \<Longrightarrow> \<exists>q cs. kids B q = Some cs \<and> p \<in> set cs"
  by (cases l) (fastforce split: if_splits)+

lemma M_LIST_listed: "heads B l = Some xs \<Longrightarrow> M_LIST m \<in> set xs \<Longrightarrow>
    (\<exists>ms. mfree B = Some ms \<and> m \<in> set ms) \<or> (\<exists>ms. mqueue B = Some ms \<and> m \<in> set ms)"
  by (cases l) (auto split: if_splits)

lemma head_not_listed:
  assumes "heads B l = Some xs"
  shows "pcbFree_h \<notin> set xs" "LOCAL_HEAD k \<notin> set xs" "P_CHILD p \<notin> set xs" "MSG_INBOX p \<notin> set xs"
  using assms by (cases l; auto split: if_splits)+

lemma not_nodes:
  "p \<notin> set (free B) \<Longrightarrow> (\<And>ps. queue B = Some ps \<Longrightarrow> p \<notin> set ps) \<Longrightarrow> P_LIST p \<notin> nodes (heads B)"
  "(\<And>q cs. kids B q = Some cs \<Longrightarrow> c \<notin> set cs) \<Longrightarrow> P_SIB c \<notin> nodes (heads B)"
  "(\<And>ms. mfree B = Some ms \<Longrightarrow> m \<notin> set ms) \<Longrightarrow> (\<And>ms. mqueue B = Some ms \<Longrightarrow> m \<notin> set ms) \<Longrightarrow> M_LIST m \<notin> nodes (heads B)"
  by (auto simp: nodes_def dest: P_LIST_listed P_SIB_listed M_LIST_listed)

text \<open>The two static arrays.\<close>

definition arrays :: "ptr list \<Rightarrow> ptr list \<Rightarrow> sys \<Rightarrow> bool" where
  "arrays P M s \<longleftrightarrow> pcbTable s = P \<and> msgTable s = M \<and> pcb_table_ok s \<and> msg_table_ok s"

lemma arrays_cong:
  "pcbTable s' = pcbTable s \<Longrightarrow> msgTable s' = msgTable s \<Longrightarrow> dom (pcbs s') = dom (pcbs s) \<Longrightarrow> dom (msgs s') = dom (msgs s) \<Longrightarrow>
    arrays P M s' = arrays P M s"
  by (auto simp: arrays_def pcb_table_ok_def msg_table_ok_def)

lemma arrays_upd [simp]:
  "arrays P M (s\<lparr>lh_mem := h\<rparr>) = arrays P M s" "arrays P M (s\<lparr>next_pid := k\<rparr>) = arrays P M s" "arrays P M (store a v s) = arrays P M s"
  by (rule arrays_cong; simp add: store_def)+

text \<open>The state of phase 1 with the lists \<open>B\<close>.\<close>

definition holds :: "ptr list \<Rightarrow> ptr list \<Rightarrow> sys \<Rightarrow> pools \<Rightarrow> bool" where
  "holds P M s B \<longleftrightarrow> queues_ok (lh_mem s) (heads B) \<and> arrays P M s \<and>
     set (free B) \<subseteq> set P \<and> (\<forall>ps. queue B = Some ps \<longrightarrow> set ps \<subseteq> set P) \<and>
     (\<forall>p cs. kids B p = Some cs \<longrightarrow> p \<in> set P \<and> set cs \<subseteq> set P) \<and>
     (\<forall>ms. mfree B = Some ms \<longrightarrow> set ms \<subseteq> set M) \<and> (\<forall>ms. mqueue B = Some ms \<longrightarrow> set ms \<subseteq> set M) \<and>
     (\<forall>p v. par B p = Some v \<longrightarrow> (\<exists>x. pcbs s p = Some x \<and> p_parent x = v)) \<and>
     (\<forall>m v. senders B m = Some v \<longrightarrow> (\<exists>x. msgs s m = Some x \<and> m_sender x = v))"

lemma holds_pcb: "holds P M s B \<Longrightarrow> p \<in> set P \<Longrightarrow> p \<noteq> NULL \<and> (\<exists>x. pcbs s p = Some x)"
  unfolding holds_def arrays_def pcb_table_ok_def by (metis domD)

lemma holds_msg: "holds P M s B \<Longrightarrow> m \<in> set M \<Longrightarrow> m \<noteq> NULL \<and> (\<exists>x. msgs s m = Some x)"
  unfolding holds_def arrays_def msg_table_ok_def by (metis domD)

lemma holds_ok: "holds P M s B \<Longrightarrow> queues_ok (lh_mem s) (heads B)"
  by (simp add: holds_def)

lemma holds_head: "holds P M s B \<Longrightarrow> heads B q = Some xs \<Longrightarrow> dlist (lh_mem s) q xs"
  by (auto dest: holds_ok queues_okD)

lemma holds_par: "holds P M s B \<Longrightarrow> par B p = Some v \<Longrightarrow> \<exists>x. pcbs s p = Some x \<and> p_parent x = v"
  unfolding holds_def by blast

lemma holds_sender: "holds P M s B \<Longrightarrow> senders B m = Some v \<Longrightarrow> \<exists>x. msgs s m = Some x \<and> m_sender x = v"
  unfolding holds_def by blast

text \<open>Changes of the list memory that carry the lists along.\<close>

lemma holds_free:
  "holds P M s B \<Longrightarrow> queues_ok h ((heads B)(pcbFree_h \<mapsto> map P_LIST ps)) \<Longrightarrow> set ps \<subseteq> set P \<Longrightarrow> holds P M (s\<lparr>lh_mem := h\<rparr>) (B\<lparr>free := ps\<rparr>)"
  by (simp add: holds_def)

lemma holds_queue:
  "holds P M s B \<Longrightarrow> queues_ok h ((heads B)(qa \<mapsto> map P_LIST ps)) \<Longrightarrow> set ps \<subseteq> set P \<Longrightarrow> holds P M (s\<lparr>lh_mem := h\<rparr>) (B\<lparr>queue := Some ps\<rparr>)"
  by (simp add: holds_def)

lemma holds_kids:
  "holds P M s B \<Longrightarrow> queues_ok h ((heads B)(P_CHILD p \<mapsto> map P_SIB cs)) \<Longrightarrow> p \<in> set P \<Longrightarrow> set cs \<subseteq> set P \<Longrightarrow>
    holds P M (s\<lparr>lh_mem := h\<rparr>) (B\<lparr>kids := (kids B)(p \<mapsto> cs)\<rparr>)"
  by (simp add: holds_def)

lemma holds_mfree:
  "holds P M s B \<Longrightarrow> queues_ok h ((heads B)(msgFree_h \<mapsto> map M_LIST ms)) \<Longrightarrow> set ms \<subseteq> set M \<Longrightarrow> holds P M (s\<lparr>lh_mem := h\<rparr>) (B\<lparr>mfree := Some ms\<rparr>)"
  by (simp add: holds_def)

lemma holds_mqueue:
  "holds P M s B \<Longrightarrow> queues_ok h ((heads B)(qm \<mapsto> map M_LIST ms)) \<Longrightarrow> set ms \<subseteq> set M \<Longrightarrow> holds P M (s\<lparr>lh_mem := h\<rparr>) (B\<lparr>mqueue := Some ms\<rparr>)"
  by (simp add: holds_def)

lemma holds_lists: "holds P M s B \<Longrightarrow> queues_ok h (heads B) \<Longrightarrow> holds P M (s\<lparr>lh_mem := h\<rparr>) B"
  by (simp add: holds_def)

lemma holds_upd_pcb:
  assumes "holds P M s B" "pcbs s p = Some x"
  shows "holds P M (s\<lparr>pcbs := (pcbs s)(p \<mapsto> y)\<rparr>) (B\<lparr>par := (par B)(p \<mapsto> p_parent y)\<rparr>)"
proof -
  have "dom ((pcbs s)(p \<mapsto> y)) = dom (pcbs s)" using assms(2) by auto
  then have "arrays P M (s\<lparr>pcbs := (pcbs s)(p \<mapsto> y)\<rparr>) = arrays P M s" by (intro arrays_cong) (simp_all del: dom_fun_upd)
  then show ?thesis using assms(1) by (auto simp: holds_def)
qed

lemma holds_upd_msg:
  assumes "holds P M s B" "msgs s m = Some x"
  shows "holds P M (s\<lparr>msgs := (msgs s)(m \<mapsto> y)\<rparr>) (B\<lparr>senders := (senders B)(m \<mapsto> m_sender y)\<rparr>)"
proof -
  have "dom ((msgs s)(m \<mapsto> y)) = dom (msgs s)" using assms(2) by auto
  then have "arrays P M (s\<lparr>msgs := (msgs s)(m \<mapsto> y)\<rparr>) = arrays P M s" by (intro arrays_cong) (simp_all del: dom_fun_upd)
  then show ?thesis using assms(1) by (auto simp: holds_def)
qed

lemma holds_mem [simp]: "holds P M (store a v s) B = holds P M s B" "holds P M (s\<lparr>next_pid := k\<rparr>) B = holds P M s B"
  by (simp_all add: holds_def) (simp add: store_def)

section \<open>Process control blocks\<close>

lemma inbox_not_node: "MSG_INBOX p \<notin> nodes (heads B)"
  by (auto simp: nodes_def dest: head_not_listed)

lemma allocPcb_none: "holds P M s B \<Longrightarrow> free B = [] \<Longrightarrow> allocPcb s = Some (NULL, s)"
  using holds_head [of P M s B pcbFree_h "[]"] by (simp add: allocPcb_def dlist_empty_iff)

lemma allocPcb_some:
  assumes h: "holds P M s B" and f: "free B = p # ps" and k: "\<And>q cs. kids B q = Some cs \<Longrightarrow> p \<notin> set cs"
  shows "\<exists>s'. allocPcb s = Some (p, s') \<and> holds P M s' (B\<lparr>free := ps, kids := (kids B)(p \<mapsto> []), par := (par B)(p \<mapsto> NULL)\<rparr>)"
proof -
  let ?B1 = "B\<lparr>free := ps\<rparr>" and ?B2 = "B\<lparr>free := ps, kids := (kids B)(p \<mapsto> [])\<rparr>"
  have q: "heads B pcbFree_h = Some (map P_LIST (p # ps))" by (simp add: f)
  have pP: "p \<in> set P" "set ps \<subseteq> set P" using h f by (auto simp: holds_def)
  obtain x where x: "pcbs s p = Some x" using holds_pcb [OF h pP(1)] by blast
  have d: "dlist (lh_mem s) pcbFree_h (map P_LIST (p # ps))" by (rule holds_head [OF h q])
  have "queues_ok (list_del (P_LIST p) (lh_mem s)) (heads ?B1)"
    using queues_ok_del [OF holds_ok [OF h] q, of "P_LIST p"] by simp
  from holds_lists [OF holds_free [OF h, of _ ps]] this pP(2)
  have 1: "holds P M (s\<lparr>lh_mem := list_del (P_LIST p) (lh_mem s)\<rparr>) ?B1" by simp
  have "P_LIST p \<notin> nodes (heads ?B1)"
    using nodes_remove1 [OF holds_ok [OF h] q, of "P_LIST p"] by simp
  from queues_ok_init_node [OF holds_ok [OF 1] this]
  have 2: "queues_ok (INIT_LIST_HEAD (P_LIST p) (list_del (P_LIST p) (lh_mem s))) (heads ?B1)" by simp
  have 3: "queues_ok (INIT_LIST_HEAD (P_CHILD p) (INIT_LIST_HEAD (P_LIST p) (list_del (P_LIST p) (lh_mem s)))) (heads ?B2)"
    using queues_ok_init [OF 2, of "P_CHILD p"] head_not_listed(3) [of ?B1] by (simp add: heads_upd(3) [of ?B1, simplified])
  have "P_SIB p \<notin> nodes (heads ?B2)" by (rule not_nodes) (use k in \<open>auto split: if_splits\<close>)
  note 4 = queues_ok_init_node [OF queues_ok_init_node [OF 3 this] inbox_not_node [of p]]
  let ?h = "INIT_LIST_HEAD (MSG_INBOX p) (INIT_LIST_HEAD (P_SIB p) (INIT_LIST_HEAD (P_CHILD p)
      (INIT_LIST_HEAD (P_LIST p) (list_del (P_LIST p) (lh_mem s)))))"
  let ?s = "s\<lparr>lh_mem := ?h, pcbs := (pcbs s)(p \<mapsto> fresh_pcb (next_pid s) x), next_pid := next_pid s + 1\<rparr>"
  have "holds P M (s\<lparr>lh_mem := ?h\<rparr>) ?B2"
    using holds_kids [OF 1, of ?h p "[]"] 4 pP(1) by (simp add: heads_upd(3) [of ?B1, simplified])
  from holds_upd_pcb [OF this, of p x "fresh_pcb (next_pid s) x"] x
  have "holds P M ?s (?B2\<lparr>par := (par B)(p \<mapsto> NULL)\<rparr>)" by (simp add: fresh_pcb_def)
  moreover have "allocPcb s = Some (p, ?s)"
    using dlist_empty_iff [OF d] dlist_next [OF d] initPcbValues_eq [of "on_lists (list_del (P_LIST p)) s" p x] x
    by (simp add: allocPcb_def on_lists_def)
  ultimately show ?thesis by (intro exI [of _ ?s]) simp
qed

lemma freePcb_some:
  assumes h: "holds P M s B" and p: "p \<in> set P" "p \<notin> set (free B)" "\<And>ps. queue B = Some ps \<Longrightarrow> p \<notin> set ps"
  shows "\<exists>s'. freePcb p s = Some s' \<and> holds P M s' (B\<lparr>free := free B @ [p]\<rparr>)"
proof -
  obtain x where "pcbs s p = Some x" using holds_pcb [OF h p(1)] by blast
  moreover have "queues_ok (list_add_tail (P_LIST p) pcbFree_h (lh_mem s)) ((heads B)(pcbFree_h \<mapsto> map P_LIST (free B @ [p])))"
    using queues_ok_add_tail [OF holds_ok [OF h], of pcbFree_h "map P_LIST (free B)" "P_LIST p"] not_nodes(1) [OF p(2,3)] by simp
  moreover have "set (free B @ [p]) \<subseteq> set P" using h p(1) by (simp add: holds_def)
  ultimately show ?thesis using holds_free [OF h] by (simp add: freePcb_def on_lists_def)
qed

lemma mkEmptyProcQ_some:
  assumes "holds P M s B"
  shows "holds P M (mkEmptyProcQ qa s) (B\<lparr>queue := Some []\<rparr>)"
proof -
  have "queues_ok (INIT_LIST_HEAD qa (lh_mem s)) ((heads B)(qa \<mapsto> map P_LIST []))"
    using queues_ok_init [OF holds_ok [OF assms], of qa] head_not_listed(2) by simp
  from holds_queue [OF assms this] show ?thesis by (simp add: mkEmptyProcQ_def on_lists_def)
qed

lemma emptyProcQ_some: "holds P M s B \<Longrightarrow> queue B = Some ps \<Longrightarrow> emptyProcQ qa s = (ps = [])"
  using holds_head [of P M s B qa "map P_LIST ps"] by (auto simp: emptyProcQ_def dlist_empty_iff)

lemma insertProcQ_some:
  assumes h: "holds P M s B" and q: "queue B = Some ps" and p: "p \<in> set P" "p \<notin> set (free B)" "p \<notin> set ps"
  shows "\<exists>s'. insertProcQ qa p s = Some s' \<and> holds P M s' (B\<lparr>queue := Some (ps @ [p])\<rparr>)"
proof -
  obtain x where "pcbs s p = Some x" using holds_pcb [OF h p(1)] by blast
  moreover have "P_LIST p \<notin> nodes (heads B)" by (rule not_nodes(1)) (use p q in auto)
  then have "queues_ok (list_add_tail (P_LIST p) qa (lh_mem s)) ((heads B)(qa \<mapsto> map P_LIST (ps @ [p])))"
    using queues_ok_add_tail [OF holds_ok [OF h], of qa "map P_LIST ps" "P_LIST p"] q by simp
  moreover have "set (ps @ [p]) \<subseteq> set P" using h p(1) q by (simp add: holds_def)
  ultimately show ?thesis using holds_queue [OF h] by (simp add: insertProcQ_def on_lists_def)
qed

lemma headProcQ_some: "holds P M s B \<Longrightarrow> queue B = Some ps \<Longrightarrow> headProcQ qa s = Some (case ps of [] \<Rightarrow> NULL | p # _ \<Rightarrow> p)"
  using holds_head [of P M s B qa "map P_LIST ps"]
  by (auto simp: headProcQ_def emptyProcQ_def dlist_empty_iff dlist_next split: list.splits)

lemma queue_del:
  assumes h: "holds P M s B" and q: "queue B = Some ps" and p: "p \<in> set ps"
  shows "holds P M (s\<lparr>lh_mem := list_del (P_LIST p) (lh_mem s)\<rparr>) (B\<lparr>queue := Some (remove1 p ps)\<rparr>)"
proof (rule holds_queue [OF h])
  show "queues_ok (list_del (P_LIST p) (lh_mem s)) ((heads B)(qa \<mapsto> map P_LIST (remove1 p ps)))"
    using queues_ok_del [OF holds_ok [OF h], of qa "map P_LIST ps" "P_LIST p"] q p
    by (simp add: map_injection_remove1 [OF inj_P_LIST])
  show "set (remove1 p ps) \<subseteq> set P" using h q by (auto simp: holds_def dest: notin_set_remove1)
qed

lemma outProcQ_some:
  assumes h: "holds P M s B" and q: "queue B = Some ps" and p: "p \<in> set ps"
  shows "\<exists>s'. outProcQ qa p s = Some (p, s') \<and> holds P M s' (B\<lparr>queue := Some (remove1 p ps)\<rparr>)"
proof -
  have d: "dlist (lh_mem s) qa (map P_LIST ps)" using holds_head [OF h, of qa] q by simp
  have "list_for_each_until (\<lambda>iter. Some (iter = P_LIST p)) (nxt (lh_mem s) qa) qa (lh_mem s) = Some (Some (P_LIST p))"
    using list_for_each_until_dlist [OF d, of "\<lambda>iter. Some (iter = P_LIST p)" "\<lambda>iter. iter = P_LIST p"] p by (auto simp: find_eq)
  moreover have "p \<noteq> NULL" using holds_pcb [OF h, of p] h q p by (auto simp: holds_def)
  ultimately show ?thesis using queue_del [OF h q p] by (simp add: outProcQ_def on_lists_def)
qed

lemma outProcQ_none:
  assumes h: "holds P M s B" and q: "queue B = Some ps" and p: "p \<notin> set ps"
  shows "outProcQ qa p s = Some (NULL, s)"
proof -
  have d: "dlist (lh_mem s) qa (map P_LIST ps)" using holds_head [OF h, of qa] q by simp
  have "list_for_each_until (\<lambda>iter. Some (iter = P_LIST p)) (nxt (lh_mem s) qa) qa (lh_mem s) = Some None"
    using list_for_each_until_dlist [OF d, of "\<lambda>iter. Some (iter = P_LIST p)" "\<lambda>iter. iter = P_LIST p"] p by (auto simp: find_eq)
  then show ?thesis by (simp add: outProcQ_def)
qed

lemma removeProcQ_some:
  assumes h: "holds P M s B" and q: "queue B = Some (p # ps)"
  shows "\<exists>s'. removeProcQ qa s = Some (p, s') \<and> holds P M s' (B\<lparr>queue := Some ps\<rparr>)"
proof -
  have d: "dlist (lh_mem s) qa (map P_LIST (p # ps))" using holds_head [OF h, of qa] q by simp
  have "removeProcQ qa s = Some (p, s\<lparr>lh_mem := list_del (P_LIST p) (lh_mem s)\<rparr>)"
    using dlist_empty_iff [OF d] dlist_next [OF d] by (simp add: removeProcQ_def emptyProcQ_def list_next_def on_lists_def)
  then show ?thesis using queue_del [OF h q, of p] by simp
qed

lemma removeProcQ_none: "holds P M s B \<Longrightarrow> queue B = Some [] \<Longrightarrow> removeProcQ qa s = Some (NULL, s)"
  using emptyProcQ_some [of P M s B "[]"] by (simp add: removeProcQ_def)

section \<open>The process tree\<close>

lemma emptyChild_some: "holds P M s B \<Longrightarrow> kids B p = Some cs \<Longrightarrow> emptyChild p s = Some (cs = [])"
  using holds_head [of P M s B "P_CHILD p" "map P_SIB cs"] holds_pcb [of P M s B p]
  by (auto simp: emptyChild_def dlist_empty_iff holds_def)

lemma insertChild_some:
  assumes h: "holds P M s B" and k: "kids B prnt = Some cs" and c: "c \<in> set P" "\<And>q cs. kids B q = Some cs \<Longrightarrow> c \<notin> set cs"
  shows "\<exists>s'. insertChild prnt c s = Some s' \<and> holds P M s' (B\<lparr>par := (par B)(c \<mapsto> prnt), kids := (kids B)(prnt \<mapsto> cs @ [c])\<rparr>)"
proof -
  obtain x where x: "pcbs s c = Some x" using holds_pcb [OF h c(1)] by blast
  have prnt: "prnt \<in> set P" "set cs \<subseteq> set P" using h k by (auto simp: holds_def)
  let ?s = "s\<lparr>pcbs := (pcbs s)(c \<mapsto> x\<lparr>p_parent := prnt\<rparr>)\<rparr>" and ?B = "B\<lparr>par := (par B)(c \<mapsto> prnt)\<rparr>"
  have 1: "holds P M ?s ?B" using holds_upd_pcb [OF h x, of "x\<lparr>p_parent := prnt\<rparr>"] by simp
  have "P_SIB c \<notin> nodes (heads B)" by (rule not_nodes(2)) (rule c(2))
  then have "queues_ok (list_add_tail (P_SIB c) (P_CHILD prnt) (lh_mem s)) ((heads B)(P_CHILD prnt \<mapsto> map P_SIB (cs @ [c])))"
    using queues_ok_add_tail [OF holds_ok [OF h], of "P_CHILD prnt" "map P_SIB cs" "P_SIB c"] k by simp
  then have "holds P M (?s\<lparr>lh_mem := list_add_tail (P_SIB c) (P_CHILD prnt) (lh_mem s)\<rparr>) (?B\<lparr>kids := (kids B)(prnt \<mapsto> cs @ [c])\<rparr>)"
    using holds_kids [OF 1, of _ prnt "cs @ [c]"] prnt c(1) by simp
  moreover obtain y where "pcbs s prnt = Some y" using holds_pcb [OF h prnt(1)] by blast
  ultimately show ?thesis using x by (simp add: insertChild_def upd_pcb_def on_lists_def)
qed

lemma kids_del:
  assumes h: "holds P M s B" and k: "kids B p = Some cs" and c: "c \<in> set cs"
  shows "holds P M (s\<lparr>lh_mem := list_del (P_SIB c) (lh_mem s)\<rparr>) (B\<lparr>kids := (kids B)(p \<mapsto> remove1 c cs)\<rparr>)"
proof (rule holds_kids [OF h])
  show "queues_ok (list_del (P_SIB c) (lh_mem s)) ((heads B)(P_CHILD p \<mapsto> map P_SIB (remove1 c cs)))"
    using queues_ok_del [OF holds_ok [OF h], of "P_CHILD p" "map P_SIB cs" "P_SIB c"] k c
    by (simp add: map_injection_remove1 [OF inj_P_SIB])
  show "p \<in> set P" using h k by (auto simp: holds_def)
  have "set cs \<subseteq> set P" using h k by (auto simp: holds_def)
  then show "set (remove1 c cs) \<subseteq> set P" by (auto dest: notin_set_remove1)
qed

lemma removeChild_some:
  assumes h: "holds P M s B" and k: "kids B p = Some (c # cs)"
  shows "\<exists>s'. removeChild p s = Some (c, s') \<and> holds P M s' (B\<lparr>kids := (kids B)(p \<mapsto> cs)\<rparr>)"
proof -
  have d: "dlist (lh_mem s) (P_CHILD p) (map P_SIB (c # cs))" using holds_head [OF h, of "P_CHILD p"] k by simp
  show ?thesis using emptyChild_some [OF h k] dlist_next [OF d] kids_del [OF h k, of c] by (simp add: removeChild_def on_lists_def)
qed

lemma removeChild_none: "holds P M s B \<Longrightarrow> kids B p = Some [] \<Longrightarrow> removeChild p s = Some (NULL, s)"
  using emptyChild_some [of P M s B p "[]"] by (simp add: removeChild_def)

lemma outChild_some:
  assumes h: "holds P M s B" and k: "kids B p = Some cs" "c \<in> set cs" "par B c = Some v" "v \<noteq> NULL"
  shows "\<exists>s'. outChild c s = Some (c, s') \<and> holds P M s' (B\<lparr>par := (par B)(c \<mapsto> NULL), kids := (kids B)(p \<mapsto> remove1 c cs)\<rparr>)"
proof -
  obtain x where x: "pcbs s c = Some x" "p_parent x = v" using holds_par [OF h k(3)] by blast
  have "holds P M (s\<lparr>pcbs := (pcbs s)(c \<mapsto> x\<lparr>p_parent := NULL\<rparr>)\<rparr>) (B\<lparr>par := (par B)(c \<mapsto> NULL)\<rparr>)"
    using holds_upd_pcb [OF h x(1), of "x\<lparr>p_parent := NULL\<rparr>"] by simp
  from kids_del [OF this, of p cs c] k(1,2) x k(4) show ?thesis by (simp add: outChild_def upd_pcb_def on_lists_def)
qed

lemma outChild_none: "holds P M s B \<Longrightarrow> par B c = Some NULL \<Longrightarrow> outChild c s = Some (NULL, s)"
  using holds_par [of P M s B c NULL] by (auto simp: outChild_def)

section \<open>Messages\<close>

text \<open>Messages whose node points to itself: unlinking one changes nothing.\<close>

definition loops :: "ptr set \<Rightarrow> sys \<Rightarrow> bool" where
  "loops S s \<longleftrightarrow> (\<forall>m \<in> S. nxt (lh_mem s) (M_LIST m) = M_LIST m \<and> prv (lh_mem s) (M_LIST m) = M_LIST m)"

lemma loops_unlinked: "loops S s \<Longrightarrow> m \<in> S \<Longrightarrow> unlinked (M_LIST m) (lh_mem s)"
  by (simp add: loops_def unlinked_def)

lemma loops_mono: "loops S s \<Longrightarrow> R \<subseteq> S \<Longrightarrow> loops R s"
  by (auto simp: loops_def)

lemma loops_empty [simp]: "loops {} s"
  by (simp add: loops_def)

lemma allocMsg_none: "holds P M s B \<Longrightarrow> mfree B = Some [] \<Longrightarrow> allocMsg s = Some (NULL, s)"
  using holds_head [of P M s B msgFree_h "[]"] by (simp add: allocMsg_def dlist_empty_iff)

lemma allocMsg_some:
  assumes h: "holds P M s B" and f: "mfree B = Some (m # ms)" and S: "loops S s" "S \<inter> set (m # ms) = {}"
  shows "\<exists>s'. allocMsg s = Some (m, s') \<and> holds P M s' (B\<lparr>mfree := Some ms, senders := (senders B)(m \<mapsto> NULL)\<rparr>) \<and>
    loops (insert m S) s'"
proof -
  let ?B1 = "B\<lparr>mfree := Some ms\<rparr>"
  have q: "heads B msgFree_h = Some (map M_LIST (m # ms))" by (simp add: f)
  have mM: "m \<in> set M" "set ms \<subseteq> set M" using h f by (auto simp: holds_def)
  obtain x where x: "msgs s m = Some x" using holds_msg [OF h mM(1)] by blast
  have d: "dlist (lh_mem s) msgFree_h (map M_LIST (m # ms))" by (rule holds_head [OF h q])
  have "queues_ok (list_del (M_LIST m) (lh_mem s)) ((heads B)(msgFree_h \<mapsto> map M_LIST ms))"
    using queues_ok_del [OF holds_ok [OF h] q, of "M_LIST m"] by simp
  from holds_mfree [OF h this mM(2)]
  have 1: "holds P M (s\<lparr>lh_mem := list_del (M_LIST m) (lh_mem s)\<rparr>) ?B1" .
  have "M_LIST m \<notin> nodes (heads ?B1)"
    using nodes_remove1 [OF holds_ok [OF h] q, of "M_LIST m"] by simp
  from queues_ok_init_node [OF holds_ok [OF 1] this]
  have 2: "queues_ok (INIT_LIST_HEAD (M_LIST m) (list_del (M_LIST m) (lh_mem s))) (heads ?B1)" by simp
  let ?h = "INIT_LIST_HEAD (M_LIST m) (list_del (M_LIST m) (lh_mem s))"
  let ?s = "s\<lparr>lh_mem := ?h, msgs := (msgs s)(m \<mapsto> empty_msg)\<rparr>"
  have "holds P M (s\<lparr>lh_mem := ?h\<rparr>) ?B1" using holds_lists [OF 1 2] by simp
  from holds_upd_msg [OF this, of m x empty_msg] x
  have "holds P M ?s (?B1\<lparr>senders := (senders B)(m \<mapsto> NULL)\<rparr>)" by (simp add: empty_msg_def)
  moreover have "x\<lparr>m_sender := NULL, m_payload := 0\<rparr> = empty_msg" by (simp add: empty_msg_def)
  then have "allocMsg s = Some (m, ?s)"
    using dlist_empty_iff [OF d] dlist_next [OF d] x
    by (simp add: allocMsg_def on_lists_def upd_msg_def mkEmptyMessageQ_def)
  moreover have "loops (insert m S) ?s"
    unfolding loops_def
  proof
    fix k assume k: "k \<in> insert m S"
    show "nxt (lh_mem ?s) (M_LIST k) = M_LIST k \<and> prv (lh_mem ?s) (M_LIST k) = M_LIST k"
    proof (cases "k = m")
      case True
      then show ?thesis by (simp add: INIT_LIST_HEAD_def)
    next
      case False
      then have "M_LIST k \<notin> insert msgFree_h (set (map M_LIST (m # ms)))" using k S(2) by auto
      with list_del_frame [OF d, of "M_LIST m"] INIT_LIST_HEAD_frame [of "M_LIST k" "M_LIST m"] False k S(1) show ?thesis
        by (simp add: loops_def)
    qed
  qed
  ultimately show ?thesis by (intro exI [of _ ?s]) simp
qed

lemma freeMsg_some:
  assumes h: "holds P M s B" and f: "mfree B = Some ms" and m: "m \<in> set M" "m \<notin> set ms" "\<And>ks. mqueue B = Some ks \<Longrightarrow> m \<notin> set ks"
    and u: "unlinked (M_LIST m) (lh_mem s)" and S: "loops S s" "S \<inter> set ms = {}"
  shows "\<exists>s'. freeMsg m s = Some s' \<and> holds P M s' (B\<lparr>mfree := Some (ms @ [m])\<rparr>) \<and> loops (S - {m}) s'"
proof -
  let ?h = "list_add_tail (M_LIST m) msgFree_h (lh_mem s)"
  obtain x where x: "msgs s m = Some x" using holds_msg [OF h m(1)] by blast
  have d: "dlist (lh_mem s) msgFree_h (map M_LIST ms)" using holds_head [OF h, of msgFree_h] f by simp
  have "M_LIST m \<notin> nodes (heads B)" by (rule not_nodes(3)) (use m f in auto)
  then have "queues_ok ?h ((heads B)(msgFree_h \<mapsto> map M_LIST (ms @ [m])))"
    using queues_ok_add_tail [OF holds_ok [OF h], of msgFree_h "map M_LIST ms" "M_LIST m"] f by simp
  moreover have "set (ms @ [m]) \<subseteq> set M" using h m(1) f by (simp add: holds_def)
  moreover have "loops (S - {m}) (s\<lparr>lh_mem := ?h\<rparr>)"
    unfolding loops_def
  proof
    fix k assume k: "k \<in> S - {m}"
    then have "M_LIST k \<notin> insert msgFree_h (insert (M_LIST m) (set (map M_LIST ms)))" using S(2) by auto
    with list_add_tail_frame [OF d, of "M_LIST k" "M_LIST m"] k S(1)
    show "nxt (lh_mem (s\<lparr>lh_mem := ?h\<rparr>)) (M_LIST k) = M_LIST k \<and> prv (lh_mem (s\<lparr>lh_mem := ?h\<rparr>)) (M_LIST k) = M_LIST k"
      by (simp add: loops_def)
  qed
  ultimately show ?thesis using holds_mfree [OF h] x by (simp add: freeMsg_def on_lists_def list_del_unlinked [OF u])
qed

lemma mkEmptyMessageQ_some:
  assumes "holds P M s B"
  shows "holds P M (mkEmptyMessageQ qm s) (B\<lparr>mqueue := Some []\<rparr>)"
proof -
  have "queues_ok (INIT_LIST_HEAD qm (lh_mem s)) ((heads B)(qm \<mapsto> map M_LIST []))"
    using queues_ok_init [OF holds_ok [OF assms], of qm] head_not_listed(2) by simp
  from holds_mqueue [OF assms this] show ?thesis by (simp add: mkEmptyMessageQ_def on_lists_def)
qed

lemma emptyMessageQ_some: "holds P M s B \<Longrightarrow> mqueue B = Some ms \<Longrightarrow> emptyMessageQ qm s = (ms = [])"
  using holds_head [of P M s B qm "map M_LIST ms"] by (auto simp: emptyMessageQ_def dlist_empty_iff)

lemma headMessage_some: "holds P M s B \<Longrightarrow> mqueue B = Some (m # ms) \<Longrightarrow> headMessage qm s = Some m"
  using holds_head [of P M s B qm "map M_LIST (m # ms)"]
  by (auto simp: headMessage_def emptyMessageQ_def dlist_empty_iff dlist_next)

lemma lastMessage_some:
  "holds P M s B \<Longrightarrow> mqueue B = Some (ms @ [m]) \<Longrightarrow> container_of_m_list (list_prev qm (lh_mem s)) = Some m"
  using holds_head [of P M s B qm "map M_LIST (ms @ [m])"] by (auto simp: list_prev_def dlist_empty_iff dlist_prev)

lemma insertMessage_some:
  assumes h: "holds P M s B" and q: "mqueue B = Some ms" and m: "m \<in> set M" "m \<notin> set ms" "\<And>ks. mfree B = Some ks \<Longrightarrow> m \<notin> set ks"
  shows "\<exists>s'. insertMessage qm m s = Some s' \<and> holds P M s' (B\<lparr>mqueue := Some (ms @ [m])\<rparr>)"
proof -
  obtain x where x: "msgs s m = Some x" using holds_msg [OF h m(1)] by blast
  have "M_LIST m \<notin> nodes (heads B)" by (rule not_nodes(3)) (use m q in auto)
  then have "queues_ok (list_add_tail (M_LIST m) qm (lh_mem s)) ((heads B)(qm \<mapsto> map M_LIST (ms @ [m])))"
    using queues_ok_add_tail [OF holds_ok [OF h], of qm "map M_LIST ms" "M_LIST m"] q by simp
  moreover have "set (ms @ [m]) \<subseteq> set M" using h m(1) q by (simp add: holds_def)
  ultimately show ?thesis using holds_mqueue [OF h] x by (simp add: insertMessage_def on_lists_def)
qed

lemma pushMessage_some:
  assumes h: "holds P M s B" and q: "mqueue B = Some ms" and m: "m \<in> set M" "m \<notin> set ms" "\<And>ks. mfree B = Some ks \<Longrightarrow> m \<notin> set ks"
  shows "\<exists>s'. pushMessage qm m s = Some s' \<and> holds P M s' (B\<lparr>mqueue := Some (m # ms)\<rparr>)"
proof -
  obtain x where x: "msgs s m = Some x" using holds_msg [OF h m(1)] by blast
  have "M_LIST m \<notin> nodes (heads B)" by (rule not_nodes(3)) (use m q in auto)
  then have "queues_ok (list_add (M_LIST m) qm (lh_mem s)) ((heads B)(qm \<mapsto> map M_LIST (m # ms)))"
    using queues_ok_add [OF holds_ok [OF h], of qm "map M_LIST ms" "M_LIST m"] q by simp
  moreover have "set (m # ms) \<subseteq> set M" using h m(1) q by (simp add: holds_def)
  ultimately show ?thesis using holds_mqueue [OF h] x by (simp add: pushMessage_def on_lists_def)
qed

lemma popMessage_first:
  assumes h: "holds P M s B" and q: "mqueue B = Some (m # ms)"
  shows "\<exists>s'. popMessage qm NULL s = Some (m, s') \<and> holds P M s' (B\<lparr>mqueue := Some ms\<rparr>) \<and> unlinked (M_LIST m) (lh_mem s')"
proof -
  have d: "dlist (lh_mem s) qm (map M_LIST (m # ms))" using holds_head [OF h, of qm] q by simp
  have "queues_ok (list_del (M_LIST m) (lh_mem s)) ((heads B)(qm \<mapsto> map M_LIST ms))"
    using queues_ok_del [OF holds_ok [OF h], of qm "map M_LIST (m # ms)" "M_LIST m"] q by simp
  moreover have "set ms \<subseteq> set M" using h q by (simp add: holds_def)
  moreover have "unlinked (M_LIST m) (list_del (M_LIST m) (lh_mem s))" by (rule unlinked_list_del [OF d]) simp
  ultimately show ?thesis using holds_mqueue [OF h] dlist_empty_iff [OF d] dlist_next [OF d]
    by (simp add: popMessage_def emptyMessageQ_def on_lists_def)
qed

text \<open>A search by sender reads the pid of the sender of the first message, whatever it is.\<close>

lemma popMessage_undefined:
  assumes h: "holds P M s B" and q: "mqueue B = Some (m # ms)" "senders B m = Some NULL" and p: "p \<noteq> NULL"
  shows "popMessage qm p s = None"
proof -
  have d: "dlist (lh_mem s) qm (map M_LIST (m # ms))" using holds_head [OF h, of qm] q by simp
  obtain x where x: "msgs s m = Some x" "m_sender x = NULL" using holds_sender [OF h q(2)] by blast
  have "pcb_table_ok s" using h by (simp add: holds_def arrays_def)
  then have "pcbs s NULL = None" by (auto simp: pcb_table_ok_def)
  then have "sender_pid_matches s p (M_LIST m) = None" using x by (simp add: sender_pid_matches_def)
  moreover have "list_for_each_until t (M_LIST m) qm l = do { b \<leftarrow> t (M_LIST m);
      if b then Some (Some (M_LIST m)) else list_for_each_until t (nxt l (M_LIST m)) qm l }" for t l
    by (subst list_for_each_until.simps) simp
  ultimately show ?thesis using p dlist_empty_iff [OF d] dlist_next [OF d] by (simp add: popMessage_def emptyMessageQ_def)
qed

end
