(* ===== verification/P1test_Runs.thy ===== *)
theory P1test_Runs
  imports P1test_Correct
begin

text \<open>
  Rules for the commands of the test of phase 1, and what each part of the test does to the lists.
\<close>

section \<open>The terminal\<close>

text \<open>The terminal answers within \<open>n\<close> reads.\<close>

definition prompt :: "nat \<Rightarrow> (nat \<Rightarrow> u32) \<Rightarrow> bool" where
  "prompt n D \<longleftrightarrow> (\<forall>k. \<exists>j\<le>n. D (k + j) AND STATUSMASK \<noteq> BUSY)"

text \<open>A state with \<open>I\<close> of phase 1, \<open>C\<close> of the variables and the text \<open>T\<close> in the buffer.\<close>

definition At :: "(sys \<Rightarrow> bool) \<Rightarrow> (p1vars \<Rightarrow> bool) \<Rightarrow> string \<Rightarrow> p1state \<Rightarrow> bool" where
  "At I C T t \<longleftrightarrow> I (kern t) \<and> C (vars t) \<and> okbuf t = T"

definition stable :: "(sys \<Rightarrow> bool) \<Rightarrow> bool" where
  "stable I \<longleftrightarrow> (\<forall>a v s. I s \<longrightarrow> I (store a v s))"

lemma At_reads [simp]: "At I C T (t\<lparr>dev_reads := k\<rparr>) = At I C T t"
  by (simp add: At_def)

lemma wait_idle_some:
  "(\<exists>j\<le>n. D (dev_reads t + j) AND STATUSMASK \<noteq> BUSY) \<Longrightarrow> At I C T t \<Longrightarrow> \<exists>st t'. wait_idle n D t = Some (st, t') \<and> At I C T t'"
proof (induction n arbitrary: t)
  case 0
  then show ?case by (simp add: termstat_def)
next
  case (Suc n)
  show ?case
  proof (cases "D (dev_reads t) AND STATUSMASK = BUSY")
    case True
    from Suc.prems(1) obtain j where j: "j \<le> Suc n" "D (dev_reads t + j) AND STATUSMASK \<noteq> BUSY" by blast
    with True obtain i where "j = Suc i" by (cases j) auto
    with j have "\<exists>j\<le>n. D (dev_reads (t\<lparr>dev_reads := Suc (dev_reads t)\<rparr>) + j) AND STATUSMASK \<noteq> BUSY" by auto
    from Suc.IH [OF this] Suc.prems(2) True show ?thesis by (simp add: termstat_def)
  next
    case False
    with Suc.prems(2) show ?thesis by (simp add: termstat_def)
  qed
qed

lemma print_loop_some:
  assumes "prompt n D" "stable I"
  shows "At I C T t \<Longrightarrow> \<exists>b t'. print_loop n D nr str t = Some (b, t') \<and> At I C T t'"
proof (induction str arbitrary: t)
  case (Cons c cs)
  let ?t = "t\<lparr>kern := store (command_addr nr) (push_bit CHAROFFSET (char_word c) OR PRINTCHR) (kern t)\<rparr>"
  have "At I C T ?t" using Cons.prems assms(2) by (simp add: At_def stable_def)
  moreover have "\<exists>j\<le>n. D (dev_reads ?t + j) AND STATUSMASK \<noteq> BUSY" using assms(1) by (simp add: prompt_def)
  ultimately obtain st t' where "wait_idle n D ?t = Some (st, t')" "At I C T t'" using wait_idle_some by blast
  then show ?case using Cons.IH by (cases "st = TRANSMITTED") (simp_all add: ex_bool_eq)
qed (simp add: ex_bool_eq)

section \<open>Rules\<close>

definition goes :: "cmd \<Rightarrow> (p1state \<Rightarrow> bool) \<Rightarrow> (p1state \<Rightarrow> bool) \<Rightarrow> bool" where
  "goes c A B \<longleftrightarrow> (\<forall>t. A t \<longrightarrow> (\<exists>t'. c t = Inr t' \<and> B t'))"

lemma goes_Nil: "goes (run_cmds []) A A"
  by (simp add: goes_def)

lemma goes_Cons: "goes c A B \<Longrightarrow> goes (run_cmds cs) B C \<Longrightarrow> goes (run_cmds (c # cs)) A C"
  by (fastforce simp: goes_def)

lemma goes_weaken: "goes c A B \<Longrightarrow> (\<And>t. B t \<Longrightarrow> B' t) \<Longrightarrow> goes c A B'"
  by (fastforce simp: goes_def)

lemma goes_pre: "goes c B C \<Longrightarrow> (\<And>t. A t \<Longrightarrow> B t) \<Longrightarrow> goes c A C"
  by (simp add: goes_def)

text \<open>A command that stops at an undefined access.\<close>

definition halts :: "cmd \<Rightarrow> (p1state \<Rightarrow> bool) \<Rightarrow> (p1state \<Rightarrow> bool) \<Rightarrow> bool" where
  "halts c A B \<longleftrightarrow> (\<forall>t. A t \<longrightarrow> (\<exists>t'. c t = Inl (Undefined, t') \<and> B t'))"

lemma halts_Cons: "goes c A B \<Longrightarrow> halts (run_cmds cs) B C \<Longrightarrow> halts (run_cmds (c # cs)) A C"
  by (fastforce simp: goes_def halts_def)

lemma halts_now: "halts c A C \<Longrightarrow> halts (run_cmds (c # cs)) A C"
  by (fastforce simp: halts_def)

lemma halts_weaken: "halts c A B \<Longrightarrow> (\<And>t. B t \<Longrightarrow> B' t) \<Longrightarrow> halts c A B'"
  by (fastforce simp: halts_def)

lemma halts_assign: "(\<And>V s. C V \<Longrightarrow> I s \<Longrightarrow> f V s = None) \<Longrightarrow> halts (assign g f) (At I C T) (At I C T)"
  by (simp add: halts_def At_def assign_def)

lemma goes_for:
  "(\<And>k. k < length is \<Longrightarrow> goes (run_cmds (body (is ! k))) (A k) (A (Suc k))) \<Longrightarrow> goes (for_cmds is body) (A 0) (A (length is))"
proof (induction "is" arbitrary: A)
  case (Cons i "is")
  have "goes (run_cmds (body i)) (A 0) (A 1)" using Cons.prems [of 0] by simp
  moreover have "goes (for_cmds is body) (A (Suc 0)) (A (Suc (length is)))"
    using Cons.IH [of "\<lambda>k. A (Suc k)"] Cons.prems [of "Suc k" for k] by simp
  ultimately show ?case using goes_Cons by (simp add: for_cmds_def del: run_cmds.simps)
qed (use goes_Nil in \<open>simp add: for_cmds_def del: run_cmds.simps\<close>)

lemma goes_for_range:
  assumes "a \<le> b" "\<And>i. a \<le> i \<Longrightarrow> i < b \<Longrightarrow> goes (run_cmds (body i)) (A i) (A (Suc i))"
  shows "goes (for_cmds [a..<b] body) (A a) (A b)"
  using goes_for [of "[a..<b]" body "\<lambda>k. A (a + k)"] assms by simp

lemma goes_on_kern:
  "(\<And>V s. C V \<Longrightarrow> I s \<Longrightarrow> \<exists>s'. f V s = Some s' \<and> J s') \<Longrightarrow> goes (on_kern f) (At I C T) (At J C T)"
  by (fastforce simp: goes_def At_def on_kern_def)

lemma goes_assign:
  "(\<And>V s. C V \<Longrightarrow> I s \<Longrightarrow> \<exists>s'. f V s = Some (r, s') \<and> J s') \<Longrightarrow> (\<And>V s. C V \<Longrightarrow> I s \<Longrightarrow> C' (g r V)) \<Longrightarrow>
    goes (assign g f) (At I C T) (At J C' T)"
  by (fastforce simp: goes_def At_def assign_def)

lemma goes_set_vars: "(\<And>V. C V \<Longrightarrow> C' (f V)) \<Longrightarrow> goes (set_vars f) (At I C T) (At I C' T)"
  by (simp add: goes_def At_def set_vars_def)

lemma goes_check: "(\<And>V s. C V \<Longrightarrow> I s \<Longrightarrow> b V s = Some False) \<Longrightarrow> goes (check n D b str) (At I C T) (At I C T)"
  by (simp add: goes_def At_def check_def)

lemma goes_check_call:
  "(\<And>V s. C V \<Longrightarrow> I s \<Longrightarrow> f V s = Some (r, s)) \<Longrightarrow> \<not> b r \<Longrightarrow> goes (check_call n D f b str) (At I C T) (At I C T)"
  by (simp add: goes_def At_def check_call_def)

lemma goes_ok:
  assumes "prompt n D" "stable I" "length T + length str < 2048"
  shows "goes (addokbuf n D str) (At I C T) (At I C (T @ str))"
proof -
  have "\<exists>b t'. termprint n D str 0 (t\<lparr>okbuf := T @ str\<rparr>) = Some (b, t') \<and> At I C (T @ str) t'" if "At I C T t" for t
  proof -
    have "At I C (T @ str) (t\<lparr>okbuf := T @ str, dev_reads := Suc (dev_reads t)\<rparr>)" using that by (simp add: At_def)
    with print_loop_some [OF assms(1,2) this] show ?thesis by (simp add: termprint_def termstat_def ex_bool_eq)
  qed
  then show ?thesis using assms(3) by (fastforce simp: goes_def addokbuf_def At_def)
qed

lemma stable_holds [simp]: "stable (\<lambda>s. holds P M s B)" "stable (\<lambda>s. holds P M s B \<and> loops S s)"
  by (simp_all add: stable_def loops_def store_def [of _ _ s for s]) (simp_all add: store_def [symmetric])

section \<open>The lists in the parts of the test\<close>

lemma holds_table: "holds P M s B \<Longrightarrow> length P = MAXPROC \<and> distinct P \<and> NULL \<notin> set P"
  unfolding holds_def arrays_def pcb_table_ok_def by blast

lemma holds_msg_table: "holds P M s B \<Longrightarrow> length M = MAXMESSAGES \<and> distinct M \<and> NULL \<notin> set M"
  unfolding holds_def arrays_def msg_table_ok_def by blast

lemma holds_nth: "holds P M s B \<Longrightarrow> i < MAXPROC \<Longrightarrow> P ! i \<in> set P \<and> P ! i \<noteq> NULL"
  by (metis holds_table nth_mem)

lemma holds_nth_eq: "holds P M s B \<Longrightarrow> i < MAXPROC \<Longrightarrow> j < MAXPROC \<Longrightarrow> P ! i = P ! j \<longleftrightarrow> i = j"
  by (simp add: holds_table nth_eq_iff_index_eq)

lemma holds_nth_mem:
  assumes "holds P M s B" "i < MAXPROC" "set ks \<subseteq> {..<MAXPROC}"
  shows "P ! i \<in> (!) P ` set ks \<longleftrightarrow> i \<in> set ks"
  using holds_nth_eq [OF assms(1)] assms(2,3) by (auto simp: subset_iff)

lemma map_nth_remove1:
  assumes "holds P M s B" "i < MAXPROC" "set ks \<subseteq> {..<MAXPROC}"
  shows "remove1 (P ! i) (map ((!) P) ks) = map ((!) P) (remove1 i ks)"
  using assms(3) by (induction ks) (auto simp: holds_nth_eq [OF assms(1,2)])

text \<open>While the table is handed out.\<close>

definition alloc_lists :: "ptr list \<Rightarrow> nat \<Rightarrow> pools" where
  "alloc_lists P k = \<lparr>free = map ((!) P) [k..<MAXPROC], queue = None, kids = (\<lambda>p. if p \<in> set (take k P) then Some [] else None),
     par = (\<lambda>p. if p \<in> set (take k P) then Some NULL else None), mfree = Some [], mqueue = None, senders = (\<lambda>m. None)\<rparr>"

text \<open>Afterwards: the free list, the queue and the children of the first block, by index in the table; the free
  messages, the queue of messages and messages without a sender, by index from the end of the table.\<close>

definition stage :: "ptr list \<Rightarrow> ptr list \<Rightarrow> nat list \<Rightarrow> nat list option \<Rightarrow> nat list \<Rightarrow> nat list \<Rightarrow> nat list option \<Rightarrow> nat list \<Rightarrow> pools" where
  "stage P M fr q ch mf mq zs = \<lparr>free = map ((!) P) fr, queue = map_option (map ((!) P)) q,
     kids = (\<lambda>p. if p \<in> set P then Some [] else None)(P ! 0 \<mapsto> map ((!) P) ch),
     par = (\<lambda>p. if p = P ! 0 then Some NULL else if p \<in> (!) P ` set ch then Some (P ! 0) else None),
     mfree = Some (map ((!) (rev M)) mf), mqueue = map_option (map ((!) (rev M))) mq,
     senders = (\<lambda>m. if m \<in> (!) (rev M) ` set zs then Some NULL else None)\<rparr>"

lemma holds_par_le: "holds P M s B \<Longrightarrow> f \<subseteq>\<^sub>m par B \<Longrightarrow> holds P M s (B\<lparr>par := f\<rparr>)"
  by (auto simp: holds_def map_le_def dom_def)

lemma holds_senders_le: "holds P M s B \<Longrightarrow> f \<subseteq>\<^sub>m senders B \<Longrightarrow> holds P M s (B\<lparr>senders := f\<rparr>)"
  by (auto simp: holds_def map_le_def dom_def)

lemma start_lists:
  assumes "static_image s"
  shows "holds (pcbTable s) (msgTable s) (initPcbs s) (alloc_lists (pcbTable s) 0)"
proof -
  let ?A = "[pcbFree_h \<mapsto> [], msgFree_h \<mapsto> []]" and ?P = "pcbTable s"
  have ok: "pcb_table_ok s" "msg_table_ok s" "queues_ok (lh_mem s) ?A"
    using assms by (auto simp: static_image_def queues_ok_def split: if_splits)
  have n: "P_LIST p \<notin> nodes ?A" for p by (auto simp: nodes_def split: if_splits)
  note i = initPcbs_queues [where A = ?A, OF ok(3) _ ok(1) n]
  have l: "map ((!) ?P) [0..<MAXPROC] = ?P" using ok(1) map_nth [of ?P] by (simp add: pcb_table_ok_def)
  have "heads (alloc_lists ?P 0) l = (?A(pcbFree_h \<mapsto> map P_LIST ?P)) l" for l
    by (cases l) (simp_all add: alloc_lists_def l [unfolded comp_def] del: upt_Suc)
  then have "heads (alloc_lists ?P 0) = ?A(pcbFree_h \<mapsto> map P_LIST ?P)" by blast
  moreover have "queues_ok (lh_mem (initPcbs s)) (?A(pcbFree_h \<mapsto> map P_LIST ?P))" by (rule i(2)) simp
  moreover have "initPcbs s = s\<lparr>lh_mem := lh_mem (initPcbs s)\<rparr>" by (rule i(1)) simp
  then have "arrays ?P (msgTable s) (initPcbs s)"
    using ok(1,2) arrays_upd(1) [of ?P "msgTable s" "lh_mem (initPcbs s)" s] by (simp add: arrays_def)
  ultimately show ?thesis by (simp add: holds_def alloc_lists_def l del: upt_Suc)
qed

lemma alloc_step:
  assumes h: "holds P M s (alloc_lists P k)" and k: "k < MAXPROC"
  shows "\<exists>s'. allocPcb s = Some (P ! k, s') \<and> holds P M s' (alloc_lists P (Suc k))"
proof -
  let ?B = "alloc_lists P k"
  have t: "set (take (Suc k) P) = insert (P ! k) (set (take k P))"
    using k holds_table [OF h] by (simp add: take_Suc_conv_app_nth)
  have "?B\<lparr>free := map ((!) P) [Suc k..<MAXPROC], kids := (kids ?B)(P ! k \<mapsto> []), par := (par ?B)(P ! k \<mapsto> NULL)\<rparr> = alloc_lists P (Suc k)"
    by (simp add: alloc_lists_def t fun_eq_iff del: upt_Suc)
  moreover have "free ?B = P ! k # map ((!) P) [Suc k..<MAXPROC]" using k by (simp add: alloc_lists_def upt_conv_Cons del: upt_Suc)
  moreover have "P ! k \<notin> set cs" if "kids ?B p = Some cs" for p cs using that by (simp add: alloc_lists_def split: if_splits)
  ultimately show ?thesis using allocPcb_some [OF h, of "P ! k"] by simp
qed

lemma alloc_all: "holds P M s (alloc_lists P MAXPROC) \<Longrightarrow> holds P M s (stage P M [] None [] [] None [])"
proof -
  assume h: "holds P M s (alloc_lists P MAXPROC)"
  let ?S = "stage P M [] None [] [] None []"
  have P: "take MAXPROC P = P" "P ! 0 \<in> set P" using holds_table [OF h] holds_nth [OF h, of 0] by simp_all
  then have "par ?S \<subseteq>\<^sub>m par (alloc_lists P MAXPROC)"
    by (simp add: alloc_lists_def stage_def map_le_def dom_def)
  from holds_par_le [OF h this] show ?thesis using P by (simp add: alloc_lists_def stage_def fun_upd_idem fun_eq_iff)
qed

section \<open>Operations on a stage\<close>

lemma stage_alloc:
  assumes h: "holds P M s (stage P M (i # fr) q ch mf mq zs)" and i: "0 < i" "i < MAXPROC" "i \<notin> set ch" "set ch \<subseteq> {..<MAXPROC}"
  shows "\<exists>s'. allocPcb s = Some (P ! i, s') \<and> holds P M s' (stage P M fr q ch mf mq zs)"
proof -
  let ?B = "stage P M (i # fr) q ch mf mq zs"
  have n: "P ! i \<noteq> P ! 0" "P ! i \<in> set P" "P ! i \<notin> (!) P ` set ch"
    using holds_nth_eq [OF h, of i 0] holds_nth [OF h, of i] holds_nth_mem [OF h, of i ch] i by simp_all
  have "\<exists>s'. allocPcb s = Some (P ! i, s') \<and>
      holds P M s' (?B\<lparr>free := map ((!) P) fr, kids := (kids ?B)(P ! i \<mapsto> []), par := (par ?B)(P ! i \<mapsto> NULL)\<rparr>)"
    by (rule allocPcb_some [OF h]) (use n in \<open>auto simp: stage_def split: if_splits\<close>)
  then obtain s' where s': "allocPcb s = Some (P ! i, s')"
    "holds P M s' (?B\<lparr>free := map ((!) P) fr, kids := (kids ?B)(P ! i \<mapsto> []), par := (par ?B)(P ! i \<mapsto> NULL)\<rparr>)" by blast
  have "par (stage P M fr q ch mf mq zs) \<subseteq>\<^sub>m (par ?B)(P ! i \<mapsto> NULL)"
    using n by (auto simp: stage_def map_le_def dom_def split: if_splits)
  from holds_par_le [OF s'(2)] this
  have "holds P M s' (?B\<lparr>free := map ((!) P) fr, kids := (kids ?B)(P ! i \<mapsto> []), par := par (stage P M fr q ch mf mq zs)\<rparr>)" by simp
  moreover have "?B\<lparr>free := map ((!) P) fr, kids := (kids ?B)(P ! i \<mapsto> []), par := par (stage P M fr q ch mf mq zs)\<rparr> = stage P M fr q ch mf mq zs"
    using n by (auto simp: stage_def fun_eq_iff)
  ultimately show ?thesis using s'(1) by simp
qed

lemma stage_free:
  assumes h: "holds P M s (stage P M fr q ch mf mq zs)"
    and i: "i < MAXPROC" "i \<notin> set fr" "set fr \<subseteq> {..<MAXPROC}" "\<And>xs. q = Some xs \<Longrightarrow> i \<notin> set xs \<and> set xs \<subseteq> {..<MAXPROC}"
  shows "\<exists>s'. freePcb (P ! i) s = Some s' \<and> holds P M s' (stage P M (fr @ [i]) q ch mf mq zs)"
proof -
  have "\<exists>s'. freePcb (P ! i) s = Some s' \<and>
      holds P M s' (stage P M fr q ch mf mq zs\<lparr>free := free (stage P M fr q ch mf mq zs) @ [P ! i]\<rparr>)"
    by (rule freePcb_some [OF h]) (use i holds_nth [OF h] holds_nth_mem [OF h] in \<open>auto simp: stage_def\<close>)
  then show ?thesis by (simp add: stage_def)
qed

lemma stage_insert:
  assumes h: "holds P M s (stage P M fr (Some q) ch mf mq zs)"
    and i: "i < MAXPROC" "i \<notin> set fr" "set fr \<subseteq> {..<MAXPROC}" "i \<notin> set q" "set q \<subseteq> {..<MAXPROC}"
  shows "\<exists>s'. insertProcQ qa (P ! i) s = Some s' \<and> holds P M s' (stage P M fr (Some (q @ [i])) ch mf mq zs)"
proof -
  have "\<exists>s'. insertProcQ qa (P ! i) s = Some s' \<and>
      holds P M s' (stage P M fr (Some q) ch mf mq zs\<lparr>queue := Some (map ((!) P) q @ [P ! i])\<rparr>)"
    by (rule insertProcQ_some [OF h]) (use i holds_nth [OF h] holds_nth_mem [OF h] in \<open>auto simp: stage_def\<close>)
  then show ?thesis by (simp add: stage_def)
qed

lemma stage_mkEmptyProcQ:
  "holds P M s (stage P M fr q ch mf mq zs) \<Longrightarrow> holds P M (mkEmptyProcQ qa s) (stage P M fr (Some []) ch mf mq zs)"
  by (drule mkEmptyProcQ_some) (simp add: stage_def)

lemma stage_emptyProcQ: "holds P M s (stage P M fr (Some q) ch mf mq zs) \<Longrightarrow> emptyProcQ qa s = (q = [])"
  by (drule emptyProcQ_some [where ps = "map ((!) P) q"]) (simp_all add: stage_def)

lemma stage_headProcQ: "holds P M s (stage P M fr (Some (i # q)) ch mf mq zs) \<Longrightarrow> headProcQ qa s = Some (P ! i)"
  by (drule headProcQ_some [where ps = "map ((!) P) (i # q)"]) (simp_all add: stage_def)

lemma stage_out:
  assumes h: "holds P M s (stage P M fr (Some q) ch mf mq zs)" and i: "i < MAXPROC" "i \<in> set q" "set q \<subseteq> {..<MAXPROC}"
  shows "\<exists>s'. outProcQ qa (P ! i) s = Some (P ! i, s') \<and> holds P M s' (stage P M fr (Some (remove1 i q)) ch mf mq zs)"
  using outProcQ_some [OF h, of "map ((!) P) q" "P ! i"] i map_nth_remove1 [OF h i(1,3)] by (simp add: stage_def)

lemma stage_out_none:
  assumes h: "holds P M s (stage P M fr (Some q) ch mf mq zs)" and i: "i < MAXPROC" "i \<notin> set q" "set q \<subseteq> {..<MAXPROC}"
  shows "outProcQ qa (P ! i) s = Some (NULL, s)"
  using outProcQ_none [OF h, of "map ((!) P) q" "P ! i"] i holds_nth_mem [OF h, of i q] by (simp add: stage_def)

lemma stage_remove:
  "holds P M s (stage P M fr (Some (i # q)) ch mf mq zs) \<Longrightarrow>
    \<exists>s'. removeProcQ qa s = Some (P ! i, s') \<and> holds P M s' (stage P M fr (Some q) ch mf mq zs)"
  by (drule removeProcQ_some) (simp_all add: stage_def)

lemma stage_child:
  assumes h: "holds P M s (stage P M fr q ch mf mq zs)"
    and i: "0 < i" "i < MAXPROC" "i \<notin> set ch" "set ch \<subseteq> {..<MAXPROC}"
  shows "\<exists>s'. insertChild (P ! 0) (P ! i) s = Some s' \<and> holds P M s' (stage P M fr q (ch @ [i]) mf mq zs)"
proof -
  let ?B = "stage P M fr q ch mf mq zs"
  have n: "P ! i \<noteq> P ! 0" "P ! i \<in> set P" "P ! i \<notin> (!) P ` set ch"
    using holds_nth_eq [OF h, of i 0] holds_nth [OF h, of i] holds_nth_mem [OF h, of i ch] i by simp_all
  have "\<exists>s'. insertChild (P ! 0) (P ! i) s = Some s' \<and>
      holds P M s' (?B\<lparr>par := (par ?B)(P ! i \<mapsto> P ! 0), kids := (kids ?B)(P ! 0 \<mapsto> map ((!) P) ch @ [P ! i])\<rparr>)"
    by (rule insertChild_some [OF h]) (use n in \<open>auto simp: stage_def split: if_splits\<close>)
  moreover have "?B\<lparr>par := (par ?B)(P ! i \<mapsto> P ! 0), kids := (kids ?B)(P ! 0 \<mapsto> map ((!) P) ch @ [P ! i])\<rparr> =
      stage P M fr q (ch @ [i]) mf mq zs"
    using n by (auto simp: stage_def fun_eq_iff)
  ultimately show ?thesis by simp
qed

lemma stage_emptyChild:
  assumes h: "holds P M s (stage P M fr q ch mf mq zs)" and i: "i < MAXPROC"
  shows "emptyChild (P ! i) s = Some (i = 0 \<longrightarrow> ch = [])"
  using emptyChild_some [OF h, of "P ! i" "if i = 0 then map ((!) P) ch else []"] holds_nth [OF h i] holds_nth_eq [OF h i, of 0]
  by (auto simp: stage_def split: if_splits)

lemma stage_first_child:
  assumes h: "holds P M s (stage P M fr q (i # ch) mf mq zs)"
  shows "(if lh_valid s (P_CHILD (P ! 0)) then Some (nxt (lh_mem s) (P_CHILD (P ! 0)) \<noteq> P_SIB (P ! i)) else None) = Some False"
proof -
  have "dlist (lh_mem s) (P_CHILD (P ! 0)) (map P_SIB (map ((!) P) (i # ch)))" by (rule holds_head [OF h]) (simp add: stage_def)
  then have "nxt (lh_mem s) (P_CHILD (P ! 0)) = P_SIB (P ! i)" by (simp add: dlist_next)
  then show ?thesis using holds_pcb [OF h, of "P ! 0"] holds_nth [OF h, of 0] by auto
qed

lemma stage_outChild_none: "holds P M s (stage P M fr q ch mf mq zs) \<Longrightarrow> outChild (P ! 0) s = Some (NULL, s)"
  by (erule outChild_none) (simp add: stage_def)

lemma stage_removeChild_none: "holds P M s (stage P M fr q [] mf mq zs) \<Longrightarrow> removeChild (P ! 0) s = Some (NULL, s)"
  by (erule removeChild_none) (simp add: stage_def)

lemma stage_ch_le:
  assumes h: "holds P M s (stage P M fr q ch mf mq zs\<lparr>par := f, kids := (kids (stage P M fr q ch mf mq zs))(P ! 0 \<mapsto> map ((!) P) ch')\<rparr>)"
    and f: "par (stage P M fr q ch' mf mq zs) \<subseteq>\<^sub>m f"
  shows "holds P M s (stage P M fr q ch' mf mq zs)"
  using holds_par_le [OF h, of "par (stage P M fr q ch' mf mq zs)"] f by (simp add: stage_def)

lemma stage_child_remove:
  assumes h: "holds P M s (stage P M fr q (i # ch) mf mq zs)"
  shows "\<exists>s'. removeChild (P ! 0) s = Some (P ! i, s') \<and> holds P M s' (stage P M fr q ch mf mq zs)"
proof -
  let ?B = "stage P M fr q (i # ch) mf mq zs"
  obtain s' where s': "removeChild (P ! 0) s = Some (P ! i, s')" "holds P M s' (?B\<lparr>kids := (kids ?B)(P ! 0 \<mapsto> map ((!) P) ch)\<rparr>)"
    using removeChild_some [OF h, of "P ! 0" "P ! i" "map ((!) P) ch"] by (auto simp: stage_def)
  have "?B\<lparr>kids := (kids ?B)(P ! 0 \<mapsto> map ((!) P) ch)\<rparr> = ?B\<lparr>par := par ?B, kids := (kids ?B)(P ! 0 \<mapsto> map ((!) P) ch)\<rparr>" by simp
  then have "holds P M s' (stage P M fr q ch mf mq zs)"
    using stage_ch_le [where ch = "i # ch" and f = "par ?B" and ch' = ch and s = s' and P = P and M = M] s'(2) by (simp add: stage_def map_le_def dom_def)
  with s'(1) show ?thesis by blast
qed

lemma stage_child_out:
  assumes h: "holds P M s (stage P M fr q ch mf mq zs)" and i: "0 < i" "i < MAXPROC" "i \<in> set ch" "set ch \<subseteq> {..<MAXPROC}" "distinct ch"
  shows "\<exists>s'. outChild (P ! i) s = Some (P ! i, s') \<and> holds P M s' (stage P M fr q (remove1 i ch) mf mq zs)"
proof -
  let ?B = "stage P M fr q ch mf mq zs"
  have n: "P ! i \<noteq> P ! 0" "P ! 0 \<noteq> NULL" "P ! i \<notin> (!) P ` set (remove1 i ch)"
    using holds_nth_eq [OF h, of i 0] holds_nth [OF h, of 0] holds_nth_mem [OF h, of i "remove1 i ch"] i by auto
  have "\<exists>s'. outChild (P ! i) s = Some (P ! i, s') \<and>
      holds P M s' (?B\<lparr>par := (par ?B)(P ! i \<mapsto> NULL), kids := (kids ?B)(P ! 0 \<mapsto> remove1 (P ! i) (map ((!) P) ch))\<rparr>)"
    by (rule outChild_some [OF h]) (use n i in \<open>auto simp: stage_def\<close>)
  then obtain s' where s': "outChild (P ! i) s = Some (P ! i, s')"
    "holds P M s' (?B\<lparr>par := (par ?B)(P ! i \<mapsto> NULL), kids := (kids ?B)(P ! 0 \<mapsto> map ((!) P) (remove1 i ch))\<rparr>)"
    using map_nth_remove1 [OF h i(2,4)] by auto
  have "par (stage P M fr q (remove1 i ch) mf mq zs) \<subseteq>\<^sub>m (par ?B)(P ! i \<mapsto> NULL)"
    using n i by (auto simp: stage_def map_le_def dom_def)
  from stage_ch_le [OF s'(2) this] s'(1) show ?thesis by blast
qed

section \<open>Operations on the messages of a stage\<close>

lemma holds_msg_nth: "holds P M s B \<Longrightarrow> i < MAXMESSAGES \<Longrightarrow> rev M ! i \<in> set M \<and> rev M ! i \<noteq> NULL"
  using holds_msg_table [of P M s B] nth_mem [of i "rev M"] by auto

lemma holds_msg_nth_eq: "holds P M s B \<Longrightarrow> i < MAXMESSAGES \<Longrightarrow> j < MAXMESSAGES \<Longrightarrow> rev M ! i = rev M ! j \<longleftrightarrow> i = j"
  using holds_msg_table [of P M s B] nth_eq_iff_index_eq [of "rev M" i j] by auto

lemma holds_msg_nth_mem:
  assumes "holds P M s B" "i < MAXMESSAGES" "ks \<subseteq> {..<MAXMESSAGES}"
  shows "rev M ! i \<in> (!) (rev M) ` ks \<longleftrightarrow> i \<in> ks"
  using holds_msg_nth_eq [OF assms(1)] assms(2,3) by (auto simp: subset_iff)

lemma holds_msg_disjoint:
  assumes h: "holds P M s B" and X: "X \<subseteq> {..<MAXMESSAGES}" "Y \<subseteq> {..<MAXMESSAGES}" "X \<inter> Y = {}"
  shows "(!) (rev M) ` X \<inter> (!) (rev M) ` Y = {}"
proof -
  have "inj_on ((!) (rev M)) {..<MAXMESSAGES}" by (rule inj_onI) (simp add: holds_msg_nth_eq [OF h])
  from inj_on_image_Int [OF this X(1,2)] X(3) show ?thesis by simp
qed

lemma stage_senders:
  assumes h: "holds P M s (stage P M fr q ch mf mq zs)" and z: "set zs' \<subseteq> set zs"
  shows "holds P M s (stage P M fr q ch mf mq zs')"
proof -
  have "senders (stage P M fr q ch mf mq zs') \<subseteq>\<^sub>m senders (stage P M fr q ch mf mq zs)"
    using z by (auto simp: stage_def map_le_def dom_def)
  from holds_senders_le [OF h this] show ?thesis by (simp add: stage_def)
qed

lemma stage_initMsgs:
  assumes h: "holds P M s (stage P M fr q ch [] None [])"
  shows "holds P M (initMsgs s) (stage P M fr q ch [0..<MAXMESSAGES] None [])"
proof -
  let ?A = "heads (stage P M fr q ch [] None [])" and ?M = "rev M"
  have M: "M = msgTable s" "msg_table_ok s" using h by (simp_all add: holds_def arrays_def)
  have "M_LIST m \<notin> nodes ?A" for m by (rule not_nodes(3)) (simp_all add: stage_def)
  note i = initMsgs_queues [where A = ?A, OF holds_ok [OF h] _ M(2) this]
  have s: "initMsgs s = s\<lparr>lh_mem := lh_mem (initMsgs s)\<rparr>" by (rule i(1)) (simp add: stage_def)
  have "queues_ok (lh_mem (initMsgs s)) (?A(msgFree_h \<mapsto> map M_LIST (rev (msgTable s))))" by (rule i(2)) (simp add: stage_def)
  from holds_mfree [OF h this [folded M(1)]] s have "holds P M (initMsgs s) (stage P M fr q ch [] None []\<lparr>mfree := Some (rev M)\<rparr>)" by simp
  moreover have "map ((!) ?M) [0..<MAXMESSAGES] = ?M" using holds_msg_table [OF h] map_nth [of ?M] by simp
  ultimately show ?thesis by (simp add: stage_def del: upt_Suc)
qed

lemma stage_allocMsg:
  assumes h: "holds P M s (stage P M fr q ch (i # mf) mq zs)" and l: "loops ((!) (rev M) ` ls) s"
    and i: "set (i # mf) \<subseteq> {..<MAXMESSAGES}" "ls \<subseteq> {..<MAXMESSAGES}" "ls \<inter> set (i # mf) = {}"
  shows "\<exists>s'. allocMsg s = Some (rev M ! i, s') \<and> holds P M s' (stage P M fr q ch mf mq (i # zs)) \<and> loops ((!) (rev M) ` insert i ls) s'"
proof -
  let ?B = "stage P M fr q ch (i # mf) mq zs" and ?f = "(!) (rev M)"
  have f: "mfree ?B = Some (rev M ! i # map ((!) (rev M)) mf)" by (simp add: stage_def)
  have "?f ` ls \<inter> ?f ` set (i # mf) = {}" by (rule holds_msg_disjoint [OF h i(2,1,3)])
  then have "?f ` ls \<inter> set (rev M ! i # map ?f mf) = {}" by simp
  moreover have "?B\<lparr>mfree := Some (map ?f mf), senders := (senders ?B)(?f i \<mapsto> NULL)\<rparr> = stage P M fr q ch mf mq (i # zs)"
    by (auto simp: stage_def fun_eq_iff)
  ultimately show ?thesis using allocMsg_some [OF h f l] by simp
qed

lemma stage_allocMsg_none: "holds P M s (stage P M fr q ch [] mq zs) \<Longrightarrow> allocMsg s = Some (NULL, s)"
  by (erule allocMsg_none) (simp add: stage_def)

lemma stage_freeMsg:
  assumes h: "holds P M s (stage P M fr q ch mf mq zs)" and l: "loops ((!) (rev M) ` ls) s" and u: "unlinked (M_LIST (rev M ! i)) (lh_mem s)"
    and i: "i < MAXMESSAGES" "i \<notin> set mf" "set mf \<subseteq> {..<MAXMESSAGES}" "\<And>ks. mq = Some ks \<Longrightarrow> i \<notin> set ks \<and> set ks \<subseteq> {..<MAXMESSAGES}"
      "ls \<subseteq> {..<MAXMESSAGES}" "ls \<inter> set mf = {}"
  shows "\<exists>s'. freeMsg (rev M ! i) s = Some s' \<and> holds P M s' (stage P M fr q ch (mf @ [i]) mq zs) \<and> loops ((!) (rev M) ` (ls - {i})) s'"
proof -
  let ?B = "stage P M fr q ch mf mq zs" and ?f = "(!) (rev M)"
  have "?f ` ls \<inter> ?f ` set mf = {}" by (rule holds_msg_disjoint [OF h i(5,3,6)])
  then have d: "?f ` ls \<inter> set (map ?f mf) = {}" by simp
  have e: "?f ` ls - {?f i} = ?f ` (ls - {i})" using holds_msg_nth_eq [OF h _ i(1)] i(5) by (auto simp: subset_iff)
  have "\<exists>s'. freeMsg (rev M ! i) s = Some s' \<and> holds P M s' (?B\<lparr>mfree := Some (map ?f mf @ [?f i])\<rparr>) \<and> loops (?f ` ls - {?f i}) s'"
    by (rule freeMsg_some [OF h _ _ _ _ u l d])
      (use i holds_msg_nth [OF h] holds_msg_nth_mem [OF h i(1)] in \<open>auto simp: stage_def\<close>)
  then show ?thesis unfolding e by (simp add: stage_def)
qed

lemma stage_mkEmptyMessageQ:
  "holds P M s (stage P M fr q ch mf mq zs) \<Longrightarrow> holds P M (mkEmptyMessageQ qm s) (stage P M fr q ch mf (Some []) zs)"
  by (drule mkEmptyMessageQ_some) (simp add: stage_def)

lemma stage_insertMessage:
  assumes h: "holds P M s (stage P M fr q ch mf (Some mq) zs)"
    and i: "i < MAXMESSAGES" "i \<notin> set mf" "set mf \<subseteq> {..<MAXMESSAGES}" "i \<notin> set mq" "set mq \<subseteq> {..<MAXMESSAGES}"
  shows "\<exists>s'. insertMessage qm (rev M ! i) s = Some s' \<and> holds P M s' (stage P M fr q ch mf (Some (mq @ [i])) zs)"
    and "\<exists>s'. pushMessage qm (rev M ! i) s = Some s' \<and> holds P M s' (stage P M fr q ch mf (Some (i # mq)) zs)"
proof -
  let ?B = "stage P M fr q ch mf (Some mq) zs" and ?f = "(!) (rev M)"
  have "\<exists>s'. insertMessage qm (rev M ! i) s = Some s' \<and> holds P M s' (?B\<lparr>mqueue := Some (map ?f mq @ [?f i])\<rparr>)"
    by (rule insertMessage_some [OF h]) (use i holds_msg_nth [OF h] holds_msg_nth_mem [OF h i(1)] in \<open>auto simp: stage_def\<close>)
  then show "\<exists>s'. insertMessage qm (rev M ! i) s = Some s' \<and> holds P M s' (stage P M fr q ch mf (Some (mq @ [i])) zs)"
    by (simp add: stage_def)
  have "\<exists>s'. pushMessage qm (rev M ! i) s = Some s' \<and> holds P M s' (?B\<lparr>mqueue := Some (?f i # map ?f mq)\<rparr>)"
    by (rule pushMessage_some [OF h]) (use i holds_msg_nth [OF h] holds_msg_nth_mem [OF h i(1)] in \<open>auto simp: stage_def\<close>)
  then show "\<exists>s'. pushMessage qm (rev M ! i) s = Some s' \<and> holds P M s' (stage P M fr q ch mf (Some (i # mq)) zs)"
    by (simp add: stage_def)
qed

lemma stage_popMessage:
  assumes h: "holds P M s (stage P M fr q ch mf (Some (i # mq)) zs)"
  shows "\<exists>s'. popMessage qm NULL s = Some (rev M ! i, s') \<and> holds P M s' (stage P M fr q ch mf (Some mq) zs) \<and>
    unlinked (M_LIST (rev M ! i)) (lh_mem s')"
  using popMessage_first [OF h, of "rev M ! i" "map ((!) (rev M)) mq"] by (simp add: stage_def)

lemma stage_popMessage_undefined:
  "holds P M s (stage P M fr q ch mf (Some (i # mq)) zs) \<Longrightarrow> i \<in> set zs \<Longrightarrow> p \<noteq> NULL \<Longrightarrow> popMessage qm p s = None"
  by (rule popMessage_undefined) (auto simp: stage_def)

text \<open>\<^verbatim>\<open>m->m_sender = p\<close>.\<close>

lemma stage_sender:
  assumes h: "holds P M s (stage P M fr q ch mf mq zs)" and i: "i < MAXMESSAGES" "i \<notin> set zs" "set zs \<subseteq> {..<MAXMESSAGES}"
  shows "\<exists>s'. upd_msg (rev M ! i) (\<lambda>x. x\<lparr>m_sender := p\<rparr>) s = Some s' \<and> holds P M s' (stage P M fr q ch mf mq zs)"
proof -
  let ?B = "stage P M fr q ch mf mq zs" and ?m = "rev M ! i"
  obtain x where x: "msgs s ?m = Some x" using holds_msg [OF h] holds_msg_nth [OF h i(1)] by blast
  have 1: "holds P M (s\<lparr>msgs := (msgs s)(?m \<mapsto> x\<lparr>m_sender := p\<rparr>)\<rparr>) (?B\<lparr>senders := (senders ?B)(?m \<mapsto> p)\<rparr>)"
    using holds_upd_msg [OF h x, of "x\<lparr>m_sender := p\<rparr>"] by simp
  have "?m \<notin> (!) (rev M) ` set zs" using holds_msg_nth_mem [OF h i(1,3)] i(2) by simp
  then have "senders ?B \<subseteq>\<^sub>m (senders ?B)(?m \<mapsto> p)" by (auto simp: stage_def map_le_def dom_def)
  from holds_senders_le [OF 1, of "senders ?B"] this x show ?thesis by (simp add: upd_msg_def stage_def)
qed

lemma stage_emptyMessageQ: "holds P M s (stage P M fr q ch mf (Some mq) zs) \<Longrightarrow> emptyMessageQ qm s = (mq = [])"
  by (drule emptyMessageQ_some [where ms = "map ((!) (rev M)) mq"]) (simp_all add: stage_def)

lemma stage_headMessage: "holds P M s (stage P M fr q ch mf (Some (i # mq)) zs) \<Longrightarrow> headMessage qm s = Some (rev M ! i)"
  by (erule headMessage_some) (simp add: stage_def)

lemma stage_lastMessage:
  "holds P M s (stage P M fr q ch mf (Some (mq @ [i])) zs) \<Longrightarrow> container_of_m_list (list_prev qm (lh_mem s)) = Some (rev M ! i)"
  by (erule lastMessage_some) (simp add: stage_def)

end
