(* ===== verification/P1test_Parts.thy ===== *)
theory P1test_Parts
  imports P1test_Runs
begin

text \<open>What each part of the test of phase 1 does when the operations of phase 1 are right.\<close>

abbreviation (input) procs :: "ptr list \<Rightarrow> ptr list \<Rightarrow> nat list \<Rightarrow> nat list option \<Rightarrow> nat list \<Rightarrow> sys \<Rightarrow> bool" where
  "procs P M fr q ch \<equiv> \<lambda>s. holds P M s (stage P M fr q ch [] None [])"

section \<open>Allocation\<close>

definition vars_alloc :: "ptr list \<Rightarrow> nat \<Rightarrow> p1vars \<Rightarrow> bool" where
  "vars_alloc P k V \<longleftrightarrow> length (procp V) = MAXPROC \<and> length (msg_arr V) = MAXMESSAGES \<and> take k (procp V) = take k P"

definition vars_procs :: "ptr list \<Rightarrow> p1vars \<Rightarrow> bool" where
  "vars_procs P V \<longleftrightarrow> procp V = P \<and> length (msg_arr V) = MAXMESSAGES"

lemma alloc_loop:
  assumes "i < MAXPROC"
  shows "goes (run_cmds [assign (\<lambda>r v. v\<lparr>procp := (procp v)[i := r]\<rparr>) (\<lambda>v. allocPcb), check n D (\<lambda>v s. Some (procp v ! i = NULL)) str])
    (At (\<lambda>s. holds P M s (alloc_lists P i)) (vars_alloc P i) T) (At (\<lambda>s. holds P M s (alloc_lists P (Suc i))) (vars_alloc P (Suc i)) T)"
proof (rule goes_Cons [OF goes_assign [where C' = "vars_alloc P (Suc i)"] goes_Cons [OF goes_check goes_Nil]])
  fix V s
  show "\<exists>s'. allocPcb s = Some (P ! i, s') \<and> holds P M s' (alloc_lists P (Suc i))" if "holds P M s (alloc_lists P i)"
    using that assms by (rule alloc_step)
  show "vars_alloc P (Suc i) (V\<lparr>procp := (procp V)[i := P ! i]\<rparr>)" if "vars_alloc P i V" "holds P M s (alloc_lists P i)"
    using that(1) holds_table [OF that(2)] assms by (simp add: vars_alloc_def take_Suc_conv_app_nth)
  show "Some (procp V ! i = NULL) = Some False" if "vars_alloc P (Suc i) V" "holds P M s (alloc_lists P (Suc i))"
  proof -
    have "procp V ! i = P ! i" using that(1) nth_take [of i "Suc i" "procp V"] nth_take [of i "Suc i" P] by (simp add: vars_alloc_def)
    with holds_nth [OF that(2) assms] show ?thesis by simp
  qed
qed

lemma part_alloc:
  assumes D: "prompt n D" and T: "length T < 500"
  shows "goes (run_cmds (p1_alloc n D))
    (At (\<lambda>s. static_image s \<and> pcbTable s = P \<and> msgTable s = M) (\<lambda>V. length (procp V) = MAXPROC \<and> length (msg_arr V) = MAXMESSAGES) T)
    (At (procs P M [10..<MAXPROC] None []) (vars_procs P)
      (T @ ''Initialized process control blocks\<newline>'' @ ''allocPcb ok\<newline>'' @ ''freed 10 entries\<newline>''))"
proof -
  let ?T1 = "T @ ''Initialized process control blocks\<newline>''" and ?T2 = "(T @ ''Initialized process control blocks\<newline>'') @ ''allocPcb ok\<newline>''"
  let ?A = "\<lambda>i. At (\<lambda>s. holds P M s (alloc_lists P i)) (vars_alloc P i)" and ?B = "\<lambda>i. At (procs P M [10..<i] None []) (vars_procs P)"
  have alloc: "goes (for_cmds [0..<MAXPROC] (\<lambda>i. [assign (\<lambda>r v. v\<lparr>procp := (procp v)[i := r]\<rparr>) (\<lambda>v. allocPcb),
      check n D (\<lambda>v s. Some (procp v ! i = NULL)) str])) (?A 0 ?T1) (?A MAXPROC ?T1)" for str
    by (rule goes_for_range [where A = "\<lambda>i. ?A i ?T1"]) (simp, rule alloc_loop)
  have freed: "goes (for_cmds [10..<MAXPROC] (\<lambda>i. [on_kern (\<lambda>v. freePcb (procp v ! i))])) (?B 10 ?T2) (?B MAXPROC ?T2)"
  proof (rule goes_for_range [where A = "\<lambda>i. ?B i ?T2"], simp, rule goes_Cons [OF goes_on_kern goes_Nil])
    fix i V s
    assume i: "10 \<le> i" "i < MAXPROC" and "vars_procs P V" and h: "procs P M [10..<i] None [] s"
    then show "\<exists>s'. freePcb (procp V ! i) s = Some s' \<and> procs P M [10..<Suc i] None [] s'"
      using stage_free [OF h i(2)] by (auto simp: vars_procs_def subset_iff)
  qed
  show ?thesis
    unfolding p1_alloc_def
    apply (rule goes_Cons [OF goes_weaken [OF goes_on_kern [where J = "\<lambda>s. holds P M s (alloc_lists P 0)"],
      where B' = "?A 0 T"]])
      apply (use start_lists in force)
     apply (simp add: At_def vars_alloc_def)
    apply (rule goes_Cons [OF goes_ok [OF D stable_holds(1)]], use T in simp)
    apply (rule goes_Cons [OF goes_weaken [OF alloc, where B' = "?B 10 ?T1"]])
     apply (fastforce simp: At_def vars_alloc_def vars_procs_def dest: holds_table intro: alloc_all)
    apply (rule goes_Cons [OF goes_check_call [where r = NULL]])
      apply (simp add: allocPcb_none stage_def)
     apply simp
    apply (rule goes_Cons [OF goes_ok [OF D stable_holds(1)]], use T in simp)
    apply (rule goes_Cons [OF freed])
    apply (rule goes_Cons [OF goes_weaken [OF goes_ok [OF D stable_holds(1)]] goes_Nil])
     apply (use T in simp_all)
    done
qed

section \<open>Process queues\<close>

definition vars_queue :: "ptr list \<Rightarrow> nat \<Rightarrow> p1vars \<Rightarrow> bool" where
  "vars_queue P k V \<longleftrightarrow> vars_procs P V \<and> (0 < k \<longrightarrow> firstproc V = P ! 10) \<and> (5 < k \<longrightarrow> midproc V = P ! 15) \<and>
     (9 < k \<longrightarrow> lastproc V = P ! 19)"

lemma insert_loop:
  assumes i: "i < 10"
  shows "goes (run_cmds [assign set_q (\<lambda>v. allocPcb), check n D (\<lambda>v s. Some (v_q v = NULL)) str,
      set_vars (note_proc i), on_kern (\<lambda>v. insertProcQ qa (v_q v))])
    (At (procs P M [10 + i..<MAXPROC] (Some [10..<10 + i]) []) (vars_queue P i) T)
    (At (procs P M [10 + Suc i..<MAXPROC] (Some [10..<10 + Suc i]) []) (vars_queue P (Suc i)) T)"
proof (rule goes_Cons [OF goes_assign [where r = "P ! (10 + i)" and J = "procs P M [10 + Suc i..<MAXPROC] (Some [10..<10 + i]) []"
      and C' = "\<lambda>V. vars_queue P i V \<and> v_q V = P ! (10 + i)"]
      goes_Cons [OF goes_check goes_Cons [OF goes_set_vars [where C' = "\<lambda>V. vars_queue P (Suc i) V \<and> v_q V = P ! (10 + i)"]
      goes_Cons [OF goes_weaken [OF goes_on_kern] goes_Nil]]]])
  let ?J = "procs P M [10 + Suc i..<MAXPROC] (Some [10..<10 + i]) []"
  fix V s
  show "\<exists>s'. allocPcb s = Some (P ! (10 + i), s') \<and> ?J s'" if "procs P M [10 + i..<MAXPROC] (Some [10..<10 + i]) [] s"
    using that i by (intro stage_alloc) (simp_all add: upt_conv_Cons del: upt_Suc)
  show "vars_queue P i (set_q (P ! (10 + i)) V) \<and> v_q (set_q (P ! (10 + i)) V) = P ! (10 + i)" if "vars_queue P i V"
    using that by (simp add: set_q_def vars_queue_def vars_procs_def)
  show "Some (v_q V = NULL) = Some False" if "vars_queue P i V \<and> v_q V = P ! (10 + i)" "?J s"
    using holds_nth [OF that(2), of "10 + i"] that(1) i by simp
  show "vars_queue P (Suc i) (note_proc i V) \<and> v_q (note_proc i V) = P ! (10 + i)" if "vars_queue P i V \<and> v_q V = P ! (10 + i)"
    using that i by (auto simp: note_proc_def vars_queue_def vars_procs_def)
  show "\<exists>s'. insertProcQ qa (v_q V) s = Some s' \<and> procs P M [10 + Suc i..<MAXPROC] (Some [10..<10 + Suc i]) [] s'"
    if "vars_queue P (Suc i) V \<and> v_q V = P ! (10 + i)" "?J s"
  proof -
    have q: "[10..<10 + Suc i] = [10..<10 + i] @ [10 + i]" by (simp only: add_Suc_right upt_Suc_append le_add1)
    show ?thesis unfolding q using stage_insert [OF that(2), of "10 + i"] that(1) i by (simp add: subset_iff del: upt_Suc)
  qed
qed (simp add: At_def)

lemma part_insert:
  assumes D: "prompt n D" and T: "length T < 800"
  shows "goes (run_cmds (p1_insert n D)) (At (procs P M [10..<MAXPROC] None []) (vars_procs P) T)
    (At (procs P M [20..<MAXPROC] (Some [10..<20]) []) (vars_queue P 10) (T @ ''Inserting...   \<newline>'' @ ''inserted 10 elements\<newline>''))"
proof -
  let ?T1 = "T @ ''Inserting...   \<newline>''"
  let ?A = "\<lambda>i. At (procs P M [10 + i..<MAXPROC] (Some [10..<10 + i]) []) (vars_queue P i) ?T1"
  have "goes (for_cmds [0..<10] (\<lambda>i. [assign set_q (\<lambda>v. allocPcb), check n D (\<lambda>v s. Some (v_q v = NULL)) str,
      set_vars (note_proc i), on_kern (\<lambda>v. insertProcQ qa (v_q v))])) (?A 0) (?A 10)" for str
    by (rule goes_for_range [where A = ?A]) (simp, rule insert_loop)
  then have loop: "goes (for_cmds [0..<10] (\<lambda>i. [assign set_q (\<lambda>v. allocPcb), check n D (\<lambda>v s. Some (v_q v = NULL)) str,
      set_vars (note_proc i), on_kern (\<lambda>v. insertProcQ qa (v_q v))])) (At (procs P M [10..<MAXPROC] (Some []) []) (vars_queue P 0) ?T1)
      (At (procs P M [20..<MAXPROC] (Some [10..<20]) []) (vars_queue P 10) ?T1)" for str by (simp del: upt_Suc)
  show ?thesis
    unfolding p1_insert_def
    apply (rule goes_Cons [OF goes_weaken [OF goes_on_kern [where J = "procs P M [10..<MAXPROC] (Some []) []"],
      where B' = "At (procs P M [10..<MAXPROC] (Some []) []) (vars_queue P 0) T"]])
      apply (blast intro: stage_mkEmptyProcQ)
     apply (simp add: At_def vars_queue_def)
    apply (rule goes_Cons [OF goes_check], simp add: stage_emptyProcQ)
    apply (rule goes_Cons [OF goes_ok [OF D stable_holds(1)]], use T in simp)
    apply (rule goes_Cons, rule loop)
    apply (rule goes_Cons [OF goes_ok [OF D stable_holds(1)]], use T in simp)
    apply (rule goes_Cons [OF goes_weaken [OF goes_check] goes_Nil], drule stage_emptyProcQ, simp, simp)
    done
qed

lemma part_out:
  assumes D: "prompt n D" and T: "length T < 900"
  shows "goes (run_cmds (p1_out n D)) (At (procs P M [20..<MAXPROC] (Some [10..<20]) []) (vars_queue P 10) T)
    (At (procs P M ([20..<MAXPROC] @ [10, 15]) (Some [11, 12, 13, 14, 16, 17, 18, 19]) []) (vars_queue P 10) (T @ ''outProcQ ok   \<newline>''))"
  unfolding p1_out_def
  apply (rule goes_Cons [OF goes_check])
   apply (simp add: stage_headProcQ vars_queue_def)
  apply (rule goes_Cons [OF goes_assign [where r = "P ! 10" and J = "procs P M [20..<MAXPROC] (Some [11..<20]) []"
        and C' = "\<lambda>V. vars_queue P 10 V \<and> v_q V = P ! 10"]])
    apply (drule stage_out [where i = 10]; simp add: vars_queue_def)
   apply (simp add: vars_queue_def vars_procs_def set_q_def)
  apply (rule goes_Cons [OF goes_check])
   apply (drule holds_nth [where i = 10]; simp add: vars_queue_def)
  apply (rule goes_Cons [OF goes_on_kern [where J = "procs P M ([20..<MAXPROC] @ [10]) (Some [11..<20]) []"]])
   apply (drule stage_free [where i = 10]; auto)
  apply (rule goes_Cons [OF goes_assign [where r = "P ! 15" and J = "procs P M ([20..<MAXPROC] @ [10]) (Some [11, 12, 13, 14, 16, 17, 18, 19]) []"
        and C' = "\<lambda>V. vars_queue P 10 V \<and> v_q V = P ! 15"]])
    apply (drule stage_out [where i = 15]; simp add: vars_queue_def)
   apply (simp add: vars_queue_def vars_procs_def set_q_def)
  apply (rule goes_Cons [OF goes_check])
   apply (drule holds_nth [where i = 15]; simp add: vars_queue_def)
  apply (rule goes_Cons [OF goes_on_kern [where J = "procs P M ([20..<MAXPROC] @ [10, 15]) (Some [11, 12, 13, 14, 16, 17, 18, 19]) []"]])
   apply (drule stage_free [where i = 15]; auto)
  apply (rule goes_Cons [OF goes_check_call [where r = NULL]])
    apply (drule stage_out_none [where i = 0]; simp add: vars_queue_def vars_procs_def)
   apply simp
  apply (rule goes_Cons [OF goes_weaken [OF goes_ok [OF D stable_holds(1)]] goes_Nil])
   apply (use T in \<open>simp_all add: At_def\<close>)
  done

definition left_queue :: "nat list" where "left_queue = [11, 12, 13, 14, 16, 17, 18, 19]"

lemma left_queue_facts:
  "length left_queue = 8" "distinct left_queue" "set left_queue \<subseteq> {11..19} - {15}" "i < 8 \<Longrightarrow> left_queue ! i \<in> {11..19} - {15}" "left_queue ! 7 = 19"
proof -
  show r: "length left_queue = 8" "distinct left_queue" "set left_queue \<subseteq> {11..19} - {15}" "left_queue ! 7 = 19" by (simp_all add: left_queue_def)
  show "left_queue ! i \<in> {11..19} - {15}" if "i < 8" using r(1,3) nth_mem [of i left_queue] that by (auto simp only:)
qed

definition vars_remove :: "ptr list \<Rightarrow> nat \<Rightarrow> p1vars \<Rightarrow> bool" where
  "vars_remove P k V \<longleftrightarrow> vars_queue P 10 V \<and> (0 < k \<longrightarrow> v_q V = P ! (left_queue ! (k - 1)))"

lemma remove_loop:
  assumes i: "i < 8"
  shows "goes (run_cmds [assign set_q (\<lambda>v. removeProcQ qa), check n D (\<lambda>v s. Some (v_q v = NULL)) str, on_kern (\<lambda>v. freePcb (v_q v))])
    (At (procs P M ([20..<MAXPROC] @ [10, 15] @ take i left_queue) (Some (drop i left_queue)) []) (vars_remove P i) T)
    (At (procs P M ([20..<MAXPROC] @ [10, 15] @ take (Suc i) left_queue) (Some (drop (Suc i) left_queue)) []) (vars_remove P (Suc i)) T)"
proof -
  let ?fr = "[20..<MAXPROC] @ [10, 15] @ take i left_queue" and ?k = "left_queue ! i"
  let ?J = "procs P M ?fr (Some (drop (Suc i) left_queue)) []"
  have d: "drop i left_queue = ?k # drop (Suc i) left_queue" using i by (simp add: Cons_nth_drop_Suc left_queue_facts)
  have t: "take (Suc i) left_queue = take i left_queue @ [?k]" using i by (simp add: take_Suc_conv_app_nth left_queue_facts)
  have k: "?k \<in> {11..19} - {15}" using left_queue_facts(4) [OF i] .
  have f: "?k \<notin> set (take i left_queue)" "?k \<notin> set (drop (Suc i) left_queue)"
    using left_queue_facts(1,2) i by (auto simp: in_set_conv_nth nth_eq_iff_index_eq)
  have r: "set (take i left_queue) \<subseteq> {..<MAXPROC}" "set (drop (Suc i) left_queue) \<subseteq> {..<MAXPROC}"
    using left_queue_facts(3) set_take_subset [of i left_queue] set_drop_subset [of "Suc i" left_queue] by fastforce+
  show ?thesis
  proof (rule goes_Cons [OF goes_assign [where r = "P ! ?k" and J = ?J and C' = "vars_remove P (Suc i)"]
      goes_Cons [OF goes_check goes_Cons [OF goes_on_kern goes_Nil]]])
    fix V s
    show "\<exists>s'. removeProcQ qa s = Some (P ! ?k, s') \<and> ?J s'" if "procs P M ?fr (Some (drop i left_queue)) [] s"
      using that unfolding d by (rule stage_remove)
    show "vars_remove P (Suc i) (set_q (P ! ?k) V)" if "vars_remove P i V"
      using that by (simp add: vars_remove_def vars_queue_def vars_procs_def set_q_def)
    show "Some (v_q V = NULL) = Some False" if "vars_remove P (Suc i) V" "?J s"
      using holds_nth [OF that(2), of ?k] that(1) k by (simp add: vars_remove_def)
    show "\<exists>s'. freePcb (v_q V) s = Some s' \<and>
        procs P M ([20..<MAXPROC] @ [10, 15] @ take (Suc i) left_queue) (Some (drop (Suc i) left_queue)) [] s'"
      if "vars_remove P (Suc i) V" "?J s"
      using stage_free [OF that(2), of ?k] that(1) k f r by (simp add: vars_remove_def t subset_iff del: upt_Suc)
  qed
qed


lemma part_remove:
  assumes D: "prompt n D" and T: "length T < 1000"
  shows "goes (run_cmds (p1_remove n D))
    (At (procs P M ([20..<MAXPROC] @ [10, 15]) (Some [11, 12, 13, 14, 16, 17, 18, 19]) []) (vars_queue P 10) T)
    (At (procs P M ([20..<MAXPROC] @ [10, 15] @ left_queue) (Some []) []) (vars_procs P)
      (T @ ''Removing...   \<newline>'' @ ''insertProcQ, removeProcQ and emptyProcQ ok   \<newline>'' @ ''process queues module ok      \<newline>''))"
proof -
  let ?T1 = "T @ ''Removing...   \<newline>''"
  let ?A = "\<lambda>i. At (procs P M ([20..<MAXPROC] @ [10, 15] @ take i left_queue) (Some (drop i left_queue)) []) (vars_remove P i) ?T1"
  let ?J = "procs P M ([20..<MAXPROC] @ [10, 15] @ left_queue) (Some []) []"
  have "goes (for_cmds [0..<8] (\<lambda>i. [assign set_q (\<lambda>v. removeProcQ qa), check n D (\<lambda>v s. Some (v_q v = NULL)) str, on_kern (\<lambda>v. freePcb (v_q v))]))
      (?A 0) (?A 8)" for str
    by (rule goes_for_range [where A = ?A]) (simp, rule remove_loop)
  then have loop: "goes (for_cmds [0..<8] (\<lambda>i. [assign set_q (\<lambda>v. removeProcQ qa), check n D (\<lambda>v s. Some (v_q v = NULL)) str, on_kern (\<lambda>v. freePcb (v_q v))]))
      (?A 0) (At ?J (\<lambda>V. vars_queue P 10 V \<and> v_q V = P ! 19) ?T1)" for str
    by (rule goes_weaken) (simp add: At_def vars_remove_def left_queue_facts(1,5) del: upt_Suc)
  show ?thesis
    unfolding p1_remove_def
    apply (rule goes_Cons [OF goes_weaken [OF goes_ok [OF D stable_holds(1)], where B' = "?A 0"]], use T in simp)
     apply (simp add: At_def vars_remove_def left_queue_def)
    apply (rule goes_Cons, rule loop)
    apply (rule goes_Cons [OF goes_check], simp add: vars_queue_def)
    apply (rule goes_Cons [OF goes_check_call [where r = NULL]])
      apply (simp add: removeProcQ_none stage_def)
     apply simp
    apply (rule goes_Cons [OF goes_check], drule stage_emptyProcQ, simp)
    apply (rule goes_Cons [OF goes_ok [OF D stable_holds(1)]], use T in simp)
    apply (rule goes_Cons [OF goes_weaken [OF goes_ok [OF D stable_holds(1)]] goes_Nil])
     apply (use T in \<open>simp_all add: At_def vars_queue_def\<close>)
    done
qed

section \<open>The process tree\<close>

definition vars_q :: "ptr list \<Rightarrow> ptr \<Rightarrow> p1vars \<Rightarrow> bool" where
  "vars_q P p V \<longleftrightarrow> vars_procs P V \<and> v_q V = p"

lemma vars_q_set [simp]: "vars_procs P V \<Longrightarrow> vars_q P p (set_q p V)" "vars_q P r V \<Longrightarrow> vars_q P p (set_q p V)"
  by (simp_all add: vars_q_def vars_procs_def set_q_def)

lemma vars_q_procs: "vars_q P p V \<Longrightarrow> vars_procs P V"
  by (simp add: vars_q_def)

lemma vars_q_procp [simp]: "vars_procs P V \<Longrightarrow> procp V = P" "vars_q P r V \<Longrightarrow> procp V = P" "vars_q P r V \<Longrightarrow> v_q V = r"
  by (simp_all add: vars_q_def vars_procs_def)

lemma part_children:
  assumes D: "prompt n D" and T: "length T < 1200"
  shows "goes (run_cmds (p1_children n D)) (At (procs P M fr (Some []) []) (vars_procs P) T)
    (At (procs P M fr (Some []) [2, 3, 5, 6, 7, 8, 9]) (vars_procs P)
      (T @ ''checking process trees...\<newline>'' @ ''Inserting...   \<newline>'' @ ''Inserted 9 children   \<newline>'' @ ''outChild ok   \<newline>''))"
proof -
  let ?A = "\<lambda>i. At (procs P M fr (Some []) [1..<i]) (vars_procs P)"
  have "goes (for_cmds [1..<10] (\<lambda>i. [on_kern (\<lambda>v. insertChild (procp v ! 0) (procp v ! i))])) (?A 1 U) (?A 10 U)" for U
  proof (rule goes_for_range [where A = "\<lambda>i. ?A i U"], simp, rule goes_Cons [OF goes_on_kern goes_Nil])
    fix i V s
    assume i: "1 \<le> i" "i < 10" and "vars_procs P V" and h: "procs P M fr (Some []) [1..<i] s"
    then show "\<exists>s'. insertChild (procp V ! 0) (procp V ! i) s = Some s' \<and> procs P M fr (Some []) [1..<Suc i] s'"
      using stage_child [OF h, of i] by (simp add: subset_iff)
  qed
  then have loop: "goes (for_cmds [1..<10] (\<lambda>i. [on_kern (\<lambda>v. insertChild (procp v ! 0) (procp v ! i))]))
      (At (procs P M fr (Some []) []) (vars_procs P) U) (?A 10 U)" for U
    using upt_conv_Nil [of 1 1] by (simp only: order_refl)
  have e: "[1..<10] = 1 # [2..<10]" by (subst upt_conv_Cons) (simp, simp only: Suc_1)
  have first: "(if lh_valid s (P_CHILD (P ! 0)) then Some (nxt (lh_mem s) (P_CHILD (P ! 0)) \<noteq> P_SIB (P ! 1)) else None) = Some False"
    if "procs P M fr (Some []) [1..<10] s" for s
    using that unfolding e by (rule stage_first_child)
  have out: "\<exists>s'. outChild (P ! 1) s = Some (P ! 1, s') \<and> procs P M fr (Some []) [2..<10] s'" if "procs P M fr (Some []) [1..<10] s" for s
    using stage_child_out [OF that [unfolded e], of 1] by simp
  show ?thesis
    unfolding p1_children_def
    apply (rule goes_Cons [OF goes_ok [OF D stable_holds(1)]], use T in simp)
    apply (rule goes_Cons [OF goes_check], simp add: stage_emptyChild)
    apply (rule goes_Cons [OF goes_ok [OF D stable_holds(1)]], use T in simp)
    apply (rule goes_Cons, rule loop)
    apply (rule goes_Cons [OF goes_ok [OF D stable_holds(1)]], use T in simp)
    apply (rule goes_Cons [OF goes_check])
     apply (simp only: vars_q_procp, erule first)
    apply (rule goes_Cons [OF goes_check])
     apply (simp add: stage_emptyChild)
    apply (rule goes_Cons [OF goes_assign [where r = "P ! 1" and J = "procs P M fr (Some []) [2..<10]" and C' = "vars_q P (P ! 1)"]])
      apply (simp only: vars_q_procp, erule out)
     apply simp
    apply (rule goes_Cons [OF goes_check])
     apply (drule holds_nth [where i = 1]; simp)
    apply (rule goes_Cons [OF goes_assign [where r = "P ! 4" and J = "procs P M fr (Some []) [2, 3, 5, 6, 7, 8, 9]" and C' = "vars_q P (P ! 4)"]])
      apply (drule stage_child_out [where i = 4]; simp)
     apply simp
    apply (rule goes_Cons [OF goes_check])
     apply (drule holds_nth [where i = 4]; simp)
    apply (rule goes_Cons [OF goes_check_call [where r = NULL]])
      apply (simp add: stage_outChild_none)
     apply simp
    apply (rule goes_Cons [OF goes_weaken [OF goes_ok [OF D stable_holds(1)]] goes_Nil])
     apply (use T vars_q_procs in \<open>auto simp: At_def\<close>)
    done
qed

lemma remove_child_loop:
  assumes "i \<in> {1..9}"
  shows "goes (run_cmds [assign set_q (\<lambda>v. removeChild (procp v ! 0)), check n D (\<lambda>v s. Some (v_q v = NULL)) str])
    (At (procs P M fr (Some []) (i # ch)) (vars_procs P) T) (At (procs P M fr (Some []) ch) (vars_procs P) T)"
proof (rule goes_Cons [OF goes_assign [where r = "P ! i" and J = "procs P M fr (Some []) ch" and C' = "vars_q P (P ! i)"]
    goes_Cons [OF goes_weaken [OF goes_check] goes_Nil]])
  fix V s
  show "\<exists>s'. removeChild (procp V ! 0) s = Some (P ! i, s') \<and> procs P M fr (Some []) ch s'"
    if "vars_procs P V" "procs P M fr (Some []) (i # ch) s"
    using that by (simp add: stage_child_remove)
  show "Some (v_q V = NULL) = Some False" if "vars_q P (P ! i) V" "procs P M fr (Some []) ch s"
    using that(1) holds_nth [OF that(2), of i] assms by simp
qed (auto simp: At_def vars_q_procs)

definition left_kids :: "nat list" where "left_kids = [2, 3, 5, 6, 7, 8, 9]"

lemma left_kids_facts: "length left_kids = 7" "i < 7 \<Longrightarrow> left_kids ! i \<in> {1..9}"
proof -
  show r: "length left_kids = 7" by (simp add: left_kids_def)
  have "set left_kids \<subseteq> {1..9}" by (simp add: left_kids_def)
  then show "left_kids ! i \<in> {1..9}" if "i < 7" using r nth_mem [of i left_kids] that by (auto simp only:)
qed

lemma part_remove_children:
  assumes D: "prompt n D" and T: "length T < 1400" and fr: "set fr \<subseteq> {10..<MAXPROC}"
  shows "goes (run_cmds (p1_remove_children n D)) (At (procs P M fr (Some []) [2, 3, 5, 6, 7, 8, 9]) (vars_procs P) T)
    (At (procs P M (fr @ [0..<10]) (Some []) []) (vars_procs P)
      (T @ ''Removing...   \<newline>'' @ ''insertChild, removeChild and emptyChild ok   \<newline>'' @ ''process tree module ok      \<newline>''))"
proof -
  let ?A = "\<lambda>i. At (procs P M fr (Some []) (drop i left_kids)) (vars_procs P)"
  let ?B = "\<lambda>i. At (procs P M (fr @ [0..<i]) (Some []) []) (vars_procs P)"
  have "goes (for_cmds [0..<7] (\<lambda>i. [assign set_q (\<lambda>v. removeChild (procp v ! 0)), check n D (\<lambda>v s. Some (v_q v = NULL)) str])) (?A 0 U) (?A 7 U)" for str U
  proof (rule goes_for_range [where A = "\<lambda>i. ?A i U"], simp)
    fix i :: nat assume "i < 7"
    then have d: "drop i left_kids = left_kids ! i # drop (Suc i) left_kids" by (simp add: Cons_nth_drop_Suc left_kids_facts)
    show "goes (run_cmds [assign set_q (\<lambda>v. removeChild (procp v ! 0)), check n D (\<lambda>v s. Some (v_q v = NULL)) str]) (?A i U) (?A (Suc i) U)"
      unfolding d by (rule remove_child_loop [OF left_kids_facts(2) [OF \<open>i < 7\<close>]])
  qed
  then have loop: "goes (for_cmds [0..<7] (\<lambda>i. [assign set_q (\<lambda>v. removeChild (procp v ! 0)), check n D (\<lambda>v s. Some (v_q v = NULL)) str]))
      (At (procs P M fr (Some []) [2, 3, 5, 6, 7, 8, 9]) (vars_procs P) U) (At (procs P M fr (Some []) []) (vars_procs P) U)" for str U
    by (simp add: left_kids_def)
  have "goes (for_cmds [0..<10] (\<lambda>i. [on_kern (\<lambda>v. freePcb (procp v ! i))])) (?B 0 U) (?B 10 U)" for U
  proof (rule goes_for_range [where A = "\<lambda>i. ?B i U"], simp, rule goes_Cons [OF goes_on_kern goes_Nil])
    fix i V s
    assume i: "i < 10" and "vars_procs P V" and h: "procs P M (fr @ [0..<i]) (Some []) [] s"
    then show "\<exists>s'. freePcb (procp V ! i) s = Some s' \<and> procs P M (fr @ [0..<Suc i]) (Some []) [] s'"
      using stage_free [OF h, of i] fr by (force simp: subset_iff)
  qed
  then have freed: "goes (for_cmds [0..<10] (\<lambda>i. [on_kern (\<lambda>v. freePcb (procp v ! i))]))
      (At (procs P M fr (Some []) []) (vars_procs P) U) (?B 10 U)" for U
    by (simp only: upt_0 upt_conv_Nil order_refl append_Nil2)
  show ?thesis
    unfolding p1_remove_children_def
    apply (rule goes_Cons [OF goes_ok [OF D stable_holds(1)]], use T in simp)
    apply (rule goes_Cons, rule loop)
    apply (rule goes_Cons [OF goes_check_call [where r = NULL]])
      apply (simp add: stage_removeChild_none)
     apply simp
    apply (rule goes_Cons [OF goes_check], simp add: stage_emptyChild)
    apply (rule goes_Cons [OF goes_ok [OF D stable_holds(1)]], use T in simp)
    apply (rule goes_Cons [OF goes_ok [OF D stable_holds(1)]], use T in simp)
    apply (rule goes_Cons [OF goes_weaken [OF freed] goes_Nil])
    apply simp
    done
qed

section \<open>Messages\<close>

abbreviation (input) mail :: "ptr list \<Rightarrow> ptr list \<Rightarrow> nat list \<Rightarrow> nat list \<Rightarrow> nat list option \<Rightarrow> nat list \<Rightarrow> nat set \<Rightarrow> sys \<Rightarrow> bool" where
  "mail P M fr mf mq zs ls \<equiv> \<lambda>s. holds P M s (stage P M fr (Some []) [] mf mq zs) \<and> loops ((!) (rev M) ` ls) s"

definition vars_msgs :: "ptr list \<Rightarrow> ptr list \<Rightarrow> nat \<Rightarrow> p1vars \<Rightarrow> bool" where
  "vars_msgs P M k V \<longleftrightarrow> vars_procs P V \<and> take k (msg_arr V) = take k (rev M)"

lemma mail_alloc:
  assumes "mail P M fr (i # mf) mq zs ls s" "set (i # mf) \<subseteq> {..<MAXMESSAGES}" "ls \<subseteq> {..<MAXMESSAGES}" "ls \<inter> set (i # mf) = {}"
    "set zs' \<subseteq> set (i # zs)"
  shows "\<exists>s'. allocMsg s = Some (rev M ! i, s') \<and> mail P M fr mf mq zs' (insert i ls) s'"
proof -
  from assms(1) have h: "holds P M s (stage P M fr (Some []) [] (i # mf) mq zs)" "loops ((!) (rev M) ` ls) s" by blast+
  from stage_allocMsg [OF h assms(2-4)] obtain s' where
    s': "allocMsg s = Some (rev M ! i, s')" "holds P M s' (stage P M fr (Some []) [] mf mq (i # zs))" "loops ((!) (rev M) ` insert i ls) s'"
    by blast
  with stage_senders [OF s'(2) assms(5)] show ?thesis by blast
qed

lemma alloc_msg_loop:
  assumes "i < MAXMESSAGES"
  shows "goes (run_cmds [assign (\<lambda>r v. v\<lparr>msg_arr := (msg_arr v)[i := r]\<rparr>) (\<lambda>v. allocMsg), check n D (\<lambda>v s. Some (msg_arr v ! i = NULL)) str])
    (At (mail P M fr [i..<MAXMESSAGES] None [] {..<i}) (vars_msgs P M i) T)
    (At (mail P M fr [Suc i..<MAXMESSAGES] None [] {..<Suc i}) (vars_msgs P M (Suc i)) T)"
proof (rule goes_Cons [OF goes_assign [where r = "rev M ! i" and C' = "vars_msgs P M (Suc i)"] goes_Cons [OF goes_check goes_Nil]])
  fix V s
  show "\<exists>s'. allocMsg s = Some (rev M ! i, s') \<and> mail P M fr [Suc i..<MAXMESSAGES] None [] {..<Suc i} s'"
    if "mail P M fr [i..<MAXMESSAGES] None [] {..<i} s"
  proof -
    have r: "{Suc i..<MAXMESSAGES} \<subseteq> {..<MAXMESSAGES}" "{..<i} \<inter> {Suc i..<MAXMESSAGES} = {}" by auto
    show ?thesis
      using mail_alloc [of P M s fr i "[Suc i..<MAXMESSAGES]" None "[]" "{..<i}" "[]"] that assms r
      by (simp add: upt_conv_Cons lessThan_Suc del: upt_Suc)
  qed
  show "vars_msgs P M (Suc i) (V\<lparr>msg_arr := (msg_arr V)[i := rev M ! i]\<rparr>)"
    if "vars_msgs P M i V" "mail P M fr [i..<MAXMESSAGES] None [] {..<i} s"
  proof -
    have "length M = MAXMESSAGES" using that(2) holds_msg_table by blast
    with that(1) assms show ?thesis by (simp add: vars_msgs_def vars_procs_def take_Suc_conv_app_nth del: vars_q_procp)
  qed
  show "Some (msg_arr V ! i = NULL) = Some False" if "vars_msgs P M (Suc i) V" "mail P M fr [Suc i..<MAXMESSAGES] None [] {..<Suc i} s"
  proof -
    have "msg_arr V ! i = rev M ! i"
      using that(1) nth_take [of i "Suc i" "msg_arr V"] nth_take [of i "Suc i" "rev M"] by (simp add: vars_msgs_def)
    with holds_msg_nth [OF conjunct1 [OF that(2)] assms] show ?thesis by simp
  qed
qed

lemma vars_msgs_all:
  assumes "vars_msgs P M MAXMESSAGES V" "length M = MAXMESSAGES"
  shows "vars_procs P V \<and> msg_arr V = rev M"
proof -
  from assms(1) have v: "vars_procs P V" "take MAXMESSAGES (msg_arr V) = take MAXMESSAGES (rev M)" by (simp_all only: vars_msgs_def)
  moreover have "take MAXMESSAGES (msg_arr V) = msg_arr V" "take MAXMESSAGES (rev M) = rev M"
    using v(1) assms(2) by (simp_all add: vars_procs_def del: vars_q_procp)
  ultimately show ?thesis by simp
qed

lemma part_messages:
  assumes D: "prompt n D" and T: "length T < 1500"
  shows "goes (run_cmds (p1_messages n D)) (At (procs P M fr (Some []) []) (vars_procs P) T)
    (At (mail P M fr [5..<MAXMESSAGES] None [] {}) (vars_procs P)
      (T @ ''Initialized messages   \<newline>'' @ ''allocMsg ok   \<newline>'' @ ''freed 15 entries   \<newline>''))"
proof -
  let ?A = "\<lambda>i. At (mail P M fr [i..<MAXMESSAGES] None [] {..<i}) (vars_msgs P M i)"
  let ?V = "\<lambda>V. vars_procs P V \<and> msg_arr V = rev M" let ?N = "mail P M fr [] None [] {..<MAXMESSAGES}"
  let ?B = "\<lambda>i. At (mail P M fr [5..<i] None [] {i..<MAXMESSAGES}) ?V"
  have "goes (for_cmds [0..<MAXMESSAGES] (\<lambda>i. [assign (\<lambda>r v. v\<lparr>msg_arr := (msg_arr v)[i := r]\<rparr>) (\<lambda>v. allocMsg),
      check n D (\<lambda>v s. Some (msg_arr v ! i = NULL)) str])) (?A 0 U) (?A MAXMESSAGES U)" for str U
    by (rule goes_for_range [where A = "\<lambda>i. ?A i U"]) (simp, rule alloc_msg_loop)
  then have loop: "goes (for_cmds [0..<MAXMESSAGES] (\<lambda>i. [assign (\<lambda>r v. v\<lparr>msg_arr := (msg_arr v)[i := r]\<rparr>) (\<lambda>v. allocMsg),
      check n D (\<lambda>v s. Some (msg_arr v ! i = NULL)) str])) (?A 0 U) (At ?N ?V U)" for str U
  proof (rule goes_weaken)
    fix t assume t: "?A MAXMESSAGES U t"
    then have "length M = MAXMESSAGES" using holds_msg_table unfolding At_def by blast
    with t vars_msgs_all [of P M "vars t"] show "At ?N ?V U t" by (simp add: At_def)
  qed
  have "goes (for_cmds [5..<MAXMESSAGES] (\<lambda>i. [on_kern (\<lambda>v. freeMsg (msg_arr v ! i))])) (?B 5 U) (?B MAXMESSAGES U)" for U
  proof (rule goes_for_range [where A = "\<lambda>i. ?B i U"], simp, rule goes_Cons [OF goes_on_kern goes_Nil])
    fix i V s
    assume i: "5 \<le> i" "i < MAXMESSAGES" and "?V V" and h: "mail P M fr [5..<i] None [] {i..<MAXMESSAGES} s"
    have "{i..<MAXMESSAGES} - {i} = {Suc i..<MAXMESSAGES}" by auto
    then have "\<exists>s'. freeMsg (rev M ! i) s = Some s' \<and> mail P M fr ([5..<i] @ [i]) None [] {Suc i..<MAXMESSAGES} s'"
      using stage_freeMsg [of P M s fr "Some []" "[]" "[5..<i]" None "[]" "{i..<MAXMESSAGES}" i]
        loops_unlinked [of "(!) (rev M) ` {i..<MAXMESSAGES}" s "rev M ! i"] h i by (auto simp: subset_iff)
    with \<open>?V V\<close> i show "\<exists>s'. freeMsg (msg_arr V ! i) s = Some s' \<and> mail P M fr [5..<Suc i] None [] {Suc i..<MAXMESSAGES} s'"
      by simp
  qed
  note B = this
  have freed: "goes (for_cmds [5..<MAXMESSAGES] (\<lambda>i. [on_kern (\<lambda>v. freeMsg (msg_arr v ! i))])) (At ?N ?V U)
      (At (mail P M fr [5..<MAXMESSAGES] None [] {}) (vars_procs P) U)" for U
    by (rule goes_weaken [OF goes_pre [OF B]]) (auto simp: At_def loops_def)
  show ?thesis
    unfolding p1_messages_def
    apply (rule goes_Cons [OF goes_weaken [OF goes_on_kern [where J = "mail P M fr [0..<MAXMESSAGES] None [] {..<0}"], where B' = "?A 0 T"]])
      apply (use stage_initMsgs in force)
     apply (simp add: At_def vars_msgs_def del: upt_Suc)
    apply (rule goes_Cons [OF goes_ok [OF D stable_holds(2)]], use T in simp)
    apply (rule goes_Cons, rule loop)
    apply (rule goes_Cons [OF goes_check_call [where r = NULL]])
      apply (elim conjE, erule stage_allocMsg_none)
     apply simp
    apply (rule goes_Cons [OF goes_ok [OF D stable_holds(2)]], use T in simp)
    apply (rule goes_Cons, rule freed)
    apply (rule goes_Cons [OF goes_weaken [OF goes_ok [OF D stable_holds(2)]] goes_Nil])
     apply (use T in simp_all)
    done
qed

section \<open>Message queues\<close>

definition vars_mq :: "ptr list \<Rightarrow> ptr list \<Rightarrow> nat \<Rightarrow> p1vars \<Rightarrow> bool" where
  "vars_mq P M k V \<longleftrightarrow> vars_procs P V \<and> (0 < k \<longrightarrow> firstmsg V = rev M ! 5)"

lemma mail_insert:
  assumes "mail P M fr mf (Some mq) zs ls s" "i < MAXMESSAGES" "i \<notin> set mf" "set mf \<subseteq> {..<MAXMESSAGES}" "i \<notin> set mq" "set mq \<subseteq> {..<MAXMESSAGES}"
  shows "\<exists>s'. insertMessage qm (rev M ! i) s = Some s' \<and> mail P M fr mf (Some (mq @ [i])) zs {} s'"
    and "\<exists>s'. pushMessage qm (rev M ! i) s = Some s' \<and> mail P M fr mf (Some (i # mq)) zs {} s'"
  using stage_insertMessage [OF conjunct1 [OF assms(1)] assms(2-)] by simp_all

lemma insert_msg_loop:
  assumes i: "i < 10"
  shows "goes (run_cmds [assign set_m (\<lambda>v. allocMsg), check n D (\<lambda>v s. Some (v_m v = NULL)) str,
      set_vars (note_msg i), on_kern (\<lambda>v. insertMessage qm (v_m v))])
    (At (mail P M fr [5 + i..<MAXMESSAGES] (Some [5..<5 + i]) [] {}) (vars_mq P M i) T)
    (At (mail P M fr [5 + Suc i..<MAXMESSAGES] (Some [5..<5 + Suc i]) [] {}) (vars_mq P M (Suc i)) T)"
proof (rule goes_Cons [OF goes_assign [where r = "rev M ! (5 + i)" and J = "mail P M fr [5 + Suc i..<MAXMESSAGES] (Some [5..<5 + i]) [] {5 + i}"
      and C' = "\<lambda>V. vars_mq P M i V \<and> v_m V = rev M ! (5 + i)"]
      goes_Cons [OF goes_check goes_Cons [OF goes_set_vars [where C' = "\<lambda>V. vars_mq P M (Suc i) V \<and> v_m V = rev M ! (5 + i)"]
      goes_Cons [OF goes_weaken [OF goes_on_kern] goes_Nil]]]])
  let ?J = "mail P M fr [5 + Suc i..<MAXMESSAGES] (Some [5..<5 + i]) [] {5 + i}"
  fix V s
  show "\<exists>s'. allocMsg s = Some (rev M ! (5 + i), s') \<and> ?J s'" if "mail P M fr [5 + i..<MAXMESSAGES] (Some [5..<5 + i]) [] {} s"
  proof -
    have u: "[5 + i..<MAXMESSAGES] = (5 + i) # [5 + Suc i..<MAXMESSAGES]" using i by (simp add: upt_conv_Cons del: upt_Suc)
    show ?thesis
      using mail_alloc [OF that [unfolded u], of "[]"] i by (simp add: subset_iff)
  qed
  show "vars_mq P M i (set_m (rev M ! (5 + i)) V) \<and> v_m (set_m (rev M ! (5 + i)) V) = rev M ! (5 + i)" if "vars_mq P M i V"
    using that by (simp add: set_m_def vars_mq_def vars_procs_def del: vars_q_procp)
  show "Some (v_m V = NULL) = Some False" if "vars_mq P M i V \<and> v_m V = rev M ! (5 + i)" "?J s"
    using holds_msg_nth [OF conjunct1 [OF that(2)], of "5 + i"] that(1) i by simp
  show "vars_mq P M (Suc i) (note_msg i V) \<and> v_m (note_msg i V) = rev M ! (5 + i)" if "vars_mq P M i V \<and> v_m V = rev M ! (5 + i)"
    using that i by (auto simp: note_msg_def vars_mq_def vars_procs_def simp del: vars_q_procp)
  show "\<exists>s'. insertMessage qm (v_m V) s = Some s' \<and> mail P M fr [5 + Suc i..<MAXMESSAGES] (Some [5..<5 + Suc i]) [] {} s'"
    if "vars_mq P M (Suc i) V \<and> v_m V = rev M ! (5 + i)" "?J s"
  proof -
    have q: "[5..<5 + Suc i] = [5..<5 + i] @ [5 + i]" by (simp only: add_Suc_right upt_Suc_append le_add1)
    show ?thesis unfolding q using mail_insert(1) [OF that(2), of "5 + i"] that(1) i by (simp add: subset_iff del: upt_Suc)
  qed
qed (simp add: At_def)

lemma part_insert_messages:
  assumes D: "prompt n D" and T: "length T < 1600"
  shows "goes (run_cmds (p1_insert_messages n D)) (At (mail P M fr [5..<MAXMESSAGES] None [] {}) (vars_procs P) T)
    (At (mail P M fr [15..<MAXMESSAGES] (Some [5..<15]) [] {}) (vars_mq P M 10) (T @ ''Inserting...   \<newline>'' @ ''inserted 10 elements   \<newline>''))"
proof -
  let ?T1 = "T @ ''Inserting...   \<newline>''"
  let ?A = "\<lambda>i. At (mail P M fr [5 + i..<MAXMESSAGES] (Some [5..<5 + i]) [] {}) (vars_mq P M i) ?T1"
  have "goes (for_cmds [0..<10] (\<lambda>i. [assign set_m (\<lambda>v. allocMsg), check n D (\<lambda>v s. Some (v_m v = NULL)) str,
      set_vars (note_msg i), on_kern (\<lambda>v. insertMessage qm (v_m v))])) (?A 0) (?A 10)" for str
    by (rule goes_for_range [where A = ?A]) (simp, rule insert_msg_loop)
  then have loop: "goes (for_cmds [0..<10] (\<lambda>i. [assign set_m (\<lambda>v. allocMsg), check n D (\<lambda>v s. Some (v_m v = NULL)) str,
      set_vars (note_msg i), on_kern (\<lambda>v. insertMessage qm (v_m v))]))
      (At (mail P M fr [5..<MAXMESSAGES] (Some []) [] {}) (vars_mq P M 0) ?T1)
      (At (mail P M fr [15..<MAXMESSAGES] (Some [5..<15]) [] {}) (vars_mq P M 10) ?T1)" for str by (simp del: upt_Suc)
  show ?thesis
    unfolding p1_insert_messages_def
    apply (rule goes_Cons [OF goes_weaken [OF goes_on_kern [where J = "mail P M fr [5..<MAXMESSAGES] (Some []) [] {}"],
      where B' = "At (mail P M fr [5..<MAXMESSAGES] (Some []) [] {}) (vars_mq P M 0) T"]])
      apply (simp add: stage_mkEmptyMessageQ del: One_nat_def)
     apply (simp add: At_def vars_mq_def)
    apply (rule goes_Cons [OF goes_check], simp add: stage_emptyMessageQ del: One_nat_def)
    apply (rule goes_Cons [OF goes_ok [OF D stable_holds(2)]], use T in simp)
    apply (rule goes_Cons, rule loop)
    apply (rule goes_Cons [OF goes_ok [OF D stable_holds(2)]], use T in simp)
    apply (rule goes_Cons [OF goes_weaken [OF goes_check] goes_Nil], elim conjE, drule stage_emptyMessageQ, simp del: One_nat_def, simp)
    done
qed

definition vars_n :: "ptr list \<Rightarrow> ptr list \<Rightarrow> nat \<Rightarrow> p1vars \<Rightarrow> bool" where
  "vars_n P M k V \<longleftrightarrow> vars_mq P M 10 V \<and> v_n V = rev M ! k"

lemma vars_n_facts:
  "vars_mq P M 10 V \<Longrightarrow> vars_n P M k (set_n (rev M ! k) V)" "vars_n P M j V \<Longrightarrow> vars_n P M k (set_n (rev M ! k) V)"
  "vars_n P M k V \<Longrightarrow> v_n V = rev M ! k" "vars_n P M k V \<Longrightarrow> firstmsg V = rev M ! 5" "vars_mq P M 10 V \<Longrightarrow> firstmsg V = rev M ! 5"
  "vars_n P M k V \<Longrightarrow> vars_procs P V"
  by (simp_all add: vars_n_def vars_mq_def vars_procs_def set_n_def del: vars_q_procp)

lemma mail_free:
  assumes "mail P M fr mf (Some mq) zs {} s \<and> unlinked (M_LIST (rev M ! i)) (lh_mem s)"
    "i < MAXMESSAGES" "i \<notin> set mf" "set mf \<subseteq> {..<MAXMESSAGES}" "i \<notin> set mq" "set mq \<subseteq> {..<MAXMESSAGES}"
  shows "\<exists>s'. freeMsg (rev M ! i) s = Some s' \<and> mail P M fr (mf @ [i]) (Some mq) zs {} s'"
  using stage_freeMsg [of P M s fr "Some []" "[]" mf "Some mq" zs "{}" i] assms by simp

lemma mail_pop:
  assumes "mail P M fr mf (Some (i # mq)) zs {} s"
  shows "\<exists>s'. popMessage qm NULL s = Some (rev M ! i, s') \<and> (mail P M fr mf (Some mq) zs {} s' \<and> unlinked (M_LIST (rev M ! i)) (lh_mem s'))"
  using stage_popMessage [OF conjunct1 [OF assms]] by auto

lemma mail_new:
  assumes "mail P M fr (i # mf) mq zs {} s" "set (i # mf) \<subseteq> {..<MAXMESSAGES}" "set zs' \<subseteq> set (i # zs)"
  shows "\<exists>s'. allocMsg s = Some (rev M ! i, s') \<and> mail P M fr mf mq zs' {} s'"
  using mail_alloc [OF assms(1,2) _ _ assms(3)] by auto

lemma part_pop:
  assumes D: "prompt n D" and T: "length T < 1700"
  shows "goes (run_cmds (p1_pop n D)) (At (mail P M fr [15..<MAXMESSAGES] (Some [5..<15]) [] {}) (vars_mq P M 10) T)
    (At (mail P M fr ([17..<MAXMESSAGES] @ [5]) (Some (15 # [6..<15] @ [16])) [15] {}) (vars_procs P)
      (T @ ''headMessage ok   \<newline>'' @ ''popMessage with NULL pcb ok   \<newline>'' @ ''pushMessage ok   \<newline>'' @ ''insertMessage ok   \<newline>''))"
proof -
  have q: "[5..<15] = 5 # [6..<15]" and f: "[15..<MAXMESSAGES] @ [5] = 15 # [16..<MAXMESSAGES] @ [5]"
    "[16..<MAXMESSAGES] @ [5] = 16 # [17..<MAXMESSAGES] @ [5]" "15 # [6..<15] @ [16] = (15 # [6..<15]) @ [16]"
    by (simp_all add: upt_conv_Cons)
  show ?thesis
    unfolding p1_pop_def
    apply (rule goes_Cons [OF goes_check])
     apply (elim conjE, drule stage_headMessage [where i = 5 and mq = "[6..<15]", folded q], simp add: vars_n_facts del: One_nat_def)
    apply (rule goes_Cons [OF goes_ok [OF D stable_holds(2)]], use T in simp)
    apply (rule goes_Cons [OF goes_assign [where C' = "vars_n P M 5"]])
      apply (erule mail_pop [where i = 5 and mq = "[6..<15]", folded q])
     apply (erule vars_n_facts(1))
    apply (rule goes_Cons [OF goes_check])
     apply (elim conjE, drule holds_msg_nth [where i = 5], simp, simp add: vars_n_facts)
    apply (rule goes_Cons [OF goes_on_kern])
     apply (simp only: vars_n_facts(3), erule mail_free; simp add: subset_iff)
    apply (rule goes_Cons [OF goes_ok [OF D stable_holds(2)]], use T in simp)
    apply (rule goes_Cons [OF goes_assign [where C' = "vars_n P M 15"]])
      apply (subst (asm) f(1), erule mail_new [where zs' = "[15]"]; simp add: subset_iff)
     apply (erule vars_n_facts(2))
    apply (rule goes_Cons [OF goes_on_kern])
     apply (simp only: vars_n_facts(3), erule mail_insert(2); simp add: subset_iff)
    apply (rule goes_Cons [OF goes_check])
     apply (elim conjE, drule stage_headMessage, simp add: vars_n_facts del: One_nat_def)
    apply (rule goes_Cons [OF goes_ok [OF D stable_holds(2)]], use T in simp)
    apply (rule goes_Cons [OF goes_assign [where C' = "vars_n P M 16"]])
      apply (subst (asm) f(2), erule mail_new [where zs' = "[15]"]; simp add: subset_iff)
     apply (erule vars_n_facts(2))
    apply (rule goes_Cons [OF goes_on_kern])
     apply (simp only: vars_n_facts(3), erule mail_insert(1); simp add: subset_iff)
    apply (rule goes_Cons [OF goes_check])
     apply (elim conjE, drule stage_lastMessage, simp add: vars_n_facts del: One_nat_def)
    apply (rule goes_Cons [OF goes_weaken [OF goes_ok [OF D stable_holds(2)]] goes_Nil], use T in simp)
    apply (auto simp: At_def intro: vars_n_facts(6))
    done
qed

lemma mail_pcb:
  assumes "mail P M (i # fr) mf mq zs {} s" "0 < i" "i < MAXPROC"
  shows "\<exists>s'. allocPcb s = Some (P ! i, s') \<and> mail P M fr mf mq zs {} s'"
  using stage_alloc [OF conjunct1 [OF assms(1)] assms(2,3)] by simp

lemma mail_sender:
  assumes "mail P M fr mf mq zs {} s" "i < MAXMESSAGES" "i \<notin> set zs" "set zs \<subseteq> {..<MAXMESSAGES}"
  shows "\<exists>s'. upd_msg (rev M ! i) (\<lambda>x. x\<lparr>m_sender := p\<rparr>) s = Some s' \<and> mail P M fr mf mq zs {} s'"
  using stage_sender [OF conjunct1 [OF assms(1)] assms(2-)] by simp

text \<open>The search by sender stops at the first message, whose sender is null.\<close>

lemma part_pop_sender:
  fixes n D
  shows "halts (run_cmds (p1_pop_sender n D))
    (At (mail P M (20 # fr) ([17..<MAXMESSAGES] @ [5]) (Some (15 # [6..<15] @ [16])) [15] {}) (vars_procs P) T)
    (\<lambda>t. okbuf t = T)"
proof -
  let ?q = "15 # [6..<15] @ [16]"
  let ?p = "\<lambda>V. v_p V = P ! 20" and ?m = "\<lambda>V. v_p V = P ! 20 \<and> v_m V = rev M ! 17"
    and ?n = "\<lambda>V. v_p V = P ! 20 \<and> v_m V = rev M ! 17 \<and> v_n V = rev M ! 18"
  have f: "[17..<MAXMESSAGES] @ [5] = 17 # [18..<MAXMESSAGES] @ [5]" "[18..<MAXMESSAGES] @ [5] = 18 # [19..<MAXMESSAGES] @ [5]"
    by (simp_all add: upt_conv_Cons)
  have stop: "halts (assign g (\<lambda>v. popMessage qm (v_p v))) (At (mail P M fr mf (Some (15 # mq)) [15] {}) ?n T) (\<lambda>t. okbuf t = T)" for g mf mq
  proof -
    have "popMessage qm (v_p V) s = None" if "?n V" "mail P M fr mf (Some (15 # mq)) [15] {} s" for V s
      using stage_popMessage_undefined [OF conjunct1 [OF that(2)]] holds_nth [OF conjunct1 [OF that(2)], of 20] that(1) by simp
    then have "halts (assign g (\<lambda>v. popMessage qm (v_p v))) (At (mail P M fr mf (Some (15 # mq)) [15] {}) ?n T)
        (At (mail P M fr mf (Some (15 # mq)) [15] {}) ?n T)" by (rule halts_assign)
    then show ?thesis by (fastforce simp: halts_def At_def)
  qed
  show ?thesis
    unfolding p1_pop_sender_def
    apply (rule halts_Cons [OF goes_assign [where C' = ?p]])
      apply (erule mail_pcb; simp)
     apply simp
    apply (rule halts_Cons [OF goes_assign [where C' = ?m]])
      apply (subst (asm) f(1), erule mail_new [where zs' = "[15]"]; simp add: subset_iff)
     apply (simp add: set_m_def)
    apply (rule halts_Cons [OF goes_on_kern])
     apply (simp only:, erule mail_sender; simp)
    apply (rule halts_Cons [OF goes_on_kern])
     apply (simp only:, erule mail_insert(1); simp add: subset_iff)
    apply (rule halts_Cons [OF goes_assign [where C' = ?n]])
      apply (subst (asm) f(2), erule mail_new [where zs' = "[15]"]; simp add: subset_iff)
     apply (simp add: set_n_def)
    apply (rule halts_Cons [OF goes_on_kern])
     apply (simp only:, erule mail_sender; simp)
    apply (rule halts_Cons [OF goes_on_kern])
     apply (simp only:, erule mail_insert(1); simp add: subset_iff)
    apply (rule halts_now)
    apply (simp only: append_Cons, rule stop)
    done
qed

end
