(* ===== verification/P1test_Props.thy ===== *)
theory P1test_Props
  imports P1test_Parts Demo
begin

text \<open>The theorems on the test of phase 1, with the run of one image as a witness.\<close>

section \<open>The progress of the test\<close>

definition progress :: "string list" where
  "progress = [
     ''Initialized process control blocks\<newline>'', ''allocPcb ok\<newline>'', ''freed 10 entries\<newline>'',
     ''Inserting...   \<newline>'', ''inserted 10 elements\<newline>'', ''outProcQ ok   \<newline>'',
     ''Removing...   \<newline>'', ''insertProcQ, removeProcQ and emptyProcQ ok   \<newline>'', ''process queues module ok      \<newline>'',
     ''checking process trees...\<newline>'', ''Inserting...   \<newline>'', ''Inserted 9 children   \<newline>'', ''outChild ok   \<newline>'',
     ''Removing...   \<newline>'', ''insertChild, removeChild and emptyChild ok   \<newline>'', ''process tree module ok      \<newline>'',
     ''Initialized messages   \<newline>'', ''allocMsg ok   \<newline>'', ''freed 15 entries   \<newline>'',
     ''Inserting...   \<newline>'', ''inserted 10 elements   \<newline>'',
     ''headMessage ok   \<newline>'', ''popMessage with NULL pcb ok   \<newline>'', ''pushMessage ok   \<newline>'', ''insertMessage ok   \<newline>'']"

text \<open>The state in which \<^verbatim>\<open>main\<close> starts: the image as it is loaded, empty buffers.\<close>

definition p1_start :: "p1state \<Rightarrow> bool" where
  "p1_start t \<longleftrightarrow> static_image (kern t) \<and> length (procp (vars t)) = MAXPROC \<and> length (msg_arr (vars t)) = MAXMESSAGES \<and> okbuf t = []"

lemma test_runs:
  assumes D: "prompt n D"
  shows "halts (main_p1test n D)
    (At (\<lambda>s. static_image s \<and> pcbTable s = P \<and> msgTable s = M) (\<lambda>V. length (procp V) = MAXPROC \<and> length (msg_arr V) = MAXMESSAGES) [])
    (\<lambda>t. okbuf t = concat progress)"
proof -
  let ?fr = "[20..<MAXPROC] @ [10, 15] @ left_queue"
  have fr: "set ?fr \<subseteq> {10..<MAXPROC}" using left_queue_facts(3) by auto
  have "?fr @ [0..<10] = 20 # [21..<MAXPROC] @ [10, 15] @ left_queue @ [0..<10]" by (simp add: upt_conv_Cons)
  note stop = part_pop_sender [where P = P and M = M and fr = "[21..<MAXPROC] @ [10, 15] @ left_queue @ [0..<10]", folded this]
  show ?thesis
    unfolding main_p1test_def
    apply (rule halts_Cons [OF part_alloc [OF D]], simp)
    apply (rule halts_Cons [OF part_insert [OF D]], simp)
    apply (rule halts_Cons [OF part_out [OF D]], simp)
    apply (rule halts_Cons [OF part_remove [OF D]], simp)
    apply (rule halts_Cons [OF part_children [OF D]], simp)
    apply (rule halts_Cons [OF part_remove_children [OF D _ fr]], simp)
    apply (rule halts_Cons [OF part_messages [OF D]], simp)
    apply (rule halts_Cons [OF part_insert_messages [OF D]], simp)
    apply (rule halts_Cons [OF part_pop [OF D]], simp)
    apply (rule halts_now)
    apply (rule halts_weaken [OF stop])
    apply (simp add: progress_def)
    done
qed

section \<open>The theorem\<close>

text \<open>C20.  The test of phase 1, started on the image as it is loaded and with a terminal that answers within any fixed
  number of reads, passes every check of the process control blocks, queues and trees and of the messages up to
  the first search by sender, with the progress messages in the buffer, and no earlier access is undefined.
  That search does not return: the message at the head of the queue has no sender, and \<^verbatim>\<open>popMessage\<close> reads
  the pid of its sender.\<close>

theorem p1test_stops_at_search:
  assumes "p1_start t" "prompt n D"
  shows "\<exists>t'. main_p1test n D t = Inl (Undefined, t') \<and> okbuf t' = concat progress"
  using test_runs [OF assms(2), of "pcbTable (kern t)" "msgTable (kern t)"] assms(1) by (simp add: halts_def At_def p1_start_def)

definition demo_p1 :: p1state where
  "demo_p1 = \<lparr>kern = demo_image, vars = \<lparr>procp = replicate MAXPROC NULL, v_p = NULL, v_q = NULL, firstproc = NULL, lastproc = NULL,
     midproc = NULL, msg_arr = replicate MAXMESSAGES NULL, v_m = NULL, v_n = NULL, firstmsg = NULL, lastmsg = NULL, midmsg = NULL, v_o = NULL\<rparr>,
     okbuf = [], errbuf = [], dev_reads = 0\<rparr>"

text \<open>A terminal that is busy at every other read.\<close>

definition demo_terminal :: "nat \<Rightarrow> u32" where
  "demo_terminal k = (if even k then TRANSMITTED else BUSY)"

lemma p1test_stops_at_search_witness:
  "\<exists>t'. main_p1test 1 demo_terminal demo_p1 = Inl (Undefined, t') \<and> okbuf t' = concat progress"
proof (rule p1test_stops_at_search)
  show "p1_start demo_p1" using demo_image_static by (simp add: p1_start_def demo_p1_def)
  have "\<exists>j\<le>1. demo_terminal (k + j) AND STATUSMASK \<noteq> BUSY" for k :: nat
    by (rule exI [of _ "if even k then 0 else 1"]) (simp add: demo_terminal_def)
  then show "prompt 1 demo_terminal" by (simp add: prompt_def)
qed

end
