(* ===== verification/Testers.thy ===== *)
theory Testers
  imports Service_Props
begin

text \<open>
  The user programs of \<^verbatim>\<open>src/testers\<close> and how they run: a user process makes its system calls in
  user mode, the nucleus passes each one up, and the general exception handler of the support level, which
  runs as the same process, makes the call and loads the state after it.
\<close>

section \<open>System calls of a user process\<close>

text \<open>The trap of a user call into the nucleus.  \<^verbatim>\<open>LDCXT\<close> starts the handler of the support
  level; any other end of the nucleus gives the processor away.\<close>

definition trap_up :: "state_t \<Rightarrow> unit prog" where
  "trap_up st = Act (\<lambda>w. case syscall st (nuc w) of
     None \<Rightarrow> None
   | Some (c, s) \<Rightarrow> Some (case c of LDCXT sp stat pc \<Rightarrow> Ret () | _ \<Rightarrow> Jump c, w\<lparr>nuc := s\<rparr>))"

text \<open>A handler, and what goes on from the state it loads.\<close>

primrec loading :: "unit prog \<Rightarrow> (state_t \<Rightarrow> 'a prog) \<Rightarrow> 'a prog" where
  "loading (Ret a) k = Jump RETURN"
| "loading (Act f) k = Act (\<lambda>w. map_option (map_prod (\<lambda>p. loading p k) (\<lambda>w. w)) (f w))"
| "loading (Syscall a b c f) k = Syscall a b c (\<lambda>v. loading (f v) k)"
| "loading (Jump c) k = (case c of LDST st \<Rightarrow> k st | _ \<Rightarrow> Jump c)"

text \<open>A user program from the processor state \<open>st\<close>: between its calls the state is the one the handler
  loaded; a call returns what is in \<^verbatim>\<open>v0\<close> there.\<close>

primrec in_user_mode :: "machine \<Rightarrow> locals \<Rightarrow> 'a prog \<Rightarrow> state_t \<Rightarrow> ('a \<times> state_t) prog" where
  "in_user_mode hw lv (Ret a) st = Ret (a, st)"
| "in_user_mode hw lv (Act f) st = Act (\<lambda>w. map_option (map_prod (\<lambda>p. in_user_mode hw lv p st) (\<lambda>w. w)) (f w))"
| "in_user_mode hw lv (Syscall a b c f) st = seq (trap_up (calling st a b c)) (\<lambda>_.
     loading (supExceptionHandler hw lv) (\<lambda>st'. in_user_mode hw lv (f (gpr st' reg_v0)) st'))"
| "in_user_mode hw lv (Jump c) st = Jump c"

section \<open>print\<close>

text \<open>The local variables of the programs, whose addresses are passed in messages; \<open>ul\<close> has the
  address of each, and \<open>lit\<close> that of each string literal.\<close>

datatype user_var = V_print_payload_u | V_sst_payload_u | V_terminate_payload | V_tod_payload | V_time1 | V_time2

type_synonym user_locals = "user_var \<Rightarrow> ptr"
type_synonym literals = "string \<Rightarrow> ptr"

text \<open>\<^verbatim>\<open>for (len = 0; str[len] != '\0'; len++)\<close>, at most \<open>n\<close> rounds; with more characters than
  fuel the result is a fault.\<close>

primrec length_loop :: "nat \<Rightarrow> ptr \<Rightarrow> u32 \<Rightarrow> u32 prog" where
  "length_loop 0 str len = reads (\<lambda>w. if bytes w (str + len) = EOS then Some len else None)"
| "length_loop (Suc n) str len = seq (reads (\<lambda>w. Some (bytes w (str + len)))) (\<lambda>c.
     if c \<noteq> EOS then length_loop n str (len + 1) else Ret len)"

definition put_print :: "ptr \<Rightarrow> u32 \<Rightarrow> ptr \<Rightarrow> unit prog" where
  "put_print p len str = writes (\<lambda>w. Some (w\<lparr>sst_prints := (sst_prints w)(p \<mapsto> \<lparr>length_of = len, string_of = str\<rparr>)\<rparr>))"

definition print_testers :: "nat \<Rightarrow> user_locals \<Rightarrow> u32 \<Rightarrow> ptr \<Rightarrow> unit prog" where
  "print_testers n ul code str =
     seq (length_loop n str 0) (\<lambda>len.
     seq (put_print (ul V_print_payload_u) len str) (\<lambda>_.
     seq (put_payload (ul V_sst_payload_u) code (ul V_print_payload_u)) (\<lambda>_.
     seq (SYSCALL SENDMSG PARENT (ul V_sst_payload_u)) (\<lambda>_.
     seq (SYSCALL RECEIVEMSG 0 0) (\<lambda>_.
     Ret ())))))"

section \<open>The programs\<close>

text \<open>A literal that ends in a new line, and the end every program has.\<close>

definition say :: "nat \<Rightarrow> user_locals \<Rightarrow> literals \<Rightarrow> u32 \<Rightarrow> string \<Rightarrow> unit prog" where
  "say n ul lit code s = print_testers n ul code (lit (s @ [CHR 0x0A]))"

definition terminate_normally :: "user_locals \<Rightarrow> unit prog" where
  "terminate_normally ul =
     seq (put_payload (ul V_terminate_payload) TERMINATE 0) (\<lambda>_.
     seq (SYSCALL SENDMSG PARENT (ul V_terminate_payload)) (\<lambda>_.
     seq (SYSCALL RECEIVEMSG 0 0) (\<lambda>_.
     Ret ())))"

definition main_terminalTest1 :: "nat \<Rightarrow> user_locals \<Rightarrow> literals \<Rightarrow> unit prog" where
  "main_terminalTest1 n ul lit =
     seq (say n ul lit WRITETERMINAL ''printTest is ok'') (\<lambda>_.
     seq (say n ul lit WRITETERMINAL ''Test Number 1 is ok'') (\<lambda>_.
     terminate_normally ul))"

definition main_terminalTest2 :: "nat \<Rightarrow> user_locals \<Rightarrow> literals \<Rightarrow> unit prog" where
  "main_terminalTest2 n ul lit =
     seq (say n ul lit WRITETERMINAL ''printTest is ok'') (\<lambda>_.
     seq (say n ul lit WRITETERMINAL ''Test number 2 is ok'') (\<lambda>_.
     terminate_normally ul))"

definition main_terminalTest3 :: "nat \<Rightarrow> user_locals \<Rightarrow> literals \<Rightarrow> unit prog" where
  "main_terminalTest3 n ul lit =
     seq (say n ul lit WRITETERMINAL ''printTest is ok'') (\<lambda>_.
     seq (say n ul lit WRITETERMINAL ''Test number 3 is ok'') (\<lambda>_.
     terminate_normally ul))"

definition main_terminalTest4 :: "nat \<Rightarrow> user_locals \<Rightarrow> literals \<Rightarrow> unit prog" where
  "main_terminalTest4 n ul lit =
     seq (say n ul lit WRITETERMINAL ''printTest is ok'') (\<lambda>_.
     seq (say n ul lit WRITETERMINAL ''Test number 4 is ok'') (\<lambda>_.
     terminate_normally ul))"

definition main_printerTest :: "nat \<Rightarrow> user_locals \<Rightarrow> literals \<Rightarrow> unit prog" where
  "main_printerTest n ul lit =
     seq (say n ul lit WRITETERMINAL ''printTest is ok'') (\<lambda>_.
     seq (say n ul lit WRITEPRINTER ''printTest is ok'') (\<lambda>_.
     terminate_normally ul))"

text \<open>The clock: a request that is sent twice, with the replies in two variables.\<close>

definition ask_time :: "user_locals \<Rightarrow> user_var \<Rightarrow> unit prog" where
  "ask_time ul v =
     seq (SYSCALL SENDMSG PARENT (ul V_tod_payload)) (\<lambda>_.
     seq (SYSCALL RECEIVEMSG PARENT (ul v)) (\<lambda>_.
     Ret ()))"

definition tod_verdict :: "u32 \<Rightarrow> u32 \<Rightarrow> string" where
  "tod_verdict time1 time2 = (if time2 > time1 then ''TOD Test Concluded Successfully'' else ''ERROR: TOD not correct'')"

definition main_todTest :: "nat \<Rightarrow> user_locals \<Rightarrow> literals \<Rightarrow> unit prog" where
  "main_todTest n ul lit =
     seq (say n ul lit WRITETERMINAL ''TOD Test starts'') (\<lambda>_.
     seq (say n ul lit WRITETERMINAL ''TOD Test concluded'') (\<lambda>_.
     seq (put_payload (ul V_tod_payload) GET_TOD 0) (\<lambda>_.
     seq (ask_time ul V_time1) (\<lambda>_.
     seq (ask_time ul V_time2) (\<lambda>_.
     seq (reads (\<lambda>w. Some (mem (nuc w) (ul V_time1)))) (\<lambda>time1.
     seq (reads (\<lambda>w. Some (mem (nuc w) (ul V_time2)))) (\<lambda>time2.
     seq (say n ul lit WRITETERMINAL (tod_verdict time1 time2)) (\<lambda>_.
     terminate_normally ul))))))))"

text \<open>\<^verbatim>\<open>int\<close> arithmetic: what leaves the range is undefined.\<close>

definition c_int :: "int \<Rightarrow> int option" where
  "c_int i = (if - (2 ^ 31) \<le> i \<and> i < 2 ^ 31 then Some i else None)"

partial_function (option) fib :: "int \<Rightarrow> int option" where
  "fib i = (if i = 1 \<or> i = 2 then Some 1
     else do { j \<leftarrow> c_int (i - 1); a \<leftarrow> fib j; k \<leftarrow> c_int (i - 2); b \<leftarrow> fib k; c_int (a + b) })"

definition fib_verdict :: "int \<Rightarrow> int \<Rightarrow> string" where
  "fib_verdict i expected = (if i = expected then ''Recursion Concluded Successfully'' else ''ERROR: Recursion problems'')"

definition main_fibEight :: "nat \<Rightarrow> user_locals \<Rightarrow> literals \<Rightarrow> unit prog" where
  "main_fibEight n ul lit =
     seq (say n ul lit WRITETERMINAL ''Recursive Fibonacci (8) Test starts'') (\<lambda>_.
     seq (reads (\<lambda>w. fib 8)) (\<lambda>i.
     seq (say n ul lit WRITETERMINAL ''Recursion Concluded'') (\<lambda>_.
     seq (say n ul lit WRITETERMINAL (fib_verdict i 21)) (\<lambda>_.
     terminate_normally ul))))"

definition main_fibEleven :: "nat \<Rightarrow> user_locals \<Rightarrow> literals \<Rightarrow> unit prog" where
  "main_fibEleven n ul lit =
     seq (say n ul lit WRITETERMINAL ''Recursive Fibonacci (11) Test starts'') (\<lambda>_.
     seq (reads (\<lambda>w. fib 11)) (\<lambda>i.
     seq (say n ul lit WRITETERMINAL ''Recursion Concluded'') (\<lambda>_.
     seq (say n ul lit WRITETERMINAL (fib_verdict i 89)) (\<lambda>_.
     terminate_normally ul))))"

end
