(* ===== verification/Testers_Correct.thy ===== *)
theory Testers_Correct
  imports Testers Mutex_Runs
begin

text \<open>
  What a user process asks its parent, the service thread: each call of the program becomes a call of the
  exception handler, and the requests of a program are those of its parts, one after the other.
\<close>

section \<open>Running the parts\<close>

lemma loading_seq: "seq (loading p k) q = loading p (\<lambda>st. seq (k st) q)"
proof (induction p)
  case (Act f)
  have "seq (loading r k) q = loading r (\<lambda>st. seq (k st) q)" if "f w = Some (r, w')" for r w w'
    by (rule Act.IH [OF rangeI [of f w], of "(r, w')"]) (auto simp: that intro: fsts.intros)
  then show ?case by (auto simp: fun_eq_iff option.map_comp comp_def intro!: option.map_cong)
qed (auto split: control.split)

lemma in_user_mode_seq:
  "in_user_mode hw lv (seq p k) st = seq (in_user_mode hw lv p st) (\<lambda>(a, st'). in_user_mode hw lv (k a) st')"
proof (induction p arbitrary: st)
  case (Act f)
  have "in_user_mode hw lv (seq r k) st = seq (in_user_mode hw lv r st) (\<lambda>(a, st'). in_user_mode hw lv (k a) st')"
    if "f w = Some (r, w')" for r w w'
    by (rule Act.IH [OF rangeI [of f w], of "(r, w')"]) (auto simp: that intro: fsts.intros)
  then show ?case by (auto simp: fun_eq_iff option.map_comp comp_def intro!: option.map_cong)
qed (auto simp: seq_assoc loading_seq comp_def)

lemma run_loading: "run (loading p k) E w = (case run p E w of
    (Done a, w') \<Rightarrow> (Left RETURN, w') | (Left c, w') \<Rightarrow> (case c of LDST st \<Rightarrow> run (k st) E w' | _ \<Rightarrow> (Left c, w'))
  | (Fault, w') \<Rightarrow> (Fault, w') | (Never, w') \<Rightarrow> (Never, w'))"
proof (induction p arbitrary: w)
  case (Act f)
  show ?case
  proof (cases "f w")
    case (Some r)
    obtain p w' where r: "r = (p, w')" by fastforce
    show ?thesis 
      using Act.IH [OF rangeI [of f w], of "(p, w')"] by (auto simp: Some r intro: fsts.intros)
  qed simp
qed (auto split: option.split control.split)

lemma calls_loading: "calls (loading p k) E w = calls p E w @ (case run p E w of
    (Left c, w') \<Rightarrow> (case c of LDST st \<Rightarrow> calls (k st) E w' | _ \<Rightarrow> []) | _ \<Rightarrow> [])"
proof (induction p arbitrary: w)
  case (Act f)
  show ?case
  proof (cases "f w")
    case (Some r)
    obtain p w' where r: "r = (p, w')" by fastforce
    show ?thesis 
      using Act.IH [OF rangeI [of f w], of "(p, w')"] by (auto simp: Some r intro: fsts.intros)
  qed simp
qed (auto split: option.split control.split)

text \<open>Reads and writes of a program do not depend on its processor state.\<close>

lemma user_simps [simp]:
  "in_user_mode hw lv (reads f) st = reads (\<lambda>w. map_option (\<lambda>a. (a, st)) (f w))"
  "in_user_mode hw lv (writes g) st = seq (writes g) (\<lambda>_. Ret ((), st))"
  by (auto simp: reads_def writes_def fun_eq_iff option.map_comp comp_def)

section \<open>One call\<close>

text \<open>A user process, its support structure, its service thread, and the printer and terminal processes; the
  index is one less than the number of the address space.\<close>

record family =
  proc_of :: ptr
  sup_of :: ptr
  parent_of :: ptr
  ssi_of :: ptr
  asid_index :: nat
  printers_of :: "ptr list"
  terminals_of :: "ptr list"

text \<open>The process runs in its family.\<close>

definition user_at :: "family \<Rightarrow> world \<Rightarrow> bool" where
  "user_at F w \<longleftrightarrow> current_process (nuc w) = proc_of F \<and> ssi_pcb (nuc w) = ssi_of F \<and> ssi_of F \<noteq> parent_of F \<and> sup_of F \<noteq> NULL \<and>
     (\<exists>x. pcbs (nuc w) (proc_of F) = Some x \<and> p_parent x = parent_of F \<and> p_supportStruct x = sup_of F) \<and>
     (\<exists>u. supports (nuc w) (sup_of F) = Some u \<and> sup_asid u = of_nat (asid_index F + 1)) \<and>
     printerPcbs w = printers_of F \<and> terminalPcbs w = terminals_of F \<and>
     testPcb w \<notin> set (printers_of F) \<union> set (terminals_of F)"

text \<open>A processor state of a user process at a system call: the cause is a system call, and the mode bit the
  nucleus looks at is clear.\<close>

definition at_user_call :: "state_t \<Rightarrow> bool" where
  "at_user_call st \<longleftrightarrow> drop_bit CAUSESHIFT (cause st AND GETEXECCODE) = SYSEXCEPTION \<and> drop_bit 31 (push_bit 30 (status st)) = 0"

definition exccode_documented :: "machine \<Rightarrow> bool" where
  "exccode_documented hw \<longleftrightarrow> (\<forall>c. get_exccode hw c = drop_bit CAUSESHIFT (c AND GETEXECCODE))"

text \<open>What the variables of the program at the addresses \<open>A\<close> hold, and the strings.\<close>

definition same_vars :: "ptr set \<Rightarrow> world \<Rightarrow> world \<Rightarrow> bool" where
  "same_vars A w w' \<longleftrightarrow> bytes w' = bytes w \<and> (\<forall>a \<in> A. ssi_payloads (nuc w') a = ssi_payloads (nuc w) a \<and> sst_prints w' a = sst_prints w a)"

definition same_mem :: "ptr set \<Rightarrow> world \<Rightarrow> world \<Rightarrow> bool" where
  "same_mem A w w' \<longleftrightarrow> (\<forall>a \<in> A. mem (nuc w') a = mem (nuc w) a)"

text \<open>An environment that answers the calls of a user process: the replies come, the SSI tells the process its
  support structure, and a message is stored where the call says and nowhere else in \<open>A\<close>.\<close>

definition serves_user :: "env \<Rightarrow> locals \<Rightarrow> ptr set \<Rightarrow> family \<Rightarrow> bool" where
  "serves_user E lv A F \<longleftrightarrow> (\<forall>a b c w. user_at F w \<longrightarrow> (\<exists>v w'. E (a, b, c) w = Some (v, w') \<and>
     user_at F w' \<and> supports (nuc w') (sup_of F) = supports (nuc w) (sup_of F) \<and> same_vars A w w' \<and> same_mem (A - {c}) w w' \<and>
     ((a, b, c) = (RECEIVEMESSAGE, (ssi_of F), lv V_getsup_sup) \<longrightarrow> mem (nuc w') c = (sup_of F))))"

lemma serves_userE:
  assumes "serves_user E lv A F" "user_at F w"
  obtains v w' where "E (a, b, c) w = Some (v, w')" "user_at F w'" "supports (nuc w') (sup_of F) = supports (nuc w) (sup_of F)"
    "same_vars A w w'" "same_mem (A - {c}) w w'" "(a, b, c) = (RECEIVEMESSAGE, (ssi_of F), lv V_getsup_sup) \<Longrightarrow> mem (nuc w') c = (sup_of F)"
  using assms(1) [unfolded serves_user_def, rule_format, OF assms(2), of a b c] by (elim exE conjE) (rule that; simp)

lemma same_trans:
  "same_vars A w w' \<Longrightarrow> same_vars A w' w'' \<Longrightarrow> same_vars A w w''"
  "same_mem A w w' \<Longrightarrow> same_mem A w' w'' \<Longrightarrow> same_mem A w w''"
  by (simp_all add: same_vars_def same_mem_def)

lemma same_refl [simp]: "same_vars A w w" "same_mem A w w"
  by (simp_all add: same_vars_def same_mem_def)

text \<open>What a process asks its parent in a call: the service, and the text of a request to write.\<close>

definition text_of :: "world \<Rightarrow> ptr \<Rightarrow> string" where
  "text_of w a = (case sst_prints w a of None \<Rightarrow> []
     | Some q \<Rightarrow> map (\<lambda>i. bytes w (string_of q + of_nat i)) [0..<unat (length_of q)])"

definition asked :: "ptr \<Rightarrow> call \<Rightarrow> (u32 \<times> string) option" where
  "asked q cl = (case cl of ((a, b, pl), w) \<Rightarrow>
     if a = SENDMESSAGE \<and> b = q then map_option (\<lambda>r. (service_code r,
       if service_code r = WRITEPRINTER \<or> service_code r = WRITETERMINAL then text_of w (arg r) else [])) (ssi_payloads (nuc w) pl)
     else None)"

definition to_parent :: "ptr \<Rightarrow> call \<Rightarrow> bool" where
  "to_parent q cl \<longleftrightarrow> (case cl of ((a, b, c), w) \<Rightarrow> a = SENDMESSAGE \<and> b = q)"

definition parent_calls :: "ptr \<Rightarrow> call list \<Rightarrow> call list" where
  "parent_calls q cs = filter (to_parent q) cs"

definition requests :: "ptr \<Rightarrow> call list \<Rightarrow> (u32 \<times> string) list" where
  "requests q cs = List.map_filter (asked q) (parent_calls q cs)"

lemma parent_calls_simps [simp]:
  "parent_calls q [] = []" "parent_calls q (cs @ ds) = parent_calls q cs @ parent_calls q ds"
  "parent_calls q (((SENDMESSAGE, q, c), w) # cs) = ((SENDMESSAGE, q, c), w) # parent_calls q cs"
  "b \<noteq> q \<Longrightarrow> parent_calls q (((a, b, c), w) # cs) = parent_calls q cs"
  "parent_calls q (((RECEIVEMESSAGE, b, c), w) # cs) = parent_calls q cs"
  by (simp_all add: parent_calls_def to_parent_def)

lemma asked_same:
  assumes "same_vars A w w'" "pl \<in> A" "\<And>r. ssi_payloads (nuc w) pl = Some r \<Longrightarrow> arg r \<in> A \<or> service_code r \<notin> {WRITEPRINTER, WRITETERMINAL}"
  shows "asked q ((a, b, pl), w') = asked q ((a, b, pl), w)"
  using assms by (cases "ssi_payloads (nuc w) pl") (auto simp: asked_def same_vars_def text_of_def split: option.split)

lemma user_getSupStruct:
  assumes E: "serves_user E lv A F" and u: "user_at F w"
    and l: "lv V_getsup_payload \<notin> A" "lv V_getsup_sup \<notin> A"
  shows "\<exists>w'. run (getSupStruct lv) E w = (Done (sup_of F), w') \<and> parent_calls (parent_of F) (calls (getSupStruct lv) E w) = [] \<and>
    user_at F w' \<and> supports (nuc w') (sup_of F) = supports (nuc w) (sup_of F) \<and> same_vars A w w' \<and> same_mem A w w'"
proof -
  let ?w = "w\<lparr>nuc := (nuc w)\<lparr>ssi_payloads := (ssi_payloads (nuc w))(lv V_getsup_payload \<mapsto> \<lparr>service_code = GETSUPPORTPTR, arg = NULL\<rparr>)\<rparr>\<rparr>"
  have u0: "user_at F ?w" and v0: "same_vars A w ?w" "same_mem A w ?w" using u l by (auto simp: user_at_def same_vars_def same_mem_def)
  obtain v1 w1 where 1: "E (SENDMESSAGE, (ssi_of F), lv V_getsup_payload) ?w = Some (v1, w1)" "user_at F w1"
    "supports (nuc w1) (sup_of F) = supports (nuc ?w) (sup_of F)" "same_vars A ?w w1" "same_mem (A - {lv V_getsup_payload}) ?w w1"
    by (rule serves_userE [OF E u0])
  obtain v2 w2 where 2: "E (RECEIVEMESSAGE, (ssi_of F), lv V_getsup_sup) w1 = Some (v2, w2)" "user_at F w2"
    "supports (nuc w2) (sup_of F) = supports (nuc w1) (sup_of F)" "same_vars A w1 w2" "same_mem (A - {lv V_getsup_sup}) w1 w2" "mem (nuc w2) (lv V_getsup_sup) = (sup_of F)"
    by (rule serves_userE [OF E 1(2), of RECEIVEMESSAGE "ssi_of F" "lv V_getsup_sup"]) blast
  have s: "ssi_pcb (nuc w) = (ssi_of F)" "ssi_pcb (nuc w1) = (ssi_of F)" "(ssi_of F) \<noteq> (parent_of F)" using u 1(2) by (simp_all add: user_at_def)
  have "A - {lv V_getsup_payload} = A" "A - {lv V_getsup_sup} = A" using l by simp_all
  then have "same_vars A w w2" "same_mem A w w2" using v0 1(4,5) 2(4,5) by (simp_all add: same_vars_def same_mem_def)
  then show ?thesis using 1(1,3) 2(1-3,6) s by (simp add: getSupStruct_def put_payload_def ask_ssi_def run_seq calls_seq)
qed

text \<open>The call of the handler for a message to or from the parent.\<close>

lemma user_handler:
  assumes E: "serves_user E lv A F" and u: "user_at F w" and hw: "exccode_documented hw"
    and l: "lv V_getsup_payload \<notin> A" "lv V_getsup_sup \<notin> A"
    and s: "supports (nuc w) (sup_of F) = Some spu" "sup_exceptState spu GENERALEXCEPT = calling st a b c" "at_user_call st"
    and a: "a = SENDMSG \<and> b = PARENT \<and> k = (SENDMESSAGE, (parent_of F), c) \<or> a = RECEIVEMSG \<and> k = (RECEIVEMESSAGE, b, c)"
  shows "\<exists>w1 v w2 w'. run (supExceptionHandler hw lv) E w = (Left (LDST ((calling st a b c)\<lparr>pc_epc := pc_epc st + WORDLEN\<rparr>)), w') \<and>
    parent_calls (parent_of F) (calls (supExceptionHandler hw lv) E w) = parent_calls (parent_of F) [(k, w1)] \<and> E k w1 = Some (v, w2) \<and>
    user_at F w1 \<and> same_vars A w w1 \<and> same_mem A w w1 \<and> user_at F w' \<and>
    same_vars A w1 w' \<and> same_mem (A - {c}) w1 w' \<and> mem (nuc w') = mem (nuc w2)"
proof -
  let ?st = "calling st a b c"
  have cause: "get_exccode hw (cause ?st) = SYSEXCEPTION" using hw s(3) by (simp add: exccode_documented_def at_user_call_def calling_def)
  from user_getSupStruct [OF E u l] obtain w1 where
    1: "run (getSupStruct lv) E w = (Done (sup_of F), w1)" "parent_calls (parent_of F) (calls (getSupStruct lv) E w) = []"
    "user_at F w1" "supports (nuc w1) (sup_of F) = supports (nuc w) (sup_of F)" "same_vars A w w1" "same_mem A w w1" by blast
  obtain i d where k: "k = (i, d, c)" using a by auto
  obtain v w2 where 2: "E k w1 = Some (v, w2)" "user_at F w2" "supports (nuc w2) (sup_of F) = supports (nuc w1) (sup_of F)"
    "same_vars A w1 w2" "same_mem (A - {c}) w1 w2"
    unfolding k by (rule serves_userE [OF E 1(3)])
  obtain x where x: "pcbs (nuc w1) (proc_of F) = Some x" "p_parent x = (parent_of F)" "current_process (nuc w1) = proc_of F" using 1(3) by (auto simp: user_at_def)
  have spu: "supports (nuc w1) (sup_of F) = Some spu" "supports (nuc w2) (sup_of F) = Some spu" using 1(4) 2(3) s(1) by simp_all
  have h: "run (supSyscallHandler ?st) E w1 = (Done (), w2)" "calls (supSyscallHandler ?st) E w1 = [(k, w1)]"
    using a x 2(1) by - (elim disjE conjE; simp add: supSyscallHandler_def calling_def run_seq calls_seq current_pcb_def)+
  let ?spu = "spu\<lparr>sup_exceptState := (sup_exceptState spu)(GENERALEXCEPT := ?st\<lparr>pc_epc := pc_epc st + WORDLEN\<rparr>)\<rparr>"
  let ?w = "w2\<lparr>nuc := (nuc w2)\<lparr>supports := (supports (nuc w2))((sup_of F) \<mapsto> ?spu)\<rparr>\<rparr>"
  have pc: "pc_epc ?st = pc_epc st" by (simp add: calling_def)
  have r: "run (supExceptionHandler hw lv) E w = (Left (LDST (?st\<lparr>pc_epc := pc_epc st + WORDLEN\<rparr>)), ?w)"
    "calls (supExceptionHandler hw lv) E w = calls (getSupStruct lv) E w @ [(k, w1)]"
    using 1(1) h spu s(2) cause by (simp_all add: supExceptionHandler_def run_seq calls_seq exc_state_of_def upd_support_def pc)
  have f: "user_at F ?w" "same_vars A w1 ?w" "same_mem (A - {c}) w1 ?w"
    using 2(2,4,5) spu(2) by (auto simp: user_at_def same_vars_def same_mem_def)
  have "parent_calls (parent_of F) (calls (supExceptionHandler hw lv) E w) = parent_calls (parent_of F) [(k, w1)]" using r(2) 1(2) by (simp del: parent_calls_simps(3-))
  then show ?thesis using r(1) 1(3,5,6) 2(1) f by (intro exI [of _ w1] exI [of _ v] exI [of _ w2] exI [of _ ?w] conjI) simp_all
qed

text \<open>The whole call, from the program to the state it goes on in.\<close>

lemma user_trap:
  assumes "user_at F w" "at_user_call st" "a = SENDMSG \<or> a = RECEIVEMSG"
  obtains w' spu where "run (trap_up (calling st a b c)) E w = (Done (), w')" "calls (trap_up (calling st a b c)) E w = []"
    "user_at F w'" "supports (nuc w') (sup_of F) = Some spu" "sup_exceptState spu GENERALEXCEPT = calling st a b c"
    "\<And>A. same_vars A w w'" "\<And>A. same_mem A w w'"
proof -
  let ?st = "calling st a b c" let ?t = "trap ?st (nuc w)"
  obtain x u where x: "current_process (nuc w) = proc_of F" "pcbs (nuc w) (proc_of F) = Some x" "p_supportStruct x = (sup_of F)" "(sup_of F) \<noteq> NULL"
    "supports (nuc w) (sup_of F) = Some u" using assms(1) by (auto simp: user_at_def)
  have c: "at_call a b c ?st" using assms(2) by (simp add: at_call_def at_user_call_def calling_def)
  have "syscall ?st (nuc w) = passUpOrDie GENERALEXCEPT ?t"
    using c assms(3) by (auto simp: syscall_def exceptionHandler_def Let_def trap_def at_call_def syscallHandler_def)
  also have "\<dots> = Some (LDCXT (stackPtr (sup_exceptContext u GENERALEXCEPT)) (c_status (sup_exceptContext u GENERALEXCEPT))
      (c_pc (sup_exceptContext u GENERALEXCEPT)), passed_up GENERALEXCEPT (sup_of F) u ?t)"
    using passUpOrDie_up [of ?t x u GENERALEXCEPT] x by simp
  finally have s: "syscall ?st (nuc w) = \<dots>" .
  show thesis
    by (rule that [of "w\<lparr>nuc := passed_up GENERALEXCEPT (sup_of F) u ?t\<rparr>" "u\<lparr>sup_exceptState := (sup_exceptState u)(GENERALEXCEPT := ?st)\<rparr>"])
      (use s x(5) assms(1) in \<open>auto simp: trap_up_def user_at_def passed_up_def same_vars_def same_mem_def trap_def\<close>)
qed

lemma user_call:
  assumes E: "serves_user E lv A F" and u: "user_at F w" and hw: "exccode_documented hw" and st: "at_user_call st"
    and l: "lv V_getsup_payload \<notin> A" "lv V_getsup_sup \<notin> A"
    and a: "a = SENDMSG \<and> b = PARENT \<and> k = (SENDMESSAGE, (parent_of F), c) \<or> a = RECEIVEMSG \<and> k = (RECEIVEMESSAGE, b, c)"
  shows "\<exists>w1 v w2 w' st'. run (in_user_mode hw lv (SYSCALL a b c) st) E w = (Done (gpr st reg_v0, st'), w') \<and>
    st' = (calling st a b c)\<lparr>pc_epc := pc_epc st + WORDLEN\<rparr> \<and> at_user_call st' \<and>
    parent_calls (parent_of F) (calls (in_user_mode hw lv (SYSCALL a b c) st) E w) = parent_calls (parent_of F) [(k, w1)] \<and> E k w1 = Some (v, w2) \<and>
    same_vars A w w1 \<and> user_at F w1 \<and> user_at F w' \<and> same_vars A w w' \<and> same_mem (A - {c}) w w' \<and> mem (nuc w') = mem (nuc w2)"
proof -
  from a have a': "a = SENDMSG \<or> a = RECEIVEMSG" by blast
  obtain w0 spu where 0: "run (trap_up (calling st a b c)) E w = (Done (), w0)" "calls (trap_up (calling st a b c)) E w = []"
    "user_at F w0" "supports (nuc w0) (sup_of F) = Some spu" "sup_exceptState spu GENERALEXCEPT = calling st a b c"
    "\<And>A. same_vars A w w0" "\<And>A. same_mem A w w0" using user_trap [OF u st a'] by metis
  from user_handler [OF E 0(3) hw l 0(4,5) st a] obtain w1 v w2 w' where
    1: "run (supExceptionHandler hw lv) E w0 = (Left (LDST ((calling st a b c)\<lparr>pc_epc := pc_epc st + WORDLEN\<rparr>)), w')"
    "parent_calls (parent_of F) (calls (supExceptionHandler hw lv) E w0) = parent_calls (parent_of F) [(k, w1)]" "E k w1 = Some (v, w2)"
    "same_vars A w0 w1" "same_mem A w0 w1" "user_at F w'" "same_vars A w1 w'" "same_mem (A - {c}) w1 w'"
    "mem (nuc w') = mem (nuc w2)" "user_at F w1" by blast
  let ?st' = "(calling st a b c)\<lparr>pc_epc := pc_epc st + WORDLEN\<rparr>"
  have v0: "gpr ?st' reg_v0 = gpr st reg_v0" by (simp add: calling_def)
  have "at_user_call ?st'" using st by (simp add: at_user_call_def calling_def)
  moreover have "same_vars A w w1" "same_vars A w w'" "same_mem (A - {c}) w w'"
    using 0(6,7) 1(4,5,7,8) by (auto simp: same_vars_def same_mem_def)
  moreover have "run (in_user_mode hw lv (SYSCALL a b c) st) E w = (Done (gpr st reg_v0, ?st'), w')"
    using 0(1) 1(1) v0 by (simp add: SYSCALL_def run_seq run_loading)
  moreover have "parent_calls (parent_of F) (calls (in_user_mode hw lv (SYSCALL a b c) st) E w) = parent_calls (parent_of F) [(k, w1)]"
    using 0(1,2) 1(1,2) by (simp add: SYSCALL_def calls_seq calls_loading del: parent_calls_simps(3-))
  ultimately show ?thesis using 1(3,6,9,10) by blast
qed

section \<open>The requests of a program\<close>

lemma requests_simps [simp]:
  "requests q [] = []" "requests q (cs @ ds) = requests q cs @ requests q ds"
  by (simp_all add: requests_def map_filter_simps map_filter_def)

text \<open>A request that a service thread can serve: it is in memory, and if it is one to write, so is a string with
  its end where the length says.\<close>

definition request_ok :: "ptr \<Rightarrow> world \<Rightarrow> bool" where
  "request_ok pl w \<longleftrightarrow> (\<exists>r. ssi_payloads (nuc w) pl = Some r \<and> (service_code r \<in> {WRITEPRINTER, WRITETERMINAL} \<longrightarrow>
     (\<exists>q. sst_prints w (arg r) = Some q \<and> string_at (bytes w) (string_of q) (text_of w (arg r)) \<and> length (text_of w (arg r)) \<le> 40)))"

definition call_ok :: "family \<Rightarrow> call \<Rightarrow> bool" where
  "call_ok F cl \<longleftrightarrow> (case cl of ((a, b, pl), w) \<Rightarrow> user_at F w \<and> request_ok pl w)"

text \<open>From a state where \<open>P\<close> holds the program, run by the user process, comes to its end with these
  requests to its parent, in this order, and \<open>Q\<close> holds of its result and the state.\<close>

definition asks :: "env \<Rightarrow> machine \<Rightarrow> locals \<Rightarrow> ptr set \<Rightarrow> family \<Rightarrow>
    (world \<Rightarrow> bool) \<Rightarrow> 'a prog \<Rightarrow> (u32 \<times> string) list \<Rightarrow> ('a \<Rightarrow> world \<Rightarrow> bool) \<Rightarrow> bool" where
  "asks E hw lv A F P q rs Q \<longleftrightarrow> (\<forall>st w. at_user_call st \<and> user_at F w \<and> P w \<longrightarrow>
     (\<exists>v st' w'. run (in_user_mode hw lv q st) E w = (Done (v, st'), w') \<and>
       requests (parent_of F) (calls (in_user_mode hw lv q st) E w) = rs \<and>
       list_all (call_ok F) (parent_calls (parent_of F) (calls (in_user_mode hw lv q st) E w)) \<and>
       at_user_call st' \<and> user_at F w' \<and> Q v w'))"

lemma asksI:
  assumes "\<And>st w. at_user_call st \<Longrightarrow> user_at F w \<Longrightarrow> P w \<Longrightarrow> \<exists>v st' w' cs.
    run (in_user_mode hw lv q st) E w = (Done (v, st'), w') \<and> calls (in_user_mode hw lv q st) E w = cs \<and>
    requests (parent_of F) cs = rs \<and> list_all (call_ok F) (parent_calls (parent_of F) cs) \<and> at_user_call st' \<and> user_at F w' \<and> Q v w'"
  shows "asks E hw lv A F P q rs Q"
  using assms unfolding asks_def by meson

lemma asksE:
  assumes "asks E hw lv A F P q rs Q" "at_user_call st" "user_at F w" "P w"
  obtains v st' w' where "run (in_user_mode hw lv q st) E w = (Done (v, st'), w')"
    "requests (parent_of F) (calls (in_user_mode hw lv q st) E w) = rs"
    "list_all (call_ok F) (parent_calls (parent_of F) (calls (in_user_mode hw lv q st) E w))"
    "at_user_call st'" "user_at F w'" "Q v w'"
  using assms unfolding asks_def by meson

lemma asks_seq:
  assumes "asks E hw lv A F P q rs Q" "\<And>v. asks E hw lv A F (Q v) (k v) rs' R"
  shows "asks E hw lv A F P (seq q k) (rs @ rs') R"
proof (rule asksI)
  fix st w assume a: "at_user_call st" "user_at F w" "P w"
  obtain v st1 w1 where 1: "run (in_user_mode hw lv q st) E w = (Done (v, st1), w1)"
    "requests (parent_of F) (calls (in_user_mode hw lv q st) E w) = rs"
    "list_all (call_ok F) (parent_calls (parent_of F) (calls (in_user_mode hw lv q st) E w))"
    "at_user_call st1" "user_at F w1" "Q v w1" by (rule asksE [OF assms(1) a])
  obtain v2 st2 w2 where 2: "run (in_user_mode hw lv (k v) st1) E w1 = (Done (v2, st2), w2)"
    "requests (parent_of F) (calls (in_user_mode hw lv (k v) st1) E w1) = rs'"
    "list_all (call_ok F) (parent_calls (parent_of F) (calls (in_user_mode hw lv (k v) st1) E w1))"
    "at_user_call st2" "user_at F w2" "R v2 w2" by (rule asksE [OF assms(2) 1(4-6)])
  have "calls (in_user_mode hw lv (seq q k) st) E w = calls (in_user_mode hw lv q st) E w @ calls (in_user_mode hw lv (k v) st1) E w1"
    using 1(1) by (simp add: in_user_mode_seq calls_seq)
  moreover have "run (in_user_mode hw lv (seq q k) st) E w = (Done (v2, st2), w2)" using 1(1) 2(1) by (simp add: in_user_mode_seq run_seq)
  ultimately show "\<exists>v st' w' cs. run (in_user_mode hw lv (seq q k) st) E w = (Done (v, st'), w') \<and>
      calls (in_user_mode hw lv (seq q k) st) E w = cs \<and> requests (parent_of F) cs = rs @ rs' \<and>
      list_all (call_ok F) (parent_calls (parent_of F) cs) \<and> at_user_call st' \<and> user_at F w' \<and> R v w'"
    using 1(2,3) 2(2-6) by (intro exI [of _ v2] exI [of _ st2] exI [of _ w2] exI [of _ "calls (in_user_mode hw lv (seq q k) st) E w"] conjI) simp_all
qed

lemma asks_ret: "(\<And>w. P w \<Longrightarrow> Q a w) \<Longrightarrow> asks E hw lv A F P (Ret a) [] Q"
  by (simp add: asks_def)

lemma asks_reads:
  assumes "\<And>w. P w \<Longrightarrow> \<exists>a. f w = Some a \<and> Q a w"
  shows "asks E hw lv A F P (reads f) [] Q"
proof (rule asksI)
  fix st w assume a: "at_user_call st" "user_at F w" "P w"
  then obtain v where "f w = Some v" "Q v w" using assms by blast
  then show "\<exists>v st' w' cs. run (in_user_mode hw lv (reads f) st) E w = (Done (v, st'), w') \<and> calls (in_user_mode hw lv (reads f) st) E w = cs \<and>
      requests (parent_of F) cs = [] \<and> list_all (call_ok F) (parent_calls (parent_of F) cs) \<and> at_user_call st' \<and> user_at F w' \<and> Q v w'"
    using a by simp
qed

lemma asks_writes:
  assumes "\<And>w. P w \<Longrightarrow> user_at F w \<Longrightarrow> \<exists>w'. f w = Some w' \<and> user_at F w' \<and> Q () w'"
  shows "asks E hw lv A F P (writes f) [] Q"
proof (rule asksI)
  fix st w assume a: "at_user_call st" "user_at F w" "P w"
  then obtain w' where "f w = Some w'" "user_at F w'" "Q () w'" using assms by blast
  then show "\<exists>v st' w' cs. run (in_user_mode hw lv (writes f) st) E w = (Done (v, st'), w') \<and> calls (in_user_mode hw lv (writes f) st) E w = cs \<and>
      requests (parent_of F) cs = [] \<and> list_all (call_ok F) (parent_calls (parent_of F) cs) \<and> at_user_call st' \<and> user_at F w' \<and> Q v w'"
    using a(1) by (simp add: run_seq calls_seq)
qed

lemma asks_put_payload:
  assumes "\<And>w. P w \<Longrightarrow> Q () (w\<lparr>nuc := (nuc w)\<lparr>ssi_payloads := (ssi_payloads (nuc w))(a \<mapsto> \<lparr>service_code = c, arg = r\<rparr>)\<rparr>\<rparr>)"
  shows "asks E hw lv A F P (put_payload a c r) [] Q"
  unfolding put_payload_def on_nuc_def
  by (rule asks_writes) (auto simp: user_at_def intro: assms)

lemma asks_put_print:
  assumes "\<And>w. P w \<Longrightarrow> Q () (w\<lparr>sst_prints := (sst_prints w)(a \<mapsto> \<lparr>length_of = c, string_of = r\<rparr>)\<rparr>)"
  shows "asks E hw lv A F P (put_print a c r) [] Q"
  unfolding put_print_def
  by (rule asks_writes) (auto simp: user_at_def intro: assms)

lemma text_of_same: "same_vars A w w' \<Longrightarrow> a \<in> A \<Longrightarrow> text_of w' a = text_of w a"
  by (auto simp: text_of_def same_vars_def split: option.split)

lemma request_ok_same:
  assumes "same_vars A w w'" "pl \<in> A" "request_ok pl w"
    and "\<And>r. ssi_payloads (nuc w) pl = Some r \<Longrightarrow> arg r \<in> A \<or> service_code r \<notin> {WRITEPRINTER, WRITETERMINAL}"
  shows "request_ok pl w'"
proof -
  obtain r where r: "ssi_payloads (nuc w) pl = Some r" "service_code r \<in> {WRITEPRINTER, WRITETERMINAL} \<longrightarrow>
     (\<exists>q. sst_prints w (arg r) = Some q \<and> string_at (bytes w) (string_of q) (text_of w (arg r)) \<and> length (text_of w (arg r)) \<le> 40)"
    using assms(3) by (auto simp: request_ok_def)
  show ?thesis
  proof (cases "service_code r \<in> {WRITEPRINTER, WRITETERMINAL}")
    case True
    then have "arg r \<in> A" using assms(4) [OF r(1)] by blast
    then have "text_of w' (arg r) = text_of w (arg r)" "sst_prints w' (arg r) = sst_prints w (arg r)" "bytes w' = bytes w"
      using text_of_same [OF assms(1)] assms(1) by (simp_all add: same_vars_def)
    then show ?thesis using r assms(1,2) by (simp add: request_ok_def same_vars_def)
  next
    case False
    have "ssi_payloads (nuc w') pl = Some r" using r(1) assms(1,2) by (simp add: same_vars_def)
    then show ?thesis using False unfolding request_ok_def by blast
  qed
qed

lemma asks_send:
  assumes E: "serves_user E lv A F" "exccode_documented hw" "lv V_getsup_payload \<notin> A" "lv V_getsup_sup \<notin> A"
    and r: "\<And>w. P w \<Longrightarrow> asked (parent_of F) ((SENDMESSAGE, parent_of F, pl), w) = Some r \<and> request_ok pl w" "pl \<in> A"
      "\<And>w r. P w \<Longrightarrow> ssi_payloads (nuc w) pl = Some r \<Longrightarrow> arg r \<in> A \<or> service_code r \<notin> {WRITEPRINTER, WRITETERMINAL}"
    and Q: "\<And>v w w'. P w \<Longrightarrow> same_vars A w w' \<Longrightarrow> same_mem (A - {pl}) w w' \<Longrightarrow> Q v w'"
  shows "asks E hw lv A F P (SYSCALL SENDMSG PARENT pl) [r] Q"
proof (rule asksI)
  fix st w assume a: "at_user_call st" "user_at F w" "P w"
  from user_call [OF E(1) a(2) E(2) a(1) E(3,4), of SENDMSG PARENT "(SENDMESSAGE, parent_of F, pl)" pl] obtain w1 v w2 w' st' where
    1: "run (in_user_mode hw lv (SYSCALL SENDMSG PARENT pl) st) E w = (Done (gpr st reg_v0, st'), w')" "at_user_call st'"
    "parent_calls (parent_of F) (calls (in_user_mode hw lv (SYSCALL SENDMSG PARENT pl) st) E w) =
       parent_calls (parent_of F) [((SENDMESSAGE, parent_of F, pl), w1)]"
    "same_vars A w w1" "user_at F w'" "same_vars A w w'" "same_mem (A - {pl}) w w'" "user_at F w1" by blast
  have "asked (parent_of F) ((SENDMESSAGE, parent_of F, pl), w1) = Some r"
    using asked_same [OF 1(4) r(2) r(3) [OF a(3)]] r(1) [OF a(3)] by simp
  moreover have "request_ok pl w1" using request_ok_same [OF 1(4) r(2) _ r(3) [OF a(3)]] r(1) [OF a(3)] by blast
  ultimately have "requests (parent_of F) (calls (in_user_mode hw lv (SYSCALL SENDMSG PARENT pl) st) E w) = [r]"
    "list_all (call_ok F) (parent_calls (parent_of F) (calls (in_user_mode hw lv (SYSCALL SENDMSG PARENT pl) st) E w))"
    using 1(8) by (simp_all add: requests_def 1(3) map_filter_simps call_ok_def)
  then show "\<exists>v st' w' cs. run (in_user_mode hw lv (SYSCALL SENDMSG PARENT pl) st) E w = (Done (v, st'), w') \<and>
      calls (in_user_mode hw lv (SYSCALL SENDMSG PARENT pl) st) E w = cs \<and> requests (parent_of F) cs = [r] \<and>
      list_all (call_ok F) (parent_calls (parent_of F) cs) \<and> at_user_call st' \<and> user_at F w' \<and> Q v w'"
    using 1(1,2,5) Q [OF a(3) 1(6,7)] by blast
qed

lemma asks_receive:
  assumes E: "serves_user E lv A F" "exccode_documented hw" "lv V_getsup_payload \<notin> A" "lv V_getsup_sup \<notin> A"
    and Q: "\<And>v r w w1 w2 w'. P w \<Longrightarrow> E (RECEIVEMESSAGE, b, c) w1 = Some (r, w2) \<Longrightarrow> mem (nuc w') = mem (nuc w2) \<Longrightarrow>
      same_vars A w w' \<Longrightarrow> same_mem (A - {c}) w w' \<Longrightarrow> Q v w'"
  shows "asks E hw lv A F P (SYSCALL RECEIVEMSG b c) [] Q"
proof (rule asksI)
  fix st w assume a: "at_user_call st" "user_at F w" "P w"
  from user_call [OF E(1) a(2) E(2) a(1) E(3,4), of RECEIVEMSG b "(RECEIVEMESSAGE, b, c)" c] obtain w1 v w2 w' st' where
    1: "run (in_user_mode hw lv (SYSCALL RECEIVEMSG b c) st) E w = (Done (gpr st reg_v0, st'), w')" "at_user_call st'"
    "parent_calls (parent_of F) (calls (in_user_mode hw lv (SYSCALL RECEIVEMSG b c) st) E w) =
       parent_calls (parent_of F) [((RECEIVEMESSAGE, b, c), w1)]"
    "E (RECEIVEMESSAGE, b, c) w1 = Some (v, w2)"
    "user_at F w'" "same_vars A w w'" "same_mem (A - {c}) w w'" "mem (nuc w') = mem (nuc w2)" by blast
  have "requests (parent_of F) (calls (in_user_mode hw lv (SYSCALL RECEIVEMSG b c) st) E w) = []"
    "list_all (call_ok F) (parent_calls (parent_of F) (calls (in_user_mode hw lv (SYSCALL RECEIVEMSG b c) st) E w))"
    by (simp_all add: requests_def 1(3) map_filter_simps)
  then show "\<exists>v st' w' cs. run (in_user_mode hw lv (SYSCALL RECEIVEMSG b c) st) E w = (Done (v, st'), w') \<and>
      calls (in_user_mode hw lv (SYSCALL RECEIVEMSG b c) st) E w = cs \<and> requests (parent_of F) cs = [] \<and>
      list_all (call_ok F) (parent_calls (parent_of F) cs) \<and> at_user_call st' \<and> user_at F w' \<and> Q v w'"
    using 1(1,2,5) Q [OF a(3) 1(4,8,6,7)] by blast
qed

end
