(* ===== verification/Testers_Props.thy ===== *)
theory Testers_Props
  imports Testers_Correct
begin

text \<open>
  The properties of the user programs: what each asks its service thread, and what the recursive function
  of the Fibonacci tests computes.
\<close>

section \<open>Strings\<close>

lemma string_at_text: "string_at b p s \<Longrightarrow> map (\<lambda>i. b (p + of_nat i)) [0..<length s] = s"
proof (induction s arbitrary: p)
  case (Cons c s)
  have "map (\<lambda>i. b (p + of_nat i)) [0..<length (c # s)] = b p # map (\<lambda>i. b (p + 1 + of_nat i)) [0..<length s]"
    by (subst length_Cons, subst map_upt_Suc) (simp add: algebra_simps)
  then show ?case using Cons by simp
qed simp

text \<open>The literals of the programs.\<close>

definition texts :: "string list" where
  "texts = map (\<lambda>s. s @ [CHR 0x0A]) [''printTest is ok'', ''Test Number 1 is ok'', ''Test number 2 is ok'', ''Test number 3 is ok'',
     ''Test number 4 is ok'', ''TOD Test starts'', ''TOD Test concluded'', ''TOD Test Concluded Successfully'',
     ''ERROR: TOD not correct'', ''Recursive Fibonacci (8) Test starts'', ''Recursive Fibonacci (11) Test starts'',
     ''Recursion Concluded'', ''Recursion Concluded Successfully'', ''ERROR: Recursion problems'']"

lemma texts_short: "s \<in> set texts \<Longrightarrow> length s \<le> 40"
  by (auto simp: texts_def)

text \<open>Where a program runs: the literals are in memory, its variables are apart from each other and from
  those of the handler, and its calls are answered.\<close>

definition hosts :: "env \<Rightarrow> machine \<Rightarrow> locals \<Rightarrow> user_locals \<Rightarrow> literals \<Rightarrow> (u32 \<Rightarrow> char) \<Rightarrow> nat \<Rightarrow> family \<Rightarrow> bool" where
  "hosts E hw lv ul lit B n F \<longleftrightarrow> serves_user E lv (range ul) F \<and> exccode_documented hw \<and> inj ul \<and>
     lv V_getsup_payload \<notin> range ul \<and> lv V_getsup_sup \<notin> range ul \<and> 0 \<notin> range ul \<and> 40 \<le> n \<and>
     (\<forall>s \<in> set texts. string_at B (lit s) s)"

lemma hostsD:
  assumes "hosts E hw lv ul lit B n F"
  shows "serves_user E lv (range ul) F" "exccode_documented hw" "lv V_getsup_payload \<notin> range ul"
    "lv V_getsup_sup \<notin> range ul" "inj ul" "0 \<notin> range ul" "40 \<le> n"
    "s \<in> set texts \<Longrightarrow> string_at B (lit s) s"
  using assms by (simp_all add: hosts_def)

section \<open>print\<close>

text \<open>The strings stay, and the variables in \<open>T\<close> keep their values.\<close>

definition holds :: "user_locals \<Rightarrow> (u32 \<Rightarrow> char) \<Rightarrow> (user_var \<times> u32) list \<Rightarrow> world \<Rightarrow> bool" where
  "holds ul B T w \<longleftrightarrow> bytes w = B \<and> (\<forall>x \<in> set T. mem (nuc w) (ul (fst x)) = snd x)"

lemma holds_same: "holds ul B T w \<Longrightarrow> same_vars A w w' \<Longrightarrow> same_mem (ul ` fst ` set T) w w' \<Longrightarrow> holds ul B T w'"
  by (auto simp: holds_def same_vars_def same_mem_def)

lemma same_mem_mono: "A \<subseteq> A' \<Longrightarrow> same_mem A' w w' \<Longrightarrow> same_mem A w w'"
  unfolding same_mem_def by blast

lemma asks_length_loop:
  assumes "string_at B (str + len) s" "length s \<le> n" "\<And>w. P w \<Longrightarrow> bytes w = B"
  shows "asks E hw lv A F P (length_loop n str len) [] (\<lambda>v w. v = len + of_nat (length s) \<and> P w)"
  using assms(1,2)
proof (induction n arbitrary: len s)
  case 0
  then show ?case using assms(3) by (auto intro!: asks_reads)
next
  case (Suc n)
  have r: "asks E hw lv A F P (reads (\<lambda>w. Some (bytes w (str + len)))) [] (\<lambda>c w. c = B (str + len) \<and> P w)"
    using assms(3) by (intro asks_reads) auto
  have "asks E hw lv A F (\<lambda>w. c = B (str + len) \<and> P w) (if c \<noteq> EOS then length_loop n str (len + 1) else Ret len) []
      (\<lambda>v w. v = len + of_nat (length s) \<and> P w)" for c
  proof (cases s)
    case Nil
    then show ?thesis using Suc.prems by (auto simp: asks_def)
  next
    case (Cons d ds)
    then have "string_at B (str + (len + 1)) ds" "length ds \<le> n" "B (str + len) = d" "d \<noteq> EOS"
      using Suc.prems by (simp_all add: algebra_simps)
    then show ?thesis using Suc.IH [of "len + 1" ds] by (simp add: asks_def Cons algebra_simps)
  qed
  from asks_seq [OF r this] show ?case by simp
qed

lemma asks_print:
  assumes h: "hosts E hw lv ul lit B n F" and s: "string_at B str s" "length s \<le> 40" "code \<in> {WRITEPRINTER, WRITETERMINAL}"
    and T: "fst ` set T \<subseteq> {V_time1, V_time2}"
  shows "asks E hw lv (range ul) F (holds ul B T) (print_testers n ul code str) [(code, s)] (\<lambda>_. holds ul B T)"
proof -
  let ?A = "asks E hw lv (range ul) F"
  let ?q = "\<lparr>length_of = of_nat (length s), string_of = str\<rparr>" and ?r = "\<lparr>service_code = code, arg = ul V_print_payload_u\<rparr>"
  let ?P1 = "\<lambda>w. holds ul B T w \<and> sst_prints w (ul V_print_payload_u) = Some ?q"
  let ?P2 = "\<lambda>w. ?P1 w \<and> ssi_payloads (nuc w) (ul V_sst_payload_u) = Some ?r"
  note d = hostsD [OF h]
  have ne: "ul v \<noteq> ul v'" if "v \<noteq> v'" for v v' using d(5) that by (simp add: inj_eq)
  have away: "ul ` fst ` set T \<subseteq> range ul - {ul V_sst_payload_u}" "ul ` fst ` set T \<subseteq> range ul - {0}"
  proof -
    have t: "ul ` fst ` set T \<subseteq> ul ` {V_time1, V_time2}" by (rule image_mono [OF T])
    have u: "ul ` {V_time1, V_time2} \<subseteq> range ul - {ul V_sst_payload_u}" "ul ` {V_time1, V_time2} \<subseteq> range ul - {0}"
      using ne [of V_time1 V_sst_payload_u] ne [of V_time2 V_sst_payload_u] d(6) by auto
    show "ul ` fst ` set T \<subseteq> range ul - {ul V_sst_payload_u}" by (rule order.trans [OF t u(1)])
    show "ul ` fst ` set T \<subseteq> range ul - {0}" by (rule order.trans [OF t u(2)])
  qed
  have len: "?A (holds ul B T) (length_loop n str 0) [] (\<lambda>v w. v = of_nat (length s) \<and> holds ul B T w)"
    using asks_length_loop [where len = 0 and str = str and P = "holds ul B T"] s d(7) by (simp add: holds_def)
  have pr: "?A (\<lambda>w. v = of_nat (length s) \<and> holds ul B T w) (put_print (ul V_print_payload_u) v str) [] (\<lambda>_. ?P1)" for v
    by (rule asks_put_print) (auto simp: holds_def)
  have pl: "?A ?P1 (put_payload (ul V_sst_payload_u) code (ul V_print_payload_u)) [] (\<lambda>_. ?P2)"
    by (rule asks_put_payload) (auto simp: holds_def)
  have un: "unat (of_nat (length s) :: u32) = length s" using s(2) by (simp add: unat_of_nat take_bit_eq_mod)
  have snd: "?A ?P2 (SYSCALL SENDMSG PARENT (ul V_sst_payload_u)) [(code, s)] (\<lambda>_. holds ul B T)"
  proof (rule asks_send [OF d(1-4)])
    show "asked (parent_of F) ((SENDMESSAGE, parent_of F, ul V_sst_payload_u), w) = Some (code, s) \<and> request_ok (ul V_sst_payload_u) w"
      if "?P2 w" for w
    proof -
      have b: "bytes w = B" "sst_prints w (ul V_print_payload_u) = Some ?q" using that by (simp_all add: holds_def)
      then have "text_of w (ul V_print_payload_u) = map (\<lambda>i. B (str + of_nat i)) [0..<unat (of_nat (length s) :: u32)]"
        by (simp only: text_of_def option.case sst_print_t.simps)
      then have "text_of w (ul V_print_payload_u) = s" by (simp only: un string_at_text [OF s(1)])
      then show ?thesis using that b s by (auto simp: asked_def request_ok_def)
    qed
    show "holds ul B T w'" if "?P2 w" "same_vars (range ul) w w'" "same_mem (range ul - {ul V_sst_payload_u}) w w'" for w w'
    proof (rule holds_same [OF _ that(2) same_mem_mono [OF away(1) that(3)]])
      show "holds ul B T w" using that(1) by blast
    qed
  qed auto
  have rcv: "?A (holds ul B T) (SYSCALL RECEIVEMSG 0 0) [] (\<lambda>_. holds ul B T)"
    by (rule asks_receive [OF d(1-4)]) (rule holds_same [OF _ _ same_mem_mono [OF away(2)]])
  have ret: "?A (holds ul B T) (Ret ()) [] (\<lambda>_. holds ul B T)" by (rule asks_ret)
  from asks_seq [OF len asks_seq [OF pr asks_seq [OF pl asks_seq [OF snd asks_seq [OF rcv ret]]]]]
  show ?thesis by (simp add: print_testers_def)
qed

lemma asks_say:
  assumes "hosts E hw lv ul lit B n F" "s @ [CHR 0x0A] \<in> set texts" "code \<in> {WRITEPRINTER, WRITETERMINAL}"
    and "fst ` set T \<subseteq> {V_time1, V_time2}"
  shows "asks E hw lv (range ul) F (holds ul B T) (say n ul lit code s) [(code, s @ [CHR 0x0A])] (\<lambda>_. holds ul B T)"
  unfolding say_def by (rule asks_print [OF assms(1) hostsD(8) [OF assms(1,2)] texts_short [OF assms(2)] assms(3,4)])

lemma asks_terminate:
  assumes h: "hosts E hw lv ul lit B n F"
  shows "asks E hw lv (range ul) F P (terminate_normally ul) [(TERMINATE, [])] (\<lambda>_ _. True)"
proof -
  let ?A = "asks E hw lv (range ul) F"
  let ?P = "\<lambda>w. ssi_payloads (nuc w) (ul V_terminate_payload) = Some \<lparr>service_code = TERMINATE, arg = 0\<rparr>"
  note d = hostsD [OF h]
  have pl: "?A P (put_payload (ul V_terminate_payload) TERMINATE 0) [] (\<lambda>_. ?P)" by (rule asks_put_payload) simp
  have snd: "?A ?P (SYSCALL SENDMSG PARENT (ul V_terminate_payload)) [(TERMINATE, [])] (\<lambda>_ _. True)"
    by (rule asks_send [OF d(1-4)]) (auto simp: asked_def request_ok_def)
  have rcv: "?A (\<lambda>_. True) (SYSCALL RECEIVEMSG 0 0) [] (\<lambda>_ _. True)" by (rule asks_receive [OF d(1-4)]) simp
  have ret: "?A (\<lambda>_. True) (Ret ()) [] (\<lambda>_ _. True)" by (rule asks_ret) simp
  from asks_seq [OF pl asks_seq [OF snd asks_seq [OF rcv ret]]] show ?thesis by (simp add: terminate_normally_def)
qed

section \<open>Fibonacci\<close>

fun fibonacci :: "nat \<Rightarrow> nat" where
  "fibonacci 0 = 0"
| "fibonacci (Suc 0) = 1"
| "fibonacci (Suc (Suc n)) = fibonacci (Suc n) + fibonacci n"

lemma fibonacci_mono: "fibonacci n \<le> fibonacci (n + k)"
proof (induction k)
  case (Suc k)
  have "fibonacci (n + k) \<le> fibonacci (Suc (n + k))" by (cases "n + k") simp_all
  then show ?case using Suc by simp
qed simp

lemma fibonacci_mono': "m \<le> n \<Longrightarrow> fibonacci m \<le> fibonacci n"
  using fibonacci_mono [of m "n - m"] by simp

text \<open>The last number that fits in an \<^verbatim>\<open>int\<close>.\<close>

fun fib_steps :: "nat \<Rightarrow> nat \<Rightarrow> nat \<Rightarrow> nat" where
  "fib_steps 0 a b = a"
| "fib_steps (Suc n) a b = fib_steps n b (a + b)"

lemma fib_steps: "fib_steps n (fibonacci k) (fibonacci (Suc k)) = fibonacci (k + n)"
proof (induction n arbitrary: k)
  case (Suc n)
  have "fib_steps (Suc n) (fibonacci k) (fibonacci (Suc k)) = fib_steps n (fibonacci (Suc k)) (fibonacci (Suc (Suc k)))"
    by (simp add: add.commute)
  then show ?case using Suc [of "Suc k"] by simp
qed simp

lemma fibonacci_46: "fibonacci 46 = 1836311903" "fibonacci 47 = 2971215073"
proof -
  have s: "fib_steps (numeral k) a b = fib_steps (pred_numeral k) b (a + b)" for k a b by (simp add: numeral_eq_Suc)
  have f: "fibonacci n = fib_steps n 0 1" for n using fib_steps [of n 0] by simp
  have o: "fib_steps 1 a b = b" for a b by simp
  show "fibonacci 46 = 1836311903" unfolding f by (simp add: s o del: One_nat_def)
  show "fibonacci 47 = 2971215073" unfolding f by (simp add: s o del: One_nat_def)
qed

lemma fib_below: "i \<le> 0 \<Longrightarrow> - (2 ^ 31) \<le> i \<Longrightarrow> fib i = None"
proof (induction "nat (i + 2 ^ 31)" arbitrary: i)
  case 0
  then show ?case by (subst fib.simps) (simp add: c_int_def)
next
  case (Suc k)
  then have "fib (i - 1) = None" by (intro Suc.hyps(1)) simp_all
  then show ?case using Suc.prems Suc.hyps(2) by (subst fib.simps) (simp add: c_int_def)
qed

lemma fib_fits:
  assumes "1 \<le> n" "n \<le> 46"
  shows "fib (int n) = Some (int (fibonacci n))"
  using assms
proof (induction n rule: fibonacci.induct)
  case (3 n)
  show ?case
  proof (cases "n = 0")
    case True
    then show ?thesis by (subst fib.simps) simp
  next
    case False
    then have "fib (int (Suc n)) = Some (int (fibonacci (Suc n)))" "fib (int n) = Some (int (fibonacci n))"
      using 3 by simp_all
    moreover have "fibonacci (Suc (Suc n)) \<le> 1836311903" using fibonacci_mono' [OF 3(4)] by (simp only: fibonacci_46)
    ultimately show ?thesis using False 3(4) by (subst fib.simps) (simp add: c_int_def)
  qed
qed (auto simp: fib.simps)

lemma fib_overflows: "46 < n \<Longrightarrow> fib (int n) = None"
proof (induction n rule: less_induct)
  case (less n)
  show ?case
  proof (cases "n = 47")
    case True
    have "fib 46 = Some 1836311903" "fib 45 = Some (int (fibonacci 45))" using fib_fits [of 46] fib_fits [of 45] by (simp_all add: fibonacci_46)
    moreover have "fibonacci 47 = fibonacci 46 + fibonacci 45" using fibonacci.simps(3) [of 45] by (simp del: fibonacci.simps)
    ultimately show ?thesis by (simp add: True) (subst fib.simps, simp add: c_int_def fibonacci_46)
  next
    case False
    then have "fib (int (n - 1)) = None" using less.prems by (intro less.IH) simp_all
    moreover have "int (n - 1) = int n - 1" using less.prems by simp
    ultimately have "fib (int n - 1) = None" by (simp only:)
    then show ?thesis using less.prems by (subst fib.simps) (auto simp: c_int_def)
  qed
qed

text \<open>C30.  The recursive function of the Fibonacci tests returns the Fibonacci number for every argument from 1
  to 46, and for no other \<^verbatim>\<open>int\<close>: above, the sum leaves the range, and at 0 and below the
  recursion goes down until the subtraction does.\<close>

theorem fib_exact:
  assumes "- (2 ^ 31) \<le> i" "i < 2 ^ 31"
  shows "fib i = (if 1 \<le> i \<and> i \<le> 46 then Some (int (fibonacci (nat i))) else None)"
proof (cases "1 \<le> i")
  case True
  then have i: "i = int (nat i)" by simp
  show ?thesis
  proof (cases "i \<le> 46")
    case le: True
    have "fib (int (nat i)) = Some (int (fibonacci (nat i)))" by (rule fib_fits) (use True le in simp_all)
    then show ?thesis using True le by simp
  next
    case False
    have "fib (int (nat i)) = None" by (rule fib_overflows) (use False in simp)
    then show ?thesis using True False by simp
  qed
qed (use fib_below [of i] assms in simp)

theorem fib_exact_witness: "fib 11 = Some 89 \<and> fib 47 = None \<and> fib 0 = None"
proof -
  have "fibonacci 11 = 89" by (simp add: eval_nat_numeral)
  then show ?thesis using fib_exact [of 11] fib_exact [of 47] fib_exact [of 0] by simp
qed

section \<open>The programs\<close>

text \<open>The programs without the clock, and what they ask.\<close>

definition programs :: "nat \<Rightarrow> user_locals \<Rightarrow> literals \<Rightarrow> (unit prog \<times> (u32 \<times> string) list) list" where
  "programs n ul lit = [
     (main_terminalTest1 n ul lit, [(WRITETERMINAL, ''printTest is ok''), (WRITETERMINAL, ''Test Number 1 is ok'')]),
     (main_terminalTest2 n ul lit, [(WRITETERMINAL, ''printTest is ok''), (WRITETERMINAL, ''Test number 2 is ok'')]),
     (main_terminalTest3 n ul lit, [(WRITETERMINAL, ''printTest is ok''), (WRITETERMINAL, ''Test number 3 is ok'')]),
     (main_terminalTest4 n ul lit, [(WRITETERMINAL, ''printTest is ok''), (WRITETERMINAL, ''Test number 4 is ok'')]),
     (main_printerTest n ul lit, [(WRITETERMINAL, ''printTest is ok''), (WRITEPRINTER, ''printTest is ok'')]),
     (main_fibEight n ul lit, [(WRITETERMINAL, ''Recursive Fibonacci (8) Test starts''), (WRITETERMINAL, ''Recursion Concluded''),
        (WRITETERMINAL, ''Recursion Concluded Successfully'')]),
     (main_fibEleven n ul lit, [(WRITETERMINAL, ''Recursive Fibonacci (11) Test starts''), (WRITETERMINAL, ''Recursion Concluded''),
        (WRITETERMINAL, ''Recursion Concluded Successfully'')])]"

definition with_newline :: "u32 \<times> string \<Rightarrow> u32 \<times> string" where
  "with_newline r = (fst r, snd r @ [CHR 0x0A])"

lemma asks_two:
  assumes h: "hosts E hw lv ul lit B n F"
    and "s @ [CHR 0x0A] \<in> set texts" "t @ [CHR 0x0A] \<in> set texts" "c \<in> {WRITEPRINTER, WRITETERMINAL}"
  shows "asks E hw lv (range ul) F (holds ul B []) (seq (say n ul lit WRITETERMINAL s) (\<lambda>_.
      seq (say n ul lit c t) (\<lambda>_. terminate_normally ul)))
    (map with_newline [(WRITETERMINAL, s), (c, t)] @ [(TERMINATE, [])]) (\<lambda>_ _. True)"
  using asks_seq [OF asks_say [OF h assms(2), of WRITETERMINAL "[]"] asks_seq [OF asks_say [OF h assms(3,4), of "[]"] asks_terminate [OF h]]]
  by (simp add: with_newline_def)

lemma asks_fib:
  assumes h: "hosts E hw lv ul lit B n F" and f: "fib i = Some r" and s: "s @ [CHR 0x0A] \<in> set texts"
  shows "asks E hw lv (range ul) F (holds ul B []) (seq (say n ul lit WRITETERMINAL s) (\<lambda>_.
      seq (reads (\<lambda>w. fib i)) (\<lambda>i. seq (say n ul lit WRITETERMINAL ''Recursion Concluded'') (\<lambda>_.
      seq (say n ul lit WRITETERMINAL (fib_verdict i r)) (\<lambda>_. terminate_normally ul)))))
    (map with_newline [(WRITETERMINAL, s), (WRITETERMINAL, ''Recursion Concluded''), (WRITETERMINAL, ''Recursion Concluded Successfully'')]
      @ [(TERMINATE, [])]) (\<lambda>_ _. True)"
proof -
  let ?A = "asks E hw lv (range ul) F"
  have t: "''Recursion Concluded'' @ [CHR 0x0A] \<in> set texts" "''Recursion Concluded Successfully'' @ [CHR 0x0A] \<in> set texts"
    by (simp_all add: texts_def)
  have r: "?A (holds ul B []) (reads (\<lambda>w. fib i)) [] (\<lambda>v w. v = r \<and> holds ul B [] w)" using f by (intro asks_reads) simp
  have v: "?A (\<lambda>w. v = r \<and> holds ul B [] w) (seq (say n ul lit WRITETERMINAL ''Recursion Concluded'') (\<lambda>_.
      seq (say n ul lit WRITETERMINAL (fib_verdict v r)) (\<lambda>_. terminate_normally ul)))
    (map with_newline [(WRITETERMINAL, ''Recursion Concluded''), (WRITETERMINAL, ''Recursion Concluded Successfully'')] @ [(TERMINATE, [])])
    (\<lambda>_ _. True)" for v
  proof (cases "v = r")
    case True
    have "fib_verdict r r = ''Recursion Concluded Successfully''" by (simp add: fib_verdict_def)
    then show ?thesis
      using asks_seq [OF asks_say [OF h t(1), of WRITETERMINAL "[]"] asks_seq [OF asks_say [OF h t(2), of WRITETERMINAL "[]"] asks_terminate [OF h]]]
      by (simp add: True with_newline_def)
  qed (simp add: asks_def)
  from asks_seq [OF asks_say [OF h s, of WRITETERMINAL "[]"] asks_seq [OF r v]] show ?thesis by (simp add: with_newline_def)
qed

lemma programs_asks:
  assumes h: "hosts E hw lv ul lit B n F" and q: "(q, rs) \<in> set (programs n ul lit)"
  shows "asks E hw lv (range ul) F (holds ul B []) q (map with_newline rs @ [(TERMINATE, [])]) (\<lambda>_ _. True)"
proof -
  note mains = main_terminalTest1_def main_terminalTest2_def main_terminalTest3_def main_terminalTest4_def main_printerTest_def
    main_fibEight_def main_fibEleven_def
  have f: "fib 8 = Some 21" "fib 11 = Some 89" using fib_fits [of 8] fib_fits [of 11] by (simp_all add: eval_nat_numeral)
  have "list_all (\<lambda>(q, rs). asks E hw lv (range ul) F (holds ul B []) q (map with_newline rs @ [(TERMINATE, [])]) (\<lambda>_ _. True))
      (programs n ul lit)"
    unfolding programs_def list.pred_inject prod.case mains
    by (intro conjI TrueI asks_two [OF h] asks_fib [OF h f(1)] asks_fib [OF h f(2)]) (simp_all add: texts_def)
  then show ?thesis using q by (auto simp: list_all_iff)
qed

text \<open>A state of memory with the literals, 64 bytes apart, and an environment that answers.\<close>

definition demo_lit :: literals where
  "demo_lit s = 0x80010000 + of_nat (64 * length (takeWhile (\<lambda>t. t \<noteq> s) texts))"

definition demo_bytes :: "u32 \<Rightarrow> char" where
  "demo_bytes a = (let d = unat (a - 0x80010000); k = d div 64; j = d mod 64 in
     if k < length texts \<and> j < length (texts ! k) then texts ! k ! j else EOS)"

definition demo_ul :: user_locals where
  "demo_ul v = (case v of V_print_payload_u \<Rightarrow> 0xBFFFFF00 | V_sst_payload_u \<Rightarrow> 0xBFFFFF08 | V_terminate_payload \<Rightarrow> 0xBFFFFF10
     | V_tod_payload \<Rightarrow> 0xBFFFFF18 | V_time1 \<Rightarrow> 0xBFFFFF20 | V_time2 \<Rightarrow> 0xBFFFFF24)"

definition demo_user_env :: "u32 \<Rightarrow> u32 \<Rightarrow> env" where
  "demo_user_env t1 t2 c w = (case c of (a, b, p) \<Rightarrow> Some (0, if a = RECEIVEMESSAGE \<and> p \<noteq> 0 then
     w\<lparr>nuc := store p (if b = 0x20010000 then 0x20030800 else if p = demo_ul V_time1 then t1 else t2) (nuc w)\<rparr> else w))"

definition demo_family :: family where
  "demo_family = \<lparr>proc_of = 0x20010200, sup_of = 0x20030800, parent_of = 0x20010100, ssi_of = 0x20010000, asid_index = 1,
     printers_of = replicate 8 0x20010300, terminals_of = replicate 8 0x20010400\<rparr>"

definition demo_user :: world where
  "demo_user = demo_world\<lparr>nuc := (nuc demo_world)\<lparr>current_process := 0x20010200, ssi_pcb := 0x20010000,
       pcbs := (pcbs (nuc demo_world))(0x20010200 \<mapsto> blank_pcb\<lparr>p_parent := 0x20010100, p_supportStruct := 0x20030800\<rparr>),
       supports := (supports (nuc demo_world))(0x20030800 \<mapsto> demo_support\<lparr>sup_asid := 2\<rparr>)\<rparr>,
     printerPcbs := replicate 8 0x20010300, terminalPcbs := replicate 8 0x20010400, bytes := demo_bytes\<rparr>"

lemma first_index: "x \<in> set xs \<Longrightarrow> length (takeWhile (\<lambda>y. y \<noteq> x) xs) < length xs \<and> xs ! length (takeWhile (\<lambda>y. y \<noteq> x) xs) = x"
  by (induction xs) auto

lemma demo_literals: "s \<in> set texts \<Longrightarrow> string_at demo_bytes (demo_lit s) s"
proof -
  assume s: "s \<in> set texts"
  let ?k = "length (takeWhile (\<lambda>t. t \<noteq> s) texts)"
  have k: "?k < length texts" "texts ! ?k = s"
    using first_index [OF s] by simp_all
  have l: "length texts = 14" by (simp add: texts_def)
  have e: "EOS \<notin> set s" using s by (auto simp: texts_def)
  have b: "demo_bytes (demo_lit s + of_nat j) = (if j < length s then s ! j else EOS)" if "j \<le> 40" for j
  proof -
    have "demo_lit s + of_nat j - 0x80010000 = (of_nat (64 * ?k + j) :: u32)" by (simp add: demo_lit_def)
    moreover have "unat (of_nat (64 * ?k + j) :: u32) = 64 * ?k + j" using k(1) l that by (simp only: unat_of_nat take_bit_eq_mod) simp
    ultimately have "unat (demo_lit s + of_nat j - 0x80010000) = 64 * ?k + j" by (simp only:)
    moreover have "(64 * ?k + j) div 64 = ?k" "(64 * ?k + j) mod 64 = j" using that by simp_all
    ultimately show ?thesis using k by (simp add: demo_bytes_def)
  qed
  have "string_at demo_bytes (demo_lit s + of_nat j) (drop j s)" if "j \<le> length s" for j
    using that
  proof (induction "length s - j" arbitrary: j)
    case 0
    then show ?case using b [of j] texts_short [OF s] by simp
  next
    case (Suc m)
    then have j: "j < length s" "m = length s - Suc j" by simp_all
    have "string_at demo_bytes (demo_lit s + of_nat (Suc j)) (drop (Suc j) s)" by (rule Suc.hyps(1)) (use j in simp_all)
    moreover have "drop j s = s ! j # drop (Suc j) s" using j by (simp add: Cons_nth_drop_Suc)
    moreover have "s ! j \<noteq> EOS" using e j(1) by (metis nth_mem)
    ultimately show ?case using b [of j] texts_short [OF s] j by (simp add: algebra_simps)
  qed
  from this [of 0] show ?thesis by simp
qed

lemma demo_hosts: "hosts (demo_user_env t1 t2) demo_hw demo_lv demo_ul demo_lit demo_bytes 40 demo_family"
proof -
  have sup0: "demo_lv V_getsup_sup \<noteq> 0" by (simp add: demo_lv_def)
  have "inj demo_ul" by (rule injI) (simp add: demo_ul_def split: user_var.splits)
  moreover have "serves_user (demo_user_env t1 t2) demo_lv (range demo_ul) demo_family"
    using sup0 by (auto simp: serves_user_def demo_user_env_def user_at_def same_vars_def same_mem_def store_def demo_family_def)
  moreover have "a \<notin> range demo_ul" if "a < 0xBFFFFF00" for a
    using that by (auto simp: demo_ul_def split: user_var.splits)
  ultimately show ?thesis using demo_literals
    by (simp add: hosts_def demo_lv_def exccode_documented_def demo_hw_def)
qed

lemma demo_user_at: "user_at demo_family demo_user" "bytes demo_user = demo_bytes"
  "at_user_call (zero_state\<lparr>cause := 32, status := 8\<rparr>)"
  by (simp_all add: demo_user_def user_at_def demo_family_def demo_world_def demo_supports_def at_user_call_def zero_state_def)

section \<open>The clock\<close>

lemma asks_time:
  assumes h: "hosts E hw lv ul lit B n F"
    and t: "\<And>w v w'. E (RECEIVEMESSAGE, 0, ul x) w = Some (v, w') \<Longrightarrow> mem (nuc w') (ul x) = t"
    and T: "x \<in> {V_time1, V_time2}" "x \<notin> fst ` set T" "fst ` set T \<subseteq> {V_time1, V_time2}"
  shows "asks E hw lv (range ul) F
    (\<lambda>w. holds ul B T w \<and> ssi_payloads (nuc w) (ul V_tod_payload) = Some \<lparr>service_code = GET_TOD, arg = 0\<rparr>) (ask_time ul x) [(GET_TOD, [])]
    (\<lambda>_ w. holds ul B ((x, t) # T) w \<and> ssi_payloads (nuc w) (ul V_tod_payload) = Some \<lparr>service_code = GET_TOD, arg = 0\<rparr>)"
proof -
  let ?A = "asks E hw lv (range ul) F"
  let ?p = "\<lambda>w. ssi_payloads (nuc w) (ul V_tod_payload) = Some \<lparr>service_code = GET_TOD, arg = 0\<rparr>"
  note d = hostsD [OF h]
  have "ul V_tod_payload \<notin> ul ` fst ` set T" "ul x \<notin> ul ` fst ` set T"
    using inj_image_mem_iff [OF d(5), of V_tod_payload "fst ` set T"] inj_image_mem_iff [OF d(5), of x "fst ` set T"] T(2,3) by blast+
  moreover have "ul ` fst ` set T \<subseteq> range ul" by (rule image_mono) simp
  ultimately have sub: "ul ` fst ` set T \<subseteq> range ul - {ul V_tod_payload}" "ul ` fst ` set T \<subseteq> range ul - {ul x}" by blast+
  have snd: "?A (\<lambda>w. holds ul B T w \<and> ?p w) (SYSCALL SENDMSG PARENT (ul V_tod_payload)) [(GET_TOD, [])] (\<lambda>_ w. holds ul B T w \<and> ?p w)"
  proof (rule asks_send [OF d(1-4)])
    show "holds ul B T w' \<and> ?p w'" if "holds ul B T w \<and> ?p w" "same_vars (range ul) w w'" "same_mem (range ul - {ul V_tod_payload}) w w'" for w w'
      using holds_same [OF conjunct1 [OF that(1)] that(2) same_mem_mono [OF sub(1) that(3)]] that(1,2) by (simp add: same_vars_def)
  qed (auto simp: asked_def request_ok_def)
  have rcv: "?A (\<lambda>w. holds ul B T w \<and> ?p w) (SYSCALL RECEIVEMSG PARENT (ul x)) [] (\<lambda>_ w. holds ul B ((x, t) # T) w \<and> ?p w)"
  proof (rule asks_receive [OF d(1-4)])
    show "holds ul B ((x, t) # T) w' \<and> ?p w'"
      if "holds ul B T w \<and> ?p w" "E (RECEIVEMESSAGE, 0, ul x) w1 = Some (r, w2)" "mem (nuc w') = mem (nuc w2)"
        "same_vars (range ul) w w'" "same_mem (range ul - {ul x}) w w'" for r w w1 w2 w'
      using holds_same [OF conjunct1 [OF that(1)] that(4) same_mem_mono [OF sub(2) that(5)]] t [OF that(2)] that(1,3,4)
      by (simp add: same_vars_def holds_def)
  qed
  from asks_seq [OF snd asks_seq [OF rcv asks_ret]] show ?thesis by (simp add: ask_time_def)
qed

text \<open>The clock test asks for the time twice and reports success exactly when the second reply is larger
  than the first, as unsigned words.\<close>

theorem tod_verdict_asked:
  assumes h: "hosts E hw lv ul lit B n F" and w: "user_at F w" "at_user_call st" "bytes w = B"
    and t1: "\<And>w v w'. E (RECEIVEMESSAGE, 0, ul V_time1) w = Some (v, w') \<Longrightarrow> mem (nuc w') (ul V_time1) = t1"
    and t2: "\<And>w v w'. E (RECEIVEMESSAGE, 0, ul V_time2) w = Some (v, w') \<Longrightarrow> mem (nuc w') (ul V_time2) = t2"
  shows "\<exists>st' w'. run (in_user_mode hw lv (main_todTest n ul lit) st) E w = (Done ((), st'), w') \<and>
    requests (parent_of F) (calls (in_user_mode hw lv (main_todTest n ul lit) st) E w) =
      map with_newline [(WRITETERMINAL, ''TOD Test starts''), (WRITETERMINAL, ''TOD Test concluded'')] @ [(GET_TOD, []), (GET_TOD, [])] @
      map with_newline [(WRITETERMINAL, if t1 < t2 then ''TOD Test Concluded Successfully'' else ''ERROR: TOD not correct'')] @ [(TERMINATE, [])]"
proof -
  let ?A = "asks E hw lv (range ul) F" and ?T = "[(V_time2, t2), (V_time1, t1)]"
  let ?p = "\<lambda>w. ssi_payloads (nuc w) (ul V_tod_payload) = Some \<lparr>service_code = GET_TOD, arg = 0\<rparr>"
  have t: "s @ [CHR 0x0A] \<in> set texts" if "s \<in> {''TOD Test starts'', ''TOD Test concluded'', tod_verdict t1 t2}" for s
    using that by (cases "t1 < t2") (auto simp: texts_def tod_verdict_def)
  have pl: "?A (holds ul B []) (put_payload (ul V_tod_payload) GET_TOD 0) [] (\<lambda>_ w. holds ul B [] w \<and> ?p w)"
    by (rule asks_put_payload) (simp add: holds_def)
  have time: "?A (\<lambda>w. holds ul B [] w \<and> ?p w) (ask_time ul V_time1) [(GET_TOD, [])] (\<lambda>_ w. holds ul B [(V_time1, t1)] w \<and> ?p w)"
    "?A (\<lambda>w. holds ul B [(V_time1, t1)] w \<and> ?p w) (ask_time ul V_time2) [(GET_TOD, [])] (\<lambda>_ w. holds ul B ?T w \<and> ?p w)"
    by (rule asks_time [OF h t1] asks_time [OF h t2]; simp)+
  have r1: "?A (\<lambda>w. holds ul B ?T w \<and> ?p w) (reads (\<lambda>w. Some (mem (nuc w) (ul V_time1)))) [] (\<lambda>v w. v = t1 \<and> holds ul B ?T w)"
    and r2: "?A (\<lambda>w. v = t1 \<and> holds ul B ?T w) (reads (\<lambda>w. Some (mem (nuc w) (ul V_time2)))) [] (\<lambda>v2 w. v = t1 \<and> v2 = t2 \<and> holds ul B ?T w)" for v
    by (rule asks_reads; simp add: holds_def)+
  have v: "?A (\<lambda>w. v1 = t1 \<and> v2 = t2 \<and> holds ul B ?T w) (say n ul lit WRITETERMINAL (tod_verdict v1 v2))
      [(WRITETERMINAL, tod_verdict t1 t2 @ [CHR 0x0A])] (\<lambda>_ _. True)" for v1 v2
  proof (cases "v1 = t1 \<and> v2 = t2")
    case True
    have "?A (holds ul B ?T) (say n ul lit WRITETERMINAL (tod_verdict t1 t2)) [(WRITETERMINAL, tod_verdict t1 t2 @ [CHR 0x0A])] (\<lambda>_. holds ul B ?T)"
      by (rule asks_say [OF h t]) simp_all
    then show ?thesis using True unfolding asks_def by metis
  qed (auto simp: asks_def)
  have "?A (holds ul B []) (main_todTest n ul lit) ([(WRITETERMINAL, ''TOD Test starts'' @ [CHR 0x0A])] @ [(WRITETERMINAL, ''TOD Test concluded'' @ [CHR 0x0A])] @
      [] @ [(GET_TOD, [])] @ [(GET_TOD, [])] @ [] @ [] @ [(WRITETERMINAL, tod_verdict t1 t2 @ [CHR 0x0A])] @ [(TERMINATE, [])]) (\<lambda>_ _. True)"
    unfolding main_todTest_def
    by (rule asks_seq [OF asks_say [OF h t] asks_seq [OF asks_say [OF h t] asks_seq [OF pl asks_seq [OF time(1) asks_seq [OF time(2)
      asks_seq [OF r1 asks_seq [OF r2 asks_seq [OF v asks_terminate [OF h]]]]]]]]]) simp_all
  moreover have "at_user_call st \<and> user_at F w \<and> holds ul B [] w" using w by (simp add: holds_def)
  ultimately have "\<exists>v st' w'. run (in_user_mode hw lv (main_todTest n ul lit) st) E w = (Done (v, st'), w') \<and>
      requests (parent_of F) (calls (in_user_mode hw lv (main_todTest n ul lit) st) E w) = [(WRITETERMINAL, ''TOD Test starts'' @ [CHR 0x0A])] @
        [(WRITETERMINAL, ''TOD Test concluded'' @ [CHR 0x0A])] @ [] @ [(GET_TOD, [])] @ [(GET_TOD, [])] @ [] @ [] @
        [(WRITETERMINAL, tod_verdict t1 t2 @ [CHR 0x0A])] @ [(TERMINATE, [])]"
    unfolding asks_def by metis
  then show ?thesis by (simp add: with_newline_def tod_verdict_def)
qed

theorem tod_verdict_asked_witness:
  "\<exists>st' w'. run (in_user_mode demo_hw demo_lv (main_todTest 40 demo_ul demo_lit) (zero_state\<lparr>cause := 32, status := 8\<rparr>)) (demo_user_env 70 90) demo_user =
      (Done ((), st'), w') \<and>
    requests (parent_of demo_family) (calls (in_user_mode demo_hw demo_lv (main_todTest 40 demo_ul demo_lit) (zero_state\<lparr>cause := 32, status := 8\<rparr>)) (demo_user_env 70 90) demo_user) =
      map with_newline [(WRITETERMINAL, ''TOD Test starts''), (WRITETERMINAL, ''TOD Test concluded'')] @ [(GET_TOD, []), (GET_TOD, [])] @
      map with_newline [(WRITETERMINAL, ''TOD Test Concluded Successfully'')] @ [(TERMINATE, [])]"
proof -
  have "mem (nuc w') (demo_ul V_time1) = 70" if "demo_user_env 70 90 (RECEIVEMESSAGE, 0, demo_ul V_time1) w = Some (v, w')" for w v w'
    using that by (auto simp: demo_user_env_def demo_ul_def store_def)
  moreover have "mem (nuc w') (demo_ul V_time2) = 90" if "demo_user_env 70 90 (RECEIVEMESSAGE, 0, demo_ul V_time2) w = Some (v, w')" for w v w'
    using that by (auto simp: demo_user_env_def demo_ul_def store_def)
  ultimately have "\<exists>st' w'. run (in_user_mode demo_hw demo_lv (main_todTest 40 demo_ul demo_lit) (zero_state\<lparr>cause := 32, status := 8\<rparr>)) (demo_user_env 70 90) demo_user =
      (Done ((), st'), w') \<and>
    requests (parent_of demo_family) (calls (in_user_mode demo_hw demo_lv (main_todTest 40 demo_ul demo_lit) (zero_state\<lparr>cause := 32, status := 8\<rparr>)) (demo_user_env 70 90) demo_user) =
      map with_newline [(WRITETERMINAL, ''TOD Test starts''), (WRITETERMINAL, ''TOD Test concluded'')] @ [(GET_TOD, []), (GET_TOD, [])] @
      map with_newline [(WRITETERMINAL, if (70::u32) < 90 then ''TOD Test Concluded Successfully'' else ''ERROR: TOD not correct'')] @ [(TERMINATE, [])]"
    by (rule tod_verdict_asked [OF demo_hosts demo_user_at(1,3,2)])
  then show ?thesis by simp
qed

end
