(* ===== verification/Print_Props.thy ===== *)
theory Print_Props
  imports Testers_Props
begin

text \<open>
  From a user program to the paper: what the printer and the terminal of a user process show when the service
  thread and the device process serve its requests.
\<close>

section \<open>Programs that leave something alone\<close>

primrec maintains :: "(world \<Rightarrow> 'b) \<Rightarrow> 'a prog \<Rightarrow> bool" where
  "maintains f (Ret a) \<longleftrightarrow> True"
| "maintains f (Act g) \<longleftrightarrow> (\<forall>w. case map_option (map_prod (maintains f) (\<lambda>w. w)) (g w) of None \<Rightarrow> True | Some (b, w') \<Rightarrow> b \<and> f w' = f w)"
| "maintains f (Syscall a b c k) \<longleftrightarrow> (\<forall>v. maintains f (k v))"
| "maintains f (Jump c) \<longleftrightarrow> True"

lemma maintains_ActD: "maintains f (Act g) \<Longrightarrow> g w = Some (q, w') \<Longrightarrow> maintains f q \<and> f w' = f w"
  by (auto dest: spec [of _ w])

lemma maintains_seq: "maintains f q \<Longrightarrow> (\<And>a. maintains f (k a)) \<Longrightarrow> maintains f (seq q k)"
proof (induction q)
  case (Act g)
  have "maintains f (seq q k) \<and> f w' = f w" if "g w = Some (q, w')" for w q w'
    using Act.IH [OF rangeI [of g w], of "(q, w')" q] maintains_ActD [OF Act.prems(1) that] Act.prems(2)
    by (auto simp: that intro: fsts.intros)
  then show ?case by (auto split: option.split)
qed auto

lemma maintains_simps [simp]: "maintains f (reads g)" "maintains f (SYSCALL a b c)"
  by (auto simp: reads_def SYSCALL_def split: option.split)

lemma maintains_on_nuc: "(\<And>w s. h (nuc w) = Some s \<Longrightarrow> f (w\<lparr>nuc := s\<rparr>) = f w) \<Longrightarrow> maintains f (on_nuc h)"
  by (auto simp: on_nuc_def writes_def split: option.split)

lemma maintains_calls:
  assumes "leaves f E"
  shows "maintains f q \<Longrightarrow> c \<in> set (calls q E w) \<Longrightarrow> f (snd c) = f w"
proof (induction q arbitrary: w)
  case (Act g)
  obtain q w' where g: "g w = Some (q, w')" and c: "c \<in> set (calls q E w')" using Act.prems(2) by (cases "g w") auto
  have "f (snd c) = f w'"
    by (rule Act.IH [OF rangeI [of g w], of "(q, w')"]) (use g c maintains_ActD [OF Act.prems(1) g] in \<open>auto intro: fsts.intros\<close>)
  then show ?case using maintains_ActD [OF Act.prems(1) g] by simp
next
  case (Syscall x y z k)
  show ?case
  proof (cases "E (x, y, z) w")
    case (Some r)
    obtain v w' where r: "r = (v, w')" by fastforce
    have "f (snd c) = f w'" if "c \<in> set (calls (k v) E w')"
      by (rule Syscall.IH [OF rangeI [of k v]]) (use Syscall.prems(1) that in auto)
    then show ?thesis using Syscall.prems(2) leavesD [OF assms Some [unfolded r]] by (auto simp: Some r)
  qed (use Syscall.prems(2) in auto)
qed auto

lemma printDevice_maintains: "maintains (\<lambda>w. ssi_pcb (nuc w)) (printDevice n lv asid devType)"
proof -
  let ?f = "\<lambda>w. ssi_pcb (nuc w)"
  have ask: "maintains ?f (ask_ssi p a)" for p a by (simp add: ask_ssi_def maintains_seq)
  have put: "maintains ?f (put_payload p c a)" for p c a unfolding put_payload_def by (rule maintains_on_nuc) auto
  have ch: "maintains ?f (print_char lv asid devType c)" for c
    unfolding print_char_def by (intro maintains_seq maintains_on_nuc put ask) (auto simp: store_def)
  have "maintains ?f (print_string n lv asid devType p)" for p
    by (induction n arbitrary: p) (auto intro!: maintains_seq ch)
  then show ?thesis by (simp add: printDevice_def maintains_seq)
qed

lemma maintains_writes: "(\<And>w w'. h w = Some w' \<Longrightarrow> f w' = f w) \<Longrightarrow> maintains f (writes h)"
  by (auto simp: writes_def split: option.split)

lemma maintains_for_each: "(\<And>x. maintains f (q x)) \<Longrightarrow> maintains f (for_each xs q)"
  by (induction xs) (auto intro: maintains_seq)

lemma SST_round_maintains: "maintains (\<lambda>w. ssi_pcb (nuc w)) (SST_round lv spt)"
proof -
  let ?f = "\<lambda>w. ssi_pcb (nuc w)"
  have kill: "maintains ?f (sendKillReq lv p)" for p
    unfolding sendKillReq_def ask_ssi_def put_payload_def by (intro maintains_seq maintains_on_nuc) auto
  have rel: "maintains ?f (writes (release_frame a i))" for a i
    by (rule maintains_writes) (auto simp: release_frame_def split: bind_splits if_splits)
  have wr: "maintains ?f (write_to sel k p)" for sel k p unfolding write_to_def by (intro maintains_seq) simp_all
  have clock: "maintains ?f read_clock" by (simp add: read_clock_def getTOD_def split: prod.split)
  have trm: "maintains ?f (terminate lv k)" for k
    unfolding terminate_def by (intro maintains_seq maintains_for_each rel kill) simp_all
  have "maintains ?f (SSTRequest lv s c a k)" for s c a k
    unfolding SSTRequest_def writePrinter_def writeTerminal_def
    by (simp add: clock) (intro conjI impI maintains_seq trm wr; simp)
  then show ?thesis unfolding SST_round_def by (intro maintains_seq) simp_all
qed

section \<open>Calls of a program\<close>

text \<open>Environments that agree on the calls a program makes lead to the same calls.\<close>

lemma calls_agree: "\<forall>c \<in> set (calls q E w). E' (fst c) (snd c) = E (fst c) (snd c) \<Longrightarrow> calls q E' w = calls q E w"
proof (induction q arbitrary: w)
  case (Act g)
  show ?case
  proof (cases "g w")
    case (Some r)
    obtain q w' where r: "r = (q, w')" by fastforce
    have "calls q E' w' = calls q E w'"
      by (rule Act.IH [OF rangeI [of g w], of "(q, w')" q]) (use Act.prems in \<open>auto simp: Some r intro: fsts.intros\<close>)
    then show ?thesis by (simp add: Some r)
  qed simp
next
  case (Syscall a b c k)
  have e: "E' (a, b, c) w = E (a, b, c) w" using Syscall.prems by simp
  show ?case
  proof (cases "E (a, b, c) w")
    case (Some r)
    obtain v w' where r: "r = (v, w')" by fastforce
    have "calls (k v) E' w' = calls (k v) E w'"
      by (rule Syscall.IH [OF rangeI [of k v]]) (use Syscall.prems in \<open>auto simp: Some r\<close>)
    then show ?thesis by (simp add: e Some r)
  qed (simp add: e)
qed simp_all

lemma calls_seq_all:
  assumes "\<forall>c \<in> set (calls q E w). P c" "\<And>a w'. run q E w = (Done a, w') \<Longrightarrow> \<forall>c \<in> set (calls (k a) E w'). P c"
  shows "\<forall>c \<in> set (calls (seq q k) E w). P c"
proof -
  obtain r w' where r: "run q E w = (r, w')" by fastforce
  show ?thesis
  proof (cases r)
    case (Done a)
    then have "\<forall>c \<in> set (calls (k a) E w'). P c" using assms(2) r by blast
    then show ?thesis using assms(1) r Done by (simp add: calls_seq ball_Un)
  qed (use assms(1) r in \<open>simp_all add: calls_seq\<close>)
qed

lemma calls_small [simp]: "calls (reads f) E w = []" "calls (writes g) E w = []" "calls (on_nuc h) E w = []"
  by (auto simp: reads_def writes_def on_nuc_def split: option.split)

lemma calls_silent_loop: "calls (for_each xs (\<lambda>x. writes (g x))) E w = []"
  by (induction xs arbitrary: w) (auto simp: calls_seq split: prod.splits outcome.splits option.splits)

lemma run_seq_Done: "run (seq q k) E w = (Done a, w') \<Longrightarrow> \<exists>b w1. run q E w = (Done b, w1) \<and> run (k b) E w1 = (Done a, w')"
  by (auto simp: run_seq split: prod.splits outcome.splits)

text \<open>The end of an address space does not come back to the thread, and until then its messages go to the test
  process and the SSI.\<close>

lemma sends_kill: "\<forall>c \<in> set (calls (sendKillReq lv p) E w). fst (fst c) = SENDMESSAGE \<longrightarrow> fst (snd (fst c)) = ssi_pcb (nuc (snd c))"
  by (auto simp: sendKillReq_def ask_ssi_def put_payload_def calls_seq split: prod.splits outcome.splits option.splits)

lemma terminate_calls:
  assumes kills: "kills_caller lv E"
  shows "\<forall>c \<in> set (calls (terminate lv k) E w). fst (fst c) = SENDMESSAGE \<longrightarrow> fst (snd (fst c)) \<in> {testPcb w, ssi_pcb (nuc (snd c))}"
    and "run (terminate lv k) E w \<noteq> (Done a, w')"
proof -
  let ?P = "\<lambda>c. fst (fst c) = SENDMESSAGE \<longrightarrow> fst (snd (fst c)) \<in> {testPcb w, ssi_pcb (nuc (snd c))}"
  have kill: "\<forall>c \<in> set (calls (sendKillReq lv p) E w'). ?P c" for p w' using sends_kill [of lv p E w'] by auto
  have same: "testPcb w' = testPcb w" if "run (for_each xs (\<lambda>i. writes (release_frame a i))) E w = (Done (), w')" for a xs w w'
    using that
  proof (induction xs arbitrary: w)
    case (Cons i xs)
    obtain w1 where "release_frame a i w = Some w1" "run (for_each xs (\<lambda>i. writes (release_frame a i))) E w1 = (Done (), w')"
      using run_seq_Done [of "writes (release_frame a i)"] Cons.prems by (fastforce split: option.splits)
    moreover have "testPcb w1 = testPcb w" using calculation(1) by (auto simp: release_frame_def split: bind_splits if_splits)
    ultimately show ?case using Cons.IH by simp
  qed simp
  have last: "\<forall>c \<in> set (calls (seq (reads (\<lambda>w. nth_opt (terminalPcbs w) k)) (\<lambda>p. seq (sendKillReq lv p) (\<lambda>_. sendKillReq lv NULL))) E v). ?P c" for v
    by (rule calls_seq_all, simp, rule calls_seq_all [OF kill], rule kill)
  have mid: "\<forall>c \<in> set (calls (seq (reads (\<lambda>w. nth_opt (printerPcbs w) k)) (\<lambda>p. seq (sendKillReq lv p) (\<lambda>_.
      seq (reads (\<lambda>w. nth_opt (terminalPcbs w) k)) (\<lambda>p. seq (sendKillReq lv p) (\<lambda>_. sendKillReq lv NULL))))) E v). ?P c" for v
    by (rule calls_seq_all, simp, rule calls_seq_all [OF kill], rule last)
  have tell: "\<forall>c \<in> set (calls (SYSCALL SENDMESSAGE (testPcb w) 0) E v). ?P c" for v
    by (simp add: SYSCALL_def split: option.split)
  show "\<forall>c \<in> set (calls (terminate lv k) E w). ?P c"
    unfolding terminate_def
  proof (rule calls_seq_all)
    fix u w1 assume "run (for_each [0..<POOLSIZE] (\<lambda>i. writes (release_frame (word_of_int k) i))) E w = (Done u, w1)"
    then have t: "testPcb w1 = testPcb w" using same by (cases u) blast
    show "\<forall>c \<in> set (calls (seq (reads (\<lambda>w. Some (testPcb w))) (\<lambda>t. seq (SYSCALL SENDMESSAGE t 0) (\<lambda>_.
       seq (reads (\<lambda>w. nth_opt (printerPcbs w) k)) (\<lambda>p. seq (sendKillReq lv p) (\<lambda>_.
       seq (reads (\<lambda>w. nth_opt (terminalPcbs w) k)) (\<lambda>p. seq (sendKillReq lv p) (\<lambda>_. sendKillReq lv NULL))))))) E w1). ?P c"
    proof (rule calls_seq_all)
      fix t w2 assume "run (reads (\<lambda>w. Some (testPcb w))) E w1 = (Done t, w2)"
      then have "t = testPcb w" using t by simp
      then show "\<forall>c \<in> set (calls (seq (SYSCALL SENDMESSAGE t 0) (\<lambda>_.
         seq (reads (\<lambda>w. nth_opt (printerPcbs w) k)) (\<lambda>p. seq (sendKillReq lv p) (\<lambda>_.
         seq (reads (\<lambda>w. nth_opt (terminalPcbs w) k)) (\<lambda>p. seq (sendKillReq lv p) (\<lambda>_. sendKillReq lv NULL)))))) E w2). ?P c"
        using calls_seq_all [OF tell mid] by simp
    qed simp
  qed (simp add: calls_silent_loop)
  show "run (terminate lv k) E w \<noteq> (Done a, w')"
  proof
    assume "run (terminate lv k) E w = (Done a, w')"
    then obtain w1 where "run (sendKillReq lv NULL) E w1 = (Done a, w')"
      unfolding terminate_def by (blast dest!: run_seq_Done)
    then show False using run_suicide [OF kills, of w1] by auto
  qed
qed

section \<open>The servers\<close>

text \<open>A server whose \<^verbatim>\<open>SYSCALL(RECEIVEMESSAGE, ANYMESSAGE, ...)\<close> gets the message \<open>m\<close>; its other
  calls are answered by \<open>D\<close>.\<close>

definition message_env :: "env \<Rightarrow> u32 \<Rightarrow> ptr \<Rightarrow> env" where
  "message_env D m sender c w = (case c of (a, b, p) \<Rightarrow>
     if a = RECEIVEMESSAGE \<and> b = ANYMESSAGE then Some (sender, w\<lparr>nuc := store p m (nuc w)\<rparr>) else D (a, b, p) w)"

lemma message_env_answers: "answers D \<Longrightarrow> answers (message_env D m sender)"
  by (auto simp: answers_def message_env_def)

lemma message_env_leaves:
  "leaves f D \<Longrightarrow> (\<And>w p. f (w\<lparr>nuc := store p m (nuc w)\<rparr>) = f w) \<Longrightarrow> leaves f (message_env D m sender)"
  unfolding leaves_def message_env_def by (auto split: if_splits)

text \<open>The same for a service thread: its request for its own end, by the variable \<open>payload\<close> of
  \<^verbatim>\<open>sendKillReq\<close>, does not return.\<close>

definition thread_env :: "locals \<Rightarrow> env \<Rightarrow> u32 \<Rightarrow> ptr \<Rightarrow> env" where
  "thread_env lv D m sender c w = (case c of (a, b, p) \<Rightarrow>
     if a = SENDMESSAGE \<and> b = ssi_pcb (nuc w) \<and> p = lv V_kill_payload \<and> suicide lv w then None
     else message_env D m sender (a, b, p) w)"

lemma thread_env_kills: "kills_caller lv (thread_env lv D m sender)"
  by (simp add: kills_caller_def thread_env_def)

lemma thread_env_leaves: "leaves f (message_env D m sender) \<Longrightarrow> leaves f (thread_env lv D m sender)"
  by (auto simp: leaves_def thread_env_def split: if_splits)

definition sent_to :: "ptr \<Rightarrow> call list \<Rightarrow> (u32 \<times> world) list" where
  "sent_to d cs = List.map_filter (\<lambda>((a, b, m), w). if a = SENDMESSAGE \<and> b = d then Some (m, w) else None) cs"

lemma sent_to_none: "(\<And>c. c \<in> set cs \<Longrightarrow> fst (fst c) = SENDMESSAGE \<Longrightarrow> fst (snd (fst c)) \<noteq> d) \<Longrightarrow> sent_to d cs = []"
proof (induction cs)
  case (Cons c cs)
  obtain a b m w where c: "c = ((a, b, m), w)" by (metis surj_pair)
  have "\<not> (a = SENDMESSAGE \<and> b = d)" using Cons.prems [of c] by (auto simp: c)
  moreover have "sent_to d cs = []" by (rule Cons.IH) (rule Cons.prems; simp)
  ultimately show ?case by (auto simp: sent_to_def map_filter_simps c)
qed (simp add: sent_to_def map_filter_simps)

definition device_of :: "family \<Rightarrow> u32 \<Rightarrow> ptr" where
  "device_of F devType = (if devType = IL_PRINTER then printers_of F else terminals_of F) ! asid_index F"

text \<open>What the device shows for a call of the user process: the service thread has a turn with the request,
  and the device process has one with each message the service thread sends it.\<close>

definition shown :: "u32 \<Rightarrow> nat \<Rightarrow> locals \<Rightarrow> locals \<Rightarrow> env \<Rightarrow> family \<Rightarrow> call \<Rightarrow> string" where
  "shown devType n lvS lvD D F cl = (case cl of ((a, b, pl), w) \<Rightarrow>
     concat (map (\<lambda>(m, w'). device_text devType (int (asid_index F))
         (calls (printDevice n lvD (int (asid_index F)) devType) (message_env D m (parent_of F)) w'))
       (sent_to (device_of F devType) (calls (SST_round lvS (sup_of F)) (thread_env lvS D pl (proc_of F)) w))))"

definition family_ok :: "family \<Rightarrow> bool" where
  "family_ok F \<longleftrightarrow> asid_index F < 8 \<and> length (printers_of F) = 8 \<and> length (terminals_of F) = 8 \<and> parent_of F \<noteq> ssi_of F \<and>
     distinct [proc_of F, device_of F IL_PRINTER, device_of F IL_TERMINAL, ssi_of F]"

lemma device_of_in: "family_ok F \<Longrightarrow> device_of F d \<in> set (printers_of F) \<union> set (terminals_of F)"
  by (auto simp: family_ok_def device_of_def)

text \<open>Device processes and service threads leave strings, devices and the SSI where they are.\<close>

definition quiet :: "env \<Rightarrow> bool" where
  "quiet D \<longleftrightarrow> answers D \<and> leaves bytes D \<and> leaves (\<lambda>w. (printerPcbs w, terminalPcbs w)) D \<and> leaves (\<lambda>w. ssi_pcb (nuc w)) D"

lemma device_round:
  assumes D: "quiet D" and dev: "devType = IL_PRINTER \<or> devType = IL_TERMINAL" and q: "q \<noteq> ssi_pcb (nuc w)"
    and s: "string_at (bytes w) str s" "length s \<le> n"
  shows "device_text devType k (calls (printDevice n lv k devType) (message_env D str q) w) = s"
proof -
  let ?E = "message_env D str q"
  have E: "answers ?E" "leaves bytes ?E" "leaves (\<lambda>w. ssi_pcb (nuc w)) ?E"
    using D by (simp_all add: quiet_def message_env_answers message_env_leaves store_def)
  have r: "?E (RECEIVEMESSAGE, ANYMESSAGE, lv V_print_msg) w = Some (q, w\<lparr>nuc := store (lv V_print_msg) str (nuc w)\<rparr>)"
    by (simp add: message_env_def)
  have "mem (nuc (w\<lparr>nuc := store (lv V_print_msg) str (nuc w)\<rparr>)) (lv V_print_msg) = str" by (simp add: store_def)
  with s have t: "string_at (bytes w) (mem (nuc (w\<lparr>nuc := store (lv V_print_msg) str (nuc w)\<rparr>)) (lv V_print_msg)) s" by simp
  from device_prints [where lv = lv and w = w and asid = k, OF E(1,2) dev r t s(2)] obtain w2 cs where
    c: "calls (printDevice n lv k devType) ?E w = ((RECEIVEMESSAGE, ANYMESSAGE, lv V_print_msg), w) # cs @ [((SENDMESSAGE, q, 0), w2)]"
    "device_text devType k cs = s" by blast
  have "ssi_pcb (nuc w2) = ssi_pcb (nuc w)"
    using maintains_calls [OF E(3) printDevice_maintains, of "((SENDMESSAGE, q, 0), w2)" n lv k devType w] by (simp add: c(1))
  then have "printed devType k ((SENDMESSAGE, q, 0), w2) = None" using q by (simp add: printed_def request_of_def)
  moreover have "printed devType k ((RECEIVEMESSAGE, ANYMESSAGE, lv V_print_msg), w) = None" by (simp add: printed_def request_of_def)
  ultimately show ?thesis by (simp add: c)
qed

text \<open>A round with a request that is not to write sends nothing to a device process: the thread reads the
  clock and replies, or it frees the frames, tells the test process and asks the SSI to end the device
  processes and itself.  The \<^verbatim>\<open>writePrinter\<close> the case \<^verbatim>\<open>TERMINATE\<close> falls through
  to is not reached.\<close>

lemma other_round:
  assumes D: "quiet D" and F: "family_ok F" and u: "user_at F w" and x: "ssi_payloads (nuc w) pl = Some x"
    and code: "service_code x \<noteq> WRITEPRINTER" "service_code x \<noteq> WRITETERMINAL"
  shows "sent_to (device_of F devType) (calls (SST_round lvS (sup_of F)) (thread_env lvS D pl (proc_of F)) w) = []"
proof -
  let ?E = "thread_env lvS D pl (proc_of F)" and ?k = "asid_index F"
  let ?w = "w\<lparr>nuc := store (lvS V_sst_payload) pl (nuc w)\<rparr>"
  have l: "leaves (\<lambda>w. ssi_pcb (nuc w)) ?E"
    using D by (intro thread_env_leaves message_env_leaves) (simp_all add: quiet_def store_def)
  have rc: "?E (RECEIVEMESSAGE, ANYMESSAGE, lvS V_sst_payload) w = Some (proc_of F, ?w)" by (simp add: thread_env_def message_env_def)
  have pl: "ssi_payloads (nuc ?w) (mem (nuc ?w) (lvS V_sst_payload)) = Some x" using x by (simp add: store_def)
  obtain v where v: "supports (nuc ?w) (sup_of F) = Some v" "sup_asid v = of_nat (?k + 1)" using u by (auto simp: user_at_def store_def)
  have as: "asid_of (sup_of F) ?w = Some (sint (sup_asid v))" using v(1) by (simp add: asid_of_def)
  define t where "t = testPcb w"
  have no: "\<forall>c \<in> set (calls (SST_round lvS (sup_of F)) ?E w). fst (fst c) = SENDMESSAGE \<longrightarrow>
      fst (snd (fst c)) \<in> {t, proc_of F, ssi_pcb (nuc (snd c))}"
  proof -
    let ?q = "SSTRequest lvS (proc_of F) (service_code x) (arg x) (sint (sup_asid v) - 1)"
    have c: "calls (SST_round lvS (sup_of F)) ?E w = ((RECEIVEMESSAGE, ANYMESSAGE, lvS V_sst_payload), w) #
        calls (seq ?q (\<lambda>result. seq (SYSCALL SENDMESSAGE (proc_of F) result) (\<lambda>_. Ret ()))) ?E ?w"
      using rc pl as by (simp add: SST_round_def SYSCALL_def run_seq calls_seq)
    have "\<forall>c \<in> set (calls (seq ?q (\<lambda>result. seq (SYSCALL SENDMESSAGE (proc_of F) result) (\<lambda>_. Ret ()))) ?E ?w).
        fst (fst c) = SENDMESSAGE \<longrightarrow> fst (snd (fst c)) \<in> {t, proc_of F, ssi_pcb (nuc (snd c))}"
    proof (rule calls_seq_all)
      show "\<forall>c \<in> set (calls ?q ?E ?w). fst (fst c) = SENDMESSAGE \<longrightarrow> fst (snd (fst c)) \<in> {t, proc_of F, ssi_pcb (nuc (snd c))}"
      proof (cases "service_code x = GET_TOD")
        case True
        then show ?thesis by (simp add: SSTRequest_def read_clock_def split: prod.split)
      next
        case False
        have trm: "\<forall>c \<in> set (calls (terminate lvS (sint (sup_asid v) - 1)) ?E ?w). fst (fst c) = SENDMESSAGE \<longrightarrow>
            fst (snd (fst c)) \<in> {t, proc_of F, ssi_pcb (nuc (snd c))}"
          using terminate_calls(1) [OF thread_env_kills, of lvS "sint (sup_asid v) - 1" D pl "proc_of F" ?w] by (auto simp: t_def)
        have "\<forall>c \<in> set (calls (seq (terminate lvS (sint (sup_asid v) - 1)) k) ?E ?w). fst (fst c) = SENDMESSAGE \<longrightarrow>
            fst (snd (fst c)) \<in> {t, proc_of F, ssi_pcb (nuc (snd c))}" for k :: "unit \<Rightarrow> u32 prog"
          by (rule calls_seq_all [OF trm]) (use terminate_calls(2) [OF thread_env_kills] in blast)
        then show ?thesis using False code by (auto simp: SSTRequest_def)
      qed
    qed (auto simp: SYSCALL_def split: option.splits)
    then show ?thesis unfolding c by simp
  qed
  have "fst (snd (fst c)) \<noteq> device_of F devType"
    if h: "c \<in> set (calls (SST_round lvS (sup_of F)) ?E w)" "fst (fst c) = SENDMESSAGE" for c
  proof -
    have "fst (snd (fst c)) \<in> {t, proc_of F, ssi_pcb (nuc (snd c))}" using no h by blast
    moreover have "ssi_pcb (nuc (snd c)) = ssi_of F"
      using maintains_calls [OF l SST_round_maintains h(1)] u by (simp add: user_at_def)
    moreover have "t \<noteq> device_of F devType" using device_of_in [OF F, of devType] u by (auto simp: user_at_def t_def)
    moreover have "proc_of F \<noteq> device_of F devType" "ssi_of F \<noteq> device_of F devType"
      using F by (auto simp: family_ok_def device_of_def split: if_splits)
    ultimately show ?thesis by auto
  qed
  then show ?thesis by (intro sent_to_none) blast
qed

lemma shown_request:
  assumes D: "quiet D" and F: "family_ok F" and c: "call_ok F ((a, b, pl), w)" and dev: "devType = IL_PRINTER \<or> devType = IL_TERMINAL"
    and r: "asked b ((a, b, pl), w) = Some (code, s)" and n: "40 \<le> n"
  shows "shown devType n lvS lvD D F ((a, b, pl), w) =
    (if code = (if devType = IL_PRINTER then WRITEPRINTER else WRITETERMINAL) then s else [])"
proof -
  obtain x where x: "ssi_payloads (nuc w) pl = Some x" "service_code x = code"
    using r by (cases "ssi_payloads (nuc w) pl") (auto simp: asked_def split: if_splits)
  show ?thesis
  proof (cases "code = WRITEPRINTER \<or> code = WRITETERMINAL")
    case True
    let ?E = "message_env D pl (proc_of F)" and ?k = "asid_index F"
    let ?w = "w\<lparr>nuc := store (lvS V_sst_payload) pl (nuc w)\<rparr>"
    have s: "s = text_of w (arg x)" using r x True by (auto simp: asked_def split: if_splits)
    have u: "user_at F w" using c by (simp add: call_ok_def)
    obtain q where q: "sst_prints w (arg x) = Some q" "string_at (bytes w) (string_of q) s" "length s \<le> 40"
      using c x True by (auto simp: call_ok_def request_ok_def s)
    have E: "answers ?E" "leaves (\<lambda>w. (printerPcbs w, terminalPcbs w)) ?E" "leaves (\<lambda>w. ssi_pcb (nuc w)) ?E"
      using D by (simp_all add: quiet_def message_env_answers message_env_leaves store_def)
    have rc: "?E (RECEIVEMESSAGE, ANYMESSAGE, lvS V_sst_payload) w = Some (proc_of F, ?w)" by (simp add: message_env_def)
    have pl: "ssi_payloads (nuc ?w) (mem (nuc ?w) (lvS V_sst_payload)) = Some \<lparr>service_code = code, arg = arg x\<rparr>"
      using x by (simp add: store_def)
    obtain v where v: "supports (nuc ?w) (sup_of F) = Some v" "sup_asid v = of_nat (?k + 1)" using u by (auto simp: user_at_def store_def)
    have f: "?k < 8" "length (printerPcbs w) = 8" "length (terminalPcbs w) = 8" "sst_prints ?w (arg x) = Some q"
      using u F q(1) by (simp_all add: user_at_def family_ok_def)
    define to where "to = (if code = WRITEPRINTER then printerPcbs w else terminalPcbs w) ! ?k"
    from write_round [where lv = lvS and w = w and ?w1.0 = ?w and u = v and pr = q and k = "?k", OF E(1,2) True rc pl v f(1-4) to_def] obtain w2 w3 where
      cs: "calls (SST_round lvS (sup_of F)) ?E w = [((RECEIVEMESSAGE, ANYMESSAGE, lvS V_sst_payload), w), ((SENDMESSAGE, to, string_of q), ?w),
        ((RECEIVEMESSAGE, to, 0), w2), ((SENDMESSAGE, proc_of F, ON), w3)]" by blast
    have to: "to = device_of F (if code = WRITEPRINTER then IL_PRINTER else IL_TERMINAL)"
      using u by (simp add: to_def device_of_def user_at_def)
    have d: "device_of F IL_PRINTER \<noteq> device_of F IL_TERMINAL" "device_of F devType \<noteq> proc_of F" using F dev by (auto simp: family_ok_def)
    have agree: "calls (SST_round lvS (sup_of F)) (thread_env lvS D pl (proc_of F)) w = calls (SST_round lvS (sup_of F)) ?E w"
    proof (rule calls_agree, rule ballI)
      fix c assume c': "c \<in> set (calls (SST_round lvS (sup_of F)) ?E w)"
      then have "ssi_pcb (nuc (snd c)) = ssi_of F"
        using maintains_calls [OF E(3) SST_round_maintains c'] u by (simp add: user_at_def)
      then show "thread_env lvS D pl (proc_of F) (fst c) (snd c) = ?E (fst c) (snd c)"
        using c' F to by (auto simp: cs thread_env_def family_ok_def)
    qed
  have "sent_to (device_of F devType) (calls (SST_round lvS (sup_of F)) ?E w) = (if to = device_of F devType then [(string_of q, ?w)] else [])"
      using d(2) by (auto simp: cs sent_to_def map_filter_simps)
    moreover have "device_text devType (int ?k) (calls (printDevice n lvD (int ?k) devType) (message_env D (string_of q) (parent_of F)) ?w) = s"
    proof (rule device_round [OF D dev])
      show "parent_of F \<noteq> ssi_pcb (nuc ?w)" using u F by (auto simp: user_at_def family_ok_def store_def)
      show "string_at (bytes ?w) (string_of q) s" "length s \<le> n" using q(2,3) n by simp_all
    qed
    moreover have "to = device_of F devType \<longleftrightarrow> code = (if devType = IL_PRINTER then WRITEPRINTER else WRITETERMINAL)"
      using True dev d(1) to by auto
    ultimately show ?thesis using True by (simp add: shown_def agree)
  next
    case False
    let ?E = "thread_env lvS D pl (proc_of F)"
    have u: "user_at F w" using c by (simp add: call_ok_def)
    have "sent_to (device_of F devType) (calls (SST_round lvS (sup_of F)) ?E w) = []"
      by (rule other_round [OF D F u x(1)]) (use False x(2) in auto)
    then show ?thesis using False dev by (auto simp: shown_def)
  qed
qed

text \<open>What a list of calls shows, and what a list of requests says.\<close>

definition texts_for :: "u32 \<Rightarrow> (u32 \<times> string) list \<Rightarrow> string" where
  "texts_for code rs = concat (map snd (filter (\<lambda>r. fst r = code) rs))"

lemma shown_requests:
  assumes D: "quiet D" and F: "family_ok F" and dev: "devType = IL_PRINTER \<or> devType = IL_TERMINAL" and n: "40 \<le> n"
  shows "list_all (call_ok F) cs \<Longrightarrow> list_all (to_parent q) cs \<Longrightarrow>
    concat (map (shown devType n lvS lvD D F) cs) =
    texts_for (if devType = IL_PRINTER then WRITEPRINTER else WRITETERMINAL) (List.map_filter (asked q) cs)"
proof (induction cs)
  case (Cons c cs)
  obtain a b pl w where c: "c = ((a, b, pl), w)" by (metis surj_pair)
  have ab: "a = SENDMESSAGE" "b = q" using Cons.prems(2) by (simp_all add: c to_parent_def)
  obtain x where "ssi_payloads (nuc w) pl = Some x" using Cons.prems(1) by (auto simp: c call_ok_def request_ok_def)
  then obtain code s where r: "asked q c = Some (code, s)" by (auto simp: c asked_def ab)
  have "shown devType n lvS lvD D F c = (if code = (if devType = IL_PRINTER then WRITEPRINTER else WRITETERMINAL) then s else [])"
    unfolding c using Cons.prems(1) r ab by (intro shown_request [OF D F _ dev _ n]) (simp_all add: c)
  then show ?case using Cons r by (simp add: texts_for_def map_filter_simps)
qed (simp add: texts_for_def map_filter_simps)

text \<open>C29.  Run by a user process, its calls passed up by the nucleus to the exception handler of the support level
  and made there, each of the terminal, printer and Fibonacci programs asks its service thread to write
  its lines, in order, and then to end it; the Fibonacci programs report success.  When the service
  thread and the device processes serve these requests, the terminal and the printer of the process show exactly
  the lines meant for them; the request to end, on which the thread asks for its own end and never returns, shows
  nothing.\<close>

theorem programs_shown:
  assumes "hosts E hw lv ul lit B n F" "user_at F w" "at_user_call st" "bytes w = B" "(q, rs) \<in> set (programs n ul lit)"
    and "quiet D" "family_ok F" "devType = IL_PRINTER \<or> devType = IL_TERMINAL" "40 \<le> m"
  shows "\<exists>st' w'. run (in_user_mode hw lv q st) E w = (Done ((), st'), w') \<and>
    requests (parent_of F) (calls (in_user_mode hw lv q st) E w) = map with_newline rs @ [(TERMINATE, [])] \<and>
    concat (map (shown devType m lvS lvD D F) (parent_calls (parent_of F) (calls (in_user_mode hw lv q st) E w))) =
      texts_for (if devType = IL_PRINTER then WRITEPRINTER else WRITETERMINAL) (map with_newline rs)"
proof -
  let ?cs = "parent_calls (parent_of F) (calls (in_user_mode hw lv q st) E w)"
  have "holds ul B [] w" using assms(4) by (simp add: holds_def)
  then obtain v st' w' where r: "run (in_user_mode hw lv q st) E w = (Done (v, st'), w')"
    "requests (parent_of F) (calls (in_user_mode hw lv q st) E w) = map with_newline rs @ [(TERMINATE, [])]" "list_all (call_ok F) ?cs"
    by (rule asksE [OF programs_asks [OF assms(1,5)] assms(3,2)])
  have "list_all (to_parent (parent_of F)) ?cs" by (auto simp: parent_calls_def list_all_iff)
  from shown_requests [OF assms(6-9) r(3) this]
  have "concat (map (shown devType m lvS lvD D F) ?cs) =
      texts_for (if devType = IL_PRINTER then WRITEPRINTER else WRITETERMINAL) (map with_newline rs @ [(TERMINATE, [])])"
    using r(2) by (simp add: requests_def)
  also have "\<dots> = texts_for (if devType = IL_PRINTER then WRITEPRINTER else WRITETERMINAL) (map with_newline rs)"
    by (simp add: texts_for_def)
  finally show ?thesis using r(1,2) by auto
qed

text \<open>The second address space, its service thread at \<^verbatim>\<open>0x20010100\<close>, runs the printer test.\<close>

theorem programs_shown_witness:
  "concat (map (shown IL_PRINTER 40 demo_lv demo_lv (\<lambda>c w. Some (READY, w)) demo_family) (parent_calls (parent_of demo_family)
      (calls (in_user_mode demo_hw demo_lv (main_printerTest 40 demo_ul demo_lit) (zero_state\<lparr>cause := 32, status := 8\<rparr>))
        (demo_user_env 1 2) demo_user))) = ''printTest is ok'' @ [CHR 0x0A]"
proof -
  have q: "(main_printerTest 40 demo_ul demo_lit, [(WRITETERMINAL, ''printTest is ok''), (WRITEPRINTER, ''printTest is ok'')])
      \<in> set (programs 40 demo_ul demo_lit)" by (simp add: programs_def)
  have d: "quiet (\<lambda>c w. Some (READY, w))" by (simp add: quiet_def answers_def leaves_def)
  have f: "family_ok demo_family" by (simp add: family_ok_def demo_family_def device_of_def)
  from programs_shown [where lvS = demo_lv and lvD = demo_lv, OF demo_hosts demo_user_at(1,3,2) q d f disjI1 [OF refl] order_refl [of "40"]]
  show ?thesis by (auto simp: texts_for_def with_newline_def)
qed

end
