(* ===== verification/Mailboxes.thy ===== *)
theory Mailboxes
  imports Rendezvous
begin

text \<open>
  An abstract kernel: a process on the processor, a queue of ready ones, a list of letters for each process and
  a stock of blank ones, with the processes that are alive and their pids; its steps, one rule for each kind of event.
  Then what the nucleus shows of itself as such a kernel, and that \<^verbatim>\<open>send\<close> and \<^verbatim>\<open>recv\<close> do to
  the rings of its memory what the abstract operations do to the lists.
\<close>

section \<open>The abstract kernel\<close>

record mailboxes =
  on_cpu :: ptr
  queued :: "ptr list"
  letters :: "ptr \<Rightarrow> (ptr \<times> u32) list"
  blanks :: nat

definition mailbox_send :: "(ptr \<Rightarrow> bool) \<Rightarrow> ptr \<Rightarrow> u32 \<Rightarrow> mailboxes \<Rightarrow> u32 \<times> mailboxes" where
  "mailbox_send alive d v k =
     (if blanks k = 0 then (MSGNOGOOD, k)
      else if \<not> alive d then (DEST_NOT_EXIST, k\<lparr>blanks := blanks k - 1\<rparr>)
      else (0, k\<lparr>queued := queued k @ (if d = on_cpu k \<or> d \<in> set (queued k) then [] else [d]),
        letters := (letters k)(d := letters k d @ [(on_cpu k, v)]), blanks := blanks k - 1\<rparr>))"

text \<open>The processor goes to the next ready process, or to nobody.\<close>

definition next_on_cpu :: "mailboxes \<Rightarrow> mailboxes" where
  "next_on_cpu k = (case queued k of [] \<Rightarrow> k\<lparr>on_cpu := NULL\<rparr> | q # qs \<Rightarrow> k\<lparr>on_cpu := q, queued := qs\<rparr>)"

definition mailbox_recv :: "(ptr \<Rightarrow> bool) \<Rightarrow> mailboxes \<Rightarrow> (ptr \<times> u32) option \<times> mailboxes" where
  "mailbox_recv from k = (case List.extract (from \<circ> fst) (letters k (on_cpu k)) of
     Some (ls, l, ms) \<Rightarrow> (Some l, k\<lparr>letters := (letters k)(on_cpu k := ls @ ms), blanks := blanks k + 1\<rparr>)
   | None \<Rightarrow> (None, next_on_cpu k))"

definition mailbox_slice :: "mailboxes \<Rightarrow> mailboxes" where
  "mailbox_slice k = next_on_cpu (k\<lparr>queued := queued k @ [on_cpu k]\<rparr>)"

text \<open>An interrupt: each process named is woken with a letter from \<open>f\<close>.\<close>

definition mailbox_wake :: "ptr \<Rightarrow> (ptr \<times> u32) list \<Rightarrow> mailboxes \<Rightarrow> mailboxes" where
  "mailbox_wake f ls k = k\<lparr>queued := queued k @ map fst ls,
     letters := (\<lambda>q. letters k q @ map (\<lambda>l. (f, snd l)) (filter (\<lambda>l. fst l = q) ls)), blanks := blanks k - length ls\<rparr>"

text \<open>The processes of \<open>D\<close> are gone.  Their letters go with them: the stock does not get them back.\<close>

definition mailbox_end :: "ptr set \<Rightarrow> mailboxes \<Rightarrow> mailboxes" where
  "mailbox_end D k = k\<lparr>letters := (\<lambda>q. if q \<in> D then [] else letters k q)\<rparr>"

section \<open>Its steps\<close>

text \<open>What can be seen of a step of the nucleus: a message sent, with the result of the call; a message received, with whom
  the receiver asked for, the sender, and the payload when it was stored; a receiver that waits for that; the end of a time slice; an interrupt with the processes it wakes,
  the payloads they get and whether the processor was idle; a process created with its pid; one that waits for a device or
  the clock; a set of processes ended by a service, or with the running one by an exception; and work that changes
  none of this.\<close>

datatype kernel_event =
    Sends ptr ptr u32 u32
  | Gets ptr ptr ptr "u32 option"
  | Waits ptr ptr
  | Slice
  | Wakes ptr "(ptr \<times> u32) list" bool
  | Creates ptr u32
  | Blocks ptr
  | Ends "ptr set"
  | Dies "ptr set"
  | Works

record post_office =
  boxes :: mailboxes
  alive :: "ptr \<Rightarrow> bool"
  pids :: "ptr \<Rightarrow> u32 option"

inductive office_step :: "post_office \<Rightarrow> kernel_event \<Rightarrow> post_office \<Rightarrow> bool" where
  o_sends: "mailbox_send (alive k) d v (boxes k) = (r, b) \<Longrightarrow> office_step k (Sends (on_cpu (boxes k)) d v r) (k\<lparr>boxes := b\<rparr>)"
| o_gets: "mailbox_recv (\<lambda>t. c = ANYMESSAGE \<or> pids k t = pids k c) (boxes k) = (Some (t, v), b) \<Longrightarrow> x = None \<or> x = Some v \<Longrightarrow>
    office_step k (Gets (on_cpu (boxes k)) c t x) (k\<lparr>boxes := b\<rparr>)"
| o_waits: "mailbox_recv (\<lambda>t. c = ANYMESSAGE \<or> pids k t = pids k c) (boxes k) = (None, b) \<Longrightarrow>
    office_step k (Waits (on_cpu (boxes k)) c) (k\<lparr>boxes := b\<rparr>)"
| o_slice: "office_step k Slice (k\<lparr>boxes := mailbox_slice (boxes k)\<rparr>)"
| o_wakes: "length ls \<le> blanks (boxes k) \<Longrightarrow> on_cpu (boxes k) \<noteq> NULL \<Longrightarrow>
    office_step k (Wakes f ls False) (k\<lparr>boxes := mailbox_wake f ls (boxes k)\<rparr>)"
| o_rouses: "length ls \<le> blanks (boxes k) \<Longrightarrow> on_cpu (boxes k) = NULL \<Longrightarrow>
    office_step k (Wakes f ls True) (k\<lparr>boxes := next_on_cpu (mailbox_wake f ls (boxes k))\<rparr>)"
| o_creates: "\<not> alive k p \<Longrightarrow> office_step k (Creates p i)
    (k\<lparr>boxes := (boxes k)\<lparr>queued := queued (boxes k) @ [p]\<rparr>, alive := (alive k)(p := True), pids := (pids k)(p := Some i)\<rparr>)"
| o_blocks: "p \<noteq> on_cpu (boxes k) \<Longrightarrow> office_step k (Blocks p) (k\<lparr>boxes := (boxes k)\<lparr>queued := remove1 p (queued (boxes k))\<rparr>\<rparr>)"
| o_ends: "on_cpu (boxes k) = NULL \<or> on_cpu (boxes k) \<notin> D \<Longrightarrow>
    office_step k (Ends D) (k\<lparr>boxes := mailbox_end D (boxes k), alive := (\<lambda>q. alive k q \<and> q \<notin> D)\<rparr>)"
| o_dies: "on_cpu (boxes k) \<in> D \<Longrightarrow>
    office_step k (Dies D) (k\<lparr>boxes := next_on_cpu (mailbox_end D (boxes k)), alive := (\<lambda>q. alive k q \<and> q \<notin> D)\<rparr>)"
| o_works: "office_step k Works k"

section \<open>The view of the nucleus\<close>

fun owner :: "lh \<Rightarrow> ptr" where
  "owner (P_LIST p) = p"
| "owner _ = NULL"

fun letter :: "sys \<Rightarrow> lh \<Rightarrow> ptr \<times> u32" where
  "letter s (M_LIST m) = (m_sender (the (msgs s m)), m_payload (the (msgs s m)))"
| "letter s _ = (NULL, 0)"

definition view :: "sys \<Rightarrow> mailboxes" where
  "view s = \<lparr>on_cpu = current_process s, queued = map owner (queue s readyQueue),
     letters = (\<lambda>p. if allocated s p then map (letter s) (queue s (MSG_INBOX p)) else []),
     blanks = length (queue s msgFree_h)\<rparr>"

definition pid_of :: "sys \<Rightarrow> ptr \<Rightarrow> u32 option" where
  "pid_of s p = map_option p_pid (pcbs s p)"

definition office :: "sys \<Rightarrow> post_office" where
  "office s = \<lparr>boxes = view s, alive = allocated s, pids = pid_of s\<rparr>"

text \<open>Whose messages a receiver accepts.\<close>

definition is_from :: "sys \<Rightarrow> ptr \<Rightarrow> ptr \<Rightarrow> bool" where
  "is_from s b t \<longleftrightarrow> b = ANYMESSAGE \<or> map_option p_pid (pcbs s t) = map_option p_pid (pcbs s b)"

lemma map_owner [simp]: "map owner (map P_LIST ps) = ps"
  by (induction ps) simp_all

lemma owner_P_LIST [simp]: "owner \<circ> P_LIST = id"
  by (simp add: fun_eq_iff)

lemma allocated_cong:
  "lh_mem s' = lh_mem s \<Longrightarrow> dom (pcbs s') = dom (pcbs s) \<Longrightarrow> allocated s' p = allocated s p"
  using queue_cong [of s' s] by (auto simp: allocated_def domIff set_eq_iff)

lemma letter_cong: "msgs s' = msgs s \<Longrightarrow> letter s' = letter s"
proof
  fix x assume "msgs s' = msgs s"
  then show "letter s' x = letter s x" by (cases x) simp_all
qed

lemma view_cong:
  assumes "lh_mem s' = lh_mem s" "msgs s' = msgs s" "dom (pcbs s') = dom (pcbs s)" "current_process s' = current_process s"
  shows "view s' = view s"
  using queue_cong [OF assms(1)] letter_cong [OF assms(2)] allocated_cong [OF assms(1,3)] assms(4) by (simp add: view_def fun_eq_iff)

text \<open>What a system call returns in the saved state is not seen.\<close>

lemma office_cong:
  assumes "lh_mem s' = lh_mem s" "msgs s' = msgs s" "pcbs s' = pcbs s" "current_process s' = current_process s"
  shows "office s' = office s"
proof -
  have "view s' = view s" by (rule view_cong) (use assms in simp_all)
  moreover have "allocated s' = allocated s" by (rule ext, rule allocated_cong) (use assms in simp_all)
  ultimately show ?thesis by (simp add: office_def pid_of_def assms(3) fun_eq_iff)
qed

text \<open>A view from the facts about the lists.\<close>

lemma viewI:
  assumes "current_process s' = c" "map owner (queue s' readyQueue) = q" "length (queue s' msgFree_h) = n"
    and "\<And>p. allocated s' p \<Longrightarrow> map (letter s') (queue s' (MSG_INBOX p)) = l p" "\<And>p. \<not> allocated s' p \<Longrightarrow> l p = []"
  shows "view s' = \<lparr>on_cpu = c, queued = q, letters = l, blanks = n\<rparr>"
  using assms by (auto simp: view_def fun_eq_iff)

text \<open>No message is in two lists.\<close>

lemma free_message_apart:
  assumes ok: "nucleus_ok s" and m: "M_LIST m \<in> set (queue s msgFree_h)" and p: "allocated s p"
  shows "M_LIST m \<notin> set (queue s (MSG_INBOX p))"
proof
  assume i: "M_LIST m \<in> set (queue s (MSG_INBOX p))"
  from ok obtain A where inv: "kernel_inv s A" by (rule nucleus_okE)
  have q: "queues_ok (lh_mem s) A" using kernel_invD(1) [OF inv] by (simp add: represents_def)
  have "live_head s (MSG_INBOX p)" "live_head s msgFree_h" using p by (auto simp: live_head_def)
  then have "A (MSG_INBOX p) = Some (queue s (MSG_INBOX p))" "A msgFree_h = Some (queue s msgFree_h)"
    using live_head_queue [OF inv] by blast+
  from queues_ok_owner [OF q this i m] show False by simp
qed

lemma letters_upd:
  assumes "\<forall>x \<in> set xs. x \<noteq> M_LIST m" "msgs s' = (msgs s)(m := y)"
  shows "map (letter s') xs = map (letter s) xs"
proof (rule map_cong [OF refl])
  fix x assume "x \<in> set xs"
  then have "x \<noteq> M_LIST m" using assms(1) by blast
  then show "letter s' x = letter s x" using assms(2) by (cases x rule: lh.exhaust) auto
qed

lemma kept_allocated:
  assumes "kept Q s s'" "pcbFree_h \<notin> Q" "pcbs s' = pcbs s"
  shows "allocated s' p = allocated s p"
proof -
  have "queue s' pcbFree_h = queue s pcbFree_h" using assms(1,2) by (simp add: kept_def live_head_def proc_heads_def)
  then show ?thesis by (simp add: allocated_def assms(3))
qed

section \<open>send\<close>

lemma send_refines:
  assumes ok: "nucleus_ok s" and g: "send_guard d s"
  shows "\<exists>r s'. send (current_process s) d v s = Some (r, s') \<and> nucleus_ok s' \<and>
    (r, view s') = mailbox_send (allocated s) d v (view s) \<and>
    current_process s' = current_process s \<and> pcbs s' = pcbs s \<and> allocated s' = allocated s \<and> exception_state s' = exception_state s"
proof -
  from ok obtain A where inv: "kernel_inv s A" and ac: "forest A" and A: "proper A" by (rule nucleus_okE)
  obtain fs where fs: "inbox A msgFree_h fs" "queue s msgFree_h = map M_LIST fs" by (rule messages_of [OF inv])
  let ?c = "current_process s"
  show ?thesis
  proof (cases fs)
    case Nil
    have "send ?c d v s = Some (MSGNOGOOD, s)" by (rule send_no_message [where A = A, OF kernel_invD(1) [OF inv]]) (use fs Nil in simp)
    then show ?thesis using ok fs(2) Nil by (simp add: mailbox_send_def view_def)
  next
    case (Cons m ms)
    have m: "queue s msgFree_h = M_LIST m # map M_LIST ms" using fs(2) Cons by simp
    have apart: "M_LIST m \<notin> set (queue s (MSG_INBOX p))" if "allocated s p" for p
      by (rule free_message_apart [OF ok _ that]) (simp add: m)
    let ?y = "\<lparr>m_sender = ?c, m_payload = v\<rparr>"
    show ?thesis
    proof (cases "allocated s d")
      case False
      have "free A d" using False g allocated_iff [OF inv] by (auto simp: send_guard_def)
      from send_dead [where A = A and sndr = ?c and payload = v, OF inv _ this, of m ms] fs Cons obtain s' where
        s': "send ?c d v s = Some (DEST_NOT_EXIST, s')" "kernel_inv s' (A(msgFree_h \<mapsto> map M_LIST ms))"
        "s' = s\<lparr>lh_mem := lh_mem s', msgs := (msgs s)(m \<mapsto> ?y)\<rparr>" by auto
      have e: "pcbs s' = pcbs s" "msgs s' = (msgs s)(m \<mapsto> ?y)" "current_process s' = ?c" "exception_state s' = exception_state s"
        by (subst s'(3), simp)+
      have k: "kept {msgFree_h} s s'" by (rule keptI [OF inv s'(2)]) simp
      have al: "allocated s' = allocated s" using kept_allocated [OF k _ e(1)] by (auto simp: fun_eq_iff)
      have fq: "queue s' msgFree_h = map M_LIST ms" by (rule queue_eq [OF s'(2)]) simp
      have "nucleus_ok s'" using s'(2) forest_upd [OF _ ac, of msgFree_h] by (auto simp: nucleus_ok_def)
      moreover have "view s' = (view s)\<lparr>blanks := blanks (view s) - 1\<rparr>"
      proof -
        have q: "queue s' (MSG_INBOX p) = queue s (MSG_INBOX p)" if "allocated s p" for p using k that by (simp add: kept_def live_head_def)
        have l: "map (letter s') (queue s (MSG_INBOX p)) = map (letter s) (queue s (MSG_INBOX p))" if "allocated s p" for p
          by (rule letters_upd [OF _ e(2)]) (use apart [OF that] in auto)
        have "queue s' readyQueue = queue s readyQueue" using k by (simp add: kept_def live_head_def proc_heads_def)
        then show ?thesis using q l by (simp add: view_def al e fq m fun_eq_iff)
      qed
      ultimately show ?thesis using s'(1) e al False m by (simp add: mailbox_send_def view_def)
    next
      case True
      have w: "d = ?c \<or> ready s d \<or> \<not> linked s d" using g True m by (simp add: send_guard_def some_message_def)
      from send_delivers_full [where sndr = ?c and payload = v, OF ok m True w] obtain s' where
        s': "send ?c d v s = Some (0, s')" "nucleus_ok s'" "s' = s\<lparr>msgs := (msgs s)(m \<mapsto> ?y), lh_mem := lh_mem s'\<rparr>"
        "queue s' msgFree_h = map M_LIST ms" "queue s' (MSG_INBOX d) = queue s (MSG_INBOX d) @ [M_LIST m]"
        "queue s' readyQueue = queue s readyQueue @ (if d = ?c \<or> ready s d then [] else [P_LIST d])"
        "kept {msgFree_h, MSG_INBOX d, readyQueue} s s'" by blast
      have e: "pcbs s' = pcbs s" "msgs s' = (msgs s)(m \<mapsto> ?y)" "current_process s' = ?c" "exception_state s' = exception_state s"
        by (subst s'(3), simp)+
      have al: "allocated s' = allocated s" using kept_allocated [OF s'(7) _ e(1)] by (auto simp: fun_eq_iff)
      have l: "map (letter s') (queue s (MSG_INBOX p)) = map (letter s) (queue s (MSG_INBOX p))" if "allocated s p" for p
        by (rule letters_upd [OF _ e(2)]) (use apart [OF that] in auto)
      have q: "queue s' (MSG_INBOX p) = queue s (MSG_INBOX p)" if "allocated s p" "p \<noteq> d" for p
        using s'(7) that by (simp add: kept_def live_head_def)
      from procs_of [OF inv, of readyQueue] obtain rs where rs: "queue s readyQueue = map P_LIST rs" by auto
      have r: "ready s d \<longleftrightarrow> d \<in> set (map owner (queue s readyQueue))" by (auto simp: ready_def rs)
      have "view s' = \<lparr>on_cpu = ?c, queued = queued (view s) @ (if d = ?c \<or> d \<in> set (queued (view s)) then [] else [d]),
          letters = (letters (view s))(d := letters (view s) d @ [(?c, v)]), blanks = blanks (view s) - 1\<rparr>"
        by (rule viewI) (use True l q r s'(4-6) e in \<open>auto simp: view_def al m\<close>)
      then show ?thesis using s'(1,2) e al True m by (simp add: mailbox_send_def view_def)
    qed
  qed
qed

section \<open>recv\<close>

lemma extract_find:
  assumes "find Q xs = Some x" "distinct xs" "\<And>y. y \<in> set xs \<Longrightarrow> P (f y) = Q y"
  shows "\<exists>ys zs. List.extract P (map f xs) = Some (map f ys, f x, map f zs) \<and> xs = ys @ x # zs \<and> remove1 x xs = ys @ zs"
proof -
  have "\<exists>y \<in> set xs. Q y" using find_Some_split [OF assms(1)] by blast
  from split_list_first_prop [OF this] obtain ys z zs where z: "xs = ys @ z # zs" "Q z" "\<forall>y \<in> set ys. \<not> Q y" by blast
  then have "find Q xs = Some z" by (induction ys arbitrary: xs) simp_all
  with z assms(1) have s: "xs = ys @ x # zs" "Q x" "\<forall>y \<in> set ys. \<not> Q y" by simp_all
  then have "List.extract P (map f xs) = Some (map f ys, f x, map f zs)" using assms(3) by (auto simp: extract_Some_iff)
  moreover have "remove1 x xs = ys @ zs" using assms(2) s(1) by (simp add: remove1_append)
  ultimately show ?thesis using s(1) by blast
qed

lemma extract_find_None:
  "find Q xs = None \<Longrightarrow> (\<And>y. y \<in> set xs \<Longrightarrow> P (f y) = Q y) \<Longrightarrow> List.extract P (map f xs) = None"
  by (auto simp: extract_None_iff find_None_iff)

lemma idled_view: "view (idled c s) = (view s)\<lparr>on_cpu := NULL\<rparr>"
proof -
  have q: "queue (idled c s) = queue s" by (rule queue_cong) (simp add: idled_def)
  have "letter (idled c s) = letter s" by (rule letter_cong) (simp add: idled_def)
  moreover have "allocated (idled c s) p = allocated s p" for p unfolding allocated_def q by (simp add: idled_def)
  ultimately show ?thesis by (simp add: view_def q fun_eq_iff) (simp add: idled_def)
qed

lemma idled_processes: "allocated (idled c s) = allocated s" "pcbs (idled c s) = pcbs s"
  by (rule ext, rule allocated_cong; simp add: idled_def) (simp add: idled_def)

text \<open>The scheduler gives the processor to the next process.\<close>

lemma runs_next_view:
  assumes "runs_next s c s'"
  shows "view s' = next_on_cpu (view s)"
proof (cases "queue s readyQueue")
  case Nil
  then have "s' = idled c s" using assms by (simp add: runs_next_def)
  then show ?thesis using Nil by (simp add: idled_view next_on_cpu_def) (simp add: view_def Nil)
next
  case (Cons z zs)
  then obtain p x where p: "z = P_LIST p" "s' = dispatched p (lh_mem s') s" "queue s' readyQueue = zs" "kept {readyQueue} s s'"
    using assms by (auto simp: runs_next_def)
  have e: "pcbs s' = pcbs s" "msgs s' = msgs s" "current_process s' = p" by (subst p(2), simp add: dispatched_def)+
  have al: "allocated s' = allocated s" using kept_allocated [OF p(4) _ e(1)] by (auto simp: fun_eq_iff)
  have q: "queue s' msgFree_h = queue s msgFree_h" "\<And>r. allocated s r \<Longrightarrow> queue s' (MSG_INBOX r) = queue s (MSG_INBOX r)"
    using p(4) by (simp_all add: kept_def live_head_def)
  have "view s' = \<lparr>on_cpu = p, queued = map owner zs, letters = letters (view s), blanks = blanks (view s)\<rparr>"
    by (rule viewI) (use e p(3) q letter_cong [OF e(2)] in \<open>auto simp: view_def al\<close>)
  then show ?thesis by (simp add: next_on_cpu_def) (simp add: view_def Cons p(1))
qed

lemma runs_next_processes:
  assumes "runs_next s c s'"
  shows "pcbs s' = pcbs s" "allocated s' = allocated s"
proof -
  have "pcbs s' = pcbs s \<and> allocated s' = allocated s"
  proof (cases "queue s readyQueue")
    case Nil
    then have "s' = idled c s" using assms by (simp add: runs_next_def)
    then show ?thesis by (simp add: idled_processes)
  next
    case (Cons z zs)
    then obtain p where p: "s' = dispatched p (lh_mem s') s" "kept {readyQueue} s s'" using assms by (auto simp: runs_next_def)
    have "pcbs s' = pcbs s" by (subst p(1)) (simp add: dispatched_def)
    then show ?thesis using kept_allocated [OF p(2)] by (auto simp: fun_eq_iff)
  qed
  then show "pcbs s' = pcbs s" "allocated s' = allocated s" by simp_all
qed

lemma runs_next_office: "runs_next s c s' \<Longrightarrow> office s' = (office s)\<lparr>boxes := next_on_cpu (view s)\<rparr>"
  using runs_next_processes [of s c s'] runs_next_view [of s c s'] by (simp add: office_def pid_of_def fun_eq_iff)

lemma recv_refines:
  assumes ok: "nucleus_ok s" and g: "recv_guard b s"
  shows "\<exists>c s'. recv b a s = Some (c, s') \<and> nucleus_ok s' \<and> view s' = snd (mailbox_recv (is_from s b) (view s)) \<and>
    (\<forall>t v. fst (mailbox_recv (is_from s b) (view s)) = Some (t, v) \<longrightarrow> c = RETURN \<and> exception_state s' = exception_state (set_exc_reg reg_v0 t s) \<and>
      mem s' = (if a \<noteq> 0 then (mem s)(a := v) else mem s)) \<and>
    dom (pcbs s') = dom (pcbs s) \<and> (\<forall>p. map_option p_pid (pcbs s' p) = map_option p_pid (pcbs s p)) \<and> allocated s' = allocated s"
proof -
  obtain A x inb fs rs where r: "kernel_inv s A" "forest A" "proper A" "pcbs s (current_process s) = Some x"
    "inbox A (MSG_INBOX (current_process s)) inb" "caller_inbox s = map M_LIST inb" "receivable s b inb"
    "find (accepts s b) (caller_inbox s) = map_option M_LIST (selects s b inb)"
    "inbox A msgFree_h fs" "queue s msgFree_h = map M_LIST fs" "procs A readyQueue rs" "queue s readyQueue = map P_LIST rs"
    by (rule recv_setting [OF ok g])
  let ?c = "current_process s"
  have al: "allocated s ?c" using current_facts(1) [OF r(1)] g by (simp add: recv_guard_def)
  have ms: "\<exists>y. msgs s m = Some y" if "M_LIST m \<in> set (caller_inbox s)" for m
    using represents_node [OF kernel_invD(1) [OF r(1)] r(5), of "M_LIST m"] that r(6) by auto
  have d: "distinct (caller_inbox s)" using represents_dlist [OF kernel_invD(1) [OF r(1)] r(5)] r(6) by (simp add: dlist_def)
  have P: "(is_from s b \<circ> fst) (letter s z) = accepts s b z" if z: "z \<in> set (caller_inbox s)" for z
  proof -
    obtain m where m: "z = M_LIST m" using z r(6) by auto
    then obtain y where "msgs s m = Some y" using ms z by blast
    then show ?thesis by (simp add: m accepts_def is_from_def)
  qed
  have lt: "letters (view s) ?c = map (letter s) (caller_inbox s)" "on_cpu (view s) = ?c" using al by (simp_all add: view_def)
  show ?thesis
  proof (cases "selects s b inb")
    case (Some m)
    have f: "find (accepts s b) (caller_inbox s) = Some (M_LIST m)" using r(8) Some by simp
    then have "M_LIST m \<in> set (caller_inbox s)" using find_Some_split by (metis in_set_conv_decomp)
    then obtain y where y: "msgs s m = Some y" using ms by blast
    from recv_takes_first_full [where a = a, OF ok g f y] obtain s' where
      s': "recv b a s = Some (RETURN, s')" "nucleus_ok s'" "caller_inbox s' = remove1 (M_LIST m) (caller_inbox s)"
      "queue s' msgFree_h = queue s msgFree_h @ [M_LIST m]" "current_process s' = ?c" "pcbs s' = pcbs s"
      "kept {MSG_INBOX ?c, msgFree_h} s s'" "s' = received a y (lh_mem s') s"
      "mem s' = (if a \<noteq> 0 then (mem s)(a := m_payload y) else mem s)" by blast
    have e: "msgs s' = msgs s" "exception_state s' = exception_state (set_exc_reg reg_v0 (m_sender y) s)"
      by (subst s'(8), simp add: received_def Let_def store_def set_exc_reg_def)+
    from extract_find [where f = "letter s" and P = "is_from s b \<circ> fst", OF f d P] obtain ys zs where
      ex: "List.extract (is_from s b \<circ> fst) (letters (view s) ?c) = Some (map (letter s) ys, letter s (M_LIST m), map (letter s) zs)"
      "remove1 (M_LIST m) (caller_inbox s) = ys @ zs" unfolding lt(1) by blast
    have al': "allocated s' = allocated s" using kept_allocated [OF s'(7) _ s'(6)] by (auto simp: fun_eq_iff)
    have q: "queue s' (MSG_INBOX p) = queue s (MSG_INBOX p)" if "allocated s p" "p \<noteq> ?c" for p
      using s'(7) that by (simp add: kept_def live_head_def)
    have rq: "queue s' readyQueue = queue s readyQueue" using s'(7) by (simp add: kept_def live_head_def proc_heads_def)
    have "view s' = \<lparr>on_cpu = ?c, queued = queued (view s), letters = (letters (view s))(?c := map (letter s) ys @ map (letter s) zs),
        blanks = blanks (view s) + 1\<rparr>"
      by (rule viewI) (use al q rq s'(3-5) ex(2) letter_cong [OF e(1)] in \<open>auto simp: view_def al'\<close>)
    moreover have "letter s (M_LIST m) = (m_sender y, m_payload y)" using y by simp
    ultimately show ?thesis using s'(1,2,6,9) e(2) al' lt(2) ex(1) by (simp add: mailbox_recv_def)
  next
    case None
    have f: "find (accepts s b) (caller_inbox s) = None" using r(8) None by simp
    from recv_suspends_full [OF ok g f r(4), of a] obtain c s' where
      s': "recv b a s = Some (c, s')" "nucleus_ok s'" "runs_next (suspended x s) c s'" by blast
    let ?t = "suspended x s"
    have t: "view ?t = view s" by (rule view_cong) (use r(4) in \<open>auto simp: suspended_def split: if_splits\<close>)
    have pd: "map_option p_pid (pcbs ?t p) = map_option p_pid (pcbs s p)" for p using r(4) by (simp add: suspended_def)
    note ps = runs_next_processes [OF s'(3)]
    have dm: "dom (pcbs ?t) = dom (pcbs s)" using r(4) by (auto simp: suspended_def split: if_splits)
    have "allocated ?t p = allocated s p" for p by (rule allocated_cong [OF _ dm]) (simp add: suspended_def)
    then have "allocated s' = allocated s" using ps by (simp add: fun_eq_iff)
    moreover have "mailbox_recv (is_from s b) (view s) = (None, next_on_cpu (view s))"
      using extract_find_None [where f = "letter s" and P = "is_from s b \<circ> fst", OF f P] by (simp add: mailbox_recv_def lt)
    moreover have "view s' = next_on_cpu (view s)" using runs_next_view [OF s'(3)] by (simp add: t)
    ultimately show ?thesis using s'(1,2) ps pd dm by simp
  qed
qed

end
