(* ===== verification/Mail_Steps.thy ===== *)
theory Mail_Steps
  imports Mailboxes
begin

text \<open>
  Every step of the nucleus refines a step of the abstract kernel: the event an exception or a service amounts to is
  computed from the state before it (and from the result of a call), and the guarded handler does to the view
  what the rule for that event does.
\<close>

section \<open>The event of a step\<close>

text \<open>The processes that interrupt line \<open>n\<close> wakes, with the payloads of their messages: all that wait for the clock, or
  the first that waits for the device.\<close>

definition answers :: "nat \<Rightarrow> sys \<Rightarrow> (ptr \<times> u32) list" where
  "answers n s = (if n = 2 then map (\<lambda>x. (owner x, 0)) (queue s pseudoClockQueue)
     else let d = getDeviceNo (getDeviceBitmap (of_nat n) s) in case irq_target (of_nat n) d s of
       None \<Rightarrow> []
     | Some (q, st, cmd) \<Rightarrow> (case find (\<lambda>x. blockedOnDevice (the (pcbs s (owner x))) = d) (queue s q) of
         None \<Rightarrow> [] | Some x \<Rightarrow> [(owner x, mem s st)]))"

definition interrupt_event :: "sys \<Rightarrow> kernel_event" where
  "interrupt_event s = (case served s of None \<Rightarrow> Works
     | Some n \<Rightarrow> if n = 1 then Slice else Wakes (ssi_pcb s) (answers n s) (current_process s = NULL))"

definition pass_event :: "sys \<Rightarrow> kernel_event" where
  "pass_event s = (if p_supportStruct (the (pcbs s (current_process s))) = NULL
     then Dies {q. descendant s (current_process s) q} else Works)"

definition syscall_event :: "sys \<Rightarrow> sys \<Rightarrow> kernel_event" where
  "syscall_event s s' = (let c = current_process s; v0 = gpr (exception_state s') reg_v0; a = reg reg_a2 s in
     if bit (status (exception_state s)) 1 then pass_event s
     else if reg reg_a0 s = SENDMESSAGE then Sends c (reg reg_a1 s) a v0
     else if reg reg_a0 s = RECEIVEMESSAGE then
       if current_process s' = c then Gets c (reg reg_a1 s) v0 (if a \<noteq> 0 then Some (mem s' a) else None) else Waits c (reg reg_a1 s)
     else pass_event s)"

definition exception_event :: "sys \<Rightarrow> sys \<Rightarrow> kernel_event" where
  "exception_event s s' = (case exc_target (exc_code s) of To_Interrupts \<Rightarrow> interrupt_event s | To_TLB \<Rightarrow> pass_event s
     | To_Trap \<Rightarrow> pass_event s | To_Syscall \<Rightarrow> syscall_event s s' | To_Nothing \<Rightarrow> Works)"

definition service_event :: "ptr \<Rightarrow> u32 \<Rightarrow> u32 \<Rightarrow> sys \<Rightarrow> u32 \<Rightarrow> kernel_event" where
  "service_event sender srv a s r =
     (if srv = CREATEPROCESS then if queue s pcbFree_h = [] then Works else Creates r (next_pid s)
      else if srv = TERMPROCESS then Ends {q. descendant s (if a \<noteq> NULL then a else sender) q}
      else if srv = DOIO \<or> srv = CLOCKWAIT then Blocks sender
      else if srv \<in> {GETTIME, GETSUPPORTPTR, GETPROCESSID} then Works
      else Ends {q. descendant s sender q})"

text \<open>The steps of the nucleus with their events: those of \<open>nucleus_step\<close>, no more and no less.\<close>

inductive kernel_step :: "sys \<Rightarrow> kernel_event \<Rightarrow> sys \<Rightarrow> bool" where
  outside: "same_kernel s s' \<Longrightarrow> kernel_step s Works s'"
| exception: "exc_guard s \<Longrightarrow> exceptionHandler s = Some (c, s') \<Longrightarrow> kernel_step s (exception_event s s') s'"
| service: "ssi_guard sender srv a s \<Longrightarrow> SSIRequest sender srv a s = Some (r, s') \<Longrightarrow>
    kernel_step s (service_event sender srv a s r) s'"

inductive_cases kernel_stepE: "kernel_step s e s'"

lemma kernel_step_iff: "nucleus_step s s' \<longleftrightarrow> (\<exists>e. kernel_step s e s')"
  by (blast elim: nucleus_stepE kernel_stepE intro: nucleus_step.intros kernel_step.intros)

definition refines :: "sys \<Rightarrow> kernel_event \<Rightarrow> sys \<Rightarrow> bool" where
  "refines s e s' \<longleftrightarrow> nucleus_ok s' \<and> office_step (office s) e (office s')"

lemma office_simps [simp]: "boxes (office s) = view s" "alive (office s) = allocated s" "pids (office s) = pid_of s"
  by (simp_all add: office_def)

lemma on_cpu_view [simp]: "on_cpu (view s) = current_process s"
  by (simp add: view_def)

lemma refines_works: "nucleus_ok s' \<Longrightarrow> office s' = office s \<Longrightarrow> refines s Works s'"
  by (simp add: refines_def o_works)

section \<open>Calls\<close>

lemma returned_office [simp]: "office (returned r s) = office s" "office (advance_pc s) = office s"
  by (rule office_cong; simp add: returned_def advance_pc_def set_exc_reg_def)+

lemma send_refined:
  assumes ok: "nucleus_ok s" and g: "send_guard (reg reg_a1 s) s"
    and c: "\<not> bit (status (exception_state s)) 1" "reg reg_a0 s = SENDMESSAGE" and h: "syscallHandler s = Some (ctl, s')"
  shows "refines s (Sends (current_process s) (reg reg_a1 s) (reg reg_a2 s) (gpr (exception_state s') reg_v0)) s'"
proof -
  from send_refines [OF ok g, of "reg reg_a2 s"] obtain r s1 where
    s1: "send (current_process s) (reg reg_a1 s) (reg reg_a2 s) s = Some (r, s1)" "nucleus_ok s1"
    "(r, view s1) = mailbox_send (allocated s) (reg reg_a1 s) (reg reg_a2 s) (view s)" "pcbs s1 = pcbs s"
    "allocated s1 = allocated s" by blast
  have e: "s' = returned r s1" using h s1(1) by (simp add: syscallHandler_send [OF c])
  have v: "gpr (exception_state s') reg_v0 = r" by (simp add: e returned_def advance_pc_def set_exc_reg_def)
  have o: "office s' = (office s)\<lparr>boxes := view s1\<rparr>" using s1(4,5) by (simp add: e) (simp add: office_def pid_of_def fun_eq_iff)
  have "office_step (office s) (Sends (on_cpu (boxes (office s))) (reg reg_a1 s) (reg reg_a2 s) r) ((office s)\<lparr>boxes := view s1\<rparr>)"
    by (rule o_sends) (simp add: s1(3) [symmetric])
  then show ?thesis using nucleus_ok_exc(2) [OF s1(2)] by (simp add: refines_def o v) (simp add: e)
qed

text \<open>A receiver that is suspended does not keep the processor.\<close>

lemma next_not_current:
  assumes ok: "nucleus_ok s" and c: "current_process s \<noteq> NULL"
  shows "on_cpu (next_on_cpu (view s)) \<noteq> current_process s"
proof -
  from ok obtain A where inv: "kernel_inv s A" by (rule nucleus_okE)
  have "A readyQueue = Some (queue s readyQueue)" using live_head_queue [OF inv] by (simp add: live_head_def proc_heads_def)
  then have n: "P_LIST (current_process s) \<notin> set (queue s readyQueue)" using kernel_inv_current(2) [OF inv c] queue_of_nodes [of _ A readyQueue] by (auto simp: queue_of_def)
  obtain rs where rs: "queue s readyQueue = map P_LIST rs" by (rule procs_of [OF inv, of readyQueue]) (auto simp: proc_heads_def)
  then show ?thesis using n c by (auto simp: next_on_cpu_def view_def split: list.split)
qed

text \<open>The outcome of a receive tells whether the receiver keeps the processor.\<close>

lemma recv_keeps_cpu:
  assumes "nucleus_ok s" "recv_guard b s"
  shows "fst (mailbox_recv from (view s)) = None \<longleftrightarrow> on_cpu (snd (mailbox_recv from (view s))) \<noteq> current_process s"
  using next_not_current [OF assms(1)] assms(2)
  by (auto simp: mailbox_recv_def recv_guard_def view_def split: option.split)

lemma recv_refined:
  assumes ok: "nucleus_ok s" and g: "recv_guard (reg reg_a1 s) s"
    and c: "\<not> bit (status (exception_state s)) 1" "reg reg_a0 s = RECEIVEMESSAGE" and h: "syscallHandler s = Some (ctl, s')"
  shows "refines s (if current_process s' = current_process s then Gets (current_process s) (reg reg_a1 s) (gpr (exception_state s') reg_v0)
      (if reg reg_a2 s \<noteq> 0 then Some (mem s' (reg reg_a2 s)) else None) else Waits (current_process s) (reg reg_a1 s)) s'"
proof -
  let ?from = "\<lambda>t. reg reg_a1 s = ANYMESSAGE \<or> pid_of s t = pid_of s (reg reg_a1 s)" and ?a = "reg reg_a2 s"
  let ?r = "mailbox_recv ?from (view s)"
  have f: "is_from s (reg reg_a1 s) = ?from" by (simp add: is_from_def pid_of_def fun_eq_iff)
  from recv_refines [OF ok g, of ?a] obtain k s1 where
    s1: "recv (reg reg_a1 s) ?a s = Some (k, s1)" "nucleus_ok s1" "view s1 = snd ?r"
    "\<forall>t v. fst ?r = Some (t, v) \<longrightarrow> k = RETURN \<and> exception_state s1 = exception_state (set_exc_reg reg_v0 t s) \<and>
      mem s1 = (if ?a \<noteq> 0 then (mem s)(?a := v) else mem s)"
    "\<forall>p. map_option p_pid (pcbs s1 p) = map_option p_pid (pcbs s p)" "allocated s1 = allocated s" unfolding f by blast
  have s': "s' = (if k = RETURN then advance_pc s1 else s1)" using h s1(1) by (auto simp: syscallHandler_recv [OF c])
  then have o: "office s' = (office s)\<lparr>boxes := snd ?r\<rparr>" using s1(3,5,6) by simp (simp add: office_def pid_of_def fun_eq_iff)
  have ok': "nucleus_ok s'" using s' nucleus_ok_exc(3) [OF s1(2)] s1(2) by simp
  have cur: "current_process s' = on_cpu (snd ?r)" using arg_cong [where f = "\<lambda>k. on_cpu (boxes k)", OF o] by simp
  note keeps = recv_keeps_cpu [OF ok g, of ?from]
  show ?thesis
  proof (cases "fst ?r")
    case None
    have "office_step (office s) (Waits (on_cpu (boxes (office s))) (reg reg_a1 s)) ((office s)\<lparr>boxes := snd ?r\<rparr>)"
      by (rule o_waits) (simp add: prod_eq_iff None)
    then show ?thesis using ok' keeps None by (simp add: refines_def o cur)
  next
    case (Some tv)
    obtain t v where tv: "tv = (t, v)" by (cases tv)
    have e: "k = RETURN" "gpr (exception_state s') reg_v0 = t" "mem s' = (if ?a \<noteq> 0 then (mem s)(?a := v) else mem s)"
      using s1(4) Some by (simp_all add: tv s' advance_pc_def set_exc_reg_def)
    have "office_step (office s) (Gets (on_cpu (boxes (office s))) (reg reg_a1 s) t (if ?a \<noteq> 0 then Some (mem s' ?a) else None))
        ((office s)\<lparr>boxes := snd ?r\<rparr>)"
      by (rule o_gets [of _ _ t v]) (simp_all add: prod_eq_iff Some tv e(3))
    then show ?thesis using ok' keeps Some e(2) by (simp add: refines_def o cur)
  qed
qed

section \<open>Processes that are ended\<close>

text \<open>\<^verbatim>\<open>terminateProcess\<close> writes no message.\<close>

lemma out_any_msgs: "out_any qs p s = Some (b, s') \<Longrightarrow> msgs s' = msgs s"
  by (induction qs arbitrary: s) (auto simp: outProcQ_def on_lists_def Let_def split: if_splits bind_splits option.splits)

lemma blocked_msgs: "isPcbBlockedOnDevice p s = Some (b, s') \<Longrightarrow> msgs s' = msgs s"
  by (auto simp: isPcbBlockedOnDevice_def out_any_msgs split: if_splits bind_splits)

lemma tree_msgs:
  "removeChild p s = Some (c, s') \<Longrightarrow> msgs s' = msgs s" "outChild p s = Some (c, s') \<Longrightarrow> msgs s' = msgs s"
  "freePcb p s = Some s' \<Longrightarrow> msgs s' = msgs s"
  by (auto simp: removeChild_def outChild_def freePcb_def insertProcQ_def upd_pcb_def on_lists_def Let_def
      split: if_splits bind_splits option.splits lh.splits)

lemma terminateProcess_msgs: "terminateProcess p s = Some s' \<Longrightarrow> msgs s' = msgs s"
proof (rule terminateProcess.raw_induct [of "\<lambda>p s s'. msgs s' = msgs s"])
  fix rec p s s'
  assume ih: "\<And>p s s'. rec p s = Some s' \<Longrightarrow> msgs s' = msgs s"
    and h: "(if p = NULL then Some s
      else do {
        e \<leftarrow> emptyChild p s;
        if \<not> e then do { (c, s1) \<leftarrow> removeChild p s; s2 \<leftarrow> rec c s1; rec p s2 }
        else do {
          (b, s1) \<leftarrow> isPcbBlockedOnDevice p s;
          let s2 = (if b then s1\<lparr>softBlockCount := softBlockCount s1 - 1\<rparr> else s1);
          (_, s3) \<leftarrow> outChild p s2;
          s4 \<leftarrow> freePcb p s3;
          Some (s4\<lparr>processCount := processCount s4 - 1\<rparr>)
        }
      }) = Some s'"
  show "msgs s' = msgs s"
    using h by (auto simp: Let_def split: if_splits bind_splits dest!: ih tree_msgs blocked_msgs)
qed

lemma view_unfold:
  "on_cpu (view s) = current_process s" "queued (view s) = map owner (queue s readyQueue)"
  "letters (view s) p = (if allocated s p then map (letter s) (queue s (MSG_INBOX p)) else [])"
  "blanks (view s) = length (queue s msgFree_h)"
  by (simp_all add: view_def)

lemma mailboxes_eqI:
  "on_cpu k = on_cpu k' \<Longrightarrow> queued k = queued k' \<Longrightarrow> (\<And>p. letters k p = letters k' p) \<Longrightarrow> blanks k = blanks k' \<Longrightarrow> (k :: mailboxes) = k'"
  by (cases k; cases k') auto

lemma killed_office:
  assumes k: "killed p ds s s1" and m: "msgs s1 = msgs s"
  shows "office s1 = (office s)\<lparr>boxes := mailbox_end (set ds) (view s), alive := (\<lambda>q. allocated s q \<and> q \<notin> set ds)\<rparr>"
proof -
  note k' = k [unfolded killed_def]
  have f: "queue s1 pcbFree_h = queue s pcbFree_h @ map P_LIST ds" "queue s1 readyQueue = queue s readyQueue"
    "queue s1 msgFree_h = queue s msgFree_h" "current_process s1 = current_process s" using k' by blast+
  have pc: "pcbs s1 q = (if q \<in> set ds then map_option (\<lambda>x. x\<lparr>p_parent := NULL\<rparr>) (pcbs s q) else pcbs s q)" for q using k' by blast
  have i: "queue s1 (MSG_INBOX q) = queue s (MSG_INBOX q)" if "allocated s q" for q using k' that by blast
  have al: "allocated s1 q \<longleftrightarrow> allocated s q \<and> q \<notin> set ds" for q by (auto simp: allocated_def f(1) pc)
  have pd: "pid_of s1 = pid_of s" by (simp add: pid_of_def pc fun_eq_iff option.map_comp comp_def)
  have "view s1 = mailbox_end (set ds) (view s)"
    by (rule mailboxes_eqI) (auto simp: mailbox_end_def view_def al f i letter_cong [OF m])
  then show ?thesis by (simp add: office_def al pd fun_eq_iff)
qed

lemma terminate_refined:
  assumes ok: "nucleus_ok s" and g: "stop_guard p s" and h: "terminateProcess p s = Some s'"
  shows "refines s (Ends {q. descendant s p q}) s'"
proof -
  have g': "allocated s p" "stoppable s p" "current_process s = NULL \<or> current_process s = current_process s \<and>
      \<not> descendant s p (current_process s)" using g by (auto simp: stop_guard_def)
  from terminate_full [OF ok g'] h obtain ds where
    s': "nucleus_ok (s'\<lparr>current_process := current_process s\<rparr>)" "killed p ds s s'" by auto
  have "s'\<lparr>current_process := current_process s\<rparr> = s'" using s'(2) by (simp add: killed_def)
  moreover have ds: "set ds = {q. descendant s p q}" using s'(2) by (simp add: killed_def)
  moreover have "office_step (office s) (Ends (set ds))
      ((office s)\<lparr>boxes := mailbox_end (set ds) (boxes (office s)), alive := (\<lambda>q. alive (office s) q \<and> q \<notin> set ds)\<rparr>)"
    by (rule o_ends) (use g' ds in simp)
  ultimately show ?thesis using s'(1) killed_office [OF s'(2) terminateProcess_msgs [OF h]] by (simp add: refines_def)
qed

section \<open>Pass up or die\<close>

lemma pass_refined:
  assumes ok: "nucleus_ok s" and g: "pass_guard s" and h: "passUpOrDie k s = Some (c, s')"
  shows "refines s (pass_event s) s'"
proof -
  from ok obtain A where inv: "kernel_inv s A" by (rule nucleus_okE)
  have cur: "current_process s \<noteq> NULL" using g by (simp add: pass_guard_def)
  from current_facts [OF inv cur] obtain x where
    al: "allocated s (current_process s)" and x: "pcbs s (current_process s) = Some x" by blast
  have ok': "nucleus_ok s'" using passUpOrDie_works [OF ok g, of k] h by (auto simp: works_def)
  show ?thesis
  proof (cases "p_supportStruct x = NULL")
    case True
    have st: "stoppable s (current_process s)" using g x True by (simp add: pass_guard_def)
    from terminate_full [OF ok al st, of NULL] obtain ds s1 where
      s1: "terminateProcess (current_process s) s = Some s1" "nucleus_ok (s1\<lparr>current_process := NULL\<rparr>)"
      "killed (current_process s) ds s s1" by blast
    from scheduler_next [OF s1(2)] have r: "runs_next s1 c s'" using h s1(1) x True by (auto simp: passUpOrDie_def)
    have ds: "set ds = {q. descendant s (current_process s) q}" using s1(3) by (simp add: killed_def)
    then have "current_process s \<in> set ds" by (simp add: descendant.self)
    then have "office_step (office s) (Dies (set ds)) ((office s)\<lparr>boxes := next_on_cpu (mailbox_end (set ds) (boxes (office s))),
        alive := (\<lambda>q. alive (office s) q \<and> q \<notin> set ds)\<rparr>)" by (intro o_dies) simp
    moreover have e: "office s1 = (office s)\<lparr>boxes := mailbox_end (set ds) (view s), alive := (\<lambda>q. allocated s q \<and> q \<notin> set ds)\<rparr>"
      by (rule killed_office [OF s1(3) terminateProcess_msgs [OF s1(1)]])
    moreover have "view s1 = mailbox_end (set ds) (view s)" using arg_cong [where f = boxes, OF e] by simp
    moreover have "office s' = (office s)\<lparr>boxes := next_on_cpu (mailbox_end (set ds) (boxes (office s))),
        alive := (\<lambda>q. alive (office s) q \<and> q \<notin> set ds)\<rparr>"
      using runs_next_office [OF r] calculation(2,3) by (simp add: office_def)
    ultimately show ?thesis using ok' x True by (simp add: refines_def pass_event_def ds)
  next
    case False
    then obtain u where u: "supports s (p_supportStruct x) = Some u" using g x by (auto simp: pass_guard_def Let_def)
    have "s' = passed_up k (p_supportStruct x) u s" using passUpOrDie_up [OF x False u] h by simp
    then have "office s' = office s" by (intro office_cong) (simp_all add: passed_up_def)
    then show ?thesis using refines_works [OF ok'] False x by (simp add: pass_event_def)
  qed
qed

section \<open>Time slices\<close>

lemma slice_refined:
  assumes ok: "nucleus_ok s" and c: "current_process s \<noteq> NULL" and h: "PLTHandler s = Some (ctl, s')"
  shows "refines s Slice s'"
proof -
  from ok obtain A where inv: "kernel_inv s A" by (rule nucleus_okE)
  obtain x where x: "pcbs s (current_process s) = Some x" using current_facts(2) [OF inv c] by blast
  from time_slice_full [OF ok c x] h obtain t where
    t: "nucleus_ok s'" "runs_next t ctl s'" "queue t readyQueue = queue s readyQueue @ [P_LIST (current_process s)]"
    "kept {readyQueue} s t" "pcbs t = (pcbs s)(current_process s \<mapsto> x\<lparr>p_time := p_time x + (clock s (clock_reads s) - startTOD s)\<rparr>)"
    "msgs t = msgs s" by auto
  let ?k = "(view s)\<lparr>queued := queued (view s) @ [on_cpu (view s)]\<rparr>"
  have pf: "queue t pcbFree_h = queue s pcbFree_h" using t(4) by (simp add: kept_def live_head_def proc_heads_def)
  have al: "allocated t = allocated s" using x by (auto simp: allocated_def pf t(5) fun_eq_iff)
  have pd: "pid_of t = pid_of s" using x by (simp add: pid_of_def t(5) fun_eq_iff)
  have q: "queue t (MSG_INBOX p) = queue s (MSG_INBOX p)" if "allocated s p" for p using t(4) that by (simp add: kept_def live_head_def)
  have fq: "queue t msgFree_h = queue s msgFree_h" using t(4) by (simp add: kept_def live_head_def)
  have "next_on_cpu (view t) = next_on_cpu ?k"
    using q letter_cong [OF t(6)] by (simp add: next_on_cpu_def view_def t(3) fq al fun_eq_iff split: list.split)
  then have "office s' = (office s)\<lparr>boxes := mailbox_slice (boxes (office s))\<rparr>"
    using runs_next_office [OF t(2)] by (simp add: mailbox_slice_def) (simp add: office_def al pd)
  then show ?thesis using o_slice [of "office s"] t(1) by (simp add: refines_def)
qed

section \<open>Interrupts that wake\<close>

lemma masked_office [simp]: "office (masked s) = office s" "office (unmasked s) = office s"
  by (rule office_cong; simp add: masked_def unmasked_def)+

lemma unmasked_view [simp]: "view (unmasked s) = view s"
  by (rule view_cong) (simp_all add: unmasked_def)

lemma wake_refined:
  assumes ok: "nucleus_ok s'" and r: "resumes t c s'" and len: "length ls \<le> length (queue s msgFree_h)"
    and cur: "current_process t = current_process s" and al: "allocated t = allocated s" and pd: "pid_of t = pid_of s"
    and rq: "queue t readyQueue = queue s readyQueue @ map P_LIST (map fst ls)"
    and mf: "length (queue t msgFree_h) = length (queue s msgFree_h) - length ls"
    and m: "\<And>p. allocated s p \<Longrightarrow> map (letter t) (queue t (MSG_INBOX p)) =
      map (letter s) (queue s (MSG_INBOX p)) @ map (\<lambda>l. (f, snd l)) (filter (\<lambda>l. fst l = p) ls)"
    and dead: "\<And>l. l \<in> set ls \<Longrightarrow> allocated s (fst l)"
  shows "refines s (Wakes f ls (current_process s = NULL)) s'"
proof -
  have v: "view t = mailbox_wake f ls (view s)"
  proof (rule mailboxes_eqI)
    show "letters (view t) p = letters (mailbox_wake f ls (view s)) p" for p
      using m [of p] dead by (auto simp: mailbox_wake_def view_def al filter_empty_conv)
  qed (simp_all add: mailbox_wake_def view_def cur rq mf)
  then have o: "office t = (office s)\<lparr>boxes := mailbox_wake f ls (view s)\<rparr>" by (simp add: office_def al pd)
  show ?thesis
  proof (cases "current_process s = NULL")
    case True
    then have n: "runs_next (unmasked t) c s'" using r cur by (simp add: resumes_def)
    have "view (unmasked t) = mailbox_wake f ls (view s)" by (simp add: v)
    then have "office s' = (office s)\<lparr>boxes := next_on_cpu (mailbox_wake f ls (boxes (office s)))\<rparr>"
      using runs_next_office [OF n] by (simp add: o)
    then show ?thesis using o_rouses [of ls "office s" f] True len ok by (simp add: refines_def view_unfold)
  next
    case False
    then have "office s' = (office s)\<lparr>boxes := mailbox_wake f ls (boxes (office s))\<rparr>" using r cur by (simp add: resumes_def o)
    then show ?thesis using o_wakes [of ls "office s" f] False len ok by (simp add: refines_def view_unfold)
  qed
qed

text \<open>The processes of a queue other than the free list are alive.\<close>

lemma queued_alive:
  assumes inv: "kernel_inv s A" and q: "q \<in> set proc_heads" "q \<noteq> pcbFree_h" "queue s q = map P_LIST ps" and p: "p \<in> set ps"
  shows "allocated s p"
proof -
  have "procs A q ps" by (rule procs_queue [OF inv q(1,3)])
  then show ?thesis using blocked_alive(1) [OF inv q(1,2) _ p] kernel_inv_procs(2) [OF inv q(1) _ p] allocated_iff [OF inv] by simp
qed

lemma kept_alive:
  assumes "kept Q s t" "pcbFree_h \<notin> Q" "\<And>p. pcbs t p = None \<longleftrightarrow> pcbs s p = None"
  shows "allocated t = allocated s"
proof -
  have "queue t pcbFree_h = queue s pcbFree_h" using assms(1,2) by (simp add: kept_def live_head_def proc_heads_def)
  then show ?thesis using assms(3) by (auto simp: allocated_def fun_eq_iff)
qed

lemma clock_refined:
  assumes ok: "nucleus_ok s" and g: "clock_guard s" and h: "intervalTimerHandler s = Some (c, s')"
  shows "refines s (Wakes (ssi_pcb s) (answers 2 s) (current_process s = NULL)) s'"
proof -
  from ok obtain A where inv: "kernel_inv s A" by (rule nucleus_okE)
  obtain ps where ps: "procs A pseudoClockQueue ps" "queue s pseudoClockQueue = map P_LIST ps" by (rule procs_of [OF inv, of pseudoClockQueue]) simp
  obtain ms where ms: "queue s msgFree_h = map M_LIST ms" by (rule messages_of [OF inv])
  have len: "length ps \<le> length ms" using g ps(2) ms by (simp add: clock_guard_def)
  from tick_wakes_full [OF ok ps(2) ms len] h obtain t where
    t: "nucleus_ok s'" "resumes t c s'" "queue t readyQueue = queue s readyQueue @ map P_LIST ps"
    "queue t msgFree_h = map M_LIST (drop (length ps) ms)"
    "\<forall>i < length ps. queue t (MSG_INBOX (ps ! i)) = queue s (MSG_INBOX (ps ! i)) @ [M_LIST (ms ! i)] \<and>
       msgs t (ms ! i) = Some \<lparr>m_sender = ssi_pcb s, m_payload = 0\<rparr>"
    "kept ({pseudoClockQueue, readyQueue, msgFree_h} \<union> MSG_INBOX ` set ps) s t" "pcbs t = pcbs s"
    "current_process t = current_process s" "\<forall>m. m \<notin> set (take (length ps) ms) \<longrightarrow> msgs t m = msgs s m" by auto
  have ls: "answers 2 s = map (\<lambda>p. (p, 0)) ps" by (simp add: answers_def ps(2))
  have dis: "distinct ps" using kernel_inv_procs(1) [OF inv _ ps(1)] by simp
  have alive: "allocated s p" if "p \<in> set ps" for p by (rule queued_alive [OF inv _ _ ps(2) that]) simp_all
  have al: "allocated t = allocated s" by (rule kept_alive [OF t(6)]) (auto simp: t(7))
  have old: "map (letter t) (queue s (MSG_INBOX p)) = map (letter s) (queue s (MSG_INBOX p))" if p: "allocated s p" for p
  proof (rule map_cong [OF refl])
    fix z assume z: "z \<in> set (queue s (MSG_INBOX p))"
    have "m \<notin> set (take (length ps) ms)" if "z = M_LIST m" for m
      using free_message_apart [OF ok _ p, of m] z in_set_takeD [of m "length ps" ms] that by (auto simp: ms)
    then show "letter t z = letter s z" using t(9) by (cases z rule: lh.exhaust) simp_all
  qed
  have "map (letter t) (queue t (MSG_INBOX p)) = map (letter s) (queue s (MSG_INBOX p)) @
      map (\<lambda>l. (ssi_pcb s, snd l)) (filter (\<lambda>l. fst l = p) (answers 2 s))" if p: "allocated s p" for p
  proof (cases "p \<in> set ps")
    case True
    then obtain i where i: "i < length ps" "ps ! i = p" by (auto simp: in_set_conv_nth)
    have "filter (\<lambda>l. fst l = p) (answers 2 s) = [(p, 0)]"
    proof -
      have "filter (\<lambda>l. fst l = p) (answers 2 s) = map (\<lambda>p. (p, 0)) (filter (\<lambda>q. q = p) ps)" by (simp add: ls filter_map comp_def)
      also have "filter (\<lambda>q. q = p) ps = [p]" using dis True by (induction ps) (auto simp: filter_empty_conv)
      finally show ?thesis by simp
    qed
    then show ?thesis using t(5) i old [OF p] by auto
  next
    case False
    then have "queue t (MSG_INBOX p) = queue s (MSG_INBOX p)" using t(6) p by (auto simp: kept_def live_head_def)
    moreover have "filter (\<lambda>l. fst l = p) (answers 2 s) = []" using False by (auto simp: ls filter_empty_conv)
    ultimately show ?thesis using old [OF p] by simp
  qed
  note msgs = this
  show ?thesis
    by (rule wake_refined [OF t(1,2) _ t(8) al _ _ _ msgs])
      (use alive len in \<open>auto simp: ls ms t(3,4) pid_of_def t(7) fun_eq_iff comp_def\<close>)
qed

lemma find_owner: "find P (map P_LIST ps) = map_option P_LIST (find (\<lambda>p. P (P_LIST p)) ps)"
  by (induction ps) simp_all

lemma device_refined:
  assumes ok: "nucleus_ok s" and n: "n \<noteq> 2" "of_nat n \<in> set io_lines" and g: "device_guard (of_nat n) s"
    and h: "deviceHandler (of_nat n) s = Some (c, s')"
  shows "refines s (Wakes (ssi_pcb s) (answers n s) (current_process s = NULL)) s'"
proof -
  from ok obtain A where inv: "kernel_inv s A" and ac: "forest A" by (rule nucleus_okE)
  let ?l = "of_nat n :: u32"
  define d where "d = getDeviceNo (getDeviceBitmap ?l s)"
  let ?P = "\<lambda>p. blockedOnDevice (the (pcbs s p)) = d"
  from g obtain q st cmd where t: "irq_target ?l d s = Some (q, st, cmd)"
    and m: "some_message s \<or> (\<forall>x \<in> set (queue s q). \<forall>p. x = P_LIST p \<longrightarrow> blockedOnDevice (the (pcbs s p)) \<noteq> d)"
    unfolding device_guard_def d_def [symmetric] Let_def by (auto split: option.splits)
  have q: "q \<in> set proc_heads" "q \<noteq> pcbFree_h"
    using device_ack_unlock(1) [OF n(2) t] by (auto simp: proc_heads_def blocked_heads_def)
  from procs_of [OF inv q(1)] obtain ps where ps: "procs A q ps" "queue s q = map P_LIST ps" by auto
  have ls: "answers n s = (case find ?P ps of None \<Rightarrow> [] | Some p \<Rightarrow> [(p, mem s st)])"
    using n(1) t by (simp add: answers_def d_def [symmetric] Let_def ps(2) find_owner option.case_eq_if option.map_sel)
  show ?thesis
  proof (cases "find ?P ps")
    case None
    have e: "deviceHandler ?l s = exitInterruptHandler (store cmd ACK s)" "kernel_inv (store cmd ACK s) A"
      using deviceHandler_nobody [where A = A, OF inv n(2) d_def t ps(1) None] by blast+
    let ?t = "store cmd ACK s"
    have o: "office ?t = office s" by (rule office_cong) (simp_all add: store_def)
    have qt: "queue ?t = queue s" by (rule queue_cong) (simp add: store_def)
    have "nucleus_ok ?t" using e(2) ac by (auto simp: nucleus_ok_def)
    from exit_resumes [OF this] h e(1) have r: "resumes ?t c s'" "nucleus_ok s'" by auto
    have "letter ?t = letter s" by (rule letter_cong) (simp add: store_def)
    moreover have "allocated ?t = allocated s" "pid_of ?t = pid_of s"
      using arg_cong [where f = alive, OF o] arg_cong [where f = pids, OF o] by simp_all
    ultimately show ?thesis
      by (intro wake_refined [OF r(2,1)]) (simp_all add: ls None qt, simp add: store_def)
  next
    case (Some p)
    have pm: "p \<in> set ps" "?P p" using find_Some_split [OF Some] by simp_all
    have alp: "allocated s p" by (rule queued_alive [OF inv q ps(2) pm(1)])
    then obtain x where x: "pcbs s p = Some x" by (auto simp: allocated_def)
    have "some_message s" using m pm ps(2) by auto
    moreover obtain fs where fs: "queue s msgFree_h = map M_LIST fs" by (rule messages_of [OF inv])
    ultimately obtain f fs' where f: "queue s msgFree_h = M_LIST f # map M_LIST fs'" by (cases fs) (auto simp: some_message_def)
    from device_wakes_full [OF ok n(2) d_def t ps(2) Some x f] h obtain t where
      t: "nucleus_ok s'" "resumes t c s'" "queue t readyQueue = queue s readyQueue @ [P_LIST p]"
      "queue t (MSG_INBOX p) = queue s (MSG_INBOX p) @ [M_LIST f]" "queue t msgFree_h = map M_LIST fs'"
      "kept {q, readyQueue, MSG_INBOX p, msgFree_h} s t" "msgs t = (msgs s)(f \<mapsto> \<lparr>m_sender = ssi_pcb s, m_payload = mem s st\<rparr>)"
      "pcbs t = (pcbs s)(p \<mapsto> x\<lparr>p_s := (p_s x)\<lparr>gpr := (gpr (p_s x))(reg_v0 := mem s st)\<rparr>\<rparr>)"
      "t = s\<lparr>lh_mem := lh_mem t, pcbs := pcbs t, msgs := msgs t, mem := mem t, softBlockCount := softBlockCount s - 1\<rparr>" by auto
    have al: "allocated t = allocated s" by (rule kept_alive [OF t(6)]) (use q x in \<open>auto simp: t(8)\<close>)
    have pd: "pid_of t = pid_of s" using x by (simp add: pid_of_def t(8) fun_eq_iff)
    have cur: "current_process t = current_process s" by (subst t(9)) simp
    have old: "map (letter t) (queue s (MSG_INBOX r)) = map (letter s) (queue s (MSG_INBOX r))" if r: "allocated s r" for r
      by (rule letters_upd [OF _ t(7)]) (use free_message_apart [OF ok _ r, of f] f in auto)
    have "map (letter t) (queue t (MSG_INBOX r)) = map (letter s) (queue s (MSG_INBOX r)) @
        map (\<lambda>l. (ssi_pcb s, snd l)) (filter (\<lambda>l. fst l = r) [(p, mem s st)])" if r: "allocated s r" for r
    proof (cases "r = p")
      case True
      then show ?thesis using t(4,7) old [OF r] by simp
    next
      case False
      have "q \<noteq> MSG_INBOX r" using q(1) by (auto simp: proc_heads_def blocked_heads_def)
      then have "queue t (MSG_INBOX r) = queue s (MSG_INBOX r)" using t(6) r False by (simp add: kept_def live_head_def)
      then show ?thesis using old [OF r] False by simp
    qed
    from wake_refined [OF t(1,2) _ cur al pd _ _ this] show ?thesis
      using alp f t(3,5) by (simp add: ls Some)
  qed
qed

section \<open>Exceptions\<close>

lemma masked_fields: "queue (masked s) = queue s" "mem (masked s) = mem s" "pcbs (masked s) = pcbs s"
  "interrupt_dev (masked s) = interrupt_dev s" "ssi_pcb (masked s) = ssi_pcb s" "current_process (masked s) = current_process s"
  by (rule queue_cong, simp add: masked_def) (simp_all add: masked_def)

lemma answers_masked: "answers n (masked s) = answers n s"
  unfolding answers_def irq_target_def getDeviceBitmap_def masked_fields by (rule refl)

lemma refines_masked: "refines (masked s) e s' \<longleftrightarrow> refines s e s'"
  by (simp add: refines_def)

lemma interrupt_refined:
  assumes ok: "nucleus_ok s" and g: "irq_guard s" and h: "interruptHandler s = Some (c, s')"
  shows "refines s (interrupt_event s) s'"
proof -
  have okm: "nucleus_ok (masked s)" by (rule nucleus_ok_nondata [OF _ _ _ _ _ _ _ _ ok]) (simp_all add: masked_def)
  have gm: "clock_guard (masked s) = clock_guard s" "device_guard l (masked s) = device_guard l s" for l
    unfolding clock_guard_def device_guard_def irq_target_def some_message_def getDeviceBitmap_def masked_fields by (rule refl)+
  have hm: "irq_handler (served s) (masked s) = Some (c, s')" using h by (simp add: interrupt_dispatch)
  show ?thesis
  proof (cases "served s")
    case None
    then have "s' = masked s" using hm by (simp add: irq_handler_def)
    then show ?thesis using refines_works [of s' s] okm by (simp add: interrupt_event_def None)
  next
    case (Some n)
    note n = served_range [OF Some]
    have l: "of_nat n \<in> set io_lines" if "n \<noteq> 1" "n \<noteq> 2"
    proof -
      have "n \<in> {3, 4, 5, 6, 7}" using n that by auto
      then show ?thesis by (auto simp: io_lines_def)
    qed
    have "refines (masked s) (interrupt_event s) s'"
      using hm g Some slice_refined [OF okm, of c s'] clock_refined [OF okm, of c s'] device_refined [OF okm _ l, of c s']
      by (auto simp: irq_handler_def irq_guard_def interrupt_event_def gm masked_fields answers_masked split: if_splits)
    then show ?thesis by (simp add: refines_masked)
  qed
qed

lemma syscall_refined:
  assumes ok: "nucleus_ok s" and g: "sys_guard s" and h: "syscallHandler s = Some (c, s')"
  shows "refines s (syscall_event s s') s'"
proof -
  consider (user) "bit (status (exception_state s)) 1"
    | (send) "\<not> bit (status (exception_state s)) 1" "reg reg_a0 s = SENDMESSAGE"
    | (recv) "\<not> bit (status (exception_state s)) 1" "reg reg_a0 s = RECEIVEMESSAGE"
    | (other) "\<not> bit (status (exception_state s)) 1" "reg reg_a0 s \<notin> {SENDMESSAGE, RECEIVEMESSAGE}" by blast
  then show ?thesis
  proof cases
    case user
    have f: "queue (trapped s) = queue s" by (rule queue_cong) (simp add: trapped_def)
    have e: "pass_event (trapped s) = pass_event s" "office (trapped s) = office s"
      unfolding pass_event_def descendant_queue [OF f] by (simp add: trapped_def, rule office_cong) (simp_all add: trapped_def)
    have "pass_guard (trapped s)" using g user by (simp add: sys_guard_def pass_guard_trapped)
    from pass_refined [OF nucleus_ok_exc(1) [OF ok] this] h show ?thesis
      using user by (simp add: syscallHandler_user syscall_event_def e refines_def)
  next
    case send
    have "send_guard (reg reg_a1 s) s" using g send by (simp add: sys_guard_def)
    from send_refined [OF ok this send h] send show ?thesis by (simp add: syscall_event_def Let_def)
  next
    case recv
    have "recv_guard (reg reg_a1 s) s" using g recv by (simp add: sys_guard_def)
    from recv_refined [OF ok this recv h] recv show ?thesis by (simp add: syscall_event_def Let_def)
  next
    case other
    have "pass_guard s" using g other by (simp add: sys_guard_def)
    from pass_refined [OF ok this] h other show ?thesis by (simp add: syscallHandler_unknown syscall_event_def Let_def)
  qed
qed

lemma exception_refined:
  assumes ok: "nucleus_ok s" and g: "exc_guard s" and h: "exceptionHandler s = Some (c, s')"
  shows "refines s (exception_event s s') s'"
  using h g interrupt_refined [OF ok _, of c s'] pass_refined [OF ok _, of _ c s'] syscall_refined [OF ok _, of c s'] refines_works [OF ok refl]
  by (auto simp: exception_dispatch exc_guard_def exception_event_def split: exc_target.splits)

section \<open>Services\<close>

lemma create_refined:
  assumes ok: "nucleus_ok s" and g: "create_guard sender a s" and h: "createProcess sender a s = Some (r, s')"
  shows "refines s (if queue s pcbFree_h = [] then Works else Creates r (next_pid s)) s'"
proof -
  from ok obtain A where inv: "kernel_inv s A" by (rule nucleus_okE)
  obtain fs where fs: "procs A pcbFree_h fs" "queue s pcbFree_h = map P_LIST fs" by (rule procs_of [OF inv, of pcbFree_h]) simp
  show ?thesis
  proof (cases fs)
    case Nil
    then have "s' = s" using createProcess_full [OF kernel_invD(1) [OF inv]] fs(1) h by simp
    then show ?thesis using refines_works [OF ok refl] fs(2) Nil by simp
  next
    case (Cons p ps)
    have f: "queue s pcbFree_h = P_LIST p # map P_LIST ps" using fs(2) Cons by simp
    from g f obtain c st where c: "ssi_create_processes s a = Some c" "states s (scp_state c) = Some st"
      and al: "allocated s sender" by (auto simp: create_guard_def)
    from create_process_makes_full [OF ok f al c] h obtain x where
      s': "r = p" "nucleus_ok s'" "pcbs s' p = Some x" "p_pid x = next_pid s" "\<forall>q. q \<noteq> p \<longrightarrow> pcbs s' q = pcbs s q"
      "queue s' pcbFree_h = map P_LIST ps" "queue s' readyQueue = queue s readyQueue @ [P_LIST p]" "queue s' (MSG_INBOX p) = []"
      "kept {pcbFree_h, readyQueue, P_CHILD sender} s s'" by auto
    note fr = create_frame [OF h [unfolded s'(1)]]
    have "p \<notin> set ps" using kernel_inv_procs(1) [OF inv _ fs(1)] Cons by simp
    then have al': "allocated s' q \<longleftrightarrow> allocated s q \<or> q = p" for q using s'(3,5,6) f by (cases "q = p") (auto simp: allocated_def)
    have na: "\<not> allocated s p" by (simp add: allocated_def f)
    have q: "queue s' (MSG_INBOX z) = queue s (MSG_INBOX z)" if "allocated s z" for z using s'(9) that by (simp add: kept_def live_head_def)
    have mf: "queue s' msgFree_h = queue s msgFree_h" using s'(9) by (simp add: kept_def live_head_def)
    have lt: "letter s' = letter s" by (rule letter_cong) (simp add: fr)
    have "view s' = (view s)\<lparr>queued := queued (view s) @ [p]\<rparr>"
      by (rule mailboxes_eqI) (use q na s'(7,8) mf lt fr in \<open>auto simp: view_unfold al'\<close>)
    moreover have "pid_of s' = (pid_of s)(p := Some (next_pid s))" using s'(3-5) by (auto simp: pid_of_def)
    moreover have "allocated s' = (allocated s)(p := True)" by (auto simp: al' fun_eq_iff)
    ultimately show ?thesis using o_creates [of "office s" p "next_pid s"] na s'(1,2) f by (simp add: refines_def) (simp add: office_def)
  qed
qed

lemma blocks_refined:
  assumes ok: "nucleus_ok s'" and p: "p \<noteq> current_process s" and cur: "current_process s' = current_process s"
    and m: "msgs s' = msgs s" and k: "kept Q s s'" "pcbFree_h \<notin> Q" "msgFree_h \<notin> Q" "\<And>r. MSG_INBOX r \<notin> Q"
    and x: "\<And>r. map_option p_pid (pcbs s' r) = map_option p_pid (pcbs s r)"
    and rq: "map owner (queue s' readyQueue) = remove1 p (map owner (queue s readyQueue))"
  shows "refines s (Blocks p) s'"
proof -
  have "pcbs s' r = None \<longleftrightarrow> pcbs s r = None" for r using x [of r] by (metis option.map_disc_iff)
  then have al: "allocated s' = allocated s" by (rule kept_alive [OF k(1,2)])
  have pd: "pid_of s' = pid_of s" using x by (simp add: pid_of_def fun_eq_iff)
  have q: "queue s' (MSG_INBOX z) = queue s (MSG_INBOX z)" if "allocated s z" for z using k(1,4) that by (simp add: kept_def live_head_def)
  have mf: "queue s' msgFree_h = queue s msgFree_h" using k(1,3) by (simp add: kept_def live_head_def)
  have "view s' = (view s)\<lparr>queued := remove1 p (queued (view s))\<rparr>"
    by (rule mailboxes_eqI) (use q mf rq cur letter_cong [OF m] in \<open>auto simp: view_unfold al\<close>)
  then show ?thesis using o_blocks [of p "office s"] ok p by (simp add: refines_def) (simp add: office_def al pd)
qed

lemma doio_refined:
  assumes ok: "nucleus_ok s" and g: "doio_guard p a s" and h: "doio a p s = Some s'"
  shows "refines s (Blocks p) s'"
proof -
  from g obtain x io q d where x: "pcbs s p = Some x" and io: "ssi_do_ios s a = Some io" "device_queue (commandAddr io) = Some (q, d)"
    and p: "p \<noteq> current_process s" "linked s p \<longrightarrow> ready s p" by (auto simp: doio_guard_def)
  from doio_blocks_full [OF ok p x io] h have s': "nucleus_ok s'"
    "queue s' readyQueue = remove1 (P_LIST p) (queue s readyQueue)" "kept {q, readyQueue} s s'"
    "pcbs s' = (pcbs s)(p \<mapsto> x\<lparr>blockedOnDevice := d\<rparr>)" by auto
  have q: "q \<in> set blocked_heads" using device_queue_blocked [OF io(2)] by blast
  from ok obtain A where inv: "kernel_inv s A" by (rule nucleus_okE)
  obtain rs where rs: "queue s readyQueue = map P_LIST rs" by (rule procs_of [OF inv, of readyQueue]) simp
  show ?thesis
    by (rule blocks_refined [OF s'(1) p(1) _ _ s'(3)])
      (use q x doio_frame [OF h] in \<open>auto simp: s'(2,4) rs blocked_heads_def map_injection_remove1 [OF inj_P_LIST, symmetric]\<close>)
qed

lemma clock_wait_refined:
  assumes ok: "nucleus_ok s" and g: "clockwait_guard p s" and h: "wait4Clock p s = Some s'"
  shows "refines s (Blocks p) s'"
proof -
  from clock_wait_blocks_full [OF ok g] h have s': "nucleus_ok s'" "kept {pseudoClockQueue} s s'"
    "s' = s\<lparr>lh_mem := lh_mem s', softBlockCount := softBlockCount s + 1\<rparr>" by auto
  have e: "current_process s' = current_process s" "msgs s' = msgs s" "pcbs s' = pcbs s" by (subst s'(3), simp)+
  from ok obtain A where inv: "kernel_inv s A" by (rule nucleus_okE)
  obtain rs where rs: "queue s readyQueue = map P_LIST rs" by (rule procs_of [OF inv, of readyQueue]) simp
  have "queue s' readyQueue = queue s readyQueue" using s'(2) by (simp add: kept_def live_head_def)
  moreover have "P_LIST p \<notin> set (queue s readyQueue)" using g heads_in(1) unfolding clockwait_guard_def linked_def by blast
  then have "p \<notin> set rs" using rs by auto
  ultimately show ?thesis using g
    by (intro blocks_refined [OF s'(1) _ e(1,2) s'(2)]) (auto simp: e(3) rs clockwait_guard_def remove1_idem)
qed

lemma service_refined:
  assumes ok: "nucleus_ok s" and g: "ssi_guard sender srv a s" and h: "SSIRequest sender srv a s = Some (r, s')"
  shows "refines s (service_event sender srv a s r) s'"
proof -
  note gone = terminate_refined [OF ok _, of _ s'] and cr = create_refined [OF ok _, of sender a r s']
    and io = doio_refined [OF ok _, of sender a s'] and cw = clock_wait_refined [OF ok _, of sender s']
  consider "srv = CREATEPROCESS" | "srv = TERMPROCESS" | "srv = DOIO" | "srv = CLOCKWAIT"
    | "srv \<in> {GETTIME, GETSUPPORTPTR, GETPROCESSID}" | "srv \<notin> {1, 2, 3, 4, 5, 6, 7}" by force
  then show ?thesis
  proof cases
    case 1
    then show ?thesis using cr g h by (simp add: SSIRequest_def ssi_guard_def service_event_def)
  next
    case 2
    then show ?thesis using gone g h by (auto simp: SSIRequest_def ssi_guard_def service_event_def split: if_splits bind_splits)
  next
    case 3
    then show ?thesis using io g h by (auto simp: SSIRequest_def ssi_guard_def service_event_def split: bind_splits)
  next
    case 4
    then show ?thesis using cw g h by (auto simp: SSIRequest_def ssi_guard_def service_event_def split: bind_splits)
  next
    case 5
    then have "srv = GETTIME \<or> srv = GETSUPPORTPTR \<or> srv = GETPROCESSID" by simp
    then have "s' = s" "service_event sender srv a s r = Works"
      using h by (elim disjE; simp add: SSIRequest_def service_event_def split: bind_splits)+
    then show ?thesis using refines_works [OF ok] by simp
  next
    case 6
    then show ?thesis using gone g h by (auto simp: SSIRequest_def ssi_guard_def service_event_def split: bind_splits)
  qed
qed

text \<open>Every step refines.\<close>

lemma kernel_step_refines:
  assumes step: "kernel_step s e s'" and ok: "nucleus_ok s"
  shows "refines s e s'"
  using step
proof cases
  case outside
  have "nucleus_ok s'" by (rule nucleus_ok_nondata [OF _ _ _ _ _ _ _ _ ok]) (use outside(2) in \<open>simp_all add: same_kernel_def\<close>)
  moreover have "office s' = office s" by (rule office_cong) (use outside(2) in \<open>simp_all add: same_kernel_def\<close>)
  ultimately show ?thesis using refines_works outside(1) by simp
qed (use exception_refined [OF ok] service_refined [OF ok] in blast)+

end
