(* ===== verification/Mailbox_Props.thy ===== *)
theory Mailbox_Props
  imports Mail_Steps Service_Props
begin

text \<open>
  Runs of the nucleus against the abstract kernel: messages between two processes are neither lost nor made up nor
  overtaken; the ready processes take turns.
\<close>

section \<open>Runs\<close>

inductive kernel_run :: "sys \<Rightarrow> kernel_event list \<Rightarrow> sys \<Rightarrow> bool" where
  stop: "kernel_run s [] s"
| go: "kernel_step s e s' \<Longrightarrow> kernel_run s' es s'' \<Longrightarrow> kernel_run s (e # es) s''"

inductive_cases kernel_run_NilE [elim!]: "kernel_run s [] s'"

subsection \<open>Messages\<close>

text \<open>The payloads of \<open>p\<close> in the inbox of \<open>q\<close>, those posted by a run, and what the run saw of those taken.  An
  interrupt posts for the process in \<^verbatim>\<open>ssi_pcb\<close>.\<close>

definition mail :: "ptr \<Rightarrow> ptr \<Rightarrow> mailboxes \<Rightarrow> u32 list" where
  "mail p q k = map snd (filter (\<lambda>l. fst l = p) (letters k q))"

fun posted :: "ptr \<Rightarrow> ptr \<Rightarrow> kernel_event list \<Rightarrow> u32 list" where
  "posted p q [] = []"
| "posted p q (Sends c d v r # es) = (if c = p \<and> d = q \<and> r = 0 then [v] else []) @ posted p q es"
| "posted p q (Wakes f ls i # es) = (if f = p then map snd (filter (\<lambda>l. fst l = q) ls) else []) @ posted p q es"
| "posted p q (_ # es) = posted p q es"

fun taken :: "ptr \<Rightarrow> ptr \<Rightarrow> kernel_event list \<Rightarrow> u32 option list" where
  "taken p q [] = []"
| "taken p q (Gets c b t x # es) = (if c = q \<and> t = p then [x] else []) @ taken p q es"
| "taken p q (_ # es) = taken p q es"

fun ended :: "kernel_event \<Rightarrow> ptr set" where
  "ended (Ends D) = D"
| "ended (Dies D) = D"
| "ended _ = {}"

definition seen :: "u32 \<Rightarrow> u32 option \<Rightarrow> bool" where
  "seen v x \<longleftrightarrow> x = None \<or> x = Some v"

lemma next_on_cpu_letters [simp]: "letters (next_on_cpu k) = letters k"
  by (simp add: next_on_cpu_def split: list.split)

lemma mail_next [simp]: "mail p q (next_on_cpu k) = mail p q k"
  by (simp add: mail_def)

lemma mail_wake: "mail p q (mailbox_wake f ls k) = mail p q k @ (if f = p then map snd (filter (\<lambda>l. fst l = q) ls) else [])"
  by (simp add: mail_def mailbox_wake_def filter_map comp_def)

lemma mail_end: "q \<notin> D \<Longrightarrow> mail p q (mailbox_end D k) = mail p q k"
  by (simp add: mail_def mailbox_end_def)

lemma extract_first_from:
  assumes "List.extract (from \<circ> fst) ls = Some (ms, (t, v), ns)"
  shows "map snd (filter (\<lambda>l. fst l = p) ls) = (if t = p then [v] else []) @ map snd (filter (\<lambda>l. fst l = p) (ms @ ns))"
proof -
  have e: "ls = ms @ (t, v) # ns" "\<forall>l \<in> set ms. \<not> from (fst l)" "from t" using assms by (auto simp: extract_Some_iff)
  then have "filter (\<lambda>l. fst l = t) ms = []" by (auto simp: filter_empty_conv)
  then show ?thesis by (auto simp: e(1))
qed

lemma office_step_mail:
  assumes "office_step k e k'" "q \<notin> ended e"
  shows "\<exists>vs. mail p q (boxes k) @ posted p q [e] = vs @ mail p q (boxes k') \<and> list_all2 seen vs (taken p q [e])"
  using assms(1)
proof cases
  case (o_sends d v r b)
  have "mail p q (boxes k) @ posted p q [e] = mail p q b"
    using o_sends(3) by (auto simp: o_sends(1) mailbox_send_def mail_def split: if_splits)
  then show ?thesis by (simp add: o_sends(1,2))
next
  case (o_gets c t v b x)
  from o_gets(3) obtain ls ms where
    ex: "List.extract ((\<lambda>t. c = ANYMESSAGE \<or> pids k t = pids k c) \<circ> fst) (letters (boxes k) (on_cpu (boxes k))) = Some (ls, (t, v), ms)"
    "b = (boxes k)\<lparr>letters := (letters (boxes k))(on_cpu (boxes k) := ls @ ms), blanks := blanks (boxes k) + 1\<rparr>"
    by (auto simp: mailbox_recv_def split: option.splits)
  let ?vs = "if on_cpu (boxes k) = q \<and> t = p then [v] else []"
  have "mail p q (boxes k) = ?vs @ mail p q b" using extract_first_from [OF ex(1), of p] by (auto simp: mail_def ex(2))
  moreover have "list_all2 seen ?vs (taken p q [e])" using o_gets(4) by (simp add: o_gets(1) seen_def)
  ultimately show ?thesis by (intro exI [of _ ?vs]) (simp add: o_gets(1,2))
next
  case (o_waits c b)
  then show ?thesis by (auto simp: mailbox_recv_def split: option.splits)
next
  case o_slice
  then show ?thesis by (simp add: mailbox_slice_def) (simp add: mail_def)
next
  case (o_creates p i)
  then show ?thesis by (simp add: mail_def)
next
  case (o_blocks p)
  then show ?thesis by (simp add: mail_def)
qed (use assms(2) in \<open>simp_all add: mail_wake mail_end\<close>)

lemma posted_Cons: "posted p q (e # es) = posted p q [e] @ posted p q es" by (cases e) simp_all

lemma taken_Cons: "taken p q (e # es) = taken p q [e] @ taken p q es" by (cases e) simp_all

lemma step_office: "kernel_step s e s' \<Longrightarrow> nucleus_ok s \<Longrightarrow> nucleus_ok s' \<and> office_step (office s) e (office s')"
  using kernel_step_refines by (simp add: refines_def)

lemma run_mail:
  assumes "kernel_run s es s'" "nucleus_ok s" "\<forall>e \<in> set es. q \<notin> ended e"
  shows "\<exists>vs. mail p q (view s) @ posted p q es = vs @ mail p q (view s') \<and> list_all2 seen vs (taken p q es)"
  using assms
proof induction
  case (go s e s' es s'')
  from step_office [OF go(1,4)] have ok: "nucleus_ok s'" and m: "office_step (office s) e (office s')" by simp_all
  from office_step_mail [OF m, of q p] go(5) obtain us where
    us: "mail p q (view s) @ posted p q [e] = us @ mail p q (view s')" "list_all2 seen us (taken p q [e])" by auto
  from go.IH [OF ok] go(5) obtain vs where
    vs: "mail p q (view s') @ posted p q es = vs @ mail p q (view s'')" "list_all2 seen vs (taken p q es)" by auto
  have "mail p q (view s) @ posted p q (e # es) = (us @ vs) @ mail p q (view s'')"
    using us(1) vs(1) posted_Cons [of p q e es] by (metis append.assoc)
  moreover have "list_all2 seen (us @ vs) (taken p q (e # es))"
    using list_all2_appendI [OF us(2) vs(2)] taken_Cons [of p q e es] by metis
  ultimately show ?case by blast
qed simp

subsection \<open>Turns\<close>

text \<open>The steps at which the processor is given to the next ready process.\<close>

fun turn :: "kernel_event \<Rightarrow> bool" where
  "turn Slice = True"
| "turn (Waits c b) = True"
| "turn (Dies D) = True"
| "turn (Wakes f ls idle) = idle"
| "turn _ = False"

definition turns :: "kernel_event list \<Rightarrow> nat" where
  "turns es = length (filter turn es)"

definition waiting_at :: "ptr \<Rightarrow> nat \<Rightarrow> mailboxes \<Rightarrow> bool" where
  "waiting_at p i k \<longleftrightarrow> i < length (queued k) \<and> queued k ! i = p"

lemma waiting_next:
  assumes "waiting_at p i k" "queued k' = queued k @ xs"
  shows "case i of 0 \<Rightarrow> on_cpu (next_on_cpu k') = p | Suc j \<Rightarrow> waiting_at p j (next_on_cpu k')"
  using assms by (cases "queued k") (auto simp: waiting_at_def next_on_cpu_def nth_append split: nat.split)

lemma remove1_place:
  "i < length xs \<Longrightarrow> xs ! i \<noteq> c \<Longrightarrow> \<exists>j \<le> i. j < length (remove1 c xs) \<and> remove1 c xs ! j = xs ! i"
proof (induction xs arbitrary: i)
  case (Cons x xs)
  show ?case
  proof (cases i)
    case 0
    then show ?thesis using Cons.prems by auto
  next
    case (Suc k)
    show ?thesis
    proof (cases "x = c")
      case True
      then show ?thesis using Cons.prems Suc by (intro exI [of _ k]) auto
    next
      case False
      from Cons.IH [of k] Cons.prems Suc obtain j where "j \<le> k" "j < length (remove1 c xs)" "remove1 c xs ! j = xs ! k" by auto
      then show ?thesis using False Suc by (intro exI [of _ "Suc j"]) simp
    qed
  qed
qed simp

text \<open>A step that is no turn leaves a waiting process at its place or moves it forward; a turn moves it one place on, or to
  the processor.\<close>

lemma office_step_waiting:
  assumes "office_step k e k'" "waiting_at p i (boxes k)" "e \<noteq> Blocks p"
  shows "if turn e then case i of 0 \<Rightarrow> on_cpu (boxes k') = p | Suc j \<Rightarrow> waiting_at p j (boxes k')
    else \<exists>j \<le> i. waiting_at p j (boxes k')"
  using assms(1)
proof cases
  case o_slice
  then show ?thesis using waiting_next [OF assms(2), of "(boxes k)\<lparr>queued := queued (boxes k) @ [on_cpu (boxes k)]\<rparr>"]
    by (auto simp: mailbox_slice_def split: nat.split)
next
  case (o_waits c b)
  then show ?thesis using waiting_next [OF assms(2), of "boxes k" "[]"] by (auto simp: mailbox_recv_def split: option.splits nat.split)
next
  case (o_rouses ls f)
  have "queued (mailbox_wake f ls (boxes k)) = queued (boxes k) @ map fst ls" by (simp add: mailbox_wake_def)
  from waiting_next [OF assms(2) this] show ?thesis by (simp add: o_rouses(1,2) split: nat.splits)
next
  case (o_dies D)
  have "queued (mailbox_end D (boxes k)) = queued (boxes k) @ []" by (simp add: mailbox_end_def)
  from waiting_next [OF assms(2) this] show ?thesis by (simp add: o_dies(1,2) split: nat.splits)
next
  case (o_blocks c)
  then show ?thesis using remove1_place [of i "queued (boxes k)" c] assms(2,3) by (auto simp: waiting_at_def)
qed (use assms(2) in \<open>auto simp: waiting_at_def mailbox_send_def mailbox_recv_def mailbox_wake_def mailbox_end_def
    nth_append split: if_splits option.splits intro!: exI [of _ i]\<close>)

lemma turns_Cons: "turns (e # es) = (if turn e then 1 else 0) + turns es"
  by (simp add: turns_def)

lemma run_waiting:
  assumes "kernel_run s es s'" "nucleus_ok s" "waiting_at p i (view s)" "i < turns es" "Blocks p \<notin> set es"
  shows "\<exists>as bs t. es = as @ bs \<and> turns as \<le> Suc i \<and> kernel_run s as t \<and> kernel_run t bs s' \<and> current_process t = p"
  using assms
proof (induction arbitrary: i)
  case (stop s)
  then show ?case by (simp add: turns_def)
next
  case (go s e s' es s'')
  from step_office [OF go(1,4)] have ok: "nucleus_ok s'" and m: "office_step (office s) e (office s')" by simp_all
  have w: "if turn e then case i of 0 \<Rightarrow> current_process s' = p | Suc j \<Rightarrow> waiting_at p j (view s')
      else \<exists>j \<le> i. waiting_at p j (view s')"
    using office_step_waiting [OF m, of p i] go(5,7) by (cases i) auto
  have next_place: ?case if n: "j + (if turn e then 1 else 0) \<le> i" "waiting_at p j (view s')" for j
  proof -
    have "j < turns es" using go(6) n(1) by (simp add: turns_Cons split: if_splits)
    from go.IH [OF ok n(2) this] go(7) obtain as bs t where
      "es = as @ bs" "turns as \<le> Suc j" "kernel_run s' as t" "kernel_run t bs s''" "current_process t = p" by auto
    then show ?thesis using kernel_run.go [OF go(1)] n(1)
      by (intro exI [of _ "e # as"] exI [of _ bs] exI [of _ t]) (simp add: turns_Cons)
  qed
  show ?case
  proof (cases "turn e")
    case False
    then obtain j where "j \<le> i" "waiting_at p j (view s')" using w by auto
    then show ?thesis using next_place [of j] False by simp
  next
    case True
    show ?thesis
    proof (cases i)
      case 0
      then have "current_process s' = p" using w True by simp
      moreover have "kernel_run s [e] s'" using kernel_run.go [OF go(1)] kernel_run.stop by blast
      ultimately show ?thesis using go(2) by (intro exI [of _ "[e]"] exI [of _ es] exI [of _ s']) (simp add: turns_def)
    next
      case (Suc j)
      then show ?thesis using next_place [of j] w True by simp
    qed
  qed
qed

lemma queued_not_null:
  assumes ok: "nucleus_ok s"
  shows "NULL \<notin> set (queued (view s))"
proof -
  from ok obtain A where inv: "kernel_inv s A" by (rule nucleus_okE)
  have r: "readyQueue \<in> set proc_heads" by (simp add: proc_heads_def)
  obtain rs where rs: "procs A readyQueue rs" "queue s readyQueue = map P_LIST rs" by (rule procs_of [OF inv r])
  then show ?thesis using kernel_inv_procs(2) [OF inv r rs(1)] by (auto simp: view_def)
qed

text \<open>The local timer interrupts: the saved Cause register has line 1 pending and exception code 0.\<close>

definition plt_interrupt :: "sys \<Rightarrow> sys" where
  "plt_interrupt s = trap ((exception_state s)\<lparr>cause := 0x200\<rparr>) s"

lemma trap_outside: "kernel_step s Works (trap st s)"
  by (rule kernel_step.outside) (simp add: same_kernel_def trap_def)

text \<open>At the end of a time slice there is always a process to run: the one that gave the processor away, if no other.\<close>

lemma slice_ends:
  assumes ok: "nucleus_ok s" and c: "current_process s \<noteq> NULL"
  shows "\<exists>s'. kernel_step (plt_interrupt s) Slice s' \<and> nucleus_ok s' \<and> current_process s' \<noteq> NULL"
proof -
  let ?s = "plt_interrupt s"
  have f: "exc_target (exc_code ?s) = To_Interrupts" "served ?s = Some 1" "current_process ?s = current_process s"
    by (simp_all add: plt_interrupt_def trap_def exc_code_def exc_target_def served_def Dispatch.pending_def bit_numeral_rec)
  have ok1: "nucleus_ok ?s" using step_office [OF trap_outside ok] by (simp add: plt_interrupt_def)
  have g: "exc_guard ?s" using c by (simp add: exc_guard_def irq_guard_def f)
  from exceptionHandler_works [OF ok1 g] obtain k s' where s': "exceptionHandler ?s = Some (k, s')" by (auto simp: works_def)
  have st: "kernel_step ?s Slice s'"
    using kernel_step.exception [OF g s'] by (simp add: exception_event_def interrupt_event_def f)
  from step_office [OF st ok1] have r: "nucleus_ok s'" "office_step (office ?s) Slice (office s')" by simp_all
  have "view s' = mailbox_slice (view ?s)" using r(2) by cases (drule arg_cong [where f = boxes], simp)
  then have "current_process s' = on_cpu (mailbox_slice (view ?s))" using on_cpu_view [of s'] by simp
  moreover have "on_cpu (mailbox_slice (view ?s)) \<noteq> NULL" using queued_not_null [OF ok1] c f(3)
    by (cases "queued (view ?s)") (auto simp: mailbox_slice_def next_on_cpu_def)
  ultimately show ?thesis using st r(1) by auto
qed

lemma slices_run:
  assumes "nucleus_ok s" "current_process s \<noteq> NULL"
  shows "\<exists>es s'. kernel_run s es s' \<and> turns es = n \<and> set es \<subseteq> {Works, Slice}"
  using assms
proof (induction n arbitrary: s)
  case 0
  show ?case by (intro exI [of _ "[]"] exI [of _ s]) (simp add: kernel_run.stop turns_def)
next
  case (Suc n)
  from slice_ends [OF Suc.prems] obtain t where
    t: "kernel_step (plt_interrupt s) Slice t" "nucleus_ok t" "current_process t \<noteq> NULL" by blast
  from Suc.IH [OF t(2,3)] obtain es s' where "kernel_run t es s'" "turns es = n" "set es \<subseteq> {Works, Slice}" by blast
  moreover have "kernel_step s Works (plt_interrupt s)" unfolding plt_interrupt_def by (rule trap_outside)
  ultimately show ?case using t(1)
    by (intro exI [of _ "Works # Slice # es"] exI [of _ s']) (auto simp: turns_def intro: kernel_run.go)
qed

section \<open>The properties\<close>

text \<open>C4.  The nucleus refines the abstract kernel, step by step and completely: the steps with an event are exactly the
  steps of the nucleus as a transition system (an exception under its guard, whichever handler it goes to; an SSI
  service under its guard; what happens outside), and each keeps the invariant and does to the process on the
  processor, the ready queue, the inboxes, the stock of messages, the processes alive and their pids what the rule for
  its event does to the lists.  The guards are those of the reachable states: a send is not to a process that waits
  for a device or the clock, a tree that is ended has no ready process, there are messages for those an interrupt wakes.\<close>

theorem nucleus_refines_mailboxes:
  assumes "nucleus_ok s"
  shows "(nucleus_step s s' \<longleftrightarrow> (\<exists>e. kernel_step s e s')) \<and>
    (\<forall>e. kernel_step s e s' \<longrightarrow> nucleus_ok s' \<and> office_step (office s) e (office s'))"
  using kernel_step_iff step_office [OF _ assms] by blast

text \<open>A system call as a step from the state in which the BIOS has saved the caller.\<close>

lemma trap_call:
  assumes "at_call a b c st"
  shows "exc_target (exc_code (trap st s)) = To_Syscall" "\<not> bit (status (exception_state (trap st s))) 1"
    "reg reg_a0 (trap st s) = a" "reg reg_a1 (trap st s) = b" "reg reg_a2 (trap st s) = c"
proof -
  have "drop_bit CAUSESHIFT (cause st AND GETEXECCODE) = 8" using assms by (simp add: at_call_def)
  then have "(of_nat (exc_code (trap st s)) :: u32) = 8" using exc_code_word [of "trap st s"] by (simp add: trap_def)
  moreover have "exc_code (trap st s) < 32" by (simp add: exc_code_def)
  then have "unat (of_nat (exc_code (trap st s)) :: u32) = exc_code (trap st s)" by (simp add: unat_of_nat take_bit_nat_eq_self)
  ultimately have "exc_code (trap st s) = 8" by simp
  then show "exc_target (exc_code (trap st s)) = To_Syscall" by (simp add: exc_target_def)
  show "\<not> bit (status (exception_state (trap st s))) 1"
    using assms user_bit [of "status st"] by (simp add: at_call_def trap_def)
qed (use assms in \<open>simp_all add: at_call_def trap_def\<close>)

lemma call_step:
  assumes ok: "nucleus_ok s" and c: "at_call a b c st" and g: "exc_guard (trap st s)"
  obtains s' where "kernel_step (trap st s) (syscall_event (trap st s) s') s'" "nucleus_ok s'"
    "office_step (office s) (syscall_event (trap st s) s') (office s')"
proof -
  have t: "nucleus_ok (trap st s)" "office (trap st s) = office s"
    using step_office [OF trap_outside ok] by (simp, intro office_cong) (simp_all add: trap_def)
  from exceptionHandler_works [OF t(1) g] obtain k s' where s': "exceptionHandler (trap st s) = Some (k, s')" by (auto simp: works_def)
  from kernel_step.exception [OF g s'] have st: "kernel_step (trap st s) (syscall_event (trap st s) s') s'"
    using trap_call(1) [OF c] by (simp add: exception_event_def)
  from that [OF st] step_office [OF st t(1)] t(2) show ?thesis by simp
qed

text \<open>The demo: the SSI, just dispatched, sends.\<close>

inductive_cases office_sendsE: "office_step k (Sends c d v r) k'"
inductive_cases office_waitsE: "office_step k (Waits c b) k'"
inductive_cases office_getsE: "office_step k (Gets c b t x) k'"

lemma demo_posts:
  assumes g: "send_guard d demo_start" and d: "allocated demo_start d"
  obtains s' where "kernel_step (trap (demo_call SENDMESSAGE d 77) demo_start) (Sends p0 d 77 0) s'" "nucleus_ok s'"
    "mailbox_send (allocated demo_start) d 77 (view demo_start) = (0, view s')"
proof -
  let ?st = "demo_call SENDMESSAGE d 77" and ?s = "trap (demo_call SENDMESSAGE d 77) demo_start"
  note f = trap_call [OF demo_at_call [of SENDMESSAGE d 77], of demo_start, simplified]
  have "send_guard d ?s" using g by (simp add: send_guard_def some_message_def)
  then have "exc_guard ?s" by (simp add: exc_guard_def sys_guard_def f)
  from call_step [OF demo_ok demo_at_call this] obtain s' where
    s': "kernel_step ?s (syscall_event ?s s') s'" "nucleus_ok s'" "office_step (office demo_start) (syscall_event ?s s') (office s')" by blast
  have e: "syscall_event ?s s' = Sends p0 d 77 (gpr (exception_state s') reg_v0)" by (simp add: syscall_event_def f Let_def demo_start_main(3))
  from s'(3) [unfolded e] have m: "mailbox_send (allocated demo_start) d 77 (view demo_start) = (gpr (exception_state s') reg_v0, view s')"
    by (auto elim!: office_sendsE dest: arg_cong [where f = boxes])
  have "blanks (view demo_start) \<noteq> 0" using demo_msgs_free demo_tables(6) by (simp add: view_def)
  then have "gpr (exception_state s') reg_v0 = 0" using m d by (simp add: mailbox_send_def)
  with s'(1,2) m e that show ?thesis by simp
qed

lemma demo_posts_p1: "send_guard p1 demo_start"
  using demo_p1(1,2) by (simp add: send_guard_def)

theorem nucleus_refines_mailboxes_witness:
  "\<exists>s s'. reachable demo_code s \<and> kernel_step s (Sends p0 p1 77 0) s' \<and> nucleus_step s s' \<and>
     office_step (office s) (Sends p0 p1 77 0) (office s') \<and> letters (view s') p1 = [(p0, 77)]"
proof -
  let ?s = "trap (demo_call SENDMESSAGE p1 77) demo_start"
  obtain s' where s': "kernel_step ?s (Sends p0 p1 77 0) s'"
    "mailbox_send (allocated demo_start) p1 77 (view demo_start) = (0, view s')"
    by (rule demo_posts [OF demo_posts_p1 demo_p1_allocated])
  have "nucleus_step demo_start ?s" by (rule nucleus_step.outside) (simp add: same_kernel_def trap_def)
  then have r: "reachable demo_code ?s" by (rule reachable.step [OF demo_reachable])
  have "letters (view demo_start) p1 = []" using demo_queue [OF demo_queues_at(8)] by (simp add: view_def)
  moreover have "snd (mailbox_send (allocated demo_start) p1 77 (view demo_start)) = view s'" by (simp add: s'(2))
  moreover have "blanks (view demo_start) \<noteq> 0" using s'(2) by (auto simp: mailbox_send_def split: if_splits)
  ultimately have "letters (view s') p1 = [(p0, 77)]"
    using demo_p1_allocated demo_start_main(3) by (auto simp: mailbox_send_def dest!: sym [of _ "view s'"])
  then show ?thesis using nucleus_refines_mailboxes [OF reachable_nucleus_ok [OF r], of s'] r s'(1) by blast
qed

text \<open>C5.  Over any run of the nucleus (exceptions and services under the guards of the reachable states, in any order) in
  which \<open>q\<close> is not ended, the messages of \<open>p\<close> to \<open>q\<close> are neither lost nor made up nor overtaken: what was in the inbox
  and what the run posted, by sends that returned 0 and by the interrupts that answer for the SSI, is what the run took,
  in this order, and what is in the inbox at its end; each receive stores the payload of the message it takes, when it
  stores one.\<close>

theorem messages_in_order:
  assumes "kernel_run s es s'" "nucleus_ok s" "\<forall>e \<in> set es. q \<notin> ended e"
  shows "\<exists>vs. mail p q (view s) @ posted p q es = vs @ mail p q (view s') \<and> list_all2 seen vs (taken p q es)"
  by (rule run_mail [OF assms])

text \<open>The SSI of the demo sends to itself and receives.\<close>

theorem messages_in_order_witness:
  "\<exists>s'. kernel_run demo_start [Works, Sends p0 p0 77 0, Works, Gets p0 ANYMESSAGE p0 (Some 77)] s' \<and> mail p0 p0 (view s') = []"
proof -
  have cpu: "on_cpu (view demo_start) = p0" using demo_start_main(3) by simp
  have a: "allocated demo_start p0" using current_facts(1) [OF demo_start_main(2)] by (simp add: demo_start_main(3))
  have e: "letters (view demo_start) p0 = []" using demo_queue [OF demo_queues_at(7)] by (simp add: view_def)
  have g: "send_guard p0 demo_start" using demo_p1(3) by (simp add: send_guard_def demo_start_main(3))
  from demo_posts [OF g a] obtain s where
    s: "kernel_step (trap (demo_call SENDMESSAGE p0 77) demo_start) (Sends p0 p0 77 0) s" "nucleus_ok s"
    "mailbox_send (allocated demo_start) p0 77 (view demo_start) = (0, view s)" by blast
  have "snd (mailbox_send (allocated demo_start) p0 77 (view demo_start)) = view s" by (simp add: s(3))
  moreover have "blanks (view demo_start) \<noteq> 0" using s(3) by (auto simp: mailbox_send_def split: if_splits)
  ultimately have l: "letters (view s) p0 = [(p0, 77)]" "on_cpu (view s) = p0"
    using a by (auto simp: mailbox_send_def e cpu simp del: on_cpu_view dest!: sym [of _ "view s"])
  then have c: "current_process s = p0" by simp
  let ?st = "demo_call RECEIVEMESSAGE ANYMESSAGE 0x20031000" and ?s = "trap (demo_call RECEIVEMESSAGE ANYMESSAGE 0x20031000) s"
  note f = trap_call [OF demo_at_call [of RECEIVEMESSAGE ANYMESSAGE "0x20031000"], of s, simplified]
  have "recv_guard ANYMESSAGE ?s" using c by (simp add: recv_guard_def)
  then have "exc_guard ?s" by (simp add: exc_guard_def sys_guard_def f)
  from call_step [OF s(2) demo_at_call this] obtain s' where
    s': "kernel_step ?s (syscall_event ?s s') s'" "office_step (office s) (syscall_event ?s s') (office s')" by blast
  have ev: "syscall_event ?s s' = (if current_process s' = p0 then Gets p0 ANYMESSAGE (gpr (exception_state s') reg_v0) (Some (mem s' 0x20031000))
      else Waits p0 ANYMESSAGE)" by (simp add: syscall_event_def f Let_def c)
  have r: "mailbox_recv (\<lambda>t. ANYMESSAGE = ANYMESSAGE \<or> pid_of s t = pid_of s ANYMESSAGE) (view s) =
      (Some (p0, 77), (view s)\<lparr>letters := (letters (view s))(p0 := []), blanks := blanks (view s) + 1\<rparr>)"
    by (simp add: mailbox_recv_def l c List.extract_def)
  have "kernel_step ?s (Gets p0 ANYMESSAGE p0 (Some 77)) s'"
    using s'(1,2) r unfolding ev by (auto elim!: office_getsE office_waitsE split: if_splits)
  then have run: "kernel_run demo_start [Works, Sends p0 p0 77 0, Works, Gets p0 ANYMESSAGE p0 (Some 77)] s'"
    using s(1) by (blast intro: kernel_run.intros trap_outside)
  have "mail p0 p0 (view demo_start) = []" by (simp add: mail_def e)
  with messages_in_order [OF run demo_ok, of p0 p0] run show ?thesis by (auto simp: list_all2_Cons2)
qed

text \<open>C6.  Round robin: in any run of the nucleus (exceptions and services under the guards of the reachable states, in
  any order) in which the process at place \<open>i\<close> of the ready queue is not itself moved to a device or clock queue, it gets
  the processor by the turn \<open>i + 1\<close> at the latest, whatever is sent, woken, created and ended meanwhile; a turn is
  the end of a time slice, a receive that waits, the death of the running process, or an interrupt of an idle
  processor.  And as long as a process runs the turns can come: there is a run of any number of time slices.\<close>

theorem round_robin:
  assumes "nucleus_ok s" "waiting_at p i (view s)"
  shows "(\<forall>es s'. kernel_run s es s' \<longrightarrow> Blocks p \<notin> set es \<longrightarrow> i < turns es \<longrightarrow>
      (\<exists>as bs t. es = as @ bs \<and> turns as \<le> Suc i \<and> kernel_run s as t \<and> kernel_run t bs s' \<and> current_process t = p)) \<and>
    (current_process s \<noteq> NULL \<longrightarrow> (\<exists>es s'. kernel_run s es s' \<and> turns es = n \<and> set es \<subseteq> {Works, Slice}))"
  using run_waiting [OF _ assms] slices_run [OF assms(1)] by simp

text \<open>In the demo the test process, first in the ready queue, gets the processor at the end of the first time slice.\<close>

theorem round_robin_witness:
  "\<exists>as t. kernel_run demo_start as t \<and> turns as \<le> 1 \<and> current_process t = p1"
proof -
  have w: "waiting_at p1 0 (view demo_start)" using demo_queue [OF demo_queues_at(1)] by (simp add: waiting_at_def view_def)
  note r = round_robin [OF demo_ok w, of 1]
  obtain es s' where s': "kernel_run demo_start es s'" "turns es = 1" "set es \<subseteq> {Works, Slice}"
    using conjunct2 [OF r] by (auto simp: demo_start_main(3))
  have "(0::nat) < turns es" "Blocks p1 \<notin> set es" using s'(2,3) by auto
  from conjunct1 [OF r, rule_format, OF s'(1) this(2,1)] obtain as t where
    "turns as \<le> Suc 0" "kernel_run demo_start as t" "current_process t = p1" by (elim exE conjE)
  then show ?thesis by (intro exI [of _ as] exI [of _ t]) simp
qed

end
