(* ===== verification/Spec2Isabelle.thy ===== *)
theory Spec2Isabelle
  imports Phase1_Props Klog_Props Mutex_Props P2test_Props P1test_Props Service_Props Print_Props Mailbox_Props
begin

text \<open>
  MicroPandOS, a microkernel for the uMPS3 machine.  The development models the C code of the kernel
  under \<^verbatim>\<open>src/\<close> and proves it correct against what it promises; where the code does not keep a
  promise, a theorem shows what it does instead.

  \<^bold>\<open>The program.\<close>  Phase 1 is the data: intrusive doubly linked lists
  (\<^verbatim>\<open>headers/listx.h\<close>), process control blocks in queues and trees
  (\<^verbatim>\<open>phase1/pcb.c\<close>), messages in inboxes (\<^verbatim>\<open>phase1/msg.c\<close>), all in static
  arrays.  Phase 2 is the nucleus: the boot (\<^verbatim>\<open>initial.c\<close>), the round robin scheduler
  (\<^verbatim>\<open>scheduler.c\<close>), exceptions with the two system calls that send and receive messages
  (\<^verbatim>\<open>exceptions.c\<close>), interrupts (\<^verbatim>\<open>interrupts.c\<close>) and the system service
  interface, a process that grants services to those that send it a request (\<^verbatim>\<open>ssi.c\<close>).
  Phase 3 is the support level, code that runs in processes: the pager and the swap pool
  (\<^verbatim>\<open>vmSupport.c\<close>), the exceptions passed up (\<^verbatim>\<open>sysSupport.c\<close>), service threads
  (\<^verbatim>\<open>sst.c\<close>), device processes and the mutex (\<^verbatim>\<open>utils.c\<close>), and the start of it all
  (\<^verbatim>\<open>initProc.c\<close>).  \<^verbatim>\<open>klog.c\<close> is a log in memory.

  \<^bold>\<open>The state.\<close>  Pointers, registers and counters are 32-bit words.  The nucleus works on one
  record, \<open>sys\<close> (\<open>Kernel_State\<close>): the links of all list nodes as two maps on the type \<open>lh\<close> of
  nodes (a node is a field of a PCB or a message, or a global list head), the structures as maps from
  addresses, the globals, and the registers the code uses.  A dereference of what does not exist is the
  value \<open>None\<close>.  A list operation is the stores the macro makes, in their order.  The support level
  works on \<open>world\<close> (\<open>World\<close>), which adds its globals; its code is a value of \<open>prog\<close>, a
  resumption that reads, writes, makes a system call or gives the processor away, and \<open>run\<close> runs it
  against an environment that says what happens until a call returns; \<open>calls\<close> lists the calls made.

  \<^bold>\<open>Theories, in the order of the code.\<close>
  \<open>Prelude\<close> has the constants of \<^verbatim>\<open>headers/const.h\<close> and lemmas on lists and words.
  \<open>Listx\<close> has the list macros and their effect on rings.  \<open>Queues\<close> has the abstraction: a family
  of queues \<open>A\<close> maps each list head to the nodes in its ring, and \<open>represents s A\<close> says that the
  links of the state are those rings, disjoint.  \<open>Kernel_State\<close>, \<open>Pcb\<close>, \<open>Pcb_Alloc\<close>
  and \<open>Msg\<close> have the records and phase 1, each operation with its effect on \<open>A\<close>.
  The locales \<open>fifo\<close> (in \<open>Queues\<close>) and \<open>fifo_remove\<close> are the interfaces of the queues;
  \<open>Queue_Instances\<close> interprets them on process queues, the free list, child lists and inboxes.
  \<open>Scheduler\<close>, \<open>Ssi\<close>, \<open>Interrupts\<close>, \<open>Exceptions\<close>, \<open>Initial\<close> have the
  code of phase 2, with the invariant \<open>kernel_inv\<close> in \<open>Scheduler\<close>; \<open>Terminate\<close>,
  \<open>Terminate_Inv\<close>, \<open>Ssi_Correct\<close>, \<open>Ipc_Correct\<close>, \<open>Interrupt_Correct\<close>,
  \<open>Passup\<close> and \<open>Boot\<close> show what each handler does and that it keeps the invariant.
  \<open>Forest\<close> shows that the process tree has no cycle.  \<open>Nucleus\<close> defines \<open>nucleus_ok\<close>,
  the guards and the reachable states; \<open>Dispatch\<close> and \<open>Services\<close> close it under exceptions and
  services.  \<open>Demo\<close> has a concrete memory image, and the states a few operations after its boot, on which
  the theorems are applied.  \<open>Nucleus_Props\<close>, \<open>Ipc_Props\<close>, \<open>Ssi_Props\<close>,
  \<open>Irq_Props\<close> and \<open>Phase1_Props\<close> have the properties of the nucleus.  \<open>Klog\<close> and
  \<open>Klog_Props\<close> have the log.
  \<open>World\<close>, \<open>Sup_Utils\<close>, \<open>Sup_Exceptions\<close>, \<open>Vm_Support\<close>, \<open>Sst\<close>,
  \<open>Init_Proc\<close> have the code of phase 3; \<open>Swap_Correct\<close> has the invariant of the pager and its
  steps, \<open>Calls\<close> the rules for the calls of a process, \<open>Startup\<close> the tables the start sets up,
  \<open>Paged\<close> the states page faults and TLB misses lead to from there, \<open>Vm_Props\<close> and \<open>Sst_Props\<close> the
  properties.
  \<open>Threads\<close> runs such processes side by side, one call at a time, with an inbox each;
  \<open>Protocol\<close> shows that the handlers of a user process follow the protocol of the mutex,
  \<open>Mutex\<close> that this keeps the swap pool to one process at a time, \<open>Mutex_Runs\<close> follows runs,
  and \<open>Mutex_Props\<close> has the properties.
  \<open>P2test\<close> and \<open>P2test_Processes\<close> have the processes of \<^verbatim>\<open>p2test.c\<close>, the test of
  the nucleus, and \<open>P2test_Props\<close> the first check of the root process run on the model of the nucleus, and
  what the processes do when all is well or not.
  \<open>P1test\<close> has the test of phase 1, \<^verbatim>\<open>p1test.c\<close>, as commands on its variables and the
  state of phase 1.  \<open>P1test_Correct\<close> has what the operations do to its lists, some of which start in local
  variables, \<open>P1test_Runs\<close> rules for commands, \<open>P1test_Parts\<close> what each part of the test does, and
  \<open>P1test_Props\<close> that it passes its checks up to the first search of a message by its sender.
  \<open>Rendezvous\<close> puts a process and the SSI on the nucleus: traps, \<open>SSI_turn\<close> (one round of
  \<^verbatim>\<open>SSI\<close>), and \<open>kernel_call\<close>, a system call with the dispatches it causes.  \<open>Service_Props\<close>
  shows that a request is answered through it, and runs \<^verbatim>\<open>getSupStruct\<close> of the support level on it.
  \<open>Mailboxes\<close> has an abstract kernel, a process on the processor, a list of ready ones, a list of letters
  for each, a stock of blank ones and the processes alive, with a rule for each kind of event; \<open>Mail_Steps\<close>
  gives every step of the nucleus its event, computed from the state, and shows that exceptions and services, under
  their guards, do what the rule for the event does; \<open>Mailbox_Props\<close> has runs of labelled steps: the
  refinement, the order of messages, and the turns of the ready processes.
  \<open>Testers\<close> has the user programs of \<^verbatim>\<open>src/testers\<close> and \<open>in_user_mode\<close>, which passes
  each of their calls up through \<^verbatim>\<open>exceptionHandler\<close> and \<^verbatim>\<open>supExceptionHandler\<close>;
  \<open>Testers_Correct\<close> has the rules for what a program asks its service thread, \<open>Testers_Props\<close> what the
  clock test asks and what \<^verbatim>\<open>fib\<close> computes, and \<open>Print_Props\<close> what the terminal and the printer show
  when service threads and device processes serve the programs.

  \<^bold>\<open>What is shown.\<close>  The reachable states are those after the boot, exceptions and services, each
  under a guard that names what the code relies on: a valid current process and requester, a device that
  is waited for, a free message for an interrupt, and that the argument of a service is not linked where
  the service does not look.  In all of them the lists are well formed and disjoint, the counters are
  right, and the process tree is a forest; every guarded step returns.  Two theorems show that the guards
  are needed, on states the code reaches without them.  For each handler there is a theorem that says
  what it changes and that it changes nothing else.  Step by step, over the same guarded exceptions and services,
  the nucleus refines a kernel of lists; over its runs the messages of one process to another keep their order and
  none is lost or made up unless the receiver is ended; the ready processes take turns.  For the support level the
  pager's invariant says that valid pages have frames of their own, the swap pool names them, and the TLB agrees with
  the page tables; it holds after the tables are set up and after each fault that is served, with the flash devices
  working, until a frame is released or the pool is full for the first time, when the pager reads outside its table.  The mutex excludes whatever the order in which the
  calls of user processes, the mutex process and the SSI are served, as long as no user process names the
  mutex process in a call of its own (\<open>polite\<close>); one theorem shows how a trap takes the mutex away.

  \<^bold>\<open>Bounds and fuel.\<close>  There are 50 PCBs and 50 messages.  \<open>searchProcQ\<close> looks at up to 52
  nodes, as the code does, and that suffices.  The recursion of \<open>terminateProcess\<close> is a
  \<open>partial_function\<close>: on a well formed tree it ends.  Walks along a ring that the code bounds by the ring
  itself carry a fuel of more nodes than exist.  The string loop of a printer has fuel, and a string
  shorter than the fuel is printed in full; so has the loop of the user programs that counts a string, and 40 is
  enough for every literal.  \<open>fib\<close> is a \<open>partial_function\<close>, defined exactly from 1 to 46.  The wait for the terminal in the test of phase 1 has a fuel of
  reads; it suffices for a terminal that answers within that many.  Endless loops of processes are given by one round.

  \<^bold>\<open>Parameters.\<close>  The uMPS3 headers and the BIOS are not in the repository: the page number and
  exception code macros, the TLB probe and the number of TLB slots, the addresses of functions and local
  variables, and the clock are parameters or fields of the state.

  \<^bold>\<open>Not modelled.\<close>  The build files; the image of the flash devices the user programs are loaded from.
  The support level runs on the nucleus where \<open>kernel_call\<close> carries its calls, requests to the SSI for what is in
  the PCB of the caller, with no interrupt in between, and where \<open>in_user_mode\<close> passes user calls up.
  Elsewhere its environment, and in \<open>Threads\<close> the inboxes and the relation \<open>R\<close>, stand for the rest of the
  system, and processes change places at system calls only.
\<close>

end
